(* ===== verification/Prelude.thy ===== *)
theory Prelude
  imports "HOL-Library.Word" "HOL-Library.Sublist"
begin

text \<open>
  The JavaScript values the components share, and the generic lemmas about them.

  A JavaScript string is a sequence of 16-bit code units, a \<open>Uint8Array\<close> or
  \<open>ArrayBuffer\<close> a sequence of bytes; both are lists of words of their width. String literals of
  the source are written \<open>js ''...''\<close>. The methods of \<open>String.prototype\<close> and
  \<open>Array.prototype\<close> that the sources call (\<open>split\<close>, \<open>join\<close>, \<open>startsWith\<close>,
  \<open>endsWith\<close>, \<open>indexOf\<close>, \<open>lastIndexOf\<close>, \<open>slice\<close>, \<open>toLowerCase\<close>,
  \<open>trim\<close>) are defined here once, as the language defines them.
\<close>

section \<open>Strings and bytes\<close>

type_synonym code_unit = "16 word"
type_synonym jsstr = "code_unit list"
type_synonym byte = "8 word"
type_synonym bytes = "byte list"

definition js :: "string \<Rightarrow> jsstr" where
  "js s = map (\<lambda>c. of_nat (of_char c)) s"

text \<open>
  Storing a number into a \<open>Uint8Array\<close> keeps its low 8 bits, \<open>String.fromCharCode\<close> its
  low 16 bits.
\<close>

definition to_byte :: "nat \<Rightarrow> byte" where
  "to_byte n = of_nat n"

definition to_unit :: "nat \<Rightarrow> code_unit" where
  "to_unit n = of_nat n"

named_theorems js_defs \<open>definitions of the string methods\<close>

lemma js_Nil [simp]: "js [] = []"
  by (simp add: js_def)

lemma length_js [simp]: "length (js s) = length s"
  by (simp add: js_def)

subsection \<open>Array and String methods\<close>

text \<open>\<open>s.split(c)\<close> for a separator of one code unit.\<close>

fun split_on :: "'a \<Rightarrow> 'a list \<Rightarrow> 'a list list" where
  "split_on c [] = [[]]"
| "split_on c (x # xs) =
     (if x = c then [] # split_on c xs
      else (case split_on c xs of [] \<Rightarrow> [[x]] | y # ys \<Rightarrow> (x # y) # ys))"

text \<open>\<open>parts.join(sep)\<close>.\<close>

fun join_with :: "'a list \<Rightarrow> 'a list list \<Rightarrow> 'a list" where
  "join_with sep [] = []"
| "join_with sep [x] = x"
| "join_with sep (x # y # ys) = x @ sep @ join_with sep (y # ys)"

definition starts_with :: "'a list \<Rightarrow> 'a list \<Rightarrow> bool" where
  [js_defs]: "starts_with s p \<longleftrightarrow> take (length p) s = p"

definition ends_with :: "'a list \<Rightarrow> 'a list \<Rightarrow> bool" where
  [js_defs]: "ends_with s p \<longleftrightarrow> starts_with (rev s) (rev p)"

text \<open>\<open>s.slice(a, b)\<close> for indices that are not negative.\<close>

definition jslice :: "'a list \<Rightarrow> nat \<Rightarrow> nat \<Rightarrow> 'a list" where
  [js_defs]: "jslice s a b = take (b - a) (drop a s)"

text \<open>
  \<open>s.indexOf(p)\<close> and \<open>s.lastIndexOf(c)\<close>, with \<open>None\<close> for the answer \<open>-1\<close>.
\<close>

fun index_of :: "'a list \<Rightarrow> 'a list \<Rightarrow> nat option" where
  "index_of [] p = (if p = [] then Some 0 else None)"
| "index_of (x # xs) p =
     (if starts_with (x # xs) p then Some 0 else map_option Suc (index_of xs p))"

fun index_of_char :: "'a list \<Rightarrow> 'a \<Rightarrow> nat option" where
  "index_of_char [] c = None"
| "index_of_char (x # xs) c = (if x = c then Some 0 else map_option Suc (index_of_char xs c))"

definition last_index_of_char :: "'a list \<Rightarrow> 'a \<Rightarrow> nat option" where
  [js_defs]: "last_index_of_char s c =
     map_option (\<lambda>i. length s - 1 - i) (index_of_char (rev s) c)"

text \<open>
  \<open>toLowerCase\<close> for code units below 256 (ASCII and Latin-1); every other code unit is left
  as it is, which is where the model stops following the Unicode tables.
\<close>

definition lower_unit :: "code_unit \<Rightarrow> code_unit" where
  "lower_unit c = (if (65 \<le> c \<and> c \<le> 90) \<or> (192 \<le> c \<and> c \<le> 222 \<and> c \<noteq> 215)
     then c + 32 else c)"

definition to_lower :: "jsstr \<Rightarrow> jsstr" where
  [js_defs]: "to_lower s = map lower_unit s"

text \<open>White space as \<open>\<backslash>s\<close> and \<open>trim\<close> know it.\<close>

definition is_space :: "code_unit \<Rightarrow> bool" where
  "is_space c \<longleftrightarrow> (9 \<le> c \<and> c \<le> 13) \<or> c = 32 \<or> c = 160 \<or> c = 0x1680 \<or>
     (0x2000 \<le> c \<and> c \<le> 0x200a) \<or> c = 0x2028 \<or> c = 0x2029 \<or> c = 0x202f \<or>
     c = 0x205f \<or> c = 0x3000 \<or> c = 0xfeff"

definition trim_start :: "jsstr \<Rightarrow> jsstr" where
  [js_defs]: "trim_start s = dropWhile is_space s"

definition trim :: "jsstr \<Rightarrow> jsstr" where
  [js_defs]: "trim s = rev (trim_start (rev (trim_start s)))"

subsection \<open>Numbers and their digits\<close>

text \<open>\<open>n.toString(radix)\<close> of a number that is not negative, \<open>padStart\<close>, \<open>parseInt\<close>.\<close>

definition digit_char :: "nat \<Rightarrow> code_unit" where
  "digit_char d = to_unit (if d < 10 then 48 + d else 87 + d)"

function to_radix :: "nat \<Rightarrow> nat \<Rightarrow> jsstr" where
  "to_radix r n = (if r < 2 \<or> n < r then [digit_char n]
     else to_radix r (n div r) @ [digit_char (n mod r)])"
  by pat_completeness auto
termination
  by (relation "measure snd") (auto simp: div_less_dividend)

declare to_radix.simps [simp del]

definition pad_start :: "nat \<Rightarrow> code_unit \<Rightarrow> jsstr \<Rightarrow> jsstr" where
  "pad_start k c s = replicate (k - length s) c @ s"

definition digit_value :: "code_unit \<Rightarrow> nat option" where
  "digit_value c =
     (if 48 \<le> c \<and> c \<le> 57 then Some (unat c - 48)
      else if 97 \<le> c \<and> c \<le> 122 then Some (unat c - 87)
      else if 65 \<le> c \<and> c \<le> 90 then Some (unat c - 55)
      else None)"

definition is_digit_of :: "nat \<Rightarrow> code_unit \<Rightarrow> bool" where
  "is_digit_of r c \<longleftrightarrow> (case digit_value c of None \<Rightarrow> False | Some d \<Rightarrow> d < r)"

definition digits_value :: "nat \<Rightarrow> jsstr \<Rightarrow> nat" where
  "digits_value r s = foldl (\<lambda>a c. a * r + the (digit_value c)) 0 s"

text \<open>
  \<open>parseInt(s, r)\<close> for \<open>r\<close> 10 or 16: leading white space, a sign, for 16 a prefix \<open>0x\<close>, then
  as many digits as there are; \<open>None\<close> is \<open>NaN\<close>. Numbers stay exact where the source
  rounds above \<open>2^53\<close>.
\<close>

definition parse_int :: "nat \<Rightarrow> jsstr \<Rightarrow> int option" where
  "parse_int r s =
     (let t = trim_start s;
          neg = starts_with t [45];
          u = (if starts_with t [45] \<or> starts_with t [43] then tl t else t);
          v = (if r = 16 \<and> (starts_with u [48, 120] \<or> starts_with u [48, 88]) then drop 2 u else u);
          ds = takeWhile (is_digit_of r) v
      in if ds = [] then None
         else Some (if neg then - int (digits_value r ds) else int (digits_value r ds)))"

section \<open>Lemmas on the methods\<close>

lemma split_on_not_Nil [simp]: "split_on c s \<noteq> []"
  by (cases s) (auto split: list.splits)

lemma join_with_Cons: "ys \<noteq> [] \<Longrightarrow> join_with sep (x # ys) = x @ sep @ join_with sep ys"
  by (cases ys) auto

lemma join_with_append:
  "xs \<noteq> [] \<Longrightarrow> ys \<noteq> [] \<Longrightarrow>
   join_with sep (xs @ ys) = join_with sep xs @ sep @ join_with sep ys"
  by (induction xs rule: induct_list012) (auto simp: join_with_Cons)

lemma join_split_on [simp]: "join_with [c] (split_on c s) = s"
proof (induction s)
  case (Cons x xs)
  obtain y ys where "split_on c xs = y # ys" by (cases "split_on c xs") auto
  with Cons show ?case by (cases ys) auto
qed simp

lemma split_on_append [simp]: "split_on c (s @ c # t) = split_on c s @ split_on c t"
  by (induction s) (auto split: list.splits)

lemma split_on_none: "c \<notin> set s \<Longrightarrow> split_on c s = [s]"
  by (induction s) auto

lemma split_on_Cons_same: "split_on c (c # s) = [] # split_on c s"
  by simp

lemma split_on_parts: "x \<in> set (split_on c s) \<Longrightarrow> c \<notin> set x"
proof (induction s arbitrary: x)
  case (Cons a s)
  then show ?case
    by (cases "split_on c s") (auto split: if_splits)
qed simp

lemma split_on_join:
  "ps \<noteq> [] \<Longrightarrow> \<forall>p\<in>set ps. c \<notin> set p \<Longrightarrow> split_on c (join_with [c] ps) = ps"
proof (induction ps rule: induct_list012)
  case (3 x y zs)
  then show ?case using split_on_append [of c x "join_with [c] (y # zs)"]
    by (simp add: split_on_none)
qed (simp_all add: split_on_none)

lemma starts_with_Nil [simp]: "starts_with s []"
  by (simp add: starts_with_def)

lemma starts_with_prefix: "starts_with s p \<longleftrightarrow> prefix p s"
  by (auto simp: starts_with_def prefix_def) (metis append_take_drop_id)

lemma starts_with_append [simp]: "starts_with (p @ s) p"
  by (simp add: starts_with_def)

lemma starts_with_single: "starts_with s [c] \<longleftrightarrow> s \<noteq> [] \<and> hd s = c"
  by (cases s) (auto simp: starts_with_def)

lemma ends_with_suffix: "ends_with s p \<longleftrightarrow> suffix p s"
  by (simp add: ends_with_def starts_with_prefix suffix_to_prefix)

lemma ends_with_single: "ends_with s [c] \<longleftrightarrow> s \<noteq> [] \<and> last s = c"
  by (simp add: ends_with_def starts_with_single hd_rev)

lemma index_of_char_None [simp]: "index_of_char s c = None \<longleftrightarrow> c \<notin> set s"
  by (induction s) auto

lemma index_of_char_Some:
  "index_of_char s c = Some i \<Longrightarrow>
   i < length s \<and> s ! i = c \<and> c \<notin> set (take i s) \<and> s = take i s @ c # drop (Suc i) s"
  by (induction s arbitrary: i) (auto split: if_splits)

lemma index_of_char_append:
  "c \<notin> set s \<Longrightarrow> index_of_char (s @ c # t) c = Some (length s)"
  by (induction s) auto

lemma unat_to_byte [simp]: "unat (to_byte n) = n mod 256"
  by (simp add: to_byte_def unat_of_nat)

lemma unat_to_unit [simp]: "unat (to_unit n) = n mod 65536"
  by (simp add: to_unit_def unat_of_nat)

lemma to_byte_unat [simp]: "to_byte (unat b) = b"
  by (simp add: to_byte_def)

lemma to_unit_unat [simp]: "to_unit (unat c) = c"
  by (simp add: to_unit_def)

lemma unat_byte: "unat (b :: byte) < 256"
  using unsigned_less [where ?'b = 8 and ?'a = nat and w = b] by simp

lemma unat_unit: "unat (c :: code_unit) < 65536"
  using unsigned_less [where ?'b = 16 and ?'a = nat and w = c] by simp

subsection \<open>Reading back a number\<close>

lemma digit_char_value: "d < 16 \<Longrightarrow> digit_value (digit_char d) = Some d"
  by (auto simp: digit_value_def digit_char_def word_le_nat_alt)

lemma is_digit_char: "d < r \<Longrightarrow> r \<le> 16 \<Longrightarrow> is_digit_of r (digit_char d)"
  by (simp add: is_digit_of_def digit_char_value)

lemma digits_value_snoc: "digits_value r (s @ [c]) = digits_value r s * r + the (digit_value c)"
  by (simp add: digits_value_def)

lemma digit_char_not_sign:
  "d < 16 \<Longrightarrow> digit_char d \<noteq> 45 \<and> digit_char d \<noteq> 43 \<and> digit_char d \<noteq> 120 \<and> digit_char d \<noteq> 88 \<and>
     \<not> is_space (digit_char d)"
proof -
  assume "d < 16"
  then have "d \<in> set [0..<16]" by simp
  then show ?thesis
    by (simp add: upt_conv_Cons) (auto simp: digit_char_def to_unit_def is_space_def)
qed

lemma to_radix_digits: "2 \<le> r \<Longrightarrow> r \<le> 16 \<Longrightarrow> \<exists>ds. to_radix r n = map digit_char ds \<and> ds \<noteq> [] \<and>
    (\<forall>d\<in>set ds. d < r)"
proof (induction r n rule: to_radix.induct)
  case (1 r n)
  show ?case
  proof (cases "n < r")
    case True
    then show ?thesis by (subst to_radix.simps) (auto intro: exI [of _ "[n]"])
  next
    case False
    then obtain ds where "to_radix r (n div r) = map digit_char ds" "\<forall>d\<in>set ds. d < r"
      using "1.IH" "1.prems" by auto
    then show ?thesis using False "1.prems"
      by (subst to_radix.simps) (auto intro!: exI [of _ "ds @ [n mod r]"])
  qed
qed

lemma digits_value_to_radix: "2 \<le> r \<Longrightarrow> r \<le> 16 \<Longrightarrow> digits_value r (to_radix r n) = n"
proof (induction r n rule: to_radix.induct)
  case (1 r n)
  have "n mod r < 16" using "1.prems" using mod_less_divisor [of r n] by linarith
  then show ?case using "1.IH" "1.prems"
    by (cases "n < r")
       (subst to_radix.simps; simp add: digits_value_snoc digit_char_value; simp add: digits_value_def digit_char_value)+
qed

lemma parse_int_to_radix:
  assumes "r = 10 \<or> r = 16" "w = [] \<or> \<not> is_digit_of r (hd w) \<and> hd w \<noteq> 120 \<and> hd w \<noteq> 88"
  shows "parse_int r (to_radix r n @ w) = Some (int n)"
proof -
  have r: "2 \<le> r" "r \<le> 16" using assms(1) by auto
  obtain ds where ds: "to_radix r n = map digit_char ds" "ds \<noteq> []" "\<forall>d\<in>set ds. d < r"
    using to_radix_digits [OF r] by blast
  obtain d ds' where c: "ds = d # ds'" using ds(2) by (cases ds) auto
  have d: "d < 16" using ds(3) c r by auto
  have t: "trim_start (to_radix r n @ w) = to_radix r n @ w"
    using digit_char_not_sign [OF d] by (simp add: trim_start_def ds(1) c)
  have h: "\<not> starts_with (to_radix r n @ w) [45]" "\<not> starts_with (to_radix r n @ w) [43]"
    using digit_char_not_sign [OF d] by (simp_all add: starts_with_def ds(1) c)
  have x: "\<not> starts_with (to_radix r n @ w) [48, 120]" "\<not> starts_with (to_radix r n @ w) [48, 88]"
    using ds(3) digit_char_not_sign r assms(2)
    by (cases ds'; cases w; auto simp: starts_with_def ds(1) c dest: sym)+
  have "takeWhile (is_digit_of r) (to_radix r n @ w) = to_radix r n"
    using ds r assms(2) by (cases w) (simp_all add: is_digit_char takeWhile_append takeWhile_eq_all_conv)
  moreover have "to_radix r n \<noteq> []" using ds by simp
  ultimately show ?thesis
    by (simp only: parse_int_def Let_def t h x if_False simp_thms digits_value_to_radix [OF r])
qed

lemma length_dropWhile_less [termination_simp]: "length (dropWhile P xs) < Suc (length xs)"
  by (simp add: le_imp_less_Suc length_dropWhile_le)

section \<open>Runs of a deterministic component\<close>

text \<open>
  Several components are objects whose methods each take the object's state to the next one. An
  invariant that every method keeps holds after any sequence of calls; the same holds for a
  method that may throw, where the state after the throw counts as well.
\<close>

locale component =
  fixes step :: "'s \<Rightarrow> 'op \<Rightarrow> 's"
    and inv :: "'s \<Rightarrow> bool"
  assumes step_inv: "inv s \<Longrightarrow> inv (step s a)"
begin

lemma run_inv: "inv s \<Longrightarrow> inv (foldl step s as)"
  by (induction as arbitrary: s) (auto intro: step_inv)

end

text \<open>
  The same when only some calls are made: the environment promises that they are \<open>legal\<close>. A
  component that keeps its invariant whatever it is asked is the case where every call is.
\<close>

fun legal_run :: "('s \<Rightarrow> 'op \<Rightarrow> 's) \<Rightarrow> ('s \<Rightarrow> 'op \<Rightarrow> bool) \<Rightarrow> 's \<Rightarrow> 'op list \<Rightarrow> bool" where
  "legal_run step legal s [] = True"
| "legal_run step legal s (a # as) = (legal s a \<and> legal_run step legal (step s a) as)"

locale guarded_component =
  fixes step :: "'s \<Rightarrow> 'op \<Rightarrow> 's"
    and inv :: "'s \<Rightarrow> bool"
    and legal :: "'s \<Rightarrow> 'op \<Rightarrow> bool"
  assumes legal_inv: "inv s \<Longrightarrow> legal s a \<Longrightarrow> inv (step s a)"
begin

lemma run_legal: "inv s \<Longrightarrow> legal_run step legal s as \<Longrightarrow> inv (foldl step s as)"
  by (induction as arbitrary: s) (auto intro: legal_inv)

end

lemma legal_run_all: "legal_run step (\<lambda>_. P) s as = list_all P as"
  by (induction as arbitrary: s) auto

sublocale component \<subseteq> all: guarded_component step inv "\<lambda>_ _. True"
  by unfold_locales (rule step_inv)

section \<open>Splitting a stream of chunks\<close>

text \<open>
  A stream arrives in chunks that do not respect the boundaries of the messages in it. \<open>feed\<close>
  gives a consumer its chunks one after the other, until it throws, and collects what it returns.
\<close>

fun feed :: "('s \<Rightarrow> 'c \<Rightarrow> 's \<times> ('e + 'f list)) \<Rightarrow> 's \<Rightarrow> 'c list \<Rightarrow> 's \<times> ('e + 'f list)" where
  "feed push s [] = (s, Inr [])"
| "feed push s (c # cs) =
     (case push s c of
        (t, Inl e) \<Rightarrow> (t, Inl e)
      | (t, Inr fs) \<Rightarrow> (case feed push t cs of
            (u, Inl e) \<Rightarrow> (u, Inl e)
          | (u, Inr gs) \<Rightarrow> (u, Inr (fs @ gs))))"

text \<open>
  The contract of a splitter: \<open>parse1\<close> looks for one message at the front of the buffer, its answer
  does not depend on what follows, and \<open>loop\<close> takes messages off as long as it finds one. Then the
  boundaries of the chunks do not matter.
\<close>

locale splitter =
  fixes parse1 :: "'b list \<Rightarrow> ('e + 'f \<times> nat) option"
    and loop :: "'b list \<Rightarrow> 'f list \<Rightarrow> 'b list \<times> ('e + 'f list)"
  assumes loop_unfold: "loop b fs =
      (case parse1 b of
         None \<Rightarrow> (b, Inr fs)
       | Some (Inl e) \<Rightarrow> (b, Inl e)
       | Some (Inr (f, n)) \<Rightarrow> loop (drop n b) (fs @ [f]))"
    and parse1_bounds: "parse1 b = Some (Inr (f, n)) \<Longrightarrow> 0 < n \<and> n \<le> length b"
    and parse1_append: "parse1 b = Some p \<Longrightarrow> parse1 (b @ c) = Some p"
begin

lemma loop_acc: "loop b fs = (r, Inr gs) \<Longrightarrow> \<exists>hs. gs = fs @ hs \<and> (\<forall>fs'. loop b fs' = (r, Inr (fs' @ hs)))"
proof (induction "length b" arbitrary: b fs rule: less_induct)
  case less
  show ?case
  proof (cases "parse1 b")
    case None
    then have *: "loop b fs' = (b, Inr fs')" for fs' by (subst loop_unfold) simp
    then show ?thesis using less.prems by simp
  next
    case (Some p)
    then obtain f n where p: "parse1 b = Some (Inr (f, n))"
      using less.prems by (subst (asm) loop_unfold) (auto split: sum.splits)
    then have *: "loop b fs' = loop (drop n b) (fs' @ [f])" for fs' by (subst loop_unfold) simp
    have "length (drop n b) < length b" using parse1_bounds [OF p] by auto
    then obtain hs where "gs = (fs @ [f]) @ hs" "\<forall>fs'. loop (drop n b) fs' = (r, Inr (fs' @ hs))"
      using less.hyps [of "drop n b" "fs @ [f]"] less.prems * by auto
    then show ?thesis using * by (intro exI [of _ "f # hs"]) simp
  qed
qed

lemma loop_rest: "loop b fs = (r, Inr gs) \<Longrightarrow> loop r [] = (r, Inr [])"
proof (induction "length b" arbitrary: b fs rule: less_induct)
  case less
  show ?case
  proof (cases "parse1 b")
    case None
    then have *: "loop b fs' = (b, Inr fs')" for fs' by (subst loop_unfold) simp
    then show ?thesis using less.prems by simp
  next
    case (Some p)
    then obtain f n where p: "parse1 b = Some (Inr (f, n))"
      using less.prems by (subst (asm) loop_unfold) (auto split: sum.splits)
    then have "loop b fs = loop (drop n b) (fs @ [f])" by (subst loop_unfold) simp
    moreover have "length (drop n b) < length b" using parse1_bounds [OF p] by auto
    ultimately show ?thesis using less.hyps [of "drop n b" "fs @ [f]"] less.prems by simp
  qed
qed

lemma loop_split:
  "loop (b @ c) fs = (r, Inr gs) \<Longrightarrow> \<exists>q hs. loop b fs = (q, Inr hs) \<and> loop (q @ c) hs = (r, Inr gs)"
proof (induction "length b" arbitrary: b fs rule: less_induct)
  case less
  show ?case
  proof (cases "parse1 b")
    case None
    then have "loop b fs = (b, Inr fs)" by (subst loop_unfold) simp
    then show ?thesis using less.prems by blast
  next
    case (Some p)
    have a: "parse1 (b @ c) = Some p" by (rule parse1_append [OF Some])
    then obtain f n where p: "p = Inr (f, n)"
      using less.prems by (subst (asm) loop_unfold) (auto split: sum.splits)
    then have 1: "loop b fs = loop (drop n b) (fs @ [f])" using Some by (subst loop_unfold) simp
    have n: "0 < n" "n \<le> length b" using parse1_bounds Some p by auto
    then have "loop (b @ c) fs = loop (drop n b @ c) (fs @ [f])" using a p by (subst loop_unfold) simp
    then show ?thesis using less.hyps [of "drop n b" "fs @ [f]"] less.prems n 1 by simp
  qed
qed

lemma feed_concat:
  "loop b [] = (b, Inr []) \<Longrightarrow> loop (b @ concat cs) [] = (r, Inr fs) \<Longrightarrow>
   feed (\<lambda>b c. loop (b @ c) []) b cs = (r, Inr fs)"
proof (induction cs arbitrary: b fs)
  case (Cons c cs)
  then obtain q hs where q: "loop (b @ c) [] = (q, Inr hs)" "loop (q @ concat cs) hs = (r, Inr fs)"
    using loop_split [of "b @ c" "concat cs" "[]" r fs] by auto
  obtain ks where ks: "fs = hs @ ks" "loop (q @ concat cs) [] = (r, Inr ks)"
    using loop_acc [OF q(2)] by auto
  show ?case using Cons.IH [OF loop_rest [OF q(1)] ks(2)] q(1) ks(1) by simp
qed simp

end

section \<open>Refinement of a component\<close>

text \<open>
  A component whose operations may throw (\<open>None\<close>) and answer something implements an abstract
  machine that never throws, through an abstraction function: step by step, hence for any sequence
  of operations.
\<close>

fun run_concrete :: "('c \<Rightarrow> 'a \<Rightarrow> ('c \<times> 'o) option) \<Rightarrow> 'c \<Rightarrow> 'a list \<Rightarrow> ('c \<times> 'o list) option" where
  "run_concrete step s [] = Some (s, [])"
| "run_concrete step s (a # as) =
     (case step s a of
        None \<Rightarrow> None
      | Some (t, x) \<Rightarrow> map_option (\<lambda>(u, xs). (u, x # xs)) (run_concrete step t as))"

fun run_abstract :: "('s \<Rightarrow> 'a \<Rightarrow> 's \<times> 'o) \<Rightarrow> 's \<Rightarrow> 'a list \<Rightarrow> 's \<times> 'o list" where
  "run_abstract step s [] = (s, [])"
| "run_abstract step s (a # as) =
     (case step s a of (t, x) \<Rightarrow> case run_abstract step t as of (u, xs) \<Rightarrow> (u, x # xs))"

locale refinement =
  fixes cstep :: "'c \<Rightarrow> 'a \<Rightarrow> ('c \<times> 'o) option"
    and astep :: "'s \<Rightarrow> 'a \<Rightarrow> 's \<times> 'o"
    and abs :: "'c \<Rightarrow> 's"
    and ok :: "'c \<Rightarrow> bool"
  assumes sim: "ok s \<Longrightarrow> \<exists>t x. cstep s a = Some (t, x) \<and> ok t \<and> astep (abs s) a = (abs t, x)"
begin

lemma run_sim:
  "ok s \<Longrightarrow> \<exists>t xs. run_concrete cstep s as = Some (t, xs) \<and> ok t \<and> run_abstract astep (abs s) as = (abs t, xs)"
proof (induction as arbitrary: s)
  case (Cons a as)
  obtain t x where t: "cstep s a = Some (t, x)" "ok t" "astep (abs s) a = (abs t, x)"
    using sim [OF Cons.prems] by blast
  obtain u xs where "run_concrete cstep t as = Some (u, xs)" "ok u" "run_abstract astep (abs t) as = (abs u, xs)"
    using Cons.IH [OF t(2)] by blast
  then show ?case using t by simp
qed simp

end

end
