(* ===== verification/Path_Posix.thy ===== *)
theory Path_Posix
  imports Prelude
begin

text \<open>
  \<open>js/internal/path-posix.js\<close>: the POSIX path functions that the module loader, the permission
  check and the file-system client share. Paths are strings of code units; the module-level
  variable \<open>currentCwd\<close> is the first argument of the functions that read it. The functions
  that scan a string from its end keep the source's loop variables (\<open>start\<close>, \<open>end\<close>,
  \<open>matchedSlash\<close>, ...), with \<open>None\<close> for \<open>-1\<close>. The \<open>TypeError\<close> of
  \<open>checkPath\<close> is outside the model: arguments are strings by their type.
\<close>

abbreviation slash :: code_unit where "slash \<equiv> 47"
abbreviation dot :: code_unit where "dot \<equiv> 46"

section \<open>Operations\<close>

subsection \<open>Normalisation, join, resolve\<close>

fun split_path_loop :: "bool \<Rightarrow> jsstr list \<Rightarrow> jsstr list \<Rightarrow> jsstr list" where
  "split_path_loop absolute out [] = out"
| "split_path_loop absolute out (part # parts) =
     (if part = [] \<or> part = [dot] then split_path_loop absolute out parts
      else if part = [dot, dot] then
        (if out \<noteq> [] \<and> last out \<noteq> [dot, dot] then split_path_loop absolute (butlast out) parts
         else if \<not> absolute then split_path_loop absolute (out @ [[dot, dot]]) parts
         else split_path_loop absolute out parts)
      else split_path_loop absolute (out @ [part]) parts)"

definition is_absolute :: "jsstr \<Rightarrow> bool" where
  "is_absolute v \<longleftrightarrow> starts_with v [slash]"

definition split_path :: "jsstr \<Rightarrow> jsstr list" where
  "split_path v = split_path_loop (starts_with v [slash]) [] (split_on slash v)"

definition normalize :: "jsstr \<Rightarrow> jsstr" where
  "normalize v =
     (let absolute = starts_with v [slash];
          trailingSlash = length v > 1 \<and> ends_with v [slash];
          parts = split_path v;
          out = (if absolute then [slash] else []) @ join_with [slash] parts;
          out = (if out = [] then [dot] else out)
      in if trailingSlash \<and> out \<noteq> [slash] then out @ [slash] else out)"

definition join_path :: "jsstr list \<Rightarrow> jsstr" where
  "join_path vs =
     (if vs = [] then [dot]
      else normalize (join_with [slash] (filter (\<lambda>v. v \<noteq> []) vs)))"

fun resolve_loop :: "jsstr \<Rightarrow> jsstr list \<Rightarrow> jsstr" where
  "resolve_loop result [] = result"
| "resolve_loop result (v # vs) =
     (if starts_with v [slash] then resolve_loop v vs
      else if v \<noteq> [] then resolve_loop (result @ slash # v) vs
      else resolve_loop result vs)"

definition resolve :: "jsstr \<Rightarrow> jsstr list \<Rightarrow> jsstr" where
  "resolve currentCwd vs =
     (let normalized = normalize (resolve_loop currentCwd vs)
      in if normalized \<noteq> [slash] \<and> ends_with normalized [slash] then butlast normalized
         else normalized)"

definition set_cwd :: "jsstr \<Rightarrow> jsstr \<Rightarrow> jsstr" where
  "set_cwd currentCwd v = normalize (resolve currentCwd [v])"

definition to_namespaced_path :: "jsstr \<Rightarrow> jsstr" where
  "to_namespaced_path v = v"

subsection \<open>dirname, basename, extname\<close>

text \<open>
  The loop of \<open>dirname\<close> at index \<open>i\<close>: it stops at index 1, the case \<open>0\<close> is the loop's
  exit.
\<close>

fun dirname_loop :: "jsstr \<Rightarrow> nat \<Rightarrow> bool \<Rightarrow> nat option" where
  "dirname_loop v 0 matchedSlash = None"
| "dirname_loop v (Suc i) matchedSlash =
     (if v ! Suc i = slash then
        (if \<not> matchedSlash then Some (Suc i) else dirname_loop v i matchedSlash)
      else dirname_loop v i False)"

definition dirname :: "jsstr \<Rightarrow> jsstr" where
  "dirname v =
     (if v = [] then [dot]
      else let hasRoot = (v ! 0 = slash) in
        case dirname_loop v (length v - 1) True of
          None \<Rightarrow> if hasRoot then [slash] else [dot]
        | Some e \<Rightarrow> if hasRoot \<and> e = 1 then [slash, slash] else jslice v 0 e)"

text \<open>
  The second loop of \<open>basename\<close> (no suffix to strip): \<open>n\<close> is \<open>i + 1\<close>; the result is
  \<open>start\<close> and \<open>end\<close>.
\<close>

fun basename_loop :: "jsstr \<Rightarrow> nat \<Rightarrow> nat option \<Rightarrow> bool \<Rightarrow> nat \<times> nat option" where
  "basename_loop v 0 e matchedSlash = (0, e)"
| "basename_loop v (Suc i) e matchedSlash =
     (if v ! i = slash then
        (if \<not> matchedSlash then (Suc i, e) else basename_loop v i e matchedSlash)
      else if e = None then basename_loop v i (Some (Suc i)) False
      else basename_loop v i e matchedSlash)"

definition basename_plain :: "jsstr \<Rightarrow> jsstr" where
  "basename_plain v =
     (case basename_loop v (length v) None True of
        (start, None) \<Rightarrow> []
      | (start, Some e) \<Rightarrow> jslice v start e)"

text \<open>
  The first loop of \<open>basename\<close>, with a suffix. \<open>si\<close> is \<open>suffixIndex + 1\<close>, so that \<open>0\<close>
  stands for the \<open>-1\<close> of the source; \<open>fnse\<close> is \<open>firstNonSlashEnd\<close>. The result is
  \<open>start\<close>, \<open>end\<close> and \<open>firstNonSlashEnd\<close>.
\<close>

fun basename_suffix_loop ::
  "jsstr \<Rightarrow> jsstr \<Rightarrow> nat \<Rightarrow> nat \<Rightarrow> nat option \<Rightarrow> nat option \<Rightarrow> bool \<Rightarrow>
   nat \<times> nat option \<times> nat option" where
  "basename_suffix_loop v suf 0 si e fnse matchedSlash = (0, e, fnse)"
| "basename_suffix_loop v suf (Suc i) si e fnse matchedSlash =
     (if v ! i = slash then
        (if \<not> matchedSlash then (Suc i, e, fnse)
         else basename_suffix_loop v suf i si e fnse matchedSlash)
      else
        let (matchedSlash, fnse) =
              (if fnse = None then (False, Some (Suc i)) else (matchedSlash, fnse))
        in if si > 0 then
             (if v ! i = suf ! (si - 1) then
                basename_suffix_loop v suf i (si - 1) (if si = 1 then Some i else e)
                  fnse matchedSlash
              else basename_suffix_loop v suf i 0 fnse fnse matchedSlash)
           else basename_suffix_loop v suf i si e fnse matchedSlash)"

text \<open>
  \<open>value.slice(start, end)\<close> with \<open>end = -1\<close> drops the last code unit, as \<open>slice\<close> of
  a negative index does.
\<close>

definition basename_suffix :: "jsstr \<Rightarrow> jsstr \<Rightarrow> jsstr" where
  "basename_suffix v suf =
     (let (start, e, fnse) = basename_suffix_loop v suf (length v) (length suf) None None True;
          e = (if Some start = e then fnse
               else case e of None \<Rightarrow> Some (length v) | Some x \<Rightarrow> Some x)
      in case e of None \<Rightarrow> jslice v start (length v - 1) | Some x \<Rightarrow> jslice v start x)"

definition basename :: "jsstr \<Rightarrow> jsstr option \<Rightarrow> jsstr" where
  "basename v suf =
     (case suf of
        None \<Rightarrow> basename_plain v
      | Some suf \<Rightarrow>
          if length suf > 0 \<and> length suf \<le> length v then
            (if suf = v then [] else basename_suffix v suf)
          else basename_plain v)"

text \<open>
  The scan of \<open>extname\<close>. \<open>predot\<close> is \<open>preDotState\<close>; the result is
  \<open>startDot\<close>, \<open>startPart\<close>, \<open>end\<close> and \<open>preDotState\<close>.
\<close>

fun extname_loop ::
  "jsstr \<Rightarrow> nat \<Rightarrow> nat option \<Rightarrow> nat option \<Rightarrow> bool \<Rightarrow> int \<Rightarrow>
   nat option \<times> nat \<times> nat option \<times> int" where
  "extname_loop v 0 startDot e matchedSlash predot = (startDot, 0, e, predot)"
| "extname_loop v (Suc i) startDot e matchedSlash predot =
     (if v ! i = slash then
        (if \<not> matchedSlash then (startDot, Suc i, e, predot)
         else extname_loop v i startDot e matchedSlash predot)
      else
        let (matchedSlash, e) = (if e = None then (False, Some (Suc i)) else (matchedSlash, e))
        in if v ! i = dot then
             (if startDot = None then extname_loop v i (Some i) e matchedSlash predot
              else extname_loop v i startDot e matchedSlash (if predot \<noteq> 1 then 1 else predot))
           else extname_loop v i startDot e matchedSlash
                  (if startDot \<noteq> None then -1 else predot))"

definition extname :: "jsstr \<Rightarrow> jsstr" where
  "extname v =
     (case extname_loop v (length v) None None True 0 of
        (Some startDot, startPart, Some e, predot) \<Rightarrow>
          if predot = 0 \<or> (predot = 1 \<and> startDot + 1 = e \<and> startDot = startPart + 1) then []
          else jslice v startDot e
      | _ \<Rightarrow> [])"

subsection \<open>relative, parse, format\<close>

fun common_prefix :: "'a list \<Rightarrow> 'a list \<Rightarrow> nat" where
  "common_prefix (x # xs) (y # ys) = (if x = y then Suc (common_prefix xs ys) else 0)"
| "common_prefix _ _ = 0"

definition relative :: "jsstr \<Rightarrow> jsstr \<Rightarrow> jsstr \<Rightarrow> jsstr" where
  "relative currentCwd src dest =
     (let fromAbs = resolve currentCwd [src];
          toAbs = resolve currentCwd [dest]
      in if fromAbs = toAbs then []
         else let fromParts = (if fromAbs = [slash] then [] else split_path fromAbs);
                  toParts = (if toAbs = [slash] then [] else split_path toAbs);
                  common = common_prefix fromParts toParts;
                  up = map (\<lambda>_. [dot, dot]) (drop common fromParts);
                  down = drop common toParts;
                  r = normalize (join_with [slash] (up @ down))
              in if r = [] then [dot] else r)"

record parsed_path =
  pp_root :: jsstr
  pp_dir :: jsstr
  pp_base :: jsstr
  pp_ext :: jsstr
  pp_name :: jsstr

definition parse_path :: "jsstr \<Rightarrow> parsed_path" where
  "parse_path v =
     (let root = (if starts_with v [slash] then [slash] else []);
          dirPart = dirname v;
          dir = (if dirPart = [dot] then [] else dirPart);
          base = (if root = [slash] \<and> v = [slash] then [] else basename v None);
          ext = extname base;
          name = (if ext = [] then base else jslice base 0 (length base - length ext))
      in \<lparr>pp_root = root, pp_dir = dir, pp_base = base, pp_ext = ext, pp_name = name\<rparr>)"

definition format_path :: "parsed_path \<Rightarrow> jsstr" where
  "format_path parts =
     (let base = (if pp_base parts \<noteq> [] then pp_base parts else pp_name parts @ pp_ext parts)
      in if pp_dir parts = [] then base else pp_dir parts @ slash # base)"

section \<open>Normal forms\<close>

text \<open>A part is good when it is a real name; a canonical path is absolute and made of good parts.\<close>

definition good_part :: "jsstr \<Rightarrow> bool" where
  "good_part x \<longleftrightarrow> x \<noteq> [] \<and> x \<noteq> [dot] \<and> x \<noteq> [dot, dot] \<and> slash \<notin> set x"

definition normal_form :: "bool \<Rightarrow> jsstr list \<Rightarrow> bool" where
  "normal_form a ps \<longleftrightarrow>
     (\<exists>k g. ps = replicate k [dot, dot] @ g \<and> (\<forall>x\<in>set g. good_part x) \<and> (a \<longrightarrow> k = 0))"

definition canonical :: "jsstr \<Rightarrow> bool" where
  "canonical p \<longleftrightarrow>
     (\<exists>ps. (\<forall>x\<in>set ps. good_part x) \<and> p = slash # join_with [slash] ps)"

lemma split_path_loop_append:
  "split_path_loop a out (ps @ qs) = split_path_loop a (split_path_loop a out ps) qs"
  by (induction ps arbitrary: out) auto

lemma split_path_loop_good:
  "\<forall>x\<in>set ps. good_part x \<Longrightarrow> split_path_loop a out ps = out @ ps"
  by (induction ps arbitrary: out) (auto simp: good_part_def)

lemma split_path_loop_dotdots:
  "set out \<subseteq> {[dot, dot]} \<Longrightarrow>
   split_path_loop False out (replicate k [dot, dot]) = out @ replicate k [dot, dot]"
proof (induction k arbitrary: out)
  case (Suc k)
  then have "out = [] \<or> last out = [dot, dot]" by (cases out rule: rev_cases) auto
  with Suc show ?case by (auto simp: replicate_app_Cons_same)
qed simp

lemma split_path_loop_id: "normal_form a ps \<Longrightarrow> split_path_loop a [] ps = ps"
  using split_path_loop_dotdots [of "[]"]
  by (cases a) (auto simp: normal_form_def split_path_loop_append split_path_loop_good)

lemma normal_form_push: "normal_form a ps \<Longrightarrow> good_part x \<Longrightarrow> normal_form a (ps @ [x])"
proof -
  assume "normal_form a ps" and x: "good_part x"
  then obtain k g where g: "ps @ [x] = replicate k [dot, dot] @ g @ [x]"
      "\<forall>y\<in>set g. good_part y" "a \<longrightarrow> k = 0"
    by (auto simp: normal_form_def)
  from g(2) x have "\<forall>y\<in>set (g @ [x]). good_part y" by simp
  with g(1,3) show ?thesis unfolding normal_form_def by blast
qed

lemma normal_form_pop:
  assumes "normal_form a ps" "ps \<noteq> []" "last ps \<noteq> [dot, dot]"
  shows "normal_form a (butlast ps)"
proof -
  obtain k g where g: "ps = replicate k [dot, dot] @ g" "\<forall>x\<in>set g. good_part x" "a \<longrightarrow> k = 0"
    using assms(1) by (auto simp: normal_form_def)
  have "g \<noteq> []" using g(1) assms(2,3) by (cases k) (auto simp: last_replicate simp del: replicate_Suc split: if_splits)
  then show ?thesis using g unfolding normal_form_def
    by (auto simp: butlast_append dest: in_set_butlastD intro!: exI[of _ k] exI[of _ "butlast g"])
qed

lemma normal_form_up:
  assumes "normal_form False ps" "ps = [] \<or> last ps = [dot, dot]"
  shows "normal_form False (ps @ [[dot, dot]])"
proof -
  obtain k g where g: "ps = replicate k [dot, dot] @ g" "\<forall>x\<in>set g. good_part x"
    using assms(1) by (auto simp: normal_form_def)
  have "g = []" using g assms(2) by (cases g rule: rev_cases) (auto simp: good_part_def)
  then show ?thesis using g unfolding normal_form_def
    by (auto intro!: exI[of _ "Suc k"] exI[of _ "[]"] simp: replicate_append_same)
qed

lemma split_path_loop_normal_form:
  "normal_form a out \<Longrightarrow> \<forall>x\<in>set ps. slash \<notin> set x \<Longrightarrow> normal_form a (split_path_loop a out ps)"
proof (induction ps arbitrary: out)
  case (Cons x ps)
  then have ps: "\<forall>x\<in>set ps. slash \<notin> set x" by simp
  consider "x = [] \<or> x = [dot]" | "x = [dot, dot]" | "good_part x"
    using Cons.prems(2) by (auto simp: good_part_def)
  then show ?case
  proof cases
    case 3
    then have "split_path_loop a out (x # ps) = split_path_loop a (out @ [x]) ps"
      by (simp add: good_part_def)
    then show ?thesis using Cons.IH ps normal_form_push [OF Cons.prems(1) 3] by metis
  next
    case 2
    have up: "normal_form False (out @ [[dot, dot]])" if "\<not> a" "out = [] \<or> last out = [dot, dot]"
      using Cons.prems(1) that by (intro normal_form_up) simp_all
    show ?thesis using 2 Cons.IH ps Cons.prems(1) normal_form_pop [OF Cons.prems(1)] up by auto
  qed (use Cons in auto)
qed simp

lemma normal_form_Nil [simp]: "normal_form a []"
  by (simp add: normal_form_def)

lemma split_path_normal_form: "normal_form (starts_with v [slash]) (split_path v)"
  unfolding split_path_def
  by (rule split_path_loop_normal_form) (simp_all add: split_on_parts)

lemma normal_form_parts:
  "normal_form a ps \<Longrightarrow> x \<in> set ps \<Longrightarrow> x \<noteq> [] \<and> x \<noteq> [dot] \<and> slash \<notin> set x"
  by (fastforce simp: normal_form_def good_part_def)

lemma normal_form_True: "normal_form True ps \<longleftrightarrow> (\<forall>x\<in>set ps. good_part x)"
  by (auto simp: normal_form_def)

text \<open>The string that \<open>normalize\<close> builds from its parts; reading it back gives the parts.\<close>

definition render :: "bool \<Rightarrow> jsstr list \<Rightarrow> bool \<Rightarrow> jsstr" where
  "render a ps t =
     (let out = (if a then [slash] else []) @ join_with [slash] ps;
          out = (if out = [] then [dot] else out)
      in if t \<and> out \<noteq> [slash] then out @ [slash] else out)"

lemma normalize_render:
  "normalize v = render (starts_with v [slash]) (split_path v) (length v > 1 \<and> ends_with v [slash])"
  by (simp only: normalize_def render_def Let_def)

lemma join_with_eq_Nil: "\<forall>x\<in>set ps. x \<noteq> [] \<Longrightarrow> join_with sep ps = [] \<longleftrightarrow> ps = []"
  by (induction ps rule: induct_list012) auto

lemma hd_join_with: "ps \<noteq> [] \<Longrightarrow> hd ps \<noteq> [] \<Longrightarrow> hd (join_with sep ps) = hd (hd ps)"
  by (cases ps rule: remdups_adj.cases) auto

lemma last_join_with:
  "ps \<noteq> [] \<Longrightarrow> \<forall>x\<in>set ps. x \<noteq> [] \<Longrightarrow> last (join_with sep ps) = last (last ps)"
  by (induction ps rule: induct_list012) (auto simp: join_with_eq_Nil)

lemma join_with_not_slash:
  assumes "\<forall>x\<in>set ps. x \<noteq> [] \<and> slash \<notin> set x" "ps \<noteq> []"
  shows "hd (join_with [slash] ps) \<noteq> slash" "last (join_with [slash] ps) \<noteq> slash"
proof -
  have "hd ps \<in> set ps" "last ps \<in> set ps" using assms(2) by simp_all
  then have "hd ps \<noteq> []" "slash \<notin> set (hd ps)" "last ps \<noteq> []" "slash \<notin> set (last ps)"
    using assms(1) by auto
  then have "hd (hd ps) \<noteq> slash" "last (last ps) \<noteq> slash" using hd_in_set last_in_set by metis+
  then show "hd (join_with [slash] ps) \<noteq> slash" "last (join_with [slash] ps) \<noteq> slash"
    using assms \<open>hd ps \<noteq> []\<close> by (simp_all add: hd_join_with last_join_with)
qed

lemma split_on_render:
  assumes "normal_form a ps"
  shows "split_path (render a ps t) = ps"
    and "starts_with (render a ps t) [slash] = a"
    and "length (render a ps t) > 1 \<and> ends_with (render a ps t) [slash] \<longleftrightarrow> t \<and> \<not> (a \<and> ps = [])"
proof -
  have parts: "\<forall>x\<in>set ps. x \<noteq> [] \<and> slash \<notin> set x" using normal_form_parts [OF assms] by simp
  then have ne: "\<forall>x\<in>set ps. x \<noteq> []" and ns: "\<forall>x\<in>set ps. slash \<notin> set x" by simp_all
  note J = join_with_eq_Nil [OF ne, of "[slash]"] and H = join_with_not_slash [OF parts]
  have id: "split_path_loop a [] ps = ps" by (rule split_path_loop_id [OF assms])
  have L: "split_path_loop a out (ps @ [[]]) = split_path_loop a out ps" for out
    by (simp add: split_path_loop_append)
  have S: "ps \<noteq> [] \<Longrightarrow> split_on slash (join_with [slash] ps @ s # w) = ps @ split_on slash w"
    if "s = slash" for s w
    using split_on_append [of slash "join_with [slash] ps" w] split_on_join [OF _ ns] that by simp
  have len: "ps \<noteq> [] \<Longrightarrow> length (join_with [slash] ps) > 0" using J by auto
  show st: "starts_with (render a ps t) [slash] = a"
    using J H(1) by (cases "ps = []") (auto simp: render_def starts_with_single Let_def hd_append)
  show "split_path (render a ps t) = ps"
    unfolding split_path_def st using id L [of "[]"]
    by (cases "ps = []"; cases a)
       (auto simp: render_def Let_def J S L split_on_join [OF _ ns])
  show "length (render a ps t) > 1 \<and> ends_with (render a ps t) [slash] \<longleftrightarrow> t \<and> \<not> (a \<and> ps = [])"
    using J H(2) len
    by (cases "ps = []"; cases a) (auto simp: render_def ends_with_single Let_def)
qed

subsection \<open>Normalisation is idempotent\<close>

text \<open>Normalising a path a second time changes nothing: for every string, with any mixture of
  repeated slashes, \<open>.\<close>, \<open>..\<close> and trailing slashes, \<open>normalize\<close> returns a path that
  is its own normal form.\<close>

theorem normalize_idem: "normalize (normalize v) = normalize v"
proof -
  define a ps t where "a = starts_with v [slash]" and "ps = split_path v"
    and "t = (length v > 1 \<and> ends_with v [slash])"
  have nf: "normal_form a ps" by (simp add: a_def ps_def split_path_normal_form)
  have "normalize v = render a ps t" by (simp only: normalize_render a_def ps_def t_def)
  then have "normalize (normalize v) = render a ps (t \<and> \<not> (a \<and> ps = []))"
    by (simp only: normalize_render split_on_render [OF nf])
  also have "... = render a ps t" by (auto simp: render_def Let_def)
  finally show ?thesis by (simp only: normalize_render a_def ps_def t_def)
qed


subsection \<open>resolve below an absolute working directory\<close>

lemma canonical_render: "canonical p \<longleftrightarrow> (\<exists>ps. normal_form True ps \<and> p = render True ps False)"
  by (simp add: canonical_def normal_form_True render_def)

lemma resolve_loop_absolute:
  "starts_with r [slash] \<Longrightarrow> starts_with (resolve_loop r vs) [slash]"
  by (induction vs arbitrary: r) (auto simp: starts_with_single)

lemma resolve_absolute:
  assumes "starts_with cwd [slash]"
  shows "resolve cwd vs = render True (split_path (resolve_loop cwd vs)) False"
proof -
  let ?r = "resolve_loop cwd vs" and ?ps = "split_path (resolve_loop cwd vs)"
  have abs: "starts_with ?r [slash]" by (rule resolve_loop_absolute [OF assms])
  have nf: "normal_form True ?ps" using split_path_normal_form [of ?r] abs by simp
  obtain t where n: "normalize ?r = render True ?ps t" using abs by (auto simp: normalize_render)
  have "\<forall>x\<in>set ?ps. x \<noteq> []" using normal_form_parts [OF nf] by blast
  then have J: "join_with [slash] ?ps = [] \<longleftrightarrow> ?ps = []" by (rule join_with_eq_Nil)
  have e: "ends_with (render True ?ps t) [slash] \<longleftrightarrow> ?ps = [] \<or> t" for t
    using split_on_render(3) [OF nf, of t] J
    by (cases "?ps = []") (auto simp: render_def ends_with_single)
  show ?thesis
  proof (cases "?ps = []")
    case True
    then show ?thesis by (simp add: resolve_def n) (simp add: render_def)
  next
    case False
    then show ?thesis using e [of t] J
      by (cases t) (simp_all add: resolve_def n Let_def render_def)
  qed
qed

lemma resolve_canonical: "starts_with cwd [slash] \<Longrightarrow> canonical (resolve cwd vs)"
  using split_path_normal_form resolve_loop_absolute [of cwd vs]
  by (auto simp: canonical_render resolve_absolute intro!: exI [of _ "split_path (resolve_loop cwd vs)"])
    (metis)

lemma resolve_loop_snoc:
  "resolve_loop r (vs @ [v]) =
     (if starts_with v [slash] then v else if v \<noteq> [] then resolve_loop r vs @ slash # v
      else resolve_loop r vs)"
  by (induction vs arbitrary: r) auto

lemma split_path_append:
  assumes "starts_with r [slash]"
  shows "split_path (r @ slash # v) = split_path_loop True (split_path r) (split_on slash v)"
  using assms by (cases r) (simp_all add: split_path_def starts_with_single split_path_loop_append)

lemma split_path_loop_up:
  "length out \<ge> n \<Longrightarrow> \<forall>x\<in>set out. x \<noteq> [dot, dot] \<Longrightarrow>
   split_path_loop True out (replicate n [dot, dot]) = take (length out - n) out"
proof (induction n arbitrary: out)
  case (Suc n)
  then have ne: "out \<noteq> []" by auto
  then have "last out \<noteq> [dot, dot]" using Suc.prems(2) by simp
  then have "split_path_loop True out (replicate (Suc n) [dot, dot]) =
      split_path_loop True (butlast out) (replicate n [dot, dot])" using ne by simp
  also have "... = take (length (butlast out) - n) (butlast out)"
    using Suc.prems by (intro Suc.IH) (auto dest: in_set_butlastD)
  also have "... = take (length out - Suc n) out"
    by (simp add: butlast_conv_take min_def)
  finally show ?case .
qed simp

lemma common_prefix_take:
  "take (common_prefix xs ys) xs = take (common_prefix xs ys) ys"
  "common_prefix xs ys \<le> length xs" "common_prefix xs ys \<le> length ys"
  by (induction xs ys rule: common_prefix.induct) auto

text \<open>Up from \<open>F\<close> to what it shares with \<open>T\<close>, then down: the parts of \<open>relative\<close>.\<close>

definition up_down :: "jsstr list \<Rightarrow> jsstr list \<Rightarrow> jsstr list" where
  "up_down F T = replicate (length F - common_prefix F T) [dot, dot] @ drop (common_prefix F T) T"

lemma split_path_up_down:
  assumes "normal_form True F" "normal_form True T"
  shows "split_path_loop True F (up_down F T) = T"
proof -
  let ?c = "common_prefix F T"
  have "split_path_loop True F (up_down F T) = split_path_loop True (take ?c F) (drop ?c T)"
    using assms(1) common_prefix_take(2) [of F T]
    by (simp add: split_path_loop_append up_down_def split_path_loop_up normal_form_True good_part_def)
  also have "... = take ?c F @ drop ?c T"
    using assms(2) by (intro split_path_loop_good) (auto simp: normal_form_True dest: in_set_dropD)
  also have "... = T" using common_prefix_take(1) [of F T] by simp
  finally show ?thesis .
qed

lemma up_down_path:
  assumes "normal_form True T" "F \<noteq> T"
  shows "up_down F T \<noteq> []" "\<forall>x\<in>set (up_down F T). x \<noteq> [] \<and> slash \<notin> set x"
    "join_with [slash] (up_down F T) \<noteq> []"
    "normalize (join_with [slash] (up_down F T)) = join_with [slash] (up_down F T)"
proof -
  have ud: "normal_form False (up_down F T)"
    using assms(1) by (auto simp: normal_form_def up_down_def dest: in_set_dropD)
  show ne: "up_down F T \<noteq> []" using common_prefix_take [of F T] assms(2) by (auto simp: up_down_def)
  show seg: "\<forall>x\<in>set (up_down F T). x \<noteq> [] \<and> slash \<notin> set x" using normal_form_parts [OF ud] by simp
  show J: "join_with [slash] (up_down F T) \<noteq> []" using ne seg join_with_eq_Nil [of "up_down F T"] by blast
  have R: "render False (up_down F T) False = join_with [slash] (up_down F T)" using J by (simp add: render_def)
  show "normalize (join_with [slash] (up_down F T)) = join_with [slash] (up_down F T)"
    using split_on_render [OF ud, of False] by (simp only: normalize_render R) (simp add: R)
qed

lemma relative_up_down:
  assumes "normal_form True F" "normal_form True T" "render True F False \<noteq> render True T False"
    "resolve cwd [src] = render True F False" "resolve cwd [dest] = render True T False"
  shows "relative cwd src dest = join_with [slash] (up_down F T)"
proof -
  have parts: "(if render True P False = [slash] then [] else split_path (render True P False)) = P"
    if "normal_form True P" for P
    using split_on_render(1) [OF that, of False] by (auto simp: split_path_def)
  have "F \<noteq> T" using assms(3) by auto
  then show ?thesis
    unfolding relative_def assms(4,5) Let_def parts [OF assms(1)] parts [OF assms(2)]
    using assms(3) up_down_path(3,4) [OF assms(2), of F] by (simp add: map_replicate_const up_down_def)
qed

text \<open>C20. \<open>relative\<close> is a right inverse of \<open>resolve\<close>: following, from \<open>src\<close>, the path
  that \<open>relative(src, dest)\<close> returns leads to what \<open>dest\<close> resolves to, for every working
  directory that is absolute.\<close>

theorem resolve_relative:
  assumes cwd: "starts_with cwd [slash]"
  shows "resolve cwd [src, relative cwd src dest] = resolve cwd [dest]"
proof -
  let ?r = "resolve_loop cwd [src]" and ?t = "resolve_loop cwd [dest]"
  define F T where "F = split_path ?r" and "T = split_path ?t"
  have abs: "starts_with ?r [slash]" "starts_with ?t [slash]" by (rule resolve_loop_absolute [OF cwd])+
  have nf: "normal_form True F" "normal_form True T"
    using split_path_normal_form [of ?r] split_path_normal_form [of ?t] abs by (simp_all only: F_def T_def)
  have src: "resolve cwd [src] = render True F False" and dest: "resolve cwd [dest] = render True T False"
    by (simp_all only: resolve_absolute [OF cwd] F_def T_def)
  show ?thesis
  proof (cases "render True F False = render True T False")
    case True
    then have "relative cwd src dest = []" by (simp add: relative_def src dest Let_def)
    moreover have "resolve_loop cwd [src, []] = ?r" using resolve_loop_snoc [of cwd "[src]" "[]"]
      by (simp add: starts_with_single)
    ultimately show ?thesis using True by (simp only: resolve_absolute [OF cwd] F_def T_def)
  next
    case False
    then have ne: "F \<noteq> T" by auto
    note ud = up_down_path [OF nf(2) ne]
    have rel: "relative cwd src dest = join_with [slash] (up_down F T)"
      by (rule relative_up_down [OF nf False src dest])
    have "\<not> starts_with (relative cwd src dest) [slash]"
      using join_with_not_slash(1) [OF ud(2,1)] by (simp add: rel starts_with_single)
    then have loop: "resolve_loop cwd [src, relative cwd src dest] = ?r @ slash # relative cwd src dest"
      using ud(3) resolve_loop_snoc [of cwd "[src]" "relative cwd src dest"] by (simp add: rel)
    have "split_on slash (relative cwd src dest) = up_down F T"
      using ud(1,2) split_on_join [of "up_down F T" slash] by (simp add: rel)
    then have "split_path (resolve_loop cwd [src, relative cwd src dest]) = T"
      using split_path_up_down [OF nf] by (simp only: loop split_path_append [OF abs(1)] F_def)
    then show ?thesis by (simp only: resolve_absolute [OF cwd] T_def)
  qed
qed

subsection \<open>dirname and basename take a path apart\<close>

text \<open>The segments of a path that are not empty decide what it resolves to.\<close>

definition segs :: "jsstr \<Rightarrow> jsstr list" where
  "segs v = filter (\<lambda>x. x \<noteq> []) (split_on slash v)"

lemma segs_append: "segs (v @ slash # w) = segs v @ segs w"
  by (simp add: segs_def)

lemma segs_slashes: "set s \<subseteq> {slash} \<Longrightarrow> segs s = []"
  by (induction s) (auto simp: segs_def)

lemma segs_name: "slash \<notin> set b \<Longrightarrow> segs b = (if b = [] then [] else [b])"
  by (simp add: segs_def split_on_none)

lemma segs_name_slashes: "slash \<notin> set b \<Longrightarrow> set s \<subseteq> {slash} \<Longrightarrow> segs (b @ s) = segs b"
  by (cases s) (auto simp: segs_append segs_slashes)

lemma split_path_loop_segs: "split_path_loop a out (filter (\<lambda>x. x \<noteq> []) ps) = split_path_loop a out ps"
  by (induction ps arbitrary: out) auto

lemma resolve_segs:
  assumes "starts_with cwd [slash]"
  shows "resolve cwd vs = render True (split_path_loop True [] (segs (resolve_loop cwd vs))) False"
  using resolve_loop_absolute [OF assms, of vs]
  by (simp add: resolve_absolute [OF assms] split_path_def segs_def split_path_loop_segs)

text \<open>Every path is a directory part, a name and trailing slashes.\<close>

lemma path_cases:
  obtains (slashes) n where "v = replicate n slash"
  | (name) b n where "v = b @ replicate n slash" "b \<noteq> []" "slash \<notin> set b"
  | (dir) d b n where "v = d @ slash # b @ replicate n slash" "b \<noteq> []" "slash \<notin> set b"
proof -
  define s w where "s = takeWhile (\<lambda>c. c = slash) (rev v)" and "w = dropWhile (\<lambda>c. c = slash) (rev v)"
  define n where "n = length s"
  have s: "rev s = replicate n slash"
  proof -
    have "\<forall>y\<in>set s. y = slash" by (auto simp: s_def dest: set_takeWhileD)
    then have "replicate n slash = s" unfolding n_def by (rule replicate_length_same)
    then show ?thesis by (metis rev_replicate)
  qed
  have v: "v = rev w @ replicate n slash"
  proof -
    have "rev v = s @ w" by (simp add: s_def w_def)
    then show ?thesis using s by (metis rev_append rev_rev_ident)
  qed
  show thesis
  proof (cases w)
    case Nil
    then show ?thesis using v slashes by simp
  next
    case (Cons c w')
    then have c: "c \<noteq> slash" using hd_dropWhile [of "\<lambda>c. c = slash" "rev v"] by (simp add: w_def)
    define b r where "b = takeWhile (\<lambda>c. c \<noteq> slash) w" and "r = dropWhile (\<lambda>c. c \<noteq> slash) w"
    have b: "rev b \<noteq> []" "slash \<notin> set (rev b)" using c Cons by (auto simp: b_def dest: set_takeWhileD)
    have "w = b @ r" by (simp add: b_def r_def)
    then have w: "rev w = rev r @ rev b" by simp
    show ?thesis
    proof (cases r)
      case Nil
      then show ?thesis using name [of "rev b" n] v w b by simp
    next
      case (Cons x r')
      then have "x = slash" using hd_dropWhile [of "\<lambda>c. c \<noteq> slash" w] by (simp add: r_def)
      then show ?thesis using dir [of "rev r'" "rev b" n] v w b Cons by simp
    qed
  qed
qed

lemma dirname_loop_slashes:
  "k \<le> n \<Longrightarrow> \<forall>j. n - k < j \<and> j \<le> n \<longrightarrow> v ! j = slash \<Longrightarrow>
   dirname_loop v n True = dirname_loop v (n - k) True"
proof (induction k)
  case (Suc k)
  then have "n - k = Suc (n - Suc k)" "v ! (n - k) = slash" by auto
  then show ?case using Suc by auto
qed simp

lemma dirname_loop_name:
  "k \<le> n \<Longrightarrow> \<forall>j. n - k < j \<and> j \<le> n \<longrightarrow> v ! j \<noteq> slash \<Longrightarrow> k > 0 \<or> \<not> m \<Longrightarrow>
   dirname_loop v n m = dirname_loop v (n - k) False"
proof (induction k arbitrary: n m)
  case (Suc k)
  then obtain n' where n: "n = Suc n'" by (cases n) auto
  then have "v ! n \<noteq> slash" using Suc.prems by auto
  then show ?case using Suc.IH [of n' False] Suc.prems n by auto
qed simp

lemma basename_loop_slashes:
  "k \<le> n \<Longrightarrow> \<forall>j. n - k \<le> j \<and> j < n \<longrightarrow> v ! j = slash \<Longrightarrow>
   basename_loop v n e True = basename_loop v (n - k) e True"
proof (induction k)
  case (Suc k)
  then have "n - k = Suc (n - Suc k)" "v ! (n - Suc k) = slash" by auto
  then show ?case using Suc by auto
qed simp

lemma basename_loop_name:
  "k \<le> n \<Longrightarrow> \<forall>j. n - k \<le> j \<and> j < n \<longrightarrow> v ! j \<noteq> slash \<Longrightarrow>
   basename_loop v n (Some e) False = basename_loop v (n - k) (Some e) False"
proof (induction k arbitrary: n)
  case (Suc k)
  then obtain n' where n: "n = Suc n'" by (cases n) auto
  then have "v ! n' \<noteq> slash" using Suc.prems by auto
  then show ?case using Suc.IH [of n'] Suc.prems n by auto
qed simp

lemma basename_plain_cases:
  shows "basename_plain (replicate n slash) = []"
    and "b \<noteq> [] \<Longrightarrow> slash \<notin> set b \<Longrightarrow> basename_plain (b @ replicate n slash) = b"
    and "b \<noteq> [] \<Longrightarrow> slash \<notin> set b \<Longrightarrow> basename_plain (d @ slash # b @ replicate n slash) = b"
proof -
  show "basename_plain (replicate n slash) = []"
    using basename_loop_slashes [of n n "replicate n slash" None] by (simp add: basename_plain_def)
  have *: "basename_loop (d @ b @ replicate n slash) (length (d @ b @ replicate n slash)) None True
      = basename_loop (d @ b @ replicate n slash) (length d) (Some (length (d @ b))) False"
    if b: "b \<noteq> []" "slash \<notin> set b" for d :: jsstr and b
  proof -
    let ?v = "d @ b @ replicate n slash"
    obtain k where k: "length b = Suc k" using b by (cases b) auto
    have nth: "?v ! j \<noteq> slash" if "length d \<le> j" "j < length (d @ b)" for j
      using that b(2) by (auto simp: nth_append) (metis add_diff_inverse_nat nat_add_left_cancel_less not_le nth_mem)
    have sl: "?v ! j = slash" if "length (d @ b) \<le> j" "j < length ?v" for j
      using that by (auto simp: nth_append)
    have "basename_loop ?v (length ?v) None True = basename_loop ?v (length ?v - n) None True"
      using sl by (intro basename_loop_slashes) auto
    also have "... = basename_loop ?v (length (d @ b)) None True" by simp
    also have "... = basename_loop ?v (length d + k) (Some (length (d @ b))) False"
      using nth [of "length d + k"] k by simp
    also have "... = basename_loop ?v (length d) (Some (length (d @ b))) False"
      using basename_loop_name [of k "length d + k" ?v "length (d @ b)"] nth k by simp
    finally show ?thesis .
  qed
  show "basename_plain (b @ replicate n slash) = b" if "b \<noteq> []" "slash \<notin> set b"
    using * [OF that, of "[]"] by (simp add: basename_plain_def jslice_def)
  show "basename_plain (d @ slash # b @ replicate n slash) = b" if "b \<noteq> []" "slash \<notin> set b"
    using * [OF that, of "d @ [slash]"] by (simp add: basename_plain_def jslice_def nth_append)
qed

lemma dirname_loop_base:
  assumes b: "b \<noteq> []" "slash \<notin> set b"
  shows "dirname_loop (d @ b @ replicate n slash) (length (d @ b @ replicate n slash) - 1) True
      = dirname_loop (d @ b @ replicate n slash) (length d - 1) False"
proof -
  let ?v = "d @ b @ replicate n slash"
  let ?k = "if d = [] then length b - 1 else length b"
  have nth: "?v ! j \<noteq> slash" if "length d \<le> j" "j < length (d @ b)" for j
    using that b(2) by (auto simp: nth_append) (metis add_diff_inverse_nat nat_add_left_cancel_less not_le nth_mem)
  obtain k where lb: "length b = Suc k" using b by (cases b) auto
  have sl: "?v ! j = slash" if "length (d @ b) \<le> j" "j < length ?v" for j
    using that by (auto simp: nth_append)
  have "dirname_loop ?v (length ?v - 1) True = dirname_loop ?v (length ?v - 1 - n) True"
    using sl lb by (intro dirname_loop_slashes) (use lb in simp_all)
  also have "... = dirname_loop ?v (length (d @ b) - 1) True" by simp
  also have "... = dirname_loop ?v (length d - 1) False"
  proof (cases "?k > 0")
    case True
    have "dirname_loop ?v (length (d @ b) - 1) True = dirname_loop ?v (length (d @ b) - 1 - ?k) False"
      using nth lb True by (intro dirname_loop_name) (auto split: if_splits simp: Suc_le_eq)
    then show ?thesis using lb by (auto split: if_splits)
  next
    case False
    then show ?thesis using lb by (auto split: if_splits)
  qed
  finally show ?thesis .
qed

lemma dirname_cases:
  shows "n > 0 \<Longrightarrow> dirname (replicate n slash) = [slash]"
    and "b \<noteq> [] \<Longrightarrow> slash \<notin> set b \<Longrightarrow> dirname (b @ replicate n slash) = [dot]"
    and "b \<noteq> [] \<Longrightarrow> slash \<notin> set b \<Longrightarrow> dirname (d @ slash # b @ replicate n slash) =
      (if d = [] then [slash] else if d = [slash] then [slash, slash] else d)"
proof -
  show "dirname (replicate n slash) = [slash]" if "n > 0"
  proof -
    have "dirname_loop (replicate n slash) (n - 1) True = dirname_loop (replicate n slash) (n - 1 - (n - 1)) True"
      by (rule dirname_loop_slashes) auto
    then show ?thesis using that by (simp add: dirname_def)
  qed
  show "dirname (b @ replicate n slash) = [dot]" if "b \<noteq> []" "slash \<notin> set b"
    using dirname_loop_base [OF that, of "[]"] that by (cases b) (auto simp: dirname_def)
  show "dirname (d @ slash # b @ replicate n slash) =
      (if d = [] then [slash] else if d = [slash] then [slash, slash] else d)"
    if "b \<noteq> []" "slash \<notin> set b"
  proof (cases d)
    case Nil
    then show ?thesis using dirname_loop_base [OF that, of "[slash]"] that by (simp add: dirname_def)
  next
    case (Cons y ys)
    let ?v = "d @ slash # b @ replicate n slash"
    have "dirname_loop ?v (length ?v - 1) True = dirname_loop ?v (length d) False"
      using dirname_loop_base [OF that, of "d @ [slash]"] by simp
    also have "... = Some (length d)" using Cons by (simp add: nth_append)
    finally have "dirname ?v = (if y = slash \<and> length d = 1 then [slash, slash] else take (length d) ?v)"
      using Cons by (simp only: dirname_def jslice_def Let_def) simp
    then show ?thesis using Cons by simp
  qed
qed

lemma resolve_dirname_basename:
  assumes cwd: "starts_with cwd [slash]"
  shows "resolve cwd [dirname v, basename v None] = resolve cwd [v]"
proof -
  have S: "segs (slash # w) = segs w" for w using segs_append [of "[]"] by (simp add: segs_def)
  have D: "segs (dot # slash # w) = [dot] # segs w" for w
    using segs_append [of "[dot]"] segs_name [of "[dot]"] by simp
  have dots: "split_path_loop True (split_path_loop True [] (segs cwd)) ([dot] # ps)
      = split_path_loop True (split_path_loop True [] (segs cwd)) ps" for ps by simp
  note B = basename_def option.case basename_plain_cases(1) [of 0, simplified] and R = resolve_segs [OF cwd] segs_append split_path_loop_append
  show ?thesis
  proof (cases rule: path_cases [of v])
    case (slashes n)
    then show ?thesis
      by (cases "n = 0") (simp_all add: B basename_plain_cases dirname_cases dirname_def [of "[]"]
          R starts_with_single segs_slashes set_replicate_conv_if S segs_name)
  next
    case (name b n)
    have "\<not> starts_with b [slash]" "\<not> starts_with v [slash]"
      using name by (cases b; auto simp: starts_with_single)+
    then show ?thesis using name
      by (simp add: B basename_plain_cases dirname_cases R starts_with_single [of "[dot]"]
          segs_name_slashes set_replicate_conv_if segs_name D)
  next
    case (dir d b n)
    define D where "D = dirname v"
    have D: "D = (if d = [] then [slash] else if d = [slash] then [slash, slash] else d)"
      using dir by (simp add: D_def dirname_cases)
    have b: "basename v None = b" "\<not> starts_with b [slash]"
      using dir by (simp add: B basename_plain_cases) (cases b; use dir in \<open>auto simp: starts_with_single\<close>)
    have vD: "v \<noteq> []" "D \<noteq> []" "starts_with v [slash] = starts_with D [slash]"
      using dir by (cases d; simp add: D starts_with_single)+
    have "segs [slash, slash] = []" "segs [slash] = []" by (simp_all add: segs_slashes)
    then have "segs D = segs d" by (auto simp: D segs_def)
    then have "segs (D @ slash # b) = segs v"
      using dir by (simp add: segs_append segs_name_slashes set_replicate_conv_if)
    moreover have "resolve_loop cwd [D, b] =
        (if starts_with D [slash] then D @ slash # b else cwd @ slash # D @ slash # b)"
      using b vD dir(2) by simp
    moreover have "resolve_loop cwd [v] = (if starts_with D [slash] then v else cwd @ slash # v)"
      using vD by simp
    ultimately show ?thesis
      unfolding resolve_segs [OF cwd] D_def [symmetric] b(1) by (simp add: segs_append)
  qed
qed

lemma extname_loop_end:
  "n \<le> length v \<Longrightarrow> extname_loop v n sd (Some e) False p = (sd', st, e', p') \<Longrightarrow> e' = Some e"
  by (induction n arbitrary: sd p) (auto simp: Let_def split: if_splits)

lemma extname_loop_dot:
  "extname_loop v n sd e m p = (Some d, st, e', p') \<Longrightarrow> sd = Some d \<or> d < n"
  by (induction n arbitrary: sd e m p) (fastforce simp: Let_def less_Suc_eq split: if_splits)+

lemma extname_suffix:
  assumes "slash \<notin> set b"
  shows "\<exists>d. b = d @ extname b"
proof (cases "b = []")
  case True
  then show ?thesis by (simp add: extname_def)
next
  case False
  then obtain n where n: "length b = Suc n" by (cases b) auto
  then have "b ! n \<noteq> slash" using assms by (metis lessI nth_mem)
  then have e: "extname_loop b (length b) None None True 0 = (sd', st, e', p') \<Longrightarrow> e' = Some (length b)"
    for sd' st e' p'
    using extname_loop_end [of n b _ "length b"] by (auto simp: n Let_def split: if_splits)
  obtain sd' st e' p' where x: "extname_loop b (length b) None None True 0 = (sd', st, e', p')"
    by (metis prod_cases4)
  have "extname b = [] \<or> (\<exists>d. extname b = drop d b)"
    using e [OF x] by (auto simp: extname_def x jslice_def split: option.splits)
  then show ?thesis by (metis append_Nil2 append_take_drop_id)
qed

lemma basename_no_slash: "slash \<notin> set (basename v None)"
  by (cases rule: path_cases [of v]) (simp_all add: basename_def basename_plain_cases)

lemma parse_name_ext: "pp_name (parse_path v) @ pp_ext (parse_path v) = pp_base (parse_path v)"
proof -
  define base where "base = (if v = [slash] then [] else basename v None)"
  have "slash \<notin> set base" by (simp add: base_def basename_no_slash)
  then obtain d where d: "base = d @ extname base" using extname_suffix by blast
  have b: "pp_base (parse_path v) = base"
    by (auto simp: parse_path_def base_def Let_def starts_with_single)
  have "pp_ext (parse_path v) = extname base"
    by (simp add: b [symmetric]) (simp add: parse_path_def Let_def)
  moreover have "pp_name (parse_path v) = jslice base 0 (length base - length (extname base))"
    by (simp add: b [symmetric]) (auto simp: parse_path_def Let_def jslice_def)
  moreover have "length base = length d + length (extname base)" "take (length d) base = d"
    by (metis d length_append) (metis d append_eq_conv_conj)
  then have "jslice base 0 (length base - length (extname base)) = d" by (simp add: jslice_def)
  ultimately show ?thesis using b d by simp
qed

lemma resolve_dot_base:
  assumes "starts_with cwd [slash]" "slash \<notin> set b"
  shows "resolve cwd [[dot], b] = resolve cwd [b]"
proof -
  have "\<not> starts_with b [slash]" using assms(2) by (cases b) (auto simp: starts_with_single)
  moreover have "segs [dot] = [[dot]]" by (simp add: segs_name)
  moreover have "segs (dot # slash # b) = [dot] # segs b"
    using segs_append [of "[dot]" b] by (simp add: segs_name)
  ultimately show ?thesis
    by (cases "b = []") (simp_all add: resolve_segs [OF assms(1)] segs_append split_path_loop_append
        starts_with_single [of "[dot]"])
qed

lemma resolve_concat_base:
  assumes "starts_with cwd [slash]" "slash \<notin> set b" "d \<noteq> []"
  shows "resolve cwd [d @ slash # b] = resolve cwd [d, b]"
proof -
  have "\<not> starts_with b [slash]" using assms(2) by (cases b) (auto simp: starts_with_single)
  moreover have "starts_with (d @ slash # b) [slash] = starts_with d [slash]"
    using assms(3) by (simp add: starts_with_single)
  moreover have "segs [] = []" by (simp add: segs_def)
  ultimately show ?thesis using assms(3)
    by (cases "b = []") (simp_all add: resolve_segs [OF assms(1)] segs_append)
qed

text \<open>\<open>format(parse(v))\<close> names the same file as \<open>v\<close>: the directory, base name and
  extension that \<open>dirname\<close>, \<open>basename\<close> and \<open>extname\<close> cut out of any string put it
  together again, up to normalisation.\<close>

theorem resolve_format_parse:
  assumes cwd: "starts_with cwd [slash]"
  shows "resolve cwd [format_path (parse_path v)] = resolve cwd [v]"
proof -
  define base where "base = (if v = [slash] then [] else basename v None)"
  have b: "pp_base (parse_path v) = base"
    by (auto simp: parse_path_def base_def Let_def starts_with_single)
  have d: "pp_dir (parse_path v) = (if dirname v = [dot] then [] else dirname v)"
    by (simp add: parse_path_def Let_def)
  have "base = basename v None"
    using basename_plain_cases(1) [of 1] by (simp add: base_def basename_def)
  then have ns: "slash \<notin> set base" and r: "resolve cwd [dirname v, base] = resolve cwd [v]"
    using basename_no_slash resolve_dirname_basename [OF cwd] by simp_all
  have ne: "dirname v \<noteq> []"
    by (cases rule: path_cases [of v])
       (auto simp: dirname_cases, metis dirname_cases(1) dirname_def gr0I list.discI replicate_0)
  have "pp_name (parse_path v) @ pp_ext (parse_path v) = base" using parse_name_ext b by metis
  then have f: "format_path (parse_path v) =
      (if dirname v = [dot] then base else dirname v @ slash # base)"
    using ne by (simp add: format_path_def b d Let_def)
  show ?thesis
  proof (cases "dirname v = [dot]")
    case True
    then show ?thesis using f r resolve_dot_base [OF cwd ns] by simp
  next
    case False
    then show ?thesis using f r resolve_concat_base [OF cwd ns ne] by simp
  qed
qed

subsection \<open>basename with a suffix\<close>

lemma basename_suffix_loop_skip:
  "k \<le> n \<Longrightarrow> \<forall>j. n - k \<le> j \<and> j < n \<longrightarrow> v ! j = slash \<Longrightarrow>
   basename_suffix_loop v suf n si e f True = basename_suffix_loop v suf (n - k) si e f True"
proof (induction k)
  case (Suc k)
  then have "n - k = Suc (n - Suc k)" "v ! (n - Suc k) = slash" by auto
  then show ?case using Suc by auto
qed simp

text \<open>
  Within the name \<open>d @ b\<close> at index \<open>length d + n\<close>: once the suffix is matched or has
  failed, the rest of the name is only skipped.
\<close>

definition at_name_start :: "jsstr \<Rightarrow> bool" where
  "at_name_start d \<longleftrightarrow> d = [] \<or> last d = slash"

lemma basename_suffix_loop_start:
  "at_name_start d \<Longrightarrow>
   basename_suffix_loop (d @ w) suf (length d) si e (Some f) False = (length d, e, Some f)"
  by (cases d rule: rev_cases) (auto simp: at_name_start_def nth_append)

lemma basename_suffix_loop_done:
  "at_name_start d \<Longrightarrow> n \<le> length b \<Longrightarrow> slash \<notin> set b \<Longrightarrow>
   basename_suffix_loop (d @ b @ w) suf (length d + n) 0 e (Some f) False = (length d, e, Some f)"
proof (induction n)
  case 0
  then show ?case by (simp add: basename_suffix_loop_start)
next
  case (Suc n)
  then have "(d @ b @ w) ! (length d + n) \<noteq> slash"
    by (auto simp: nth_append) (metis Suc_le_lessD nth_mem)
  then show ?case using Suc by simp
qed

lemma basename_suffix_loop_match:
  "at_name_start d \<Longrightarrow> slash \<notin> set b \<Longrightarrow> n \<le> length b \<Longrightarrow> si \<le> n \<Longrightarrow> 0 < si \<Longrightarrow> si \<le> length suf \<Longrightarrow>
   basename_suffix_loop (d @ b @ w) suf (length d + n) si None (Some f) False =
     (length d, if suffix (take si suf) (take n b) then Some (length d + n - si) else Some f, Some f)"
proof (induction n arbitrary: si)
  case (Suc n)
  let ?v = "d @ b @ w"
  have nth: "?v ! (length d + n) = b ! n" "b ! n \<noteq> slash"
    using Suc.prems by (auto simp: nth_append) (metis Suc_le_lessD nth_mem)
  obtain s where si: "si = Suc s" using Suc.prems by (cases si) auto
  have sx: "suffix (take si suf) (take (Suc n) b) \<longleftrightarrow> suf ! s = b ! n \<and> suffix (take s suf) (take n b)"
    using Suc.prems by (simp add: si take_Suc_conv_app_nth)
  show ?case
  proof (cases "b ! n = suf ! s")
    case False
    then show ?thesis using nth Suc.prems sx
      by (simp add: si basename_suffix_loop_done [OF Suc.prems(1)])
  next
    case True
    show ?thesis
    proof (cases s)
      case 0
      then show ?thesis using nth Suc.prems sx True
        by (simp add: si basename_suffix_loop_done [OF Suc.prems(1)])
    next
      case (Suc s')
      then show ?thesis using nth Suc.prems sx True Suc.IH [of s] by (simp add: si)
    qed
  qed
qed simp


lemma basename_suffix_name:
  assumes "at_name_start d" "b \<noteq> []" "slash \<notin> set b" "suf \<noteq> []" "length suf \<le> length b"
  shows "basename_suffix (d @ b @ replicate n slash) suf =
    (if suffix suf b \<and> suf \<noteq> b then take (length b - length suf) b else b)"
proof -
  let ?v = "d @ b @ replicate n slash" and ?f = "length d + length b"
  obtain k where k: "length b = Suc k" using assms(2) by (cases b) auto
  have "b ! k \<noteq> slash" using k assms(3) by (metis lessI nth_mem)
  then have nth: "?v ! (length d + k) = b ! k" "b ! k \<noteq> slash" using k by (simp_all add: nth_append)
  have sl: "?v ! j = slash" if "?f \<le> j" "j < length ?v" for j using that by (auto simp: nth_append)
  have "basename_suffix_loop ?v suf (length ?v) (length suf) None None True
      = basename_suffix_loop ?v suf (length ?v - n) (length suf) None None True"
    using sl by (intro basename_suffix_loop_skip) auto
  also have "... = basename_suffix_loop ?v suf (Suc (length d + k)) (length suf) None None True"
    using k by simp
  also have "... = basename_suffix_loop ?v suf (Suc (length d + k)) (length suf) None (Some ?f) False"
    using nth k by simp
  also have "... = (length d, if suffix suf b then Some (?f - length suf) else Some ?f, Some ?f)"
    using basename_suffix_loop_match [OF assms(1,3), of "length b" "length suf" suf "replicate n slash" ?f]
      assms(4,5) k by simp
  finally have "basename_suffix ?v suf = jslice ?v (length d)
      (if suffix suf b \<and> length b \<noteq> length suf then ?f - length suf else ?f)"
    using assms(4,5) by (auto simp: basename_suffix_def)
  moreover have "suffix suf b \<Longrightarrow> (length b = length suf) = (suf = b)" by (auto simp: suffix_def)
  moreover have "suf \<noteq> [] \<Longrightarrow> length b - length suf < length b" using assms(2,4) by simp
  ultimately show ?thesis using assms(4,5) by (auto simp: jslice_def)
qed

text \<open>The optimised backward scan of \<open>basename(v, suffix)\<close> does what its reference
  definition says: it strips the suffix from the base name when the base name ends in it and is
  not all of it, and is empty when the suffix is the whole path. The suffix has no slash and is
  no longer than the base name.\<close>

theorem basename_strips_suffix:
  assumes "suf \<noteq> []" "slash \<notin> set suf" "length suf \<le> length (basename v None)"
  shows "basename v (Some suf) =
    (if suf = v then [] else if suffix suf (basename v None) \<and> suf \<noteq> basename v None
     then take (length (basename v None) - length suf) (basename v None) else basename v None)"
proof -
  have *: ?thesis if v: "v = d @ b @ replicate n slash" "at_name_start d" "b \<noteq> []" "slash \<notin> set b"
      "basename_plain v = b" for d b n
    using basename_suffix_name [OF v(2-4) assms(1), of n] assms(1,3) v(1,5)
    by (auto simp: basename_def)
  show ?thesis
  proof (cases rule: path_cases [of v])
    case (slashes n)
    then show ?thesis using assms by (simp add: basename_def basename_plain_cases)
  next
    case (name b n)
    then show ?thesis using * [of "[]" b n] by (simp add: at_name_start_def basename_plain_cases)
  next
    case (dir d b n)
    then show ?thesis using * [of "d @ [slash]" b n] by (simp add: at_name_start_def basename_plain_cases)
  qed
qed

lemma resolve_relative_witness:
  "starts_with (js ''/srv'') [slash] \<and>
   resolve (js ''/srv'') [js ''a/b'', relative (js ''/srv'') (js ''a/b'') (js ''../c'')] =
   resolve (js ''/srv'') [js ''../c'']"
proof -
  have h: "starts_with (js ''/srv'') [slash]" by code_simp
  show ?thesis using h resolve_relative [OF h] by blast
qed

lemma resolve_format_parse_witness:
  "starts_with (js ''/srv'') [slash] \<and>
   resolve (js ''/srv'') [format_path (parse_path (js ''lib//x.tar.gz/''))] =
   resolve (js ''/srv'') [js ''lib//x.tar.gz/'']"
proof -
  have h: "starts_with (js ''/srv'') [slash]" by code_simp
  show ?thesis using h resolve_format_parse [OF h] by blast
qed

lemma basename_strips_suffix_witness:
  "basename (js ''/src/app.js'') (Some (js ''.js'')) = js ''app''"
proof -
  have "js ''.js'' \<noteq> []" "slash \<notin> set (js ''.js'')"
    "length (js ''.js'') \<le> length (basename (js ''/src/app.js'') None)" by code_simp+
  from basename_strips_suffix [OF this] show ?thesis by (simp only:) code_simp
qed

text \<open>Two places where the functions do not do what a caller expects of them.\<close>

lemma format_parse_root: "format_path (parse_path (js ''/a'')) = js ''//a''"
  by code_simp

lemma basename_long_suffix: "basename (js ''/b/'') (Some (js ''ab'')) = js ''b/''"
  by code_simp

end
