(* ===== verification/Permission.thy ===== *)
theory Permission
  imports Path_Posix
begin

text \<open>
  \<open>js/internal/permission.js\<close>: the authorization that the \<open>.fs\<close> owner service applies to
  every request. The object's fields are a record, the constructor is \<open>new_permission\<close>, and
  each method returns its error (with the code of \<open>skyjsError\<close>) or its result. Byte counts
  are numbers of the source, integers here.
\<close>

definition default_max_read_bytes :: int where
  "default_max_read_bytes = 64 * 1024 * 1024"

record permission =
  roots :: "jsstr list"
  max_read_bytes :: int
  allow_absolute :: bool
  read_only :: bool

text \<open>
  \<open>opts.maxReadBytes || DEFAULT_MAX_READ_BYTES\<close>: an absent quota and a quota of 0 both give
  the default.
\<close>

definition new_permission ::
  "jsstr \<Rightarrow> jsstr list option \<Rightarrow> int option \<Rightarrow> bool option \<Rightarrow> bool option \<Rightarrow> permission" where
  "new_permission cwd rts quota allow ro =
     \<lparr>roots = map (\<lambda>root. resolve cwd [root]) (case rts of None \<Rightarrow> [] | Some rs \<Rightarrow> rs),
      max_read_bytes = (case quota of None \<Rightarrow> default_max_read_bytes
        | Some q \<Rightarrow> if q = 0 then default_max_read_bytes else q),
      allow_absolute = (allow = Some True),
      read_only = (ro = Some True)\<rparr>"

definition default_permission :: "jsstr \<Rightarrow> permission" where
  "default_permission cwd = new_permission cwd (Some []) (Some default_max_read_bytes) None None"

datatype perm_error =
    PathEscapes jsstr jsstr "jsstr list"  \<comment> \<open>target, resolved path, roots\<close>
  | InvalidByteCount jsstr
  | ExceedsQuota jsstr int int
  | ReadOnly jsstr jsstr
  | CapabilityNotGranted jsstr

fun perm_code :: "perm_error \<Rightarrow> string" where
  "perm_code (PathEscapes _ _ _) = ''ERR_PERMISSION''"
| "perm_code (InvalidByteCount _) = ''ERR_PROTOCOL''"
| "perm_code (ExceedsQuota _ _ _) = ''ERR_LIMIT_EXCEEDED''"
| "perm_code (ReadOnly _ _) = ''ERR_PERMISSION''"
| "perm_code (CapabilityNotGranted _) = ''ERR_PERMISSION''"

fun in_some_root :: "jsstr \<Rightarrow> jsstr list \<Rightarrow> bool" where
  "in_some_root absolute [] = False"
| "in_some_root absolute (root # rs) =
     (if absolute = root \<or> starts_with absolute (root @ [slash]) then True
      else in_some_root absolute rs)"

definition resolve_target :: "jsstr \<Rightarrow> jsstr \<Rightarrow> jsstr option \<Rightarrow> jsstr" where
  "resolve_target cwd target base =
     resolve cwd [case base of None \<Rightarrow> [slash] | Some b \<Rightarrow> if b = [] then [slash] else b, target]"

definition resolve_path ::
  "jsstr \<Rightarrow> permission \<Rightarrow> jsstr \<Rightarrow> jsstr option \<Rightarrow> perm_error + jsstr" where
  "resolve_path cwd perm target base =
     (let absolute = resolve_target cwd target base
      in if roots perm = [] then Inr absolute
         else if in_some_root absolute (roots perm) then Inr absolute
         else Inl (PathEscapes target absolute (roots perm)))"

definition check_quota :: "permission \<Rightarrow> int \<Rightarrow> jsstr \<Rightarrow> perm_error + int" where
  "check_quota perm n op =
     (if n < 0 then Inl (InvalidByteCount op)
      else if n > max_read_bytes perm then Inl (ExceedsQuota op n (max_read_bytes perm))
      else Inr n)"

definition check_write :: "permission \<Rightarrow> jsstr \<Rightarrow> jsstr \<Rightarrow> perm_error + unit" where
  "check_write perm op target =
     (if read_only perm then Inl (ReadOnly op target) else Inr ())"

definition check_capability :: "jsstr list option \<Rightarrow> jsstr \<Rightarrow> perm_error + unit" where
  "check_capability granted capability =
     (case granted of
        None \<Rightarrow> Inl (CapabilityNotGranted capability)
      | Some gs \<Rightarrow> if capability \<in> set gs then Inr () else Inl (CapabilityNotGranted capability))"

section \<open>Containment\<close>

lemma in_some_root_iff:
  "in_some_root p rs \<longleftrightarrow> (\<exists>r\<in>set rs. p = r \<or> starts_with p (r @ [slash]))"
  by (induction rs) auto

text \<open>For canonical paths, the string test \<open>startsWith(root + "/")\<close> is a test on the components.\<close>

lemma canonical_split: "canonical p \<Longrightarrow> \<exists>ps. (\<forall>x\<in>set ps. good_part x) \<and>
    p = slash # join_with [slash] ps \<and> split_path p = ps"
proof -
  assume "canonical p"
  then obtain ps where "normal_form True ps" "p = render True ps False" by (auto simp: canonical_render)
  then show ?thesis using split_on_render(1) [of True ps False]
    by (auto simp: normal_form_True render_def intro!: exI [of _ ps])
qed

lemma starts_with_root:
  assumes "canonical p" "canonical r"
  shows "starts_with p (r @ [slash]) \<longleftrightarrow> r \<noteq> [slash] \<and> strict_prefix (split_path r) (split_path p)"
proof -
  obtain P R where P: "\<forall>x\<in>set P. good_part x" "p = slash # join_with [slash] P" "split_path p = P"
    and R: "\<forall>x\<in>set R. good_part x" "r = slash # join_with [slash] R" "split_path r = R"
    using canonical_split [OF assms(1)] canonical_split [OF assms(2)] by auto
  have parts: "\<forall>x\<in>set P. x \<noteq> [] \<and> slash \<notin> set x" "\<forall>x\<in>set R. x \<noteq> [] \<and> slash \<notin> set x"
    using P(1) R(1) by (auto simp: good_part_def)
  show ?thesis
  proof (cases "R = []")
    case True
    have "\<not> starts_with p (r @ [slash])"
    proof
      assume "starts_with p (r @ [slash])"
      then obtain t where t: "join_with [slash] P = slash # t"
        by (auto simp: P(2) R(2) True starts_with_prefix prefix_def)
      then have "P \<noteq> []" by auto
      then show False using join_with_not_slash(1) [OF parts(1)] t by simp
    qed
    then show ?thesis by (simp add: R(2) True)
  next
    case False
    then have "r \<noteq> [slash]" using join_with_eq_Nil [of R "[slash]"] parts(2) by (simp add: R(2))
    moreover have "starts_with p (r @ [slash]) \<longleftrightarrow> strict_prefix R P"
    proof
      assume "starts_with p (r @ [slash])"
      then obtain t where t: "join_with [slash] P = join_with [slash] R @ slash # t"
        by (auto simp: P(2) R(2) starts_with_prefix prefix_def)
      then have "P \<noteq> []" by auto
      then have "P = split_on slash (join_with [slash] P)" using parts(1) by (simp add: split_on_join)
      also have "... = R @ split_on slash t" using parts(2) False by (simp add: t split_on_join)
      finally show "strict_prefix R P" by (metis append_self_conv prefixI split_on_not_Nil strict_prefixI)
    next
      assume "strict_prefix R P"
      then obtain w where "P = R @ w" "w \<noteq> []" by (auto simp: strict_prefix_def prefix_def)
      then show "starts_with p (r @ [slash])"
        using False by (simp add: P(2) R(2) join_with_append starts_with_prefix)
    qed
    ultimately show ?thesis by (simp add: P(3) R(3))
  qed
qed

lemma resolve_path_spec:
  assumes cwd: "starts_with cwd [slash]"
    and perm: "perm = new_permission cwd rts quota allow ro"
    and p: "p = resolve_target cwd target base"
  shows "canonical p \<and>
    resolve_path cwd perm target base =
      (if roots perm = [] \<or>
          (\<exists>r\<in>set (roots perm). p = r \<or> (r \<noteq> [slash] \<and> prefix (split_path r) (split_path p)))
       then Inr p else Inl (PathEscapes target p (roots perm)))"
proof -
  have cp: "canonical p" by (simp add: p resolve_target_def resolve_canonical [OF cwd])
  have cr: "canonical r" if "r \<in> set (roots perm)" for r
    using that by (auto simp: perm new_permission_def resolve_canonical [OF cwd])
  have "p = r \<or> starts_with p (r @ [slash]) \<longleftrightarrow>
      p = r \<or> (r \<noteq> [slash] \<and> prefix (split_path r) (split_path p))" if "r \<in> set (roots perm)" for r
    using starts_with_root [OF cp cr [OF that]] canonical_split [OF cp] canonical_split [OF cr [OF that]]
    by (metis prefix_order.le_less)
  then have "in_some_root p (roots perm) \<longleftrightarrow>
      (\<exists>r\<in>set (roots perm). p = r \<or> (r \<noteq> [slash] \<and> prefix (split_path r) (split_path p)))"
    unfolding in_some_root_iff by blast
  then show ?thesis using cp unfolding resolve_path_def p [symmetric] Let_def
    by (cases "in_some_root p (roots perm)") auto
qed

text \<open>C16. A path is authorized exactly when it stays inside a root. For a permission object that
  the constructor built, \<open>resolvePath\<close> returns the resolved target, an absolute path without
  \<open>.\<close>, \<open>..\<close> or empty components, exactly when there are no roots or the components of one root
  (other than the bare \<open>/\<close>, which only admits itself) are a prefix of the target's components;
  otherwise it throws \<open>ERR_PERMISSION\<close>. So no spelling of a target escapes the roots.\<close>

theorem resolve_path_containment:
  assumes cwd: "starts_with cwd [slash]"
    and perm: "perm = new_permission cwd rts quota allow ro"
    and p: "p = resolve_target cwd target base"
  shows "canonical p \<and>
    resolve_path cwd perm target base =
      (if roots perm = [] \<or>
          (\<exists>r\<in>set (roots perm). p = r \<or> (r \<noteq> [slash] \<and> prefix (split_path r) (split_path p)))
       then Inr p else Inl (PathEscapes target p (roots perm)))"
  by (rule resolve_path_spec [OF assms])

lemma resolve_path_containment_witness:
  "resolve_path (js ''/'') (new_permission (js ''/'') (Some [js ''/srv/data'']) None None None)
     (js ''../../etc/passwd'') (Some (js ''/srv/data'')) =
   Inl (PathEscapes (js ''../../etc/passwd'') (js ''/etc/passwd'') [js ''/srv/data''])"
proof -
  have h: "starts_with (js ''/'') [slash]" by code_simp
  show ?thesis
    by (subst conjunct2 [OF resolve_path_containment [OF h refl refl]]) code_simp
qed

text \<open>A root that is the file-system root admits nothing but itself.\<close>

lemma root_slash_denies:
  "resolve_path (js ''/'') (new_permission (js ''/'') (Some [js ''/'']) None None None)
     (js ''/etc'') None = Inl (PathEscapes (js ''/etc'') (js ''/etc'') [js ''/''])"
  by code_simp

end
