(* ===== verification/Text_Codec.thy ===== *)
theory Text_Codec
  imports Prelude
begin

text \<open>
  \<open>js/internal/text-codec.js\<close>: the UTF-8 codec behind \<open>TextEncoder\<close>, \<open>TextDecoder\<close> and
  every place where the runtime turns strings into bytes. Code points and the bytes under
  inspection are numbers of the source, always below \<open>2^21\<close>, so the 32-bit bitwise operators
  agree with those on \<open>nat\<close>; bytes that are stored and code units that are built are words of
  their width. \<open>isUtf8\<close> of \<open>js/internal/buffer-core.js\<close> is here as well, since it is the
  other half of the contract.
\<close>

unbundle bit_operations_syntax

section \<open>Operations\<close>

subsection \<open>encodeUtf8\<close>

definition encode_cp :: "nat \<Rightarrow> bytes" where
  "encode_cp cp = map to_byte
     (if cp < 0x80 then [cp]
      else if cp < 0x800 then [0xc0 OR drop_bit 6 cp, 0x80 OR (cp AND 0x3f)]
      else if cp < 0x10000 then
        [0xe0 OR drop_bit 12 cp, 0x80 OR (drop_bit 6 cp AND 0x3f), 0x80 OR (cp AND 0x3f)]
      else
        [0xf0 OR drop_bit 18 cp, 0x80 OR (drop_bit 12 cp AND 0x3f),
         0x80 OR (drop_bit 6 cp AND 0x3f), 0x80 OR (cp AND 0x3f)])"

definition is_high :: "code_unit \<Rightarrow> bool" where
  "is_high c \<longleftrightarrow> 0xd800 \<le> c \<and> c \<le> 0xdbff"

definition is_low :: "code_unit \<Rightarrow> bool" where
  "is_low c \<longleftrightarrow> 0xdc00 \<le> c \<and> c \<le> 0xdfff"

definition pair_cp :: "code_unit \<Rightarrow> code_unit \<Rightarrow> nat" where
  "pair_cp c lo = 0x10000 + push_bit 10 (unat c - 0xd800) + (unat lo - 0xdc00)"

fun encode_utf8 :: "jsstr \<Rightarrow> bytes" where
  "encode_utf8 [] = []"
| "encode_utf8 [c] = encode_cp (unat c)"
| "encode_utf8 (c # lo # cs) =
     (if is_high c \<and> is_low lo then encode_cp (pair_cp c lo) @ encode_utf8 cs
      else encode_cp (unat c) @ encode_utf8 (lo # cs))"

subsection \<open>decodeUtf8\<close>

definition from_cp :: "nat \<Rightarrow> jsstr" where
  "from_cp cp =
     (if cp > 0xffff
      then [to_unit (0xd800 + drop_bit 10 (cp - 0x10000)), to_unit (0xdc00 + ((cp - 0x10000) AND 0x3ff))]
      else [to_unit cp])"

definition is_cont :: "byte \<Rightarrow> bool" where
  "is_cont b \<longleftrightarrow> unat b AND 0xc0 = 0x80"

definition low6 :: "byte \<Rightarrow> nat" where
  "low6 b = unat b AND 0x3f"

text \<open>One turn of the loop: the code point read from \<open>b0\<close> and the bytes after it.\<close>

definition decode_step :: "byte \<Rightarrow> bytes \<Rightarrow> nat \<times> bytes" where
  "decode_step b0 bs =
     (let n = unat b0 in
      if n < 0x80 then (n, bs)
      else if n AND 0xe0 = 0xc0 then
        (case bs of b1 # r \<Rightarrow>
           if is_cont b1 then (push_bit 6 (n AND 0x1f) OR low6 b1, r) else (0xfffd, bs)
         | _ \<Rightarrow> (0xfffd, bs))
      else if n AND 0xf0 = 0xe0 then
        (case bs of b1 # b2 # r \<Rightarrow>
           if is_cont b1 \<and> is_cont b2
           then (push_bit 12 (n AND 0x0f) OR push_bit 6 (low6 b1) OR low6 b2, r) else (0xfffd, bs)
         | _ \<Rightarrow> (0xfffd, bs))
      else if n AND 0xf8 = 0xf0 then
        (case bs of b1 # b2 # b3 # r \<Rightarrow>
           if is_cont b1 \<and> is_cont b2 \<and> is_cont b3
           then (push_bit 18 (n AND 0x07) OR push_bit 12 (low6 b1) OR push_bit 6 (low6 b2) OR low6 b3, r)
           else (0xfffd, bs)
         | _ \<Rightarrow> (0xfffd, bs))
      else (0xfffd, bs))"

lemma decode_step_length: "length (snd (decode_step b0 bs)) \<le> length bs"
  by (auto simp: decode_step_def Let_def split: list.splits)

function decode_utf8 :: "bytes \<Rightarrow> jsstr" where
  "decode_utf8 [] = []"
| "decode_utf8 (b0 # bs) = (case decode_step b0 bs of (cp, r) \<Rightarrow> from_cp cp @ decode_utf8 r)"
  by pat_completeness auto
termination
  by (relation "measure length") (simp_all, metis decode_step_length le_imp_less_Suc snd_conv)

subsection \<open>encodeInto\<close>

text \<open>The new contents of the destination, \<open>read\<close> and \<open>written\<close>.\<close>

definition encode_into :: "jsstr \<Rightarrow> bytes \<Rightarrow> bytes \<times> nat \<times> nat" where
  "encode_into input view =
     (let bs = encode_utf8 input; written = min (length view) (length bs)
      in (take written bs @ drop written view, length input, written))"

subsection \<open>isUtf8\<close>

fun cont_loop :: "nat \<Rightarrow> nat \<Rightarrow> bytes \<Rightarrow> (nat \<times> bytes) option" where
  "cont_loop 0 cp bs = Some (cp, bs)"
| "cont_loop (Suc k) cp [] = None"
| "cont_loop (Suc k) cp (b # bs) =
     (if is_cont b then cont_loop k (push_bit 6 cp OR low6 b) bs else None)"

lemma cont_loop_length: "cont_loop k cp bs = Some (cp', r) \<Longrightarrow> length r \<le> length bs"
  by (induction k cp bs rule: cont_loop.induct) (auto split: if_splits)

text \<open>The lead byte: how many continuation bytes, the bits it carries, the least code point.\<close>

definition lead :: "nat \<Rightarrow> (nat \<times> nat \<times> nat) option" where
  "lead n =
     (if n < 0x80 then Some (0, n, 0)
      else if n AND 0xe0 = 0xc0 then Some (1, n AND 0x1f, 0x80)
      else if n AND 0xf0 = 0xe0 then Some (2, n AND 0x0f, 0x800)
      else if n AND 0xf8 = 0xf0 then Some (3, n AND 0x07, 0x10000)
      else None)"

function is_utf8 :: "bytes \<Rightarrow> bool" where
  "is_utf8 [] = True"
| "is_utf8 (b0 # bs) =
     (case lead (unat b0) of
        None \<Rightarrow> False
      | Some (need, cp, lo) \<Rightarrow>
          (case cont_loop need cp bs of
             None \<Rightarrow> False
           | Some (cp', r) \<Rightarrow>
               if cp' < lo \<or> cp' > 0x10ffff \<or> (0xd800 \<le> cp' \<and> cp' \<le> 0xdfff) then False
               else is_utf8 r))"
  by pat_completeness auto
termination
  by (relation "measure length") (auto dest: cont_loop_length)

section \<open>Bit operations as arithmetic\<close>

lemma and_low [simp]: "(x::nat) AND 0x3f = x mod 64" "x AND 0x1f = x mod 32" "x AND 0x0f = x mod 16"
  "x AND 0x07 = x mod 8" "x AND 0x3ff = x mod 1024"
  using take_bit_eq_mask [of 6 x] take_bit_eq_mask [of 5 x] take_bit_eq_mask [of 4 x]
    take_bit_eq_mask [of 3 x] take_bit_eq_mask [of 10 x]
  by (simp_all add: take_bit_eq_mod mask_eq_exp_minus_1)

lemma push_or: "b < 2 ^ n \<Longrightarrow> push_bit n a OR b = a * 2 ^ n + (b::nat)"
proof -
  assume "b < 2 ^ n"
  then have b: "take_bit n b = b" by (simp add: take_bit_nat_eq_self)
  have "push_bit n a + take_bit n b = push_bit n a OR take_bit n b"
    by (rule disjunctive_add) (auto simp: bit_simps)
  then show ?thesis by (simp add: b push_bit_eq_mult)
qed

lemma or_lead: "x < 64 \<Longrightarrow> 0xc0 OR x = 0xc0 + (x::nat)" "x < 32 \<Longrightarrow> 0xe0 OR x = 0xe0 + x"
  "x < 16 \<Longrightarrow> 0xf0 OR x = 0xf0 + x" "x < 128 \<Longrightarrow> 0x80 OR x = 0x80 + x"
  using push_or [of x 6 3] push_or [of x 5 7] push_or [of x 4 15] push_or [of x 7 1]
  by simp_all

lemma and_high: "(n::nat) < 2 ^ (k + m) \<Longrightarrow> n AND push_bit k (mask m) = n div 2 ^ k * 2 ^ (k::nat)"
proof -
  assume "n < 2 ^ (k + m)"
  then have n: "take_bit (k + m) n = n" by (simp add: take_bit_nat_eq_self)
  have "take_bit (k + m) n AND push_bit k (mask m) = push_bit k (drop_bit k (take_bit (k + m) n))"
    by (rule bit_eqI) (auto simp: bit_simps)
  then show ?thesis by (simp add: n push_bit_eq_mult drop_bit_eq_div)
qed

lemma div_range: "0 < k \<Longrightarrow> n div k * k = v * k \<longleftrightarrow> v * k \<le> n \<and> n < v * k + (k::nat)"
  using div_nat_eqI [of k v n] div_times_less_eq_dividend [of n k] dividend_less_div_times [of k n]
  by (auto simp: algebra_simps)

lemma and_lead:
  assumes "n < 256"
  shows "n AND 0xc0 = 0x80 \<longleftrightarrow> 0x80 \<le> n \<and> n < 0xc0" "n AND 0xe0 = 0xc0 \<longleftrightarrow> 0xc0 \<le> n \<and> n < 0xe0"
    "n AND 0xf0 = 0xe0 \<longleftrightarrow> 0xe0 \<le> n \<and> n < 0xf0" "n AND 0xf8 = 0xf0 \<longleftrightarrow> 0xf0 \<le> n \<and> n < (0xf8::nat)"
proof -
  have h: "n AND 0xc0 = n div 64 * 64" "n AND 0xe0 = n div 32 * 32" "n AND 0xf0 = n div 16 * 16"
    "n AND 0xf8 = n div 8 * 8"
    using and_high [of n 6 2] and_high [of n 5 3] and_high [of n 4 4] and_high [of n 3 5] assms
    by (simp_all add: mask_eq_exp_minus_1)
  show "n AND 0xc0 = 0x80 \<longleftrightarrow> 0x80 \<le> n \<and> n < 0xc0" "n AND 0xe0 = 0xc0 \<longleftrightarrow> 0xc0 \<le> n \<and> n < 0xe0"
    "n AND 0xf0 = 0xe0 \<longleftrightarrow> 0xe0 \<le> n \<and> n < 0xf0" "n AND 0xf8 = 0xf0 \<longleftrightarrow> 0xf0 \<le> n \<and> n < (0xf8::nat)"
    unfolding h
    using div_range [of 64 n 2] div_range [of 32 n 6] div_range [of 16 n 14] div_range [of 8 n 30]
    by simp_all
qed

lemma is_cont_iff: "is_cont b \<longleftrightarrow> 0x80 \<le> unat b \<and> unat b < 0xc0"
  by (simp add: is_cont_def and_lead unat_byte)

lemma low6_less: "low6 b < 64"
  by (simp add: low6_def)

lemma cont_byte:
  "x < 64 \<Longrightarrow> is_cont (to_byte (0x80 OR x))" "x < 64 \<Longrightarrow> low6 (to_byte (0x80 OR x)) = x"
  using mod_mult_self3 [of 2 64 x] by (simp_all add: is_cont_iff low6_def or_lead)

text \<open>\<open>encode_cp\<close> in arithmetic.\<close>

lemma encode_cp_simps:
  "cp < 0x80 \<Longrightarrow> encode_cp cp = [to_byte cp]"
  "0x80 \<le> cp \<Longrightarrow> cp < 0x800 \<Longrightarrow> encode_cp cp =
     [to_byte (0xc0 + cp div 64), to_byte (0x80 OR cp mod 64)]"
  "0x800 \<le> cp \<Longrightarrow> cp < 0x10000 \<Longrightarrow> encode_cp cp =
     [to_byte (0xe0 + cp div 4096), to_byte (0x80 OR cp div 64 mod 64), to_byte (0x80 OR cp mod 64)]"
  "0x10000 \<le> cp \<Longrightarrow> cp < 0x110000 \<Longrightarrow> encode_cp cp =
     [to_byte (0xf0 + cp div 262144), to_byte (0x80 OR cp div 4096 mod 64),
      to_byte (0x80 OR cp div 64 mod 64), to_byte (0x80 OR cp mod 64)]"
proof -
  show "cp < 0x80 \<Longrightarrow> encode_cp cp = [to_byte cp]" by (simp add: encode_cp_def)
  show "0x80 \<le> cp \<Longrightarrow> cp < 0x800 \<Longrightarrow> encode_cp cp =
     [to_byte (0xc0 + cp div 64), to_byte (0x80 OR cp mod 64)]"
    using less_mult_imp_div_less [of cp 32 64] by (simp add: encode_cp_def drop_bit_eq_div or_lead(1))
  show "0x800 \<le> cp \<Longrightarrow> cp < 0x10000 \<Longrightarrow> encode_cp cp =
     [to_byte (0xe0 + cp div 4096), to_byte (0x80 OR cp div 64 mod 64), to_byte (0x80 OR cp mod 64)]"
    using less_mult_imp_div_less [of cp 16 4096] by (simp add: encode_cp_def drop_bit_eq_div or_lead(2))
  show "0x10000 \<le> cp \<Longrightarrow> cp < 0x110000 \<Longrightarrow> encode_cp cp =
     [to_byte (0xf0 + cp div 262144), to_byte (0x80 OR cp div 4096 mod 64),
      to_byte (0x80 OR cp div 64 mod 64), to_byte (0x80 OR cp mod 64)]"
    using less_mult_imp_div_less [of cp 5 262144] by (simp add: encode_cp_def drop_bit_eq_div or_lead(3))
qed

lemma join6: "b < 64 \<Longrightarrow> push_bit 6 a OR b = a * 64 + (b::nat)"
  using push_or [of b 6 a] by simp

lemma join12: "a < 64 \<Longrightarrow> b < 64 \<Longrightarrow> push_bit 12 c OR push_bit 6 a OR b = c * 4096 + a * 64 + (b::nat)"
  using push_or [of "a * 64 + b" 12 c] by (simp add: or.assoc join6)

lemma join18: "e < 64 \<Longrightarrow> a < 64 \<Longrightarrow> b < 64 \<Longrightarrow>
    push_bit 18 c OR push_bit 12 e OR push_bit 6 a OR b = c * 262144 + e * 4096 + a * 64 + (b::nat)"
  using push_or [of "e * 4096 + a * 64 + b" 18 c] join12 [of a b e] by (simp add: or.assoc)

lemma lead_mod:
  "y < 32 \<Longrightarrow> (0xc0 + y) mod 32 = (y::nat)" "y < 16 \<Longrightarrow> (0xe0 + y) mod 16 = y"
  "y < 8 \<Longrightarrow> (0xf0 + y) mod 8 = y"
  using mod_mult_self3 [of 6 32 y] mod_mult_self3 [of 14 16 y] mod_mult_self3 [of 30 8 y]
  by simp_all

lemma digits3: "cp div 4096 * 4096 + cp div 64 mod 64 * 64 + cp mod 64 = (cp::nat)"
  using mod_mult2_eq [of cp 64 64] div_mult_mod_eq [of cp 4096] by simp

lemma digits4:
  "cp div 262144 * 262144 + cp div 4096 mod 64 * 4096 + cp div 64 mod 64 * 64 + cp mod 64 = (cp::nat)"
  using mod_mult2_eq [of cp 64 64] mod_mult2_eq [of cp 4096 64] div_mult_mod_eq [of cp 262144] by simp

text \<open>Reading back what was written for one code point.\<close>

lemma decode_step_encode_cp:
  "cp < 0x110000 \<Longrightarrow> \<exists>b0 bs. encode_cp cp = b0 # bs \<and> decode_step b0 (bs @ r) = (cp, r)"
proof -
  assume cp: "cp < 0x110000"
  consider "cp < 0x80" | "0x80 \<le> cp" "cp < 0x800" | "0x800 \<le> cp" "cp < 0x10000" | "0x10000 \<le> cp"
    by linarith
  then show ?thesis
  proof cases
    case 2
    then have "cp div 64 < 32" using less_mult_imp_div_less [of cp 32 64] by simp
    then show ?thesis using 2
      by (simp add: encode_cp_simps decode_step_def and_lead cont_byte join6 lead_mod)
  next
    case 3
    then have "cp div 4096 < 16" using less_mult_imp_div_less [of cp 16 4096] by simp
    then show ?thesis using 3 digits3 [of cp]
      by (simp add: encode_cp_simps decode_step_def and_lead cont_byte join12 lead_mod)
  next
    case 4
    then have "cp div 262144 < 5" using less_mult_imp_div_less [of cp 5 262144] cp by simp
    then show ?thesis using 4 cp digits4 [of cp]
      by (simp add: encode_cp_simps decode_step_def and_lead cont_byte join18 lead_mod)
  qed (simp add: encode_cp_simps decode_step_def)
qed

lemma decode_utf8_encode_cp:
  "cp < 0x110000 \<Longrightarrow> decode_utf8 (encode_cp cp @ r) = from_cp cp @ decode_utf8 r"
  using decode_step_encode_cp [of cp r] by auto

lemma surrogate_bounds:
  "is_high c \<longleftrightarrow> 0xd800 \<le> unat c \<and> unat c \<le> 0xdbff"
  "is_low c \<longleftrightarrow> 0xdc00 \<le> unat c \<and> unat c \<le> 0xdfff"
  by (simp_all add: is_high_def is_low_def word_le_nat_alt)

lemma pair_cp_arith:
  "pair_cp c lo = 0x10000 + (unat c - 0xd800) * 1024 + (unat lo - 0xdc00)"
  by (simp add: pair_cp_def push_bit_eq_mult)

lemma from_cp_pair: "is_high c \<Longrightarrow> is_low lo \<Longrightarrow> pair_cp c lo < 0x110000 \<and> from_cp (pair_cp c lo) = [c, lo]"
proof -
  assume h: "is_high c" "is_low lo"
  then have *: "pair_cp c lo < 0x110000" "pair_cp c lo > 0xffff"
    "(pair_cp c lo - 0x10000) div 1024 = unat c - 0xd800"
    "(pair_cp c lo - 0x10000) mod 1024 = unat lo - 0xdc00"
    by (auto simp: surrogate_bounds pair_cp_arith nat_diff_split)
  then have "from_cp (pair_cp c lo) = [to_unit (unat c), to_unit (unat lo)]"
    using h by (simp add: from_cp_def drop_bit_eq_div surrogate_bounds)
  then show ?thesis using * by simp
qed

lemma from_cp_unit: "unat c < 0x110000 \<and> from_cp (unat (c :: code_unit)) = [c]"
  using unat_unit [of c] by (auto simp: from_cp_def)

lemma decode_encode_utf8_all: "decode_utf8 (encode_utf8 s) = s"
proof (induction s rule: encode_utf8.induct)
  case (2 c)
  then show ?case using from_cp_unit [of c] decode_utf8_encode_cp [of "unat c" "[]"] by simp
next
  case (3 c lo cs)
  then show ?case using from_cp_unit [of c] from_cp_pair [of c lo]
    by (auto simp: decode_utf8_encode_cp simp del: decode_utf8.simps)
qed simp

text \<open>C28. Decoding undoes encoding: for every string of code units, lone surrogates included, the
  bytes that \<open>encodeUtf8\<close> produces are decoded by \<open>decodeUtf8\<close> to the same string.\<close>

theorem decode_encode_utf8: "decode_utf8 (encode_utf8 s) = s"
  by (rule decode_encode_utf8_all)


section \<open>Well-formed UTF-8\<close>

text \<open>The Unicode scalar values, and well-formed UTF-8 as the encodings of their sequences.\<close>

definition scalar :: "nat \<Rightarrow> bool" where
  "scalar cp \<longleftrightarrow> cp < 0x110000 \<and> \<not> (0xd800 \<le> cp \<and> cp \<le> 0xdfff)"

definition utf8_of :: "nat list \<Rightarrow> bytes" where
  "utf8_of cps = concat (map encode_cp cps)"

lemma cont_byte_inv: "is_cont b \<Longrightarrow> to_byte (0x80 OR low6 b) = b"
proof -
  assume "is_cont b"
  then have "0x80 \<le> unat b" "unat b < 0xc0" by (simp_all add: is_cont_iff)
  then obtain x where x: "unat b = 0x80 + x" "x < 64"
    using le_Suc_ex [of "0x80" "unat b"] by auto
  then have "low6 b = x" using mod_mult_self3 [of 2 64 x] by (simp add: low6_def)
  then have "to_byte (0x80 OR low6 b) = to_byte (unat b)" using x by (simp add: or_lead)
  then show ?thesis by simp
qed

lemma lead_cases:
  assumes "n < 256"
  shows "lead n = (if n < 0x80 then Some (0, n, 0) else if n < 0xc0 then None
    else if n < 0xe0 then Some (1, n - 0xc0, 0x80) else if n < 0xf0 then Some (2, n - 0xe0, 0x800)
    else if n < 0xf8 then Some (3, n - 0xf0, 0x10000) else None)"
proof -
  have "n mod 32 = n - 0xc0" if "0xc0 \<le> n" "n < 0xe0" using lead_mod(1) [of "n - 0xc0"] that by simp
  moreover have "n mod 16 = n - 0xe0" if "0xe0 \<le> n" "n < 0xf0" using lead_mod(2) [of "n - 0xe0"] that by simp
  moreover have "n mod 8 = n - 0xf0" if "0xf0 \<le> n" "n < 0xf8" using lead_mod(3) [of "n - 0xf0"] that by simp
  ultimately show ?thesis unfolding lead_def and_lead [OF assms] by auto
qed

lemma cont_loop_run:
  "is_cont b1 \<Longrightarrow> cont_loop 1 cp (b1 # r) = Some (cp * 64 + low6 b1, r)"
  "is_cont b1 \<Longrightarrow> is_cont b2 \<Longrightarrow> cont_loop 2 cp (b1 # b2 # r) = Some (cp * 4096 + low6 b1 * 64 + low6 b2, r)"
  "is_cont b1 \<Longrightarrow> is_cont b2 \<Longrightarrow> is_cont b3 \<Longrightarrow> cont_loop 3 cp (b1 # b2 # b3 # r) =
     Some (cp * 262144 + low6 b1 * 4096 + low6 b2 * 64 + low6 b3, r)"
  by (simp_all add: join6 low6_less numeral_2_eq_2 numeral_3_eq_3)

lemma cont_loop_inv:
  "cont_loop 1 cp bs = Some (cp', r) \<Longrightarrow> \<exists>b1. bs = b1 # r \<and> is_cont b1"
  "cont_loop 2 cp bs = Some (cp', r) \<Longrightarrow> \<exists>b1 b2. bs = b1 # b2 # r \<and> is_cont b1 \<and> is_cont b2"
  "cont_loop 3 cp bs = Some (cp', r) \<Longrightarrow>
     \<exists>b1 b2 b3. bs = b1 # b2 # b3 # r \<and> is_cont b1 \<and> is_cont b2 \<and> is_cont b3"
  by (cases bs rule: remdups_adj.cases; cases "tl (tl bs)";
      auto simp: numeral_2_eq_2 numeral_3_eq_3 neq_Nil_conv split: if_splits)+

lemma is_utf8_step:
  assumes "lead (unat b0) = Some (need, cp, lo)" "cont_loop need cp bs = Some (cp', r)" "lo \<le> cp'" "scalar cp'"
  shows "is_utf8 (b0 # bs) = is_utf8 r"
  using assms by (simp add: scalar_def not_less not_le) linarith

lemma is_utf8_encode_cp: "scalar cp \<Longrightarrow> is_utf8 (encode_cp cp @ r) = is_utf8 r"
proof -
  assume cp: "scalar cp"
  consider "cp < 0x80" | "0x80 \<le> cp" "cp < 0x800" | "0x800 \<le> cp" "cp < 0x10000" | "0x10000 \<le> cp"
    by linarith
  then show ?thesis
  proof cases
    case 1
    then show ?thesis using cp by (simp add: encode_cp_simps lead_cases scalar_def)
  next
    case 2
    then have "cp div 64 < 32" using less_mult_imp_div_less [of cp 32 64] by simp
    then show ?thesis using 2 cp unfolding encode_cp_simps(2) [OF 2] append_Cons append_Nil
      by (intro is_utf8_step [where need = "1" and cp = "cp div 64" and lo = "0x80" and cp' = cp])
         (simp_all add: lead_cases cont_loop_run(1) [OF cont_byte(1)] cont_byte(2) del: One_nat_def)
  next
    case 3
    then have "cp div 4096 < 16" using less_mult_imp_div_less [of cp 16 4096] by simp
    then show ?thesis using 3 cp digits3 [of cp] unfolding encode_cp_simps(3) [OF 3] append_Cons append_Nil
      by (intro is_utf8_step [where need = "2" and cp = "cp div 4096" and lo = "0x800" and cp' = cp])
         (simp_all add: lead_cases cont_loop_run(2) [OF cont_byte(1) cont_byte(1)] cont_byte(2))
  next
    case 4
    then have lt: "cp < 0x110000" using cp by (simp add: scalar_def)
    then have "cp div 262144 < 5" using less_mult_imp_div_less [of cp 5 262144] by simp
    then show ?thesis using 4 cp digits4 [of cp] unfolding encode_cp_simps(4) [OF 4 lt] append_Cons append_Nil
      by (intro is_utf8_step [where need = "3" and cp = "cp div 262144" and lo = "0x10000" and cp' = cp])
         (simp_all add: lead_cases cont_loop_run(3) [OF cont_byte(1) cont_byte(1) cont_byte(1)] cont_byte(2))
  qed
qed

text \<open>Every well-formed sequence starts with the encoding of a scalar value.\<close>

lemma join_inverse: "x < 64 \<Longrightarrow> (c * 64 + x) div 64 = c \<and> (c * 64 + x) mod 64 = (x::nat)"
  by simp

lemma encode_inverse2:
  assumes "cont_loop 1 (unat b0 - 0xc0) bs = Some (cp, r)" "0xc0 \<le> unat b0" "unat b0 < 0xe0" "0x80 \<le> cp"
  shows "b0 # bs = encode_cp cp @ r"
proof -
  obtain b1 where b1: "bs = b1 # r" "is_cont b1" using cont_loop_inv(1) assms(1) by blast
  have cp: "cp = (unat b0 - 0xc0) * 64 + low6 b1" using assms(1) b1 cont_loop_run(1) by simp
  then have "cp < 0x800" using assms(2,3) low6_less [of b1] by simp
  then have "encode_cp cp = [to_byte (0xc0 + cp div 64), to_byte (0x80 OR cp mod 64)]"
    using assms(4) by (intro encode_cp_simps) simp_all
  then show ?thesis using assms(2) b1 by (simp add: cp join_inverse low6_less cont_byte_inv)
qed

lemma encode_inverse3:
  assumes "cont_loop 2 (unat b0 - 0xe0) bs = Some (cp, r)" "0xe0 \<le> unat b0" "unat b0 < 0xf0" "0x800 \<le> cp"
  shows "b0 # bs = encode_cp cp @ r"
proof -
  let ?c = "unat b0 - 0xe0"
  obtain b1 b2 where b1: "bs = b1 # b2 # r" "is_cont b1" "is_cont b2" using cont_loop_inv(2) assms(1) by blast
  have cp: "cp = (?c * 64 + low6 b1) * 64 + low6 b2" using assms(1) b1 cont_loop_run(2) by simp
  have "cp < 0x10000" using assms(2,3) low6_less [of b1] low6_less [of b2] cp by simp
  then have "encode_cp cp = [to_byte (0xe0 + cp div 64 div 64), to_byte (0x80 OR cp div 64 mod 64), to_byte (0x80 OR cp mod 64)]"
    using assms(4) encode_cp_simps(3) [of cp] by (simp add: div_mult2_eq [symmetric])
  moreover have "cp div 64 = ?c * 64 + low6 b1" "cp mod 64 = low6 b2"
    unfolding cp by (simp_all only: join_inverse low6_less)
  moreover have "(?c * 64 + low6 b1) div 64 = ?c" "(?c * 64 + low6 b1) mod 64 = low6 b1"
    by (simp_all only: join_inverse low6_less)
  ultimately show ?thesis using assms(2) b1 by (simp add: cont_byte_inv)
qed

lemma encode_inverse4:
  assumes "cont_loop 3 (unat b0 - 0xf0) bs = Some (cp, r)" "0xf0 \<le> unat b0" "0x10000 \<le> cp" "cp < 0x110000"
  shows "b0 # bs = encode_cp cp @ r"
proof -
  let ?c = "unat b0 - 0xf0"
  obtain b1 b2 b3 where b1: "bs = b1 # b2 # b3 # r" "is_cont b1" "is_cont b2" "is_cont b3"
    using cont_loop_inv(3) assms(1) by blast
  have cp: "cp = ((?c * 64 + low6 b1) * 64 + low6 b2) * 64 + low6 b3" using assms(1) b1 cont_loop_run(3) by simp
  have "encode_cp cp = [to_byte (0xf0 + cp div 64 div 64 div 64), to_byte (0x80 OR cp div 64 div 64 mod 64),
      to_byte (0x80 OR cp div 64 mod 64), to_byte (0x80 OR cp mod 64)]"
    using assms(3,4) encode_cp_simps(4) [of cp] by (simp add: div_mult2_eq [symmetric])
  moreover have "cp div 64 = (?c * 64 + low6 b1) * 64 + low6 b2" "cp mod 64 = low6 b3"
    unfolding cp by (simp_all only: join_inverse low6_less)
  moreover have "((?c * 64 + low6 b1) * 64 + low6 b2) div 64 = ?c * 64 + low6 b1"
    "((?c * 64 + low6 b1) * 64 + low6 b2) mod 64 = low6 b2"
    "(?c * 64 + low6 b1) div 64 = ?c" "(?c * 64 + low6 b1) mod 64 = low6 b1"
    by (simp_all only: join_inverse low6_less)
  ultimately show ?thesis using assms(2) b1 by (simp add: cont_byte_inv)
qed

lemma is_utf8_Cons:
  assumes "is_utf8 (b0 # bs)"
  shows "\<exists>cp r. scalar cp \<and> b0 # bs = encode_cp cp @ r \<and> is_utf8 r"
proof -
  let ?n = "unat b0"
  obtain need c lo where l: "lead ?n = Some (need, c, lo)" using assms by (cases "lead ?n") auto
  obtain cp r where k: "cont_loop need c bs = Some (cp, r)" using assms l by (cases "cont_loop need c bs") auto
  have cp: "lo \<le> cp" "scalar cp" and r: "is_utf8 r" using assms l k by (auto simp: scalar_def split: if_splits)
  consider "?n < 0x80" "need = 0" "c = ?n"
    | "0xc0 \<le> ?n" "?n < 0xe0" "need = 1" "c = ?n - 0xc0" "lo = 0x80"
    | "0xe0 \<le> ?n" "?n < 0xf0" "need = 2" "c = ?n - 0xe0" "lo = 0x800"
    | "0xf0 \<le> ?n" "need = 3" "c = ?n - 0xf0" "lo = 0x10000"
    using l by (auto simp: lead_cases [OF unat_byte] split: if_splits)
  then have "b0 # bs = encode_cp cp @ r"
  proof cases
    case 1
    then show ?thesis using k by (auto simp: encode_cp_simps)
  next
    case 2
    then show ?thesis using k cp by (intro encode_inverse2) simp_all
  next
    case 3
    then show ?thesis using k cp by (intro encode_inverse3) simp_all
  next
    case 4
    then show ?thesis using k cp by (intro encode_inverse4) (simp_all add: scalar_def)
  qed
  then show ?thesis using cp r by blast
qed

lemma is_utf8_utf8_of: "is_utf8 bs \<Longrightarrow> \<exists>cps. (\<forall>cp\<in>set cps. scalar cp) \<and> bs = utf8_of cps"
proof (induction bs rule: length_induct)
  case (1 bs)
  show ?case
  proof (cases bs)
    case Nil
    then show ?thesis by (auto simp: utf8_of_def intro: exI [of _ "[]"])
  next
    case (Cons b0 bs')
    then obtain cp r where *: "scalar cp" "bs = encode_cp cp @ r" "is_utf8 r"
      using is_utf8_Cons 1(2) by blast
    have "encode_cp cp \<noteq> []" by (simp add: encode_cp_def)
    then have "length r < length bs" using *(2) by simp
    then obtain cps where "\<forall>cp\<in>set cps. scalar cp" "r = utf8_of cps" using 1(1) *(3) by blast
    then show ?thesis using * by (intro exI [of _ "cp # cps"]) (simp add: utf8_of_def)
  qed
qed

lemma utf8_of_is_utf8: "\<forall>cp\<in>set cps. scalar cp \<Longrightarrow> is_utf8 (utf8_of cps)"
  by (induction cps) (simp_all add: utf8_of_def is_utf8_encode_cp)

text \<open>\<open>isUtf8\<close> is a sound and complete test: it accepts exactly the byte sequences that are
  the UTF-8 encoding of a sequence of Unicode scalar values (no surrogates, no overlong forms,
  nothing above U+10FFFF).\<close>

theorem is_utf8_iff: "is_utf8 bs \<longleftrightarrow> (\<exists>cps. list_all scalar cps \<and> bs = utf8_of cps)"
  using is_utf8_utf8_of utf8_of_is_utf8 by (auto simp: list_all_iff)

lemma encode_from_cp: "scalar cp \<Longrightarrow> encode_utf8 (from_cp cp @ s) = encode_cp cp @ encode_utf8 s"
proof (cases "cp > 0xffff")
  case True
  assume cp: "scalar cp"
  define u where "u = cp - 0x10000"
  have u: "u div 1024 < 1024" "u mod 1024 < 1024"
    using cp True less_mult_imp_div_less [of u 1024 1024] by (simp_all add: u_def scalar_def)
  have "is_high (to_unit (0xd800 + u div 1024))" "is_low (to_unit (0xdc00 + u mod 1024))"
    using u by (simp_all add: surrogate_bounds)
  moreover have "pair_cp (to_unit (0xd800 + u div 1024)) (to_unit (0xdc00 + u mod 1024)) = cp"
    using u True by (simp add: pair_cp_arith u_def)
  ultimately show ?thesis using True by (simp add: from_cp_def drop_bit_eq_div u_def)
next
  case False
  assume "scalar cp"
  then have "\<not> is_high (to_unit cp)" "unat (to_unit cp) = cp"
    using False by (auto simp: surrogate_bounds scalar_def)
  then show ?thesis using False by (cases s) (simp_all add: from_cp_def)
qed

text \<open>On well-formed UTF-8 the lenient decoder loses nothing: bytes that \<open>isUtf8\<close> accepts are
  given back by \<open>encodeUtf8\<close> after \<open>decodeUtf8\<close>.\<close>

theorem encode_decode_utf8: "is_utf8 bs \<Longrightarrow> encode_utf8 (decode_utf8 bs) = bs"
proof -
  assume "is_utf8 bs"
  then obtain cps where cps: "\<forall>cp\<in>set cps. scalar cp" "bs = utf8_of cps" using is_utf8_utf8_of by blast
  then have "encode_utf8 (decode_utf8 (utf8_of cps)) = utf8_of cps"
    by (induction cps arbitrary: bs)
       (simp_all add: utf8_of_def decode_utf8_encode_cp encode_from_cp scalar_def)
  then show ?thesis by (simp add: cps(2))
qed

lemma cont_loop_numeral:
  "cont_loop (numeral n) cp bs = (case bs of [] \<Rightarrow> None
     | b # r \<Rightarrow> if is_cont b then cont_loop (pred_numeral n) (push_bit 6 cp OR low6 b) r else None)"
  by (simp add: numeral_eq_Suc split: list.split)

lemmas codec_eval = cont_loop_numeral decode_step_def is_cont_def low6_def from_cp_def lead_def Let_def to_unit_def
  to_byte_def encode_cp_def encode_into_def js_def is_high_def is_low_def

lemma encode_decode_utf8_witness:
  "is_utf8 [0xE2, 0x82, 0xAC, 0x41] \<and>
   encode_utf8 (decode_utf8 [0xE2, 0x82, 0xAC, 0x41]) = [0xE2, 0x82, 0xAC, 0x41]"
proof -
  have h: "is_utf8 [0xE2, 0x82, 0xAC, 0x41]" by (simp add: codec_eval)
  show ?thesis using h encode_decode_utf8 [OF h] by simp
qed

text \<open>
  Where the codec departs from the encoding standard: overlong forms are decoded, lone surrogates
  are encoded, and \<open>encodeInto\<close> reports the whole input as read when it ran out of room.
\<close>

lemma decode_overlong: "decode_utf8 [0xC0, 0x80] = [0] \<and> \<not> is_utf8 [0xC0, 0x80]"
  by (simp add: codec_eval)

lemma encode_lone_surrogate:
  "encode_utf8 [0xD800] = [0xED, 0xA0, 0x80] \<and> \<not> is_utf8 (encode_utf8 [0xD800])"
  by (simp add: codec_eval)

lemma encode_into_truncates: "encode_into (js ''abc'') [0] = ([97], 3, 1)"
  by (simp add: codec_eval)

end
