(* ===== verification/Buffer_Core.thy ===== *)
theory Buffer_Core
  imports Text_Codec "HOL-Library.List_Lexorder"
begin

text \<open>
  \<open>js/internal/buffer-core.js\<close>: the string encodings behind \<open>Buffer.from\<close> and
  \<open>toString\<close>, and the byte operations of \<open>Buffer\<close> and \<open>Blob\<close>. A buffer is the list of
  its bytes; a method that writes returns the new contents. Offsets and lengths are natural
  numbers, except for \<open>Blob.slice\<close>, which accepts negative ones.
\<close>

unbundle bit_operations_syntax

section \<open>Operations\<close>

datatype buffer_error = InvalidHex | InvalidBase64 | UnknownEncoding jsstr | OffsetOutOfRange

subsection \<open>Hex\<close>

definition hex_encode :: "bytes \<Rightarrow> jsstr" where
  "hex_encode bs = concat (map (\<lambda>b. pad_start 2 48 (to_radix 16 (unat b))) bs)"

fun hex_decode_loop :: "jsstr \<Rightarrow> bytes option" where
  "hex_decode_loop (a # b # r) =
     (case parse_int 16 [a, b] of
        None \<Rightarrow> None
      | Some v \<Rightarrow> map_option (\<lambda>bs. word_of_int v # bs) (hex_decode_loop r))"
| "hex_decode_loop _ = Some []"

definition hex_decode :: "jsstr \<Rightarrow> bytes option" where
  "hex_decode text = (if length text mod 2 \<noteq> 0 then None else hex_decode_loop text)"

subsection \<open>Base64\<close>

definition base64_chars :: jsstr where
  "base64_chars = js ''ABCDEFGHIJKLMNOPQRSTUVWXYZabcdefghijklmnopqrstuvwxyz0123456789+/''"

text \<open>One turn of the loop; \<open>b\<close> and \<open>c\<close> are absent at the end of the input.\<close>

definition base64_quad :: "byte \<Rightarrow> byte option \<Rightarrow> byte option \<Rightarrow> jsstr" where
  "base64_quad a0 b0 c0 =
     (let a = unat a0;
          b = (case b0 of None \<Rightarrow> 0 | Some x \<Rightarrow> unat x);
          c = (case c0 of None \<Rightarrow> 0 | Some x \<Rightarrow> unat x)
      in [base64_chars ! drop_bit 2 a,
          base64_chars ! (push_bit 4 (a AND 3) OR drop_bit 4 b),
          (if b0 \<noteq> None then base64_chars ! (push_bit 2 (b AND 15) OR drop_bit 6 c) else 61),
          (if c0 \<noteq> None then base64_chars ! (c AND 63) else 61)])"

fun base64_encode :: "bytes \<Rightarrow> jsstr" where
  "base64_encode [] = []"
| "base64_encode [a] = base64_quad a None None"
| "base64_encode [a, b] = base64_quad a (Some b) None"
| "base64_encode (a # b # c # r) = base64_quad a (Some b) (Some c) @ base64_encode r"

text \<open>
  The accumulator \<open>value\<close> is a 32-bit integer that is never masked; \<open>(value >> bits) & 0xff\<close>
  only looks at its low 16 bits.
\<close>

fun base64_decode_loop :: "jsstr \<Rightarrow> nat \<Rightarrow> 32 word \<Rightarrow> bytes option" where
  "base64_decode_loop [] bits val = Some []"
| "base64_decode_loop (ch # r) bits val =
     (if ch = 61 then Some []
      else case index_of_char base64_chars ch of
        None \<Rightarrow> None
      | Some i \<Rightarrow>
          let val' = push_bit 6 val OR of_nat i; bits' = bits + 6
          in if bits' \<ge> 8
             then map_option ((#) (ucast (signed_drop_bit (bits' - 8) val' AND 0xff)))
                    (base64_decode_loop r (bits' - 8) val')
             else base64_decode_loop r bits' val')"

definition base64_decode :: "jsstr \<Rightarrow> bytes option" where
  "base64_decode text = base64_decode_loop (filter (\<lambda>c. \<not> is_space c) text) 0 0"

subsection \<open>encodeString and decodeString\<close>

datatype encoding = Utf8 | Hex | Base64 | Latin1 | Utf16le

text \<open>\<open>(encoding || "utf8").toLowerCase().replace("-", "")\<close>: only the first dash goes.\<close>

fun remove_dash :: "jsstr \<Rightarrow> jsstr" where
  "remove_dash [] = []"
| "remove_dash (c # cs) = (if c = 45 then cs else c # remove_dash cs)"

definition encoding_name :: "jsstr \<Rightarrow> encoding option" where
  "encoding_name name =
     (let enc = remove_dash (to_lower (if name = [] then js ''utf8'' else name)) in
      if enc = js ''utf8'' \<or> enc = js ''utf'' then Some Utf8
      else if enc = js ''hex'' then Some Hex
      else if enc = js ''base64'' then Some Base64
      else if enc = js ''ascii'' \<or> enc = js ''latin1'' \<or> enc = js ''binary'' then Some Latin1
      else if enc = js ''utf16le'' \<or> enc = js ''ucs2'' then Some Utf16le
      else None)"

definition latin1_encode :: "jsstr \<Rightarrow> bytes" where
  "latin1_encode text = map (\<lambda>c. to_byte (unat c AND 0xff)) text"

definition utf16le_encode :: "jsstr \<Rightarrow> bytes" where
  "utf16le_encode text =
     concat (map (\<lambda>c. [to_byte (unat c AND 0xff), to_byte (drop_bit 8 (unat c))]) text)"

definition encode_string :: "jsstr \<Rightarrow> jsstr \<Rightarrow> buffer_error + bytes" where
  "encode_string text name =
     (case encoding_name name of
        Some Utf8 \<Rightarrow> Inr (encode_utf8 text)
      | Some Hex \<Rightarrow> (case hex_decode text of None \<Rightarrow> Inl InvalidHex | Some bs \<Rightarrow> Inr bs)
      | Some Base64 \<Rightarrow> (case base64_decode text of None \<Rightarrow> Inl InvalidBase64 | Some bs \<Rightarrow> Inr bs)
      | Some Latin1 \<Rightarrow> Inr (latin1_encode text)
      | Some Utf16le \<Rightarrow> Inr (utf16le_encode text)
      | None \<Rightarrow> Inl (UnknownEncoding name))"

definition latin1_decode :: "bytes \<Rightarrow> jsstr" where
  "latin1_decode bs = map (\<lambda>b. to_unit (unat b)) bs"

fun utf16le_decode :: "bytes \<Rightarrow> jsstr" where
  "utf16le_decode (a # b # r) = to_unit (unat a OR push_bit 8 (unat b)) # utf16le_decode r"
| "utf16le_decode _ = []"

definition decode_string :: "bytes \<Rightarrow> jsstr \<Rightarrow> buffer_error + jsstr" where
  "decode_string bs name =
     (case encoding_name name of
        Some Utf8 \<Rightarrow> Inr (decode_utf8 bs)
      | Some Hex \<Rightarrow> Inr (hex_encode bs)
      | Some Base64 \<Rightarrow> Inr (base64_encode bs)
      | Some Latin1 \<Rightarrow> Inr (latin1_decode bs)
      | Some Utf16le \<Rightarrow> Inr (utf16le_decode bs)
      | None \<Rightarrow> Inl (UnknownEncoding name))"

definition is_encoding :: "jsstr \<Rightarrow> bool" where
  "is_encoding name = (remove_dash (to_lower name) \<in> set (map js [''utf8'', ''utf'', ''hex'',
     ''base64'', ''ascii'', ''latin1'', ''binary'', ''utf16le'', ''ucs2'']))"

subsection \<open>Buffer methods\<close>

text \<open>\<open>subarray(start, end)\<close> and \<open>set(bytes, offset)\<close> of a typed array.\<close>

definition subarray :: "bytes \<Rightarrow> nat \<Rightarrow> nat \<Rightarrow> bytes" where
  "subarray bs a b = take (b - a) (drop a bs)"

definition set_at :: "bytes \<Rightarrow> bytes \<Rightarrow> nat \<Rightarrow> buffer_error + bytes" where
  "set_at dest src off =
     (if off + length src > length dest then Inl OffsetOutOfRange
      else Inr (take off dest @ src @ drop (off + length src) dest))"

fun compare_loop :: "bytes \<Rightarrow> bytes \<Rightarrow> int option" where
  "compare_loop (x # xs) (y # ys) =
     (if x \<noteq> y then Some (if x < y then -1 else 1) else compare_loop xs ys)"
| "compare_loop _ _ = None"

definition buffer_compare :: "bytes \<Rightarrow> bytes \<Rightarrow> int" where
  "buffer_compare left right =
     (case compare_loop left right of
        Some r \<Rightarrow> r
      | None \<Rightarrow> if length left = length right then 0
                else if length left < length right then -1 else 1)"

fun equals_loop :: "bytes \<Rightarrow> bytes \<Rightarrow> bool" where
  "equals_loop (x # xs) (y # ys) = (if x \<noteq> y then False else equals_loop xs ys)"
| "equals_loop _ _ = True"

definition buffer_equals :: "bytes \<Rightarrow> bytes \<Rightarrow> bool" where
  "buffer_equals this other = (if length this \<noteq> length other then False else equals_loop this other)"

text \<open>The loop of \<open>concat\<close> over the zero-filled \<open>out\<close>.\<close>

fun concat_loop :: "nat \<Rightarrow> bytes list \<Rightarrow> bytes \<Rightarrow> nat \<Rightarrow> bytes" where
  "concat_loop len [] out offset = out"
| "concat_loop len (chunk # chunks) out offset =
     (if offset \<ge> len then out
      else let part = subarray chunk 0 (len - offset)
           in concat_loop len chunks (take offset out @ part @ drop (offset + length part) out)
                (offset + length chunk))"

definition buffer_concat :: "bytes list \<Rightarrow> nat option \<Rightarrow> bytes" where
  "buffer_concat list totalLength =
     (let len = (case totalLength of None \<Rightarrow> sum_list (map length list) | Some n \<Rightarrow> n)
      in concat_loop len list (replicate len 0) 0)"

definition buffer_copy ::
  "bytes \<Rightarrow> bytes \<Rightarrow> nat \<Rightarrow> nat \<Rightarrow> nat option \<Rightarrow> buffer_error + (bytes \<times> nat)" where
  "buffer_copy this dest targetStart sourceStart sourceEnd =
     (let chunk = subarray this sourceStart (case sourceEnd of None \<Rightarrow> length this | Some e \<Rightarrow> e)
      in if targetStart > length dest then Inl OffsetOutOfRange
         else case set_at dest (subarray chunk 0 (length dest - targetStart)) targetStart of
                Inl e \<Rightarrow> Inl e
              | Inr d \<Rightarrow> Inr (d, min (length chunk) (length dest - targetStart)))"

definition buffer_write ::
  "bytes \<Rightarrow> jsstr \<Rightarrow> nat \<Rightarrow> nat option \<Rightarrow> jsstr \<Rightarrow> buffer_error + (bytes \<times> nat)" where
  "buffer_write this text off len enc =
     (case encode_string text enc of
        Inl e \<Rightarrow> Inl e
      | Inr bs \<Rightarrow>
          if off > length this then Inl OffsetOutOfRange
          else let count = min (length bs) (case len of None \<Rightarrow> length this - off | Some n \<Rightarrow> n)
               in case set_at this (subarray bs 0 count) off of
                    Inl e \<Rightarrow> Inl e
                  | Inr d \<Rightarrow> Inr (d, count))"

definition buffer_to_string :: "bytes \<Rightarrow> jsstr \<Rightarrow> nat \<Rightarrow> nat option \<Rightarrow> buffer_error + jsstr" where
  "buffer_to_string this enc start e =
     decode_string (subarray this start (case e of None \<Rightarrow> length this | Some n \<Rightarrow> n)) enc"

definition is_ascii :: "bytes \<Rightarrow> bool" where
  "is_ascii bs = list_all (\<lambda>b. \<not> b > 0x7f) bs"

subsection \<open>Blob\<close>

text \<open>A part of a blob is already bytes, or a string to encode.\<close>

datatype blob_part = PartBytes bytes | PartString jsstr

fun part_bytes :: "blob_part \<Rightarrow> bytes" where
  "part_bytes (PartBytes bs) = bs"
| "part_bytes (PartString s) = encode_utf8 s"

record blob =
  blob_bytes :: bytes
  blob_size :: nat
  blob_type :: jsstr

definition new_blob :: "blob_part list \<Rightarrow> jsstr \<Rightarrow> blob" where
  "new_blob parts type =
     (let chunks = map part_bytes parts
      in \<lparr>blob_bytes = concat chunks, blob_size = sum_list (map length chunks),
          blob_type = to_lower type\<rparr>)"

definition clamp_index :: "nat \<Rightarrow> int \<Rightarrow> nat" where
  "clamp_index n i = nat (if i < 0 then max (int n + i) 0 else min i (int n))"

definition blob_slice :: "blob \<Rightarrow> int option \<Rightarrow> int option \<Rightarrow> jsstr option \<Rightarrow> blob" where
  "blob_slice b start e type =
     (let lo = (case start of None \<Rightarrow> 0 | Some i \<Rightarrow> clamp_index (blob_size b) i);
          to = (case e of None \<Rightarrow> blob_size b | Some i \<Rightarrow> clamp_index (blob_size b) i)
      in new_blob [PartBytes (subarray (blob_bytes b) lo to)]
           (case type of None \<Rightarrow> blob_type b | Some t \<Rightarrow> t))"

text \<open>The four sextets of a group and one turn of the decoder's accumulator.\<close>

definition sextet1 :: "byte \<Rightarrow> nat" where "sextet1 a = drop_bit 2 (unat a)"
definition sextet2 :: "byte \<Rightarrow> byte \<Rightarrow> nat" where "sextet2 a b = push_bit 4 (unat a AND 3) OR drop_bit 4 (unat b)"
definition sextet3 :: "byte \<Rightarrow> byte \<Rightarrow> nat" where "sextet3 b c = push_bit 2 (unat b AND 15) OR drop_bit 6 (unat c)"
definition sextet4 :: "byte \<Rightarrow> nat" where "sextet4 c = unat c AND 63"
definition acc6 :: "32 word \<Rightarrow> nat \<Rightarrow> 32 word" where "acc6 v n = push_bit 6 v OR of_nat n"
definition out8 :: "nat \<Rightarrow> 32 word \<Rightarrow> byte" where "out8 m v = ucast (signed_drop_bit m v AND 0xff)"

lemma byte_eqI: "(\<And>k. k < 8 \<Longrightarrow> bit v k = bit w k) \<Longrightarrow> v = (w :: byte)"
  by (rule bit_word_eqI) simp

lemma byte_high: "8 \<le> k \<Longrightarrow> \<not> bit (b :: byte) k"
  using bit_imp_le_length [of b k] by auto

lemma word_mask: "(0xff :: 32 word) = mask 8"
  by (simp add: mask_eq_exp_minus_1)

lemma bit_out8: "k < 8 \<Longrightarrow> m \<le> 6 \<Longrightarrow> bit (out8 m v) k = bit v (m + k)"
  by (auto simp: out8_def word_mask bit_signed_drop_bit_iff bit_ucast_iff bit_and_iff bit_mask_iff)

lemma nat_bit_high: 
  assumes "n < 64" "6 \<le> k" shows "\<not> bit (n :: nat) k"
proof -
  have "take_bit 6 n = n" using assms by (simp add: take_bit_nat_eq_self_iff)
  then show ?thesis using assms(2) bit_take_bit_iff [of 6 n k] by simp
qed

lemma bit_acc6: "n < 64 \<Longrightarrow> k < 32 \<Longrightarrow> bit (acc6 v n) k = (if k < 6 then bit n k else bit v (k - 6))"
  using nat_bit_high [of n k]
  by (auto simp: acc6_def bit_or_iff bit_push_bit_iff bit_of_nat_iff)

lemma nat_masks: "(15::nat) = mask 4" "(3::nat) = mask 2" "(63::nat) = mask 6"
  by (simp_all add: mask_eq_exp_minus_1)

lemma nat_lt64: "(\<And>k. 6 \<le> k \<Longrightarrow> \<not> bit n k) \<Longrightarrow> n < (64::nat)"
proof -
  assume *: "\<And>k. 6 \<le> k \<Longrightarrow> \<not> bit n k"
  have "take_bit 6 n = n" by (rule bit_eqI) (metis * bit_take_bit_iff not_le)
  then show ?thesis using take_bit_nat_less_exp [of 6 n] by simp
qed

lemma sextet_bits:
  "bit (sextet1 a) k = bit a (k + 2)"
  "bit (sextet2 a b) k = (if k < 4 then bit b (k + 4) else k < 6 \<and> bit a (k - 4))"
  "bit (sextet3 b c) k = (if k < 2 then bit c (k + 6) else k < 6 \<and> bit b (k - 2))"
  "bit (sextet4 c) k = (k < 6 \<and> bit c k)"
  unfolding sextet1_def sextet2_def sextet3_def sextet4_def nat_masks
  by (auto simp: bit_drop_bit_eq bit_or_iff bit_push_bit_iff bit_and_iff bit_mask_iff bit_unsigned_iff byte_high add.commute)

lemma sextets: "sextet1 a < 64" "sextet2 a b < 64" "sextet3 b c < 64" "sextet4 c < 64"
  by (rule nat_lt64; simp add: sextet_bits byte_high)+

lemma quads:
  "out8 4 (acc6 (acc6 v (sextet1 a)) (sextet2 a b)) = a"
  "out8 2 (acc6 (acc6 v (sextet2 a b)) (sextet3 b c)) = b"
  "out8 0 (acc6 (acc6 v (sextet3 b c)) (sextet4 c)) = c"
  by (rule byte_eqI; auto simp: bit_out8 bit_acc6 sextets sextet_bits simp flip: add_2_eq_Suc' add_2_eq_Suc)+

lemma index_of_char_nth: "distinct xs \<Longrightarrow> i < length xs \<Longrightarrow> index_of_char xs (xs ! i) = Some i"
  by (induction xs arbitrary: i) (auto simp: nth_Cons split: nat.split)

lemma b64_chars: "distinct base64_chars" "length base64_chars = 64" "61 \<notin> set base64_chars" "\<forall>c\<in>set base64_chars. \<not> is_space c"
     apply (simp_all add: base64_chars_def js_def)
  apply (simp_all add: is_space_def)
  done

lemma b64_char:
  assumes "i < 64"
  shows "index_of_char base64_chars (base64_chars ! i) = Some i" "base64_chars ! i \<noteq> 61" "\<not> is_space (base64_chars ! i)"
proof -
  have m: "base64_chars ! i \<in> set base64_chars" using assms b64_chars(2) by simp
  then show "index_of_char base64_chars (base64_chars ! i) = Some i" "\<not> is_space (base64_chars ! i)"
    using assms b64_chars by (simp_all add: index_of_char_nth)
  show "base64_chars ! i \<noteq> 61" using m b64_chars(3) by metis
qed

lemma loop_step: "n < 64 \<Longrightarrow> base64_decode_loop (base64_chars ! n # r) bits v = (if bits + 6 \<ge> 8
   then map_option ((#) (out8 (bits + 6 - 8) (acc6 v n))) (base64_decode_loop r (bits + 6 - 8) (acc6 v n))
   else base64_decode_loop r (bits + 6) (acc6 v n))"
  by (simp add: b64_char Let_def acc6_def out8_def)

lemma loop_group:
   "base64_decode_loop (base64_chars ! sextet1 a # base64_chars ! sextet2 a b # base64_chars ! sextet3 b c # base64_chars ! sextet4 c # r) 0 v
   = map_option (\<lambda>bs. a # b # c # bs) (base64_decode_loop r 0 (acc6 (acc6 (acc6 (acc6 v (sextet1 a)) (sextet2 a b)) (sextet3 b c)) (sextet4 c)))"
  by (simp add: loop_step sextets quads option.map_comp comp_def del: base64_decode_loop.simps)

lemma base64_encode_sextets:
  "base64_encode [a] = [base64_chars ! sextet1 a, base64_chars ! sextet2 a 0, 61, 61]"
  "base64_encode [a, b] = [base64_chars ! sextet1 a, base64_chars ! sextet2 a b, base64_chars ! sextet3 b 0, 61]"
  "base64_encode (a # b # c # r) = [base64_chars ! sextet1 a, base64_chars ! sextet2 a b, base64_chars ! sextet3 b c, base64_chars ! sextet4 c] @ base64_encode r"
  by (simp_all add: base64_quad_def sextet1_def sextet2_def sextet3_def sextet4_def Let_def)

lemma base64_loop_encode: "base64_decode_loop (base64_encode bs) 0 v = Some bs"
proof (induction bs arbitrary: v rule: base64_encode.induct)
  case (2 a)
  show ?case unfolding base64_encode_sextets by (simp only: loop_step sextets quads) (simp add: quads)
next
  case (3 a b)
  show ?case unfolding base64_encode_sextets by (simp only: loop_step sextets quads) (simp add: loop_step sextets quads del: base64_decode_loop.simps(2), simp)
next
  case (4 a b c r)
  then show ?case unfolding base64_encode_sextets append_Cons append_Nil loop_group by simp
qed simp

lemma base64_no_space: "filter (\<lambda>c. \<not> is_space c) (base64_encode bs) = base64_encode bs"
  by (induction bs rule: base64_encode.induct)
     (simp_all only: base64_encode_sextets append_Cons append_Nil, simp_all add: b64_char sextets is_space_def [of 61])

lemma base64_decode_encode: "base64_decode (base64_encode bs) = Some bs"
  by (simp add: base64_decode_def base64_no_space base64_loop_encode)

lemma hex_byte: "pad_start 2 48 (to_radix 16 (unat (b :: byte))) = [digit_char (unat b div 16), digit_char (unat b mod 16)]"
proof (cases "unat b < 16")
  case True
  moreover have "digit_char 0 = 48" by (simp add: digit_char_def to_unit_def)
  ultimately show ?thesis by (subst to_radix.simps) (simp add: pad_start_def)
next
  case False
  have "unat b div 16 < 16" using unat_byte [of b] less_mult_imp_div_less [of "unat b" 16 16] by simp
  then have "to_radix 16 (unat b div 16) = [digit_char (unat b div 16)]" by (subst to_radix.simps) simp
  then show ?thesis using False by (subst to_radix.simps) (simp add: pad_start_def)
qed

lemma parse_hex_pair:
  assumes "a < 16" "b < 16"
  shows "parse_int 16 [digit_char a, digit_char b] = Some (int (a * 16 + b))"
  using assms digit_char_not_sign [of a] digit_char_not_sign [of b]
  by (simp add: parse_int_def Let_def trim_start_def starts_with_def is_digit_char digits_value_def digit_char_value)

lemma hex_loop_encode: "hex_decode_loop (hex_encode bs) = Some bs"
proof (induction bs)
  case (Cons b bs)
  have "unat b div 16 < 16" using unat_byte [of b] less_mult_imp_div_less [of "unat b" 16 16] by simp
  moreover have "word_of_int (int (unat b div 16 * 16 + unat b mod 16)) = b" by (simp only: div_mult_mod_eq) simp
  ultimately show ?case using Cons by (simp add: hex_encode_def hex_byte parse_hex_pair)
qed (simp add: hex_encode_def)

lemma length_hex_encode: "length (hex_encode bs) = 2 * length bs"
  by (induction bs) (simp_all add: hex_encode_def hex_byte)

lemma hex_decode_encode: "hex_decode (hex_encode bs) = Some bs"
  by (simp add: hex_decode_def length_hex_encode hex_loop_encode)

lemma and_ff: "n AND 255 = n mod (256 :: nat)"
proof -
  have "n AND 255 = n AND mask 8" by (simp add: mask_eq_exp_minus_1)
  also have "\<dots> = take_bit 8 n" by (rule take_bit_eq_mask [symmetric])
  finally show ?thesis by (simp add: take_bit_eq_mod)
qed

lemma latin1_encode_decode: "latin1_encode (latin1_decode bs) = bs"
proof -
  have "unat b mod 65536 AND 255 = unat b" for b :: byte using unat_byte [of b] by (simp add: and_ff)
  then show ?thesis by (simp add: latin1_encode_def latin1_decode_def comp_def)
qed

lemma utf16le_decode_encode: "utf16le_decode (utf16le_encode s) = s"
proof (induction s)
  case (Cons c s)
  have "unat c mod 256 OR push_bit 8 (unat c div 256) = unat c"
    by (rule bit_eqI)
       (auto simp: bit_simps simp flip: take_bit_eq_mod [of 8, simplified] drop_bit_eq_div [of 8, simplified],
        metis le_add_diff_inverse not_less)
  then show ?case using Cons unat_unit [of c] by (simp add: utf16le_encode_def drop_bit_eq_div less_mult_imp_div_less and_ff)
qed (simp add: utf16le_encode_def)

subsection \<open>Comparing and copying\<close>

lemma compare_loop_append: "compare_loop (xs @ us) (xs @ vs) = compare_loop us vs"
  by (induction xs) auto

lemma nil_less: "([] :: bytes) < ys \<longleftrightarrow> ys \<noteq> []"
  by (cases ys) auto

lemma buffer_compare_less: "buffer_compare xs ys = (if xs = ys then 0 else if xs < ys then -1 else 1)"
proof (induction xs ys rule: compare_loop.induct)
  case (1 x xs y ys)
  have "buffer_compare (x # xs) (y # ys) = (if x = y then buffer_compare xs ys else if x < y then -1 else 1)"
    by (simp add: buffer_compare_def)
  then show ?case using 1 by auto
qed (auto simp: buffer_compare_def nil_less)

lemma equals_loop_iff: "length xs = length ys \<Longrightarrow> equals_loop xs ys \<longleftrightarrow> xs = ys"
  by (induction xs ys rule: equals_loop.induct) auto

lemma concat_loop_eq:
  "length pre = offset \<Longrightarrow> offset \<le> len \<Longrightarrow> length rest = len - offset \<Longrightarrow>
   concat_loop len chunks (pre @ rest) offset =
     pre @ take (len - offset) (concat chunks) @ drop (length (concat chunks)) rest"
proof (induction chunks arbitrary: pre rest offset)
  case (Cons c cs)
  show ?case
  proof (cases "offset + length c \<le> len \<and> offset < len")
    case True
    then have "take (len - offset) c = c" by auto
    then have "concat_loop len (c # cs) (pre @ rest) offset =
        concat_loop len cs ((pre @ c) @ drop (length c) rest) (offset + length c)"
      using Cons.prems True by (simp add: Let_def subarray_def)
    also have "\<dots> = (pre @ c) @ take (len - (offset + length c)) (concat cs) @ drop (length (concat cs)) (drop (length c) rest)"
      using Cons.prems True by (intro Cons.IH) auto
    finally show ?thesis using \<open>take (len - offset) c = c\<close> Cons.prems by (simp add: ac_simps)
  next
    case False
    then show ?thesis using Cons.prems by (cases cs) (auto simp: Let_def subarray_def)
  qed
qed auto

section \<open>The two kinds of encodings\<close>

text \<open>
  An encoding that shows arbitrary bytes as text (hex, base64, latin1), and one that stores
  arbitrary text as bytes (UTF-8, UTF-16): each promises that one of its two directions is undone
  by the other.
\<close>

locale binary_text =
  fixes to_text :: "bytes \<Rightarrow> jsstr"
    and of_text :: "jsstr \<Rightarrow> bytes option"
  assumes of_to: "of_text (to_text bs) = Some bs"
begin

lemma to_text_inj: "to_text as = to_text bs \<Longrightarrow> as = bs"
  by (metis of_to option.inject)

end

locale text_binary =
  fixes to_bytes :: "jsstr \<Rightarrow> bytes"
    and of_bytes :: "bytes \<Rightarrow> jsstr"
  assumes of_to: "of_bytes (to_bytes s) = s"
begin

lemma to_bytes_inj: "to_bytes s = to_bytes t \<Longrightarrow> s = t"
  by (metis of_to)

end

interpretation hex: binary_text hex_encode hex_decode
  by unfold_locales (rule hex_decode_encode)

interpretation base64: binary_text base64_encode base64_decode
  by unfold_locales (rule base64_decode_encode)

interpretation latin1: binary_text latin1_decode "\<lambda>s. Some (latin1_encode s)"
  by unfold_locales (simp add: latin1_encode_decode)

interpretation utf8: text_binary encode_utf8 decode_utf8
  by unfold_locales (rule decode_encode_utf8_all)

interpretation utf16le: text_binary utf16le_encode utf16le_decode
  by unfold_locales (rule utf16le_decode_encode)

lemmas encoding_round_trips = hex.of_to base64.of_to latin1.of_to [unfolded option.inject] utf8.of_to utf16le.of_to

text \<open>For the encodings that print bytes (hex, base64, and latin1/ascii/binary), whatever bytes
  a buffer holds, the text that \<open>toString\<close> shows is turned back into the same bytes by
  \<open>Buffer.from\<close>.\<close>

theorem bytes_text_bytes:
  "encoding_name name \<in> {Some Hex, Some Base64, Some Latin1} \<Longrightarrow> decode_string bs name = Inr s \<Longrightarrow>
   encode_string s name = Inr bs"
  by (auto simp: decode_string_def encode_string_def encoding_round_trips)

lemma bytes_text_bytes_witness:
  "encode_string (js ''AP8='') (js ''Base64'') = Inr [0, 0xff]"
proof (rule bytes_text_bytes)
  show "encoding_name (js ''Base64'') \<in> {Some Hex, Some Base64, Some Latin1}"
    by (simp add: encoding_name_def js_def js_defs lower_unit_def)
  show "decode_string [0, 0xff] (js ''Base64'') = Inr (js ''AP8='')"
    by (simp add: decode_string_def encoding_name_def js_def js_defs lower_unit_def base64_quad_def base64_chars_def)
qed

text \<open>For the encodings that store text (UTF-8 and UTF-16LE under any of their names), every
  string is read back unchanged from the bytes it is encoded to.\<close>

theorem text_bytes_text:
  "encoding_name name \<in> {Some Utf8, Some Utf16le} \<Longrightarrow> encode_string s name = Inr bs \<Longrightarrow>
   decode_string bs name = Inr s"
  by (auto simp: decode_string_def encode_string_def encoding_round_trips)

lemma text_bytes_text_witness:
  "decode_string [0x41, 0, 0xe9, 0] (js ''ucs-2'') = Inr [0x41, 0xe9]"
proof (rule text_bytes_text)
  show "encoding_name (js ''ucs-2'') \<in> {Some Utf8, Some Utf16le}"
    by (simp add: encoding_name_def js_def js_defs lower_unit_def)
  show "encode_string [0x41, 0xe9] (js ''ucs-2'') = Inr [0x41, 0, 0xe9, 0]"
    by (simp add: encode_string_def encoding_name_def js_def js_defs lower_unit_def utf16le_encode_def and_ff to_byte_def)
qed

text \<open>\<open>Buffer.concat(list, totalLength)\<close> is the concatenation of the chunks cut to the total
  length, or padded with zeros up to it; without a total length it is the concatenation itself.\<close>

theorem buffer_concat_eq:
  "buffer_concat chunks t =
     (let all = concat chunks; n = (case t of None \<Rightarrow> length all | Some n \<Rightarrow> n)
      in take n all @ replicate (n - length all) 0)"
  using concat_loop_eq [of "[]" 0 _ "replicate _ 0"]
  by (simp add: buffer_concat_def Let_def length_concat split: option.splits)

text \<open>\<open>Buffer.compare\<close> decides the lexicographic order, \<open>equals\<close> equality.\<close>

lemma buffer_equals_iff: "buffer_equals xs ys \<longleftrightarrow> buffer_compare xs ys = 0"
  by (simp add: buffer_equals_def buffer_compare_less equals_loop_iff)

text \<open>\<open>write\<close> replaces exactly the bytes it counts and never changes the length.\<close>

lemma buffer_write_eq:
  "encode_string text enc = Inr bs \<Longrightarrow> off \<le> length this \<Longrightarrow>
   buffer_write this text off None enc =
     (let n = min (length bs) (length this - off)
      in Inr (take off this @ take n bs @ drop (off + n) this, n))"
  by (auto simp: buffer_write_def set_at_def subarray_def Let_def)

lemma blob_slice_bytes:
  "blob_size b = length (blob_bytes b) \<Longrightarrow>
   blob_size (blob_slice b s e t) = length (blob_bytes (blob_slice b s e t)) \<and>
   blob_size (blob_slice b s e t) \<le> blob_size b"
  by (simp add: blob_slice_def new_blob_def subarray_def Let_def)

text \<open>A digit of \<open>hexDecode\<close> that is no hex digit is accepted when the first of its pair is one.\<close>

lemma hex_decode_lenient: "hex_decode (js ''1g'') = Some [1]"
  by (simp add: hex_decode_def js_def parse_int_def js_defs is_space_def is_digit_of_def digit_value_def digits_value_def)

end
