(* ===== verification/Buffer_Memory.thy ===== *)
theory Buffer_Memory
  imports Buffer_Core
begin

text \<open>
  Buffers as views of memory: the constructor of \<open>Buffer\<close> in \<open>js/internal/buffer-core.js\<close> with its
  overloads, and what the methods that write do to the other views. An \<open>ArrayBuffer\<close> is an address of a
  store; a buffer is an address, an offset and a length. The methods on bytes are those of \<open>Buffer_Core\<close>.
\<close>

section \<open>The store\<close>

type_synonym memory = "bytes list"

record view =
  v_addr :: nat
  v_off :: nat
  v_len :: nat

definition view_ok :: "memory \<Rightarrow> view \<Rightarrow> bool" where
  "view_ok M v \<longleftrightarrow> v_addr v < length M \<and> v_off v + v_len v \<le> length (M ! v_addr v)"

definition view_bytes :: "memory \<Rightarrow> view \<Rightarrow> bytes" where
  "view_bytes M v = take (v_len v) (drop (v_off v) (M ! v_addr v))"

text \<open>A new typed array of its own: a fresh address.\<close>

definition fresh :: "memory \<Rightarrow> bytes \<Rightarrow> memory \<times> view" where
  "fresh M bs = (M @ [bs], \<lparr>v_addr = length M, v_off = 0, v_len = length bs\<rparr>)"

text \<open>\<open>this.set(bytes, i)\<close>: \<open>None\<close> is the \<open>RangeError\<close>.\<close>

definition write_view :: "memory \<Rightarrow> view \<Rightarrow> nat \<Rightarrow> bytes \<Rightarrow> memory option" where
  "write_view M v i bs =
     (if i + length bs \<le> v_len v
      then Some (M[v_addr v := take (v_off v + i) (M ! v_addr v) @ bs @ drop (v_off v + i + length bs) (M ! v_addr v)])
      else None)"

section \<open>The constructor\<close>

text \<open>
  What a buffer can be made of. The second and third arguments are read as the source does: the encoding of a
  string, the offset and the length in an \<open>ArrayBuffer\<close>.
\<close>

datatype buffer_arg = Size int | Str jsstr "jsstr option" | Memory nat "int option" "int option" | View view
  | Numbers "int list" | Missing | OtherObject

datatype memory_error = NotANumber string | BadArgument | OutOfRange | BadText buffer_error

text \<open>\<open>coerceNumber\<close> for a whole number.\<close>

definition coerce_number :: "int \<Rightarrow> string \<Rightarrow> memory_error + nat" where
  "coerce_number n name = (if n < 0 then Inl (NotANumber name) else Inr (nat n))"

definition new_buffer :: "memory \<Rightarrow> buffer_arg \<Rightarrow> memory \<times> (memory_error + view)" where
  "new_buffer M a = (case a of
     Size n \<Rightarrow> (case coerce_number n ''size'' of Inl e \<Rightarrow> (M, Inl e)
       | Inr k \<Rightarrow> (case fresh M (replicate k 0) of (M', v) \<Rightarrow> (M', Inr v)))
   | Str s enc \<Rightarrow> (case encode_string s (case enc of None \<Rightarrow> js ''utf8'' | Some e \<Rightarrow> e) of
         Inl e \<Rightarrow> (M, Inl (BadText e))
       | Inr bs \<Rightarrow> (case fresh M bs of (M', v) \<Rightarrow> (M', Inr v)))
   | Memory k off len \<Rightarrow>
       (case (case off of None \<Rightarrow> Inr 0 | Some i \<Rightarrow> coerce_number i ''offset'') of
          Inl e \<Rightarrow> (M, Inl e)
        | Inr i \<Rightarrow>
            (case (case len of None \<Rightarrow> if length (M ! k) < i then Inl OutOfRange else Inr (length (M ! k) - i)
                     | Some n \<Rightarrow> coerce_number n ''length'') of
               Inl e \<Rightarrow> (M, Inl e)
             | Inr n \<Rightarrow> if length (M ! k) < i + n then (M, Inl OutOfRange)
                        else (M, Inr \<lparr>v_addr = k, v_off = i, v_len = n\<rparr>)))
   | View v \<Rightarrow> (M, Inr \<lparr>v_addr = v_addr v, v_off = v_off v, v_len = v_len v\<rparr>)
   | Numbers ns \<Rightarrow> (case fresh M (map of_int ns) of (M', v) \<Rightarrow> (M', Inr v))
   | Missing \<Rightarrow> (M, Inl BadArgument)
   | OtherObject \<Rightarrow> (case fresh M [] of (M', v) \<Rightarrow> (M', Inr v)))"

text \<open>\<open>Buffer.from\<close> is the constructor.\<close>

definition buffer_from :: "memory \<Rightarrow> buffer_arg \<Rightarrow> memory \<times> (memory_error + view)" where
  "buffer_from M a = new_buffer M a"

text \<open>
  \<open>bytes.fill(value)\<close> is the method of \<open>Uint8Array\<close>: the value is converted to a number, and a text that
  is none counts as 0; the encoding is ignored. Of the texts that are numbers, those in decimal digits are read here.
\<close>

datatype fill = FillNumber int | FillText jsstr

definition fill_byte :: "fill \<Rightarrow> byte" where
  "fill_byte f = (case f of FillNumber n \<Rightarrow> of_int n
     | FillText s \<Rightarrow> if trim s \<noteq> [] \<and> list_all (is_digit_of 10) (trim s) then of_nat (digits_value 10 (trim s)) else 0)"

definition buffer_alloc :: "memory \<Rightarrow> int \<Rightarrow> fill option \<Rightarrow> memory \<times> (memory_error + view)" where
  "buffer_alloc M n f =
     (case coerce_number n ''size'' of
        Inl e \<Rightarrow> (M, Inl e)
      | Inr k \<Rightarrow> (case fresh M (replicate k (case f of None \<Rightarrow> 0 | Some x \<Rightarrow> fill_byte x)) of (M', v) \<Rightarrow> (M', Inr v)))"

definition alloc_unsafe :: "memory \<Rightarrow> int \<Rightarrow> memory \<times> (memory_error + view)" where
  "alloc_unsafe M n = (case coerce_number n ''size'' of
     Inl e \<Rightarrow> (M, Inl e) | Inr k \<Rightarrow> new_buffer M (Size (int k)))"

definition byte_length :: "memory \<Rightarrow> buffer_arg \<Rightarrow> memory_error + nat" where
  "byte_length M a = (case a of
     Str s enc \<Rightarrow> (case encode_string s (case enc of None \<Rightarrow> js ''utf8'' | Some e \<Rightarrow> e) of Inl e \<Rightarrow> Inl (BadText e) | Inr bs \<Rightarrow> Inr (length bs))
   | Memory k off len \<Rightarrow> Inr (length (M ! k))
   | View v \<Rightarrow> Inr (v_len v)
   | _ \<Rightarrow> Inl BadArgument)"

text \<open>\<open>subarray\<close> of a buffer is a buffer on the same memory; \<open>slice\<close>, which the class inherits, copies.\<close>

definition rel_pos :: "nat \<Rightarrow> int \<Rightarrow> nat" where
  "rel_pos n i = clamp_index n i"

definition sub_view :: "view \<Rightarrow> int \<Rightarrow> int option \<Rightarrow> view" where
  "sub_view v a b =
     (let i = rel_pos (v_len v) a; j = (case b of None \<Rightarrow> v_len v | Some k \<Rightarrow> rel_pos (v_len v) k)
      in \<lparr>v_addr = v_addr v, v_off = v_off v + i, v_len = j - i\<rparr>)"

definition slice_view :: "memory \<Rightarrow> view \<Rightarrow> int \<Rightarrow> int option \<Rightarrow> memory \<times> view" where
  "slice_view M v a b = fresh M (view_bytes M (sub_view v a b))"

text \<open>\<open>Buffer.concat\<close>, \<open>copy\<close> and \<open>write\<close>; the bytes of a copy are taken before they are written.\<close>

definition concat_views :: "memory \<Rightarrow> view list \<Rightarrow> nat option \<Rightarrow> memory \<times> view" where
  "concat_views M vs len = fresh M (buffer_concat (map (view_bytes M) vs) len)"

definition copy_view :: "memory \<Rightarrow> view \<Rightarrow> view \<Rightarrow> nat \<Rightarrow> nat \<Rightarrow> nat option \<Rightarrow> (memory \<times> nat) option" where
  "copy_view M v target targetStart sourceStart sourceEnd =
     (let chunk = subarray (view_bytes M v) sourceStart (case sourceEnd of None \<Rightarrow> v_len v | Some e \<Rightarrow> e)
      in if targetStart > v_len target then None
         else map_option (\<lambda>M'. (M', min (length chunk) (v_len target - targetStart)))
                (write_view M target targetStart (subarray chunk 0 (v_len target - targetStart))))"

definition write_text :: "memory \<Rightarrow> view \<Rightarrow> jsstr \<Rightarrow> nat \<Rightarrow> nat option \<Rightarrow> jsstr \<Rightarrow> (memory \<times> nat) option" where
  "write_text M v s off len enc =
     (case encode_string s enc of
        Inl e \<Rightarrow> None
      | Inr bs \<Rightarrow> if off > v_len v then None
          else let count = min (length bs) (case len of None \<Rightarrow> v_len v - off | Some n \<Rightarrow> n)
               in map_option (\<lambda>M'. (M', count)) (write_view M v off (subarray bs 0 count)))"

section \<open>Files\<close>

record file_blob = blob +
  file_name :: jsstr
  last_modified :: int

definition new_file :: "blob_part list \<Rightarrow> jsstr \<Rightarrow> jsstr \<Rightarrow> int option \<Rightarrow> int \<Rightarrow> file_blob" where
  "new_file parts name type modified now =
     blob.extend (new_blob parts type) \<lparr>file_name = name, last_modified = (case modified of None \<Rightarrow> now | Some t \<Rightarrow> t)\<rparr>"

definition blob_text :: "blob \<Rightarrow> jsstr" where
  "blob_text b = decode_utf8 (blob_bytes b)"

section \<open>Which views see a write\<close>

lemma write_view_ok:
  "view_ok M v \<Longrightarrow> write_view M v i bs = Some M' \<Longrightarrow> length M' = length M \<and> length (M' ! k) = length (M ! k)"
  by (cases "k = v_addr v") (auto simp: write_view_def view_ok_def nth_list_update split: if_splits)

lemma view_ok_write: "view_ok M v \<Longrightarrow> write_view M v i bs = Some M' \<Longrightarrow> view_ok M' w \<longleftrightarrow> view_ok M w"
  using write_view_ok [of M v i bs M'] by (simp add: view_ok_def)

lemma length_view_bytes [simp]: "view_ok M v \<Longrightarrow> length (view_bytes M v) = v_len v"
  by (auto simp: view_bytes_def view_ok_def min_def)

lemma bytes_nth: "view_ok M v \<Longrightarrow> i < v_len v \<Longrightarrow> view_bytes M v ! i = M ! v_addr v ! (v_off v + i)"
  by (simp add: view_bytes_def view_ok_def)

lemma write_view_nth:
  assumes "view_ok M v" "write_view M v i bs = Some M'" "j < length (M ! k)"
  shows "M' ! k ! j = (if k = v_addr v \<and> v_off v + i \<le> j \<and> j < v_off v + i + length bs then bs ! (j - (v_off v + i)) else M ! k ! j)"
  using assms by (auto simp: write_view_def view_ok_def nth_list_update nth_append min_def split: if_splits)

text \<open>
  A write through one buffer is seen by every buffer on the same memory, at exactly the positions that they share, and
  by no other; this holds also for the buffer itself.
\<close>

lemma write_seen:
  assumes "view_ok M v" "view_ok M w" "write_view M v i bs = Some M'" "j < v_len w"
  shows "view_bytes M' w ! j =
    (if v_addr w = v_addr v \<and> v_off v + i \<le> v_off w + j \<and> v_off w + j < v_off v + i + length bs
     then bs ! (v_off w + j - (v_off v + i)) else view_bytes M w ! j)"
proof -
  have "view_ok M' w" using assms(2) view_ok_write [OF assms(1,3)] by simp
  moreover have "v_off w + j < length (M ! v_addr w)" using assms(2,4) by (simp add: view_ok_def)
  ultimately show ?thesis using write_view_nth [OF assms(1,3)] assms(2,4) by (simp add: bytes_nth)
qed

lemma write_unseen: "view_ok M v \<Longrightarrow> write_view M v i bs = Some M' \<Longrightarrow> v_addr w \<noteq> v_addr v \<Longrightarrow> view_bytes M' w = view_bytes M w"
  by (auto simp: write_view_def view_bytes_def split: if_splits)

text \<open>The methods on memory do to the buffer what those of \<open>Buffer_Core\<close> do to its bytes.\<close>

lemma bytes_write:
  assumes "view_ok M v"
  shows "map_option (\<lambda>M'. view_bytes M' v) (write_view M v i bs) =
    (case set_at (view_bytes M v) bs i of Inl e \<Rightarrow> None | Inr d \<Rightarrow> Some d)"
proof (cases "i + length bs \<le> v_len v")
  case True
  then obtain M' where M': "write_view M v i bs = Some M'" by (simp add: write_view_def)
  have ok: "view_ok M' v" using assms view_ok_write [OF assms M'] by simp
  have "view_bytes M' v = take i (view_bytes M v) @ bs @ drop (i + length bs) (view_bytes M v)"
  proof (rule nth_equalityI)
    show "length (view_bytes M' v) = length (take i (view_bytes M v) @ bs @ drop (i + length bs) (view_bytes M v))"
      using assms ok True by simp
    fix j
    assume "j < length (view_bytes M' v)"
    then have "j < v_len v" using ok by simp
    then show "view_bytes M' v ! j = (take i (view_bytes M v) @ bs @ drop (i + length bs) (view_bytes M v)) ! j"
      using write_seen [OF assms assms M', of j] assms True by (auto simp: nth_append min_def)
  qed
  then show ?thesis using M' True assms by (simp add: set_at_def)
next
  case False
  then show ?thesis using assms by (simp add: write_view_def set_at_def)
qed

text \<open>\<open>copy\<close> and \<open>write\<close> leave the bytes of the target as \<open>Buffer_Core\<close> says, also when both buffers share memory.\<close>

lemma bytes_copy:
  assumes "view_ok M v" "view_ok M target"
  shows "map_option (\<lambda>p. (view_bytes (fst p) target, snd p)) (copy_view M v target ts ss se) =
    (case buffer_copy (view_bytes M v) (view_bytes M target) ts ss se of Inl e \<Rightarrow> None | Inr d \<Rightarrow> Some d)"
proof -
  let ?bs = "subarray (subarray (view_bytes M v) ss (case se of None \<Rightarrow> v_len v | Some e \<Rightarrow> e)) 0 (v_len target - ts)"
  show ?thesis using bytes_write [OF assms(2), of ts ?bs] assms
    by (auto simp: copy_view_def buffer_copy_def Let_def option.map_comp o_def split: sum.splits option.splits)
qed

lemma bytes_write_text:
  assumes "view_ok M v"
  shows "map_option (\<lambda>p. (view_bytes (fst p) v, snd p)) (write_text M v s off len enc) =
    (case buffer_write (view_bytes M v) s off len enc of Inl e \<Rightarrow> None | Inr d \<Rightarrow> Some d)"
proof (cases "encode_string s enc")
  case (Inr bs)
  let ?n = "min (length bs) (case len of None \<Rightarrow> v_len v - off | Some n \<Rightarrow> n)"
  show ?thesis using bytes_write [OF assms, of off "subarray bs 0 ?n"] assms
    by (auto simp: write_text_def buffer_write_def Inr Let_def option.map_comp o_def split: sum.splits option.splits)
qed (simp add: write_text_def buffer_write_def)

section \<open>Which buffers share memory\<close>

text \<open>Only a buffer made of a view or of an \<open>ArrayBuffer\<close> is on memory that was there before.\<close>

definition shares :: "buffer_arg \<Rightarrow> view \<Rightarrow> bool" where
  "shares a w \<longleftrightarrow> (case a of View v \<Rightarrow> v_addr v = v_addr w | Memory k off len \<Rightarrow> k = v_addr w | _ \<Rightarrow> False)"

definition arg_ok :: "memory \<Rightarrow> buffer_arg \<Rightarrow> bool" where
  "arg_ok M a \<longleftrightarrow> (case a of View v \<Rightarrow> view_ok M v | Memory k off len \<Rightarrow> k < length M | _ \<Rightarrow> True)"

lemma fresh_buffer: "view_ok (M @ [bs]) \<lparr>v_addr = length M, v_off = 0, v_len = length bs\<rparr>"
  by (simp add: view_ok_def)

lemma new_buffer_cases:
  assumes "new_buffer M a = (M', Inr v)" "arg_ok M a"
  shows "view_ok M' v \<and> (case a of View x \<Rightarrow> M' = M \<and> v_addr v = v_addr x | Memory k off len \<Rightarrow> M' = M \<and> v_addr v = k
    | _ \<Rightarrow> v_addr v = length M \<and> (\<exists>bs. M' = M @ [bs]))"
proof (cases a)
  case (Memory k off len)
  then show ?thesis using assms by (auto simp: new_buffer_def arg_ok_def view_ok_def split: sum.splits if_splits)
next
  case (View x)
  then show ?thesis using assms by (cases x) (auto simp: new_buffer_def arg_ok_def view_ok_def)
qed (use assms in \<open>auto simp: new_buffer_def fresh_def arg_ok_def view_ok_def split: sum.splits\<close>)

text \<open>
  A new buffer changes no other buffer, and afterwards a write through it changes exactly the buffers that it
  shares memory with, at exactly the positions that they have in common: none, when it was made with a
  size, a string or an array of numbers.
\<close>

theorem buffer_sharing:
  assumes "buffer_from M a = (M1, Inr v)" "arg_ok M a" "view_ok M w" "write_view M1 v i bs = Some M2"
  shows "view_bytes M1 w = view_bytes M w \<and>
    (\<not> shares a w \<longrightarrow> view_bytes M2 w = view_bytes M w) \<and>
    (shares a w \<longrightarrow> (\<forall>j<v_len w. view_bytes M2 w ! j =
       (if v_off v + i \<le> v_off w + j \<and> v_off w + j < v_off v + i + length bs then bs ! (v_off w + j - (v_off v + i)) else view_bytes M w ! j)))"
proof -
  have new: "new_buffer M a = (M1, Inr v)" using assms(1) by (simp add: buffer_from_def)
  note c = new_buffer_cases [OF new assms(2)]
  have vw: "v_addr w < length M" using assms(3) by (simp add: view_ok_def)
  have m: "M1 ! v_addr w = M ! v_addr w" and l: "length M \<le> length M1"
    using c vw by (auto split: buffer_arg.splits simp: nth_append)
  have same: "view_bytes M1 w = view_bytes M w" using m by (simp add: view_bytes_def)
  have w1: "view_ok M1 w" using assms(3) m l by (simp add: view_ok_def)
  have "shares a w \<longleftrightarrow> v_addr w = v_addr v"
    using c vw by (auto simp: shares_def split: buffer_arg.splits)
  then show ?thesis using write_seen [OF conjunct1 [OF c] w1 assms(4)] write_unseen [OF conjunct1 [OF c] assms(4), of w] same by auto
qed

lemma buffer_sharing_witness:
  "(let w = \<lparr>v_addr = 0, v_off = 1, v_len = 2\<rparr>; M = [[1, 2, 3]]
    in \<exists>M2. write_view M \<lparr>v_addr = 0, v_off = 0, v_len = 3\<rparr> 0 [7, 8] = Some M2 \<and> view_bytes M2 w ! 0 = 8 \<and> view_bytes M2 w ! 1 = 3)"
proof -
  let ?w = "\<lparr>v_addr = 0, v_off = 1, v_len = 2\<rparr>" and ?M = "[[1, 2, 3]] :: memory" and ?v = "\<lparr>v_addr = 0, v_off = 0, v_len = 3\<rparr>"
  have 1: "buffer_from ?M (Memory 0 None None) = (?M, Inr ?v)" "arg_ok ?M (Memory 0 None None)" "view_ok ?M ?w" "shares (Memory 0 None None) ?w"
    by (simp_all add: buffer_from_def new_buffer_def arg_ok_def view_ok_def shares_def)
  obtain M2 where M2: "write_view ?M ?v 0 [7, 8] = Some M2" by (simp add: write_view_def)
  have "view_bytes ?M ?w ! 1 = 3" by (simp add: view_bytes_def)
  then have "view_bytes M2 ?w ! 0 = 8 \<and> view_bytes M2 ?w ! 1 = 3" using buffer_sharing [OF 1(1-3) M2] 1(4) by simp
  then show ?thesis using M2 by (simp add: Let_def)
qed

section \<open>What goes wrong\<close>

text \<open>\<open>Buffer.from\<close> of a buffer is no copy: a write through it changes the original.\<close>

lemma from_buffer_aliases: "buffer_from M (View v) = (M, Inr v)"
  by (simp add: buffer_from_def new_buffer_def)

text \<open>\<open>slice\<close> copies, where \<open>subarray\<close> shares.\<close>

lemma slice_copies: "view_ok M v \<Longrightarrow> v_addr (snd (slice_view M v a b)) \<noteq> v_addr v \<and> v_addr (sub_view v a b) = v_addr v"
  by (auto simp: slice_view_def fresh_def sub_view_def view_ok_def Let_def)

text \<open>A text to fill with becomes the number 0, in whatever encoding.\<close>

lemma fill_with_text: "buffer_alloc [] 3 (Some (FillText (js ''ab''))) = ([[0, 0, 0]], Inr \<lparr>v_addr = 0, v_off = 0, v_len = 3\<rparr>)"
  by code_simp

text \<open>An object that \<open>JSON.stringify\<close> made of a buffer gives an empty buffer.\<close>

lemma from_object_empty: "snd (buffer_from M OtherObject) = Inr \<lparr>v_addr = length M, v_off = 0, v_len = 0\<rparr>"
  by (simp add: buffer_from_def new_buffer_def fresh_def)

end
