(* ===== verification/Event_Loop.thy ===== *)
theory Event_Loop
  imports Complex_Main Prelude "HOL-Library.Product_Lexorder"
begin

text \<open>
  \<open>js/internal/event-loop.js\<close>: Node's timers, immediates and \<open>nextTick\<close> over the timeouts of
  the actor. The variables of the module are the fields of \<open>loop\<close>; handle objects live in a
  store, because a program keeps its handle after the loop has dropped it. \<open>Date.now()\<close> is the
  field \<open>now\<close>, which only grows. A callback is a number; the parameter \<open>prog\<close> gives, for each
  callback, the calls into the module that it makes. What a callback throws is caught and reported,
  so a throw only cuts the list of its calls short. Draining loops may run for ever when
  callbacks keep queueing callbacks: they are partial functions, \<open>None\<close> being no return.
\<close>

section \<open>State\<close>

record handle =
  h_callback :: nat
  h_delay :: nat
  h_due :: nat
  h_repeat :: bool
  h_ref :: bool
  h_cancelled :: bool
  h_timer :: bool  \<comment> \<open>a \<open>TimerHandle\<close>; otherwise an \<open>ImmediateHandle\<close>, which has no due time\<close>

datatype log_entry = RanTick nat | RanJob nat | RanImmediate nat | RanTimer nat

record loop =
  now :: nat
  ticking :: bool
  nextHandleId :: nat
  heap :: "nat \<Rightarrow> handle option"
  nextTickQueue :: "nat list"
  jobs :: "nat list"  \<comment> \<open>the engine's queue of promise jobs\<close>
  immediateQueue :: "nat list"
  timers :: "nat list"  \<comment> \<open>keys of the \<open>Map\<close>, in insertion order\<close>
  wakeGeneration :: nat
  wakeAt :: "nat option"  \<comment> \<open>\<open>None\<close> is \<open>Infinity\<close>\<close>
  wakeId :: bool  \<comment> \<open>\<open>wakeId !== null\<close>\<close>
  requests :: "(nat \<times> nat) list"  \<comment> \<open>generation and fire time of the pending timeouts\<close>
  runs :: "log_entry list"

definition init_loop :: "nat \<Rightarrow> loop" where
  "init_loop t = \<lparr>now = t, ticking = False, nextHandleId = 1, heap = (\<lambda>_. None),
     nextTickQueue = [], jobs = [], immediateQueue = [], timers = [],
     wakeGeneration = 0, wakeAt = None, wakeId = False, requests = [], runs = []\<rparr>"

section \<open>Operations\<close>

definition min_delay_ms :: nat where "min_delay_ms = 10"
definition max_delay_ms :: nat where "max_delay_ms = 2147483647"

text \<open>\<open>Number(delay)\<close> is a rational, or \<open>None\<close> for \<open>NaN\<close> and the infinities.\<close>

definition normalize_delay :: "rat option \<Rightarrow> nat" where
  "normalize_delay delay =
     (let v = (case delay of None \<Rightarrow> 0 | Some d \<Rightarrow> if d < 0 then 0 else d);
          v' = (if v > of_nat max_delay_ms then of_nat max_delay_ms else v)
      in max min_delay_ms (nat \<lceil>v'\<rceil>))"

definition alive :: "loop \<Rightarrow> nat \<Rightarrow> bool" where
  "alive s i \<longleftrightarrow> (case heap s i of None \<Rightarrow> False | Some h \<Rightarrow> \<not> h_cancelled h)"

definition refd :: "loop \<Rightarrow> nat \<Rightarrow> bool" where
  "refd s i \<longleftrightarrow> (case heap s i of None \<Rightarrow> False | Some h \<Rightarrow> h_ref h)"

definition due :: "loop \<Rightarrow> nat \<Rightarrow> nat" where
  "due s i = (case heap s i of None \<Rightarrow> 0 | Some h \<Rightarrow> h_due h)"

text \<open>The loop over \<open>timers.values()\<close> that keeps the smallest due time.\<close>

fun earliest_due :: "loop \<Rightarrow> nat list \<Rightarrow> nat option \<Rightarrow> nat option" where
  "earliest_due s [] w = w"
| "earliest_due s (i # is) w =
     (if \<not> alive s i \<or> \<not> refd s i then earliest_due s is w
      else case w of
        None \<Rightarrow> earliest_due s is (Some (due s i))
      | Some a \<Rightarrow> earliest_due s is (Some (if due s i < a then due s i else a)))"

definition earliest_wake :: "loop \<Rightarrow> (nat \<times> nat) option" where
  "earliest_wake s =
     (if list_ex (\<lambda>i. alive s i \<and> refd s i) (immediateQueue s) then Some (now s, 0)
      else case earliest_due s (timers s) None of
        None \<Rightarrow> None
      | Some w \<Rightarrow>
          let remaining = w - now s
          in Some (w, max 1 ((remaining + 9) div 10)))"

definition schedule_wake :: "loop \<Rightarrow> loop" where
  "schedule_wake s =
     (case earliest_wake s of
        None \<Rightarrow> s
      | Some (w, centiseconds) \<Rightarrow>
          if wakeId s \<and> (case wakeAt s of None \<Rightarrow> False | Some u \<Rightarrow> u \<le> w) then s
          else s\<lparr>wakeGeneration := wakeGeneration s + 1, wakeAt := Some w, wakeId := True,
                 requests := requests s @ [(wakeGeneration s + 1, now s + 10 * centiseconds)]\<rparr>)"

text \<open>\<open>setTimeout\<close> and \<open>setInterval\<close> return the new handle, whose id is the old counter.\<close>

definition new_timer :: "nat \<Rightarrow> rat option \<Rightarrow> bool \<Rightarrow> loop \<Rightarrow> loop" where
  "new_timer callback delay repeat s =
     (let i = nextHandleId s; d = normalize_delay delay
      in s\<lparr>nextHandleId := i + 1,
           heap := (heap s)(i \<mapsto> \<lparr>h_callback = callback, h_delay = d, h_due = now s + d,
             h_repeat = repeat, h_ref = True, h_cancelled = False, h_timer = True\<rparr>),
           timers := timers s @ [i]\<rparr>)"

definition set_timeout :: "nat \<Rightarrow> rat option \<Rightarrow> loop \<Rightarrow> loop" where
  "set_timeout callback delay s = schedule_wake (new_timer callback delay False s)"

definition set_interval :: "nat \<Rightarrow> rat option \<Rightarrow> loop \<Rightarrow> loop" where
  "set_interval callback delay s = schedule_wake (new_timer callback delay True s)"

definition set_immediate :: "nat \<Rightarrow> loop \<Rightarrow> loop" where
  "set_immediate callback s =
     (let i = nextHandleId s
      in schedule_wake (s\<lparr>nextHandleId := i + 1,
           heap := (heap s)(i \<mapsto> \<lparr>h_callback = callback, h_delay = 0, h_due = 0,
             h_repeat = False, h_ref = True, h_cancelled = False, h_timer = False\<rparr>),
           immediateQueue := immediateQueue s @ [i]\<rparr>))"

definition set_handle :: "nat \<Rightarrow> (handle \<Rightarrow> handle) \<Rightarrow> loop \<Rightarrow> loop" where
  "set_handle i f s =
     (case heap s i of None \<Rightarrow> s | Some h \<Rightarrow> s\<lparr>heap := (heap s)(i \<mapsto> f h)\<rparr>)"

definition clear_timer :: "nat \<Rightarrow> loop \<Rightarrow> loop" where
  "clear_timer i s =
     (if alive s i
      then (set_handle i (h_cancelled_update (\<lambda>_. True)) s)\<lparr>timers := filter (\<lambda>j. j \<noteq> i) (timers s)\<rparr>
      else s)"

definition clear_immediate :: "nat \<Rightarrow> loop \<Rightarrow> loop" where
  "clear_immediate i s =
     (if alive s i then set_handle i (h_cancelled_update (\<lambda>_. True)) s else s)"

definition ref :: "nat \<Rightarrow> loop \<Rightarrow> loop" where
  "ref i s = schedule_wake (set_handle i (h_ref_update (\<lambda>_. True)) s)"

definition unref :: "nat \<Rightarrow> loop \<Rightarrow> loop" where
  "unref i s = set_handle i (h_ref_update (\<lambda>_. False)) s"

text \<open>Only a timer has the method \<open>refresh\<close>.\<close>

definition refresh :: "nat \<Rightarrow> loop \<Rightarrow> loop" where
  "refresh i s =
     (case heap s i of
        None \<Rightarrow> s
      | Some h \<Rightarrow>
          if h_timer h \<and> \<not> h_cancelled h
          then schedule_wake (set_handle i (\<lambda>h. h\<lparr>h_due := now s + h_delay h\<rparr>) s) else s)"

definition next_tick :: "nat \<Rightarrow> loop \<Rightarrow> loop" where
  "next_tick callback s = s\<lparr>nextTickQueue := nextTickQueue s @ [callback]\<rparr>"

definition queue_microtask :: "nat \<Rightarrow> loop \<Rightarrow> loop" where
  "queue_microtask callback s = s\<lparr>jobs := jobs s @ [callback]\<rparr>"

text \<open>
  The calls a callback can make, and time passing while it runs. A call of \<open>tick\<close> from inside a
  callback returns at once, since callbacks only run while \<open>ticking\<close>; it needs no action.
\<close>

datatype action =
    NextTick nat | QueueMicrotask nat | SetTimeout nat "rat option" | SetInterval nat "rat option"
  | SetImmediate nat | ClearTimer nat | ClearImmediate nat | Ref nat | Unref nat | Refresh nat
  | Elapse nat

fun run_action :: "loop \<Rightarrow> action \<Rightarrow> loop" where
  "run_action s (NextTick c) = next_tick c s"
| "run_action s (QueueMicrotask c) = queue_microtask c s"
| "run_action s (SetTimeout c d) = set_timeout c d s"
| "run_action s (SetInterval c d) = set_interval c d s"
| "run_action s (SetImmediate c) = set_immediate c s"
| "run_action s (ClearTimer i) = clear_timer i s"
| "run_action s (ClearImmediate i) = clear_immediate i s"
| "run_action s (Ref i) = ref i s"
| "run_action s (Unref i) = unref i s"
| "run_action s (Refresh i) = refresh i s"
| "run_action s (Elapse n) = s\<lparr>now := now s + n\<rparr>"

type_synonym program = "nat \<Rightarrow> action list"

definition run_callback :: "program \<Rightarrow> log_entry \<Rightarrow> nat \<Rightarrow> loop \<Rightarrow> loop" where
  "run_callback prog entry c s = foldl run_action (s\<lparr>runs := runs s @ [entry]\<rparr>) (prog c)"

partial_function (option) drain_next_tick :: "program \<Rightarrow> loop \<Rightarrow> loop option" where
  "drain_next_tick prog s =
     (if nextTickQueue s = [] then Some s
      else drain_next_tick prog
             (foldl (\<lambda>s c. run_callback prog (RanTick c) c s) (s\<lparr>nextTickQueue := []\<rparr>) (nextTickQueue s)))"

text \<open>\<open>__snjs_drain_jobs\<close>: the engine runs its job queue until it is empty.\<close>

partial_function (option) drain_jobs :: "program \<Rightarrow> loop \<Rightarrow> loop option" where
  "drain_jobs prog s =
     (case jobs s of
        [] \<Rightarrow> Some s
      | c # cs \<Rightarrow> drain_jobs prog (run_callback prog (RanJob c) c (s\<lparr>jobs := cs\<rparr>)))"

partial_function (option) drain_microtasks_and_next_tick :: "program \<Rightarrow> loop \<Rightarrow> loop option" where
  "drain_microtasks_and_next_tick prog s =
     Option.bind (drain_next_tick prog s) (\<lambda>a.
     Option.bind (drain_jobs prog a) (\<lambda>b.
       if nextTickQueue b = [] then Some b else drain_microtasks_and_next_tick prog b))"

definition run_timer :: "program \<Rightarrow> nat \<Rightarrow> loop \<Rightarrow> loop option" where
  "run_timer prog i s =
     (case heap s i of
        None \<Rightarrow> Some s
      | Some h \<Rightarrow>
          if h_cancelled h then Some s
          else let s1 = (if h_repeat h then set_handle i (\<lambda>h. h\<lparr>h_due := now s + h_delay h\<rparr>) s
                         else s\<lparr>timers := filter (\<lambda>j. j \<noteq> i) (timers s)\<rparr>)
               in drain_microtasks_and_next_tick prog (run_callback prog (RanTimer i) (h_callback h) s1))"

definition run_immediate :: "program \<Rightarrow> nat \<Rightarrow> loop \<Rightarrow> loop option" where
  "run_immediate prog i s =
     (case heap s i of
        None \<Rightarrow> Some s
      | Some h \<Rightarrow>
          if h_cancelled h then Some s
          else drain_microtasks_and_next_tick prog (run_callback prog (RanImmediate i) (h_callback h) s))"

fun for_each :: "('a \<Rightarrow> 's \<Rightarrow> 's option) \<Rightarrow> 'a list \<Rightarrow> 's \<Rightarrow> 's option" where
  "for_each f [] s = Some s"
| "for_each f (x # xs) s = Option.bind (f x s) (for_each f xs)"

definition drain_immediates :: "program \<Rightarrow> loop \<Rightarrow> loop option" where
  "drain_immediates prog s =
     for_each (run_immediate prog) (immediateQueue s) (s\<lparr>immediateQueue := []\<rparr>)"

text \<open>The timers due w entry, sorted by due time and then by id.\<close>

definition due_timers :: "loop \<Rightarrow> nat list" where
  "due_timers s = sort_key (\<lambda>i. (due s i, i)) (filter (\<lambda>i. alive s i \<and> due s i \<le> now s) (timers s))"

definition drain_timers :: "program \<Rightarrow> loop \<Rightarrow> loop option" where
  "drain_timers prog s = for_each (run_timer prog) (due_timers s) s"

definition tick :: "program \<Rightarrow> loop \<Rightarrow> loop option" where
  "tick prog s =
     (if ticking s then Some s
      else Option.bind (drain_microtasks_and_next_tick prog (s\<lparr>ticking := True\<rparr>)) (\<lambda>a.
           Option.bind (drain_immediates prog a) (\<lambda>b.
           Option.bind (drain_timers prog b) (\<lambda>c.
           Some (schedule_wake (c\<lparr>ticking := False\<rparr>))))))"

text \<open>The function that \<open>scheduleWake\<close> hands to \<open>skynet.timeout\<close>.\<close>

definition wake :: "program \<Rightarrow> nat \<Rightarrow> loop \<Rightarrow> loop option" where
  "wake prog generation s =
     (if generation \<noteq> wakeGeneration s then Some s
      else tick prog (s\<lparr>wakeId := False, wakeAt := None\<rparr>))"

text \<open>
  What can happen to the actor between messages: a message handler runs some calls, the host calls
  \<open>tick\<close>, or a pending timeout fires at its time or later.
\<close>

datatype event = Handler "action list" | HostTick | Fire nat nat

definition step :: "program \<Rightarrow> event \<Rightarrow> loop \<Rightarrow> loop option" where
  "step prog e s =
     (case e of
        Handler acts \<Rightarrow> Some (foldl run_action s acts)
      | HostTick \<Rightarrow> tick prog s
      | Fire g t \<Rightarrow>
          if (g, t) \<in> set (requests s) \<and> t \<le> now s
          then wake prog g (s\<lparr>requests := remove1 (g, t) (requests s)\<rparr>) else None)"

lemma for_each_invariant:
  "for_each f xs s = Some t \<Longrightarrow> P s \<Longrightarrow> (\<And>x s t. x \<in> set xs \<Longrightarrow> P s \<Longrightarrow> f x s = Some t \<Longrightarrow> P t) \<Longrightarrow> P t"
  by (induction f xs s rule: for_each.induct) (auto simp: bind_eq_Some_conv)

section \<open>Invariants of the draining loops\<close>

text \<open>
  A property of the loop that every call of a callback keeps, and that does not depend on the
  queues and the log, holds after the check point that follows a callback.
\<close>

locale checkpoint_invariant =
  fixes prog :: program and P :: "loop \<Rightarrow> bool"
  assumes P_action: "P s \<Longrightarrow> P (run_action s a)"
    and P_log: "P s \<Longrightarrow> e \<in> {RanTick c, RanJob c} \<Longrightarrow> P (s\<lparr>runs := runs s @ [e]\<rparr>)"
    and P_ticks: "P s \<Longrightarrow> P (s\<lparr>nextTickQueue := []\<rparr>)"
    and P_jobs: "P s \<Longrightarrow> P (s\<lparr>jobs := cs\<rparr>)"
begin

lemma P_actions: "P s \<Longrightarrow> P (foldl run_action s as)"
  by (induction as arbitrary: s) (auto intro: P_action)

lemma P_callback: "P s \<Longrightarrow> e \<in> {RanTick c, RanJob c} \<Longrightarrow> P (run_callback prog e c s)"
  unfolding run_callback_def by (intro P_actions P_log)

lemma P_tick_batch: "P s \<Longrightarrow> P (foldl (\<lambda>s c. run_callback prog (RanTick c) c s) s cs)"
  by (induction cs arbitrary: s) (auto intro: P_callback)

lemma P_drain_next_tick: "drain_next_tick p s = Some t \<Longrightarrow> p = prog \<Longrightarrow> P s \<Longrightarrow> P t"
proof (induction p s t rule: drain_next_tick.raw_induct [rotated, consumes 1])
  case (1 f p s t)
  then show ?case by (auto split: if_splits intro!: P_tick_batch P_ticks)
qed

lemma P_drain_jobs: "drain_jobs p s = Some t \<Longrightarrow> p = prog \<Longrightarrow> P s \<Longrightarrow> P t"
proof (induction p s t rule: drain_jobs.raw_induct [rotated, consumes 1])
  case (1 f p s t)
  then show ?case by (auto split: list.splits intro!: P_callback P_jobs)
qed

lemma P_drain: "drain_microtasks_and_next_tick p s = Some t \<Longrightarrow> p = prog \<Longrightarrow> P s \<Longrightarrow> P t"
proof (induction p s t rule: drain_microtasks_and_next_tick.raw_induct [rotated, consumes 1])
  case (1 f p s t)
  then obtain a b where a: "drain_next_tick p s = Some a" and b: "drain_jobs p a = Some b"
    and t: "(if nextTickQueue b = [] then Some b else f p b) = Some t"
    by (auto simp: bind_eq_Some_conv)
  have "P b" using P_drain_jobs [OF b] P_drain_next_tick [OF a] 1 by simp
  then show ?case using t 1 by (auto split: if_splits)
qed

end

text \<open>With the steps of the two other phases, it holds after a whole tick.\<close>

locale tick_invariant = checkpoint_invariant +
  assumes P_log_all: "P s \<Longrightarrow> P (s\<lparr>runs := runs s @ [e]\<rparr>)"
    and P_imm: "P s \<Longrightarrow> P (s\<lparr>immediateQueue := []\<rparr>)"
    and P_fired: "P s \<Longrightarrow> P (s\<lparr>timers := filter (\<lambda>j. j \<noteq> i) (timers s)\<rparr>)"
    and P_repeat: "P s \<Longrightarrow> heap s i = Some h \<Longrightarrow> h_repeat h \<Longrightarrow> P (set_handle i (\<lambda>h. h\<lparr>h_due := now s + h_delay h\<rparr>) s)"
begin

lemma P_any_callback: "P s \<Longrightarrow> P (run_callback prog e c s)"
  unfolding run_callback_def by (intro P_actions P_log_all)

lemma P_run_immediate: "run_immediate prog i s = Some t \<Longrightarrow> P s \<Longrightarrow> P t"
  by (auto simp: run_immediate_def split: option.splits if_splits dest!: P_drain intro: P_any_callback)

lemma P_run_timer: "run_timer prog i s = Some t \<Longrightarrow> P s \<Longrightarrow> P t"
  by (auto simp: run_timer_def Let_def split: option.splits if_splits dest!: P_drain
      intro: P_any_callback P_fired P_repeat)

lemma P_immediates: "drain_immediates prog s = Some t \<Longrightarrow> P s \<Longrightarrow> P t"
  unfolding drain_immediates_def by (erule for_each_invariant) (auto intro: P_imm P_run_immediate)

lemma P_timers: "drain_timers prog s = Some t \<Longrightarrow> P s \<Longrightarrow> P t"
  unfolding drain_timers_def by (erule for_each_invariant) (auto intro: P_run_timer)

end

section \<open>The wake-up invariant\<close>

text \<open>
  Well-formedness: the keys of \<open>timers\<close> are timer handles; the wake that \<open>wakeId\<close> stands for
  is a pending request of the current generation that fires at \<open>wakeAt\<close> or within 10 ms after
  it (after the time of the request, if that is later).
\<close>

definition request_ok :: "loop \<Rightarrow> bool" where
  "request_ok s \<longleftrightarrow> (\<exists>w f. wakeAt s = Some w \<and> (wakeGeneration s, f) \<in> set (requests s) \<and>
     w \<le> f \<and> f \<le> max w (now s) + 10)"

definition loop_ok :: "loop \<Rightarrow> bool" where
  "loop_ok s \<longleftrightarrow> distinct (timers s) \<and>
     (\<forall>i\<in>set (timers s). \<exists>h. heap s i = Some h \<and> h_timer h) \<and>
     (\<forall>i\<in>set (immediateQueue s). \<exists>h. heap s i = Some h \<and> \<not> h_timer h) \<and>
     (\<forall>i h. heap s i = Some h \<longrightarrow> i < nextHandleId s \<and> (\<not> h_timer h \<longrightarrow> h_due h = 0 \<and> \<not> h_repeat h)) \<and>
     (wakeId s \<longrightarrow> request_ok s)"

text \<open>Everything that keeps the actor waiting will be looked at in time.\<close>

definition waiting :: "loop \<Rightarrow> nat \<Rightarrow> bool" where
  "waiting s i \<longleftrightarrow> i \<in> set (timers s) \<union> set (immediateQueue s) \<and> alive s i \<and> refd s i"

definition covered :: "loop \<Rightarrow> bool" where
  "covered s \<longleftrightarrow> (\<forall>i. waiting s i \<longrightarrow>
     wakeId s \<and> (\<exists>w. wakeAt s = Some w \<and> w \<le> max (due s i) (now s)))"

lemma earliest_due_None: "earliest_due s is w = None \<longleftrightarrow> w = None \<and> (\<forall>i\<in>set is. \<not> (alive s i \<and> refd s i))"
  by (induction s "is" w rule: earliest_due.induct) (auto split: option.splits)

lemma earliest_due_Some:
  "earliest_due s is w = Some m \<Longrightarrow>
   (\<forall>i\<in>set is. alive s i \<and> refd s i \<longrightarrow> m \<le> due s i) \<and> (\<forall>a. w = Some a \<longrightarrow> m \<le> a)"
  by (induction s "is" w rule: earliest_due.induct) (auto split: option.splits if_splits)

lemma schedule_wake_sel [simp]:
  "now (schedule_wake s) = now s" "ticking (schedule_wake s) = ticking s"
  "nextHandleId (schedule_wake s) = nextHandleId s" "heap (schedule_wake s) = heap s"
  "nextTickQueue (schedule_wake s) = nextTickQueue s" "jobs (schedule_wake s) = jobs s"
  "immediateQueue (schedule_wake s) = immediateQueue s" "timers (schedule_wake s) = timers s"
  "runs (schedule_wake s) = runs s"
  by (auto simp: schedule_wake_def split: option.splits)

lemma alive_cong: "heap s = heap t \<Longrightarrow> alive s i = alive t i" "heap s = heap t \<Longrightarrow> refd s i = refd t i"
  "heap s = heap t \<Longrightarrow> due s i = due t i"
  by (simp_all add: alive_def refd_def due_def)

lemma alive_schedule_wake [simp]: "alive (schedule_wake s) = alive s" "refd (schedule_wake s) = refd s"
  "due (schedule_wake s) = due s"
  by (simp_all add: fun_eq_iff alive_def refd_def due_def)

lemma earliest_wake_bounds:
  assumes "earliest_wake s = Some (w, cs)"
  shows "waiting s i \<Longrightarrow> w \<le> max (due s i) (now s)" "w \<le> now s + 10 * cs" "now s + 10 * cs \<le> max w (now s) + 10"
proof -
  show "w \<le> max (due s i) (now s)" if "waiting s i"
    using assms that earliest_due_Some [of s "timers s" None w]
    by (auto simp: earliest_wake_def waiting_def list_ex_iff Let_def split: if_splits option.splits)
  show "w \<le> now s + 10 * cs" "now s + 10 * cs \<le> max w (now s) + 10"
    using assms by (auto simp: earliest_wake_def Let_def split: if_splits option.splits)
qed

lemma earliest_wake_None: "earliest_wake s = None \<Longrightarrow> \<not> waiting s i"
  by (auto simp: earliest_wake_def earliest_due_None waiting_def list_ex_iff Let_def split: if_splits option.splits)

lemma schedule_wake_at:
  "earliest_wake s = Some (w, cs) \<Longrightarrow>
   wakeId (schedule_wake s) \<and> (\<exists>w'. wakeAt (schedule_wake s) = Some w' \<and> w' \<le> w)"
  by (simp add: schedule_wake_def split: option.split)

lemma covered_schedule_wake: "covered (schedule_wake s)"
proof (cases "earliest_wake s")
  case None
  then show ?thesis using earliest_wake_None [OF None] by (simp add: schedule_wake_def covered_def)
next
  case (Some p)
  obtain w cs where p: "earliest_wake s = Some (w, cs)" using Some by (cases p) auto
  obtain w' where w': "wakeId (schedule_wake s)" "wakeAt (schedule_wake s) = Some w'" "w' \<le> w"
    using schedule_wake_at [OF p] by auto
  have "w \<le> max (due s i) (now s)" if "waiting (schedule_wake s) i" for i
    using that by (intro earliest_wake_bounds(1) [OF p]) (simp add: waiting_def)
  then show ?thesis using w' le_trans [OF w'(3)] by (auto simp: covered_def)
qed

lemma request_ok_schedule_wake:
  assumes "wakeId s \<longrightarrow> request_ok s" "wakeId (schedule_wake s)"
  shows "request_ok (schedule_wake s)"
proof (cases "earliest_wake s")
  case None
  then show ?thesis using assms by (simp add: schedule_wake_def)
next
  case (Some p)
  obtain w cs where p: "earliest_wake s = Some (w, cs)" using Some by (cases p) auto
  show ?thesis using assms p earliest_wake_bounds(2,3) [OF p]
    by (auto simp: schedule_wake_def request_ok_def split: option.splits)
qed

lemma loop_ok_schedule_wake: "loop_ok s \<Longrightarrow> loop_ok (schedule_wake s)"
  using request_ok_schedule_wake [of s] by (simp add: loop_ok_def)

lemmas handle_defs = alive_def refd_def due_def set_handle_def

lemma request_ok_cong:
  "wakeAt s = wakeAt t \<Longrightarrow> wakeGeneration s = wakeGeneration t \<Longrightarrow> requests s = requests t \<Longrightarrow>
   now s = now t \<Longrightarrow> request_ok s = request_ok t"
  by (simp add: request_ok_def)

lemma loop_ok_new_timer: "loop_ok s \<Longrightarrow> loop_ok (new_timer c d r s)"
proof -
  assume ok: "loop_ok s"
  have new: "nextHandleId s \<notin> set (timers s)" "nextHandleId s \<notin> set (immediateQueue s)"
    "\<And>i. i \<in> set (timers s) \<Longrightarrow> i < nextHandleId s"
    using ok by (fastforce simp: loop_ok_def)+
  show ?thesis using ok new
    unfolding loop_ok_def request_ok_def new_timer_def Let_def
    by simp (auto simp: less_Suc_eq)
qed

lemma loop_ok_set_handle:
  assumes "loop_ok s" "\<And>h. h_timer (f h) = h_timer h \<and> h_repeat (f h) = h_repeat h"
    "\<And>h. heap s i = Some h \<Longrightarrow> h_timer h \<or> h_due (f h) = h_due h"
  shows "loop_ok (set_handle i f s)"
  using assms unfolding loop_ok_def request_ok_def by (auto simp: handle_defs split: option.splits if_splits)

lemma loop_ok_clear:
  "loop_ok s \<Longrightarrow> loop_ok (clear_timer i s)"
  unfolding loop_ok_def request_ok_def clear_timer_def by (auto simp: handle_defs split: option.splits if_splits)

lemma loop_ok_clear_immediate: "loop_ok s \<Longrightarrow> loop_ok (clear_immediate i s)"
  unfolding clear_immediate_def by (auto intro: loop_ok_set_handle)

lemma loop_ok_set_immediate: "loop_ok s \<Longrightarrow> loop_ok (set_immediate c s)"
proof -
  assume ok: "loop_ok s"
  have new: "nextHandleId s \<notin> set (timers s)" using ok by (fastforce simp: loop_ok_def)
  show ?thesis unfolding set_immediate_def Let_def
    by (rule loop_ok_schedule_wake) (use ok new in \<open>simp add: loop_ok_def request_ok_def, auto simp: less_Suc_eq\<close>)
qed

lemma loop_ok_action: "loop_ok s \<Longrightarrow> loop_ok (run_action s a)"
proof (cases a)
  case (Elapse n)
  assume "loop_ok s"
  moreover have "request_ok s \<Longrightarrow> request_ok (s\<lparr>now := now s + n\<rparr>)"
    by (force simp: request_ok_def)
  ultimately show ?thesis using Elapse by (simp add: loop_ok_def)
qed (auto simp: next_tick_def queue_microtask_def set_timeout_def set_interval_def ref_def unref_def refresh_def
    loop_ok_clear loop_ok_clear_immediate loop_ok_set_immediate split: option.split
    intro!: loop_ok_schedule_wake loop_ok_new_timer loop_ok_set_handle,
   simp_all add: loop_ok_def request_ok_def)

text \<open>Every call keeps the actor covered.\<close>

lemma covered_mono:
  "covered s \<Longrightarrow> wakeId t = wakeId s \<Longrightarrow> wakeAt t = wakeAt s \<Longrightarrow> now s \<le> now t \<Longrightarrow>
   (\<And>i. waiting t i \<Longrightarrow> waiting s i \<and> due s i = due t i) \<Longrightarrow> covered t"
proof -
  assume *: "covered s" "wakeId t = wakeId s" "wakeAt t = wakeAt s" "now s \<le> now t"
    "\<And>i. waiting t i \<Longrightarrow> waiting s i \<and> due s i = due t i"
  show "covered t" unfolding covered_def
  proof (intro allI impI)
    fix i assume "waiting t i"
    then have "waiting s i" "due s i = due t i" using *(5) by auto
    then obtain w where "wakeId s" "wakeAt s = Some w" "w \<le> max (due t i) (now s)"
      using *(1) by (auto simp: covered_def)
    then show "wakeId t \<and> (\<exists>w. wakeAt t = Some w \<and> w \<le> max (due t i) (now t))"
      using *(2-4) by auto
  qed
qed

lemma covered_action: "covered s \<Longrightarrow> covered (run_action s a)"
proof (cases a)
  case (Refresh i)
  assume "covered s"
  then show ?thesis using Refresh by (auto simp: refresh_def covered_schedule_wake split: option.split)
qed (auto simp: set_timeout_def set_interval_def set_immediate_def ref_def covered_schedule_wake Let_def
   next_tick_def queue_microtask_def unref_def clear_timer_def clear_immediate_def
   waiting_def handle_defs elim!: covered_mono split: option.splits if_splits)

lemma ticking_action [simp]: "ticking (run_action s a) = ticking s"
  by (cases a) (auto simp: set_timeout_def set_interval_def set_immediate_def ref_def Let_def new_timer_def refresh_def
   next_tick_def queue_microtask_def unref_def clear_timer_def clear_immediate_def set_handle_def split: option.split)

lemma loop_ok_queues [simp]:
  "loop_ok (s\<lparr>runs := r\<rparr>) = loop_ok s" "loop_ok (s\<lparr>nextTickQueue := q\<rparr>) = loop_ok s"
  "loop_ok (s\<lparr>jobs := q\<rparr>) = loop_ok s" "loop_ok (s\<lparr>ticking := b\<rparr>) = loop_ok s"
  "loop_ok s \<Longrightarrow> loop_ok (s\<lparr>immediateQueue := []\<rparr>)"
  by (simp_all add: loop_ok_def request_ok_def)

lemma loop_ok_fired: "loop_ok s \<Longrightarrow> loop_ok (s\<lparr>timers := filter P (timers s)\<rparr>)"
  by (simp add: loop_ok_def request_ok_def)

lemma loop_ok_taken:
  assumes "loop_ok s" "wakeId s \<longrightarrow> g \<noteq> wakeGeneration s"
  shows "loop_ok (s\<lparr>requests := remove1 (g, f) (requests s)\<rparr>)"
proof -
  have "(wakeGeneration s, f') \<in> set (remove1 (g, f) (requests s))"
    if "wakeId s" "(wakeGeneration s, f') \<in> set (requests s)" for f'
    using that assms(2) by (intro in_set_remove1 [THEN iffD2]) auto
  then show ?thesis using assms(1) unfolding loop_ok_def request_ok_def by simp blast
qed

interpretation ok: tick_invariant prog loop_ok for prog
proof unfold_locales
  fix s i h assume "loop_ok s" "heap s i = Some h" "h_repeat h"
  moreover from this have "h_timer h" by (auto simp: loop_ok_def)
  ultimately show "loop_ok (set_handle i (\<lambda>h. h\<lparr>h_due := now s + h_delay h\<rparr>) s)"
    by (intro loop_ok_set_handle) auto
qed (simp_all add: loop_ok_action loop_ok_fired)

lemma loop_ok_tick:
  assumes "tick prog s = Some t" "loop_ok s" "\<not> ticking s"
  shows "loop_ok t \<and> covered t \<and> \<not> ticking t"
proof -
  obtain a b c where a: "drain_microtasks_and_next_tick prog (s\<lparr>ticking := True\<rparr>) = Some a"
    and b: "drain_immediates prog a = Some b" and c: "drain_timers prog b = Some c"
    and t: "t = schedule_wake (c\<lparr>ticking := False\<rparr>)"
    using assms(1,3) by (auto simp: tick_def bind_eq_Some_conv)
  have "loop_ok (s\<lparr>ticking := True\<rparr>)" using assms(2) by (simp add: loop_ok_def request_ok_def)
  then have "loop_ok c" using ok.P_timers [OF c] ok.P_immediates [OF b] ok.P_drain [OF a] by simp
  then have "loop_ok (c\<lparr>ticking := False\<rparr>)" by (simp add: loop_ok_def request_ok_def)
  then show ?thesis using t by (simp add: loop_ok_schedule_wake covered_schedule_wake)
qed

definition quiet :: "loop \<Rightarrow> bool" where
  "quiet s \<longleftrightarrow> loop_ok s \<and> covered s \<and> \<not> ticking s"

lemma quiet_init: "quiet (init_loop t)"
  by (simp add: quiet_def init_loop_def loop_ok_def covered_def waiting_def)

interpretation calls: component run_action quiet
  by unfold_locales (simp add: quiet_def loop_ok_action covered_action)

lemmas quiet_actions = calls.run_inv

lemma quiet_taken:
  "quiet s \<Longrightarrow> g \<noteq> wakeGeneration s \<Longrightarrow> quiet (s\<lparr>requests := remove1 (g, f) (requests s)\<rparr>)"
  by (auto simp: quiet_def loop_ok_taken elim!: covered_mono simp: waiting_def handle_defs)

lemma loop_ok_woken:
  "loop_ok s \<Longrightarrow> loop_ok (s\<lparr>requests := r, wakeId := False, wakeAt := None\<rparr>)"
  by (simp add: loop_ok_def)

lemma quiet_step: "step prog e s = Some t \<Longrightarrow> quiet s \<Longrightarrow> quiet t"
proof (cases e)
  case (Handler as)
  assume "step prog e s = Some t" "quiet s"
  then show ?thesis using Handler by (auto simp: step_def quiet_actions)
next
  case HostTick
  assume "step prog e s = Some t" "quiet s"
  then show ?thesis using HostTick loop_ok_tick by (simp add: step_def quiet_def)
next
  case (Fire g f)
  assume s: "step prog e s = Some t" "quiet s"
  let ?r = "s\<lparr>requests := remove1 (g, f) (requests s)\<rparr>"
  have w: "wake prog g ?r = Some t" using s(1) Fire by (auto simp: step_def split: if_splits)
  show ?thesis
  proof (cases "g = wakeGeneration s")
    case True
    then have "tick prog (s\<lparr>requests := remove1 (g, f) (requests s), wakeId := False, wakeAt := None\<rparr>) = Some t"
      using w by (simp add: wake_def)
    then show ?thesis using loop_ok_tick s(2) by (simp add: quiet_def loop_ok_woken)
  next
    case False
    then show ?thesis using w quiet_taken [OF s(2) False, of f] by (simp add: wake_def)
  qed
qed

section \<open>What runs in a tick, and in which order\<close>

fun timer_run :: "log_entry \<Rightarrow> nat list" where
  "timer_run (RanTimer i) = [i]" | "timer_run _ = []"

fun immediate_run :: "log_entry \<Rightarrow> nat list" where
  "immediate_run (RanImmediate i) = [i]" | "immediate_run _ = []"

definition timer_runs :: "loop \<Rightarrow> nat list" where
  "timer_runs s = concat (map timer_run (runs s))"

definition immediate_runs :: "loop \<Rightarrow> nat list" where
  "immediate_runs s = concat (map immediate_run (runs s))"

definition dead :: "loop \<Rightarrow> nat \<Rightarrow> bool" where
  "dead s i \<longleftrightarrow> (\<exists>h. heap s i = Some h \<and> h_cancelled h)"

lemma runs_action [simp]: "runs (run_action s a) = runs s"
  by (cases a) (auto simp: set_timeout_def set_interval_def set_immediate_def ref_def Let_def new_timer_def refresh_def
   next_tick_def queue_microtask_def unref_def clear_timer_def clear_immediate_def set_handle_def split: option.split)

text \<open>The store only grows, and what is cancelled stays cancelled.\<close>

definition heap_le :: "loop \<Rightarrow> loop \<Rightarrow> bool" where
  "heap_le s t \<longleftrightarrow> (\<forall>i h. heap s i = Some h \<longrightarrow>
     (\<exists>h'. heap t i = Some h' \<and> (h_cancelled h \<longrightarrow> h_cancelled h')))"

lemma heap_le_refl [simp]: "heap_le s s"
  by (simp add: heap_le_def)

lemma heap_le_set: "heap_le s0 s \<Longrightarrow> (\<And>h. h_cancelled h \<Longrightarrow> h_cancelled (f h)) \<Longrightarrow> heap_le s0 (set_handle i f s)"
  by (fastforce simp: heap_le_def set_handle_def split: option.split)

lemma heap_le_new:
  "loop_ok s \<Longrightarrow> heap_le s0 s \<Longrightarrow> heap t = (heap s)(nextHandleId s \<mapsto> h) \<Longrightarrow> heap_le s0 t"
  unfolding heap_le_def loop_ok_def by (metis fun_upd_apply less_irrefl)

lemma heap_le_cong: "heap t = heap s \<Longrightarrow> heap_le s0 s \<Longrightarrow> heap_le s0 t"
  by (simp add: heap_le_def)

lemma heap_le_action: "loop_ok s \<Longrightarrow> heap_le s0 s \<Longrightarrow> heap_le s0 (run_action s a)"
proof (cases a)
  case (Refresh i)
  assume "heap_le s0 s"
  then show ?thesis using Refresh
    by (simp add: refresh_def split: option.split)
       (intro allI impI heap_le_cong [OF schedule_wake_sel(4)] heap_le_set, simp_all)
next
  case (SetTimeout c d)
  assume "loop_ok s" "heap_le s0 s"
  then show ?thesis using SetTimeout by (auto simp: set_timeout_def new_timer_def Let_def intro: heap_le_new)
next
  case (SetInterval c d)
  assume "loop_ok s" "heap_le s0 s"
  then show ?thesis using SetInterval by (auto simp: set_interval_def new_timer_def Let_def intro: heap_le_new)
next
  case (SetImmediate c)
  assume "loop_ok s" "heap_le s0 s"
  then show ?thesis using SetImmediate by (auto simp: set_immediate_def Let_def intro: heap_le_new)
next
  case (ClearTimer i)
  assume "heap_le s0 s"
  then have "heap_le s0 (set_handle i (h_cancelled_update (\<lambda>_. True)) s)" by (rule heap_le_set) simp
  then show ?thesis using ClearTimer \<open>heap_le s0 s\<close> by (simp add: clear_timer_def) (simp add: heap_le_def)
next
  case (Ref i)
  assume "heap_le s0 s"
  then have "heap_le s0 (set_handle i (h_ref_update (\<lambda>_. True)) s)" by (rule heap_le_set) simp
  then show ?thesis using Ref by (simp add: ref_def heap_le_def)
qed (auto simp: clear_immediate_def unref_def next_tick_def queue_microtask_def intro: heap_le_set elim: heap_le_cong [rotated])

interpretation heap: tick_invariant prog "\<lambda>s. loop_ok s \<and> heap_le s0 s" for prog s0
proof unfold_locales
  fix s i h assume "loop_ok s \<and> heap_le s0 s" "heap s i = Some h" "h_repeat h"
  then show "loop_ok (set_handle i (\<lambda>h. h\<lparr>h_due := now s + h_delay h\<rparr>) s) \<and>
     heap_le s0 (set_handle i (\<lambda>h. h\<lparr>h_due := now s + h_delay h\<rparr>) s)"
    using ok.P_repeat by (auto intro: heap_le_set)
qed (auto simp: loop_ok_action loop_ok_fired heap_le_action elim: heap_le_cong [rotated])

interpretation timer_log: checkpoint_invariant prog "\<lambda>s. timer_runs s = r" for prog r
  by unfold_locales (auto simp: timer_runs_def)

interpretation immediate_log: checkpoint_invariant prog "\<lambda>s. immediate_runs s = r" for prog r
  by unfold_locales (auto simp: immediate_runs_def)

lemma runs_foldl_action [simp]: "runs (foldl run_action s as) = runs s"
  by (induction as arbitrary: s) simp_all

text \<open>Running a list of handles: each runs at most once, in order, unless it was cancelled before its turn.\<close>

definition ran_of :: "(loop \<Rightarrow> nat list) \<Rightarrow> nat list \<Rightarrow> loop \<Rightarrow> loop \<Rightarrow> bool" where
  "ran_of lg is s t \<longleftrightarrow> (\<exists>xs. lg t = lg s @ xs \<and> subseq xs is \<and> (\<forall>i\<in>set is - set xs. dead t i))"

lemma ran_of_for_each:
  assumes run: "\<And>i s t. f i s = Some t \<Longrightarrow> loop_ok s \<Longrightarrow> heap s i \<noteq> None \<Longrightarrow>
      loop_ok t \<and> heap_le s t \<and> (if dead s i then t = s else lg t = lg s @ [i])"
  shows "for_each f is s = Some t \<Longrightarrow> loop_ok s \<Longrightarrow> \<forall>i\<in>set is. heap s i \<noteq> None \<Longrightarrow>
      loop_ok t \<and> heap_le s t \<and> ran_of lg is s t"
proof (induction "is" arbitrary: s)
  case (Cons i "is")
  then obtain u where u: "f i s = Some u" "for_each f is u = Some t" by (auto simp: bind_eq_Some_conv)
  have 1: "loop_ok u" "heap_le s u" "if dead s i then u = s else lg u = lg s @ [i]"
    using run [OF u(1)] Cons.prems by auto
  have "\<forall>j\<in>set is. heap u j \<noteq> None" using Cons.prems(3) 1(2) unfolding heap_le_def
    by (metis list.set_intros(2) option.exhaust option.simps(3))
  then have 2: "loop_ok t" "heap_le u t" "ran_of lg is u t" using Cons.IH [OF u(2) 1(1)] by auto
  then obtain xs where xs: "lg t = lg u @ xs" "subseq xs is" "\<forall>i\<in>set is - set xs. dead t i"
    by (auto simp: ran_of_def)
  have trans: "heap_le s t" using 1(2) 2(2) unfolding heap_le_def by metis
  have "ran_of lg (i # is) s t"
  proof (cases "dead s i")
    case True
    then have "dead t i" using trans unfolding heap_le_def dead_def by blast
    then show ?thesis using True 1(3) xs unfolding ran_of_def by (intro exI [of _ xs]) auto
  next
    case False
    then show ?thesis using 1(3) xs unfolding ran_of_def by (intro exI [of _ "i # xs"]) auto
  qed
  then show ?case using 2 trans by simp
qed (simp add: ran_of_def)

lemma run_timer_ran:
  assumes "run_timer prog i s = Some t" "loop_ok s" "heap s i \<noteq> None"
  shows "loop_ok t \<and> heap_le s t \<and> (if dead s i then t = s else timer_runs t = timer_runs s @ [i])"
proof -
  have *: "loop_ok t \<and> heap_le s t" using heap.P_run_timer [OF assms(1), of s] assms(2) by simp
  show ?thesis
  proof (cases "dead s i")
    case True
    then show ?thesis using * assms by (auto simp: run_timer_def dead_def)
  next
    case False
    then obtain h s1 where "heap s i = Some h" "timer_runs s1 = timer_runs s"
      "drain_microtasks_and_next_tick prog (run_callback prog (RanTimer i) (h_callback h) s1) = Some t"
    proof -
      obtain h where h: "heap s i = Some h" "\<not> h_cancelled h" using False assms(3) by (auto simp: dead_def)
      show thesis
        by (rule that [of h "if h_repeat h then set_handle i (\<lambda>h. h\<lparr>h_due := now s + h_delay h\<rparr>) s
             else s\<lparr>timers := filter (\<lambda>j. j \<noteq> i) (timers s)\<rparr>"])
           (use h assms(1) in \<open>simp_all add: run_timer_def timer_runs_def set_handle_def\<close>)
    qed
    then have "timer_runs t = timer_runs s @ [i]"
      using timer_log.P_drain [of prog "run_callback prog (RanTimer i) (h_callback h) s1"]
      by (simp add: run_callback_def timer_runs_def)
    then show ?thesis using * False by simp
  qed
qed

lemma run_immediate_ran:
  assumes "run_immediate prog i s = Some t" "loop_ok s" "heap s i \<noteq> None"
  shows "loop_ok t \<and> heap_le s t \<and> (if dead s i then t = s else immediate_runs t = immediate_runs s @ [i])"
proof -
  have *: "loop_ok t \<and> heap_le s t" using heap.P_run_immediate [OF assms(1), of s] assms(2) by simp
  show ?thesis
  proof (cases "dead s i")
    case True
    then show ?thesis using * assms by (auto simp: run_immediate_def dead_def)
  next
    case False
    then obtain h :: handle where
      "drain_microtasks_and_next_tick prog (run_callback prog (RanImmediate i) (h_callback h) s) = Some t"
      using assms(1,3) by (auto simp: run_immediate_def dead_def split: if_splits)
    then have "immediate_runs t = immediate_runs s @ [i]"
      using immediate_log.P_drain [of prog "run_callback prog (RanImmediate i) (h_callback h) s"]
      by (simp add: run_callback_def immediate_runs_def)
    then show ?thesis using * False by simp
  qed
qed

lemma due_timers_sorted:
  assumes "distinct (timers s)"
  shows "sorted_wrt (\<lambda>i j. (due s i, i) < (due s j, j)) (due_timers s)"
proof -
  let ?f = "\<lambda>i. (due s i, i)"
  have "distinct (map ?f (due_timers s))"
    using assms by (auto simp: distinct_map due_timers_def inj_on_def)
  moreover have "sorted (map ?f (due_timers s))" by (simp add: due_timers_def)
  ultimately have "sorted_wrt (<) (map ?f (due_timers s))" by (simp add: strict_sorted_iff)
  then show ?thesis by (simp add: sorted_wrt_map)
qed

lemma set_due_timers: "set (due_timers s) = {i \<in> set (timers s). alive s i \<and> due s i \<le> now s}"
  by (auto simp: due_timers_def)

text \<open>The states between two events of the actor.\<close>

inductive reachable :: "program \<Rightarrow> loop \<Rightarrow> bool" for prog where
  start: "reachable prog (init_loop t)"
| event: "reachable prog s \<Longrightarrow> step prog e s = Some t \<Longrightarrow> reachable prog t"

lemma reachable_quiet: "reachable prog s \<Longrightarrow> quiet s"
  by (induction rule: reachable.induct) (auto intro: quiet_init quiet_step)

text \<open>C5. No lost wake-up: between any two events of the actor, whatever handlers and callbacks did,
  each timer or immediate that keeps it alive (pending, not cancelled, not unref'd) is covered by a
  timeout of the current generation that is still pending and fires at most 10 ms after the timer
  is due (after now, if it is overdue).\<close>

theorem no_lost_wake:
  assumes "reachable prog s" "waiting s i"
  shows "wakeId s \<and> (\<exists>f. (wakeGeneration s, f) \<in> set (requests s) \<and> f \<le> max (due s i) (now s) + 10)"
proof -
  have q: "loop_ok s" "covered s" using reachable_quiet [OF assms(1)] by (simp_all add: quiet_def)
  then obtain w where w: "wakeId s" "wakeAt s = Some w" "w \<le> max (due s i) (now s)"
    using assms(2) by (auto simp: covered_def)
  then obtain f where "(wakeGeneration s, f) \<in> set (requests s)" "f \<le> max w (now s) + 10"
    using q(1) by (auto simp: loop_ok_def request_ok_def)
  then show ?thesis using w by (intro conjI exI [of _ f]) auto
qed

lemmas loop_eval = step_def set_timeout_def set_interval_def new_timer_def normalize_delay_def min_delay_ms_def max_delay_ms_def
  schedule_wake_def earliest_wake_def alive_def refd_def due_def init_loop_def Let_def waiting_def

lemma no_lost_wake_witness:
  "\<exists>s. step (\<lambda>_. []) (Handler [SetTimeout 7 (Some 25)]) (init_loop 100) = Some s \<and> wakeId s \<and>
     (\<exists>f. (wakeGeneration s, f) \<in> set (requests s) \<and> f \<le> max (due s 1) (now s) + 10)"
proof -
  let ?s = "foldl run_action (init_loop 100) [SetTimeout 7 (Some 25)]"
  have e: "step (\<lambda>_. []) (Handler [SetTimeout 7 (Some 25)]) (init_loop 100) = Some ?s" by (simp add: step_def)
  then have "reachable (\<lambda>_. []) ?s" using start event by blast
  moreover have "waiting ?s 1" by (simp add: loop_eval)
  ultimately show ?thesis using no_lost_wake [of "\<lambda>_. []" ?s 1] e by blast
qed

text \<open>C21. The timer phase runs the timers that are due at its entry, and only these: in the order of
  their due times, ties broken by age, each at most once (an interval that is due again waits for
  the next tick), and it leaves one out only because a callback of the same phase cancelled it.\<close>

theorem drain_timers_order:
  assumes "drain_timers prog s = Some t" "loop_ok s"
  shows "sorted_wrt (\<lambda>i j. (due s i, i) < (due s j, j)) (due_timers s) \<and>
    set (due_timers s) = {i \<in> set (timers s). alive s i \<and> due s i \<le> now s} \<and>
    ran_of timer_runs (due_timers s) s t"
proof -
  have "\<forall>i\<in>set (due_timers s). heap s i \<noteq> None" by (auto simp: set_due_timers alive_def split: option.splits)
  then have "ran_of timer_runs (due_timers s) s t"
    using ran_of_for_each [of "run_timer prog" timer_runs, OF run_timer_ran, where ?is = "due_timers s" and s = s and t = t]
      assms by (simp add: drain_timers_def)
  then show ?thesis using due_timers_sorted assms(2) by (simp add: set_due_timers loop_ok_def)
qed

lemma drain_idle:
  "nextTickQueue s = [] \<Longrightarrow> jobs s = [] \<Longrightarrow> drain_microtasks_and_next_tick prog s = Some s"
  by (subst drain_microtasks_and_next_tick.simps) (simp add: drain_next_tick.simps drain_jobs.simps)

lemma drain_timers_order_witness:
  "\<exists>s t. drain_timers ((\<lambda>_. [])(7 := [ClearTimer 2])) s = Some t \<and> due_timers s = [3, 1, 2] \<and>
     timer_runs t = [3, 1] \<and> ran_of timer_runs (due_timers s) s t"
proof -
  let ?prog = "(\<lambda>_. [])(7 := [ClearTimer 2])"
  let ?s = "foldl run_action (init_loop 100) [SetTimeout 7 (Some 30), SetInterval 8 (Some 30), SetTimeout 9 (Some 20), Elapse 30]"
  have ok: "loop_ok ?s" using quiet_actions [OF quiet_init] by (simp only: quiet_def)
  have d: "due_timers ?s = [3, 1, 2]" by (simp add: due_timers_def loop_eval)
  obtain t where t: "drain_timers ?prog ?s = Some t" "timer_runs t = [3, 1]"
    by (simp add: drain_timers_def due_timers_def run_timer_def run_callback_def drain_idle loop_eval clear_timer_def
      set_handle_def timer_runs_def)
  show ?thesis using drain_timers_order [OF t(1) ok] d t by blast
qed

text \<open>The immediate phase runs exactly the immediates queued at its entry, in the order they
  were queued, except those cancelled before their turn; one that a callback queues waits for the
  next tick.\<close>

theorem drain_immediates_order:
  assumes "drain_immediates prog s = Some t" "loop_ok s"
  shows "ran_of immediate_runs (immediateQueue s) s t"
proof -
  have "\<forall>i\<in>set (immediateQueue s). heap s i \<noteq> None" using assms(2) by (auto simp: loop_ok_def)
  then have "ran_of immediate_runs (immediateQueue s) (s\<lparr>immediateQueue := []\<rparr>) t"
    using ran_of_for_each [of "run_immediate prog" immediate_runs, OF run_immediate_ran,
        where ?is = "immediateQueue s" and s = "s\<lparr>immediateQueue := []\<rparr>" and t = t] assms
    by (simp add: drain_immediates_def)
  then show ?thesis by (simp add: ran_of_def immediate_runs_def)
qed


lemma drain_immediates_order_witness:
  "\<exists>s t. drain_immediates ((\<lambda>_. [])(7 := [ClearImmediate 2, SetImmediate 9])) s = Some t \<and>
     immediateQueue s = [1, 2, 3] \<and> immediate_runs t = [1, 3] \<and> ran_of immediate_runs [1, 2, 3] s t"
proof -
  let ?prog = "(\<lambda>_. [])(7 := [ClearImmediate 2, SetImmediate 9])"
  let ?s = "foldl run_action (init_loop 100) [SetImmediate 7, SetImmediate 8, SetImmediate 8]"
  have ok: "loop_ok ?s" using quiet_actions [OF quiet_init] by (simp only: quiet_def)
  have d: "immediateQueue ?s = [1, 2, 3]" by (simp add: set_immediate_def loop_eval)
  obtain t where t: "drain_immediates ?prog ?s = Some t" "immediate_runs t = [1, 3]"
    by (simp add: drain_immediates_def run_immediate_def run_callback_def drain_idle loop_eval clear_immediate_def
      set_immediate_def set_handle_def immediate_runs_def)
  show ?thesis using drain_immediates_order [OF t(1) ok] d t by metis
qed

section \<open>A tick returns\<close>

text \<open>
  A tick runs for ever exactly when callbacks keep feeding the two queues. Where every callback can
  be given a cost above the costs of all the callbacks it puts into them, it returns.
\<close>

fun fed :: "action \<Rightarrow> nat list" where
  "fed (NextTick c) = [c]" | "fed (QueueMicrotask c) = [c]" | "fed _ = []"

definition load :: "(nat \<Rightarrow> nat) \<Rightarrow> loop \<Rightarrow> nat" where
  "load cost s = sum_list (map cost (nextTickQueue s)) + sum_list (map cost (jobs s))"

definition feeds_less :: "program \<Rightarrow> (nat \<Rightarrow> nat) \<Rightarrow> bool" where
  "feeds_less prog cost \<longleftrightarrow> (\<forall>c. sum_list (map cost (concat (map fed (prog c)))) < cost c)"

lemma load_action: "load cost (run_action s a) = load cost s + sum_list (map cost (fed a))"
  by (cases a) (auto simp: load_def set_timeout_def set_interval_def set_immediate_def ref_def Let_def new_timer_def
   refresh_def next_tick_def queue_microtask_def unref_def clear_timer_def clear_immediate_def set_handle_def
   split: option.split)

lemma load_actions: "load cost (foldl run_action s as) = load cost s + sum_list (map cost (concat (map fed as)))"
  by (induction as arbitrary: s) (simp_all add: load_action)

lemma load_callback: "feeds_less prog cost \<Longrightarrow> load cost (run_callback prog e c s) < load cost s + cost c"
  by (simp add: run_callback_def load_actions feeds_less_def) (simp add: load_def)

lemma load_batch:
  "feeds_less prog cost \<Longrightarrow> cs \<noteq> [] \<Longrightarrow>
   load cost (foldl (\<lambda>s c. run_callback prog (RanTick c) c s) s cs) < load cost s + sum_list (map cost cs)"
proof (induction cs arbitrary: s)
  case (Cons c cs)
  have c: "load cost (run_callback prog (RanTick c) c s) < load cost s + cost c"
    by (rule load_callback [OF Cons.prems(1)])
  show ?case
  proof (cases "cs = []")
    case False
    then show ?thesis using Cons.IH [OF Cons.prems(1) False, of "run_callback prog (RanTick c) c s"] c by simp
  qed (use c in simp)
qed simp

lemma drain_next_tick_returns:
  assumes "feeds_less prog cost"
  shows "\<exists>t. drain_next_tick prog s = Some t \<and> nextTickQueue t = [] \<and> (t = s \<or> load cost t < load cost s)"
proof (induction "load cost s" arbitrary: s rule: less_induct)
  case less
  show ?case
  proof (cases "nextTickQueue s = []")
    case True
    then show ?thesis by (simp add: drain_next_tick.simps)
  next
    case False
    let ?u = "foldl (\<lambda>s c. run_callback prog (RanTick c) c s) (s\<lparr>nextTickQueue := []\<rparr>) (nextTickQueue s)"
    have "load cost ?u < load cost s" using load_batch [OF assms False, of "s\<lparr>nextTickQueue := []\<rparr>"]
      by (simp add: load_def)
    then show ?thesis using less [of ?u] False by (subst drain_next_tick.simps) auto
  qed
qed

lemma drain_jobs_returns:
  assumes "feeds_less prog cost"
  shows "\<exists>t. drain_jobs prog s = Some t \<and> jobs t = [] \<and> (t = s \<or> load cost t < load cost s)"
proof (induction "load cost s" arbitrary: s rule: less_induct)
  case less
  show ?case
  proof (cases "jobs s")
    case Nil
    then show ?thesis by (simp add: drain_jobs.simps)
  next
    case (Cons c cs)
    let ?u = "run_callback prog (RanJob c) c (s\<lparr>jobs := cs\<rparr>)"
    have "load cost ?u < load cost s" using load_callback [OF assms, of "RanJob c" c "s\<lparr>jobs := cs\<rparr>"] Cons
      by (simp add: load_def)
    then show ?thesis using less [of ?u] Cons by (subst drain_jobs.simps) auto
  qed
qed

lemma drain_returns:
  assumes "feeds_less prog cost"
  shows "\<exists>t. drain_microtasks_and_next_tick prog s = Some t \<and> nextTickQueue t = [] \<and> jobs t = []"
proof (induction "load cost s" arbitrary: s rule: less_induct)
  case less
  obtain a where a: "drain_next_tick prog s = Some a" "nextTickQueue a = []" "a = s \<or> load cost a < load cost s"
    using drain_next_tick_returns [OF assms, of s] by auto
  obtain b where b: "drain_jobs prog a = Some b" "jobs b = []" "b = a \<or> load cost b < load cost a"
    using drain_jobs_returns [OF assms, of a] by auto
  show ?case
  proof (cases "nextTickQueue b = []")
    case True
    then show ?thesis using a b by (subst drain_microtasks_and_next_tick.simps) simp
  next
    case False
    then have "load cost b < load cost s" using a b by auto
    then show ?thesis using less [of b] a b False by (subst drain_microtasks_and_next_tick.simps) simp
  qed
qed

definition drained :: "loop \<Rightarrow> bool" where
  "drained s \<longleftrightarrow> nextTickQueue s = [] \<and> jobs s = []"

lemma for_each_returns:
  "(\<And>x s. P s \<Longrightarrow> \<exists>t. f x s = Some t \<and> P t) \<Longrightarrow> P s \<Longrightarrow> \<exists>t. for_each f xs s = Some t \<and> P t"
proof (induction xs arbitrary: s)
  case (Cons x xs)
  then obtain u where "f x s = Some u" "P u" by blast
  then show ?case using Cons by auto
qed simp

text \<open>C22. A tick returns, with both queues empty, whenever the callbacks do not feed the queues for
  ever: it is enough that some cost of callbacks exceeds the total cost of what each callback queues
  with \<open>process.nextTick\<close> and \<open>queueMicrotask\<close>. Timers and immediates may be re-armed without
  any bound.\<close>

theorem tick_returns:
  assumes "feeds_less prog cost"
  shows "\<exists>t. tick prog s = Some t \<and> (\<not> ticking s \<longrightarrow> nextTickQueue t = [] \<and> jobs t = [])"
proof (cases "ticking s")
  case False
  have *: "\<exists>t. drain_microtasks_and_next_tick prog s = Some t \<and> drained t" for s
    using drain_returns [OF assms] by (simp add: drained_def)
  obtain a where a: "drain_microtasks_and_next_tick prog (s\<lparr>ticking := True\<rparr>) = Some a" "drained a"
    using * by blast
  have i: "\<exists>t. run_immediate prog i s = Some t \<and> drained t" if "drained s" for i s
    using that * by (auto simp: run_immediate_def split: option.split)
  have j: "\<exists>t. run_timer prog i s = Some t \<and> drained t" if "drained s" for i s
    using that * by (auto simp: run_timer_def Let_def split: option.split)
  have "drained (a\<lparr>immediateQueue := []\<rparr>)" using a(2) by (simp add: drained_def)
  then obtain b where b: "drain_immediates prog a = Some b" "drained b"
    using for_each_returns [of drained "run_immediate prog", OF i] unfolding drain_immediates_def by blast
  obtain c where c: "drain_timers prog b = Some c" "drained c"
    using for_each_returns [of drained "run_timer prog", OF j b(2)] unfolding drain_timers_def by blast
  show ?thesis using False a b c by (simp add: tick_def drained_def)
qed (simp add: tick_def)

lemma tick_returns_witness:
  "\<exists>t. tick ((\<lambda>_. [])(1 := [NextTick 2, QueueMicrotask 2, SetImmediate 1])) (foldl run_action (init_loop 0) [SetImmediate 1]) = Some t"
proof -
  have "feeds_less ((\<lambda>_. [])(1 := [NextTick 2, QueueMicrotask 2, SetImmediate 1])) ((\<lambda>_. 1)(1 := 3))"
    by (simp add: feeds_less_def)
  from tick_returns [OF this, of "foldl run_action (init_loop 0) [SetImmediate 1]"] show ?thesis by blast
qed

text \<open>
  \<open>refresh\<close> on a timeout that has fired changes its due time but does not put it back among the
  timers; \<open>clearImmediate\<close> on a timer leaves the cancelled timer among them for good.
\<close>

lemma refresh_fired:
  "heap s i = Some h \<Longrightarrow> i \<notin> set (timers s) \<Longrightarrow> i \<notin> set (timers (refresh i s))"
  by (simp add: refresh_def set_handle_def)

lemma clear_immediate_timer:
  "timers (clear_timer i (clear_immediate i s)) = timers s \<or> heap s i = None"
  by (auto simp: clear_immediate_def clear_timer_def set_handle_def alive_def split: option.split)

end
