(* ===== verification/Json.thy ===== *)
theory Json
  imports Text_Codec
begin

text \<open>
  \<open>JSON.stringify\<close> and \<open>JSON.parse\<close>, as far as the runtime uses them: for frame headers, the
  configuration and the \<open>%j\<close> of \<open>console.log\<close>. Numbers are integers; a literal with a fraction
  or an exponent is kept as its text (\<open>JDec\<close>). An object is the list of its properties in
  enumeration order. The parser is a recursive descent with fuel; twice the length of the text is
  enough, because of any two nested calls one consumes a character.
\<close>

datatype json = JNull | JBool bool | JNum int | JDec jsstr | JStr jsstr | JArr "json list"
  | JObj "(jsstr \<times> json) list"

section \<open>Objects\<close>

text \<open>
  Assigning a property: in place when the object has it; otherwise array indices come first, in
  ascending order, and the other keys after them in the order of their creation.
\<close>

definition index_key :: "jsstr \<Rightarrow> nat option" where
  "index_key k = (case parse_int 10 k of
      None \<Rightarrow> None
    | Some i \<Rightarrow> if 0 \<le> i \<and> i < 4294967295 \<and> k = to_radix 10 (nat i) then Some (nat i) else None)"

fun obj_insert :: "jsstr \<Rightarrow> 'a \<Rightarrow> (jsstr \<times> 'a) list \<Rightarrow> (jsstr \<times> 'a) list" where
  "obj_insert k v [] = [(k, v)]"
| "obj_insert k v ((k', v') # ps) =
     (if (case index_key k of
            None \<Rightarrow> False
          | Some i \<Rightarrow> (case index_key k' of None \<Rightarrow> True | Some j \<Rightarrow> i < j))
      then (k, v) # (k', v') # ps else (k', v') # obj_insert k v ps)"

definition obj_put :: "jsstr \<Rightarrow> 'a \<Rightarrow> (jsstr \<times> 'a) list \<Rightarrow> (jsstr \<times> 'a) list" where
  "obj_put k v ps =
     (if k \<in> fst ` set ps then map (\<lambda>p. if fst p = k then (k, v) else p) ps else obj_insert k v ps)"

section \<open>stringify\<close>

definition hex4 :: "nat \<Rightarrow> jsstr" where
  "hex4 n = pad_start 4 48 (to_radix 16 n)"

definition quote_unit :: "code_unit \<Rightarrow> jsstr" where
  "quote_unit c =
     (if c = 34 then [92, 34] else if c = 92 then [92, 92]
      else if c = 8 then [92, 98] else if c = 9 then [92, 116] else if c = 10 then [92, 110]
      else if c = 12 then [92, 102] else if c = 13 then [92, 114]
      else if c < 32 \<or> is_high c \<or> is_low c then [92, 117] @ hex4 (unat c)
      else [c])"

fun quote_body :: "jsstr \<Rightarrow> jsstr" where
  "quote_body [] = []"
| "quote_body [c] = quote_unit c"
| "quote_body (c # d # s) =
     (if is_high c \<and> is_low d then c # d # quote_body s else quote_unit c @ quote_body (d # s))"

definition quote :: "jsstr \<Rightarrow> jsstr" where
  "quote s = 34 # quote_body s @ [34]"

definition int_str :: "int \<Rightarrow> jsstr" where
  "int_str i = (if i < 0 then 45 # to_radix 10 (nat (- i)) else to_radix 10 (nat i))"

fun json_str :: "json \<Rightarrow> jsstr" where
  "json_str JNull = js ''null''"
| "json_str (JBool b) = (if b then js ''true'' else js ''false'')"
| "json_str (JNum i) = int_str i"
| "json_str (JDec t) = t"
| "json_str (JStr s) = quote s"
| "json_str (JArr vs) = 91 # join_with [44] (map json_str vs) @ [93]"
| "json_str (JObj ps) = 123 # join_with [44] (map (\<lambda>p. quote (fst p) @ 58 # json_str (snd p)) ps) @ [125]"

section \<open>parse\<close>

definition is_ws :: "code_unit \<Rightarrow> bool" where
  "is_ws c \<longleftrightarrow> c = 32 \<or> c = 9 \<or> c = 10 \<or> c = 13"

definition skip_ws :: "jsstr \<Rightarrow> jsstr" where
  "skip_ws s = dropWhile is_ws s"

definition is_dec :: "code_unit \<Rightarrow> bool" where
  "is_dec c \<longleftrightarrow> 48 \<le> c \<and> c \<le> 57"

fun unescape :: "code_unit \<Rightarrow> code_unit option" where
  "unescape c = (if c = 34 \<or> c = 92 \<or> c = 47 then Some c
     else if c = 98 then Some 8 else if c = 102 then Some 12 else if c = 110 then Some 10
     else if c = 114 then Some 13 else if c = 116 then Some 9 else None)"

text \<open>The four digits of a \<open>\<backslash>u\<close> escape, and the body of a string after the opening quote.\<close>

definition unicode_escape :: "jsstr \<Rightarrow> (code_unit \<times> jsstr) option" where
  "unicode_escape s = (let ds = take 4 s in
     if length ds = 4 \<and> list_all (is_digit_of 16) ds
     then Some (to_unit (digits_value 16 ds), drop 4 s) else None)"

function parse_str :: "jsstr \<Rightarrow> (jsstr \<times> jsstr) option" where
  "parse_str [] = None"
| "parse_str (c # s) =
     (if c = 34 then Some ([], s)
      else if c < 32 then None
      else if c \<noteq> 92 then map_option (\<lambda>(t, r). (c # t, r)) (parse_str s)
      else case s of
        [] \<Rightarrow> None
      | x # r \<Rightarrow>
          if x = 117
          then (case unicode_escape r of
                  None \<Rightarrow> None
                | Some (u, r') \<Rightarrow> map_option (\<lambda>(t, r). (u # t, r)) (parse_str r'))
          else (case unescape x of
                  None \<Rightarrow> None
                | Some u \<Rightarrow> map_option (\<lambda>(t, r). (u # t, r)) (parse_str r)))"
  by pat_completeness auto
termination
  by (relation "measure length") (auto simp: unicode_escape_def Let_def split: if_splits)

text \<open>A number literal: sign, integer part without leading zeros, fraction, exponent.\<close>

definition int_part :: "jsstr \<Rightarrow> jsstr option" where
  "int_part s = (case takeWhile is_dec s of
      [] \<Rightarrow> None
    | d # ds \<Rightarrow> Some (if d = 48 then [48] else d # ds))"

definition frac_part :: "jsstr \<Rightarrow> jsstr option" where
  "frac_part s =
     (if starts_with s [46]
      then (if takeWhile is_dec (tl s) = [] then None else Some (46 # takeWhile is_dec (tl s)))
      else Some [])"

definition exp_part :: "jsstr \<Rightarrow> jsstr option" where
  "exp_part s = (case s of
      e # r \<Rightarrow>
        if e = 101 \<or> e = 69
        then (let sg = (case r of c # _ \<Rightarrow> if c = 43 \<or> c = 45 then [c] else [] | [] \<Rightarrow> []);
                  ds = takeWhile is_dec (drop (length sg) r)
              in if ds = [] then None else Some (e # sg @ ds))
        else Some []
    | [] \<Rightarrow> Some [])"

definition parse_num :: "jsstr \<Rightarrow> (json \<times> jsstr) option" where
  "parse_num s =
     (let neg = starts_with s [45]; t = (if neg then tl s else s) in
      case int_part t of None \<Rightarrow> None
      | Some i \<Rightarrow>
          let r = drop (length i) t in
          case frac_part r of None \<Rightarrow> None
          | Some f \<Rightarrow>
              let r' = drop (length f) r in
              case exp_part r' of None \<Rightarrow> None
              | Some e \<Rightarrow>
                  Some (if f = [] \<and> e = []
                        then JNum (if neg then - int (digits_value 10 i) else int (digits_value 10 i))
                        else JDec ((if neg then [45] else []) @ i @ f @ e),
                        drop (length e) r'))"

text \<open>The next token, when it is the given character.\<close>

definition token :: "code_unit \<Rightarrow> jsstr \<Rightarrow> jsstr option" where
  "token c s = (case skip_ws s of [] \<Rightarrow> None | d # r \<Rightarrow> if d = c then Some r else None)"

fun parse_value :: "nat \<Rightarrow> jsstr \<Rightarrow> (json \<times> jsstr) option"
and parse_elems :: "nat \<Rightarrow> jsstr \<Rightarrow> (json list \<times> jsstr) option"
and parse_members :: "nat \<Rightarrow> jsstr \<Rightarrow> ((jsstr \<times> json) list \<times> jsstr) option" where
  "parse_value 0 s = None"
| "parse_value (Suc n) s =
     (case skip_ws s of
        [] \<Rightarrow> None
      | c # r \<Rightarrow>
          if c = 34 then map_option (\<lambda>(t, r). (JStr t, r)) (parse_str r)
          else if c = 91
          then (case token 93 r of
                  Some r' \<Rightarrow> Some (JArr [], r')
                | None \<Rightarrow> map_option (\<lambda>(vs, r). (JArr vs, r)) (parse_elems n r))
          else if c = 123
          then (case token 125 r of
                  Some r' \<Rightarrow> Some (JObj [], r')
                | None \<Rightarrow> map_option (\<lambda>(ps, r). (JObj (foldl (\<lambda>ob p. obj_put (fst p) (snd p) ob) [] ps), r))
                         (parse_members n r))
          else if starts_with (c # r) (js ''true'') then Some (JBool True, drop 3 r)
          else if starts_with (c # r) (js ''false'') then Some (JBool False, drop 4 r)
          else if starts_with (c # r) (js ''null'') then Some (JNull, drop 3 r)
          else parse_num (c # r))"
| "parse_elems 0 s = None"
| "parse_elems (Suc n) s =
     (case parse_value n s of None \<Rightarrow> None
      | Some (v, r) \<Rightarrow> (case token 44 r of
            Some r' \<Rightarrow> map_option (\<lambda>(vs, r). (v # vs, r)) (parse_elems n r')
          | None \<Rightarrow> map_option (\<lambda>r'. ([v], r')) (token 93 r)))"
| "parse_members 0 s = None"
| "parse_members (Suc n) s =
     (case token 34 s of None \<Rightarrow> None
      | Some r \<Rightarrow> (case parse_str r of None \<Rightarrow> None
        | Some (k, r1) \<Rightarrow> (case token 58 r1 of None \<Rightarrow> None
          | Some r2 \<Rightarrow> (case parse_value n r2 of None \<Rightarrow> None
            | Some (v, r3) \<Rightarrow> (case token 44 r3 of
                Some r' \<Rightarrow> map_option (\<lambda>(ps, r). ((k, v) # ps, r)) (parse_members n r')
              | None \<Rightarrow> map_option (\<lambda>r'. ([(k, v)], r')) (token 125 r3))))))"

definition json_parse :: "jsstr \<Rightarrow> json option" where
  "json_parse s = (case parse_value (2 * length s) s of None \<Rightarrow> None
     | Some (v, r) \<Rightarrow> if skip_ws r = [] then Some v else None)"

section \<open>Reading back what stringify writes\<close>

lemma length_to_radix: "2 \<le> r \<Longrightarrow> n < r ^ Suc k \<Longrightarrow> length (to_radix r n) \<le> Suc k"
proof (induction k arbitrary: n)
  case 0
  then show ?case by (subst to_radix.simps) simp
next
  case (Suc k)
  show ?case
  proof (cases "n < r")
    case True
    then show ?thesis by (subst to_radix.simps) simp
  next
    case False
    have "n div r < r ^ Suc k" using Suc.prems by (simp add: less_mult_imp_div_less mult.commute)
    then show ?thesis using Suc.IH [of "n div r"] Suc.prems False by (subst to_radix.simps) simp
  qed
qed

lemma digits_value_zeros: "digits_value 16 (replicate k 48 @ s) = digits_value 16 s"
  by (induction k) (simp_all add: digits_value_def digit_value_def)

lemma hex4_escape:
  assumes "n < 65536"
  shows "unicode_escape (hex4 n @ r) = Some (to_unit n, r)"
proof -
  have l: "length (to_radix 16 n) \<le> 4" using length_to_radix [of 16 n 3] assms by simp
  then have h: "length (hex4 n) = 4" by (simp add: hex4_def pad_start_def)
  have z: "is_digit_of 16 48" by (simp add: is_digit_of_def digit_value_def)
  obtain ds where ds: "to_radix 16 n = map digit_char ds" "\<forall>d\<in>set ds. d < 16"
    using to_radix_digits [of 16 n] by auto
  have "list_all (is_digit_of 16) (hex4 n)"
    using ds z by (auto simp: hex4_def pad_start_def list_all_iff is_digit_char)
  moreover have "digits_value 16 (hex4 n) = n"
    by (simp add: hex4_def pad_start_def digits_value_zeros digits_value_to_radix)
  ultimately show ?thesis using h by (simp add: unicode_escape_def Let_def)
qed

lemma parse_str_unit: "parse_str (quote_unit c @ s) = map_option (\<lambda>(t, r). (c # t, r)) (parse_str s)"
  using hex4_escape [OF unat_unit, of c s] by (auto simp: quote_unit_def)

lemma surrogate_raw: "is_high c \<or> is_low c \<Longrightarrow> c \<noteq> 34 \<and> \<not> c < 32 \<and> c \<noteq> 92"
  by (auto simp: surrogate_bounds word_less_nat_alt)

lemma parse_str_quote: "parse_str (quote_body s @ 34 # r) = Some (s, r)"
proof (induction s rule: quote_body.induct)
  case (3 c d s)
  show ?case
  proof (cases "is_high c \<and> is_low d")
    case True
    then show ?thesis using 3(1) surrogate_raw [of c] surrogate_raw [of d] by simp
  next
    case False
    then show ?thesis using 3(2) by (simp only: quote_body.simps if_False append_assoc parse_str_unit) simp
  qed
qed (simp_all add: parse_str_unit)

lemma is_dec_digit: "d < 10 \<Longrightarrow> is_dec (digit_char d)"
proof -
  assume "d < 10"
  then have "d \<in> set [0..<10]" by simp
  then show ?thesis by (simp add: upt_conv_Cons) (auto simp: digit_char_def to_unit_def is_dec_def)
qed

lemma digit_char_zero: "d < 10 \<Longrightarrow> digit_char d = 48 \<longleftrightarrow> d = 0"
proof -
  assume "d < 10"
  then have "d \<in> set [0..<10]" by simp
  then show ?thesis by (simp add: upt_conv_Cons) (auto simp: digit_char_def to_unit_def)
qed

lemma to_radix_dec:
  obtains d ds where "to_radix 10 n = digit_char d # map digit_char ds" "d < 10" "\<forall>e\<in>set ds. e < 10"
    "d = 0 \<longrightarrow> ds = []"
proof -
  have "\<exists>d ds. to_radix 10 n = digit_char d # map digit_char ds \<and> d < 10 \<and> (\<forall>e\<in>set ds. e < 10) \<and> (d = 0 \<longrightarrow> ds = [] \<and> n = 0)"
  proof (induction n rule: less_induct)
    case (less n)
    show ?case
    proof (cases "n < 10")
      case True
      then show ?thesis by (subst to_radix.simps) (auto intro: exI [of _ n])
    next
      case False
      then obtain d ds where *: "to_radix 10 (n div 10) = digit_char d # map digit_char ds" "d < 10"
        "\<forall>e\<in>set ds. e < 10" "d = 0 \<longrightarrow> ds = [] \<and> n div 10 = 0"
        using less [of "n div 10"] by auto
      have "n div 10 \<noteq> 0" using False by (simp add: div_eq_0_iff)
      then show ?thesis using * False
        by (subst to_radix.simps) (auto intro!: exI [of _ d] exI [of _ "ds @ [n mod 10]"])
    qed
  qed
  then show thesis using that by blast
qed

definition num_end :: "jsstr \<Rightarrow> bool" where
  "num_end w \<longleftrightarrow> w = [] \<or> (\<not> is_dec (hd w) \<and> hd w \<noteq> 46 \<and> hd w \<noteq> 101 \<and> hd w \<noteq> 69)"

lemma parse_num_int:
  assumes "num_end w"
  shows "parse_num (int_str i @ w) = Some (JNum i, w)"
proof -
  define n where "n = nat \<bar>i\<bar>"
  obtain d ds where d: "to_radix 10 n = digit_char d # map digit_char ds" "d < 10" "\<forall>e\<in>set ds. e < 10"
    "d = 0 \<longrightarrow> ds = []" by (rule to_radix_dec [of n])
  have t: "takeWhile is_dec (to_radix 10 n @ w) = to_radix 10 n"
    using d assms by (cases w) (auto simp: num_end_def takeWhile_append is_dec_digit takeWhile_eq_all_conv)
  have i: "int_part (to_radix 10 n @ w) = Some (to_radix 10 n)"
    using t d digit_char_zero [OF d(2)] by (auto simp: int_part_def)
  have s: "\<not> starts_with (to_radix 10 n @ w) [45]"
    using d digit_char_not_sign [of d] by (auto simp: starts_with_def)
  have f: "frac_part w = Some []" using assms by (cases w) (auto simp: frac_part_def num_end_def starts_with_def)
  have e: "exp_part w = Some []" using assms by (cases w) (auto simp: exp_part_def num_end_def)
  have v: "digits_value 10 (to_radix 10 n) = n" by (simp add: digits_value_to_radix)
  show ?thesis
  proof (cases "i < 0")
    case True
    then have "int_str i @ w = 45 # to_radix 10 n @ w" by (simp add: int_str_def n_def)
    then show ?thesis using i f e v True by (simp add: parse_num_def Let_def starts_with_def n_def)
  next
    case False
    then have "int_str i @ w = to_radix 10 n @ w" by (simp add: int_str_def n_def)
    then show ?thesis using s i f e v False by (simp add: parse_num_def Let_def n_def)
  qed
qed

lemma skip_ws_nonspace: "\<not> is_ws c \<Longrightarrow> skip_ws (c # s) = c # s"
  by (simp add: skip_ws_def)

lemma token_hit: "\<not> is_ws c \<Longrightarrow> token c (c # s) = Some s"
  by (simp add: token_def skip_ws_nonspace)

lemma token_miss: "\<not> is_ws d \<Longrightarrow> d \<noteq> c \<Longrightarrow> token c (d # s) = None"
  by (simp add: token_def skip_ws_nonspace)

lemmas ws_simps = is_ws_def

fun json_ok :: "json \<Rightarrow> bool" where
  "json_ok (JDec t) = False"
| "json_ok (JArr vs) = list_all json_ok vs"
| "json_ok (JObj ps) = (list_all (\<lambda>p. json_ok (snd p)) ps \<and> foldl (\<lambda>ob p. obj_put (fst p) (snd p) ob) [] ps = ps)"
| "json_ok _ = True"

text \<open>The first character of a printed value is no white space and no closing bracket.\<close>

lemma int_str_head: "\<exists>c r. int_str i = c # r \<and> (c = 45 \<or> is_dec c)"
proof -
  obtain d ds where d: "to_radix 10 (nat \<bar>i\<bar>) = digit_char d # map digit_char ds" "d < 10"
    by (rule to_radix_dec [of "nat \<bar>i\<bar>"])
  then show ?thesis using is_dec_digit [OF d(2)] by (auto simp: int_str_def)
qed

lemma json_str_head: "json_ok v \<Longrightarrow> \<exists>c r. json_str v = c # r \<and> \<not> is_ws c \<and> c \<noteq> 93 \<and> c \<noteq> 125 \<and> c \<noteq> 44"
  using int_str_head
  by (cases v) (fastforce simp: js_def quote_def is_ws_def is_dec_def)+


lemma parse_value_simple:
  assumes "num_end w" "n > 0" "\<And>vs. v \<noteq> JArr vs" "\<And>ps. v \<noteq> JObj ps" "json_ok v"
  shows "parse_value n (json_str v @ w) = Some (v, w)"
proof -
  obtain m where n: "n = Suc m" using assms(2) by (cases n) auto
  show ?thesis
  proof (cases v)
    case (JNum i)
    obtain c r where c: "int_str i = c # r" "c = 45 \<or> is_dec c" using int_str_head by blast
    have c': "\<not> is_ws c" "c \<noteq> 34" "c \<noteq> 91" "c \<noteq> 123" "c \<noteq> 116" "c \<noteq> 102" "c \<noteq> 110"
      using c(2) by (auto simp: is_ws_def is_dec_def)
    have "parse_num (c # r @ w) = Some (v, w)" using parse_num_int [OF assms(1), of i] c JNum by simp
    then show ?thesis using c' n JNum c by (simp add: skip_ws_nonspace starts_with_def js_def)
  next
    case (JStr s)
    then show ?thesis using n by (simp add: quote_def skip_ws_nonspace is_ws_def parse_str_quote)
  qed (use n assms in \<open>auto simp: js_def skip_ws_nonspace is_ws_def starts_with_def\<close>)
qed

lemma num_end_punct: "c \<in> {44, 93, 125} \<Longrightarrow> num_end (c # w)"
  by (auto simp: num_end_def is_dec_def)

lemma parse_elems_join:
  "vs \<noteq> [] \<Longrightarrow> list_all json_ok vs \<Longrightarrow>
   (\<And>v n w. v \<in> set vs \<Longrightarrow> num_end w \<Longrightarrow> n \<ge> 2 * length (json_str v) \<Longrightarrow> parse_value n (json_str v @ w) = Some (v, w)) \<Longrightarrow>
   n \<ge> 2 * length (join_with [44] (map json_str vs)) + 2 \<Longrightarrow>
   parse_elems n (join_with [44] (map json_str vs) @ 93 # w) = Some (vs, w)"
proof (induction vs arbitrary: n rule: induct_list012)
  case (2 v)
  then obtain m where n: "n = Suc m" by (cases n) auto
  have "parse_value m (json_str v @ 93 # w) = Some (v, 93 # w)"
    using 2 n by (simp add: num_end_punct)
  then show ?case using n by (simp add: token_hit token_miss is_ws_def)
next
  case (3 v u vs)
  then obtain m where n: "n = Suc m" by (cases n) auto
  let ?t = "join_with [44] (map json_str (u # vs))"
  have "parse_value m (json_str v @ 44 # ?t @ 93 # w) = Some (v, 44 # ?t @ 93 # w)"
    using 3(5,6) n by (simp add: num_end_punct)
  moreover have "parse_elems m (?t @ 93 # w) = Some (u # vs, w)"
    using 3 n by (intro "3.IH"(2)) auto
  ultimately show ?case using n by (simp add: token_hit is_ws_def)
qed simp

definition member_str :: "jsstr \<times> json \<Rightarrow> jsstr" where
  "member_str p = quote (fst p) @ 58 # json_str (snd p)"

lemma parse_members_join:
  "ps \<noteq> [] \<Longrightarrow>
   (\<And>p n w. p \<in> set ps \<Longrightarrow> num_end w \<Longrightarrow> n \<ge> 2 * length (json_str (snd p)) \<Longrightarrow> parse_value n (json_str (snd p) @ w) = Some (snd p, w)) \<Longrightarrow>
   n \<ge> 2 * length (join_with [44] (map member_str ps)) + 2 \<Longrightarrow>
   parse_members n (join_with [44] (map member_str ps) @ 125 # w) = Some (ps, w)"
proof (induction ps arbitrary: n rule: induct_list012)
  case (2 p)
  then obtain m where n: "n = Suc m" by (cases n) auto
  have "parse_value m (json_str (snd p) @ 125 # w) = Some (snd p, 125 # w)"
    using 2 n by (simp add: num_end_punct member_str_def)
  then show ?case using n
    by (simp add: member_str_def quote_def token_hit token_miss parse_str_quote is_ws_def)
next
  case (3 p q ps)
  then obtain m where n: "n = Suc m" by (cases n) auto
  define t where "t = join_with [44] (map member_str (q # ps))"
  have str: "join_with [44] (map member_str (p # q # ps)) = 34 # quote_body (fst p) @ 34 # 58 # json_str (snd p) @ 44 # t"
    by (simp add: t_def member_str_def [of p] quote_def)
  have "parse_value m (json_str (snd p) @ 44 # t @ 125 # w) = Some (snd p, 44 # t @ 125 # w)"
    using 3(4,5) n unfolding str by (simp add: num_end_punct)
  moreover have "parse_members m (t @ 125 # w) = Some (q # ps, w)"
    using 3(4,5) n unfolding str t_def by (intro "3.IH"(2)) auto
  ultimately show ?case using n unfolding str
    by (simp add: token_hit parse_str_quote is_ws_def)
qed simp

lemma json_str_nonempty: "json_ok v \<Longrightarrow> json_str v \<noteq> []"
  using json_str_head by fastforce

lemma fuel_pos: "json_ok v \<Longrightarrow> n \<ge> 2 * length (json_str v) \<Longrightarrow> n > 0"
  using json_str_nonempty [of v] by (cases "json_str v") auto

lemma parse_value_json_str:
  "json_ok v \<Longrightarrow> num_end w \<Longrightarrow> n \<ge> 2 * length (json_str v) \<Longrightarrow> parse_value n (json_str v @ w) = Some (v, w)"
proof (induction v arbitrary: n w)
  case (JArr vs)
  then obtain m where n: "n = Suc m" by (cases n) auto
  show ?case
  proof (cases "vs = []")
    case True
    then show ?thesis using n by (simp add: skip_ws_nonspace is_ws_def token_hit)
  next
    case False
    then obtain u us where vs: "vs = u # us" by (cases vs) auto
    obtain c r where c: "json_str u = c # r" "\<not> is_ws c" "c \<noteq> 93" using json_str_head [of u] JArr.prems(1) vs by auto
    obtain r' where "join_with [44] (map json_str vs) = c # r'" using c vs by (cases us) auto
    moreover have "parse_elems m (join_with [44] (map json_str vs) @ 93 # w) = Some (vs, w)"
      using JArr n False by (intro parse_elems_join) (auto simp: list_all_iff)
    ultimately show ?thesis using n c
      by (simp add: skip_ws_nonspace [of 91] is_ws_def [of 91] token_miss)
  qed
next
  case (JObj ps)
  then obtain m where n: "n = Suc m" by (cases n) auto
  have str: "json_str (JObj ps) = 123 # join_with [44] (map member_str ps) @ [125]"
    by (simp add: member_str_def [abs_def])
  show ?case
  proof (cases "ps = []")
    case True
    then show ?thesis using n by (simp add: skip_ws_nonspace is_ws_def token_hit)
  next
    case False
    then obtain p ps' where ps: "ps = p # ps'" by (cases ps) auto
    obtain r' where "join_with [44] (map member_str ps) = 34 # r'"
      using ps by (cases ps') (auto simp: member_str_def quote_def)
    moreover have "parse_members m (join_with [44] (map member_str ps) @ 125 # w) = Some (ps, w)"
    proof (rule parse_members_join [OF False])
      fix p n' w' assume p: "p \<in> set ps" "num_end w'" "n' \<ge> 2 * length (json_str (snd p))"
      then show "parse_value n' (json_str (snd p) @ w') = Some (snd p, w')"
        using JObj.IH [of p "snd p"] JObj.prems(1) by (simp add: list_all_iff prod_set_defs)
    qed (use JObj.prems n in \<open>simp add: str del: json_str.simps\<close>)
    ultimately show ?thesis using n JObj.prems(1) unfolding str
      by (simp add: skip_ws_nonspace [of 123] is_ws_def [of 123] is_ws_def [of 34] token_miss)
  qed
qed (rule parse_value_simple; (assumption | erule (1) fuel_pos | simp))+

lemma json_parse_str: "json_ok v \<Longrightarrow> json_parse (json_str v) = Some v"
  using parse_value_json_str [of v "[]" "2 * length (json_str v)"]
  by (simp add: json_parse_def num_end_def skip_ws_def)

section \<open>Objects of distinct names\<close>

lemma obj_put_new: "index_key k = None \<Longrightarrow> k \<notin> fst ` set r \<Longrightarrow> obj_put k v r = r @ [(k, v)]"
  by (simp add: obj_put_def) (induction r; auto)

text \<open>Properties that are no array indices stay in the order of their creation.\<close>

lemma obj_put_all:
  "distinct (map fst (acc @ ps)) \<Longrightarrow> list_all (\<lambda>p. index_key (fst p) = None) ps \<Longrightarrow>
   foldl (\<lambda>ob p. obj_put (fst p) (snd p) ob) acc ps = acc @ ps"
proof (induction ps arbitrary: acc)
  case (Cons p ps)
  have "obj_put (fst p) (snd p) acc = acc @ [p]" using Cons.prems by (auto simp: obj_put_new)
  then show ?case using Cons.IH [of "acc @ [p]"] Cons.prems by simp
qed simp

lemma json_ok_object:
  "distinct (map fst ps) \<Longrightarrow> list_all (\<lambda>p. index_key (fst p) = None \<and> json_ok (snd p)) ps \<Longrightarrow> json_ok (JObj ps)"
  using obj_put_all [of "[]" ps] by (simp add: list_all_iff)

end
