(* ===== verification/Binary_Frame.thy ===== *)
theory Binary_Frame
  imports Json
begin

text \<open>
  \<open>js/internal/binary-frame.js\<close>: the envelope of the messages between services, a JSON header and
  an optional binary body, both with their lengths in front, and the decoder that splits a stream
  of chunks into frames. Buffers are lists of bytes; every error of the source is a constructor of
  \<open>frame_error\<close>.
\<close>

section \<open>Operations\<close>

datatype frame_error = HeaderNotObject | LimitExceeded nat | FrameTooShort nat | BadMagic
  | HeaderTooLarge nat | LengthMismatch | BadJson

type_synonym frame = "json \<times> bytes option"

definition magic :: nat where "magic = 0x534b594a"
definition header_offset :: nat where "header_offset = 12"
definition max_header :: nat where "max_header = 64 * 1024"

text \<open>\<open>setUint32\<close> and \<open>getUint32\<close> of a big-endian view.\<close>

definition put_u32 :: "nat \<Rightarrow> bytes" where
  "put_u32 n = [to_byte (n div 16777216), to_byte (n div 65536), to_byte (n div 256), to_byte n]"

definition get_u32 :: "nat \<Rightarrow> bytes \<Rightarrow> nat" where
  "get_u32 off bs = ((unat (bs ! off) * 256 + unat (bs ! (off + 1))) * 256 +
     unat (bs ! (off + 2))) * 256 + unat (bs ! (off + 3))"

fun is_object :: "json \<Rightarrow> bool" where
  "is_object (JArr _) = True" | "is_object (JObj _) = True" | "is_object _ = False"

definition frame_encode :: "json \<Rightarrow> bytes option \<Rightarrow> frame_error + bytes" where
  "frame_encode header body =
     (if \<not> is_object header then Inl HeaderNotObject
      else let headerBytes = encode_utf8 (json_str header)
           in if length headerBytes > max_header then Inl (LimitExceeded (length headerBytes))
              else let bodyBytes = (case body of None \<Rightarrow> [] | Some b \<Rightarrow> b)
                   in Inr (put_u32 magic @ put_u32 (length headerBytes) @ put_u32 (length bodyBytes) @
                           headerBytes @ bodyBytes))"

definition frame_decode :: "bytes \<Rightarrow> frame_error + frame" where
  "frame_decode bs =
     (if length bs < header_offset then Inl (FrameTooShort (length bs))
      else if get_u32 0 bs \<noteq> magic then Inl BadMagic
      else let headerLength = get_u32 4 bs; bodyLength = get_u32 8 bs
           in if headerLength > max_header then Inl (HeaderTooLarge headerLength)
              else if header_offset + headerLength + bodyLength \<noteq> length bs then Inl LengthMismatch
              else case json_parse (decode_utf8 (jslice bs header_offset (header_offset + headerLength))) of
                     None \<Rightarrow> Inl BadJson
                   | Some header \<Rightarrow>
                       let bodyStart = header_offset + headerLength
                       in Inr (header, if bodyLength > 0
                                       then Some (jslice bs bodyStart (bodyStart + bodyLength)) else None))"

text \<open>The loop of \<open>FrameDecoder.push\<close>; it returns the buffer that is left, also when it throws.\<close>

function push_loop :: "bytes \<Rightarrow> frame list \<Rightarrow> bytes \<times> (frame_error + frame list)" where
  "push_loop buffer frames =
     (if length buffer < header_offset then (buffer, Inr frames)
      else if get_u32 0 buffer \<noteq> magic then (buffer, Inl BadMagic)
      else let headerLength = get_u32 4 buffer; bodyLength = get_u32 8 buffer
           in if headerLength > max_header then (buffer, Inl (HeaderTooLarge headerLength))
              else let headerEnd = header_offset + headerLength
                   in if length buffer < headerEnd then (buffer, Inr frames)
                      else let total = headerEnd + bodyLength
                           in if length buffer < total then (buffer, Inr frames)
                              else case frame_decode (take total buffer) of
                                     Inl e \<Rightarrow> (buffer, Inl e)
                                   | Inr f \<Rightarrow> push_loop (drop total buffer) (frames @ [f]))"
  by pat_completeness auto
termination
  by (relation "measure (\<lambda>(b, f). length b)") (auto simp: header_offset_def)

declare push_loop.simps [simp del]

text \<open>The field of a \<open>FrameDecoder\<close> is its \<open>buffer\<close>.\<close>

definition push :: "bytes \<Rightarrow> bytes \<Rightarrow> bytes \<times> (frame_error + frame list)" where
  "push buffer chunk = push_loop (buffer @ chunk) []"

section \<open>Round trip and chunking\<close>

lemma bytes_of_nat: "n = ((n div 16777216 * 256 + n div 65536 mod 256) * 256 + n div 256 mod 256) * 256 + n mod (256 :: nat)"
proof -
  have d: "n div 65536 = n div 256 div 256" "n div 16777216 = n div 256 div 256 div 256"
    by (simp_all add: div_mult2_eq [symmetric])
  show ?thesis unfolding d by simp
qed

lemma get_u32_put: "n < 4294967296 \<Longrightarrow> length p = off \<Longrightarrow> get_u32 off (p @ put_u32 n @ r) = n"
proof -
  assume n: "n < 4294967296" and p: "length p = off"
  have "n div 16777216 < 256" using n less_mult_imp_div_less [of n 256 16777216] by simp
  then show ?thesis using p bytes_of_nat [of n] by (simp add: get_u32_def put_u32_def nth_append)
qed

lemma get_u32_append: "off + 4 \<le> length a \<Longrightarrow> get_u32 off (a @ b) = get_u32 off a"
  by (simp add: get_u32_def nth_append)

lemma length_put_u32 [simp]: "length (put_u32 n) = 4"
  by (simp add: put_u32_def)

definition norm_body :: "bytes option \<Rightarrow> bytes option" where
  "norm_body body = (if body = Some [] then None else body)"

lemma frame_decode_encode:
  assumes "frame_encode header body = Inr f" "json_ok header" "case body of None \<Rightarrow> True | Some b \<Rightarrow> length b < 4294967296"
  shows "frame_decode f = Inr (header, norm_body body)"
proof -
  define h where "h = encode_utf8 (json_str header)"
  define b where "b = (case body of None \<Rightarrow> [] | Some b \<Rightarrow> b)"
  have f: "f = put_u32 magic @ put_u32 (length h) @ put_u32 (length b) @ h @ b" and l: "length h \<le> max_header"
    using assms(1) by (auto simp: frame_encode_def Let_def h_def b_def split: if_splits)
  have lb: "length b < 4294967296" using assms(3) by (auto simp: b_def split: option.splits)
  have g: "get_u32 0 f = magic" "get_u32 4 f = length h" "get_u32 8 f = length b"
    using get_u32_put [of magic "[]" 0] get_u32_put [of "length h" "put_u32 magic" 4]
      get_u32_put [of "length b" "put_u32 magic @ put_u32 (length h)" 8] l lb
    by (simp_all add: f magic_def max_header_def)
  have len: "length f = header_offset + length h + length b" by (simp add: f header_offset_def)
  have s: "jslice f header_offset (header_offset + length h) = h"
    "jslice f (header_offset + length h) (header_offset + length h + length b) = b"
    by (simp_all add: f jslice_def header_offset_def)
  have "json_parse (decode_utf8 h) = Some header"
    using assms(2) by (simp add: h_def decode_encode_utf8_all json_parse_str)
  then show ?thesis using g l len s
    by (auto simp: frame_decode_def Let_def norm_body_def b_def split: option.splits)
qed

definition parse1 :: "bytes \<Rightarrow> (frame_error + frame \<times> nat) option" where
  "parse1 buffer =
     (if length buffer < header_offset then None
      else if get_u32 0 buffer \<noteq> magic then Some (Inl BadMagic)
      else if get_u32 4 buffer > max_header then Some (Inl (HeaderTooLarge (get_u32 4 buffer)))
      else let total = header_offset + get_u32 4 buffer + get_u32 8 buffer
           in if length buffer < total then None
              else case frame_decode (take total buffer) of
                     Inl e \<Rightarrow> Some (Inl e) | Inr f \<Rightarrow> Some (Inr (f, total)))"

interpretation frames: splitter parse1 push_loop
proof unfold_locales
  fix b :: bytes and fs :: "frame list"
  show "push_loop b fs = (case parse1 b of None \<Rightarrow> (b, Inr fs) | Some (Inl e) \<Rightarrow> (b, Inl e)
      | Some (Inr (f, n)) \<Rightarrow> push_loop (drop n b) (fs @ [f]))"
    by (subst push_loop.simps) (simp add: parse1_def Let_def split: sum.split)
next
  fix b f n assume "parse1 b = Some (Inr (f, n))"
  then show "0 < n \<and> n \<le> length b"
    by (auto simp: parse1_def Let_def header_offset_def split: if_splits sum.splits)
next
  fix b p c assume p: "parse1 b = Some p"
  then have "12 \<le> length b" by (auto simp: parse1_def header_offset_def split: if_splits)
  then have "get_u32 0 (b @ c) = get_u32 0 b" "get_u32 4 (b @ c) = get_u32 4 b" "get_u32 8 (b @ c) = get_u32 8 b"
    by (simp_all add: get_u32_append)
  then show "parse1 (b @ c) = Some p" using p
    by (auto simp: parse1_def Let_def split: if_splits)
qed

text \<open>The decoder fed with encoded frames.\<close>

lemma push_loop_frame:
  assumes "frame_encode header body = Inr f" "json_ok header" "case body of None \<Rightarrow> True | Some b \<Rightarrow> length b < 4294967296"
  shows "push_loop (f @ r) fs = push_loop r (fs @ [(header, norm_body body)])"
proof -
  have d: "frame_decode f = Inr (header, norm_body body)" by (rule frame_decode_encode [OF assms])
  then have l: "header_offset \<le> length f" "get_u32 0 f = magic" "get_u32 4 f \<le> max_header"
    "header_offset + get_u32 4 f + get_u32 8 f = length f"
    by (auto simp: frame_decode_def Let_def not_less split: if_splits)
  then have "get_u32 0 (f @ r) = get_u32 0 f" "get_u32 4 (f @ r) = get_u32 4 f" "get_u32 8 (f @ r) = get_u32 8 f"
    by (simp_all add: get_u32_append header_offset_def)
  then show ?thesis using l d by (subst push_loop.simps) (simp add: Let_def)
qed

fun encodable :: "frame \<Rightarrow> bool" where
  "encodable (header, body) \<longleftrightarrow> json_ok header \<and> (case body of None \<Rightarrow> True | Some b \<Rightarrow> length b < 4294967296)"

lemma push_loop_frames:
  "list_all2 (\<lambda>p f. encodable p \<and> frame_encode (fst p) (snd p) = Inr f) ps fs \<Longrightarrow>
   push_loop (concat fs) acc = ([], Inr (acc @ map (\<lambda>p. (fst p, norm_body (snd p))) ps))"
proof (induction ps fs arbitrary: acc rule: list_all2_induct)
  case Nil
  then show ?case by (simp add: push_loop.simps header_offset_def)
next
  case (Cons p ps f fs)
  then show ?case using push_loop_frame [of "fst p" "snd p" f "concat fs" acc] by (cases p) auto
qed

text \<open>\<open>frameDecode\<close> undoes \<open>frameEncode\<close>: whatever header object (of integers, strings, booleans,
  null, arrays and objects) and body were encoded, they are read back; an empty body reads as none.\<close>

theorem frame_round_trip:
  assumes "frame_encode header body = Inr f" "encodable (header, body)"
  shows "frame_decode f = Inr (header, norm_body body)"
  using frame_decode_encode assms by simp

lemma frame_round_trip_witness:
  "\<exists>f. frame_encode (JObj [(js ''op'', JStr (js ''read'')), (js ''id'', JNum 7)]) (Some [1, 2]) = Inr f \<and>
     frame_decode f = Inr (JObj [(js ''op'', JStr (js ''read'')), (js ''id'', JNum 7)], Some [1, 2])"
proof -
  let ?h = "JObj [(js ''op'', JStr (js ''read'')), (js ''id'', JNum 7)]"
  have ok: "encodable (?h, Some [1, 2])"
    by (simp add: obj_put_def js_def index_key_def parse_int_def js_defs is_digit_of_def digit_value_def is_space_def)
  have "\<exists>f. frame_encode ?h (Some [1, 2]) = Inr f"
    by (simp add: frame_encode_def Let_def max_header_def js_def quote_def quote_unit_def is_high_def is_low_def
      int_str_def to_radix.simps digit_char_def to_unit_def encode_cp_def to_byte_def)
  then obtain f where f: "frame_encode ?h (Some [1, 2]) = Inr f" ..
  show ?thesis using frame_round_trip [OF f ok] f by (auto simp: norm_body_def)
qed

text \<open>C19. The boundaries of the chunks do not matter to a \<open>FrameDecoder\<close>: however the bytes of a
  sequence of encoded frames are cut into chunks, pushing them one by one returns exactly these
  frames, in order, and leaves the buffer empty.\<close>

theorem decoder_chunking:
  assumes "list_all2 (\<lambda>p f. encodable p \<and> frame_encode (fst p) (snd p) = Inr f) ps fs"
    and "concat chunks = concat fs"
  shows "feed push [] chunks = ([], Inr (map (\<lambda>p. (fst p, norm_body (snd p))) ps))"
proof -
  have "push_loop [] [] = ([], Inr [])" by (simp add: push_loop.simps header_offset_def)
  then show ?thesis
    using frames.feed_concat [of "[]" chunks] push_loop_frames [OF assms(1), of "[]"] assms(2)
    by (simp add: push_def [abs_def])
qed

lemma decoder_chunking_witness:
  "feed push [] [[0x53, 0x4b, 0x59], [0x4a, 0, 0, 0, 2, 0, 0, 0, 1, 0x7b], [], [0x7d, 9]] = ([], Inr [(JObj [], Some [9])])"
proof -
  have "list_all2 (\<lambda>p f. encodable p \<and> frame_encode (fst p) (snd p) = Inr f) [(JObj [], Some [9])]
     [[0x53, 0x4b, 0x59, 0x4a, 0, 0, 0, 2, 0, 0, 0, 1, 0x7b, 0x7d, 9]]"
    by (simp add: frame_encode_def Let_def max_header_def put_u32_def magic_def encode_cp_def to_byte_def is_high_def)
  from decoder_chunking [OF this, of "[[0x53, 0x4b, 0x59], [0x4a, 0, 0, 0, 2, 0, 0, 0, 1, 0x7b], [], [0x7d, 9]]"]
  show ?thesis by (simp add: norm_body_def)
qed

end
