(* ===== verification/Net_Core.thy ===== *)
theory Net_Core
  imports Text_Codec
begin

text \<open>
  \<open>js/internal/net-core.js\<close>: the table of socket callbacks and their dispatch, the promise of
  \<open>connectAsync\<close>, and \<open>BufferedReader\<close>, which turns the chunks a socket delivers into exact
  reads and lines. Callbacks are numbers; what is called, and with what, is a value of \<open>call\<close>. The
  C sockets answer through the arguments of the operations.
\<close>

section \<open>Socket callbacks\<close>

record sock_handler =
  onAccept :: "nat option"
  onConnect :: "nat option"
  onData :: "nat option"
  onClose :: "nat option"
  onError :: "nat option"
  binary :: bool

definition no_handler :: sock_handler where
  "no_handler = \<lparr>onAccept = None, onConnect = None, onData = None, onClose = None, onError = None,
     binary = False\<rparr>"

type_synonym handlers = "nat \<Rightarrow> sock_handler option"

text \<open>The events of the C layer. Their \<open>data\<close> is bytes for \<open>DATA\<close> and text otherwise.\<close>

datatype sock_event =
    EvData nat bytes nat  \<comment> \<open>id, data, ud\<close>
  | EvConnect nat jsstr
  | EvClose nat
  | EvAccept nat nat jsstr  \<comment> \<open>listener, new id, address\<close>
  | EvError nat jsstr

datatype payload = Raw bytes | Text jsstr

datatype call = CallData nat payload nat | CallConnect nat nat | CallAccept nat nat jsstr
  | CallClose nat nat | CallError nat nat jsstr

fun event_id :: "sock_event \<Rightarrow> nat" where
  "event_id (EvData i _ _) = i" | "event_id (EvConnect i _) = i" | "event_id (EvClose i) = i"
| "event_id (EvAccept i _ _) = i" | "event_id (EvError i _) = i"

definition status_texts :: "jsstr list" where
  "status_texts = map js [''transfer'', ''start'', ''binding'']"

text \<open>\<open>decode\<close> is \<open>skynetcore.seri.str\<close>, the C layer's conversion of bytes to a string.\<close>

definition dispatch_event :: "(bytes \<Rightarrow> jsstr) \<Rightarrow> sock_event \<Rightarrow> handlers \<Rightarrow> handlers \<times> call list" where
  "dispatch_event decode m hs =
     (case hs (event_id m) of
        None \<Rightarrow> (hs, [])
      | Some h \<Rightarrow>
          (case m of
             EvData i d ud \<Rightarrow> (hs, case onData h of None \<Rightarrow> []
               | Some f \<Rightarrow> [CallData f (if binary h then Raw d else Text (decode d)) ud])
           | EvConnect i d \<Rightarrow>
               if d \<in> set status_texts then (hs, [])
               else (hs, case onConnect h of None \<Rightarrow> [] | Some f \<Rightarrow> [CallConnect f i])
           | EvAccept i n d \<Rightarrow> (hs, case onAccept h of None \<Rightarrow> [] | Some f \<Rightarrow> [CallAccept f n d])
           | EvClose i \<Rightarrow> (hs(i := None), case onClose h of None \<Rightarrow> [] | Some f \<Rightarrow> [CallClose f i])
           | EvError i d \<Rightarrow> (hs(i := None), case onError h of None \<Rightarrow> [] | Some f \<Rightarrow> [CallError f i d])))"

text \<open>
  \<open>listen\<close>, \<open>connect\<close>, \<open>start\<close> and \<open>close\<close>; \<open>r\<close> is the id the C layer returned, negative when it
  failed.
\<close>

definition sock_listen :: "int \<Rightarrow> nat option \<Rightarrow> handlers \<Rightarrow> handlers" where
  "sock_listen r f hs = (if r \<ge> 0 then hs(nat r \<mapsto> no_handler\<lparr>onAccept := f\<rparr>) else hs)"

definition sock_connect :: "int \<Rightarrow> nat option \<Rightarrow> handlers \<Rightarrow> handlers" where
  "sock_connect r f hs = (if r \<ge> 0 then hs(nat r \<mapsto> no_handler\<lparr>onConnect := f\<rparr>) else hs)"

definition sock_start :: "nat \<Rightarrow> nat option \<Rightarrow> nat option \<Rightarrow> nat option \<Rightarrow> bool \<Rightarrow> handlers \<Rightarrow> handlers" where
  "sock_start i data close err bin hs =
     (let h = (case hs i of None \<Rightarrow> no_handler | Some h \<Rightarrow> h)
      in hs(i \<mapsto> h\<lparr>onData := data, onClose := close, onError := err, binary := bin\<rparr>))"

definition sock_close :: "nat \<Rightarrow> handlers \<Rightarrow> handlers" where
  "sock_close i hs = hs(i := None)"

section \<open>connectAsync\<close>

text \<open>
  The promise of \<open>connectAsync(host, port, timeout)\<close> once the C layer has returned a socket: the
  four closures share the variable \<open>settled\<close>. The second component is what the promise settles
  with, the third whether the socket is closed.
\<close>

datatype connect_event = Connected nat | ConnClosed | ConnFailed | ConnTimeout

datatype connect_result = Resolved nat | Rejected

definition connect_start :: "int \<Rightarrow> bool \<times> connect_result option" where
  "connect_start fd = (if fd < 0 then (True, Some Rejected) else (False, None))"

definition connect_step :: "connect_event \<Rightarrow> bool \<Rightarrow> bool \<times> connect_result option \<times> bool" where
  "connect_step e settled =
     (if settled then (True, None, False)
      else case e of
        Connected i \<Rightarrow> (True, Some (Resolved i), False)
      | ConnClosed \<Rightarrow> (True, Some Rejected, False)
      | ConnFailed \<Rightarrow> (True, Some Rejected, False)
      | ConnTimeout \<Rightarrow> (True, Some Rejected, True))"

section \<open>BufferedReader\<close>

datatype want = WantBytes nat | WantLine

record reader =
  chunks :: "bytes list"
  total :: nat
  pending :: "want option"
  closed :: bool
  errorMsg :: "jsstr option"

definition new_reader :: reader where
  "new_reader = \<lparr>chunks = [], total = 0, pending = None, closed = False, errorMsg = None\<rparr>"

text \<open>What a promise of the reader settles with, and what a call of \<open>read\<close> answers.\<close>

datatype outcome = Bytes bytes | Line jsstr | SocketError

datatype answer = Settled outcome | Waits | ConcurrentRead

text \<open>
  The loop of \<open>_consume\<close>; with too few bytes the source reads \<open>byteLength\<close> of \<open>undefined\<close> and
  throws (\<open>None\<close>).
\<close>

fun consume_loop :: "bytes list \<Rightarrow> nat \<Rightarrow> bytes \<Rightarrow> (bytes \<times> bytes list) option" where
  "consume_loop cs 0 out = Some (out, cs)"
| "consume_loop [] (Suc n) out = None"
| "consume_loop (c # cs) (Suc n) out =
     (if length c \<le> Suc n then consume_loop cs (Suc n - length c) (out @ c)
      else Some (out @ take (Suc n) c, drop (Suc n) c # cs))"

definition consume :: "nat \<Rightarrow> reader \<Rightarrow> (bytes \<times> reader) option" where
  "consume n r =
     (if n = 0 then Some ([], r)
      else if chunks r \<noteq> [] \<and> length (hd (chunks r)) = n
      then Some (hd (chunks r), r\<lparr>chunks := tl (chunks r), total := total r - n\<rparr>)
      else map_option (\<lambda>(out, cs). (out, r\<lparr>chunks := cs, total := total r - n\<rparr>))
             (consume_loop (chunks r) n []))"

text \<open>\<open>scanCrlf\<close>: position \<open>j\<close> in the chunk, which starts at \<open>offset\<close>, and the byte before.\<close>

fun scan_chunk :: "bytes \<Rightarrow> nat \<Rightarrow> nat \<Rightarrow> byte option \<Rightarrow> nat + byte option" where
  "scan_chunk [] offset j prev = Inr prev"
| "scan_chunk (b # bs) offset j prev =
     (if prev = Some 0x0d \<and> b = 0x0a then Inl (offset + j - 1)
      else scan_chunk bs offset (j + 1) (Some b))"

fun scan_chunks :: "bytes list \<Rightarrow> nat \<Rightarrow> byte option \<Rightarrow> nat option" where
  "scan_chunks [] offset prev = None"
| "scan_chunks (c # cs) offset prev =
     (case scan_chunk c offset 0 prev of
        Inl pos \<Rightarrow> Some pos
      | Inr prev' \<Rightarrow> scan_chunks cs (offset + length c) prev')"

definition scan_crlf :: "reader \<Rightarrow> nat option" where
  "scan_crlf r = scan_chunks (chunks r) 0 None"

text \<open>Taking the line that ends at \<open>pos\<close>: the bytes before it are decoded, the CRLF is dropped.\<close>

definition take_line :: "nat \<Rightarrow> reader \<Rightarrow> (jsstr \<times> reader) option" where
  "take_line pos r = map_option (\<lambda>(buf, r'). (decode_utf8 (take pos buf), r')) (consume (pos + 2) r)"

definition try_resolve :: "reader \<Rightarrow> (reader \<times> outcome option) option" where
  "try_resolve r =
     (case pending r of
        None \<Rightarrow> Some (r, None)
      | Some WantLine \<Rightarrow>
          (case scan_crlf r of
             None \<Rightarrow> Some (r, None)
           | Some pos \<Rightarrow> map_option (\<lambda>(line, r'). (r', Some (Line line))) (take_line pos (r\<lparr>pending := None\<rparr>)))
      | Some (WantBytes n) \<Rightarrow>
          if total r \<ge> n
          then map_option (\<lambda>(buf, r'). (r', Some (Bytes buf))) (consume n (r\<lparr>pending := None\<rparr>))
          else Some (r, None))"

definition on_data :: "bytes \<Rightarrow> reader \<Rightarrow> (reader \<times> outcome option) option" where
  "on_data data r =
     (if data = [] then Some (r, None)
      else try_resolve (r\<lparr>chunks := chunks r @ [data], total := total r + length data\<rparr>))"

definition on_close :: "reader \<Rightarrow> reader \<times> outcome option" where
  "on_close r =
     (let r' = r\<lparr>closed := True\<rparr>
      in case pending r of None \<Rightarrow> (r', None) | Some _ \<Rightarrow> (r'\<lparr>pending := None\<rparr>, Some SocketError))"

definition on_error :: "jsstr \<Rightarrow> reader \<Rightarrow> reader \<times> outcome option" where
  "on_error msg r = on_close (r\<lparr>errorMsg := Some msg\<rparr>)"

definition read_bytes :: "int \<Rightarrow> reader \<Rightarrow> (reader \<times> answer) option" where
  "read_bytes n r =
     (if pending r \<noteq> None then Some (r, ConcurrentRead)
      else if n \<le> 0 then Some (r, Settled (Bytes []))
      else if int (total r) \<ge> n then map_option (\<lambda>(buf, r'). (r', Settled (Bytes buf))) (consume (nat n) r)
      else if closed r then Some (r, Settled SocketError)
      else Some (r\<lparr>pending := Some (WantBytes (nat n))\<rparr>, Waits))"

definition readline :: "reader \<Rightarrow> (reader \<times> answer) option" where
  "readline r =
     (if pending r \<noteq> None then Some (r, ConcurrentRead)
      else case scan_crlf r of
        Some pos \<Rightarrow> map_option (\<lambda>(line, r'). (r', Settled (Line line))) (take_line pos r)
      | None \<Rightarrow> if closed r then Some (r, Settled SocketError)
                else Some (r\<lparr>pending := Some WantLine\<rparr>, Waits))"

text \<open>
  The operations in one type, for sequences of them: the answer of a read, and what a read that
  was waiting settles with.
\<close>

datatype reader_op = OpData bytes | OpClose | OpError jsstr | OpRead int | OpReadline

definition reader_step :: "reader \<Rightarrow> reader_op \<Rightarrow> (reader \<times> answer option \<times> outcome option) option" where
  "reader_step r a =
     (case a of
        OpData d \<Rightarrow> map_option (\<lambda>(r', out). (r', None, out)) (on_data d r)
      | OpClose \<Rightarrow> (let (r', out) = on_close r in Some (r', None, out))
      | OpError m \<Rightarrow> (let (r', out) = on_error m r in Some (r', None, out))
      | OpRead n \<Rightarrow> map_option (\<lambda>(r', ans). (r', Some ans, None)) (read_bytes n r)
      | OpReadline \<Rightarrow> map_option (\<lambda>(r', ans). (r', Some ans, None)) (readline r))"

lemma decode_a: "decode_utf8 [0x61] = [0x61]"
  by (simp add: codec_eval)

section \<open>The reader as a stream of bytes\<close>

text \<open>
  What the reader promises: a queue of bytes, at most one read that waits, and the end of the
  stream. The chunks, the running total and the scan over chunk boundaries are gone.
\<close>

record byte_stream =
  buf :: bytes
  waiting :: "want option"
  ended :: bool

fun satisfy :: "want \<Rightarrow> bytes \<Rightarrow> (outcome \<times> bytes) option" where
  "satisfy (WantBytes n) b = (if n \<le> length b then Some (Bytes (take n b), drop n b) else None)"
| "satisfy WantLine b =
     (case index_of b [0x0d, 0x0a] of None \<Rightarrow> None
      | Some p \<Rightarrow> Some (Line (decode_utf8 (take p b)), drop (p + 2) b))"

definition deliver :: "byte_stream \<Rightarrow> byte_stream \<times> outcome option" where
  "deliver s = (case waiting s of None \<Rightarrow> (s, None)
     | Some w \<Rightarrow> (case satisfy w (buf s) of None \<Rightarrow> (s, None)
         | Some (x, b) \<Rightarrow> (s\<lparr>buf := b, waiting := None\<rparr>, Some x)))"

definition stream_end :: "byte_stream \<Rightarrow> byte_stream \<times> outcome option" where
  "stream_end s = (s\<lparr>ended := True, waiting := None\<rparr>, if waiting s = None then None else Some SocketError)"

definition request :: "want \<Rightarrow> byte_stream \<Rightarrow> byte_stream \<times> answer" where
  "request w s =
     (if waiting s \<noteq> None then (s, ConcurrentRead)
      else case satisfy w (buf s) of
        Some (x, b) \<Rightarrow> (s\<lparr>buf := b\<rparr>, Settled x)
      | None \<Rightarrow> if ended s then (s, Settled SocketError) else (s\<lparr>waiting := Some w\<rparr>, Waits))"

definition stream_step :: "byte_stream \<Rightarrow> reader_op \<Rightarrow> byte_stream \<times> answer option \<times> outcome option" where
  "stream_step s a =
     (case a of
        OpData d \<Rightarrow> (let (t, x) = deliver (s\<lparr>buf := buf s @ d\<rparr>) in (t, None, x))
      | OpClose \<Rightarrow> (let (t, x) = stream_end s in (t, None, x))
      | OpError m \<Rightarrow> (let (t, x) = stream_end s in (t, None, x))
      | OpRead n \<Rightarrow> (let (t, x) = request (WantBytes (nat n)) s in (t, Some x, None))
      | OpReadline \<Rightarrow> (let (t, x) = request WantLine s in (t, Some x, None)))"

definition stream_of :: "reader \<Rightarrow> byte_stream" where
  "stream_of r = \<lparr>buf = concat (chunks r), waiting = pending r, ended = closed r\<rparr>"

definition reader_ok :: "reader \<Rightarrow> bool" where
  "reader_ok r \<longleftrightarrow> total r = length (concat (chunks r)) \<and>
     (\<forall>w. pending r = Some w \<longrightarrow> satisfy w (concat (chunks r)) = None)"

lemma consume_loop_eq:
  "n \<le> length (concat cs) \<Longrightarrow>
   \<exists>cs'. consume_loop cs n out = Some (out @ take n (concat cs), cs') \<and> concat cs' = drop n (concat cs)"
proof (induction cs n out rule: consume_loop.induct)
  case (3 c cs n out)
  show ?case
  proof (cases "length c \<le> Suc n")
    case True
    then show ?thesis using 3 by fastforce
  next
    case False
    then show ?thesis by simp
  qed
qed auto

lemma consume_loop_pos:
  "0 < n \<Longrightarrow> consume_loop (c # cs) n out =
     (if length c \<le> n then consume_loop cs (n - length c) (out @ c) else Some (out @ take n c, drop n c # cs))"
  by (cases n) auto

lemma consume_eq:
  assumes "n \<le> length (concat (chunks r))"
  shows "\<exists>cs'. consume n r = Some (take n (concat (chunks r)), r\<lparr>chunks := cs', total := total r - n\<rparr>) \<and>
    concat cs' = drop n (concat (chunks r))"
proof -
  consider "n = 0" | "n \<noteq> 0" "chunks r \<noteq> []" "length (hd (chunks r)) = n"
    | "n \<noteq> 0" "\<not> (chunks r \<noteq> [] \<and> length (hd (chunks r)) = n)" by blast
  then show ?thesis
  proof cases
    case 1
    then show ?thesis by (intro exI [of _ "chunks r"]) (simp add: consume_def)
  next
    case 2
    then show ?thesis by (cases "chunks r") (auto simp: consume_def)
  next
    case 3
    then show ?thesis using consume_loop_eq [OF assms, of "[]"] by (auto simp: consume_def)
  qed
qed

fun crlf_from :: "bytes \<Rightarrow> nat \<Rightarrow> byte option \<Rightarrow> nat option" where
  "crlf_from [] k prev = None"
| "crlf_from (b # bs) k prev =
     (if prev = Some 0x0d \<and> b = 0x0a then Some (k - 1) else crlf_from bs (k + 1) (Some b))"

lemma scan_chunk_from:
  "(case scan_chunk bs offset j prev of Inl p \<Rightarrow> Some p
      | Inr prev' \<Rightarrow> crlf_from rest (offset + j + length bs) prev') = crlf_from (bs @ rest) (offset + j) prev"
  by (induction bs offset j prev rule: scan_chunk.induct) (auto split: sum.split)

lemma scan_chunks_from: "scan_chunks cs offset prev = crlf_from (concat cs) offset prev"
proof (induction cs offset prev rule: scan_chunks.induct)
  case (2 c cs offset prev)
  then show ?case using scan_chunk_from [where bs = c and offset = offset and j = 0 and prev = prev and rest = "concat cs"]
    by (auto split: sum.splits)
qed simp

lemma crlf_from_index: "crlf_from bs (Suc k) (Some b) = map_option (\<lambda>i. i + k) (index_of (b # bs) [0x0d, 0x0a])"
proof (induction bs arbitrary: k b)
  case (Cons c bs)
  then show ?case by (auto simp: starts_with_def option.map_comp comp_def)
qed (simp add: starts_with_def)

lemma scan_crlf_index: "scan_crlf r = index_of (concat (chunks r)) [0x0d, 0x0a]"
proof (cases "concat (chunks r)")
  case (Cons b bs)
  then show ?thesis unfolding scan_crlf_def scan_chunks_from
    using crlf_from_index [of bs 0 b] by (simp add: option.map_ident del: index_of.simps)
next
  case Nil
  show ?thesis unfolding scan_crlf_def scan_chunks_from Nil by simp
qed

lemma index_of_bound: "index_of s p = Some i \<Longrightarrow> i + length p \<le> length s"
proof (induction s arbitrary: i)
  case (Cons x s)
  then show ?case
    by (auto simp: starts_with_def split: if_splits) (metis length_take min.cobounded1 length_Cons)
qed (auto split: if_splits)

lemma index_of_append: "index_of s p = Some i \<Longrightarrow> index_of (s @ t) p = Some i"
proof (induction s arbitrary: i)
  case (Cons x s)
  have "length p \<le> length (x # s)" using index_of_bound [OF Cons.prems] by simp
  then have "take (length p) ((x # s) @ t) = take (length p) (x # s)"
    unfolding take_append by simp
  then have "starts_with (x # s @ t) p = starts_with (x # s) p" by (simp add: starts_with_def)
  then show ?case using Cons by (auto split: if_splits)
next
  case Nil
  then show ?case by (cases t) (auto split: if_splits)
qed

lemma satisfy_append: "satisfy w b = Some (x, b') \<Longrightarrow> satisfy w (b @ c) = Some (x, b' @ c)"
  by (cases w) (auto simp: index_of_append dest: index_of_bound split: option.splits if_splits)

lemma take_line_eq:
  assumes "index_of (concat (chunks r)) [0x0d, 0x0a] = Some p"
  shows "\<exists>cs'. take_line p r = Some (decode_utf8 (take p (concat (chunks r))), r\<lparr>chunks := cs', total := total r - (p + 2)\<rparr>) \<and>
    concat cs' = drop (p + 2) (concat (chunks r))"
  using consume_eq [of "p + 2" r] index_of_bound [OF assms] by (auto simp: take_line_def)

text \<open>Serving a request on the chunks is serving it on the bytes.\<close>

lemma try_resolve_sim:
  assumes "total r = length (concat (chunks r))"
  shows "\<exists>t x. try_resolve r = Some (t, x) \<and> reader_ok t \<and> deliver (stream_of r) = (stream_of t, x)"
proof (cases "pending r")
  case None
  then show ?thesis using assms by (simp add: try_resolve_def deliver_def stream_of_def reader_ok_def)
next
  case (Some w)
  show ?thesis
  proof (cases w)
    case (WantBytes n)
    show ?thesis
    proof (cases "n \<le> total r")
      case True
      then show ?thesis using assms Some WantBytes consume_eq [of n "r\<lparr>pending := None\<rparr>"]
        by (auto simp: try_resolve_def deliver_def stream_of_def reader_ok_def)
    next
      case False
      then show ?thesis using assms Some WantBytes
        by (auto simp: try_resolve_def deliver_def stream_of_def reader_ok_def)
    qed
  next
    case WantLine
    show ?thesis
    proof (cases "index_of (concat (chunks r)) [0x0d, 0x0a]")
      case None
      then show ?thesis using assms Some WantLine
        by (auto simp: try_resolve_def deliver_def stream_of_def reader_ok_def scan_crlf_index)
    next
      case (Some p)
      then show ?thesis using assms \<open>pending r = Some w\<close> WantLine take_line_eq [of "r\<lparr>pending := None\<rparr>" p]
        by (auto simp: try_resolve_def deliver_def stream_of_def reader_ok_def scan_crlf_index)
    qed
  qed
qed

lemma on_data_sim:
  assumes "reader_ok r"
  shows "\<exists>t x. on_data d r = Some (t, x) \<and> reader_ok t \<and>
    deliver ((stream_of r)\<lparr>buf := buf (stream_of r) @ d\<rparr>) = (stream_of t, x)"
proof (cases "d = []")
  case True
  then show ?thesis using assms
    by (auto simp: on_data_def deliver_def stream_of_def reader_ok_def split: option.split)
next
  case False
  let ?r = "r\<lparr>chunks := chunks r @ [d], total := total r + length d\<rparr>"
  have "stream_of ?r = (stream_of r)\<lparr>buf := buf (stream_of r) @ d\<rparr>" by (simp add: stream_of_def)
  moreover have "total ?r = length (concat (chunks ?r))" using assms by (simp add: reader_ok_def)
  ultimately show ?thesis using try_resolve_sim [of ?r] False by (simp add: on_data_def)
qed

lemma on_close_sim:
  "reader_ok r \<Longrightarrow> reader_ok (fst (on_close r)) \<and> stream_end (stream_of r) = (stream_of (fst (on_close r)), snd (on_close r))"
  by (cases "pending r") (auto simp: on_close_def stream_end_def stream_of_def reader_ok_def Let_def)

lemma read_bytes_sim:
  assumes "reader_ok r"
  shows "\<exists>t x. read_bytes n r = Some (t, x) \<and> reader_ok t \<and> request (WantBytes (nat n)) (stream_of r) = (stream_of t, x)"
proof (cases "pending r = None \<and> n > 0 \<and> int (total r) \<ge> n")
  case True
  then show ?thesis using assms consume_eq [of "nat n" r]
    by (auto simp: read_bytes_def request_def stream_of_def reader_ok_def)
next
  case False
  then show ?thesis using assms
    by (auto simp: read_bytes_def request_def stream_of_def reader_ok_def)
qed

lemma readline_sim:
  assumes "reader_ok r"
  shows "\<exists>t x. readline r = Some (t, x) \<and> reader_ok t \<and> request WantLine (stream_of r) = (stream_of t, x)"
proof (cases "index_of (concat (chunks r)) [0x0d, 0x0a]")
  case None
  then show ?thesis using assms
    by (auto simp: readline_def request_def stream_of_def reader_ok_def scan_crlf_index)
next
  case (Some p)
  then show ?thesis using assms take_line_eq [OF Some]
    by (auto simp: readline_def request_def stream_of_def reader_ok_def scan_crlf_index)
qed

lemma reader_sim:
  assumes "reader_ok r"
  shows "\<exists>t x. reader_step r a = Some (t, x) \<and> reader_ok t \<and> stream_step (stream_of r) a = (stream_of t, x)"
proof (cases a)
  case (OpData d)
  then show ?thesis using on_data_sim [OF assms, of d] by (auto simp: reader_step_def stream_step_def)
next
  case OpClose
  then show ?thesis using on_close_sim [OF assms] by (auto simp: reader_step_def stream_step_def split: prod.splits)
next
  case (OpError m)
  have "reader_ok (r\<lparr>errorMsg := Some m\<rparr>)" "stream_of (r\<lparr>errorMsg := Some m\<rparr>) = stream_of r"
    using assms by (simp_all add: reader_ok_def stream_of_def)
  then show ?thesis using on_close_sim [of "r\<lparr>errorMsg := Some m\<rparr>"] OpError
    by (auto simp: reader_step_def stream_step_def on_error_def split: prod.splits)
next
  case (OpRead n)
  then show ?thesis using read_bytes_sim [OF assms, of n] by (auto simp: reader_step_def stream_step_def)
next
  case OpReadline
  then show ?thesis using readline_sim [OF assms] by (auto simp: reader_step_def stream_step_def)
qed

interpretation reader: refinement reader_step stream_step stream_of reader_ok
  by unfold_locales (rule reader_sim)

text \<open>C8. A \<open>BufferedReader\<close> is a queue of bytes: whatever sequence of chunks, reads, lines, close
  and error it sees, it never throws a \<open>TypeError\<close>, and every answer and every late settlement is
  the one that the plain byte stream gives, with reads of exactly the bytes asked for and lines that
  end at the first CRLF, whether or not it lies across two chunks.\<close>

theorem reader_refines_stream:
  "\<exists>r xs. run_concrete reader_step new_reader ops = Some (r, xs) \<and>
     run_abstract stream_step \<lparr>buf = [], waiting = None, ended = False\<rparr> ops = (stream_of r, xs)"
proof -
  have "reader_ok new_reader" "stream_of new_reader = \<lparr>buf = [], waiting = None, ended = False\<rparr>"
    by (simp_all add: new_reader_def reader_ok_def stream_of_def)
  then show ?thesis using reader.run_sim [of new_reader ops] by auto
qed

lemma deliver_twice:
  assumes "deliver s = (t, x)" "deliver (t\<lparr>buf := buf t @ d\<rparr>) = (u, y)"
  shows "\<exists>z. deliver (s\<lparr>buf := buf s @ d\<rparr>) = (u, z) \<and> [v \<leftarrow> [x, y]. v \<noteq> None] = [v \<leftarrow> [z]. v \<noteq> None]"
proof (cases "waiting s")
  case None
  then show ?thesis using assms by (auto simp: deliver_def)
next
  case (Some w)
  show ?thesis
  proof (cases "satisfy w (buf s)")
    case None
    then show ?thesis using assms Some by (auto simp: deliver_def split: option.splits)
  next
    case (Some p)
    obtain v b where p: "satisfy w (buf s) = Some (v, b)" using Some by (cases p) auto
    then show ?thesis using assms \<open>waiting s = Some w\<close> satisfy_append [OF p]
      by (auto simp: deliver_def)
  qed
qed

text \<open>How the network cuts the data does not matter: two chunks in a row leave the reader with
  the same bytes, the same waiting read and the same settlement as their concatenation in one
  chunk.\<close>

theorem reader_chunking:
  assumes "reader_ok r" "on_data a r = Some (s, x)" "on_data b s = Some (t, y)" "on_data (a @ b) r = Some (u, z)"
  shows "stream_of u = stream_of t \<and> [v \<leftarrow> [x, y]. v \<noteq> None] = [v \<leftarrow> [z]. v \<noteq> None]"
proof -
  have 1: "deliver ((stream_of r)\<lparr>buf := buf (stream_of r) @ a\<rparr>) = (stream_of s, x)" "reader_ok s"
    using on_data_sim [OF assms(1), of a] assms(2) by auto
  have 2: "deliver ((stream_of s)\<lparr>buf := buf (stream_of s) @ b\<rparr>) = (stream_of t, y)"
    using on_data_sim [OF 1(2), of b] assms(3) by auto
  have 3: "deliver ((stream_of r)\<lparr>buf := buf (stream_of r) @ a @ b\<rparr>) = (stream_of u, z)"
    using on_data_sim [OF assms(1), of "a @ b"] assms(4) by auto
  show ?thesis using deliver_twice [OF 1(1) 2] 3 by auto
qed

definition waiting_reader :: reader where
  "waiting_reader = new_reader\<lparr>pending := Some WantLine\<rparr>"

lemma reader_chunking_witness:
  "\<exists>s t u. on_data [0x61, 0x0d] waiting_reader = Some (s, None) \<and>
     on_data [0x0a, 0x62] s = Some (t, Some (Line [0x61])) \<and>
     on_data ([0x61, 0x0d] @ [0x0a, 0x62]) waiting_reader = Some (u, Some (Line [0x61])) \<and> stream_of u = stream_of t"
proof -
  let ?s = "new_reader\<lparr>chunks := [[0x61, 0x0d]], total := 2, pending := Some WantLine\<rparr>"
  let ?t = "new_reader\<lparr>chunks := [[0x62]], total := 1\<rparr>"
  have ok: "reader_ok waiting_reader" by (simp add: reader_ok_def new_reader_def waiting_reader_def)
  note eval = on_data_def try_resolve_def new_reader_def waiting_reader_def scan_crlf_def take_line_def consume_def
    consume_loop_pos
  note d = decode_a
  have 1: "on_data [0x61, 0x0d] waiting_reader = Some (?s, None)" by (simp add: eval)
  have 2: "on_data [0x0a, 0x62] ?s = Some (?t, Some (Line [0x61]))" by (simp add: eval d del: decode_utf8.simps)
  have 3: "on_data ([0x61, 0x0d] @ [0x0a, 0x62]) waiting_reader = Some (?t, Some (Line [0x61]))" by (simp add: eval d del: decode_utf8.simps)
  show ?thesis using reader_chunking [OF ok 1 2 3] 1 2 3 by blast
qed

section \<open>Socket callbacks after the end\<close>

text \<open>The operations on the table of handlers, and the events that come in between.\<close>

datatype sock_op = SockEvent sock_event | SockListen int "nat option" | SockConnect int "nat option"
  | SockStart nat "nat option" "nat option" "nat option" bool | SockClose nat

definition sock_step :: "(bytes \<Rightarrow> jsstr) \<Rightarrow> handlers \<Rightarrow> sock_op \<Rightarrow> handlers \<times> call list" where
  "sock_step decode hs a =
     (case a of
        SockEvent m \<Rightarrow> dispatch_event decode m hs
      | SockListen r f \<Rightarrow> (sock_listen r f hs, [])
      | SockConnect r f \<Rightarrow> (sock_connect r f hs, [])
      | SockStart i data close err bin \<Rightarrow> (sock_start i data close err bin hs, [])
      | SockClose i \<Rightarrow> (sock_close i hs, []))"

definition registers :: "nat \<Rightarrow> sock_op \<Rightarrow> bool" where
  "registers i a =
     (case a of SockListen r _ \<Rightarrow> r = int i | SockConnect r _ \<Rightarrow> r = int i | SockStart j _ _ _ _ \<Rightarrow> j = i | _ \<Rightarrow> False)"

text \<open>The calls that an event of socket \<open>i\<close> caused, in a run.\<close>

fun calls_for :: "nat \<Rightarrow> sock_op list \<Rightarrow> call list list \<Rightarrow> call list" where
  "calls_for i (SockEvent m # as) (cs # css) = (if event_id m = i then cs else []) @ calls_for i as css"
| "calls_for i (_ # as) (cs # css) = calls_for i as css"
| "calls_for i _ _ = []"

lemma sock_step_quiet:
  assumes "hs i = None" "\<not> registers i a"
  shows "fst (sock_step decode hs a) i = None" "calls_for i [a] [snd (sock_step decode hs a)] = []"
  using assms
  by (auto simp: sock_step_def registers_def dispatch_event_def sock_listen_def sock_connect_def sock_start_def
      sock_close_def Let_def split: sock_op.splits sock_event.splits option.splits if_splits)

lemma run_quiet:
  "hs i = None \<Longrightarrow> \<not> list_ex (registers i) ops \<Longrightarrow>
   calls_for i ops (snd (run_abstract (sock_step decode) hs ops)) = []"
proof (induction ops arbitrary: hs)
  case (Cons a ops)
  obtain hs' cs where s: "sock_step decode hs a = (hs', cs)" by fastforce
  have q: "hs' i = None" "calls_for i [a] [cs] = []"
    using sock_step_quiet [where hs = hs and i = i and a = a and decode = decode] Cons.prems s by simp_all
  obtain h css where r: "run_abstract (sock_step decode) hs' ops = (h, css)" by fastforce
  have "calls_for i ops css = []" using Cons.IH [of hs'] q(1) Cons.prems(2) r by simp
  then show ?case using s r q(2) by (cases a) auto
qed simp

text \<open>No callback after the end: once the close or error event of a socket has been dispatched,
  or the program has closed it, no event of that socket reaches a callback any more, until the
  program registers it again.\<close>

theorem no_call_after_close:
  assumes "a \<in> {SockEvent (EvClose i), SockEvent (EvError i msg), SockClose i}"
    and "\<not> list_ex (registers i) ops"
  shows "calls_for i ops (snd (run_abstract (sock_step decode) (fst (sock_step decode hs a)) ops)) = []"
proof (rule run_quiet [OF _ assms(2)])
  show "fst (sock_step decode hs a) i = None" using assms(1)
    by (auto simp: sock_step_def dispatch_event_def sock_close_def split: option.split)
qed

lemma no_call_after_close_witness:
  "calls_for 4 [SockEvent (EvData 4 [1] 0)] (snd (run_abstract (sock_step (\<lambda>_. []))
     (fst (sock_step (\<lambda>_. []) [4 \<mapsto> no_handler\<lparr>onData := Some 9\<rparr>] (SockClose 4))) [SockEvent (EvData 4 [1] 0)])) = [] \<and>
   calls_for 4 [SockEvent (EvData 4 [1] 0)] (snd (run_abstract (sock_step (\<lambda>_. []))
     [4 \<mapsto> no_handler\<lparr>onData := Some 9\<rparr>] [SockEvent (EvData 4 [1] 0)])) = [CallData 9 (Text []) 0]"
  using no_call_after_close [of "SockClose 4" 4 "[]" "[SockEvent (EvData 4 [1] 0)]" "\<lambda>_. []" "[4 \<mapsto> no_handler\<lparr>onData := Some 9\<rparr>]"]
  by (simp add: registers_def sock_step_def dispatch_event_def no_handler_def)

text \<open>The promise of \<open>connectAsync\<close> settles with the first event and never again.\<close>

fun connect_run :: "bool \<Rightarrow> connect_event list \<Rightarrow> connect_result list" where
  "connect_run settled [] = []"
| "connect_run settled (e # es) =
     (case connect_step e settled of (s, x, c) \<Rightarrow> (case x of None \<Rightarrow> [] | Some y \<Rightarrow> [y]) @ connect_run s es)"

lemma connect_run_settled: "connect_run True es = []"
  by (induction es) (simp_all add: connect_step_def)

lemma connect_once:
  "connect_run False (e # es) = [case e of Connected i \<Rightarrow> Resolved i | _ \<Rightarrow> Rejected]"
  by (cases e) (simp_all add: connect_step_def connect_run_settled)

end
