(* ===== verification/Net_Tls.thy ===== *)
theory Net_Tls
  imports Net_Core
begin

text \<open>
  \<open>tlsUpgrade\<close> of \<open>js/internal/net-core.js\<close>: a \<open>BufferedReader\<close> is put on top of a TLS session, by
  replacing its \<open>onData\<close> and \<open>write\<close>. The TLS layer of the C side (\<open>skynetcore.tls\<close>) is a parameter:
  a record of its functions over the state of a session. A function may throw (\<open>Inl\<close>), and answers
  \<open>undefined\<close> (\<open>None\<close>) when it has nothing to give.
\<close>

section \<open>The upgrade\<close>

record 'k tls_lib =
  tls_new :: 'k
  tls_handshake :: "'k \<Rightarrow> bytes option \<Rightarrow> 'k \<times> (unit + bytes option)"
  tls_finished :: "'k \<Rightarrow> bool"
  tls_read :: "'k \<Rightarrow> bytes option \<Rightarrow> 'k \<times> (unit + bytes option)"
  tls_write :: "'k \<Rightarrow> bytes \<Rightarrow> 'k \<times> (unit + bytes option)"

text \<open>
  Which \<open>onData\<close> the reader has: its own, the one of the handshake, or the one that decrypts; and the
  promise of the upgrade.
\<close>

datatype tls_phase = Direct | Shaking | Open

datatype upgrade = UpgradePending | Upgraded | UpgradeFailed

record 'k tls_reader =
  plain :: reader
  session :: 'k
  phase :: tls_phase
  upgrade :: upgrade
  wire :: "bytes list"

definition send_out :: "bytes option \<Rightarrow> 'k tls_reader \<Rightarrow> 'k tls_reader" where
  "send_out out T = (case out of None \<Rightarrow> T | Some b \<Rightarrow> T\<lparr>wire := wire T @ [b]\<rparr>)"

definition tls_upgrade :: "'k tls_lib \<Rightarrow> reader \<Rightarrow> 'k tls_reader" where
  "tls_upgrade L r = (case tls_handshake L (tls_new L) None of
     (k, Inl _) \<Rightarrow> \<lparr>plain = r, session = k, phase = Direct, upgrade = UpgradeFailed, wire = []\<rparr>
   | (k, Inr out) \<Rightarrow> send_out out
       (if tls_finished L k
        then \<lparr>plain = r, session = k, phase = Open, upgrade = Upgraded, wire = []\<rparr>
        else \<lparr>plain = r, session = k, phase = Shaking, upgrade = UpgradePending, wire = []\<rparr>))"

definition or_empty :: "bytes option \<Rightarrow> bytes" where
  "or_empty x = (case x of None \<Rightarrow> [] | Some b \<Rightarrow> b)"

text \<open>\<open>if (plaintext && plaintext.byteLength > 0) origonData(plaintext)\<close>.\<close>

definition feed_plain :: "bytes option \<Rightarrow> 'k tls_reader \<Rightarrow> ('k tls_reader \<times> outcome option) option" where
  "feed_plain p T = (case p of
     None \<Rightarrow> Some (T, None)
   | Some b \<Rightarrow> if b = [] then Some (T, None)
       else map_option (\<lambda>(r, x). (T\<lparr>plain := r\<rparr>, x)) (on_data b (plain T)))"

definition settle_upgrade :: "upgrade \<Rightarrow> 'k tls_reader \<Rightarrow> 'k tls_reader" where
  "settle_upgrade u T = (if upgrade T = UpgradePending then T\<lparr>upgrade := u\<rparr> else T)"

text \<open>The decrypting \<open>onData\<close>; a throw of \<open>tls.read\<close> goes to the caller.\<close>

definition open_data :: "'k tls_lib \<Rightarrow> bytes \<Rightarrow> 'k tls_reader \<Rightarrow> ('k tls_reader \<times> outcome option) option" where
  "open_data L d T = (case tls_read L (session T) (Some d) of
     (k, Inl _) \<Rightarrow> Some (T\<lparr>session := k\<rparr>, None)
   | (k, Inr p) \<Rightarrow> feed_plain p (T\<lparr>session := k\<rparr>))"

text \<open>The \<open>onData\<close> of the handshake, with the data that came along with its last record.\<close>

definition shake_data :: "'k tls_lib \<Rightarrow> bytes \<Rightarrow> 'k tls_reader \<Rightarrow> ('k tls_reader \<times> outcome option) option" where
  "shake_data L d T = (case tls_handshake L (session T) (Some d) of
     (k, Inl _) \<Rightarrow> Some (settle_upgrade UpgradeFailed (T\<lparr>session := k\<rparr>), None)
   | (k, Inr out) \<Rightarrow>
       (let T1 = send_out out (T\<lparr>session := k\<rparr>)
        in if \<not> tls_finished L k then Some (T1, None)
           else (let T2 = T1\<lparr>phase := Open\<rparr>
             in (case tls_read L k None of
                  (k', Inl _) \<Rightarrow> Some (settle_upgrade UpgradeFailed (T2\<lparr>session := k'\<rparr>), None)
                | (k', Inr p) \<Rightarrow> map_option (\<lambda>(T3, x). (settle_upgrade Upgraded T3, x)) (feed_plain p (T2\<lparr>session := k'\<rparr>))))))"

definition tls_data :: "'k tls_lib \<Rightarrow> bytes \<Rightarrow> 'k tls_reader \<Rightarrow> ('k tls_reader \<times> outcome option) option" where
  "tls_data L d T = (case phase T of
     Direct \<Rightarrow> map_option (\<lambda>(r, x). (T\<lparr>plain := r\<rparr>, x)) (on_data d (plain T))
   | Shaking \<Rightarrow> shake_data L d T
   | Open \<Rightarrow> open_data L d T)"

text \<open>
  The replaced \<open>write\<close>, for data that is bytes already, and what happens to an upgraded reader: only the
  data of the socket goes through the session, its other events and the reads are those of the reader.
\<close>

definition tls_write_data :: "'k tls_lib \<Rightarrow> bytes \<Rightarrow> 'k tls_reader \<Rightarrow> 'k tls_reader" where
  "tls_write_data L d T = (case tls_write L (session T) d of
     (k, Inl _) \<Rightarrow> T\<lparr>session := k\<rparr>
   | (k, Inr e) \<Rightarrow> send_out e (T\<lparr>session := k\<rparr>))"

datatype tls_op = Peer bytes | OnReader reader_op | WritePlain bytes

fun tls_step :: "'k tls_lib \<Rightarrow> 'k tls_reader \<Rightarrow> tls_op \<Rightarrow> ('k tls_reader \<times> answer option \<times> outcome option) option" where
  "tls_step L T (Peer d) = map_option (\<lambda>(T', x). (T', None, x)) (tls_data L d T)"
| "tls_step L T (OnReader a) = map_option (\<lambda>(r, x). (T\<lparr>plain := r\<rparr>, x)) (reader_step (plain T) a)"
| "tls_step L T (WritePlain d) = Some (tls_write_data L d T, None, None)"

section \<open>The reader is a stream of the plaintext\<close>

text \<open>
  What the TLS layer promises, as far as the code relies on it. \<open>received\<close> is what a session was given so
  far and \<open>taken\<close> the plaintext it has handed out; for data of the peer (\<open>genuine\<close>) the functions do not
  throw, the handshake is over when it has seen enough (\<open>over\<close>), and \<open>read\<close>, called when all of the
  plaintext or nothing has been taken, hands out the rest of what was received (\<open>opened\<close>).
\<close>

definition handshake_law :: "'k tls_lib \<Rightarrow> ('k \<Rightarrow> bytes) \<Rightarrow> ('k \<Rightarrow> bytes) \<Rightarrow> (bytes \<Rightarrow> bool) \<Rightarrow> bool" where
  "handshake_law L received taken genuine \<longleftrightarrow>
     (\<forall>k d. genuine (received k @ d) \<longrightarrow> (\<exists>k' out. tls_handshake L k (Some d) = (k', Inr out)
        \<and> received k' = received k @ d \<and> taken k' = taken k))"

definition read_law ::
  "'k tls_lib \<Rightarrow> ('k \<Rightarrow> bytes) \<Rightarrow> ('k \<Rightarrow> bytes) \<Rightarrow> (bytes \<Rightarrow> bool) \<Rightarrow> (bytes \<Rightarrow> bytes) \<Rightarrow> (bytes \<Rightarrow> bool) \<Rightarrow> bool" where
  "read_law L received taken over opened genuine \<longleftrightarrow>
     (\<forall>k x. genuine (received k @ or_empty x) \<longrightarrow> over (received k) \<longrightarrow> taken k \<in> {[], opened (received k)} \<longrightarrow>
        (\<exists>k' p. tls_read L k x = (k', Inr p) \<and> received k' = received k @ or_empty x
           \<and> taken k' = taken k @ or_empty p \<and> taken k' = opened (received k')))"

definition tls_laws ::
  "'k tls_lib \<Rightarrow> ('k \<Rightarrow> bytes) \<Rightarrow> ('k \<Rightarrow> bytes) \<Rightarrow> (bytes \<Rightarrow> bool) \<Rightarrow> (bytes \<Rightarrow> bytes) \<Rightarrow> (bytes \<Rightarrow> bool) \<Rightarrow> bool" where
  "tls_laws L received taken over opened genuine \<longleftrightarrow>
     (\<exists>k out. tls_handshake L (tls_new L) None = (k, Inr out) \<and> received k = [] \<and> taken k = [])
     \<and> handshake_law L received taken genuine
     \<and> read_law L received taken over opened genuine
     \<and> (\<forall>k d. received (fst (tls_write L k d)) = received k \<and> taken (fst (tls_write L k d)) = taken k)
     \<and> (\<forall>k. tls_finished L k = over (received k))
     \<and> (\<forall>c d. over c \<longrightarrow> over (c @ d)) \<and> opened [] = []
     \<and> (\<forall>c d. genuine (c @ d) \<longrightarrow> genuine c)"

text \<open>The plaintext that has come through after the bytes \<open>c\<close>, and the stream of it.\<close>

definition visible :: "(bytes \<Rightarrow> bool) \<Rightarrow> (bytes \<Rightarrow> bytes) \<Rightarrow> bytes \<Rightarrow> bytes" where
  "visible over opened c = (if over c then opened c else [])"

fun data_of :: "tls_op \<Rightarrow> bytes" where
  "data_of (Peer d) = d"
| "data_of (OnReader a) = []"
| "data_of (WritePlain d) = []"

fun direct :: "tls_op \<Rightarrow> bool" where
  "direct (OnReader (OpData d)) = False"
| "direct _ = True"

text \<open>
  The specification: the bytes from the peer are collected; a plain byte stream gets what has become
  readable of them, and serves the reads.
\<close>

fun secure_step :: "(bytes \<Rightarrow> bool) \<Rightarrow> (bytes \<Rightarrow> bytes) \<Rightarrow> byte_stream \<times> bytes \<Rightarrow> tls_op
    \<Rightarrow> (byte_stream \<times> bytes) \<times> answer option \<times> outcome option" where
  "secure_step over opened (s, c) (Peer d) =
     (case deliver (s\<lparr>buf := buf s @ drop (length (visible over opened c)) (visible over opened (c @ d))\<rparr>) of
        (t, x) \<Rightarrow> ((t, c @ d), None, x))"
| "secure_step over opened (s, c) (OnReader a) = (case stream_step s a of (t, x) \<Rightarrow> ((t, c), x))"
| "secure_step over opened (s, c) (WritePlain d) = ((s, c), None, None)"

definition tls_inv :: "('k \<Rightarrow> bytes) \<Rightarrow> ('k \<Rightarrow> bytes) \<Rightarrow> (bytes \<Rightarrow> bool) \<Rightarrow> (bytes \<Rightarrow> bytes) \<Rightarrow> 'k tls_reader \<Rightarrow> bytes \<Rightarrow> bool" where
  "tls_inv received taken over opened T c \<longleftrightarrow> reader_ok (plain T) \<and> received (session T) = c
     \<and> taken (session T) = visible over opened c
     \<and> phase T = (if over c then Open else Shaking) \<and> upgrade T = (if over c then Upgraded else UpgradePending)"

lemma feed_plain_sim:
  assumes "reader_ok (plain T)"
  shows "\<exists>r x. feed_plain p T = Some (T\<lparr>plain := r\<rparr>, x) \<and> reader_ok r
    \<and> deliver ((stream_of (plain T))\<lparr>buf := buf (stream_of (plain T)) @ or_empty p\<rparr>) = (stream_of r, x)"
proof -
  obtain r x where r: "on_data (or_empty p) (plain T) = Some (r, x)" "reader_ok r"
    "deliver ((stream_of (plain T))\<lparr>buf := buf (stream_of (plain T)) @ or_empty p\<rparr>) = (stream_of r, x)"
    using on_data_sim [OF assms, of "or_empty p"] by blast
  moreover have "feed_plain p T = Some (T\<lparr>plain := r\<rparr>, x)"
    using r(1) by (cases p) (auto simp: feed_plain_def or_empty_def on_data_def)
  ultimately show ?thesis by blast
qed

lemma deliver_nothing:
  "reader_ok r \<Longrightarrow> deliver (stream_of r) = (stream_of r, None)"
  using on_data_sim [of r "[]"] by (auto simp: on_data_def stream_of_def)

lemma send_out_fields [simp]:
  "plain (send_out e T) = plain T" "session (send_out e T) = session T" "phase (send_out e T) = phase T"
  "upgrade (send_out e T) = upgrade T"
  by (simp_all add: send_out_def split: option.split)

lemma tls_data_sim:
  assumes laws: "tls_laws L received taken over opened genuine"
    and inv: "tls_inv received taken over opened T c" and gen: "genuine (c @ d)"
  shows "\<exists>T' x. tls_data L d T = Some (T', x) \<and> tls_inv received taken over opened T' (c @ d)
    \<and> deliver ((stream_of (plain T))\<lparr>buf := buf (stream_of (plain T))
          @ drop (length (visible over opened c)) (visible over opened (c @ d))\<rparr>) = (stream_of (plain T'), x)"
proof (cases "over c")
  case True
  have over: "over (c @ d)" using laws True by (simp add: tls_laws_def)
  have rec: "received (session T) = c" "taken (session T) = opened c" "reader_ok (plain T)"
    using inv True by (simp_all add: tls_inv_def visible_def)
  have "read_law L received taken over opened genuine" using laws by (simp add: tls_laws_def)
  from this [unfolded read_law_def, rule_format, of "session T" "Some d"] obtain k p where
    k: "tls_read L (session T) (Some d) = (k, Inr p)" "received k = c @ d" "taken k = opened c @ or_empty p"
      "taken k = opened (c @ d)"
    using gen True rec by (auto simp: or_empty_def)
  have all: "opened (c @ d) = opened c @ or_empty p" using k(3,4) by simp
  have p: "drop (length (visible over opened c)) (visible over opened (c @ d)) = or_empty p"
    using True over by (simp add: visible_def all)
  obtain r x where r: "feed_plain p (T\<lparr>session := k\<rparr>) = Some (T\<lparr>session := k, plain := r\<rparr>, x)" "reader_ok r"
    "deliver ((stream_of (plain T))\<lparr>buf := buf (stream_of (plain T)) @ or_empty p\<rparr>) = (stream_of r, x)"
    using feed_plain_sim [of "T\<lparr>session := k\<rparr>" p] rec by auto
  have "tls_data L d T = Some (T\<lparr>session := k, plain := r\<rparr>, x)"
    using inv True k r by (simp add: tls_data_def tls_inv_def open_data_def)
  moreover have "tls_inv received taken over opened (T\<lparr>session := k, plain := r\<rparr>) (c @ d)"
    using inv True k r over by (simp add: tls_inv_def visible_def)
  ultimately show ?thesis using r(3) p by auto
next
  case False
  have rec: "received (session T) = c" "taken (session T) = []" "reader_ok (plain T)" "phase T = Shaking"
    "upgrade T = UpgradePending"
    using inv False by (simp_all add: tls_inv_def visible_def)
  have "handshake_law L received taken genuine" using laws by (simp add: tls_laws_def)
  from this [unfolded handshake_law_def, rule_format, of "session T" d] obtain k out where
    k: "tls_handshake L (session T) (Some d) = (k, Inr out)" "received k = c @ d" "taken k = []"
    using gen rec by auto
  have fin: "tls_finished L k = over (c @ d)" using laws k(2) by (simp add: tls_laws_def)
  let ?T = "send_out out (T\<lparr>session := k\<rparr>)"
  show ?thesis
  proof (cases "over (c @ d)")
    case True
    have "read_law L received taken over opened genuine" using laws by (simp add: tls_laws_def)
    from this [unfolded read_law_def, rule_format, of k None] obtain k' p where
      k': "tls_read L k None = (k', Inr p)" "received k' = c @ d" "taken k' = or_empty p" "taken k' = opened (c @ d)"
      using gen True k by (auto simp: or_empty_def)
    let ?S = "?T\<lparr>phase := Open, session := k'\<rparr>"
    obtain r x where r: "feed_plain p ?S = Some (?S\<lparr>plain := r\<rparr>, x)" "reader_ok r"
      "deliver ((stream_of (plain T))\<lparr>buf := buf (stream_of (plain T)) @ or_empty p\<rparr>) = (stream_of r, x)"
      using feed_plain_sim [of ?S p] rec by auto
    let ?U = "settle_upgrade Upgraded (?S\<lparr>plain := r\<rparr>)"
    have "tls_data L d T = Some (?U, x)"
      using rec k k' fin True r by (simp add: tls_data_def shake_data_def Let_def)
    moreover have "tls_inv received taken over opened ?U (c @ d)"
      using rec k' r True by (simp add: tls_inv_def visible_def settle_upgrade_def)
    moreover have "drop (length (visible over opened c)) (visible over opened (c @ d)) = or_empty p"
      using False True k' by (simp add: visible_def)
    moreover have "plain ?U = r" by (simp add: settle_upgrade_def)
    ultimately show ?thesis using r(3) by auto
  next
    case nover: False
    have "tls_data L d T = Some (?T, None)"
      using rec k fin nover by (simp add: tls_data_def shake_data_def Let_def)
    moreover have "tls_inv received taken over opened ?T (c @ d)"
      using rec k nover by (simp add: tls_inv_def visible_def)
    ultimately show ?thesis using False nover deliver_nothing [OF rec(3)] by (simp add: visible_def stream_of_def)
  qed
qed

lemma tls_write_inv:
  assumes "tls_laws L received taken over opened genuine" "tls_inv received taken over opened T c"
  shows "tls_inv received taken over opened (tls_write_data L d T) c" "plain (tls_write_data L d T) = plain T"
proof -
  obtain k e where k: "tls_write L (session T) d = (k, e)" by fastforce
  have "received (fst (tls_write L (session T) d)) = received (session T)"
    "taken (fst (tls_write L (session T) d)) = taken (session T)" using assms(1) by (simp_all add: tls_laws_def)
  then show "tls_inv received taken over opened (tls_write_data L d T) c" "plain (tls_write_data L d T) = plain T"
    using assms(2) k by (auto simp: tls_inv_def tls_write_data_def split: sum.split)
qed

lemma tls_step_sim:
  assumes "tls_laws L received taken over opened genuine"
    and "tls_inv received taken over opened T c" "genuine (c @ data_of a)"
  shows "\<exists>T' x. tls_step L T a = Some (T', x) \<and> tls_inv received taken over opened T' (c @ data_of a)
    \<and> secure_step over opened (stream_of (plain T), c) a = ((stream_of (plain T'), c @ data_of a), x)"
proof (cases a)
  case (Peer d)
  then show ?thesis using tls_data_sim [OF assms(1,2), of d] assms(3) by auto
next
  case (OnReader b)
  have "reader_ok (plain T)" using assms(2) by (simp add: tls_inv_def)
  from reader_sim [OF this, of b] obtain r x where
    "reader_step (plain T) b = Some (r, x)" "reader_ok r" "stream_step (stream_of (plain T)) b = (stream_of r, x)" by blast
  then show ?thesis using OnReader assms(2) by (auto simp: tls_inv_def)
next
  case (WritePlain d)
  then show ?thesis using tls_write_inv [OF assms(1,2), of d] by simp
qed

lemma tls_run_sim:
  assumes "tls_laws L received taken over opened genuine"
    and "tls_inv received taken over opened T c" "genuine (c @ concat (map data_of ops))"
  shows "\<exists>T' xs. run_concrete (tls_step L) T ops = Some (T', xs)
    \<and> tls_inv received taken over opened T' (c @ concat (map data_of ops))
    \<and> run_abstract (secure_step over opened) (stream_of (plain T), c) ops
        = ((stream_of (plain T'), c @ concat (map data_of ops)), xs)"
  using assms(2,3)
proof (induction ops arbitrary: T c)
  case (Cons a ops)
  have "genuine (c @ data_of a)" using assms(1) Cons.prems(2) unfolding tls_laws_def by (metis append.assoc concat.simps(2) list.map(2))
  from tls_step_sim [OF assms(1) Cons.prems(1) this] obtain T1 x where
    1: "tls_step L T a = Some (T1, x)" "tls_inv received taken over opened T1 (c @ data_of a)"
      "secure_step over opened (stream_of (plain T), c) a = ((stream_of (plain T1), c @ data_of a), x)" by blast
  from Cons.IH [OF 1(2)] Cons.prems(2) obtain T2 xs where
    "run_concrete (tls_step L) T1 ops = Some (T2, xs)"
      "tls_inv received taken over opened T2 (c @ data_of a @ concat (map data_of ops))"
      "run_abstract (secure_step over opened) (stream_of (plain T1), c @ data_of a) ops
        = ((stream_of (plain T2), c @ data_of a @ concat (map data_of ops)), xs)" by auto
  then show ?case using 1 by (simp del: secure_step.simps tls_step.simps)
qed simp

lemma tls_upgrade_inv:
  assumes "tls_laws L received taken over opened genuine" "reader_ok r"
  shows "tls_inv received taken over opened (tls_upgrade L r) []" "plain (tls_upgrade L r) = r"
proof -
  obtain k out where k: "tls_handshake L (tls_new L) None = (k, Inr out)" "received k = []" "taken k = []"
    using assms(1) by (auto simp: tls_laws_def)
  moreover have "tls_finished L k = over []" "opened [] = []" using assms(1) k by (simp_all add: tls_laws_def)
  ultimately show "tls_inv received taken over opened (tls_upgrade L r) []" "plain (tls_upgrade L r) = r"
    using assms(2) by (auto simp: tls_upgrade_def tls_inv_def visible_def)
qed

text \<open>C11. 
  An upgraded reader is a byte stream of the plaintext. However the encrypted bytes are cut, and whatever
  is read and written in between, the reader never throws and answers every read as the plain stream
  does that is fed what has become readable: nothing before the handshake is over, then everything, also
  what arrived together with the last record of the handshake. The promise of the upgrade is resolved
  exactly when the handshake is over.
\<close>

theorem tls_reader_refines:
  assumes "tls_laws L received taken over opened genuine" "genuine (concat (map data_of ops))" "reader_ok r"
  shows "\<exists>T xs. run_concrete (tls_step L) (tls_upgrade L r) ops = Some (T, xs)
    \<and> run_abstract (secure_step over opened) (stream_of r, []) ops = ((stream_of (plain T), concat (map data_of ops)), xs)
    \<and> upgrade T = (if over (concat (map data_of ops)) then Upgraded else UpgradePending)"
proof -
  from tls_run_sim [OF assms(1) tls_upgrade_inv(1) [OF assms(1,3)], of ops] assms(2) obtain T xs where
    "run_concrete (tls_step L) (tls_upgrade L r) ops = Some (T, xs)"
    "tls_inv received taken over opened T (concat (map data_of ops))"
    "run_abstract (secure_step over opened) (stream_of r, []) ops = ((stream_of (plain T), concat (map data_of ops)), xs)"
    by (auto simp: tls_upgrade_inv(2) [OF assms(1,3)])
  then show ?thesis by (auto simp: tls_inv_def)
qed

section \<open>The helpers\<close>

text \<open>
  \<open>reader(fd)\<close> registers the methods of a new reader, which are the callbacks \<open>data\<close>, \<open>close\<close> and \<open>err\<close>;
  \<open>writefunc\<close> throws (\<open>Inl\<close>) when the write answers \<open>undefined\<close> or a negative number.
\<close>

definition socket_reader :: "nat \<Rightarrow> nat \<Rightarrow> nat \<Rightarrow> nat \<Rightarrow> handlers \<Rightarrow> reader \<times> handlers" where
  "socket_reader fd data close err hs = (new_reader, sock_start fd (Some data) (Some close) (Some err) True hs)"

definition helper_writefunc :: "int option \<Rightarrow> outcome + unit" where
  "helper_writefunc r = (case r of None \<Rightarrow> Inl SocketError | Some n \<Rightarrow> if n < 0 then Inl SocketError else Inr ())"

text \<open>What the socket then delivers reaches the reader as bytes, not as text.\<close>

lemma reader_gets_bytes:
  "snd (dispatch_event decode (EvData fd d ud) (snd (socket_reader fd data close err hs))) = [CallData data (Raw d) ud]"
  by (simp add: dispatch_event_def socket_reader_def sock_start_def Let_def)

section \<open>A layer that is one\<close>

text \<open>
  A layer whose handshake is one byte and whose cipher flips the bits: the session is what it has
  received and what it has handed out.
\<close>

definition flip_read :: "bytes \<times> bytes \<Rightarrow> bytes option \<Rightarrow> (bytes \<times> bytes) \<times> (unit + bytes option)" where
  "flip_read k x = (let c = fst k @ or_empty x; all = map NOT (tl c)
     in ((c, all), Inr (Some (drop (length (snd k)) all))))"

definition flip_lib :: "(bytes \<times> bytes) tls_lib" where
  "flip_lib = \<lparr>tls_new = ([], []),
     tls_handshake = (\<lambda>k x. ((fst k @ or_empty x, snd k), Inr (if fst k = [] then Some [22] else None))),
     tls_finished = (\<lambda>k. fst k \<noteq> []),
     tls_read = flip_read,
     tls_write = (\<lambda>k d. (k, Inr (Some (map NOT d))))\<rparr>"

lemma flip_laws: "tls_laws flip_lib fst snd (\<lambda>c. c \<noteq> []) (\<lambda>c. map NOT (tl c)) (\<lambda>c. True)"
  by (auto simp: tls_laws_def handshake_law_def read_law_def flip_lib_def flip_read_def or_empty_def Let_def
      split: option.splits)

theorem tls_reader_refines_witness:
  "\<exists>T. run_concrete (tls_step flip_lib) (tls_upgrade flip_lib new_reader)
       [OnReader (OpRead 2), WritePlain [1], Peer [], Peer [22, NOT 7], Peer [NOT 8, NOT 9]]
     = Some (T, [(Some Waits, None), (None, None), (None, None), (None, None), (None, Some (Bytes [7, 8]))])
   \<and> upgrade T = Upgraded"
proof -
  have ok: "reader_ok new_reader" by (simp add: reader_ok_def new_reader_def)
  let ?ops = "[OnReader (OpRead 2), WritePlain [1], Peer [], Peer [22, NOT 7], Peer [NOT 8, NOT 9]]"
  obtain T xs where T: "run_concrete (tls_step flip_lib) (tls_upgrade flip_lib new_reader) ?ops = Some (T, xs)"
    "run_abstract (secure_step (\<lambda>c. c \<noteq> []) (\<lambda>c. map NOT (tl c))) (stream_of new_reader, []) ?ops
       = ((stream_of (plain T), [22, NOT 7, NOT 8, NOT 9]), xs)" "upgrade T = Upgraded"
    using tls_reader_refines [OF flip_laws _ ok, of ?ops] by auto
  have "xs = [(Some Waits, None), (None, None), (None, None), (None, None), (None, Some (Bytes [7, 8]))]"
    using T(2) by (simp add: stream_of_def new_reader_def stream_step_def request_def deliver_def visible_def)
  then show ?thesis using T by blast
qed

text \<open>
  A reader that is closed during the handshake: the promise of the upgrade is never settled, as only
  \<open>onData\<close> is replaced.
\<close>

lemma close_during_handshake:
  "run_concrete (tls_step flip_lib) (tls_upgrade flip_lib new_reader) [OnReader OpClose, OnReader (OpRead 1)]
    = Some (T, xs) \<Longrightarrow> upgrade T = UpgradePending"
  by (auto simp: tls_upgrade_def flip_lib_def send_out_def reader_step_def on_close_def new_reader_def read_bytes_def
      or_empty_def Let_def)

end
