(* ===== verification/Ws_Adapter.thy ===== *)
theory Ws_Adapter
  imports Net_Tls
begin

text \<open>
  The rest of \<open>packages/websocket/lib/adapters.js\<close>: the package may not use the internal modules, so it has
  a \<open>BufferedReader\<close> of its own over a socket of the public \<open>net\<close> module, a connect and a TLS upgrade.
  They are shown to do what those of \<open>net-core.js\<close> do, so that the theorems on streams hold for them.
\<close>

section \<open>The reader\<close>

definition wsr_on_close :: "reader \<Rightarrow> reader \<times> outcome option" where
  "wsr_on_close r = (case pending r of
     None \<Rightarrow> (r\<lparr>closed := True\<rparr>, None)
   | Some p \<Rightarrow> (r\<lparr>closed := True, pending := None\<rparr>, Some SocketError))"

definition wsr_on_error :: "jsstr \<Rightarrow> reader \<Rightarrow> reader \<times> outcome option" where
  "wsr_on_error msg r = (case pending r of
     None \<Rightarrow> (r\<lparr>errorMsg := Some msg, closed := True\<rparr>, None)
   | Some p \<Rightarrow> (r\<lparr>errorMsg := Some msg, closed := True, pending := None\<rparr>, Some SocketError))"

text \<open>\<open>scanCrlf\<close> in one loop over the bytes of all chunks, with the position of the byte.\<close>

fun wsr_scan :: "bytes list \<Rightarrow> nat \<Rightarrow> byte option \<Rightarrow> nat option" where
  "wsr_scan [] i prev = None"
| "wsr_scan ([] # cs) i prev = wsr_scan cs i prev"
| "wsr_scan ((b # bs) # cs) i prev =
     (if prev = Some 0x0d \<and> b = 0x0a then Some (i - 1) else wsr_scan (bs # cs) (Suc i) (Some b))"

text \<open>\<open>_consume\<close>; reading a chunk when there is none is a \<open>TypeError\<close> (\<open>None\<close>).\<close>

function wsr_take :: "nat \<Rightarrow> bytes list \<Rightarrow> (bytes \<times> bytes list) option" where
  "wsr_take remaining cs =
     (if remaining = 0 then Some ([], cs)
      else case cs of
        [] \<Rightarrow> None
      | c # cs' \<Rightarrow>
          if length c \<le> remaining
          then map_option (\<lambda>(out, rest). (c @ out, rest)) (wsr_take (remaining - length c) cs')
          else Some (take remaining c, drop remaining c # cs'))"
  by pat_completeness auto
termination by (relation "measure (\<lambda>(n, cs). length cs)") auto

declare wsr_take.simps [simp del]

definition wsr_consume :: "nat \<Rightarrow> reader \<Rightarrow> (bytes \<times> reader) option" where
  "wsr_consume n r =
     (if n = 0 then Some ([], r)
      else (case chunks r of
          c # cs \<Rightarrow> if length c = n then Some (c, r\<lparr>chunks := cs, total := total r - n\<rparr>)
            else map_option (\<lambda>(out, cs). (out, r\<lparr>chunks := cs, total := total r - n\<rparr>)) (wsr_take n (chunks r))
        | [] \<Rightarrow> map_option (\<lambda>(out, cs). (out, r\<lparr>chunks := cs, total := total r - n\<rparr>)) (wsr_take n [])))"

definition wsr_try_resolve :: "reader \<Rightarrow> (reader \<times> outcome option) option" where
  "wsr_try_resolve r =
     (case pending r of
        None \<Rightarrow> Some (r, None)
      | Some (WantBytes n) \<Rightarrow>
          if n \<le> total r then map_option (\<lambda>(b, r'). (r', Some (Bytes b))) (wsr_consume n (r\<lparr>pending := None\<rparr>))
          else Some (r, None)
      | Some WantLine \<Rightarrow>
          (case wsr_scan (chunks r) 0 None of
             None \<Rightarrow> Some (r, None)
           | Some pos \<Rightarrow> map_option (\<lambda>(b, r'). (r', Some (Line (decode_utf8 (take pos b)))))
               (wsr_consume (pos + 2) (r\<lparr>pending := None\<rparr>))))"

definition wsr_on_data :: "bytes \<Rightarrow> reader \<Rightarrow> (reader \<times> outcome option) option" where
  "wsr_on_data data r =
     (if length data = 0 then Some (r, None)
      else wsr_try_resolve (r\<lparr>chunks := chunks r @ [data], total := total r + length data\<rparr>))"

definition wsr_read :: "int \<Rightarrow> reader \<Rightarrow> (reader \<times> answer) option" where
  "wsr_read n r =
     (case pending r of
        Some p \<Rightarrow> Some (r, ConcurrentRead)
      | None \<Rightarrow>
          if n \<le> 0 then Some (r, Settled (Bytes []))
          else if n \<le> int (total r) then map_option (\<lambda>(b, r'). (r', Settled (Bytes b))) (wsr_consume (nat n) r)
          else if closed r then Some (r, Settled SocketError)
          else Some (r\<lparr>pending := Some (WantBytes (nat n))\<rparr>, Waits))"

definition wsr_readline :: "reader \<Rightarrow> (reader \<times> answer) option" where
  "wsr_readline r =
     (case pending r of
        Some p \<Rightarrow> Some (r, ConcurrentRead)
      | None \<Rightarrow> (case wsr_scan (chunks r) 0 None of
          Some pos \<Rightarrow> map_option (\<lambda>(b, r'). (r', Settled (Line (decode_utf8 (take pos b))))) (wsr_consume (pos + 2) r)
        | None \<Rightarrow> if closed r then Some (r, Settled SocketError) else Some (r\<lparr>pending := Some WantLine\<rparr>, Waits)))"

text \<open>The events of the socket, which \<open>makeReader\<close> connects to the reader, and the reads.\<close>

definition ws_reader_step :: "reader \<Rightarrow> reader_op \<Rightarrow> (reader \<times> answer option \<times> outcome option) option" where
  "ws_reader_step r a =
     (case a of
        OpData d \<Rightarrow> map_option (\<lambda>(r', out). (r', None, out)) (wsr_on_data d r)
      | OpClose \<Rightarrow> (let (r', out) = wsr_on_close r in Some (r', None, out))
      | OpError m \<Rightarrow> (let (r', out) = wsr_on_error m r in Some (r', None, out))
      | OpRead n \<Rightarrow> map_option (\<lambda>(r', ans). (r', Some ans, None)) (wsr_read n r)
      | OpReadline \<Rightarrow> map_option (\<lambda>(r', ans). (r', Some ans, None)) (wsr_readline r))"

section \<open>It is the reader of net-core\<close>

lemma wsr_scan_chunk:
  "wsr_scan (c # cs) (off + j) prev =
     (case scan_chunk c off j prev of Inl pos \<Rightarrow> Some pos | Inr prev' \<Rightarrow> wsr_scan cs (off + j + length c) prev')"
proof (induction c arbitrary: j prev)
  case (Cons b bs)
  show ?case using Cons.IH [of "Suc j" "Some b"] by (simp split: sum.split)
qed simp

lemma wsr_scan_eq: "wsr_scan cs off prev = scan_chunks cs off prev"
proof (induction cs arbitrary: off prev)
  case (Cons c cs)
  then show ?case using wsr_scan_chunk [of c cs off 0 prev] by (auto split: sum.split)
qed simp

lemma consume_loop_out: "consume_loop cs n out = map_option (\<lambda>(o', cs'). (out @ o', cs')) (consume_loop cs n [])"
proof (induction cs arbitrary: n out)
  case Nil
  then show ?case by (cases n) simp_all
next
  case (Cons c cs)
  show ?case
  proof (cases n)
    case (Suc m)
    then show ?thesis using Cons.IH [of "Suc m - length c" "out @ c"] Cons.IH [of "Suc m - length c" c]
      by (cases "consume_loop cs (Suc m - length c) []") auto
  qed simp
qed

lemma wsr_take_eq: "wsr_take n cs = consume_loop cs n []"
proof (induction cs arbitrary: n)
  case Nil
  then show ?case by (cases n) (simp_all add: wsr_take.simps)
next
  case (Cons c cs)
  show ?case
  proof (cases n)
    case 0
    then show ?thesis by (simp add: wsr_take.simps)
  next
    case (Suc m)
    then show ?thesis using Cons.IH [of "n - length c"] consume_loop_out [of cs "n - length c" c]
      by (subst wsr_take.simps) simp
  qed
qed

lemma wsr_consume_eq: "wsr_consume n r = consume n r"
  by (cases "chunks r") (simp_all add: wsr_consume_def consume_def wsr_take_eq)

lemma wsr_try_resolve_eq: "wsr_try_resolve r = try_resolve r"
  by (auto simp: wsr_try_resolve_def try_resolve_def wsr_scan_eq wsr_consume_eq scan_crlf_def take_line_def option.map_comp
      o_def split_def split: option.split want.split)

text \<open>C37. 
  The reader of the package and the one of the engine are the same machine: on every state they do the
  same with every event and every read.
\<close>

theorem ws_reader_is_reader:
  "run_concrete ws_reader_step r ops = run_concrete reader_step r ops"
proof -
  have "ws_reader_step r a = reader_step r a" for r a
    by (cases a; cases "pending r")
       (auto simp: ws_reader_step_def reader_step_def wsr_on_data_def on_data_def wsr_try_resolve_eq wsr_on_close_def on_close_def
        wsr_on_error_def on_error_def wsr_read_def read_bytes_def wsr_readline_def readline_def wsr_scan_eq wsr_consume_eq
        scan_crlf_def take_line_def option.map_comp o_def split_def Let_def split: option.split)
  then have "ws_reader_step = reader_step" by (intro ext)
  then show ?thesis by simp
qed

section \<open>netConnect\<close>

text \<open>
  The promise over the events of the socket; \<open>ConnTimeout\<close> is the listener of its \<open>setTimeout\<close>, and the last
  component says that the socket is destroyed.
\<close>

definition net_connect_step :: "connect_event \<Rightarrow> bool \<Rightarrow> bool \<times> connect_result option \<times> bool" where
  "net_connect_step e settled =
     (case e of
        Connected i \<Rightarrow> if settled then (settled, None, False) else (True, Some (Resolved i), False)
      | ConnFailed \<Rightarrow> if settled then (settled, None, False) else (True, Some Rejected, False)
      | ConnClosed \<Rightarrow> if settled then (settled, None, False) else (True, Some Rejected, False)
      | ConnTimeout \<Rightarrow> if settled then (settled, None, False) else (True, Some Rejected, True))"

lemma net_connect_is_connect: "net_connect_step = connect_step"
  by (intro ext) (simp add: net_connect_step_def connect_step_def split: connect_event.split)

section \<open>tlsUpgrade\<close>

text \<open>
  \<open>tls.upgrade\<close> has sent the first message of the handshake, an empty one when there is none, before the
  reader is made; the rest is driven like in \<open>net-core.js\<close>, where the session sends its answers itself.
\<close>

definition ws_tls_upgrade :: "'k tls_lib \<Rightarrow> 'k tls_reader" where
  "ws_tls_upgrade L = (case tls_handshake L (tls_new L) None of
     (k, Inl _) \<Rightarrow> \<lparr>plain = new_reader, session = k, phase = Direct, upgrade = UpgradeFailed, wire = []\<rparr>
   | (k, Inr out) \<Rightarrow>
       (let T = \<lparr>plain = new_reader, session = k, phase = Direct, upgrade = UpgradePending, wire = [or_empty out]\<rparr>
        in if tls_finished L k then T\<lparr>phase := Open, upgrade := Upgraded\<rparr> else T\<lparr>phase := Shaking\<rparr>))"

text \<open>Where the two upgrades differ: an empty write when the handshake starts with nothing to send.\<close>

definition session_write :: "'k tls_reader \<Rightarrow> 'k tls_reader" where
  "session_write T = T\<lparr>wire := []\<rparr>"

lemma ws_tls_upgrade_is_upgrade:
  "session_write (ws_tls_upgrade L) = session_write (tls_upgrade L new_reader)"
  by (simp add: ws_tls_upgrade_def tls_upgrade_def session_write_def send_out_def Let_def split: prod.split sum.split option.split)

lemma ws_tls_inv:
  assumes "tls_laws L received taken over opened genuine"
  shows "tls_inv received taken over opened (ws_tls_upgrade L) []" "plain (ws_tls_upgrade L) = new_reader"
proof -
  have ok: "reader_ok new_reader" by (simp add: reader_ok_def new_reader_def)
  have "plain T = plain U \<and> session T = session U \<and> phase T = phase U \<and> upgrade T = upgrade U"
    if "session_write T = session_write (U :: 'a tls_reader)" for T U
    using that by (cases T; cases U) (simp add: session_write_def)
  from this [OF ws_tls_upgrade_is_upgrade]
  show "tls_inv received taken over opened (ws_tls_upgrade L) []" "plain (ws_tls_upgrade L) = new_reader"
    using tls_upgrade_inv [OF assms ok] by (simp_all add: tls_inv_def)
qed

text \<open>So a WebSocket over TLS, too, reads the stream of the plaintext.\<close>

lemma ws_tls_reader_refines:
  assumes "tls_laws L received taken over opened genuine" "genuine (concat (map data_of ops))"
  shows "\<exists>T xs. run_concrete (tls_step L) (ws_tls_upgrade L) ops = Some (T, xs)
    \<and> run_abstract (secure_step over opened) (stream_of new_reader, []) ops = ((stream_of (plain T), concat (map data_of ops)), xs)"
  using tls_run_sim [OF assms(1) ws_tls_inv(1) [OF assms(1)], of ops] assms(2) by (auto simp: ws_tls_inv(2) [OF assms(1)])

end
