(* ===== verification/Ws_Frame.thy ===== *)
theory Ws_Frame
  imports Text_Codec
begin

text \<open>
  \<open>packages/websocket/lib/websocket-core.js\<close>, the frame codec of RFC 6455: \<open>writeFrame\<close> gives the
  list of buffers handed to the socket, \<open>readFrame\<close> reads from the bytes that the connection still
  delivers before it closes. A reader that has fewer bytes left than a \<open>read(n)\<close> asks for rejects
  with \<open>SOCKET_ERROR\<close>, which is what \<open>BufferedReader\<close> promises (theory \<open>Net_Core\<close>).
\<close>

unbundle bit_operations_syntax

section \<open>Operations\<close>

datatype opcode = OpFrame | OpText | OpBinary | OpClose | OpPing | OpPong

datatype ws_error = SocketErr | PayloadTooLarge | UnknownOpcode nat | BadHandshake nat

datatype ws_mode = Server | Client

definition max_frame_size :: nat where "max_frame_size = 256 * 1024"

fun op_code :: "opcode \<Rightarrow> nat" where
  "op_code OpFrame = 0" | "op_code OpText = 1" | "op_code OpBinary = 2"
| "op_code OpClose = 8" | "op_code OpPing = 9" | "op_code OpPong = 10"

definition op_name :: "nat \<Rightarrow> opcode option" where
  "op_name n = (if n = 0 then Some OpFrame else if n = 1 then Some OpText else if n = 2 then Some OpBinary
     else if n = 8 then Some OpClose else if n = 9 then Some OpPing else if n = 10 then Some OpPong
     else None)"

text \<open>\<open>xorStr\<close> of the C layer: the key is repeated over the data.\<close>

definition xor_str :: "bytes \<Rightarrow> bytes \<Rightarrow> bytes" where
  "xor_str data key = map (\<lambda>i. (data ! i) XOR (key ! (i mod length key))) [0..<length data]"

text \<open>Big-endian integers of \<open>DataView\<close>.\<close>

definition u16 :: "nat \<Rightarrow> bytes" where
  "u16 n = [to_byte (n div 256), to_byte n]"

definition u32 :: "nat \<Rightarrow> bytes" where
  "u32 n = [to_byte (n div 16777216), to_byte (n div 65536), to_byte (n div 256), to_byte n]"

definition from_be :: "bytes \<Rightarrow> nat" where
  "from_be bs = foldl (\<lambda>a b. a * 256 + unat b) 0 bs"

text \<open>The header of a frame: first byte, length byte with the mask bit, extended length, key.\<close>

definition frame_header :: "nat \<Rightarrow> nat \<Rightarrow> bytes option \<Rightarrow> bytes" where
  "frame_header opV payloadLen maskingKey =
     (let maskBit = (if maskingKey \<noteq> None then 0x80 else 0)
      in [to_byte (0x80 OR opV)] @
         (if payloadLen < 126 then [to_byte (maskBit OR payloadLen)]
          else if payloadLen \<le> 0xFFFF then to_byte (maskBit OR 126) # u16 payloadLen
          else to_byte (maskBit OR 127) # u32 (payloadLen div 4294967296) @ u32 payloadLen) @
         (case maskingKey of None \<Rightarrow> [] | Some mk \<Rightarrow> take 4 mk))"

text \<open>
  \<open>writeFrame\<close>: the buffers passed to \<open>writeFn\<close>, and what the buffer of the payload holds
  afterwards. \<open>xorStr\<close> masks in place, so a caller that passed an \<open>ArrayBuffer\<close> sees the masked
  bytes.
\<close>

definition write_frame :: "opcode \<Rightarrow> bytes \<Rightarrow> bytes option \<Rightarrow> bytes list \<times> bytes" where
  "write_frame opcode payload maskingKey =
     (let hdr = frame_header (op_code opcode) (length payload) maskingKey;
          payload' = (case maskingKey of None \<Rightarrow> payload | Some mk \<Rightarrow> xor_str payload mk)
      in (hdr # (if length payload > 0 then [payload'] else []), payload'))"

record frame =
  fin :: bool
  opcode :: opcode
  payload :: bytes

text \<open>\<open>await reader.read(n)\<close> on the bytes still to come.\<close>

definition read_n :: "nat \<Rightarrow> bytes \<Rightarrow> (bytes \<times> bytes) option" where
  "read_n n s = (if n \<le> length s then Some (take n s, drop n s) else None)"

definition read_length :: "nat \<Rightarrow> bytes \<Rightarrow> (nat \<times> bytes) option" where
  "read_length len7 s =
     (if len7 = 126 then map_option (\<lambda>(ext, r). (from_be ext, r)) (read_n 2 s)
      else if len7 = 127
      then map_option (\<lambda>(ext, r). (from_be (take 4 ext) * 4294967296 + from_be (drop 4 ext), r)) (read_n 8 s)
      else Some (len7, s))"

text \<open>
  \<open>readFrame\<close>: the frame, or what it throws, and the bytes after what it has read. After a
  \<open>SOCKET_ERROR\<close> nothing is left to read.
\<close>

definition read_frame :: "ws_mode \<Rightarrow> bytes \<Rightarrow> (ws_error + frame) \<times> bytes" where
  "read_frame mode s =
     (case read_n 2 s of None \<Rightarrow> (Inl SocketErr, [])
      | Some (v, s1) \<Rightarrow>
          let v0 = unat (v ! 0); v1 = unat (v ! 1) in
          case read_length (v1 AND 0x7F) s1 of None \<Rightarrow> (Inl SocketErr, [])
          | Some (payloadLen, s2) \<Rightarrow>
              if mode = Server \<and> payloadLen > max_frame_size then (Inl PayloadTooLarge, s2)
              else case read_n (if v1 AND 0x80 \<noteq> 0 then 4 else 0) s2 of None \<Rightarrow> (Inl SocketErr, [])
                | Some (key, s3) \<Rightarrow>
                    case read_n payloadLen s3 of None \<Rightarrow> (Inl SocketErr, [])
                    | Some (p, s4) \<Rightarrow>
                        case op_name (v0 AND 0x0F) of
                          None \<Rightarrow> (Inl (UnknownOpcode (v0 AND 0x0F)), s4)
                        | Some name \<Rightarrow>
                            (Inr \<lparr>fin = (v0 AND 0x80 \<noteq> 0), opcode = name,
                                  payload = (if v1 AND 0x80 \<noteq> 0 then xor_str p key else p)\<rparr>, s4))"

definition read_close :: "bytes \<Rightarrow> nat option \<times> jsstr" where
  "read_close p =
     (if length p \<ge> 2
      then (Some (from_be (take 2 p)), if length p > 2 then decode_utf8 (drop 2 p) else [])
      else (None, []))"

section \<open>Round trip of a frame\<close>

lemma length_xor_str [simp]: "length (xor_str d k) = length d"
  by (simp add: xor_str_def)

lemma xor_str_Nil [simp]: "xor_str [] k = []"
  by (simp add: xor_str_def)

lemma xor_str_twice: "xor_str (xor_str d k) k = d"
  by (rule nth_equalityI) (simp_all add: xor_str_def xor.assoc)

lemma and_7f: "n AND 0x7F = n mod (128 :: nat)"
  using take_bit_eq_mask [of 7 n] by (simp add: take_bit_eq_mod mask_eq_exp_minus_1)

lemma and_80: "n < 256 \<Longrightarrow> n AND 0x80 = n div 128 * (128 :: nat)"
  using and_high [of n 7 1] by (simp add: mask_eq_exp_minus_1)

lemma length_byte:
  assumes "n < 128"
  shows "unat (to_byte ((if m then 0x80 else 0) OR n)) AND 0x7F = n"
    "(unat (to_byte ((if m then 0x80 else 0) OR n)) AND 0x80 \<noteq> 0) = m"
proof -
  have "unat (to_byte ((if m then 0x80 else 0) OR n)) = (if m then 128 + n else n)"
    using assms or_lead(4) [OF assms] by simp
  then show "unat (to_byte ((if m then 0x80 else 0) OR n)) AND 0x7F = n"
    "(unat (to_byte ((if m then 0x80 else 0) OR n)) AND 0x80 \<noteq> 0) = m"
    using assms by (simp_all only: and_7f, simp_all add: and_80 split: if_splits)
qed

lemma op_byte:
  "op_name (unat (to_byte (0x80 OR op_code c)) AND 0x0F) = Some c" "unat (to_byte (0x80 OR op_code c)) AND 0x80 \<noteq> 0"
proof -
  have l: "op_code c < 16" by (cases c) simp_all
  then have e: "unat (to_byte (0x80 OR op_code c)) = 128 + op_code c" by (simp add: or_lead(4))
  have m: "(128 + op_code c) mod 16 = op_code c" by (cases c) simp_all
  show "op_name (unat (to_byte (0x80 OR op_code c)) AND 0x0F) = Some c"
    unfolding e and_low m by (cases c) (simp_all add: op_name_def)
  show "unat (to_byte (0x80 OR op_code c)) AND 0x80 \<noteq> 0"
    unfolding e using l by (simp add: and_80)
qed

lemma from_be_u16: "n < 65536 \<Longrightarrow> from_be (u16 n) = n"
  by (simp add: from_be_def u16_def less_mult_imp_div_less)

lemma from_be_u32: "from_be (u32 n) = n mod 4294967296"
proof -
  have "n mod 4294967296 = 16777216 * (n div 16777216 mod 256) + n mod 16777216"
    "n mod 16777216 = 65536 * (n div 65536 mod 256) + n mod 65536"
    "n mod 65536 = 256 * (n div 256 mod 256) + n mod 256"
    using mod_mult2_eq [of n 16777216 256] mod_mult2_eq [of n 65536 256] mod_mult2_eq [of n 256 256] by simp_all
  then show ?thesis by (simp add: from_be_def u32_def)
qed

lemma length_u [simp]: "length (u16 n) = 2" "length (u32 n) = 4"
  by (simp_all add: u16_def u32_def)

lemma read_n_append: "length a = n \<Longrightarrow> read_n n (a @ r) = Some (a, r)"
  by (simp add: read_n_def)

definition len7 :: "nat \<Rightarrow> nat" where
  "len7 n = (if n < 126 then n else if n \<le> 0xFFFF then 126 else 127)"

definition len_ext :: "nat \<Rightarrow> bytes" where
  "len_ext n = (if n < 126 then [] else if n \<le> 0xFFFF then u16 n else u32 (n div 4294967296) @ u32 n)"

lemma frame_header_eq:
  "frame_header opV n key = to_byte (0x80 OR opV) # to_byte ((if key \<noteq> None then 0x80 else 0) OR len7 n) # len_ext n @
     (case key of None \<Rightarrow> [] | Some mk \<Rightarrow> take 4 mk)"
  by (simp add: frame_header_def len7_def len_ext_def Let_def)

lemma len7_bound: "len7 n < 128" by (simp add: len7_def)

lemma read_length_ext:
  assumes "n < 18446744073709551616"
  shows "read_length (len7 n) (len_ext n @ r) = Some (n, r)"
proof -
  have "n div 4294967296 mod 4294967296 = n div 4294967296"
    using assms less_mult_imp_div_less [of n 4294967296 4294967296] by simp
  then show ?thesis
    using read_n_append [of "u32 (n div 4294967296) @ u32 n" 8 r]
    by (auto simp: read_length_def len7_def len_ext_def read_n_append from_be_u16 from_be_u32)
qed

definition masked :: "bytes \<Rightarrow> bytes option \<Rightarrow> bytes" where
  "masked p key = (case key of None \<Rightarrow> p | Some mk \<Rightarrow> xor_str p mk)"

lemma write_frame_bytes:
  "concat (fst (write_frame c p key)) = frame_header (op_code c) (length p) key @ masked p key"
  by (simp add: write_frame_def masked_def Let_def split: option.split)

definition frame_fits :: "ws_mode \<Rightarrow> bytes \<Rightarrow> bool" where
  "frame_fits mode p \<longleftrightarrow> length p < 18446744073709551616 \<and> (mode = Server \<longrightarrow> length p \<le> max_frame_size)"

definition key_ok :: "bytes option \<Rightarrow> bool" where
  "key_ok key \<longleftrightarrow> (case key of None \<Rightarrow> True | Some mk \<Rightarrow> length mk = 4)"

text \<open>A frame with any FIN bit, as a peer that fragments its messages sends it.\<close>

definition encode_frame :: "frame \<Rightarrow> bytes option \<Rightarrow> bytes" where
  "encode_frame f key =
     (let h = frame_header (op_code (opcode f)) (length (payload f)) key
      in (if fin f then h else to_byte (op_code (opcode f)) # tl h) @ masked (payload f) key)"

lemma read_frame_bytes:
  assumes b0: "op_name (unat b0 AND 0x0F) = Some c" "(unat b0 AND 0x80 \<noteq> 0) = final"
    and fits: "frame_fits mode p" "key_ok key"
  shows "read_frame mode (b0 # to_byte ((if key \<noteq> None then 0x80 else 0) OR len7 (length p)) # len_ext (length p) @
      (case key of None \<Rightarrow> [] | Some mk \<Rightarrow> take 4 mk) @ masked p key @ r) =
    (Inr \<lparr>fin = final, opcode = c, payload = p\<rparr>, r)"
proof -
  let ?b1 = "to_byte ((if key \<noteq> None then 0x80 else 0) OR len7 (length p))"
  let ?k = "case key of None \<Rightarrow> [] | Some mk \<Rightarrow> take 4 mk"
  have l: "unat ?b1 AND 0x7F = len7 (length p)" "(unat ?b1 AND 0x80 \<noteq> 0) = (key \<noteq> None)"
    by (rule length_byte [OF len7_bound])+
  have 1: "read_n 2 (b0 # ?b1 # t) = Some ([b0, ?b1], t)" for t by (simp add: read_n_def)
  have 2: "read_length (len7 (length p)) (len_ext (length p) @ t) = Some (length p, t)" for t
    using fits(1) by (intro read_length_ext) (simp add: frame_fits_def)
  have 3: "read_n (if key \<noteq> None then 4 else 0) (?k @ t) = Some (?k, t)" for t
    using fits(2) by (cases key) (simp_all add: read_n_def key_ok_def)
  have 4: "read_n (length p) (masked p key @ t) = Some (masked p key, t)" for t
    by (simp add: read_n_def masked_def split: option.split)
  have 5: "(if key \<noteq> None then xor_str (masked p key) ?k else masked p key) = p"
    using fits(2) by (cases key) (simp_all add: masked_def key_ok_def xor_str_twice)
  have lim: "\<not> (mode = Server \<and> length p > max_frame_size)" using fits(1) by (auto simp: frame_fits_def)
  show ?thesis unfolding read_frame_def 1 option.case prod.case Let_def nth_Cons_0 nth_Cons_Suc One_nat_def l 2 if_not_P [OF lim] 3 4
    using b0 5 l by simp
qed

lemma read_encode_frame:
  assumes "frame_fits mode (payload f)" "key_ok key"
  shows "read_frame mode (encode_frame f key @ r) = (Inr f, r)"
proof -
  have "op_code (opcode f) < 16" by (cases "opcode f") simp_all
  then have u: "unat (to_byte (op_code (opcode f))) = op_code (opcode f)" by simp
  have "op_name (op_code (opcode f) AND 0x0F) = Some (opcode f)" "op_code (opcode f) AND 0x80 = 0"
    by (cases "opcode f"; simp add: op_name_def and_80)+
  then show ?thesis
    using read_frame_bytes [OF op_byte(1) _ assms, of "opcode f" True r]
      read_frame_bytes [OF _ _ assms, of "to_byte (op_code (opcode f))" "opcode f" False r] op_byte(2) [of "opcode f"] u
    by (cases "fin f") (simp_all add: encode_frame_def frame_header_eq Let_def del: unat_to_byte)
qed

lemma write_frame_encode:
  "concat (fst (write_frame c p key)) = encode_frame \<lparr>fin = True, opcode = c, payload = p\<rparr> key"
  by (simp add: write_frame_bytes encode_frame_def Let_def)

text \<open>C18. A frame survives the wire: what \<open>writeFrame\<close> sends, masked or not, with a payload of any of
  the three length encodings, \<open>readFrame\<close> reads back as a final frame of the same opcode and
  payload, and stops exactly at the byte after it. A server needs the payload to respect its
  limit.\<close>

theorem read_write_frame:
  assumes "frame_fits mode p" "key_ok key"
  shows "read_frame mode (concat (fst (write_frame c p key)) @ r) = (Inr \<lparr>fin = True, opcode = c, payload = p\<rparr>, r)"
  unfolding write_frame_encode using read_encode_frame [of mode "\<lparr>fin = True, opcode = c, payload = p\<rparr>" key] assms by simp

lemma read_write_frame_witness:
  "read_frame Server (concat (fst (write_frame OpText [0x68, 0x69] (Some [1, 2, 3, 4]))) @ [9]) =
    (Inr \<lparr>fin = True, opcode = OpText, payload = [0x68, 0x69]\<rparr>, [9])"
  by (rule read_write_frame) (simp_all add: frame_fits_def key_ok_def max_frame_size_def)

text \<open>
  The masking is done in the buffer of the caller: after a masked write of an \<open>ArrayBuffer\<close> its
  contents are changed, so sending it again sends something else.
\<close>

lemma write_frame_masks_caller: "snd (write_frame OpBinary [1, 2] (Some [7, 7, 7, 7])) = [6, 5]"
  by (simp add: write_frame_def xor_str_def upt_conv_Cons Let_def)

lemma second_write_differs:
  "fst (write_frame OpBinary (snd (write_frame OpBinary [1, 2] (Some [7, 7, 7, 7]))) None) \<noteq>
   fst (write_frame OpBinary [1, 2] None)"
  by (simp add: write_frame_def xor_str_def upt_conv_Cons Let_def)

end
