(* ===== verification/Http_Text.thy ===== *)
theory Http_Text
  imports Json
begin

text \<open>
  What the HTTP code of \<open>js/internal/http-core.js\<close> and the WebSocket handshakes of
  \<open>packages/websocket\<close> share: reading a line from the bytes a peer sends, header objects, and the
  regular expressions for the request line and the status line.
\<close>

section \<open>Lines\<close>

text \<open>\<open>await reader.readline()\<close> on the bytes still to come.\<close>

definition next_line :: "bytes \<Rightarrow> (jsstr \<times> bytes) option" where
  "next_line s = (case index_of s [0x0d, 0x0a] of None \<Rightarrow> None
     | Some p \<Rightarrow> Some (decode_utf8 (take p s), drop (p + 2) s))"

lemma index_of_le: "index_of s p = Some i \<Longrightarrow> p \<noteq> [] \<Longrightarrow> i < length s"
  by (induction s arbitrary: i) (auto split: if_splits)

definition dec :: "nat \<Rightarrow> jsstr" where "dec n = to_radix 10 n"

definition crlf :: jsstr where "crlf = [13, 10]"

section \<open>Headers\<close>

text \<open>
  A header is an object: a name that occurs once has a string, one that occurs again an array.
\<close>

datatype hval = One jsstr | Many "jsstr list"

type_synonym header = "(jsstr \<times> hval) list"

text \<open>
  The names every object inherits, with the value (a function, given by its text) they have: the
  first assignment through \<open>header[name] !== undefined\<close> finds it and makes an array. \<open>__proto__\<close> is
  the exception: it sets the prototype and creates no property.
\<close>

definition inherited_names :: "string list" where
  "inherited_names = [''constructor'', ''__defineGetter__'', ''__defineSetter__'', ''hasOwnProperty'',
     ''__lookupGetter__'', ''__lookupSetter__'', ''isPrototypeOf'', ''propertyIsEnumerable'', ''toString'',
     ''valueOf'', ''toLocaleString'']"

definition native :: "jsstr \<Rightarrow> jsstr" where
  "native name = js ''function '' @ (if name = js ''constructor'' then js ''Object'' else name) @
     js ''() { [native code] }''"

definition add_header :: "jsstr \<Rightarrow> jsstr \<Rightarrow> header \<Rightarrow> header" where
  "add_header name val out =
     (case map_of out name of
        None \<Rightarrow> if name = js ''__proto__'' then out
                else if name \<in> set (map js inherited_names) then obj_put name (Many [native name, val]) out
                else obj_put name (One val) out
      | Some (Many vs) \<Rightarrow> obj_put name (Many (vs @ [val])) out
      | Some (One v) \<Rightarrow> obj_put name (Many [v, val]) out)"

fun hval_str :: "hval \<Rightarrow> jsstr" where
  "hval_str (One v) = v"
| "hval_str (Many vs) = join_with [44] vs"

text \<open>\<open>header[name]\<close> when it is truthy.\<close>

definition hget :: "header \<Rightarrow> string \<Rightarrow> hval option" where
  "hget h name = (case map_of h (js name) of Some (One v) \<Rightarrow> if v = [] then None else Some (One v) | x \<Rightarrow> x)"

section \<open>Request line and status line\<close>

text \<open>\<open>/^([A-Za-z]+)\s+(.*?)\s+HTTP\/(\d+\.\d+)$/\<close>: method, url, digits before and after the dot.\<close>

definition is_letter :: "code_unit \<Rightarrow> bool" where
  "is_letter c \<longleftrightarrow> (65 \<le> c \<and> c \<le> 90) \<or> (97 \<le> c \<and> c \<le> 122)"

definition is_line_end :: "code_unit \<Rightarrow> bool" where
  "is_line_end c \<longleftrightarrow> c = 10 \<or> c = 13 \<or> c = 0x2028 \<or> c = 0x2029"

definition version_tail :: "jsstr \<Rightarrow> (jsstr \<times> jsstr) option" where
  "version_tail s =
     (let t = dropWhile is_space s; r = drop 5 t; ds = takeWhile is_dec r; r' = drop (length ds) r;
          es = takeWhile is_dec (tl r')
      in if s \<noteq> [] \<and> is_space (hd s) \<and> starts_with t (js ''HTTP/'') \<and> ds \<noteq> [] \<and> starts_with r' [46] \<and>
            es \<noteq> [] \<and> es = tl r' then Some (ds, es) else None)"

fun lazy_url :: "jsstr \<Rightarrow> jsstr \<Rightarrow> (jsstr \<times> jsstr \<times> jsstr) option" where
  "lazy_url acc s =
     (case version_tail s of
        Some (ds, es) \<Rightarrow> Some (acc, ds, es)
      | None \<Rightarrow> (case s of [] \<Rightarrow> None
          | c # r \<Rightarrow> if is_line_end c then None else lazy_url (acc @ [c]) r))"

text \<open>The white space after the method gives characters back until the rest matches.\<close>

fun try_spaces :: "nat \<Rightarrow> jsstr \<Rightarrow> (jsstr \<times> jsstr \<times> jsstr) option" where
  "try_spaces 0 s = None"
| "try_spaces (Suc k) s = (case lazy_url [] (drop (Suc k) s) of Some x \<Rightarrow> Some x | None \<Rightarrow> try_spaces k s)"

definition match_request :: "jsstr \<Rightarrow> (jsstr \<times> jsstr \<times> jsstr \<times> jsstr) option" where
  "match_request line =
     (let m = takeWhile is_letter line; r = drop (length m) line
      in if m = [] then None
         else map_option (\<lambda>(url, ds, es). (m, url, ds, es)) (try_spaces (length (takeWhile is_space r)) r))"

text \<open>\<open>/HTTP\/[\d.]+\s+(\d+)\s*(.*)/\<close>, searched anywhere in the line.\<close>

definition status_at :: "jsstr \<Rightarrow> (jsstr \<times> jsstr) option" where
  "status_at s =
     (let v = takeWhile (\<lambda>c. is_dec c \<or> c = 46) (drop 5 s); r = drop (5 + length v) s;
          t = dropWhile is_space r; ds = takeWhile is_dec t;
          info = takeWhile (\<lambda>c. \<not> is_line_end c) (dropWhile is_space (drop (length ds) t))
      in if starts_with s (js ''HTTP/'') \<and> v \<noteq> [] \<and> r \<noteq> t \<and> ds \<noteq> [] then Some (ds, info) else None)"

fun match_status :: "jsstr \<Rightarrow> (jsstr \<times> jsstr) option" where
  "match_status [] = None"
| "match_status (c # s) = (case status_at (c # s) of Some x \<Rightarrow> Some x | None \<Rightarrow> match_status s)"

section \<open>Reading back the lines that were written\<close>

lemma encode_utf8_append:
  "a = [] \<or> b = [] \<or> \<not> is_high (last a) \<or> \<not> is_low (hd b) \<Longrightarrow> encode_utf8 (a @ b) = encode_utf8 a @ encode_utf8 b"
proof (induction a rule: encode_utf8.induct)
  case (2 c)
  then show ?case by (cases b) auto
next
  case (3 c d cs)
  then show ?case by (cases "cs = []") (auto split: if_splits)
qed simp

lemma not_surrogate [simp]: "\<not> is_high 13" "\<not> is_low 13" "\<not> is_high 10" "\<not> is_low 10"
  by (simp_all add: is_high_def is_low_def)

lemma encode_cp_ascii: "n < 128 \<Longrightarrow> encode_cp n = [to_byte n]"
  by (simp add: encode_cp_def)

lemma encode_ascii_Cons: "unat c < 128 \<Longrightarrow> encode_utf8 (c # s) = to_byte (unat c) # encode_utf8 s"
  by (cases s) (auto simp: encode_cp_ascii surrogate_bounds)

lemma encode_crlf: "encode_utf8 (s @ crlf @ t) = encode_utf8 s @ [13, 10] @ encode_utf8 t"
proof -
  have "encode_utf8 (crlf @ t) = [13, 10] @ encode_utf8 t"
    by (simp add: crlf_def encode_ascii_Cons encode_cp_ascii to_byte_def)
  then show ?thesis using encode_utf8_append [of s "crlf @ t"] by (simp add: crlf_def)
qed

lemma multibyte:
  assumes "128 \<le> cp" "cp < 0x110000" "b \<in> set (encode_cp cp)"
  shows "128 \<le> unat b"
proof -
  have c: "128 \<le> unat (to_byte (128 OR x mod 64))" for x
    using cont_byte(1) [of "x mod 64"] by (simp add: is_cont_iff)
  have d: "x < 64 \<Longrightarrow> 128 \<le> (192 + x) mod 256" "x < 32 \<Longrightarrow> 128 \<le> (224 + x) mod 256"
    "x < 16 \<Longrightarrow> 128 \<le> (240 + x) mod (256 :: nat)" for x
    by (linarith | subst mod_less)+
  consider "cp < 0x800" | "0x800 \<le> cp" "cp < 0x10000" | "0x10000 \<le> cp" by linarith
  then show ?thesis
  proof cases
    case 1
    then show ?thesis using assms c d(1) [of "cp div 64"] less_mult_imp_div_less [of cp 32 64]
      by (auto simp: encode_cp_simps simp del: or_lead)
  next
    case 2
    then show ?thesis using assms c d(2) [of "cp div 4096"] less_mult_imp_div_less [of cp 16 4096]
      by (auto simp: encode_cp_simps)
  next
    case 3
    then show ?thesis using assms c d(3) [of "cp div 262144"] less_mult_imp_div_less [of cp 5 262144]
      by (auto simp: encode_cp_simps)
  qed
qed

lemma cr_encode_cp: "cp < 0x110000 \<Longrightarrow> 13 \<in> set (encode_cp cp) \<Longrightarrow> cp = 13"
proof -
  assume a: "cp < 0x110000" "13 \<in> set (encode_cp cp)"
  have l: "cp < 128" using multibyte [of cp 13] a by (cases "cp < 128") auto
  then have "to_byte cp = 13" using a(2) by (simp add: encode_cp_ascii)
  then have "unat (to_byte cp) = unat (13 :: byte)" by simp
  then show "cp = 13" using l by simp
qed

lemma cr_encode_utf8: "13 \<notin> set s \<Longrightarrow> 13 \<notin> set (encode_utf8 s)"
proof (induction s rule: encode_utf8.induct)
  case (2 c)
  have "unat c = 13 \<Longrightarrow> c = 13" using to_unit_unat [of c] by (simp add: to_unit_def)
  then show ?case using cr_encode_cp [of "unat c"] from_cp_unit [of c] 2 by auto
next
  case (3 c d cs)
  have *: "unat c = 13 \<Longrightarrow> c = 13" using to_unit_unat [of c] by (simp add: to_unit_def)
  show ?case
  proof (cases "is_high c \<and> is_low d")
    case True
    then have "13 \<notin> set (encode_cp (pair_cp c d))"
      using cr_encode_cp [of "pair_cp c d"] from_cp_pair [of c d] by (auto simp: pair_cp_arith)
    then show ?thesis using 3 True by simp
  next
    case False
    then have "13 \<notin> set (encode_cp (unat c))"
      using cr_encode_cp [of "unat c"] from_cp_unit [of c] 3 * by auto
    then show ?thesis using 3 False by auto
  qed
qed simp

lemma index_of_crlf: "13 \<notin> set a \<Longrightarrow> index_of (a @ 13 # 10 # r) [13, 10 :: byte] = Some (length a)"
  by (induction a) (auto simp: starts_with_def)

lemma next_line_encode: "13 \<notin> set line \<Longrightarrow> next_line (encode_utf8 line @ 13 # 10 # r) = Some (line, r)"
  by (simp add: next_line_def index_of_crlf cr_encode_utf8 decode_encode_utf8_all)

lemma next_line_empty: "next_line (13 # 10 # r) = Some ([], r)"
  using next_line_encode [of "[]"] by simp

end
