(* ===== verification/Ws_Session.thy ===== *)
theory Ws_Session
  imports Ws_Frame Http_Text
begin

text \<open>
  \<open>packages/websocket/lib/websocket-core.js\<close> above the frame codec, with the HTTP helpers of
  \<open>packages/websocket/lib/adapters.js\<close>: the handshakes, the message loops of server and client,
  the pool of connections and the URL parser. The bytes that the peer will still send are a list;
  what the connection does (buffers written, callbacks called, the socket destroyed) is its
  \<open>outputs\<close>. The digests of the C layer are parameters.
\<close>

section \<open>HTTP lines\<close>

function recv_header :: "bytes \<Rightarrow> jsstr list \<Rightarrow> (jsstr list \<times> bytes) option" where
  "recv_header s lines =
     (case next_line s of None \<Rightarrow> None
      | Some (line, r) \<Rightarrow> if line = [] then Some (lines, r) else recv_header r (lines @ [line]))"
  by pat_completeness auto
termination
  by (relation "measure (\<lambda>(s, l). length s)") (auto simp: next_line_def dest: index_of_le split: option.splits)

declare recv_header.simps [simp del]

fun parse_header :: "jsstr list \<Rightarrow> header \<Rightarrow> header" where
  "parse_header [] out = out"
| "parse_header (line # lines) out =
     (case index_of_char line 58 of
        None \<Rightarrow> parse_header lines out
      | Some colon \<Rightarrow>
          parse_header lines
            (add_header (to_lower (trim (take colon line))) (trim (drop (colon + 1) line)) out))"

definition write_response :: "nat \<Rightarrow> jsstr \<Rightarrow> jsstr" where
  "write_response code reason = js ''HTTP/1.1 '' @ dec code @ [32] @ reason @ crlf @ crlf"

section \<open>Connections\<close>

datatype ws_call = CbConnect | CbHandshake header jsstr | CbMessage bytes opcode | CbPing | CbPong
  | CbClose "(nat option \<times> jsstr) option" | CbError

datatype ws_out = Wrote bytes | Called ws_call | Destroyed

text \<open>\<open>in_pool\<close>: the id of the connection is a key of \<open>wsPool\<close>.\<close>

record ws =
  in_pool :: bool
  ws_closed :: bool
  real_ip :: "hval option"
  outputs :: "ws_out list"

definition new_ws :: ws where
  "new_ws = \<lparr>in_pool = True, ws_closed = False, real_ip = None, outputs = []\<rparr>"

definition close_websocket :: "ws \<Rightarrow> ws" where
  "close_websocket w = w\<lparr>in_pool := False, ws_closed := True,
     outputs := outputs w @ (if ws_closed w then [] else [Destroyed])\<rparr>"

definition emit :: "bytes list \<Rightarrow> ws \<Rightarrow> ws" where
  "emit bufs w = w\<lparr>outputs := outputs w @ map Wrote bufs\<rparr>"

text \<open>
  \<open>write\<close>, \<open>ping\<close> and \<open>close\<close> of the API; \<open>mk\<close> is the random key of a client, absent on a server.
  \<open>None\<close> is the error of an unknown id.
\<close>

definition ws_write :: "bytes option \<Rightarrow> bytes \<Rightarrow> opcode \<Rightarrow> ws \<Rightarrow> ws option" where
  "ws_write mk data fmt w =
     (if \<not> in_pool w then None
      else if fmt \<noteq> OpText \<and> fmt \<noteq> OpBinary then None
      else Some (emit (fst (write_frame fmt data mk)) w))"

definition ws_ping :: "bytes option \<Rightarrow> ws \<Rightarrow> ws option" where
  "ws_ping mk w = (if \<not> in_pool w then None else Some (emit (fst (write_frame OpPing [] mk)) w))"

definition ws_close :: "bytes option \<Rightarrow> nat option \<Rightarrow> jsstr \<Rightarrow> ws \<Rightarrow> ws" where
  "ws_close mk code reason w =
     (if \<not> in_pool w then w
      else let p = (case code of None \<Rightarrow> [] | Some c \<Rightarrow> u16 c @ encode_utf8 reason)
           in close_websocket (emit (fst (write_frame OpClose p mk)) w))"

text \<open>
  What the program's callback does: nothing, close the connection, or throw \<open>SOCKET_ERROR\<close> (any
  other error is logged and forgotten). \<open>None\<close>: the handler object has no such method.
\<close>

datatype reaction = Returns | Closes "nat option" jsstr | ThrowsSocketError

type_synonym ws_handler = "ws_call \<Rightarrow> reaction option"

definition try_handle :: "ws_handler \<Rightarrow> ws_call \<Rightarrow> ws \<Rightarrow> bool \<times> ws" where
  "try_handle h c w =
     (case h c of
        None \<Rightarrow> (False, w)
      | Some r \<Rightarrow>
          let w' = w\<lparr>outputs := outputs w @ [Called c]\<rparr>
          in case r of
               Returns \<Rightarrow> (False, w')
             | Closes code reason \<Rightarrow> (False, ws_close None code reason w')
             | ThrowsSocketError \<Rightarrow> (True, w'))"

section \<open>Server handshake\<close>

text \<open>\<open>parseFloat(ds + "." + es) < 1.1\<close>.\<close>

definition below_1_1 :: "jsstr \<Rightarrow> jsstr \<Rightarrow> bool" where
  "below_1_1 ds es \<longleftrightarrow> digits_value 10 (ds @ es) * 10 < 11 * 10 ^ length es"

datatype handshake = HsFail nat jsstr | HsThrows | HsOk header jsstr

definition guid :: jsstr where "guid = js ''258EAFA5-E914-47DA-95CA-C5AB0DC85B11''"

text \<open>The primitives of the C layer that the handshake uses.\<close>

record crypt =
  sha1 :: "bytes \<Rightarrow> bytes"
  b64_encode :: "bytes \<Rightarrow> jsstr"
  b64_decode :: "jsstr \<Rightarrow> bytes"

definition accept_key :: "crypt \<Rightarrow> jsstr \<Rightarrow> jsstr" where
  "accept_key C key = b64_encode C (sha1 C (encode_utf8 (key @ guid)))"

fun split_runs :: "('a \<Rightarrow> bool) \<Rightarrow> 'a list \<Rightarrow> 'a list \<Rightarrow> 'a list list" where
  "split_runs P acc [] = [acc]"
| "split_runs P acc (c # cs) =
     (if P c then acc # split_runs P [] (dropWhile P cs) else split_runs P (acc @ [c]) cs)"

definition has_chat :: "jsstr \<Rightarrow> bool" where
  "has_chat s = (js ''chat'' \<in> set (split_runs (\<lambda>c. is_space c \<or> c = 44) [] s))"

definition accept_response :: "crypt \<Rightarrow> jsstr \<Rightarrow> bool \<Rightarrow> jsstr" where
  "accept_response C key chat =
     js ''HTTP/1.1 101 Switching Protocols'' @ crlf @ js ''Upgrade: websocket'' @ crlf @
     js ''Connection: Upgrade'' @ crlf @ js ''Sec-WebSocket-Accept: '' @ accept_key C key @ crlf @
     (if chat then js ''Sec-WebSocket-Protocol: chat'' @ crlf else []) @ crlf"

text \<open>The validation of the header, and the answer 101 when it passes.\<close>

definition check_upgrade :: "crypt \<Rightarrow> header \<Rightarrow> jsstr \<Rightarrow> ws \<Rightarrow> handshake \<times> ws" where
  "check_upgrade C h url w =
     (case hget h ''upgrade'' of
        None \<Rightarrow> (HsFail 426 (js ''Upgrade Required''), w)
      | Some (Many _) \<Rightarrow> (HsThrows, w)
      | Some (One up) \<Rightarrow>
          if to_lower up \<noteq> js ''websocket'' then (HsFail 426 (js ''Upgrade Required''), w)
          else if hget h ''host'' = None then (HsFail 400 (js ''host Required''), w)
          else (case hget h ''connection'' of
            None \<Rightarrow> (HsFail 400 (js ''Connection must Upgrade''), w)
          | Some (Many _) \<Rightarrow> (HsThrows, w)
          | Some (One con) \<Rightarrow>
              if index_of (to_lower con) (js ''upgrade'') = None
              then (HsFail 400 (js ''Connection must Upgrade''), w)
              else (case hget h ''sec-websocket-key'' of
                None \<Rightarrow> (HsFail 400 (js ''Sec-WebSocket-Key Required''), w)
              | Some key \<Rightarrow>
                  if length (b64_decode C (hval_str key)) \<noteq> 16
                  then (HsFail 400 (js ''Sec-WebSocket-Key invalid''), w)
                  else if hget h ''sec-websocket-version'' \<noteq> Some (One (js ''13''))
                  then (HsFail 400 (js ''Sec-WebSocket-Version must 13''), w)
                  else (case hget h ''sec-websocket-protocol'' of
                      Some (Many _) \<Rightarrow> (HsThrows, w)
                    | p \<Rightarrow>
                        let chat = (case p of Some (One v) \<Rightarrow> has_chat v | _ \<Rightarrow> False)
                        in (HsOk h url,
                            emit [encode_utf8 (accept_response C (hval_str key) chat)]
                              (w\<lparr>real_ip := hget h ''x-real-ip''\<rparr>))))))"

text \<open>
  \<open>readHandshake\<close>: the upgrade an HTTP server has parsed already, or the request at the front of
  the stream. The result has the bytes left; \<open>None\<close> is \<open>SOCKET_ERROR\<close>.
\<close>

definition read_handshake ::
  "crypt \<Rightarrow> (header \<times> jsstr) option \<Rightarrow> bytes \<Rightarrow> ws \<Rightarrow> (handshake \<times> ws \<times> bytes) option" where
  "read_handshake C upgradeOps input w =
     (case upgradeOps of
        Some (h, url) \<Rightarrow> (case check_upgrade C h url w of (r, w') \<Rightarrow> Some (r, w', input))
      | None \<Rightarrow>
          (case recv_header input [] of
             None \<Rightarrow> None
           | Some ([], rest) \<Rightarrow> Some (HsFail 400 [], w, rest)
           | Some (requestLine # lines, rest) \<Rightarrow>
               (case match_request requestLine of
                  None \<Rightarrow> Some (HsFail 400 (js ''Bad Request''), w, rest)
                | Some (m, url, ds, es) \<Rightarrow>
                    if m \<noteq> js ''GET'' then Some (HsFail 400 (js ''need GET method''), w, rest)
                    else if below_1_1 ds es then Some (HsFail 505 [], w, rest)
                    else (case check_upgrade C (parse_header lines []) url w of (r, w') \<Rightarrow> Some (r, w', rest)))))"

section \<open>Message loops\<close>

lemma read_frame_length: "read_frame mode s = (Inr f, r) \<Longrightarrow> length r + 2 \<le> length s"
  by (auto simp: read_frame_def read_n_def read_length_def Let_def split: option.splits if_splits prod.splits)

text \<open>
  The variables \<open>recvBuf\<close>, \<open>recvCount\<close> and \<open>firstOp\<close> of both loops, and what they do with a data
  frame: the new variables, and the message when the frame completes one.
\<close>

record assembly =
  recvBuf :: "bytes list"
  recvCount :: nat
  firstOp :: "opcode option"

definition no_fragments :: assembly where
  "no_fragments = \<lparr>recvBuf = [], recvCount = 0, firstOp = None\<rparr>"

definition data_frame :: "frame \<Rightarrow> assembly \<Rightarrow> ws_error + assembly \<times> (bytes \<times> opcode) option" where
  "data_frame f a =
     (if fin f \<and> recvBuf a = [] then Inr (a, Some (payload f, opcode f))
      else let buf = recvBuf a @ [payload f]; count = recvCount a + length (payload f) in
        if count > max_frame_size then Inl PayloadTooLarge
        else let op = (case firstOp a of None \<Rightarrow> opcode f | Some x \<Rightarrow> x) in
          if fin f then Inr (no_fragments, Some (concat buf, op))
          else Inr (\<lparr>recvBuf = buf, recvCount = count, firstOp = Some op\<rparr>, None))"

text \<open>
  One turn of the loop of \<open>resolveAccept\<close>, after \<open>readFrame\<close>: it ends the loop (with what it
  throws) or goes on.
\<close>

definition server_frame ::
  "ws_handler \<Rightarrow> frame \<Rightarrow> assembly \<Rightarrow> ws \<Rightarrow> (ws_error option \<times> ws) + assembly \<times> ws" where
  "server_frame h f a w =
     (if opcode f = OpClose
      then (case try_handle h (CbClose (Some (read_close (payload f))))
                   (emit (fst (write_frame OpClose [] None)) w) of
              (t, w') \<Rightarrow> Inl (if t then Some SocketErr else None, w'))
      else if opcode f = OpPing
      then (case try_handle h CbPing (emit (fst (write_frame OpPong (payload f) None)) w) of
              (t, w') \<Rightarrow> if t then Inl (Some SocketErr, w') else Inr (a, w'))
      else if opcode f = OpPong
      then (case try_handle h CbPong w of
              (t, w') \<Rightarrow> if t then Inl (Some SocketErr, w') else Inr (a, w'))
      else case data_frame f a of
             Inl e \<Rightarrow> Inl (Some e, w)
           | Inr (a', None) \<Rightarrow> Inr (a', w)
           | Inr (a', Some (p, c)) \<Rightarrow>
               (case try_handle h (CbMessage p c) w of
                  (t, w') \<Rightarrow> if t then Inl (Some SocketErr, w') else Inr (a', w')))"

function accept_loop :: "ws_handler \<Rightarrow> bytes \<Rightarrow> assembly \<Rightarrow> ws \<Rightarrow> ws_error option \<times> ws" where
  "accept_loop h input a w =
     (if \<not> in_pool w
      then (case try_handle h (CbClose None) w of (t, w') \<Rightarrow> (if t then Some SocketErr else None, w'))
      else case read_frame Server input of
        (Inl e, r) \<Rightarrow> (Some e, w)
      | (Inr f, r) \<Rightarrow>
          (case server_frame h f a w of
             Inl x \<Rightarrow> x
           | Inr (a', w') \<Rightarrow> accept_loop h r a' w'))"
  by pat_completeness auto
termination
  by (relation "measure (\<lambda>(h, input, x). length input)") (auto dest!: read_frame_length [OF sym])

declare accept_loop.simps [simp del]

definition resolve_accept ::
  "crypt \<Rightarrow> ws_handler \<Rightarrow> (header \<times> jsstr) option \<Rightarrow> bytes \<Rightarrow> ws \<Rightarrow> ws_error option \<times> ws" where
  "resolve_accept C h upgradeOps input w =
     (case try_handle h CbConnect w of
        (True, w1) \<Rightarrow> (Some SocketErr, w1)
      | (False, w1) \<Rightarrow>
          (case read_handshake C upgradeOps input w1 of
             None \<Rightarrow> (Some SocketErr, w1)
           | Some (HsThrows, w2, rest) \<Rightarrow> (Some (BadHandshake 0), w2)
           | Some (HsFail code reason, w2, rest) \<Rightarrow>
               (case try_handle h (CbClose None) (emit [encode_utf8 (write_response code reason)] w2) of
                  (t, w3) \<Rightarrow> (if t then Some SocketErr else None, w3))
           | Some (HsOk hdr url, w2, rest) \<Rightarrow>
               (case try_handle h (CbHandshake hdr url) w2 of
                  (True, w3) \<Rightarrow> (Some SocketErr, w3)
                | (False, w3) \<Rightarrow> accept_loop h rest no_fragments w3)))"

text \<open>\<open>accept\<close> on a plain socket: what its promise resolves to (\<open>None\<close>: it rejects).\<close>

definition ws_accept ::
  "crypt \<Rightarrow> ws_handler \<Rightarrow> (header \<times> jsstr) option \<Rightarrow> bytes \<Rightarrow> bool option \<times> ws" where
  "ws_accept C h upgradeOps input =
     (case resolve_accept C h upgradeOps input new_ws of
        (Some e, w) \<Rightarrow>
          let gone = \<not> in_pool w; w' = (if gone then w else close_websocket w)
          in if e = SocketErr
             then (case try_handle h (if gone then CbClose None else CbError) w' of
                     (t, w'') \<Rightarrow> (if t then None else Some True, w''))
             else (Some False, w')
      | (None, w) \<Rightarrow> (Some True, if \<not> in_pool w then close_websocket w else w))"

text \<open>
  \<open>read\<close> of the API; \<open>key n\<close> is the random mask that a client draws when \<open>n\<close> bytes are left. The
  result has the bytes left.
\<close>

datatype ws_message = Message bytes opcode | Closed "nat option" jsstr

definition client_frame ::
  "ws_mode \<Rightarrow> bytes \<Rightarrow> frame \<Rightarrow> assembly \<Rightarrow> ws \<Rightarrow> ((ws_error + ws_message) \<times> ws) + assembly \<times> ws" where
  "client_frame mode key f a w =
     (if opcode f = OpClose
      then (case read_close (payload f) of (c, t) \<Rightarrow> Inl (Inr (Closed c t), close_websocket w))
      else if opcode f = OpPing
      then Inr (a, emit (fst (write_frame OpPong (payload f) (if mode = Client then Some key else None))) w)
      else if opcode f = OpPong then Inr (a, w)
      else case data_frame f a of
             Inl e \<Rightarrow> Inl (Inl e, w)
           | Inr (a', None) \<Rightarrow> Inr (a', w)
           | Inr (a', Some (p, c)) \<Rightarrow> Inl (Inr (Message p c), w))"

function read_loop ::
  "ws_mode \<Rightarrow> (nat \<Rightarrow> bytes) \<Rightarrow> bytes \<Rightarrow> assembly \<Rightarrow> ws \<Rightarrow> (ws_error + ws_message) \<times> ws \<times> bytes" where
  "read_loop mode key input a w =
     (case read_frame mode input of
        (Inl e, r) \<Rightarrow> (Inl e, w, r)
      | (Inr f, r) \<Rightarrow>
          (case client_frame mode (key (length r)) f a w of
             Inl (x, w') \<Rightarrow> (x, w', r)
           | Inr (a', w') \<Rightarrow> read_loop mode key r a' w'))"
  by pat_completeness auto
termination
  by (relation "measure (\<lambda>(m, k, input, x). length input)") (auto dest!: read_frame_length [OF sym])

declare read_loop.simps [simp del]

definition ws_read :: "ws_mode \<Rightarrow> (nat \<Rightarrow> bytes) \<Rightarrow> bytes \<Rightarrow> ws \<Rightarrow> ((ws_error + ws_message) \<times> ws \<times> bytes) option" where
  "ws_read mode key input w = (if \<not> in_pool w then None else Some (read_loop mode key input no_fragments w))"


section \<open>Client handshake\<close>

definition base_headers :: "jsstr \<Rightarrow> (jsstr \<times> jsstr) list" where
  "base_headers key = [(js ''Upgrade'', js ''websocket''), (js ''Connection'', js ''Upgrade''),
     (js ''Sec-WebSocket-Version'', js ''13''), (js ''Sec-WebSocket-Key'', key)]"

text \<open>The headers of the program are assigned over the base headers, one after the other.\<close>

definition request_headers :: "jsstr \<Rightarrow> (jsstr \<times> jsstr) list \<Rightarrow> (jsstr \<times> jsstr) list" where
  "request_headers key hdr = foldl (\<lambda>out p. obj_put (fst p) (snd p) out) (base_headers key) hdr"

definition header_line :: "jsstr \<times> jsstr \<Rightarrow> jsstr" where
  "header_line p = fst p @ js '': '' @ snd p @ crlf"

definition build_request :: "jsstr \<Rightarrow> jsstr \<Rightarrow> jsstr \<Rightarrow> (jsstr \<times> jsstr) list \<Rightarrow> jsstr" where
  "build_request host url key hdr =
     js ''GET '' @ url @ js '' HTTP/1.1'' @ crlf @ header_line (js ''Host'', host) @
     concat (map header_line (request_headers key hdr)) @ crlf"

datatype client_error = RecvFailed | BadStatusLine | BadStatus nat jsstr | NotWebsocket | NotUpgrade
  | NoAccept | WrongAccept | HeaderIsArray

definition check_response :: "crypt \<Rightarrow> jsstr \<Rightarrow> jsstr list \<Rightarrow> client_error option" where
  "check_response C key lines =
     (case lines of
        [] \<Rightarrow> Some RecvFailed
      | status # rest \<Rightarrow>
          (case match_status status of
             None \<Rightarrow> Some BadStatusLine
           | Some (ds, info) \<Rightarrow>
               if digits_value 10 ds \<noteq> 101 then Some (BadStatus (digits_value 10 ds) info)
               else let h = parse_header rest [] in
                 (case hget h ''upgrade'' of
                    None \<Rightarrow> Some NotWebsocket
                  | Some (Many _) \<Rightarrow> Some HeaderIsArray
                  | Some (One up) \<Rightarrow>
                      if to_lower up \<noteq> js ''websocket'' then Some NotWebsocket
                      else (case hget h ''connection'' of
                        None \<Rightarrow> Some NotUpgrade
                      | Some (Many _) \<Rightarrow> Some HeaderIsArray
                      | Some (One con) \<Rightarrow>
                          if to_lower con \<noteq> js ''upgrade'' then Some NotUpgrade
                          else (case hget h ''sec-websocket-accept'' of
                            None \<Rightarrow> Some NoAccept
                          | Some v \<Rightarrow> if v \<noteq> One (accept_key C key) then Some WrongAccept else None)))))"

text \<open>\<open>writeHandshake\<close> with the random bytes \<open>rk\<close>; what it throws and the bytes left.\<close>

definition write_handshake ::
  "crypt \<Rightarrow> bytes \<Rightarrow> jsstr \<Rightarrow> jsstr \<Rightarrow> (jsstr \<times> jsstr) list \<Rightarrow> bytes \<Rightarrow> ws \<Rightarrow>
   (ws_error + client_error option \<times> bytes) \<times> ws" where
  "write_handshake C rk host url hdr input w =
     (let key = b64_encode C rk; w' = emit [encode_utf8 (build_request host url key hdr)] w
      in case recv_header input [] of
           None \<Rightarrow> (Inl SocketErr, w')
         | Some (lines, rest) \<Rightarrow> (Inr (check_response C key lines, rest), w'))"

text \<open>\<open>connect\<close> once the socket is open: a failed handshake closes the connection.\<close>

definition ws_connect ::
  "crypt \<Rightarrow> bytes \<Rightarrow> jsstr \<Rightarrow> jsstr \<Rightarrow> (jsstr \<times> jsstr) list \<Rightarrow> bytes \<Rightarrow> bool \<times> ws \<times> bytes" where
  "ws_connect C rk host url hdr input =
     (case write_handshake C rk host url hdr input new_ws of
        (Inr (None, rest), w) \<Rightarrow> (True, w, rest)
      | (_, w) \<Rightarrow> (False, close_websocket w, []))"

section \<open>URLs\<close>

record ws_url =
  protocol :: jsstr
  host :: jsstr
  hostAddr :: jsstr
  hostPort :: nat
  hostname :: "jsstr option"
  uri :: jsstr

text \<open>\<open>/^([^:]+):?(\d*)$/\<close> on the host.\<close>

definition split_host :: "jsstr \<Rightarrow> (jsstr \<times> jsstr) option" where
  "split_host s =
     (let a = takeWhile (\<lambda>c. c \<noteq> 58) s; r = drop (length a) s
      in if a = [] then None
         else if r = [] then Some (a, [])
         else if list_all is_dec (tl r) then Some (a, tl r) else None)"

definition parse_ws_url :: "jsstr \<Rightarrow> ws_url option" where
  "parse_ws_url url =
     (let secure = starts_with url (js ''wss://''); plain = starts_with url (js ''ws://'');
          rest = drop (if secure then 6 else 5) url;
          h = takeWhile (\<lambda>c. c \<noteq> 47) rest; u = drop (length h) rest
      in if \<not> secure \<and> \<not> plain \<or> h = [] \<or> list_ex is_line_end u then None
         else (case split_host h of
           None \<Rightarrow> None
         | Some (a, port) \<Rightarrow>
             let p = digits_value 10 port
             in Some \<lparr>protocol = (if secure then js ''wss'' else js ''ws''), host = h, hostAddr = a,
                      hostPort = (if p = 0 then if secure then 443 else 80 else p),
                      hostname = (if is_dec (last a) then None else Some a),
                      uri = (if u = [] then [47] else u)\<rparr>))"

section \<open>No message above the limit\<close>

definition bounded :: "ws \<Rightarrow> bool" where
  "bounded w \<longleftrightarrow> (\<forall>p c. Called (CbMessage p c) \<in> set (outputs w) \<longrightarrow> length p \<le> max_frame_size)"

lemma bounded_emit [simp]: "bounded (emit bufs w) = bounded w"
  by (auto simp: bounded_def emit_def)

lemma bounded_close [simp]: "bounded (close_websocket w) = bounded w" "bounded (ws_close mk code reason w) = bounded w"
  by (auto simp: bounded_def close_websocket_def ws_close_def emit_def Let_def)

lemma bounded_handle:
  assumes "try_handle h c w = (t, w')" "bounded w" "\<And>p op. c = CbMessage p op \<Longrightarrow> length p \<le> max_frame_size"
  shows "bounded w'"
proof -
  have "bounded (w\<lparr>outputs := outputs w @ [Called c]\<rparr>)" using assms(2,3) by (auto simp: bounded_def)
  then show ?thesis using assms(1,2) by (auto simp: try_handle_def Let_def split: option.splits reaction.splits)
qed

lemma read_frame_server: "read_frame Server s = (Inr f, r) \<Longrightarrow> length (payload f) \<le> max_frame_size"
  by (auto simp: read_frame_def read_n_def Let_def split: option.splits if_splits prod.splits)

text \<open>\<open>recvCount\<close> is the length of what \<open>recvBuf\<close> holds.\<close>

definition counted :: "assembly \<Rightarrow> bool" where
  "counted a \<longleftrightarrow> recvCount a = length (concat (recvBuf a))"

lemma data_frame_counted:
  assumes "data_frame f a = Inr (a', m)" "counted a"
  shows "counted a'" "length (payload f) \<le> max_frame_size \<Longrightarrow> m = Some (p, c) \<Longrightarrow> length p \<le> max_frame_size"
  using assms by (auto simp: data_frame_def Let_def counted_def no_fragments_def split: if_splits)

lemma server_frame_bounded:
  assumes "length (payload f) \<le> max_frame_size" "counted a" "bounded w"
  shows "case server_frame h f a w of Inl (e, w') \<Rightarrow> bounded w' | Inr (a', w') \<Rightarrow> counted a' \<and> bounded w'"
proof (cases "opcode f \<in> {OpClose, OpPing, OpPong}")
  case True
  then show ?thesis using assms(2,3)
    by (auto simp: server_frame_def split: prod.split if_split dest: bounded_handle)
next
  case False
  then show ?thesis
  proof (cases "data_frame f a")
    case (Inr p)
    then obtain a' m where d: "data_frame f a = Inr (a', m)" by (cases p) auto
    show ?thesis
    proof (cases m)
      case (Some q)
      then obtain p c where q: "m = Some (p, c)" by (cases q) auto
      obtain t w' where t: "try_handle h (CbMessage p c) w = (t, w')" by fastforce
      have "bounded w'" using bounded_handle [OF t assms(3)] data_frame_counted(2) [OF d assms(2,1) q] by auto
      then show ?thesis using False d q t data_frame_counted(1) [OF d assms(2)] by (auto simp: server_frame_def)
    qed (use False d data_frame_counted(1) [OF d assms(2)] assms(3) in \<open>auto simp: server_frame_def\<close>)
  qed (use assms(3) in \<open>auto simp: server_frame_def\<close>)
qed

lemma accept_loop_bounded: "counted a \<Longrightarrow> bounded w \<Longrightarrow> bounded (snd (accept_loop h input a w))"
proof (induction h input a w rule: accept_loop.induct)
  case (1 h input a w)
  show ?case
  proof (cases "in_pool w")
    case False
    then show ?thesis using 1(3) by (subst accept_loop.simps) (auto split: prod.splits dest: bounded_handle)
  next
    case True
    obtain x r where x: "read_frame Server input = (x, r)" by fastforce
    show ?thesis
    proof (cases x)
      case (Inl e)
      then show ?thesis using True x 1(3) by (subst accept_loop.simps) simp
    next
      case (Inr f)
      note sf = server_frame_bounded [OF read_frame_server [OF x [unfolded Inr]] 1(2,3), of h]
      then show ?thesis using 1(1) True x Inr
        by (subst accept_loop.simps) (cases "server_frame h f a w", auto)
    qed
  qed
qed

lemma check_upgrade_bounded: "check_upgrade C h url w = (r, w') \<Longrightarrow> bounded w \<Longrightarrow> bounded w'"
proof -
  have *: "bounded (w\<lparr>real_ip := x\<rparr>) = bounded w" for x by (simp add: bounded_def)
  show "check_upgrade C h url w = (r, w') \<Longrightarrow> bounded w \<Longrightarrow> bounded w'"
    by (auto simp: check_upgrade_def Let_def * split: option.splits hval.splits if_splits)
qed

lemma read_handshake_bounded: "read_handshake C up input w = Some (r, w', rest) \<Longrightarrow> bounded w \<Longrightarrow> bounded w'"
  by (auto simp: read_handshake_def split: option.splits list.splits prod.splits if_splits dest: check_upgrade_bounded)

lemma resolve_accept_bounded: "bounded w \<Longrightarrow> bounded (snd (resolve_accept C h up input w))"
proof -
  assume w: "bounded w"
  obtain t w1 where t: "try_handle h CbConnect w = (t, w1)" by fastforce
  have w1: "bounded w1" using bounded_handle [OF t w] by simp
  have loop: "bounded (snd (accept_loop h rest no_fragments w3))" if "bounded w3" for rest w3
    by (rule accept_loop_bounded [OF _ that]) (simp add: counted_def no_fragments_def)
  show ?thesis
  proof (cases "read_handshake C up input w1")
    case None
    then show ?thesis using t w1 by (auto simp: resolve_accept_def split: bool.split)
  next
    case (Some x)
    then obtain r w2 rest where x: "read_handshake C up input w1 = Some (r, w2, rest)" by (cases x) auto
    have w2: "bounded w2" by (rule read_handshake_bounded [OF x w1])
    show ?thesis
    proof (cases r)
      case (HsOk hdr url)
      obtain u w3 where u: "try_handle h (CbHandshake hdr url) w2 = (u, w3)" by fastforce
      have "bounded w3" using bounded_handle [OF u w2] by simp
      then show ?thesis using t x u w1 HsOk loop by (auto simp: resolve_accept_def split: bool.split)
    qed (use t x w1 w2 in \<open>auto simp: resolve_accept_def split: bool.split prod.split dest: bounded_handle\<close>)
  qed
qed

text \<open>The server's limit holds for whole messages: whatever the peer sends, in one frame or in
  any number of fragments, and whatever the callbacks do, no message that reaches the program's
  \<open>message\<close> callback is longer than \<open>MAX_FRAME_SIZE\<close>.\<close>

theorem server_messages_bounded:
  "bounded (snd (ws_accept C h upgradeOps input))"
proof -
  obtain e w where e: "resolve_accept C h upgradeOps input new_ws = (e, w)" by fastforce
  have "bounded new_ws" by (simp add: bounded_def new_ws_def)
  then have w: "bounded w" using resolve_accept_bounded [of new_ws C h upgradeOps input] e by simp
  then show ?thesis using e
    by (auto simp: ws_accept_def Let_def split: option.split prod.split dest: bounded_handle)
qed

section \<open>Reassembly\<close>

text \<open>
  What a peer may send as one message: fragments, with pings and pongs anywhere before the last
  fragment. The first fragment carries the opcode, the last the FIN bit.
\<close>

datatype piece = Fragment bytes | PingPiece bytes | PongPiece bytes

fun is_fragment :: "piece \<Rightarrow> bool" where
  "is_fragment (Fragment _) = True" | "is_fragment _ = False"

fun fragments :: "piece list \<Rightarrow> bytes list" where
  "fragments [] = []"
| "fragments (Fragment p # ps) = p # fragments ps"
| "fragments (_ # ps) = fragments ps"

fun frames_of :: "opcode \<Rightarrow> piece list \<Rightarrow> frame list" where
  "frames_of c [] = []"
| "frames_of c (Fragment p # ps) =
     \<lparr>fin = (fragments ps = []), opcode = c, payload = p\<rparr> # frames_of OpFrame ps"
| "frames_of c (PingPiece p # ps) = \<lparr>fin = True, opcode = OpPing, payload = p\<rparr> # frames_of c ps"
| "frames_of c (PongPiece p # ps) = \<lparr>fin = True, opcode = OpPong, payload = p\<rparr> # frames_of c ps"

definition wire :: "(frame \<times> bytes option) list \<Rightarrow> bytes" where
  "wire fks = concat (map (\<lambda>(f, k). encode_frame f k) fks)"

text \<open>The pongs that answer the pings; a client masks each with the key it draws then.\<close>

fun pongs :: "ws_mode \<Rightarrow> (nat \<Rightarrow> bytes) \<Rightarrow> (frame \<times> bytes option) list \<Rightarrow> bytes \<Rightarrow> bytes list" where
  "pongs mode key [] rest = []"
| "pongs mode key ((f, k) # fks) rest =
     (if opcode f = OpPing
      then fst (write_frame OpPong (payload f)
             (if mode = Client then Some (key (length (wire fks @ rest))) else None))
      else []) @ pongs mode key fks rest"

lemma last_fragment: "ps \<noteq> [] \<Longrightarrow> is_fragment (last ps) \<Longrightarrow> fragments ps \<noteq> []"
  by (induction ps rule: fragments.induct) (auto split: if_splits)

lemma emit_emit: "emit b (emit a w) = emit (a @ b) w" "emit [] w = w"
  by (simp_all add: emit_def)

lemma wire_Cons: "wire ((f, k) # fks) @ rest = encode_frame f k @ wire fks @ rest"
  by (simp add: wire_def)

definition sendable :: "ws_mode \<Rightarrow> frame \<times> bytes option \<Rightarrow> bool" where
  "sendable mode fk \<longleftrightarrow> frame_fits mode (payload (fst fk)) \<and> key_ok (snd fk)"

lemma read_loop_frame:
  assumes "sendable mode (f, k)"
  shows "read_loop mode key (encode_frame f k @ s) a w =
     (case client_frame mode (key (length s)) f a w of
        Inl (x, w') \<Rightarrow> (x, w', s)
      | Inr (a', w') \<Rightarrow> read_loop mode key s a' w')"
  using assms by (subst read_loop.simps) (simp add: read_encode_frame sendable_def)

text \<open>The rest of a fragmented message, of which \<open>a\<close> holds the first fragments.\<close>

lemma read_loop_pieces:
  "map fst fks = frames_of c ps \<Longrightarrow> list_all (sendable mode) fks \<Longrightarrow> ps \<noteq> [] \<Longrightarrow> is_fragment (last ps) \<Longrightarrow>
   c \<notin> {OpClose, OpPing, OpPong} \<Longrightarrow> recvBuf a \<noteq> [] \<Longrightarrow> firstOp a = Some op \<Longrightarrow> counted a \<Longrightarrow>
   length (concat (recvBuf a)) + length (concat (fragments ps)) \<le> max_frame_size \<Longrightarrow>
   read_loop mode key (wire fks @ rest) a w =
     (Inr (Message (concat (recvBuf a) @ concat (fragments ps)) op), emit (pongs mode key fks rest) w, rest)"
proof (induction ps arbitrary: fks c a w)
  case (Cons q ps)
  obtain f k fks' where f: "fks = (f, k) # fks'" using Cons.prems(1) by (cases fks; cases q) auto
  have s: "sendable mode (f, k)" using Cons.prems(2) f by simp
  show ?case
  proof (cases q)
    case (Fragment p)
    show ?thesis
    proof (cases "ps = []")
      case True
      then show ?thesis using Cons.prems f Fragment s unfolding f wire_Cons
        by (auto simp: read_loop_frame client_frame_def data_frame_def Let_def counted_def emit_emit wire_def)
    next
      case False
      then have l: "is_fragment (last ps)" using Cons.prems(4) by simp
      let ?a = "\<lparr>recvBuf = recvBuf a @ [p], recvCount = recvCount a + length p, firstOp = Some op\<rparr>"
      have cf: "client_frame mode x f a w = Inr (?a, w)" "opcode f = c" for x
        using Cons.prems f Fragment last_fragment [OF False l]
        by (auto simp: client_frame_def data_frame_def Let_def counted_def)
      have "read_loop mode key (wire fks' @ rest) ?a w =
        (Inr (Message (concat (recvBuf ?a) @ concat (fragments ps)) op), emit (pongs mode key fks' rest) w, rest)"
        using Cons.prems f Fragment False l
        by (intro Cons.IH [where c = OpFrame]) (auto simp: counted_def)
      then show ?thesis using Fragment cf Cons.prems(5) unfolding f wire_Cons read_loop_frame [OF s] by simp
    qed
  next
    case (PingPiece p)
    then have l: "ps \<noteq> []" "is_fragment (last ps)" using Cons.prems(4) by (auto split: if_splits)
    have "read_loop mode key (wire fks' @ rest) a w' =
      (Inr (Message (concat (recvBuf a) @ concat (fragments ps)) op), emit (pongs mode key fks' rest) w', rest)" for w'
      using Cons.prems f PingPiece l by (intro Cons.IH [where c = c]) auto
    then show ?thesis using PingPiece Cons.prems(1) f unfolding f wire_Cons read_loop_frame [OF s]
      by (auto simp: client_frame_def emit_emit)
  next
    case (PongPiece p)
    then have l: "ps \<noteq> []" "is_fragment (last ps)" using Cons.prems(4) by (auto split: if_splits)
    have "read_loop mode key (wire fks' @ rest) a w =
      (Inr (Message (concat (recvBuf a) @ concat (fragments ps)) op), emit (pongs mode key fks' rest) w, rest)"
      using Cons.prems f PongPiece l by (intro Cons.IH [where c = c]) auto
    then show ?thesis using PongPiece Cons.prems(1) f unfolding f wire_Cons read_loop_frame [OF s]
      by (auto simp: client_frame_def)
  qed
qed simp

lemma read_loop_message:
  "map fst fks = frames_of c ps \<Longrightarrow> list_all (sendable mode) fks \<Longrightarrow> ps \<noteq> [] \<Longrightarrow> is_fragment (last ps) \<Longrightarrow>
   c \<in> {OpText, OpBinary} \<Longrightarrow> length (concat (fragments ps)) \<le> max_frame_size \<Longrightarrow>
   read_loop mode key (wire fks @ rest) no_fragments w =
     (Inr (Message (concat (fragments ps)) c), emit (pongs mode key fks rest) w, rest)"
proof (induction ps arbitrary: fks w)
  case (Cons q ps)
  obtain f k fks' where f: "fks = (f, k) # fks'" using Cons.prems(1) by (cases fks; cases q) auto
  have s: "sendable mode (f, k)" using Cons.prems(2) f by simp
  show ?case
  proof (cases q)
    case (Fragment p)
    show ?thesis
    proof (cases "ps = []")
      case True
      then show ?thesis using Cons.prems f Fragment s unfolding f wire_Cons
        by (auto simp: read_loop_frame client_frame_def data_frame_def no_fragments_def emit_emit wire_def)
    next
      case False
      then have l: "is_fragment (last ps)" using Cons.prems(4) by simp
      let ?a = "\<lparr>recvBuf = [p], recvCount = length p, firstOp = Some c\<rparr>"
      have cf: "client_frame mode x f no_fragments w = Inr (?a, w)" "opcode f = c" for x
        using Cons.prems f Fragment last_fragment [OF False l]
        by (auto simp: client_frame_def data_frame_def Let_def no_fragments_def)
      have "read_loop mode key (wire fks' @ rest) ?a w =
        (Inr (Message (concat (recvBuf ?a) @ concat (fragments ps)) c), emit (pongs mode key fks' rest) w, rest)"
        using Cons.prems f Fragment False l
        by (intro read_loop_pieces [where c = OpFrame]) (auto simp: counted_def)
      then show ?thesis using Fragment cf Cons.prems(5) unfolding f wire_Cons read_loop_frame [OF s] by auto
    qed
  next
    case (PingPiece p)
    then have l: "ps \<noteq> []" "is_fragment (last ps)" using Cons.prems(4) by (auto split: if_splits)
    have "read_loop mode key (wire fks' @ rest) no_fragments w' =
      (Inr (Message (concat (fragments ps)) c), emit (pongs mode key fks' rest) w', rest)" for w'
      using Cons.prems f PingPiece l by (intro Cons.IH) auto
    then show ?thesis using PingPiece Cons.prems(1) f unfolding f wire_Cons read_loop_frame [OF s]
      by (auto simp: client_frame_def emit_emit)
  next
    case (PongPiece p)
    then have l: "ps \<noteq> []" "is_fragment (last ps)" using Cons.prems(4) by (auto split: if_splits)
    have "read_loop mode key (wire fks' @ rest) no_fragments w =
      (Inr (Message (concat (fragments ps)) c), emit (pongs mode key fks' rest) w, rest)"
      using Cons.prems f PongPiece l by (intro Cons.IH) auto
    then show ?thesis using PongPiece Cons.prems(1) f unfolding f wire_Cons read_loop_frame [OF s]
      by (auto simp: client_frame_def)
  qed
qed simp

text \<open>C27. Fragmentation is transparent: however a peer cuts a text or binary message into frames,
  whatever keys it masks them with and wherever it puts pings and pongs between the fragments,
  \<open>read\<close> returns the whole message with its opcode, answers every ping with a pong of the same
  payload, in order, and stops at the byte after the message, as long as the message respects the
  limit.\<close>

theorem read_fragmented_message:
  assumes "map fst fks = frames_of c ps" "list_all (sendable mode) fks" "ps \<noteq> []" "is_fragment (last ps)"
    "c \<in> {OpText, OpBinary}" "length (concat (fragments ps)) \<le> max_frame_size" "in_pool w"
  shows "ws_read mode key (wire fks @ rest) w =
    Some (Inr (Message (concat (fragments ps)) c), emit (pongs mode key fks rest) w, rest)"
  using read_loop_message [OF assms(1-6)] assms(7) by (simp add: ws_read_def)

lemma read_fragmented_message_witness:
  "\<exists>fks. ws_read Client (\<lambda>_. [0, 0, 0, 0]) (wire fks @ [9]) new_ws =
     Some (Inr (Message [1, 2, 3] OpBinary), emit (pongs Client (\<lambda>_. [0, 0, 0, 0]) fks [9]) new_ws, [9])"
proof -
  let ?ps = "[Fragment [1], PingPiece [7], Fragment [2, 3]]"
  let ?fks = "map (\<lambda>f. (f, None)) (frames_of OpBinary ?ps)"
  have "ws_read Client (\<lambda>_. [0, 0, 0, 0]) (wire ?fks @ [9]) new_ws =
     Some (Inr (Message (concat (fragments ?ps)) OpBinary), emit (pongs Client (\<lambda>_. [0, 0, 0, 0]) ?fks [9]) new_ws, [9])"
    by (rule read_fragmented_message) (simp_all add: sendable_def frame_fits_def key_ok_def max_frame_size_def new_ws_def)
  then show ?thesis by (intro exI [of _ ?fks]) simp
qed

section \<open>Closing\<close>

text \<open>What \<open>close(id, code, reason)\<close> sends, \<open>readClose\<close> understands.\<close>

lemma read_close_payload: "code < 65536 \<Longrightarrow> read_close (u16 code @ encode_utf8 reason) = (Some code, reason)"
proof -
  assume "code < 65536"
  moreover have "encode_utf8 reason = [] \<Longrightarrow> reason = []"
    using decode_encode_utf8_all [of reason] by simp
  ultimately show ?thesis
    by (auto simp: read_close_def from_be_u16 decode_encode_utf8_all)
qed

text \<open>The closing handshake: when one side closes with a code and a reason, the other side's
  \<open>read\<close> returns exactly that code and reason, and both have left the pool and destroyed their
  sockets.\<close>

theorem close_handshake:
  assumes "code < 65536" "length (encode_utf8 reason) + 2 \<le> max_frame_size" "key_ok mk"
    "in_pool w" "\<not> ws_closed w" "in_pool v" "outputs w = []"
  shows "\<exists>bufs. outputs (ws_close mk (Some code) reason w) = map Wrote bufs @ [Destroyed] \<and>
    \<not> in_pool (ws_close mk (Some code) reason w) \<and>
    ws_read mode key (concat bufs @ rest) v = Some (Inr (Closed (Some code) reason), close_websocket v, rest)"
proof -
  let ?p = "u16 code @ encode_utf8 reason"
  let ?f = "\<lparr>fin = True, opcode = OpClose, payload = ?p\<rparr>"
  have fits: "frame_fits mode ?p" using assms(2) by (simp add: frame_fits_def max_frame_size_def)
  have "read_loop mode key (encode_frame ?f mk @ rest) no_fragments v =
     (Inr (Closed (Some code) reason), close_websocket v, rest)"
    using fits assms(1,3) by (subst read_loop_frame) (simp_all add: sendable_def client_frame_def read_close_payload)
  then show ?thesis using assms(4-7)
    by (intro exI [of _ "fst (write_frame OpClose ?p mk)"])
       (simp add: ws_close_def close_websocket_def emit_def Let_def ws_read_def write_frame_encode)
qed

lemma close_handshake_witness:
  "\<exists>bufs. outputs (ws_close None (Some 1000) (js ''bye'') new_ws) = map Wrote bufs @ [Destroyed] \<and>
    \<not> in_pool (ws_close None (Some 1000) (js ''bye'') new_ws) \<and>
    ws_read Client (\<lambda>_. []) (concat bufs @ []) new_ws = Some (Inr (Closed (Some 1000) (js ''bye'')), close_websocket new_ws, [])"
  by (rule close_handshake)
     (simp_all add: new_ws_def key_ok_def max_frame_size_def js_def encode_cp_def is_high_def)

text \<open>
  The server's \<open>accept\<close> leaves a connection that ended in order in the pool, with its socket open:
  the test after the message loop closes it only when it is closed already.
\<close>

lemma accept_leaks:
  "resolve_accept C h up input new_ws = (None, w) \<Longrightarrow> in_pool w \<Longrightarrow> ws_accept C h up input = (Some True, w)"
  by (simp add: ws_accept_def)

lemma close_frame_leaves_open:
  assumes "in_pool w"
  shows "accept_loop (\<lambda>_. None) (encode_frame \<lparr>fin = True, opcode = OpClose, payload = []\<rparr> None @ rest) a w =
    (None, emit (fst (write_frame OpClose [] None)) w)"
  using assms
  by (subst accept_loop.simps)
     (simp add: read_encode_frame frame_fits_def key_ok_def server_frame_def try_handle_def)

end
