(* ===== verification/Http_Core.thy ===== *)
theory Http_Core
  imports Http_Text
begin

text \<open>
  The messages of \<open>js/internal/http-core.js\<close>: reading header lines, headers and bodies from a
  \<open>BufferedReader\<close>, the request reader and the response writer of the server, and the request
  writer of the client. The bytes that the peer will still send are a list; a read that the end of
  the connection breaks is the value \<open>Broken\<close> (the code throws \<open>socketError\<close>).
\<close>

section \<open>Reading\<close>

text \<open>A result with the bytes left; \<open>null\<close>; or \<open>socketError\<close>.\<close>

datatype 'a reading = Got 'a bytes | Malformed | Broken

definition header_limit :: nat where "header_limit = 8192"

text \<open>\<open>await reader.read(n)\<close>.\<close>

definition read_exact :: "int \<Rightarrow> bytes \<Rightarrow> (bytes \<times> bytes) option" where
  "read_exact n s =
     (if n \<le> 0 then Some ([], s)
      else if n \<le> int (length s) then Some (take (nat n) s, drop (nat n) s) else None)"

lemma next_line_length: "next_line s = Some (line, r) \<Longrightarrow> length r < length s"
  by (auto simp: next_line_def dest: index_of_le split: option.splits)

lemma read_exact_length: "read_exact n s = Some (b, r) \<Longrightarrow> length r \<le> length s"
  by (auto simp: read_exact_def split: if_splits)

text \<open>\<open>recvHeader\<close>: the lines and whether they kept to the limit; \<open>size\<close> is the variable \<open>total\<close>.\<close>

function http_recv_header :: "bytes \<Rightarrow> nat \<Rightarrow> jsstr list \<Rightarrow> (jsstr list \<times> bool) reading" where
  "http_recv_header s count lines =
     (case next_line s of
        None \<Rightarrow> Broken
      | Some (line, r) \<Rightarrow>
          let size' = count + length line + 2
          in if size' > header_limit then Got (lines, False) r
             else if line = [] then Got (lines, True) r
             else http_recv_header r size' (lines @ [line]))"
  by pat_completeness auto
termination
  by (relation "measure (\<lambda>(s, n, l). length s)") (auto dest: next_line_length)

declare http_recv_header.simps [simp del]

text \<open>
  \<open>parseHeader\<close>: the header object as it was changed, and whether the result is not \<open>null\<close>. A
  continuation line is appended to the string of the value, which joins an array with commas.
\<close>

definition fold_header :: "jsstr \<Rightarrow> jsstr \<Rightarrow> header \<Rightarrow> header" where
  "fold_header name text out =
     (case map_of out name of
        None \<Rightarrow> out
      | Some v \<Rightarrow> obj_put name (One (hval_str v @ text)) out)"

fun http_parse_header :: "jsstr list \<Rightarrow> jsstr option \<Rightarrow> header \<Rightarrow> header \<times> bool" where
  "http_parse_header [] name out = (out, True)"
| "http_parse_header (line # lines) name out =
     (if line \<noteq> [] \<and> (hd line = 9 \<or> hd line = 32)
      then (case name of
              None \<Rightarrow> (out, False)
            | Some n \<Rightarrow> http_parse_header lines name (fold_header n (tl line) out))
      else (case index_of_char line 58 of
              None \<Rightarrow> (out, False)
            | Some colon \<Rightarrow>
                let n = to_lower (take colon line)
                in http_parse_header lines (Some n) (add_header n (trim_start (drop (colon + 1) line)) out)))"

text \<open>
  The loop of \<open>recvChunkedBody\<close>; \<open>limit\<close> is \<open>bodylimit\<close>, 0 when there is none. The size is read
  with \<open>parseInt(..., 16)\<close>, so it may be negative.
\<close>

definition chunk_size :: "jsstr \<Rightarrow> int option" where
  "chunk_size line =
     parse_int 16 (case index_of_char line 59 of None \<Rightarrow> line | Some semi \<Rightarrow> take semi line)"

function chunk_loop :: "nat \<Rightarrow> bytes \<Rightarrow> jsstr list \<Rightarrow> int \<Rightarrow> jsstr list reading" where
  "chunk_loop limit s parts count =
     (case next_line s of
        None \<Rightarrow> Broken
      | Some (line, r) \<Rightarrow>
          (case chunk_size line of
             None \<Rightarrow> Malformed
           | Some sz \<Rightarrow>
               if sz = 0 then Got parts r
               else if limit > 0 \<and> count + sz > int limit then Malformed
               else (case read_exact sz r of
                       None \<Rightarrow> Broken
                     | Some (buf, r1) \<Rightarrow>
                         (case read_exact 2 r1 of
                            None \<Rightarrow> Broken
                          | Some (_, r2) \<Rightarrow> chunk_loop limit r2 (parts @ [decode_utf8 buf]) (count + sz)))))"
  by pat_completeness auto
termination
  by (relation "measure (\<lambda>(l, s, x). length s)")
     (auto dest!: next_line_length read_exact_length)

declare chunk_loop.simps [simp del]

text \<open>
  \<open>recvChunkedBody\<close>: the body, and the header with the trailers; the flag is False when the header
  of the result is \<open>null\<close> (the object itself may have been changed before).
\<close>

definition recv_chunked_body :: "nat \<Rightarrow> header \<Rightarrow> bytes \<Rightarrow> (jsstr \<times> header \<times> bool) reading" where
  "recv_chunked_body limit h s =
     (case chunk_loop limit s [] 0 of
        Broken \<Rightarrow> Broken
      | Malformed \<Rightarrow> Malformed
      | Got parts r \<Rightarrow>
          (case http_recv_header r 0 [] of
             Got (lines, ok) r' \<Rightarrow>
               Got (concat parts, if ok \<and> lines \<noteq> [] then http_parse_header lines None h else (h, True)) r'
           | _ \<Rightarrow> Broken))"

text \<open>
  \<open>recvBody\<close>. Without a length the body goes on until the connection closes: \<open>k\<close> bytes are in the
  buffer when it starts and are decoded at once, the rest is read by lines, and what is left after
  the last line is decoded at the end.
\<close>

function lines_to_end :: "bytes \<Rightarrow> jsstr" where
  "lines_to_end s =
     (case next_line s of
        None \<Rightarrow> decode_utf8 s
      | Some (line, r) \<Rightarrow> line @ crlf @ lines_to_end r)"
  by pat_completeness auto
termination by (relation "measure length") (auto dest: next_line_length)

declare lines_to_end.simps [simp del]

definition content_length :: "header \<Rightarrow> int option" where
  "content_length h =
     (case map_of h (js ''content-length'') of None \<Rightarrow> None | Some v \<Rightarrow> parse_int 10 (hval_str v))"

definition recv_body :: "nat \<Rightarrow> header \<Rightarrow> nat \<Rightarrow> bytes \<Rightarrow> jsstr reading" where
  "recv_body code h k s =
     (case content_length h of
        Some n \<Rightarrow>
          (case read_exact n s of None \<Rightarrow> Broken | Some (buf, r) \<Rightarrow> Got (decode_utf8 buf) r)
      | None \<Rightarrow>
          if code = 204 \<or> code = 304 \<or> code < 200 then Got [] s
          else Got (decode_utf8 (take k s) @ lines_to_end (drop k s)) [])"

section \<open>Server\<close>

text \<open>\<open>httpStatusMsg\<close>.\<close>

definition http_status_msg :: "(nat \<times> string) list" where
  "http_status_msg = [
     (100, ''Continue''), (101, ''Switching Protocols''), (200, ''OK''), (201, ''Created''),
     (202, ''Accepted''), (203, ''Non-Authoritative Information''), (204, ''No Content''),
     (205, ''Reset Content''), (206, ''Partial Content''), (300, ''Multiple Choices''),
     (301, ''Moved Permanently''), (302, ''Found''), (303, ''See Other''), (304, ''Not Modified''),
     (305, ''Use Proxy''), (307, ''Temporary Redirect''), (400, ''Bad Request''),
     (401, ''Unauthorized''), (402, ''Payment Required''), (403, ''Forbidden''), (404, ''Not Found''),
     (405, ''Method Not Allowed''), (406, ''Not Acceptable''),
     (407, ''Proxy Authentication Required''), (408, ''Request Time-out''), (409, ''Conflict''),
     (410, ''Gone''), (411, ''Length Required''), (412, ''Precondition Failed''),
     (413, ''Request Entity Too Large''), (414, ''Request-URI Too Large''),
     (415, ''Unsupported Media Type''), (416, ''Requested range not satisfiable''),
     (417, ''Expectation Failed''), (500, ''Internal Server Error''), (501, ''Not Implemented''),
     (502, ''Bad Gateway''), (503, ''Service Unavailable''), (504, ''Gateway Time-out''),
     (505, ''HTTP Version not supported'')]"

text \<open>
  \<open>readRequest\<close> returns a status code, or the request with code 200. An error of any kind is
  code 400, \<open>socketError\<close> included. The version is \<open>parseFloat(ds + "." + es)\<close>.
\<close>

datatype request_result = Refused nat | Request (url: jsstr) (meth: jsstr) (headers: header) (body: jsstr)

definition bad_version :: "jsstr \<Rightarrow> jsstr \<Rightarrow> bool" where
  "bad_version ds es \<longleftrightarrow>
     digits_value 10 (ds @ es) < 10 ^ length es \<or> digits_value 10 (ds @ es) * 10 > 11 * 10 ^ length es"

definition read_body :: "nat \<Rightarrow> jsstr \<Rightarrow> jsstr \<Rightarrow> header \<Rightarrow> bytes \<Rightarrow> request_result \<times> bytes" where
  "read_body limit u m h s =
     (if hget h ''transfer-encoding'' = Some (One (js ''chunked''))
      then (case recv_chunked_body limit h s of
              Broken \<Rightarrow> (Refused 400, [])
            | Malformed \<Rightarrow> (Refused 413, [])
            | Got (b, h', _) r \<Rightarrow> (Request u m h' b, r))
      else (case content_length h of
              None \<Rightarrow> (Request u m h [], s)
            | Some n \<Rightarrow>
                if limit > 0 \<and> n > int limit then (Refused 413, s)
                else (case read_exact n s of
                        None \<Rightarrow> (Refused 400, [])
                      | Some (buf, r) \<Rightarrow> (Request u m h (decode_utf8 buf), r))))"

definition read_request :: "nat \<Rightarrow> bytes \<Rightarrow> request_result \<times> bytes" where
  "read_request limit s =
     (case http_recv_header s 0 [] of
        Got (lines, ok) r \<Rightarrow>
          if \<not> ok then (Refused 413, r)
          else if lines = [] then (Refused 400, r)
          else (case match_request (hd lines) of
            None \<Rightarrow> (Refused 400, r)
          | Some (m, u, ds, es) \<Rightarrow>
              if bad_version ds es then (Refused 505, r)
              else (case http_parse_header (tl lines) None [] of
                (h, False) \<Rightarrow> (Refused 400, r)
              | (h, True) \<Rightarrow>
                  (case hget h ''transfer-encoding'' of
                     None \<Rightarrow> read_body limit u m h r
                   | Some v \<Rightarrow>
                       if v = One (js ''identity'') \<or> v = One (js ''chunked'')
                       then read_body limit u m h r else (Refused 501, r))))
      | _ \<Rightarrow> (Refused 400, []))"

text \<open>
  \<open>writeResponse\<close>: the strings given to \<open>writeFn\<close>. The body is a string, the results of a
  generator up to \<open>null\<close>, or absent. When \<open>writeFn\<close> throws after \<open>n\<close> calls the result is \<open>false\<close>.
\<close>

datatype response_body = Whole jsstr | Generated "jsstr list" | NoBody

definition head_lines :: "jsstr \<Rightarrow> jsstr \<times> hval \<Rightarrow> jsstr" where
  "head_lines sep p =
     (case snd p of
        One v \<Rightarrow> fst p @ sep @ v @ crlf
      | Many vs \<Rightarrow> concat (map (\<lambda>v. fst p @ sep @ v @ crlf) vs))"

definition status_line :: "nat \<Rightarrow> jsstr" where
  "status_line code =
     js ''HTTP/1.1 '' @ pad_start 3 48 (dec code) @ js '' '' @
     (case map_of http_status_msg code of None \<Rightarrow> [] | Some t \<Rightarrow> js t) @ crlf"

definition chunk_writes :: "jsstr \<Rightarrow> jsstr list" where
  "chunk_writes c =
     (if c = [] then [] else [crlf @ to_radix 16 (length (encode_utf8 c)) @ crlf, c])"

definition write_http_response :: "nat \<Rightarrow> response_body \<Rightarrow> header \<Rightarrow> jsstr list" where
  "write_http_response code b h =
     (let head = status_line code @ concat (map (head_lines (js '': '')) h)
      in case b of
           Whole t \<Rightarrow> [head @ js ''content-length: '' @ dec (length (encode_utf8 t)) @ crlf @ crlf, t]
         | Generated cs \<Rightarrow>
             (head @ js ''transfer-encoding: chunked'' @ crlf) # concat (map chunk_writes cs) @
             [crlf @ js ''0'' @ crlf @ crlf]
         | NoBody \<Rightarrow> [head @ crlf])"

definition send_response :: "nat \<Rightarrow> jsstr list \<Rightarrow> jsstr list \<times> bool" where
  "send_response n writes = (take n writes, length writes \<le> n)"

section \<open>Client requests\<close>

text \<open>\<open>content\<close>: absent (\<open>undefined\<close>, \<open>null\<close> or the empty string), a string, or bytes.\<close>

datatype content = NoContent | TextContent jsstr | RawContent bytes

fun content_bytes :: "content \<Rightarrow> bytes" where
  "content_bytes NoContent = []"
| "content_bytes (TextContent t) = encode_utf8 t"
| "content_bytes (RawContent b) = b"

definition has_content :: "content \<Rightarrow> bool" where
  "has_content c \<longleftrightarrow> c \<noteq> NoContent \<and> c \<noteq> TextContent []"

definition build_request :: "jsstr \<Rightarrow> jsstr \<Rightarrow> jsstr \<Rightarrow> header option \<Rightarrow> content \<Rightarrow> jsstr" where
  "build_request m hostHeader u h c =
     (let host = js ''Host:'' @ hostHeader @ crlf;
          lines = (case h of
             None \<Rightarrow> host
           | Some ps \<Rightarrow>
               (if list_ex (\<lambda>p. to_lower (fst p) = js ''host'') ps then [] else host) @
               concat (map (head_lines [58]) ps));
          start = m @ js '' '' @ u @ js '' HTTP/1.1'' @ crlf @ lines
      in if \<not> has_content c then start @ js ''Content-length:0'' @ crlf @ crlf
         else if (case h of None \<Rightarrow> False | Some ps \<Rightarrow> map_of ps (js ''transfer-encoding'') = Some (One (js ''chunked'')))
         then start @ crlf
         else start @ js ''Content-length:'' @ dec (length (content_bytes c)) @ crlf @ crlf)"

text \<open>\<open>doRequestOn\<close> after the writes: the status and the header of the response.\<close>

datatype response_error = HeaderFailed | NoStatusLine | BadHeader | SocketLost | BadBody

definition read_head :: "header \<Rightarrow> bytes \<Rightarrow> response_error + (nat \<times> header) \<times> bytes" where
  "read_head recvHeaderOut s =
     (case http_recv_header s 0 [] of
        Got (lines, ok) r \<Rightarrow>
          if \<not> ok \<or> lines = [] then Inl HeaderFailed
          else (case match_status (hd lines) of
            None \<Rightarrow> Inl NoStatusLine
          | Some (ds, info) \<Rightarrow>
              (case http_parse_header (tl lines) None recvHeaderOut of
                 (h, False) \<Rightarrow> Inl BadHeader
               | (h, True) \<Rightarrow> Inr ((digits_value 10 ds, h), r)))
      | _ \<Rightarrow> Inl SocketLost)"

text \<open>The body, as \<open>request\<close> reads it after the head.\<close>

definition read_response :: "jsstr \<Rightarrow> nat \<Rightarrow> header \<Rightarrow> bytes \<Rightarrow>
    response_error + (nat \<times> header \<times> jsstr) \<times> bytes" where
  "read_response m k recvHeaderOut s =
     (case read_head recvHeaderOut s of
        Inl e \<Rightarrow> Inl e
      | Inr ((status, h), r) \<Rightarrow>
          if m = js ''HEAD'' then Inr ((status, h, []), r)
          else if hget h ''transfer-encoding'' = Some (One (js ''chunked''))
          then (case recv_chunked_body 0 h r of
                  Broken \<Rightarrow> Inl SocketLost
                | Malformed \<Rightarrow> Inl BadBody
                | Got (b, h', ok) r' \<Rightarrow> Inr ((status, h', b), r'))
          else (case recv_body status h k r of
                  Got b r' \<Rightarrow> Inr ((status, h, b), r')
                | _ \<Rightarrow> Inl SocketLost))"

section \<open>Reading back what was written\<close>

definition line_block :: "jsstr list \<Rightarrow> jsstr" where
  "line_block ls = concat (map (\<lambda>l. l @ crlf) ls)"

lemma line_block_simps [simp]: "line_block [] = []" "line_block (l # ls) = l @ crlf @ line_block ls"
  by (simp_all add: line_block_def)

lemma line_block_append: "line_block (a @ b) = line_block a @ line_block b"
  by (simp add: line_block_def)

definition header_line_ok :: "jsstr \<Rightarrow> bool" where
  "header_line_ok l \<longleftrightarrow> l \<noteq> [] \<and> 13 \<notin> set l"

lemma http_recv_header_block:
  "list_all header_line_ok ls \<Longrightarrow> n + sum_list (map (\<lambda>l. length l + 2) ls) + 2 \<le> header_limit \<Longrightarrow>
   http_recv_header (encode_utf8 (line_block ls @ crlf @ t) @ r) n acc =
     Got (acc @ ls, True) (encode_utf8 t @ r)"
proof (induction ls arbitrary: n acc)
  case Nil
  then show ?case using encode_crlf [of "[]" t]
    by (subst http_recv_header.simps) (simp add: next_line_empty)
next
  case (Cons l ls)
  have "encode_utf8 (line_block (l # ls) @ crlf @ t) @ r =
      encode_utf8 l @ 13 # 10 # (encode_utf8 (line_block ls @ crlf @ t) @ r)"
    using encode_crlf [of l "line_block ls @ crlf @ t"] by simp
  then show ?case using Cons.prems Cons.IH [of "n + length l + 2" "acc @ [l]"]
    by (subst http_recv_header.simps) (simp add: next_line_encode header_line_ok_def)
qed

subsection \<open>Headers\<close>

definition name_ok :: "jsstr \<Rightarrow> bool" where
  "name_ok n \<longleftrightarrow> n \<noteq> [] \<and> to_lower n = n \<and> 58 \<notin> set n \<and> 13 \<notin> set n \<and> hd n \<noteq> 9 \<and> hd n \<noteq> 32 \<and>
     n \<noteq> js ''__proto__'' \<and> n \<notin> set (map js inherited_names) \<and> index_key n = None"

definition value_ok :: "jsstr \<Rightarrow> bool" where
  "value_ok v \<longleftrightarrow> 13 \<notin> set v \<and> trim_start v = v"

fun pair_ok :: "jsstr \<times> hval \<Rightarrow> bool" where
  "pair_ok (n, One v) = (name_ok n \<and> value_ok v)"
| "pair_ok (n, Many vs) = False"

definition head_ok :: "header \<Rightarrow> bool" where
  "head_ok h \<longleftrightarrow> list_all pair_ok h \<and> distinct (map fst h)"

definition pair_line :: "jsstr \<Rightarrow> jsstr \<times> hval \<Rightarrow> jsstr" where
  "pair_line sep p = fst p @ sep @ hval_str (snd p)"

lemma pair_okE:
  assumes "pair_ok p"
  obtains n v where "p = (n, One v)" "name_ok n" "value_ok v"
  using assms by (cases p rule: pair_ok.cases) auto

lemma head_lines_block: "list_all pair_ok h \<Longrightarrow> concat (map (head_lines sep) h) = line_block (map (pair_line sep) h)"
  by (induction h) (auto simp: head_lines_def pair_line_def elim!: pair_okE)

lemma pair_line_ok: "pair_ok p \<Longrightarrow> 13 \<notin> set sep \<Longrightarrow> header_line_ok (pair_line sep p)"
  by (auto simp: pair_line_def header_line_ok_def name_ok_def value_ok_def elim!: pair_okE)

lemma obj_insert_last: "index_key k = None \<Longrightarrow> obj_insert k v ps = ps @ [(k, v)]"
  by (induction ps) auto

lemma add_header_fresh:
  "name_ok n \<Longrightarrow> n \<notin> fst ` set out \<Longrightarrow> add_header n v out = out @ [(n, One v)]"
  by (simp add: add_header_def name_ok_def map_of_eq_None_iff [THEN iffD2] obj_put_def obj_insert_last)

lemma drop_append_Suc: "drop (Suc (length n)) (n @ x # s) = s"
  by simp

lemma parse_pair:
  assumes "pair_ok p" "list_all is_space sp" "fst p \<notin> fst ` set out"
  shows "http_parse_header (pair_line (58 # sp) p # lines) nm out =
         http_parse_header lines (Some (fst p)) (out @ [p])"
proof -
  obtain n v where p: "p = (n, One v)" "name_ok n" "value_ok v" using assms(1) by (rule pair_okE)
  have l: "pair_line (58 # sp) (n, One v) = n @ 58 # sp @ v" by (simp add: pair_line_def)
  have h: "hd (n @ 58 # sp @ v) \<noteq> 9" "hd (n @ 58 # sp @ v) \<noteq> 32" using p(2) by (auto simp: name_ok_def)
  have i: "index_of_char (n @ 58 # sp @ v) 58 = Some (length n)"
    using p(2) by (intro index_of_char_append) (simp add: name_ok_def)
  have t: "trim_start (sp @ v) = v"
    using assms(2) p(3) by (simp add: trim_start_def value_ok_def dropWhile_append2 list_all_iff)
  show ?thesis using h assms(3) p(1,2) add_header_fresh [OF p(2), of out v]
    by (simp add: l i t name_ok_def del: index_of_char.simps)
qed

lemma parse_pairs:
  "list_all pair_ok h \<Longrightarrow> distinct (map fst (out @ h)) \<Longrightarrow> list_all is_space sp \<Longrightarrow>
   http_parse_header (map (pair_line (58 # sp)) h) nm out = (out @ h, True)"
proof (induction h arbitrary: out nm)
  case (Cons p h)
  then show ?case using parse_pair [of p sp out "map (pair_line (58 # sp)) h" nm] Cons.IH [of "out @ [p]"] by auto
qed simp

lemma is_space_32 [simp]: "is_space 32" by (simp add: is_space_def)

subsection \<open>The status line\<close>

lemma is_digit_10: "is_digit_of 10 c = is_dec c"
  by (auto simp: is_digit_of_def is_dec_def digit_value_def word_le_nat_alt split: option.splits)

lemma dec_digits: "list_all is_dec (dec n)" "dec n \<noteq> []"
  using to_radix_digits [of 10 n] by (auto simp: dec_def list_all_iff is_dec_digit)

lemma digits_zeros: "digits_value r (replicate k 48 @ s) = digits_value r s"
  by (induction k) (simp_all add: digits_value_def digit_value_def)

lemma digits_pad: "digits_value 10 (pad_start k 48 (dec n)) = n"
  by (simp add: pad_start_def digits_zeros dec_def digits_value_to_radix)

lemma pad_digits: "list_all is_dec (pad_start k 48 (dec n))" "pad_start k 48 (dec n) \<noteq> []"
  using dec_digits [of n] by (auto simp: pad_start_def list_all_iff is_dec_def)

lemma dec_no: "list_all is_dec s \<Longrightarrow> c < 48 \<or> 57 < c \<Longrightarrow> c \<notin> set s"
  by (auto simp: list_all_iff is_dec_def)

definition status_text :: "nat \<Rightarrow> jsstr" where
  "status_text code = js ''HTTP/1.1 '' @ pad_start 3 48 (dec code) @ js '' '' @
     (case map_of http_status_msg code of None \<Rightarrow> [] | Some t \<Rightarrow> js t)"

lemma status_line_text: "status_line code = status_text code @ crlf"
  by (simp add: status_line_def status_text_def)

lemma status_msgs: "list_all (\<lambda>p. 13 \<notin> set (js (snd p))) http_status_msg"
  by code_simp

lemma status_text_ok: "header_line_ok (status_text code)"
proof -
  have "map_of http_status_msg code = Some t \<Longrightarrow> 13 \<notin> set (js t)" for t
    using status_msgs by (auto dest!: map_of_SomeD simp: list_all_iff)
  then show ?thesis using dec_no [OF pad_digits(1), of 13 3 code]
    by (auto simp: header_line_ok_def status_text_def js_def split: option.splits)
qed

lemma match_status_text: "\<exists>i. match_status (status_text code) = Some (pad_start 3 48 (dec code), i)"
proof -
  define d where "d = pad_start 3 48 (dec code)"
  define t where "t = (case map_of http_status_msg code of None \<Rightarrow> [] | Some t \<Rightarrow> js t)"
  obtain c ds where c: "d = c # ds" "is_dec c" "list_all is_dec ds"
    using pad_digits [of 3 code] by (cases d) (auto simp: d_def)
  have s: "status_text code = js ''HTTP/1.1 '' @ d @ 32 # t" by (simp add: status_text_def d_def t_def js_def)
  have "\<not> is_space c" using c(2) by (auto simp: is_dec_def is_space_def word_le_nat_alt word_less_nat_alt)
  moreover have "takeWhile is_dec (d @ 32 # t) = d"
    using c by (simp add: takeWhile_append list_all_iff is_dec_def)
  ultimately have "\<exists>i. status_at (status_text code) = Some (d, i)"
    using c by (simp add: s status_at_def js_def starts_with_def Let_def is_dec_def)
  then show ?thesis by (auto simp: s d_def [symmetric] js_def)
qed

end
