(* ===== verification/Http_Url.thy ===== *)
theory Http_Url
  imports Http_Text
begin

text \<open>
  The URL utilities of \<open>js/internal/http-core.js\<close>: host and URL of a request, percent encoding,
  and query strings.
\<close>

section \<open>Hosts and URLs\<close>

text \<open>
  \<open>parseHostPart\<close>; \<open>None\<close> is the error for a bare IPv6 address. The lazy group of
  \<open>/^\[(.+?)\]:?(\d*)$/\<close> grows until the rest matches.
\<close>

definition bracket_port :: "jsstr \<Rightarrow> jsstr option" where
  "bracket_port s =
     (if starts_with s [93]
      then (let r = tl s; p = (if starts_with r [58] then tl r else r)
            in if list_all is_dec p then Some p else None)
      else None)"

fun lazy_bracket :: "jsstr \<Rightarrow> jsstr \<Rightarrow> (jsstr \<times> jsstr) option" where
  "lazy_bracket acc [] = None"
| "lazy_bracket acc (c # s) =
     (if is_line_end c then None
      else case bracket_port s of
        Some p \<Rightarrow> Some (acc @ [c], p)
      | None \<Rightarrow> lazy_bracket (acc @ [c]) s)"

definition port_number :: "jsstr \<Rightarrow> nat option" where
  "port_number ds = (if ds = [] then None else Some (digits_value 10 ds))"

definition parse_host_part :: "jsstr \<Rightarrow> (jsstr \<times> nat option) option" where
  "parse_host_part host =
     (case index_of_char host 58 of
        None \<Rightarrow> Some (host, None)
      | Some colon1 \<Rightarrow>
          if 58 \<in> set (drop (colon1 + 1) host)
          then (if starts_with host [91]
                then map_option (\<lambda>(h, p). (h, port_number p)) (lazy_bracket [] (tl host)) else None)
          else (let ds = drop (colon1 + 1) host; h = take colon1 host
                in if ds \<noteq> [] \<and> list_all is_dec ds \<and> \<not> list_ex is_line_end h
                   then Some (h, port_number ds) else Some (host, None)))"

text \<open>
  \<open>clientParseUrl\<close>; \<open>None\<close> when it throws. A port 0 counts as no port. The table of default ports
  is an object, so the protocol \<open>constructor\<close> finds an inherited function, which is no error.
\<close>

datatype port = Port nat | InheritedFunction

definition default_port :: "jsstr \<Rightarrow> port option" where
  "default_port p =
     (if p = js ''http'' then Some (Port 80) else if p = js ''https'' then Some (Port 443)
      else if p = js ''constructor'' then Some InheritedFunction else None)"

record client_url =
  protocol :: jsstr
  host :: jsstr
  port :: port
  path :: jsstr
  hostHeader :: jsstr

definition split_protocol :: "jsstr \<Rightarrow> jsstr \<times> jsstr" where
  "split_protocol url =
     (let p = takeWhile is_letter url; r = drop (length p) url
      in if p \<noteq> [] \<and> starts_with r (js ''://'')
         then (to_lower p, takeWhile (\<lambda>c. \<not> is_line_end c) (drop 3 r))
         else (js ''http'', url))"

definition client_parse_url :: "jsstr \<Rightarrow> client_url option" where
  "client_parse_url url =
     (let (proto, rest) = split_protocol url;
          (hostPart, pth) = (case index_of_char rest 47 of
             Some slash \<Rightarrow> (take slash rest, drop slash rest)
           | None \<Rightarrow> (rest, [47]))
      in case parse_host_part hostPart of
           None \<Rightarrow> None
         | Some (h, p) \<Rightarrow>
             (case (case p of None \<Rightarrow> default_port proto | Some n \<Rightarrow> if n = 0 then default_port proto else Some (Port n)) of
                None \<Rightarrow> None
              | Some prt \<Rightarrow> Some \<lparr>protocol = proto, host = h, port = prt, path = pth, hostHeader = hostPart\<rparr>))"

section \<open>Percent encoding\<close>

text \<open>\<open>httpcEscape\<close> encodes each code unit for itself, a surrogate included.\<close>

definition unreserved :: "code_unit \<Rightarrow> bool" where
  "unreserved c \<longleftrightarrow> (65 \<le> c \<and> c \<le> 90) \<or> (97 \<le> c \<and> c \<le> 122) \<or> (48 \<le> c \<and> c \<le> 57) \<or>
     c = 95 \<or> c = 45 \<or> c = 46 \<or> c = 126"

definition upper_unit :: "code_unit \<Rightarrow> code_unit" where
  "upper_unit c = (if 97 \<le> c \<and> c \<le> 122 then c - 32 else c)"

definition percent_byte :: "byte \<Rightarrow> jsstr" where
  "percent_byte b = 37 # pad_start 2 48 (map upper_unit (to_radix 16 (unat b)))"

fun http_escape :: "jsstr \<Rightarrow> jsstr" where
  "http_escape [] = []"
| "http_escape (c # s) =
     (if unreserved c then [c] else concat (map percent_byte (encode_utf8 [c]))) @ http_escape s"

text \<open>\<open>urlDecode\<close>: what \<open>parseInt\<close> makes of the two characters is stored into a \<open>Uint8Array\<close>.\<close>

function decode_percent :: "jsstr \<Rightarrow> bytes" where
  "decode_percent [] = []"
| "decode_percent (c # s) =
     (if c = 37 \<and> 2 \<le> length s
      then (case parse_int 16 (take 2 s) of None \<Rightarrow> 0 | Some i \<Rightarrow> word_of_int i) # decode_percent (drop 2 s)
      else to_byte (unat c) # decode_percent s)"
  by pat_completeness auto
termination by (relation "measure length") auto

definition url_decode :: "jsstr \<Rightarrow> jsstr" where
  "url_decode s = decode_utf8 (decode_percent (map (\<lambda>c. if c = 43 then 32 else c) s))"

section \<open>Query strings\<close>

definition http_url_parse :: "jsstr \<Rightarrow> jsstr \<times> jsstr" where
  "http_url_parse url =
     (case index_of_char url 63 of
        Some q \<Rightarrow> (url_decode (take q url), drop (q + 1) url)
      | None \<Rightarrow> (url_decode url, []))"

definition add_pair :: "jsstr \<Rightarrow> header \<Rightarrow> header" where
  "add_pair p r =
     (case index_of_char p 61 of
        None \<Rightarrow> r
      | Some eq \<Rightarrow> add_header (url_decode (take eq p)) (url_decode (drop (eq + 1) p)) r)"

definition url_parse_query :: "jsstr \<Rightarrow> header" where
  "url_parse_query q = (if q = [] then [] else foldl (\<lambda>r p. add_pair p r) [] (split_on 38 q))"

text \<open>The body of \<open>post\<close>.\<close>

definition form_body :: "(jsstr \<times> jsstr) list \<Rightarrow> jsstr" where
  "form_body form = join_with [38] (map (\<lambda>p. http_escape (fst p) @ [61] @ http_escape (snd p)) form)"

section \<open>Decoding what was encoded\<close>

definition hex_digit :: "nat \<Rightarrow> code_unit" where
  "hex_digit d = upper_unit (digit_char d)"

lemma hex_digits:
  "list_all (\<lambda>d. digit_value (hex_digit d) = Some d \<and> \<not> is_space (hex_digit d) \<and>
     hex_digit d \<notin> {45, 43, 120, 88, 38, 61, 37}) [0..<16]"
  by code_simp

lemma hex_digit:
  assumes "d < 16"
  shows "digit_value (hex_digit d) = Some d" "\<not> is_space (hex_digit d)" "is_digit_of 16 (hex_digit d)"
    "hex_digit d \<notin> {45, 43, 120, 88, 38, 61, 37}"
  using hex_digits assms by (auto simp: list_all_iff is_digit_of_def)

lemma percent_byte_digits: "percent_byte b = [37, hex_digit (unat b div 16), hex_digit (unat b mod 16)]"
proof (cases "unat b < 16")
  case True
  then have "to_radix 16 (unat b) = [digit_char (unat b)]" by (subst to_radix.simps) simp
  moreover have "hex_digit 0 = 48" by code_simp
  ultimately show ?thesis using True by (simp add: percent_byte_def pad_start_def hex_digit_def)
next
  case False
  have "unat b div 16 < 16" using unat_byte [of b] by simp
  then have "to_radix 16 (unat b div 16) = [digit_char (unat b div 16)]" by (subst to_radix.simps) simp
  then have "to_radix 16 (unat b) = [digit_char (unat b div 16), digit_char (unat b mod 16)]"
    using False by (subst to_radix.simps) simp
  then show ?thesis by (simp add: percent_byte_def pad_start_def hex_digit_def)
qed

lemma hex_pair_value:
  assumes "h < 16" "l < 16"
  shows "parse_int 16 [hex_digit h, hex_digit l] = Some (int (h * 16 + l))"
  using hex_digit [OF assms(1)] hex_digit [OF assms(2)]
  by (simp add: parse_int_def trim_start_def starts_with_def digits_value_def)

lemma decode_percent_byte: "decode_percent (percent_byte b @ s) = b # decode_percent s"
proof -
  have "unat b div 16 < 16" "unat b mod 16 < 16" using unat_byte [of b] by simp_all
  moreover have "word_of_int (int (unat b div 16 * 16 + unat b mod 16)) = b" by simp
  ultimately show ?thesis by (simp add: percent_byte_digits hex_pair_value)
qed

lemma decode_percent_bytes: "decode_percent (concat (map percent_byte bs) @ s) = bs @ decode_percent s"
  by (induction bs) (simp_all add: decode_percent_byte)

definition plus_space :: "jsstr \<Rightarrow> jsstr" where
  "plus_space = map (\<lambda>c. if c = 43 then 32 else c)"

lemma unreserved_ascii: "unreserved c \<Longrightarrow> unat c < 128 \<and> c \<notin> {43, 38, 61, 37}"
  by (auto simp: unreserved_def word_le_nat_alt)

lemma percent_byte_set: "c \<in> set (percent_byte b) \<Longrightarrow> c \<notin> {43, 38, 61}"
proof -
  have "unat b div 16 < 16" "unat b mod 16 < 16" using unat_byte [of b] by simp_all
  then show "c \<in> set (percent_byte b) \<Longrightarrow> c \<notin> {43, 38, 61}"
    using hex_digit(4) by (auto simp: percent_byte_digits)
qed

lemma http_escape_set: "c \<in> set (http_escape s) \<Longrightarrow> c \<notin> {43, 38, 61}"
proof (induction s)
  case (Cons d s)
  then show ?case using unreserved_ascii [of d] percent_byte_set
    by (auto split: if_splits simp del: encode_utf8.simps)
qed simp

lemma plus_space_none: "43 \<notin> set s \<Longrightarrow> plus_space s = s"
  by (induction s) (auto simp: plus_space_def)

lemma decode_percent_escape: "decode_percent (http_escape s) = concat (map (\<lambda>c. encode_cp (unat c)) s)"
proof (induction s)
  case (Cons c s)
  show ?case
  proof (cases "unreserved c")
    case True
    then have "c \<noteq> 37" "encode_utf8 [c] = [to_byte (unat c)]"
      using unreserved_ascii [OF True] by (auto simp: encode_cp_def)
    then show ?thesis using True Cons by simp
  next
    case False
    then show ?thesis using Cons by (simp add: decode_percent_bytes)
  qed
qed simp

lemma decode_units: "decode_utf8 (concat (map (\<lambda>c. encode_cp (unat c)) s)) = s"
  using from_cp_unit by (induction s) (simp_all add: decode_utf8_encode_cp)

lemma url_decode_escape: "url_decode (http_escape s) = s"
proof -
  have "43 \<notin> set (http_escape s)" using http_escape_set [of 43 s] by auto
  then show ?thesis
    using plus_space_none [of "http_escape s"] by (simp add: url_decode_def plus_space_def decode_percent_escape decode_units)
qed

text \<open>Percent encoding loses nothing: \<open>urlDecode\<close> undoes \<open>escape\<close> on every string, with
  reserved characters, non-ASCII characters and lone surrogates.\<close>

theorem escape_round_trip: "url_decode (http_escape s) = s"
  by (rule url_decode_escape)

text \<open>Surrogate pairs are encoded as two code units of three bytes each, which is not UTF-8.\<close>

lemma escape_not_utf8:
  "http_escape [0xd83d, 0xde00] = concat (map percent_byte (encode_cp 0xd83d @ encode_cp 0xde00))"
  "encode_utf8 [0xd83d, 0xde00] \<noteq> encode_cp 0xd83d @ encode_cp 0xde00"
proof -
  show "http_escape [0xd83d, 0xde00] = concat (map percent_byte (encode_cp 0xd83d @ encode_cp 0xde00))"
    by (simp add: unreserved_def)
  show "encode_utf8 [0xd83d, 0xde00] \<noteq> encode_cp 0xd83d @ encode_cp 0xde00"
    by (simp add: is_high_def is_low_def pair_cp_arith encode_cp_simps)
qed

definition key_ok :: "jsstr \<Rightarrow> bool" where
  "key_ok k \<longleftrightarrow> k \<noteq> js ''__proto__'' \<and> k \<notin> set (map js inherited_names) \<and> index_key k = None"

definition form_ok :: "(jsstr \<times> jsstr) list \<Rightarrow> bool" where
  "form_ok form \<longleftrightarrow> list_all (\<lambda>p. key_ok (fst p)) form \<and> distinct (map fst form)"

lemma add_pair_escape:
  assumes "key_ok k" "k \<notin> fst ` set r"
  shows "add_pair (http_escape k @ [61] @ http_escape v) r = r @ [(k, One v)]"
proof -
  have "61 \<notin> set (http_escape k)" using http_escape_set [of 61 k] by auto
  then have "index_of_char (http_escape k @ 61 # http_escape v) 61 = Some (length (http_escape k))"
    by (rule index_of_char_append)
  moreover have "obj_insert k (One v) r = r @ [(k, One v)]"
    using assms(1) by (induction r) (auto simp: key_ok_def)
  ultimately show ?thesis using assms
    by (simp add: add_pair_def url_decode_escape add_header_def key_ok_def map_of_eq_None_iff [THEN iffD2] obj_put_def)
qed

lemma foldl_add_pair:
  "list_all (\<lambda>p. key_ok (fst p)) form \<Longrightarrow> distinct (map fst r @ map fst form) \<Longrightarrow>
   foldl (\<lambda>r p. add_pair p r) r (map (\<lambda>p. http_escape (fst p) @ [61] @ http_escape (snd p)) form) =
     r @ map (\<lambda>p. (fst p, One (snd p))) form"
proof (induction form arbitrary: r)
  case (Cons p form)
  then have "add_pair (http_escape (fst p) @ [61] @ http_escape (snd p)) r = r @ [(fst p, One (snd p))]"
    by (intro add_pair_escape) auto
  then show ?case using Cons.prems Cons.IH [of "r @ [(fst p, One (snd p))]"] by auto
qed simp

text \<open>A form survives the post: the body that \<open>post\<close> makes of a form is parsed by
  \<open>urlParseQuery\<close> to the same names and values, in the same order, whatever characters the values
  hold; the names are no array indices and none that every object inherits.\<close>

theorem form_round_trip:
  assumes "form_ok form"
  shows "url_parse_query (form_body form) = map (\<lambda>p. (fst p, One (snd p))) form"
proof (cases "form = []")
  case False
  let ?ps = "map (\<lambda>p. http_escape (fst p) @ [61] @ http_escape (snd p)) form"
  have "\<forall>p\<in>set ?ps. 38 \<notin> set p" using http_escape_set [of 38] by auto
  then have "split_on 38 (form_body form) = ?ps"
    unfolding form_body_def using False by (intro split_on_join) auto
  moreover have "form_body form \<noteq> []"
    using False by (cases form; cases "tl form") (auto simp: form_body_def)
  ultimately show ?thesis
    using assms foldl_add_pair [of form "[]"] by (simp add: url_parse_query_def form_ok_def)
qed (simp add: url_parse_query_def form_body_def)

lemma form_round_trip_witness:
  "url_parse_query (form_body [(js ''a b'', js ''1&2''), (js ''c'', [])]) =
   map (\<lambda>p. (fst p, One (snd p))) [(js ''a b'', js ''1&2''), (js ''c'', [])]"
  by (rule form_round_trip) code_simp

lemma constructor_key:
  "add_pair (http_escape (js ''constructor'') @ [61] @ http_escape v) [] =
   [(js ''constructor'', Many [native (js ''constructor''), v])]"
proof -
  have "61 \<notin> set (http_escape (js ''constructor''))" using http_escape_set by blast
  then have "index_of_char (http_escape (js ''constructor'') @ 61 # http_escape v) 61 = Some (length (http_escape (js ''constructor'')))"
    by (rule index_of_char_append)
  moreover have "js ''constructor'' \<noteq> js ''__proto__''" "js ''constructor'' \<in> set (map js inherited_names)"
    "index_key (js ''constructor'') = None" by code_simp+
  ultimately show ?thesis by (simp add: add_pair_def url_decode_escape add_header_def obj_put_def)
qed

end
