(* ===== verification/Http_Client.thy ===== *)
theory Http_Client
  imports Http_Core Http_Url "HOL-Library.Multiset"
begin

text \<open>
  The client of \<open>js/internal/http-core.js\<close>: the pool of keep-alive connections, requests with one
  retry on a stale connection, streamed responses, and the clean-up timer. Connections are the
  numbers of their sockets. What the network answers is an argument of the operations: the sockets
  that \<open>connectAsync\<close> returns, the outcome of the TLS upgrade, the clock, which readers have been
  closed by their peers. The bytes a peer will send over a socket are part of the state, as later
  requests on the same socket go on reading where an earlier one stopped.
\<close>

section \<open>State\<close>

record conn =
  fd :: nat
  expireTime :: nat

text \<open>A \<open>Map\<close>: assignment in place when the key is there, at the end otherwise; deletion.\<close>

fun map_put :: "'k \<Rightarrow> 'v \<Rightarrow> ('k \<times> 'v) list \<Rightarrow> ('k \<times> 'v) list" where
  "map_put k v [] = [(k, v)]"
| "map_put k v ((k', v') # ps) = (if k = k' then (k, v) # ps else (k', v') # map_put k v ps)"

fun map_delete :: "'k \<Rightarrow> ('k \<times> 'v) list \<Rightarrow> ('k \<times> 'v) list" where
  "map_delete k [] = []"
| "map_delete k ((k', v') # ps) = (if k = k' then ps else (k', v') # map_delete k ps)"

text \<open>
  The module variables, with the log of the sockets that \<open>connectAsync\<close> has returned and of those
  that were closed, the bytes still to come, and what was written.
\<close>

record client =
  connPool :: "(jsstr \<times> conn list) list"
  cleanupTimerStarted :: bool
  opened :: "nat list"
  closes :: "nat list"
  incoming :: "nat \<Rightarrow> bytes"
  written :: "(nat \<times> bytes) list"

definition new_client :: "(nat \<Rightarrow> bytes) \<Rightarrow> client" where
  "new_client inc = \<lparr>connPool = [], cleanupTimerStarted = False, opened = [], closes = [],
     incoming = inc, written = []\<rparr>"

definition max_per_host :: nat where "max_per_host = 8"

definition default_keepalive_sec :: nat where "default_keepalive_sec = 60"

definition close_fd :: "nat \<Rightarrow> client \<Rightarrow> client" where
  "close_fd i st = st\<lparr>closes := closes st @ [i]\<rparr>"

definition close_fds :: "nat list \<Rightarrow> client \<Rightarrow> client" where
  "close_fds is st = st\<lparr>closes := closes st @ is\<rparr>"

section \<open>The pool\<close>

definition port_text :: "port \<Rightarrow> jsstr" where
  "port_text p = (case p of Port n \<Rightarrow> dec n | InheritedFunction \<Rightarrow> native (js ''constructor''))"

definition pool_key_str :: "client_url \<Rightarrow> jsstr" where
  "pool_key_str u = host u @ [58] @ port_text (port u) @ [58] @ protocol u"

text \<open>
  The loop of \<open>poolGet\<close> on the connections from the last to the first: the connection found, the
  ones left, and the ones closed.
\<close>

fun pop_loop :: "(nat \<Rightarrow> bool) \<Rightarrow> nat \<Rightarrow> conn list \<Rightarrow> conn option \<times> conn list \<times> nat list" where
  "pop_loop dead now [] = (None, [], [])"
| "pop_loop dead now (c # cs) =
     (if \<not> dead (fd c) \<and> now < expireTime c then (Some c, cs, [])
      else (case pop_loop dead now cs of (r, rest, ds) \<Rightarrow> (r, rest, fd c # ds)))"

definition pool_get :: "(nat \<Rightarrow> bool) \<Rightarrow> nat \<Rightarrow> jsstr \<Rightarrow> client \<Rightarrow> conn option \<times> client" where
  "pool_get dead now key st =
     (case map_of (connPool st) key of
        None \<Rightarrow> (None, st)
      | Some cs \<Rightarrow>
          (case pop_loop dead now (rev cs) of
             (Some c, rest, ds) \<Rightarrow>
               (Some c, close_fds ds (st\<lparr>connPool := map_put key (rev rest) (connPool st)\<rparr>))
           | (None, rest, ds) \<Rightarrow>
               (None, close_fds ds (st\<lparr>connPool := map_delete key (connPool st)\<rparr>))))"

text \<open>\<open>/timeout\s*=\s*(\d+)/i\<close>, searched anywhere.\<close>

definition timeout_at :: "jsstr \<Rightarrow> jsstr option" where
  "timeout_at s =
     (let t = dropWhile is_space (drop 7 s); ds = takeWhile is_dec (dropWhile is_space (tl t))
      in if to_lower (take 7 s) = js ''timeout'' \<and> starts_with t [61] \<and> ds \<noteq> [] then Some ds else None)"

fun match_timeout :: "jsstr \<Rightarrow> jsstr option" where
  "match_timeout [] = None"
| "match_timeout (c # s) = (case timeout_at (c # s) of Some ds \<Rightarrow> Some ds | None \<Rightarrow> match_timeout s)"

definition keepalive_sec :: "header \<Rightarrow> nat" where
  "keepalive_sec h =
     (case map_of h (js ''keep-alive'') of
        Some (One v) \<Rightarrow> (case match_timeout v of Some ds \<Rightarrow> digits_value 10 ds | None \<Rightarrow> default_keepalive_sec)
      | _ \<Rightarrow> default_keepalive_sec)"

definition says_close :: "header \<Rightarrow> bool" where
  "says_close h =
     (case map_of h (js ''connection'') of Some (One v) \<Rightarrow> to_lower v = js ''close'' | _ \<Rightarrow> False)"

text \<open>The eviction of \<open>poolPut\<close>: the connections kept and the ones closed.\<close>

fun evict_loop :: "conn list \<Rightarrow> conn list \<times> nat list" where
  "evict_loop [] = ([], [])"
| "evict_loop (c # cs) =
     (if length (c # cs) \<ge> max_per_host
      then (case evict_loop cs of (kept, ds) \<Rightarrow> (kept, fd c # ds)) else (c # cs, []))"

definition pool_put :: "nat \<Rightarrow> jsstr \<Rightarrow> nat \<Rightarrow> header \<Rightarrow> client \<Rightarrow> client" where
  "pool_put now key i h st =
     (if says_close h then close_fd i st
      else let cs = (case map_of (connPool st) key of None \<Rightarrow> [] | Some cs \<Rightarrow> cs);
               (kept, ds) = evict_loop cs;
               c = \<lparr>fd = i, expireTime = now + keepalive_sec h * 100\<rparr>
           in (close_fds ds st)\<lparr>connPool := map_put key (kept @ [c]) (connPool st), cleanupTimerStarted := True\<rparr>)"

text \<open>
  The callback of \<open>scheduleCleanup\<close>: it runs again as long as the pool has a key. It goes through
  the connections of a host from the last to the first.
\<close>

definition live :: "(nat \<Rightarrow> bool) \<Rightarrow> nat \<Rightarrow> conn \<Rightarrow> bool" where
  "live dead now c \<longleftrightarrow> \<not> dead (fd c) \<and> now < expireTime c"

fun cleanup_loop :: "(nat \<Rightarrow> bool) \<Rightarrow> nat \<Rightarrow> (jsstr \<times> conn list) list \<Rightarrow>
    (jsstr \<times> conn list) list \<times> nat list" where
  "cleanup_loop dead now [] = ([], [])"
| "cleanup_loop dead now ((key, cs) # ps) =
     (let kept = filter (live dead now) cs; ds = map fd (rev (filter (\<lambda>c. \<not> live dead now c) cs))
      in case cleanup_loop dead now ps of
           (ps', ds') \<Rightarrow> (if kept = [] then ps' else (key, kept) # ps', ds @ ds'))"

definition cleanup :: "(nat \<Rightarrow> bool) \<Rightarrow> nat \<Rightarrow> client \<Rightarrow> client" where
  "cleanup dead now st =
     (case cleanup_loop dead now (connPool st) of
        (ps, ds) \<Rightarrow> (close_fds ds st)\<lparr>connPool := ps, cleanupTimerStarted := ps \<noteq> []\<rparr>)"

definition close_all_keepalive :: "client \<Rightarrow> client" where
  "close_all_keepalive st =
     (close_fds (concat (map (\<lambda>p. map fd (snd p)) (connPool st))) st)\<lparr>connPool := []\<rparr>"

section \<open>Requests\<close>

text \<open>
  The answers of the network during one request: for each of its two attempts the socket that
  \<open>connectAsync\<close> returns (\<open>None\<close>: it rejects), the outcome of TLS for \<open>https\<close>, the readers closed,
  the time when the pool is searched and when the connection is put back, and the bytes buffered
  when a body without length starts. \<open>recvHeaderOut\<close> is not given by the caller.
\<close>

datatype tls_answer = TlsMissing | TlsFails | TlsOk

record network =
  connects :: "nat \<Rightarrow> nat option"
  tls :: "nat \<Rightarrow> tls_answer"
  gone :: "nat \<Rightarrow> bool"
  time_get :: nat
  time_put :: nat
  buffered :: nat

datatype request_error = BadUrl | ConnectFailed | TlsError | Response response_error

definition open_connection :: "network \<Rightarrow> nat \<Rightarrow> client_url \<Rightarrow> client \<Rightarrow> (request_error + nat) \<times> client" where
  "open_connection e attempt u st =
     (case connects e attempt of
        None \<Rightarrow> (Inl ConnectFailed, st)
      | Some i \<Rightarrow>
          let st' = st\<lparr>opened := opened st @ [i]\<rparr>
          in if protocol u \<noteq> js ''https'' then (Inr i, st')
             else (case tls e attempt of
                     TlsMissing \<Rightarrow> (Inl TlsError, close_fd i st')
                   | TlsFails \<Rightarrow> (Inl TlsError, st')
                   | TlsOk \<Rightarrow> (Inr i, st')))"

text \<open>The writes of \<open>doRequestOn\<close>.\<close>

definition send_request :: "jsstr \<Rightarrow> jsstr \<Rightarrow> jsstr \<Rightarrow> header option \<Rightarrow> content \<Rightarrow> nat \<Rightarrow> client \<Rightarrow> client" where
  "send_request m hostHdr u h c i st =
     st\<lparr>written := written st @ [(i, encode_utf8 (build_request m hostHdr u h c))] @
        (if has_content c then [(i, content_bytes c)] else [])\<rparr>"

text \<open>One attempt of \<open>request\<close> on an open connection, up to the error that its \<open>catch\<close> handles.\<close>

definition can_pool :: "jsstr \<Rightarrow> nat \<Rightarrow> header \<Rightarrow> bool" where
  "can_pool m status h \<longleftrightarrow>
     map_of h (js ''content-length'') \<noteq> None \<or> map_of h (js ''transfer-encoding'') = Some (One (js ''chunked'')) \<or>
     status = 204 \<or> status = 304 \<or> status < 200 \<or> m = js ''HEAD''"

definition request_on :: "network \<Rightarrow> jsstr \<Rightarrow> client_url \<Rightarrow> jsstr \<Rightarrow> header option \<Rightarrow> content \<Rightarrow> nat \<Rightarrow>
    client \<Rightarrow> (response_error + nat \<times> header \<times> jsstr) \<times> client" where
  "request_on e m p u h c i st =
     (let st1 = send_request m (hostHeader p) u h c i st
      in case read_response m (buffered e) [] (incoming st i) of
           Inl err \<Rightarrow> (Inl err, st1)
         | Inr ((status, hdr, b), r) \<Rightarrow>
             let st2 = st1\<lparr>incoming := (incoming st1)(i := r)\<rparr>
             in (Inr (status, hdr, b),
                 if can_pool m status hdr then pool_put (time_put e) (pool_key_str p) i hdr st2
                 else close_fd i st2))"

definition fresh_request :: "network \<Rightarrow> nat \<Rightarrow> jsstr \<Rightarrow> client_url \<Rightarrow> jsstr \<Rightarrow> header option \<Rightarrow> content \<Rightarrow>
    client \<Rightarrow> (request_error + nat \<times> header \<times> jsstr) \<times> client" where
  "fresh_request e attempt m p u h c st =
     (case open_connection e attempt p st of
        (Inl err, st1) \<Rightarrow> (Inl err, st1)
      | (Inr i, st1) \<Rightarrow>
          (case request_on e m p u h c i st1 of
             (Inr res, st2) \<Rightarrow> (Inr res, st2)
           | (Inl err, st2) \<Rightarrow> (Inl (Response err), close_fd i st2)))"

text \<open>A pooled connection that fails for any reason is closed, and the request sent again once.\<close>

definition http_request :: "network \<Rightarrow> jsstr \<Rightarrow> jsstr \<Rightarrow> jsstr \<Rightarrow> header option \<Rightarrow> content \<Rightarrow>
    client \<Rightarrow> (request_error + nat \<times> header \<times> jsstr) \<times> client" where
  "http_request e m hst u h c st =
     (case client_parse_url hst of
        None \<Rightarrow> (Inl BadUrl, st)
      | Some p \<Rightarrow>
          (case pool_get (gone e) (time_get e) (pool_key_str p) st of
             (None, st1) \<Rightarrow> fresh_request e 0 m p u h c st1
           | (Some k, st1) \<Rightarrow>
               (case request_on e m p u h c (fd k) st1 of
                  (Inr res, st2) \<Rightarrow> (Inr res, st2)
                | (Inl err, st2) \<Rightarrow> fresh_request e 1 m p u h c (close_fd (fd k) st2))))"

definition http_get :: "network \<Rightarrow> jsstr \<Rightarrow> jsstr \<Rightarrow> header option \<Rightarrow> client \<Rightarrow>
    (request_error + nat \<times> jsstr) \<times> client" where
  "http_get e hst u h st =
     (case http_request e (js ''GET'') hst u h NoContent st of
        (Inl err, st') \<Rightarrow> (Inl err, st')
      | (Inr (status, _, b), st') \<Rightarrow> (Inr (status, b), st'))"

definition post_header :: header where
  "post_header = [(js ''content-type'', One (js ''application/x-www-form-urlencoded''))]"

definition http_post :: "network \<Rightarrow> jsstr \<Rightarrow> jsstr \<Rightarrow> (jsstr \<times> jsstr) list \<Rightarrow> client \<Rightarrow>
    (request_error + nat \<times> jsstr) \<times> client" where
  "http_post e hst u form st =
     (case http_request e (js ''POST'') hst u (Some post_header) (TextContent (form_body form)) st of
        (Inl err, st') \<Rightarrow> (Inl err, st')
      | (Inr (status, _, b), st') \<Rightarrow> (Inr (status, b), st'))"

text \<open>\<open>head\<close> has a loop of its own and reads no body.\<close>

definition head_on :: "network \<Rightarrow> client_url \<Rightarrow> jsstr \<Rightarrow> header option \<Rightarrow> nat \<Rightarrow> client \<Rightarrow>
    (response_error + nat) \<times> client" where
  "head_on e p u h i st =
     (let st1 = send_request (js ''HEAD'') (hostHeader p) u h NoContent i st
      in case read_head [] (incoming st i) of
           Inl err \<Rightarrow> (Inl err, close_fd i st1)
         | Inr ((status, hdr), r) \<Rightarrow>
             (Inr status, pool_put (time_put e) (pool_key_str p) i hdr (st1\<lparr>incoming := (incoming st1)(i := r)\<rparr>)))"

definition fresh_head :: "network \<Rightarrow> nat \<Rightarrow> client_url \<Rightarrow> jsstr \<Rightarrow> header option \<Rightarrow> client \<Rightarrow>
    (request_error + nat) \<times> client" where
  "fresh_head e attempt p u h st =
     (case open_connection e attempt p st of
        (Inl err, st1) \<Rightarrow> (Inl err, st1)
      | (Inr i, st1) \<Rightarrow>
          (case head_on e p u h i st1 of
             (Inr status, st2) \<Rightarrow> (Inr status, st2)
           | (Inl err, st2) \<Rightarrow> (Inl (Response err), st2)))"

definition http_head :: "network \<Rightarrow> jsstr \<Rightarrow> jsstr \<Rightarrow> header option \<Rightarrow> client \<Rightarrow> (request_error + nat) \<times> client" where
  "http_head e hst u h st =
     (case client_parse_url hst of
        None \<Rightarrow> (Inl BadUrl, st)
      | Some p \<Rightarrow>
          (case pool_get (gone e) (time_get e) (pool_key_str p) st of
             (None, st1) \<Rightarrow> fresh_head e 0 p u h st1
           | (Some k, st1) \<Rightarrow>
               (case head_on e p u h (fd k) st1 of
                  (Inr status, st2) \<Rightarrow> (Inr status, st2)
                | (Inl err, st2) \<Rightarrow> fresh_head e 1 p u h st2)))"

section \<open>Streamed responses\<close>

datatype left = ReadAll | Remaining int | NotANumber

record http_stream =
  s_fd :: nat
  s_key :: jsstr
  s_status :: nat
  s_header :: header
  s_chunked :: bool
  s_left :: left
  s_closed :: bool

text \<open>\<open>requestStream\<close> never takes its connection from the pool.\<close>

definition request_stream :: "network \<Rightarrow> jsstr \<Rightarrow> jsstr \<Rightarrow> jsstr \<Rightarrow> header option \<Rightarrow> content \<Rightarrow> client \<Rightarrow>
    (request_error + http_stream) \<times> client" where
  "request_stream e m hst u h c st =
     (case client_parse_url hst of
        None \<Rightarrow> (Inl BadUrl, st)
      | Some p \<Rightarrow>
          (case open_connection e 0 p st of
             (Inl err, st1) \<Rightarrow> (Inl err, st1)
           | (Inr i, st1) \<Rightarrow>
               let st2 = send_request m (hostHeader p) u h c i st1
               in (case read_head [] (incoming st2 i) of
                     Inl err \<Rightarrow> (Inl (Response err), close_fd i st2)
                   | Inr ((status, hdr), r) \<Rightarrow>
                       (Inr \<lparr>s_fd = i, s_key = pool_key_str p, s_status = status, s_header = hdr,
                          s_chunked = (map_of hdr (js ''transfer-encoding'') = Some (One (js ''chunked''))),
                          s_left = (case map_of hdr (js ''content-length'') of
                             None \<Rightarrow> ReadAll
                           | Some v \<Rightarrow> (case parse_int 10 (hval_str v) of None \<Rightarrow> NotANumber | Some n \<Rightarrow> Remaining n)),
                          s_closed = False\<rparr>,
                        st2\<lparr>incoming := (incoming st2)(i := r)\<rparr>))))"

definition finish_stream :: "(nat \<Rightarrow> bool) \<Rightarrow> nat \<Rightarrow> http_stream \<Rightarrow> client \<Rightarrow> http_stream \<times> client" where
  "finish_stream dead now s st =
     (s\<lparr>s_closed := True\<rparr>,
      if \<not> says_close (s_header s) \<and> \<not> dead (s_fd s) then pool_put now (s_key s) (s_fd s) (s_header s) st
      else close_fd (s_fd s) st)"

text \<open>
  \<open>read()\<close>: a piece, \<open>null\<close>, the error \<open>socketError\<close>, or a promise that stays pending until the peer
  closes (the length is \<open>NaN\<close>, and no number of bytes reaches it). Bytes that a failing read leaves in the buffer stay there.
\<close>

datatype stream_result = Piece jsstr | NoMore | StreamError | WaitsForClose

definition set_incoming :: "nat \<Rightarrow> bytes \<Rightarrow> client \<Rightarrow> client" where
  "set_incoming i r st = st\<lparr>incoming := (incoming st)(i := r)\<rparr>"

text \<open>What is left of the bytes when a header breaks off: the part after the last full line.\<close>

function last_partial :: "bytes \<Rightarrow> bytes" where
  "last_partial s = (case next_line s of None \<Rightarrow> s | Some (line, r) \<Rightarrow> last_partial r)"
  by pat_completeness auto
termination by (relation "measure length") (auto dest: next_line_length)

declare last_partial.simps [simp del]

definition finish_chunks :: "(nat \<Rightarrow> bool) \<Rightarrow> nat \<Rightarrow> http_stream \<Rightarrow> bytes \<Rightarrow> client \<Rightarrow>
    stream_result \<times> http_stream \<times> client" where
  "finish_chunks dead now s r st =
     (let i = s_fd s in
      case http_recv_header r 0 [] of
        Got (lines, ok) r' \<Rightarrow>
          let s' = (if ok \<and> lines \<noteq> [] then s\<lparr>s_header := fst (http_parse_header lines None (s_header s))\<rparr> else s);
              (s'', st') = finish_stream dead now s' (set_incoming i r' st)
          in (NoMore, s'', st')
      | _ \<Rightarrow> (StreamError, s, set_incoming i (last_partial r) st))"

definition read_chunk :: "(nat \<Rightarrow> bool) \<Rightarrow> nat \<Rightarrow> http_stream \<Rightarrow> client \<Rightarrow> stream_result \<times> http_stream \<times> client" where
  "read_chunk dead now s st =
     (let i = s_fd s in
      case next_line (incoming st i) of
        None \<Rightarrow> (StreamError, s, st)
      | Some (line, r) \<Rightarrow>
          let sz = (case chunk_size line of None \<Rightarrow> 0 | Some n \<Rightarrow> n)
          in if sz = 0 then finish_chunks dead now s r st
             else (case read_exact sz r of
                     None \<Rightarrow> (StreamError, s, set_incoming i r st)
                   | Some (buf, r1) \<Rightarrow>
                       (case read_exact 2 r1 of
                          None \<Rightarrow> (StreamError, s, set_incoming i r1 st)
                        | Some (_, r2) \<Rightarrow> (Piece (decode_utf8 buf), s, set_incoming i r2 st))))"

definition read_part :: "(nat \<Rightarrow> bool) \<Rightarrow> nat \<Rightarrow> int \<Rightarrow> http_stream \<Rightarrow> client \<Rightarrow> stream_result \<times> http_stream \<times> client" where
  "read_part dead now n s st =
     (let i = s_fd s in
      if n \<le> 0 then (case finish_stream dead now s st of (s', st') \<Rightarrow> (NoMore, s', st'))
      else (case read_exact (min n 8192) (incoming st i) of
              None \<Rightarrow> (StreamError, s, st)
            | Some (buf, r) \<Rightarrow>
                let s1 = s\<lparr>s_left := Remaining (n - min n 8192)\<rparr>; st1 = set_incoming i r st
                in if n - min n 8192 \<le> 0
                   then (case finish_stream dead now s1 st1 of (s', st') \<Rightarrow> (Piece (decode_utf8 buf), s', st'))
                   else (Piece (decode_utf8 buf), s1, st1)))"

definition stream_read :: "(nat \<Rightarrow> bool) \<Rightarrow> nat \<Rightarrow> http_stream \<Rightarrow> client \<Rightarrow> stream_result \<times> http_stream \<times> client" where
  "stream_read dead now s st =
     (if s_closed s then (NoMore, s, st)
      else if s_chunked s then read_chunk dead now s st
      else case s_left s of
        Remaining n \<Rightarrow> read_part dead now n s st
      | NotANumber \<Rightarrow> (if dead (s_fd s) then StreamError else WaitsForClose, s, st)
      | ReadAll \<Rightarrow> (NoMore, s\<lparr>s_closed := True\<rparr>, close_fd (s_fd s) st))"

definition stream_close :: "http_stream \<Rightarrow> client \<Rightarrow> http_stream \<times> client" where
  "stream_close s st = (if s_closed s then (s, st) else (s\<lparr>s_closed := True\<rparr>, close_fd (s_fd s) st))"

section \<open>Every socket has one owner\<close>

text \<open>The sockets in the pool; the sockets that are accounted for: pooled or closed.\<close>

definition pool_fds :: "(jsstr \<times> conn list) list \<Rightarrow> nat list" where
  "pool_fds ps = concat (map (\<lambda>p. map fd (snd p)) ps)"

definition owned :: "client \<Rightarrow> nat multiset" where
  "owned st = mset (pool_fds (connPool st)) + mset (closes st)"

definition accounted :: "client \<Rightarrow> bool" where
  "accounted st \<longleftrightarrow> mset (opened st) = owned st"

definition pool_ok :: "client \<Rightarrow> bool" where
  "pool_ok st \<longleftrightarrow> list_all (\<lambda>p. length (snd p) \<le> max_per_host) (connPool st) \<and>
     (connPool st \<noteq> [] \<longrightarrow> cleanupTimerStarted st)"

lemma pool_fds_simps [simp]: "pool_fds [] = []" "pool_fds (p # ps) = map fd (snd p) @ pool_fds ps"
  by (simp_all add: pool_fds_def)

definition bucket :: "jsstr \<Rightarrow> (jsstr \<times> conn list) list \<Rightarrow> conn list" where
  "bucket k ps = (case map_of ps k of None \<Rightarrow> [] | Some cs \<Rightarrow> cs)"

lemma pool_fds_put:
  "mset (pool_fds (map_put k v ps)) + mset (map fd (bucket k ps)) = mset (pool_fds ps) + mset (map fd v)"
  by (induction k v ps rule: map_put.induct) (auto simp: bucket_def)

lemma pool_fds_delete: "mset (pool_fds (map_delete k ps)) + mset (map fd (bucket k ps)) = mset (pool_fds ps)"
  by (induction k ps rule: map_delete.induct) (auto simp: bucket_def)

lemma list_all_put: "list_all P ps \<Longrightarrow> P (k, v) \<Longrightarrow> list_all P (map_put k v ps)"
  by (induction k v ps rule: map_put.induct) auto

lemma list_all_delete: "list_all P ps \<Longrightarrow> list_all P (map_delete k ps)"
  by (induction k ps rule: map_delete.induct) auto

lemma bucket_length: "list_all (\<lambda>p. length (snd p) \<le> n) ps \<Longrightarrow> length (bucket k ps) \<le> n"
  by (fastforce simp: bucket_def list_all_iff dest: map_of_SomeD split: option.split)

fun fd_of :: "conn option \<Rightarrow> nat multiset" where
  "fd_of None = {#}"
| "fd_of (Some c) = {#fd c#}"

lemma pop_loop_fds:
  "pop_loop d now cs = (r, rest, ds) \<Longrightarrow> mset (map fd cs) = fd_of r + mset (map fd rest) + mset ds"
  by (induction cs arbitrary: r rest ds) (auto split: if_splits prod.splits)

lemma pop_loop_props:
  "pop_loop d now cs = (r, rest, ds) \<Longrightarrow> length rest \<le> length cs \<and> (r = None \<longrightarrow> rest = []) \<and>
   (\<forall>c. r = Some c \<longrightarrow> \<not> d (fd c) \<and> now < expireTime c)"
  by (induction cs arbitrary: r rest ds) (fastforce split: if_splits prod.splits)+

lemma pool_get_owned:
  assumes "pool_get d now k st = (r, st')"
  shows "owned st = owned st' + fd_of r" "opened st' = opened st"
proof -
  show "opened st' = opened st"
    using assms by (auto simp: pool_get_def close_fds_def split: option.splits prod.splits)
  show "owned st = owned st' + fd_of r"
  proof (cases "map_of (connPool st) k")
    case (Some cs)
    obtain r' rest ds where p: "pop_loop d now (rev cs) = (r', rest, ds)" by (cases "pop_loop d now (rev cs)")
    have 1: "mset (map fd cs) = fd_of r' + mset (map fd rest) + mset ds"
      using pop_loop_fds [OF p] by simp
    have b: "bucket k (connPool st) = cs" using Some by (simp add: bucket_def)
    show ?thesis
      using assms Some p 1 pool_fds_put [of k "rev rest" "connPool st"] pool_fds_delete [of k "connPool st"]
        pop_loop_props [OF p]
      by (cases r') (auto simp: pool_get_def owned_def close_fds_def b add.assoc)
  qed (use assms in \<open>auto simp: pool_get_def\<close>)
qed

lemma evict_loop_fds: "evict_loop cs = (kept, ds) \<Longrightarrow> mset (map fd cs) = mset (map fd kept) + mset ds"
  by (induction cs arbitrary: kept ds) (auto split: if_splits prod.splits)

lemma evict_loop_length: "evict_loop cs = (kept, ds) \<Longrightarrow> length kept < max_per_host"
  by (induction cs arbitrary: kept ds) (auto simp: max_per_host_def split: if_splits prod.splits)

lemma pool_put_owned: "owned (pool_put now k i h st) = owned st + {#i#}" "opened (pool_put now k i h st) = opened st"
proof -
  obtain kept ds where e: "evict_loop (bucket k (connPool st)) = (kept, ds)"
    by (cases "evict_loop (bucket k (connPool st))")
  show "owned (pool_put now k i h st) = owned st + {#i#}"
    using evict_loop_fds [OF e] pool_fds_put [of k "kept @ [\<lparr>fd = i, expireTime = now + keepalive_sec h * 100\<rparr>]" "connPool st"]
    by (auto simp: pool_put_def owned_def close_fd_def close_fds_def e [unfolded bucket_def] Let_def)
  show "opened (pool_put now k i h st) = opened st"
    by (simp add: pool_put_def close_fd_def close_fds_def Let_def split: prod.split)
qed

lemma close_fd_owned [simp]: "owned (close_fd i st) = owned st + {#i#}" "opened (close_fd i st) = opened st"
  by (simp_all add: owned_def close_fd_def)

lemma send_request_owned [simp]:
  "owned (send_request m x u h c i st) = owned st" "opened (send_request m x u h c i st) = opened st"
  "pool_ok (send_request m x u h c i st) = pool_ok st" "incoming (send_request m x u h c i st) = incoming st"
  by (simp_all add: send_request_def owned_def pool_ok_def)

lemma set_incoming_owned [simp]:
  "owned (st\<lparr>incoming := f\<rparr>) = owned st" "pool_ok (st\<lparr>incoming := f\<rparr>) = pool_ok st"
  by (simp_all add: owned_def pool_ok_def)

lemma pool_get_ok: "pool_get d now k st = (r, st') \<Longrightarrow> pool_ok st \<Longrightarrow> pool_ok st'"
proof -
  assume a: "pool_get d now k st = (r, st')" "pool_ok st"
  show "pool_ok st'"
  proof (cases "map_of (connPool st) k")
    case (Some cs)
    obtain r' rest ds where p: "pop_loop d now (rev cs) = (r', rest, ds)" by (cases "pop_loop d now (rev cs)")
    have "length cs \<le> max_per_host"
      using bucket_length [of max_per_host "connPool st" k] a(2) Some by (simp add: pool_ok_def bucket_def)
    then have "length rest \<le> max_per_host" using pop_loop_props [OF p] by simp
    moreover have "connPool st \<noteq> []" using Some by auto
    ultimately show ?thesis using a Some p
      by (cases r') (auto simp: pool_get_def pool_ok_def close_fds_def list_all_put list_all_delete)
  qed (use a in \<open>auto simp: pool_get_def\<close>)
qed

lemma close_fd_ok [simp]: "pool_ok (close_fd i st) = pool_ok st"
  by (simp add: close_fd_def pool_ok_def)

lemma pool_put_ok: "pool_ok st \<Longrightarrow> pool_ok (pool_put now k i h st)"
proof -
  assume a: "pool_ok st"
  obtain kept ds where e: "evict_loop (bucket k (connPool st)) = (kept, ds)"
    by (cases "evict_loop (bucket k (connPool st))")
  have "length kept < max_per_host" using evict_loop_length [OF e] .
  then show ?thesis using a
    by (auto simp: pool_put_def e [unfolded bucket_def] Let_def)
       (auto simp: pool_ok_def close_fds_def intro!: list_all_put)
qed

lemma open_connection_owned:
  assumes "open_connection e n p st = (r, st')" "tls e n \<noteq> TlsFails"
  shows "mset (opened st') + owned st = mset (opened st) + owned st' + (case r of Inl _ \<Rightarrow> {#} | Inr i \<Rightarrow> {#i#})"
  using assms by (auto simp: open_connection_def Let_def owned_def close_fd_def split: option.splits if_splits tls_answer.splits)

lemma open_connection_ok: "open_connection e n p st = (r, st') \<Longrightarrow> pool_ok st' = pool_ok st"
  by (auto simp: open_connection_def Let_def pool_ok_def close_fd_def split: option.splits if_splits tls_answer.splits)

lemma request_on_owned:
  assumes "request_on e m p u h c i st = (r, st')"
  shows "owned st' = owned st + (case r of Inl _ \<Rightarrow> {#} | Inr _ \<Rightarrow> {#i#})" "opened st' = opened st"
    "pool_ok st \<Longrightarrow> pool_ok st'"
  using assms by (auto simp: request_on_def Let_def pool_put_owned pool_put_ok split: sum.splits if_splits)

lemma request_on_account:
  "request_on e m p u h c i st = (r, st') \<Longrightarrow>
   owned st' = owned st + (case r of Inl _ \<Rightarrow> {#} | Inr _ \<Rightarrow> {#i#}) \<and> opened st' = opened st"
  using request_on_owned by blast

lemma fresh_request_owned:
  assumes "fresh_request e n m p u h c st = (r, st')" "tls e n \<noteq> TlsFails"
  shows "mset (opened st') + owned st = mset (opened st) + owned st'" "pool_ok st \<Longrightarrow> pool_ok st'"
proof -
  obtain r1 st1 where o: "open_connection e n p st = (r1, st1)" by (cases "open_connection e n p st")
  note a = open_connection_owned [OF o assms(2)] open_connection_ok [OF o]
  show "mset (opened st') + owned st = mset (opened st) + owned st'"
    using assms(1) o a by (auto simp: fresh_request_def split: sum.splits prod.splits dest!: request_on_account)
  show "pool_ok st \<Longrightarrow> pool_ok st'"
    using assms(1) o a by (auto simp: fresh_request_def split: sum.splits prod.splits dest!: request_on_owned(3))
qed

definition tls_works :: "network \<Rightarrow> bool" where
  "tls_works e \<longleftrightarrow> tls e 0 \<noteq> TlsFails \<and> tls e 1 \<noteq> TlsFails"

lemma http_request_keeps:
  assumes "http_request e m hst u h c st = (r, st')" "tls_works e" "accounted st" "pool_ok st"
  shows "accounted st' \<and> pool_ok st'"
proof (cases "client_parse_url hst")
  case (Some p)
  obtain k st1 where g: "pool_get (gone e) (time_get e) (pool_key_str p) st = (k, st1)" by (cases "pool_get (gone e) (time_get e) (pool_key_str p) st")
  note o = pool_get_owned [OF g] and ok = pool_get_ok [OF g assms(4)]
  show ?thesis
  proof (cases k)
    case None
    then have f: "fresh_request e 0 m p u h c st1 = (r, st')" using assms(1) Some g by (simp add: http_request_def)
    show ?thesis using fresh_request_owned [OF f] assms(2,3) o ok None by (auto simp: accounted_def tls_works_def)
  next
    case (Some c')
    obtain r1 st2 where q: "request_on e m p u h c (fd c') st1 = (r1, st2)" by (cases "request_on e m p u h c (fd c') st1")
    note b = request_on_owned [OF q]
    show ?thesis
    proof (cases r1)
      case (Inr x)
      then have "st' = st2" using assms(1) \<open>client_parse_url hst = Some p\<close> g q Some by (simp add: http_request_def)
      then show ?thesis using b o ok assms(3) Inr Some by (simp add: accounted_def)
    next
      case (Inl x)
      then have f: "fresh_request e 1 m p u h c (close_fd (fd c') st2) = (r, st')"
        using assms(1) \<open>client_parse_url hst = Some p\<close> g q Some by (simp add: http_request_def)
      show ?thesis using fresh_request_owned [OF f] assms(2,3) b o ok Inl Some by (auto simp: accounted_def tls_works_def)
    qed
  qed
qed (use assms in \<open>auto simp: http_request_def\<close>)

lemma read_head_response:
  "read_response (js ''HEAD'') k h s =
     (case read_head h s of Inl e \<Rightarrow> Inl e | Inr ((status, h'), r) \<Rightarrow> Inr ((status, h', []), r))"
  by (auto simp: read_response_def split: sum.split prod.split)

lemma head_on_request:
  "head_on e p u h i st =
     (case request_on e (js ''HEAD'') p u h NoContent i st of
        (Inl err, st1) \<Rightarrow> (Inl err, close_fd i st1)
      | (Inr (status, _, _), st1) \<Rightarrow> (Inr status, st1))"
  by (auto simp: head_on_def request_on_def Let_def read_head_response can_pool_def split: sum.split prod.split)

lemma fresh_head_request:
  "fresh_head e n p u h st =
     (case fresh_request e n (js ''HEAD'') p u h NoContent st of
        (Inl err, st1) \<Rightarrow> (Inl err, st1)
      | (Inr (status, _, _), st1) \<Rightarrow> (Inr status, st1))"
  by (auto simp: fresh_head_def fresh_request_def head_on_request split: sum.split prod.split)

lemma http_head_request:
  "http_head e hst u h st =
     (case http_request e (js ''HEAD'') hst u h NoContent st of
        (Inl err, st') \<Rightarrow> (Inl err, st')
      | (Inr (status, _, _), st') \<Rightarrow> (Inr status, st'))"
  by (auto simp: http_head_def http_request_def head_on_request fresh_head_request split: sum.split prod.split option.split)

text \<open>\<open>head\<close>, which has its own copy of the loop, does what \<open>request\<close> does for the method
  \<open>HEAD\<close>: the same writes, the same use of the pool, the same retry, and its status or error.\<close>

theorem head_is_request:
  "http_head e hst u h st =
     (case http_request e (js ''HEAD'') hst u h NoContent st of
        (Inl err, st') \<Rightarrow> (Inl err, st')
      | (Inr (status, _, _), st') \<Rightarrow> (Inr status, st'))"
  by (rule http_head_request)

section \<open>Any sequence of calls\<close>

datatype client_op =
    Request network jsstr jsstr jsstr "header option" content
  | Head network jsstr jsstr "header option"
  | Cleanup "nat \<Rightarrow> bool" nat
  | CloseAll

fun client_step :: "client \<Rightarrow> client_op \<Rightarrow> client" where
  "client_step st (Request e m hst u h c) = snd (http_request e m hst u h c st)"
| "client_step st (Head e hst u h) = snd (http_head e hst u h st)"
| "client_step st (Cleanup d now) = cleanup d now st"
| "client_step st CloseAll = close_all_keepalive st"

fun client_legal :: "client_op \<Rightarrow> bool" where
  "client_legal (Request e m hst u h c) = tls_works e"
| "client_legal (Head e hst u h) = tls_works e"
| "client_legal _ = True"

definition client_inv :: "client \<Rightarrow> bool" where
  "client_inv st \<longleftrightarrow> accounted st \<and> pool_ok st"

lemma partition_fds:
  "mset (map fd cs) = mset (map fd (filter P cs)) + mset (map fd (rev (filter (\<lambda>c. \<not> P c) cs)))"
  by (induction cs) auto

lemma cleanup_loop_fds:
  "cleanup_loop d now ps = (ps', ds) \<Longrightarrow> mset (pool_fds ps) = mset (pool_fds ps') + mset ds"
proof (induction ps arbitrary: ps' ds)
  case (Cons p ps)
  obtain k cs where p: "p = (k, cs)" by (cases p)
  obtain qs es where q: "cleanup_loop d now ps = (qs, es)" by (cases "cleanup_loop d now ps")
  define kept where "kept = filter (live d now) cs"
  define out where "out = map fd (rev (filter (\<lambda>c. \<not> live d now c) cs))"
  have "mset (map fd cs) = mset (map fd kept) + mset out"
    unfolding kept_def out_def by (rule partition_fds)
  moreover have "ps' = (if kept = [] then qs else (k, kept) # qs)" "ds = out @ es"
    using Cons.prems unfolding p cleanup_loop.simps q Let_def kept_def out_def by (auto simp del: filter_empty_conv)
  ultimately show ?case using Cons.IH [OF q] by (simp add: p)
qed simp

lemma cleanup_loop_ok:
  "cleanup_loop d now ps = (ps', ds) \<Longrightarrow> list_all (\<lambda>p. length (snd p) \<le> n) ps \<Longrightarrow> list_all (\<lambda>p. length (snd p) \<le> n) ps'"
proof (induction ps arbitrary: ps' ds)
  case (Cons p ps)
  obtain k cs where p: "p = (k, cs)" by (cases p)
  obtain qs es where q: "cleanup_loop d now ps = (qs, es)" by (cases "cleanup_loop d now ps")
  have "length (filter (live d now) cs) \<le> n"
    using Cons.prems(2) by (intro order_trans [OF length_filter_le]) (simp add: p)
  moreover have "ps' = (if filter (live d now) cs = [] then qs else (k, filter (live d now) cs) # qs)"
    using Cons.prems(1) unfolding p cleanup_loop.simps q Let_def by (auto simp del: filter_empty_conv)
  ultimately show ?case using Cons.IH [OF q] Cons.prems(2) by simp
qed simp

lemma cleanup_inv: "client_inv st \<Longrightarrow> client_inv (cleanup d now st)"
proof -
  assume a: "client_inv st"
  obtain ps ds where c: "cleanup_loop d now (connPool st) = (ps, ds)" by (cases "cleanup_loop d now (connPool st)")
  show ?thesis using a cleanup_loop_fds [OF c] cleanup_loop_ok [OF c, of max_per_host]
    by (simp add: client_inv_def cleanup_def c accounted_def owned_def pool_ok_def close_fds_def ac_simps)
qed

lemma close_all_inv: "client_inv st \<Longrightarrow> client_inv (close_all_keepalive st)"
  by (simp add: client_inv_def close_all_keepalive_def accounted_def owned_def pool_ok_def close_fds_def
    pool_fds_def add.commute)

lemma http_head_snd: "snd (http_head e hst u h st) = snd (http_request e (js ''HEAD'') hst u h NoContent st)"
  by (simp add: http_head_request split: prod.split sum.split)

lemma http_request_inv: "client_inv st \<Longrightarrow> tls_works e \<Longrightarrow> client_inv (snd (http_request e m hst u h c st))"
  using http_request_keeps [of e m hst u h c st] by (simp add: client_inv_def prod_eq_iff)

interpretation clients: guarded_component client_step client_inv "\<lambda>_. client_legal"
proof unfold_locales
  fix st a
  assume "client_inv st" "client_legal a"
  then show "client_inv (client_step st a)"
    by (cases a) (simp_all add: http_head_snd http_request_inv cleanup_inv close_all_inv)
qed

text \<open>Calls one after the other (the calls that overlap are in \<open>Http_Flights\<close>): after any sequence of requests,
  whatever the servers answer and whichever connections fail, every socket that was opened is either
  in the pool or has been closed, exactly once; no host has more than eight pooled connections, and
  the clean-up timer runs while there are any. (The TLS upgrades succeed or TLS is missing; a
  failing upgrade is the exception, see \<open>tls_failure_leaks\<close>.)\<close>

theorem sockets_accounted:
  assumes "list_all client_legal ops"
  shows "client_inv (foldl client_step (new_client inc) ops)"
  by (rule clients.run_legal) (simp_all add: legal_run_all assms client_inv_def accounted_def owned_def pool_ok_def new_client_def)

definition quiet_network :: network where
  "quiet_network = \<lparr>connects = (\<lambda>n. Some n), tls = (\<lambda>n. TlsOk), gone = (\<lambda>n. False), time_get = 0, time_put = 0, buffered = 0\<rparr>"

lemma sockets_accounted_witness:
  "client_inv (foldl client_step (new_client (\<lambda>n. []))
     [Request quiet_network (js ''GET'') (js ''h'') (js ''/'') None NoContent, CloseAll])"
  by (rule sockets_accounted) (simp add: tls_works_def quiet_network_def)

lemma tls_failure_leaks:
  assumes "client_parse_url hst = Some p" "protocol p = js ''https''" "connects e 0 = Some i" "tls e 0 = TlsFails"
  shows "snd (http_request e m hst u h c (new_client inc)) = (new_client inc)\<lparr>opened := [i]\<rparr>"
  using assms by (simp add: http_request_def pool_get_def new_client_def fresh_request_def open_connection_def)

text \<open>A pooled connection is handed out to one request only: what \<open>poolGet\<close> returns is open and
  has not expired, it is one of the sockets opened, it is no longer in the pool and has not been
  closed, so no other request and no clean-up can touch it.\<close>

theorem pool_get_exclusive:
  assumes "pool_get d now k st = (Some c, st')" "accounted st" "distinct (opened st)"
  shows "\<not> d (fd c) \<and> now < expireTime c \<and> fd c \<in> set (opened st) \<and>
    fd c \<notin> set (pool_fds (connPool st')) \<and> fd c \<notin> set (closes st')"
proof -
  have o: "owned st = owned st' + {#fd c#}" using pool_get_owned [OF assms(1)] by simp
  have m: "mset (opened st) = owned st' + {#fd c#}" using assms(2) o by (simp add: accounted_def)
  have "count (mset (opened st)) (fd c) \<le> 1" using assms(3) by (simp add: distinct_count_atmost_1)
  then have "count (owned st') (fd c) = 0" by (simp add: m)
  then have "fd c \<notin> set (pool_fds (connPool st'))" "fd c \<notin> set (closes st')"
    by (auto simp: owned_def count_eq_zero_iff)
  moreover have "fd c \<in> set (opened st)"
    using arg_cong [OF m, of set_mset] by simp
  moreover have "\<not> d (fd c) \<and> now < expireTime c"
    using assms(1) pop_loop_props
    by (auto simp: pool_get_def split: option.splits prod.splits) blast+
  ultimately show ?thesis by blast
qed

definition one_pooled :: client where
  "one_pooled = (new_client (\<lambda>_. []))\<lparr>connPool := [(js ''k'', [\<lparr>fd = 7, expireTime = 10\<rparr>])], opened := [7], cleanupTimerStarted := True\<rparr>"

lemma pool_get_exclusive_witness:
  "\<not> False \<and> (3 :: nat) < 10 \<and> (7 :: nat) \<in> set [7] \<and> (7 :: nat) \<notin> set (pool_fds [(js ''k'', [])]) \<and> (7 :: nat) \<notin> set []"
proof -
  have "pool_get (\<lambda>_. False) 3 (js ''k'') one_pooled =
      (Some \<lparr>fd = 7, expireTime = 10\<rparr>, one_pooled\<lparr>connPool := [(js ''k'', [])]\<rparr>)"
    by (simp add: pool_get_def one_pooled_def new_client_def close_fds_def)
  moreover have "accounted one_pooled" "distinct (opened one_pooled)"
    by (simp_all add: accounted_def owned_def one_pooled_def new_client_def)
  ultimately have "\<not> False \<and> 3 < expireTime \<lparr>fd = 7, expireTime = 10\<rparr> \<and> fd \<lparr>fd = 7, expireTime = 10\<rparr> \<in> set (opened one_pooled) \<and>
      fd \<lparr>fd = 7, expireTime = 10\<rparr> \<notin> set (pool_fds (connPool (one_pooled\<lparr>connPool := [(js ''k'', [])]\<rparr>))) \<and>
      fd \<lparr>fd = 7, expireTime = 10\<rparr> \<notin> set (closes (one_pooled\<lparr>connPool := [(js ''k'', [])]\<rparr>))"
    by (rule pool_get_exclusive)
  then show ?thesis by (simp add: one_pooled_def new_client_def)
qed

section \<open>Streams\<close>

definition held :: "http_stream \<Rightarrow> nat multiset" where
  "held s = (if s_closed s then {#} else {#s_fd s#})"

datatype stream_op = Read "nat \<Rightarrow> bool" nat | CloseStream

fun stream_step :: "http_stream \<times> client \<Rightarrow> stream_op \<Rightarrow> http_stream \<times> client" where
  "stream_step (s, st) (Read d now) = snd (stream_read d now s st)"
| "stream_step (s, st) CloseStream = stream_close s st"

definition stream_inv :: "http_stream \<times> client \<Rightarrow> bool" where
  "stream_inv x \<longleftrightarrow> mset (opened (snd x)) = owned (snd x) + held (fst x) \<and> pool_ok (snd x)"

lemma set_incoming_keeps [simp]:
  "stream_inv (s, set_incoming i r st) = stream_inv (s, st)" "stream_inv (s\<lparr>s_left := l\<rparr>, st) = stream_inv (s, st)"
  "stream_inv (s\<lparr>s_header := h\<rparr>, st) = stream_inv (s, st)"
  by (simp_all add: stream_inv_def set_incoming_def held_def)

lemma finish_stream_inv: "stream_inv (s, st) \<Longrightarrow> \<not> s_closed s \<Longrightarrow> stream_inv (finish_stream d now s st)"
  by (simp add: stream_inv_def finish_stream_def held_def pool_put_owned pool_put_ok)

lemma finish_chunks_inv:
  assumes "stream_inv (s, st)" "\<not> s_closed s"
  shows "stream_inv (snd (finish_chunks d now s r st))"
  using assms finish_stream_inv [of "s\<lparr>s_header := h\<rparr>" "set_incoming i r' st" d now for h i r']
    finish_stream_inv [of s "set_incoming i r' st" d now for i r']
  by (simp add: finish_chunks_def Let_def split: reading.split prod.split)

lemma stream_read_inv:
  assumes "stream_inv (s, st)"
  shows "stream_inv (snd (stream_read d now s st))"
proof (cases "s_closed s")
  case False
  have c: "stream_inv (snd (read_chunk d now s st))"
    using assms False finish_chunks_inv [OF assms False]
    by (simp add: read_chunk_def Let_def split: option.split prod.split)
  have p: "stream_inv (snd (read_part d now n s st))" for n
    using assms False finish_stream_inv [OF assms False, of d now]
      finish_stream_inv [of "s\<lparr>s_left := l\<rparr>" "set_incoming i r st" d now for l i r]
    by (simp add: read_part_def Let_def split: option.split prod.split)
  have "stream_inv (s\<lparr>s_closed := True\<rparr>, close_fd (s_fd s) st)"
    using assms False by (simp add: stream_inv_def held_def)
  then show ?thesis using assms False c p by (simp add: stream_read_def split: left.split)
qed (use assms in \<open>simp add: stream_read_def\<close>)

lemma stream_close_inv: "stream_inv (s, st) \<Longrightarrow> stream_inv (stream_close s st)"
  by (simp add: stream_close_def stream_inv_def held_def)

interpretation streams: component stream_step stream_inv
proof unfold_locales
  fix x a
  assume "stream_inv x"
  then show "stream_inv (stream_step x a)"
    using stream_read_inv stream_close_inv by (cases "(x, a)" rule: stream_step.cases) auto
qed

lemma request_stream_inv:
  assumes "request_stream e m hst u h c st = (Inr s, st')" "tls_works e" "client_inv st"
  shows "stream_inv (s, st')"
proof -
  obtain p where u: "client_parse_url hst = Some p"
    using assms(1) by (cases "client_parse_url hst") (auto simp: request_stream_def)
  obtain r st1 where "open_connection e 0 p st = (r, st1)" by (cases "open_connection e 0 p st")
  with u have p: "client_parse_url hst = Some p" "open_connection e 0 p st = (r, st1)" by simp_all
  then obtain i where i: "r = Inr i"
    using assms(1) by (cases r) (auto simp: request_stream_def)
  have "mset (opened st1) = owned st1 + {#i#}" "pool_ok st1"
    using open_connection_owned [OF p(2)] open_connection_ok [OF p(2)] assms(2,3) i
    by (auto simp: tls_works_def client_inv_def accounted_def)
  then show ?thesis using assms(1) p i
    by (auto simp: request_stream_def Let_def stream_inv_def held_def split: sum.splits prod.splits)
qed

end
