(* ===== verification/Http_Messages.thy ===== *)
theory Http_Messages
  imports Http_Core
begin

text \<open>
  What the server of \<open>js/internal/http-core.js\<close> writes the client reads back, and the other way
  round; the limit on bodies, and how a chunked body escapes it.
\<close>


subsection \<open>Bodies\<close>

lemma parse_int_dec: "parse_int 10 (dec n) = Some (int n)"
  using parse_int_to_radix [of 10 "[]" n] by (simp add: dec_def)

lemma hex_no: "c \<notin> set (to_radix 16 n)" if "c = 13 \<or> c = 59"
proof -
  have "digit_char d \<noteq> c" if "d < 16" for d
  proof -
    have "d \<in> set [0..<16]" using that by simp
    then show ?thesis using \<open>c = 13 \<or> c = 59\<close>
      by (simp add: upt_conv_Cons) (auto simp: digit_char_def to_unit_def)
  qed
  then show ?thesis using to_radix_digits [of 16 n] by fastforce
qed

lemma chunk_size_hex: "chunk_size (to_radix 16 n) = Some (int n)"
  using hex_no [of 59 n] parse_int_to_radix [of 16 "[]" n]
  by (simp add: chunk_size_def index_of_char_None [THEN iffD2])

fun chunk_text :: "jsstr list \<Rightarrow> jsstr" where
  "chunk_text [] = js ''0'' @ crlf @ crlf"
| "chunk_text (c # cs) =
     (if c = [] then chunk_text cs
      else to_radix 16 (length (encode_utf8 c)) @ crlf @ c @ crlf @ chunk_text cs)"

lemma chunk_writes_text:
  "concat (concat (map chunk_writes cs)) @ crlf @ js ''0'' @ crlf @ crlf = crlf @ chunk_text cs"
  by (induction cs) (auto simp: chunk_writes_def)

lemma read_exact_append: "read_exact (int (length a)) (a @ r) = Some (a, r)"
  by (simp add: read_exact_def)

lemma encode_cp_nonempty [simp]: "encode_cp n \<noteq> []" by (simp add: encode_cp_def)

lemma encode_nonempty [simp]: "encode_utf8 s = [] \<longleftrightarrow> s = []"
  by (induction s rule: encode_utf8.induct) auto

lemma chunk_loop_text:
  "chunk_loop 0 (encode_utf8 (chunk_text cs) @ r) parts n = Got (parts @ filter (\<lambda>c. c \<noteq> []) cs) (13 # 10 # r)"
proof (induction cs arbitrary: parts n)
  case Nil
  have "encode_utf8 (chunk_text []) @ r = encode_utf8 (js ''0'') @ 13 # 10 # 13 # 10 # r"
    using encode_crlf [of "js ''0''" crlf] encode_crlf [of "[]" "[]"] by simp
  moreover have "chunk_size (js ''0'') = Some 0" "13 \<notin> set (js ''0'')" by code_simp+
  ultimately show ?case
    by (subst chunk_loop.simps) (simp add: next_line_encode)
next
  case (Cons c cs)
  show ?case
  proof (cases "c = []")
    case False
    have "encode_utf8 (chunk_text (c # cs)) @ r =
        encode_utf8 (to_radix 16 (length (encode_utf8 c))) @ 13 # 10 #
        (encode_utf8 c @ 13 # 10 # (encode_utf8 (chunk_text cs) @ r))"
      using False encode_crlf [of "to_radix 16 (length (encode_utf8 c))" "c @ crlf @ chunk_text cs"]
        encode_crlf [of c "chunk_text cs"] by simp
    moreover have "read_exact 2 (13 # 10 # x) = Some ([13, 10], x)" for x by (simp add: read_exact_def numeral_2_eq_2)
    ultimately show ?thesis using False Cons.IH
      by (subst chunk_loop.simps)
         (simp add: next_line_encode hex_no chunk_size_hex read_exact_append decode_encode_utf8_all)
  qed (use Cons in simp)
qed

lemma recv_header_empty: "http_recv_header (13 # 10 # r) 0 [] = Got ([], True) r"
  by (subst http_recv_header.simps) (simp add: next_line_empty header_limit_def)

lemma concat_nonempty: "concat (filter (\<lambda>c. c \<noteq> []) cs) = concat cs"
  by (induction cs) auto

lemma recv_chunked_text:
  "recv_chunked_body 0 h (encode_utf8 (chunk_text cs) @ r) = Got (concat cs, h, True) r"
  by (simp add: recv_chunked_body_def chunk_loop_text recv_header_empty concat_nonempty)

subsection \<open>Responses\<close>

definition length_pair :: "nat \<Rightarrow> jsstr \<times> hval" where
  "length_pair n = (js ''content-length'', One (dec n))"

definition chunked_pair :: "jsstr \<times> hval" where
  "chunked_pair = (js ''transfer-encoding'', One (js ''chunked''))"

fun body_text :: "response_body \<Rightarrow> jsstr" where
  "body_text (Whole t) = t"
| "body_text (Generated cs) = concat cs"
| "body_text NoBody = []"

fun body_pair :: "response_body \<Rightarrow> jsstr \<times> hval" where
  "body_pair (Whole t) = length_pair (length (encode_utf8 t))"
| "body_pair _ = chunked_pair"

lemma names_ok: "name_ok (js ''content-length'')" "name_ok (js ''transfer-encoding'')" "value_ok (js ''chunked'')"
  by code_simp+

lemma value_ok_dec: "value_ok (dec n)"
proof -
  obtain d ds where d: "to_radix 10 n = digit_char d # map digit_char ds" "d < 10" by (rule to_radix_dec [of n])
  have "\<not> is_space (digit_char d)" using digit_char_not_sign [of d] d(2) by simp
  then show ?thesis using d dec_no [OF dec_digits(1), of 13 n]
    by (simp add: value_ok_def trim_start_def dec_def)
qed

lemma body_pair_ok: "pair_ok (body_pair b)"
  by (cases b) (simp_all add: length_pair_def chunked_pair_def names_ok value_ok_dec)


lemma length_line_block: "length (line_block ls) = sum_list (map (\<lambda>l. length l + 2) ls)"
  by (induction ls) (simp_all add: crlf_def)

lemma read_head_block:
  assumes "list_all pair_ok hs" "distinct (map fst hs)"
    "length (line_block (status_text code # map (pair_line (js '': '')) hs)) + 2 \<le> header_limit"
  shows "read_head [] (encode_utf8 (line_block (status_text code # map (pair_line (js '': '')) hs) @ crlf @ t) @ r) =
         Inr ((code, hs), encode_utf8 t @ r)"
proof -
  let ?ls = "status_text code # map (pair_line (js '': '')) hs"
  have sep: "js '': '' = 58 # [32]" by (simp add: js_def)
  have "list_all header_line_ok ?ls"
    using assms(1) status_text_ok by (auto simp: list_all_iff sep intro!: pair_line_ok)
  then have "http_recv_header (encode_utf8 (line_block ?ls @ crlf @ t) @ r) 0 [] = Got (?ls, True) (encode_utf8 t @ r)"
    using assms(3) http_recv_header_block [of ?ls 0 t r "[]"] by (simp only: length_line_block append_Nil)
  moreover obtain i where "match_status (status_text code) = Some (pad_start 3 48 (dec code), i)"
    using match_status_text by blast
  moreover have "http_parse_header (map (pair_line (js '': '')) hs) None [] = (hs, True)"
    using assms(1,2) parse_pairs [of hs "[]" "[32]" None] by (simp add: sep)
  ultimately show ?thesis by (simp add: read_head_def digits_pad)
qed

fun body_stream :: "response_body \<Rightarrow> jsstr" where
  "body_stream (Whole t) = t"
| "body_stream (Generated cs) = chunk_text cs"
| "body_stream NoBody = []"

lemma pair_prefixes: "js ''content-length: '' = js ''content-length'' @ js '': ''"
  "js ''transfer-encoding: chunked'' = js ''transfer-encoding'' @ js '': '' @ js ''chunked''"
  by code_simp+

lemma write_response_block:
  assumes "list_all pair_ok h" "b \<noteq> NoBody"
  shows "concat (write_http_response code b h) =
    line_block (status_text code # map (pair_line (js '': '')) (h @ [body_pair b])) @ crlf @ body_stream b"
  using assms chunk_writes_text
  by (cases b) (simp_all add: write_http_response_def Let_def head_lines_block status_line_text line_block_append
    pair_line_def length_pair_def chunked_pair_def pair_prefixes)

lemma head_length:
  "b \<noteq> NoBody \<Longrightarrow> list_all pair_ok h \<Longrightarrow>
   length (line_block (status_text code # map (pair_line (js '': '')) (h @ [body_pair b]))) \<le>
   length (hd (write_http_response code b h))"
  by (cases b) (simp_all add: write_http_response_def Let_def head_lines_block status_line_text line_block_append
    pair_line_def length_pair_def chunked_pair_def crlf_def)

lemma map_of_new: "k \<notin> fst ` set h \<Longrightarrow> map_of (h @ [(k', v)]) k = (if k = k' then Some v else None)"
  by (simp add: map_of_append map_add_def map_of_eq_None_iff [THEN iffD2] split: option.splits)

lemma names_distinct: "js ''content-length'' \<noteq> js ''transfer-encoding''"
  "js ''transfer-encoding'' \<noteq> js ''content-length''" "js ''chunked'' \<noteq> []"
  by code_simp+

definition free_of :: "string list \<Rightarrow> header \<Rightarrow> bool" where
  "free_of ns h \<longleftrightarrow> list_all (\<lambda>n. js n \<notin> fst ` set h) ns"

text \<open>The hypotheses of the reader: the head can be parsed back and keeps to the limit.\<close>

definition response_ok :: "nat \<Rightarrow> response_body \<Rightarrow> header \<Rightarrow> bool" where
  "response_ok code b h \<longleftrightarrow> head_ok h \<and> free_of [''content-length'', ''transfer-encoding''] h \<and> b \<noteq> NoBody \<and>
     length (hd (write_http_response code b h)) + 2 \<le> header_limit"

definition response_bytes :: "nat \<Rightarrow> response_body \<Rightarrow> header \<Rightarrow> bytes" where
  "response_bytes code b h = encode_utf8 (concat (write_http_response code b h))"

lemma read_head_written:
  assumes "response_ok code b h"
  shows "read_head [] (response_bytes code b h @ rest) =
      Inr ((code, h @ [body_pair b]), encode_utf8 (body_stream b) @ rest)"
proof -
  let ?hs = "h @ [body_pair b]"
  have d: "distinct (map fst ?hs)" "list_all pair_ok ?hs"
    using assms body_pair_ok [of b]
    by (cases b; force simp: response_ok_def head_ok_def free_of_def length_pair_def chunked_pair_def)+
  show ?thesis
    using read_head_block [OF d(2,1)] assms head_length [of b h code]
    by (simp add: write_response_block head_ok_def response_ok_def response_bytes_def)
qed

lemma read_response_written:
  assumes "response_ok code b h" "m \<noteq> js ''HEAD''"
  shows "read_response m k [] (response_bytes code b h @ rest) = Inr ((code, h @ [body_pair b], body_text b), rest)"
  using read_head_written [OF assms(1), of rest] assms names_distinct
  by (cases b) (simp_all add: response_ok_def read_response_def recv_chunked_text recv_body_def content_length_def hget_def
    map_of_new free_of_def length_pair_def chunked_pair_def parse_int_dec read_exact_append decode_encode_utf8_all
    del: map_of_append)

text \<open>C15. A response survives the wire: what \<open>writeResponse\<close> sends for a string or for a generator
  of chunks is read back by the client's \<open>request\<close> with the same status, the same headers (and the
  one that \<open>writeResponse\<close> adds) and the whole body, and the bytes after it are left alone. The
  headers have lower-case names without a colon, the head keeps to the limit of the reader.\<close>

theorem response_round_trip:
  assumes "response_ok code b h" "m \<noteq> js ''HEAD''"
  shows "read_response m k [] (response_bytes code b h @ rest) = Inr ((code, h @ [body_pair b], body_text b), rest)"
  using assms by (rule read_response_written)

subsection \<open>Requests\<close>

definition target_ok :: "jsstr \<Rightarrow> bool" where
  "target_ok u \<longleftrightarrow> u \<noteq> [] \<and> list_all (\<lambda>c. \<not> is_space c) u"

definition method_ok :: "jsstr \<Rightarrow> bool" where
  "method_ok m \<longleftrightarrow> m \<noteq> [] \<and> list_all is_letter m"

definition request_text :: "jsstr \<Rightarrow> jsstr \<Rightarrow> jsstr" where
  "request_text m u = m @ js '' '' @ u @ js '' HTTP/1.1''"

lemma lazy_url_target:
  "list_all (\<lambda>c. \<not> is_space c) u \<Longrightarrow> lazy_url acc (u @ js '' HTTP/1.1'') = Some (acc @ u, [49], [49])"
proof (induction u arbitrary: acc)
  case Nil
  have "version_tail (js '' HTTP/1.1'') = Some ([49], [49])" by code_simp
  then show ?case by (subst lazy_url.simps) simp
next
  case (Cons c u)
  have "\<not> is_line_end c" using Cons.prems by (auto simp: is_line_end_def is_space_def)
  moreover have "version_tail ((c # u) @ js '' HTTP/1.1'') = None"
    using Cons.prems by (simp add: version_tail_def)
  ultimately show ?case using Cons by (subst lazy_url.simps) simp
qed

lemma match_request_text:
  assumes "method_ok m" "target_ok u"
  shows "match_request (request_text m u) = Some (m, u, [49], [49])"
proof -
  let ?r = "32 # u @ js '' HTTP/1.1''"
  have s: "request_text m u = m @ ?r" by (simp add: request_text_def js_def)
  have "\<not> is_letter 32" by (simp add: is_letter_def)
  then have m: "takeWhile is_letter (m @ ?r) = m"
    using assms(1) by (simp add: method_ok_def takeWhile_append takeWhile_eq_all_conv list_all_iff)
  obtain c cs where c: "u = c # cs" "\<not> is_space c" using assms(2) by (cases u) (auto simp: target_ok_def)
  have "takeWhile is_space ?r = [32]" using c by simp
  then show ?thesis
    using assms lazy_url_target [of u "[]"] by (simp add: match_request_def s m method_ok_def target_ok_def)
qed

lemma request_text_ok: "method_ok m \<Longrightarrow> target_ok u \<Longrightarrow> header_line_ok (request_text m u)"
  by (auto simp: header_line_ok_def request_text_def method_ok_def target_ok_def list_all_iff js_def is_letter_def is_space_def)

lemma parse_named_line:
  assumes "to_lower n' = n" "58 \<notin> set n'" "n' \<noteq> []" "hd n' \<noteq> 9" "hd n' \<noteq> 32"
    "name_ok n" "value_ok v" "n \<notin> fst ` set out"
  shows "http_parse_header ((n' @ 58 # v) # lines) nm out = http_parse_header lines (Some n) (out @ [(n, One v)])"
proof -
  have i: "index_of_char (n' @ 58 # v) 58 = Some (length n')"
    using assms(2) by (rule index_of_char_append)
  have h: "hd (n' @ 58 # v) \<noteq> 9" "hd (n' @ 58 # v) \<noteq> 32" using assms(3-5) by auto
  show ?thesis using assms h add_header_fresh [of n out v]
    by (simp add: i value_ok_def del: index_of_char.simps)
qed

definition request_lines :: "jsstr \<Rightarrow> jsstr \<Rightarrow> jsstr \<Rightarrow> header \<Rightarrow> nat \<Rightarrow> jsstr list" where
  "request_lines m u hst h n =
     [request_text m u, js ''Host'' @ 58 # hst] @ map (pair_line [58]) h @ [js ''Content-length'' @ 58 # dec n]"

definition host_pair :: "jsstr \<Rightarrow> jsstr \<times> hval" where
  "host_pair hst = (js ''host'', One hst)"

lemma http_names:
  "to_lower (js ''Host'') = js ''host''" "to_lower (js ''Content-length'') = js ''content-length''"
  "58 \<notin> set (js ''Host'')" "58 \<notin> set (js ''Content-length'')" "13 \<notin> set (js ''Host'')" "13 \<notin> set (js ''Content-length'')"
  "js ''Host'' \<noteq> []" "js ''Content-length'' \<noteq> []" "hd (js ''Host'') \<noteq> 9" "hd (js ''Host'') \<noteq> 32"
  "hd (js ''Content-length'') \<noteq> 9" "hd (js ''Content-length'') \<noteq> 32" "name_ok (js ''host'')"
  "js ''host'' \<noteq> js ''content-length''" "js ''content-length'' \<noteq> js ''host''"
  "js ''host'' \<noteq> js ''transfer-encoding''" "js ''transfer-encoding'' \<noteq> js ''host''"
  by code_simp+


lemma parse_pairs_then:
  "list_all pair_ok h \<Longrightarrow> distinct (map fst (out @ h)) \<Longrightarrow> list_all is_space sp \<Longrightarrow>
   \<exists>nm'. http_parse_header (map (pair_line (58 # sp)) h @ ls) nm out = http_parse_header ls nm' (out @ h)"
proof (induction h arbitrary: out nm)
  case (Cons p h)
  then show ?case
    using parse_pair [of p sp out "map (pair_line (58 # sp)) h @ ls" nm] Cons.IH [of "out @ [p]"] by auto
qed auto

lemma parse_request_lines:
  assumes "value_ok hst" "head_ok h" "free_of [''host'', ''content-length'', ''transfer-encoding''] h"
  shows "http_parse_header (tl (request_lines m u hst h n)) None [] =
         (host_pair hst # h @ [length_pair n], True)"
proof -
  let ?l = "[js ''Content-length'' @ 58 # dec n]"
  have o: "list_all pair_ok h" "distinct (map fst ([host_pair hst] @ h))"
    using assms by (simp_all add: head_ok_def free_of_def host_pair_def)
  obtain nm where 1: "http_parse_header (map (pair_line [58]) h @ ?l) (Some (js ''host'')) [host_pair hst] =
      http_parse_header ?l nm ([host_pair hst] @ h)"
    using parse_pairs_then [OF o, of "[]" ?l "Some (js ''host'')"] by auto
  have 2: "http_parse_header ((js ''Host'' @ 58 # hst) # map (pair_line [58]) h @ ?l) None [] =
      http_parse_header (map (pair_line [58]) h @ ?l) (Some (js ''host'')) [host_pair hst]"
  proof -
    let ?t = "map (pair_line [58]) h @ ?l"
    have "http_parse_header ((js ''Host'' @ 58 # hst) # ?t) None [] =
        http_parse_header ?t (Some (js ''host'')) ([] @ [(js ''host'', One hst)])"
      by (intro parse_named_line http_names assms(1)) simp
    then show ?thesis by (simp add: host_pair_def)
  qed
  have 3: "http_parse_header ?l nm ([host_pair hst] @ h) = (([host_pair hst] @ h) @ [length_pair n], True)"
    unfolding length_pair_def using assms(3) names_ok(1) value_ok_dec [of n]
    by (subst parse_named_line [where n = "js ''content-length''"])
      (simp_all add: http_names host_pair_def free_of_def)
  show ?thesis using 1 2 3 by (simp add: request_lines_def del: http_parse_header.simps(2))
qed

lemma build_request_block:
  assumes "list_all pair_ok h" "free_of [''host'', ''content-length'', ''transfer-encoding''] h"
  shows "build_request m hst u (Some h) c =
         line_block (request_lines m u hst h (length (content_bytes c))) @ crlf"
proof -
  have "to_lower (fst p) \<noteq> js ''host''" if "p \<in> set h" for p
  proof -
    have "pair_ok p" using that assms(1) by (simp add: list_all_iff)
    then have "to_lower (fst p) = fst p" by (cases p rule: pair_ok.cases) (simp_all add: name_ok_def)
    moreover have "js ''host'' \<notin> fst ` set h" using assms(2) by (simp add: free_of_def)
    then have "fst p \<noteq> js ''host''" using imageI [OF that, of fst] by metis
    ultimately show ?thesis by simp
  qed
  then have "\<not> list_ex (\<lambda>p. to_lower (fst p) = js ''host'') h" by (auto simp: list_ex_iff)
  moreover have "map_of h (js ''transfer-encoding'') = None"
    using assms(2) by (simp add: free_of_def map_of_eq_None_iff)
  moreover have "js ''Host:'' = js ''Host'' @ [58]" "js ''Content-length:0'' = js ''Content-length'' @ 58 # dec 0"
    "js ''Content-length:'' = js ''Content-length'' @ [58]" by code_simp+
  moreover have "\<not> has_content c \<Longrightarrow> content_bytes c = []" by (cases c) (auto simp: has_content_def)
  ultimately show ?thesis
    by (auto simp: build_request_def Let_def head_lines_block assms(1) request_lines_def request_text_def line_block_append)
qed

lemma request_lines_ok:
  assumes "method_ok m" "target_ok u" "value_ok hst" "list_all pair_ok h"
  shows "list_all header_line_ok (request_lines m u hst h n)"
proof -
  have "list_all header_line_ok (map (pair_line [58]) h)"
    using assms(4) by (auto simp: list_all_iff intro!: pair_line_ok)
  moreover have "header_line_ok (js ''Host'' @ 58 # hst)" "header_line_ok (js ''Content-length'' @ 58 # dec n)"
    using assms(3) dec_no [OF dec_digits(1), of 13 n] http_names
    by (simp_all add: header_line_ok_def value_ok_def)
  ultimately show ?thesis using request_text_ok [OF assms(1,2)] by (simp add: request_lines_def)
qed

lemma read_build_request:
  assumes "method_ok m" "target_ok u" "value_ok hst" "head_ok h"
    "free_of [''host'', ''content-length'', ''transfer-encoding''] h"
    "length (build_request m hst u (Some h) c) \<le> header_limit"
    "limit = 0 \<or> length (content_bytes c) \<le> limit"
  shows "read_request limit (encode_utf8 (build_request m hst u (Some h) c) @ content_bytes c @ rest) =
         (Request u m (host_pair hst # h @ [length_pair (length (content_bytes c))]) (decode_utf8 (content_bytes c)), rest)"
proof -
  let ?n = "length (content_bytes c)" let ?ls = "request_lines m u hst h ?n"
  have b: "build_request m hst u (Some h) c = line_block ?ls @ crlf @ []"
    using build_request_block [of h m hst u c] assms(4,5) by (simp add: head_ok_def)
  have "list_all header_line_ok ?ls"
    using assms(1-4) by (intro request_lines_ok) (simp_all add: head_ok_def)
  then have r: "http_recv_header (encode_utf8 (line_block ?ls @ crlf @ []) @ content_bytes c @ rest) 0 [] =
      Got (?ls, True) (content_bytes c @ rest)"
    using assms(6) http_recv_header_block [of ?ls 0 "[]" "content_bytes c @ rest" "[]"]
    by (simp add: b length_line_block crlf_def)
  have hd: "hd ?ls = request_text m u" "?ls \<noteq> []" by (simp_all add: request_lines_def)
  have "\<not> bad_version [49] [49]" "limit = 0 \<or> \<not> limit < ?n" using assms(7) by (code_simp, auto)
  then show ?thesis
    using assms(5) parse_request_lines [OF assms(3,4,5), of m u ?n] r hd
    by (simp add: b read_request_def match_request_text [OF assms(1,2)] read_body_def hget_def
        content_length_def map_of_new free_of_def host_pair_def length_pair_def http_names names_distinct
        parse_int_dec read_exact_append del: map_of_append append_assoc)
qed

text \<open>A request survives the wire: what the client's \<open>request\<close> sends, with any content, is read
  back by the server's \<open>readRequest\<close> with the same method, target, headers and body, and the bytes
  after it are left alone. The target has no white space, the headers have lower-case names
  without a colon and none that the client writes itself, the head and the content keep to the
  limits of the reader.\<close>

theorem request_round_trip:
  assumes "method_ok m" "target_ok u" "value_ok hst" "head_ok h"
    "free_of [''host'', ''content-length'', ''transfer-encoding''] h"
    "length (build_request m hst u (Some h) c) \<le> header_limit"
    "limit = 0 \<or> length (content_bytes c) \<le> limit"
  shows "read_request limit (encode_utf8 (build_request m hst u (Some h) c) @ content_bytes c @ rest) =
         (Request u m (host_pair hst # h @ [length_pair (length (content_bytes c))]) (decode_utf8 (content_bytes c)), rest)"
  using assms by (rule read_build_request)

lemma response_round_trip_witness:
  "read_response (js ''GET'') 0 []
     (response_bytes 200 (Generated [js ''ab'', [], js ''c'']) [(js ''x-a'', One (js ''1''))] @ [65]) =
   Inr ((200, [(js ''x-a'', One (js ''1''))] @ [body_pair (Generated [js ''ab'', [], js ''c''])],
     body_text (Generated [js ''ab'', [], js ''c''])), [65])"
proof -
  have "response_ok 200 (Generated [js ''ab'', [], js ''c'']) [(js ''x-a'', One (js ''1''))]" "js ''GET'' \<noteq> js ''HEAD''"
    by code_simp+
  then show ?thesis by (rule response_round_trip)
qed

lemma request_round_trip_witness:
  "read_request 10 (encode_utf8 (build_request (js ''POST'') (js ''h:80'') (js ''/p'') (Some []) (TextContent (js ''hi''))) @
      content_bytes (TextContent (js ''hi'')) @ [65]) =
   (Request (js ''/p'') (js ''POST'') (host_pair (js ''h:80'') # [] @ [length_pair (length (content_bytes (TextContent (js ''hi''))))])
      (decode_utf8 (content_bytes (TextContent (js ''hi'')))), [65])"
proof -
  have "method_ok (js ''POST'')" "target_ok (js ''/p'')" "value_ok (js ''h:80'')" "head_ok []"
    "free_of [''host'', ''content-length'', ''transfer-encoding''] []"
    "length (build_request (js ''POST'') (js ''h:80'') (js ''/p'') (Some []) (TextContent (js ''hi''))) \<le> header_limit"
    "10 = (0 :: nat) \<or> length (content_bytes (TextContent (js ''hi''))) \<le> 10"
    by code_simp+
  then show ?thesis by (rule request_round_trip)
qed

lemma chunked_bypasses_limit:
  "recv_chunked_body L [] (encode_utf8 (js ''-2'') @ 13 # 10 # 13 # 10 # encode_utf8 (chunk_text [js ''ab''])) =
   Got (js ''ab'', [], True) []"
proof -
  have h: "to_radix 16 2 = js ''2''" "js ''ab'' \<noteq> []" by code_simp+
  have e: "length (encode_utf8 (js ''ab'')) = 2" by (simp add: js_def encode_ascii_Cons encode_cp_ascii del: encode_utf8.simps(3))
  have t: "encode_utf8 (chunk_text [js ''ab'']) =
      encode_utf8 (js ''2'') @ 13 # 10 # encode_utf8 (js ''ab'') @ 13 # 10 # encode_utf8 (js ''0'') @ 13 # 10 # 13 # 10 # []"
    using encode_crlf [of "js ''2''" "js ''ab'' @ crlf @ js ''0'' @ crlf @ crlf"] encode_crlf [of "js ''ab''" "js ''0'' @ crlf @ crlf"]
      encode_crlf [of "js ''0''" crlf] encode_crlf [of "[]" "[]"] by (simp add: h e)
  have n: "13 \<notin> set (js ''-2'')" "13 \<notin> set (js ''2'')" "13 \<notin> set (js ''0'')" by code_simp+
  have c: "chunk_size (js ''-2'') = Some (-2)" "chunk_size (js ''2'') = Some 2" "chunk_size (js ''0'') = Some 0"
    by code_simp+
  have r: "read_exact 2 (encode_utf8 (js ''ab'') @ x) = Some (encode_utf8 (js ''ab''), x)" for x
    using read_exact_append [of "encode_utf8 (js ''ab'')" x] by (simp add: e)
  have r2: "read_exact 2 (13 # 10 # x) = Some ([13, 10], x)" for x by (simp add: read_exact_def numeral_2_eq_2)
  have r3: "read_exact (-2) x = Some ([], x)" for x by (simp add: read_exact_def)
  have "chunk_loop L (encode_utf8 (js ''0'') @ 13 # 10 # 13 # 10 # []) [[], js ''ab''] 0 = Got [[], js ''ab''] (13 # 10 # [])"
    by (subst chunk_loop.simps) (simp add: next_line_encode n c)
  then have "chunk_loop L (encode_utf8 (chunk_text [js ''ab''])) [[]] (-2) = Got [[], js ''ab''] (13 # 10 # [])"
    unfolding t by (subst chunk_loop.simps) (simp add: next_line_encode n c r r2 decode_encode_utf8_all)
  then have "chunk_loop L (encode_utf8 (js ''-2'') @ 13 # 10 # 13 # 10 # encode_utf8 (chunk_text [js ''ab''])) [] 0 =
      Got [[], js ''ab''] (13 # 10 # [])"
    by (subst chunk_loop.simps) (simp add: next_line_encode n c r2 r3 del: chunk_text.simps)
  then show ?thesis by (simp add: recv_chunked_body_def recv_header_empty)
qed

lemma or_bound: "a < 16 \<Longrightarrow> push_bit 12 a OR push_bit 6 (low6 b1) OR low6 b2 \<le> 65535"
  using join12 [of "low6 b1" "low6 b2" a] low6_less [of b1] low6_less [of b2] by simp

lemma or_bound2: "a < 32 \<Longrightarrow> push_bit 6 a OR low6 b1 \<le> 65535"
  using join6 [of "low6 b1" a] low6_less [of b1] by simp

lemma length_from_cp: "length (from_cp cp) \<le> 2" "cp \<le> 65535 \<Longrightarrow> length (from_cp cp) = 1"
  by (simp_all add: from_cp_def)

lemma decode_step_units: "decode_step b0 bs = (cp, r) \<Longrightarrow> length (from_cp cp) + length r \<le> Suc (length bs)"
  using length_from_cp(1) [of cp] or_bound [of "unat b0 mod 16"] or_bound2 [of "unat b0 mod 32"]
  by (auto simp: decode_step_def Let_def length_from_cp(2) split: if_splits list.splits)

lemma length_decode_utf8: "length (decode_utf8 bs) \<le> length bs"
proof (induction bs rule: decode_utf8.induct)
  case (2 b bs)
  then show ?case using decode_step_units [of b bs] by (auto split: prod.splits)
qed simp

lemma keys_obj_insert: "k' \<in> fst ` set (obj_insert k v ps) \<longleftrightarrow> k' = k \<or> k' \<in> fst ` set ps"
  by (induction k v ps rule: obj_insert.induct) auto

lemma keys_obj_put: "k' \<in> fst ` set ps \<Longrightarrow> k' \<in> fst ` set (obj_put k v ps)"
proof -
  have "map fst (map (\<lambda>p. if fst p = k then (k, v) else p) ps) = map fst ps" by simp
  then have "fst ` set (map (\<lambda>p. if fst p = k then (k, v) else p) ps) = fst ` set ps"
    unfolding set_map [symmetric] by (rule arg_cong)
  then show "k' \<in> fst ` set ps \<Longrightarrow> k' \<in> fst ` set (obj_put k v ps)"
    by (simp add: obj_put_def keys_obj_insert)
qed

lemma keys_header: "k \<in> fst ` set out \<Longrightarrow> k \<in> fst ` set (fold_header n t out)"
  "k \<in> fst ` set out \<Longrightarrow> k \<in> fst ` set (add_header n t out)"
  by (simp_all add: fold_header_def add_header_def keys_obj_put split: option.split hval.split)

lemma keys_parse_header: "k \<in> fst ` set out \<Longrightarrow> k \<in> fst ` set (fst (http_parse_header ls nm out))"
proof (induction ls nm out rule: http_parse_header.induct)
  case (2 line lines name out)
  then show ?case by (simp add: Let_def keys_header split: option.split)
qed simp

lemma keys_recv_chunked:
  "recv_chunked_body limit h s = Got (b, h', ok) r \<Longrightarrow> k \<in> fst ` set h \<Longrightarrow> k \<in> fst ` set h'"
  using keys_parse_header [of k h _ None]
  by (simp add: recv_chunked_body_def split: reading.splits prod.splits if_splits) (metis fst_conv)

lemma read_body_limit:
  assumes "read_body limit u' m' h' s = (Request u m h b, r)" "0 < limit" "js ''transfer-encoding'' \<notin> fst ` set h"
  shows "length b \<le> limit"
proof (cases "hget h' ''transfer-encoding'' = Some (One (js ''chunked''))")
  case True
  then have "map_of h' (js ''transfer-encoding'') \<noteq> None" by (auto simp: hget_def split: option.splits)
  then have "js ''transfer-encoding'' \<in> fst ` set h'" by (simp add: map_of_eq_None_iff)
  then have "js ''transfer-encoding'' \<in> fst ` set h"
    using True assms(1)
    by (simp add: read_body_def keys_recv_chunked split: reading.splits prod.splits)
  then show ?thesis using assms(3) by simp
next
  case False
  then show ?thesis using assms(1,2)
    by (auto simp: read_body_def read_exact_def split: option.splits if_splits
      intro!: order_trans [OF length_decode_utf8])
qed

text \<open>The body limit: a request without transfer encoding is accepted only when its body has no
  more characters than the limit, however long the peer says it is.\<close>

theorem plain_body_limit:
  assumes "read_request limit s = (Request u m h b, r)" "0 < limit" "js ''transfer-encoding'' \<notin> fst ` set h"
  shows "length b \<le> limit"
  using assms(1)
  by (auto simp: read_request_def split: reading.splits option.splits prod.splits if_splits bool.splits
    intro: read_body_limit [OF _ assms(2,3)])

lemma plain_body_limit_witness: "length (js ''hi'') \<le> 10"
proof -
  let ?c = "TextContent (js ''hi'')"
  have "method_ok (js ''POST'')" "target_ok (js ''/p'')" "value_ok (js ''h'')" "head_ok []"
    "free_of [''host'', ''content-length'', ''transfer-encoding''] []"
    "length (build_request (js ''POST'') (js ''h'') (js ''/p'') (Some []) ?c) \<le> header_limit"
    "10 = (0 :: nat) \<or> length (content_bytes ?c) \<le> 10"
    by code_simp+
  then have "read_request 10 (encode_utf8 (build_request (js ''POST'') (js ''h'') (js ''/p'') (Some []) ?c) @ content_bytes ?c @ []) =
    (Request (js ''/p'') (js ''POST'') (host_pair (js ''h'') # [] @ [length_pair (length (content_bytes ?c))]) (decode_utf8 (content_bytes ?c)), [])"
    by (rule read_build_request)
  then have "length (decode_utf8 (content_bytes ?c)) \<le> 10"
    by (rule plain_body_limit) (simp_all add: host_pair_def length_pair_def http_names names_distinct)
  then show ?thesis by (simp add: decode_encode_utf8_all)
qed

end
