(* ===== verification/Http_Keepalive.thy ===== *)
theory Http_Keepalive
  imports Http_Client Http_Messages
begin

text \<open>
  The client against the server of \<open>js/internal/http-core.js\<close>: two requests over one pooled
  connection, and the sockets of streamed responses.
\<close>

section \<open>Keep-alive\<close>

lemma keepalive_default: "free_of [''keep-alive''] h \<Longrightarrow> keepalive_sec (h @ [body_pair b]) = default_keepalive_sec"
proof -
  have "js ''keep-alive'' \<noteq> js ''content-length''" "js ''keep-alive'' \<noteq> js ''transfer-encoding''" by code_simp+
  then show "free_of [''keep-alive''] h \<Longrightarrow> keepalive_sec (h @ [body_pair b]) = default_keepalive_sec"
    by (cases b) (simp_all add: keepalive_sec_def free_of_def map_of_new length_pair_def chunked_pair_def del: map_of_append)
qed

lemma not_says_close: "free_of [''connection''] h \<Longrightarrow> \<not> says_close (h @ [body_pair b])"
proof -
  have "js ''connection'' \<noteq> js ''content-length''" "js ''connection'' \<noteq> js ''transfer-encoding''" by code_simp+
  then show "free_of [''connection''] h \<Longrightarrow> \<not> says_close (h @ [body_pair b])"
    by (cases b) (simp_all add: says_close_def free_of_def map_of_new length_pair_def chunked_pair_def del: map_of_append)
qed

lemma can_pool_written: "response_ok code b h \<Longrightarrow> can_pool m code (h @ [body_pair b])"
  using names_distinct
  by (cases b) (simp_all add: can_pool_def response_ok_def free_of_def map_of_new length_pair_def chunked_pair_def del: map_of_append)

lemma request_on_written:
  assumes "response_ok code b h" "m \<noteq> js ''HEAD''" "incoming st i = response_bytes code b h @ rest"
    "free_of [''connection'', ''keep-alive''] h"
  shows "request_on e m p u q c i st =
    (Inr (code, h @ [body_pair b], body_text b),
     pool_put (time_put e) (pool_key_str p) i (h @ [body_pair b])
       ((send_request m (hostHeader p) u q c i st)\<lparr>incoming := (incoming st)(i := rest)\<rparr>))"
  using read_response_written [OF assms(1,2), of "buffered e" rest] can_pool_written [OF assms(1), of m] assms(3)
  by (simp add: request_on_def Let_def)

text \<open>C26. Keep-alive: two requests to a host that answers both over one connection, the second before
  the first answer's connection expires, get each the answer that the server wrote for it, over the
  one socket that was opened.\<close>

theorem keep_alive:
  assumes "client_parse_url hst = Some p" "protocol p = js ''http''" "connects e1 0 = Some i"
    "response_ok c1 b1 h1" "response_ok c2 b2 h2"
    "free_of [''connection'', ''keep-alive''] h1" "free_of [''connection'', ''keep-alive''] h2"
    "m1 \<noteq> js ''HEAD''" "m2 \<noteq> js ''HEAD''"
    "inc i = response_bytes c1 b1 h1 @ response_bytes c2 b2 h2 @ rest"
    "\<not> gone e2 i" "time_get e2 < time_put e1 + 6000"
    "http_request e1 m1 hst u1 q1 x1 (new_client inc) = (r1, st1)"
    "http_request e2 m2 hst u2 q2 x2 st1 = (r2, st2)"
  shows "r1 = Inr (c1, h1 @ [body_pair b1], body_text b1) \<and> r2 = Inr (c2, h2 @ [body_pair b2], body_text b2) \<and>
    opened st2 = [i] \<and> closes st2 = []"
proof -
  have http: "js ''http'' \<noteq> js ''https''" by code_simp
  have f: "free_of [''connection''] h1" "free_of [''keep-alive''] h1" "free_of [''connection''] h2" "free_of [''keep-alive''] h2"
    using assms(6,7) by (simp_all add: free_of_def)
  let ?c = "\<lparr>fd = i, expireTime = time_put e1 + 6000\<rparr>"
  let ?st = "(new_client inc)\<lparr>opened := [i]\<rparr>"
  have "request_on e1 m1 p u1 q1 x1 i ?st = (Inr (c1, h1 @ [body_pair b1], body_text b1),
     pool_put (time_put e1) (pool_key_str p) i (h1 @ [body_pair b1])
       ((send_request m1 (hostHeader p) u1 q1 x1 i ?st)\<lparr>incoming := inc(i := response_bytes c2 b2 h2 @ rest)\<rparr>))"
    using request_on_written [OF assms(4,8) _ assms(6), of ?st i "response_bytes c2 b2 h2 @ rest" e1 p u1 q1 x1] assms(10)
    by (simp add: new_client_def)
  then have 1: "r1 = Inr (c1, h1 @ [body_pair b1], body_text b1)" "connPool st1 = [(pool_key_str p, [?c])]"
    "incoming st1 = inc(i := response_bytes c2 b2 h2 @ rest)" "opened st1 = [i]" "closes st1 = []"
    using assms(13) f
    by (auto simp: http_request_def assms(1,2,3) pool_get_def new_client_def fresh_request_def open_connection_def http
      pool_put_def not_says_close keepalive_default default_keepalive_sec_def close_fds_def send_request_def)
  have g: "pool_get (gone e2) (time_get e2) (pool_key_str p) st1 =
      (Some ?c, close_fds [] (st1\<lparr>connPool := [(pool_key_str p, [])]\<rparr>))"
    using assms(11,12) by (simp add: pool_get_def 1)
  have "request_on e2 m2 p u2 q2 x2 i (close_fds [] (st1\<lparr>connPool := [(pool_key_str p, [])]\<rparr>)) =
    (Inr (c2, h2 @ [body_pair b2], body_text b2),
     pool_put (time_put e2) (pool_key_str p) i (h2 @ [body_pair b2])
       ((send_request m2 (hostHeader p) u2 q2 x2 i (close_fds [] (st1\<lparr>connPool := [(pool_key_str p, [])]\<rparr>)))
          \<lparr>incoming := (incoming st1)(i := rest)\<rparr>))"
    using request_on_written [OF assms(5,9) _ assms(7), of "close_fds [] (st1\<lparr>connPool := [(pool_key_str p, [])]\<rparr>)" i rest e2 p u2 q2 x2]
    by (simp add: 1 close_fds_def)
  then have "r2 = Inr (c2, h2 @ [body_pair b2], body_text b2)" "opened st2 = [i]" "closes st2 = []"
    using assms(14) g f
    by (auto simp: http_request_def assms(1) pool_put_def not_says_close close_fds_def send_request_def 1)
  then show ?thesis using 1(1) by simp
qed

definition written_twice :: bytes where
  "written_twice = response_bytes 200 (Whole (js ''a'')) [] @ response_bytes 404 (Generated [js ''b'']) [] @ []"

lemma quiet_parse:
  "client_parse_url (js ''h'') = Some \<lparr>protocol = js ''http'', host = js ''h'', port = Port 80, path = [47], hostHeader = js ''h''\<rparr>"
  by code_simp

lemma responses_ok: "response_ok 200 (Whole (js ''a'')) []" "response_ok 404 (Generated [js ''b'']) []"
  "free_of [''connection'', ''keep-alive''] []" "js ''GET'' \<noteq> js ''HEAD''"
  by code_simp+

lemma keep_alive_witness:
  "(let (r1, st1) = http_request quiet_network (js ''GET'') (js ''h'') [47] None NoContent (new_client (\<lambda>_. written_twice));
        (r2, st2) = http_request quiet_network (js ''GET'') (js ''h'') [47] None NoContent st1
    in r1 = Inr (200, [] @ [body_pair (Whole (js ''a''))], body_text (Whole (js ''a''))) \<and>
       r2 = Inr (404, [] @ [body_pair (Generated [js ''b''])], body_text (Generated [js ''b''])) \<and>
       opened st2 = [0] \<and> closes st2 = [])"
proof -
  obtain r1 st1 where 1: "http_request quiet_network (js ''GET'') (js ''h'') [47] None NoContent (new_client (\<lambda>_. written_twice)) = (r1, st1)"
    by fastforce
  obtain r2 st2 where 2: "http_request quiet_network (js ''GET'') (js ''h'') [47] None NoContent st1 = (r2, st2)"
    by fastforce
  have "r1 = Inr (200, [] @ [body_pair (Whole (js ''a''))], body_text (Whole (js ''a''))) \<and>
       r2 = Inr (404, [] @ [body_pair (Generated [js ''b''])], body_text (Generated [js ''b''])) \<and>
       opened st2 = [0] \<and> closes st2 = []"
    by (rule keep_alive [OF quiet_parse _ _ responses_ok(1,2,3,3,4,4) _ _ _ 1 2, of 0 "[]"])
       (simp_all add: quiet_network_def written_twice_def)
  then show ?thesis by (simp only: 1 2 Let_def prod.case)
qed

text \<open>A streamed response holds its socket until it is done with it and no longer: after any
  sequence of reads and closes, whatever the peer sends, every socket opened is in the pool, closed,
  or held by the stream that is not finished, exactly once.\<close>

theorem stream_accounted:
  assumes "request_stream e m hst u h c st = (Inr s, st')" "tls_works e" "client_inv st"
  shows "stream_inv (foldl stream_step (s, st') ops)"
  by (rule streams.run_inv) (rule request_stream_inv [OF assms])

lemma stream_accounted_witness:
  "stream_inv (foldl stream_step
     (case request_stream quiet_network (js ''GET'') (js ''h'') [47] None NoContent (new_client (\<lambda>_. written_twice)) of
        (Inr s, st') \<Rightarrow> (s, st')) [Read (\<lambda>_. False) 0, CloseStream])"
proof -
  have "\<exists>s st'. request_stream quiet_network (js ''GET'') (js ''h'') [47] None NoContent (new_client (\<lambda>_. written_twice)) = (Inr s, st')"
    using read_head_written [OF responses_ok(1), of "response_bytes 404 (Generated [js ''b'']) []"]
    by (simp add: request_stream_def quiet_parse open_connection_def quiet_network_def new_client_def written_twice_def Let_def)
  then obtain s st' where r:
    "request_stream quiet_network (js ''GET'') (js ''h'') [47] None NoContent (new_client (\<lambda>_. written_twice)) = (Inr s, st')" by blast
  have "stream_inv (foldl stream_step (s, st') [Read (\<lambda>_. False) 0, CloseStream])"
    by (rule stream_accounted [OF r])
       (simp_all add: tls_works_def quiet_network_def client_inv_def accounted_def owned_def pool_ok_def new_client_def)
  then show ?thesis by (simp add: r)
qed

end
