(* ===== verification/Http_Flights.thy ===== *)
theory Http_Flights
  imports Http_Client
begin

text \<open>
  The calls of the client of \<open>js/internal/http-core.js\<close> while they overlap. \<open>request\<close>, \<open>head\<close> and
  \<open>requestStream\<close> are \<open>async\<close>: between two of their \<open>await\<close>s any other call, the clean-up timer and
  \<open>closeAllKeepalive\<close> may run. Here each call is a small state machine whose steps are the parts
  between two \<open>await\<close>s: the search of the pool, the answer of \<open>connectAsync\<close>, the end of the TLS
  upgrade, the response or the failure of the connection, and for a stream the start and the end
  of each \<open>read\<close>. The steps of all the calls come in any order.

  The pieces of one response are read in one step: a call that waits for a response owns its
  reader, and no other step touches it.
\<close>

section \<open>Calls in flight\<close>

datatype call_kind = Full | OnlyHead | Streamed

datatype call_phase =
    Connecting
  | Upgrading nat
  | Waiting nat
  | Rejected request_error
  | Answered nat header jsstr
  | Streaming http_stream bool

text \<open>The arguments of a call that its later steps use, \<open>fromPool\<close>, and where the call is. A stream
  that is open carries whether a \<open>read\<close> is pending.\<close>

record http_call =
  kind_of :: call_kind
  method_of :: jsstr
  target_of :: client_url
  url_of :: jsstr
  header_of :: "header option"
  content_of :: content
  fromPool :: bool
  phase_of :: call_phase

text \<open>\<open>lost\<close> is a ghost: the sockets whose TLS upgrade failed, which \<open>openConnection\<close> drops without
  closing them.\<close>

record flights =
  net :: client
  calls :: "http_call list"
  lost :: "nat list"

definition no_flights :: "(nat \<Rightarrow> bytes) \<Rightarrow> flights" where
  "no_flights inc = \<lparr>net = new_client inc, calls = [], lost = []\<rparr>"

section \<open>The steps\<close>

definition set_phase :: "nat \<Rightarrow> call_phase \<Rightarrow> flights \<Rightarrow> flights" where
  "set_phase k f s = s\<lparr>calls := (calls s)[k := (calls s ! k)\<lparr>phase_of := f\<rparr>]\<rparr>"

definition call_method :: "call_kind \<Rightarrow> jsstr \<Rightarrow> jsstr" where
  "call_method kd m = (if kd = OnlyHead then js ''HEAD'' else m)"

definition call_content :: "call_kind \<Rightarrow> content \<Rightarrow> content" where
  "call_content kd c = (if kd = OnlyHead then NoContent else c)"

text \<open>The synchronous start of \<open>doRequestOn\<close>: the request is written, the call waits.\<close>

definition send_call :: "nat \<Rightarrow> nat \<Rightarrow> flights \<Rightarrow> flights" where
  "send_call k i s =
     (let c = calls s ! k
      in set_phase k (Waiting i)
           (s\<lparr>net := send_request (method_of c) (hostHeader (target_of c)) (url_of c) (header_of c) (content_of c) i (net s)\<rparr>))"

text \<open>The start of a call, up to its first \<open>await\<close>. Only \<open>requestStream\<close> does not ask the pool.\<close>

definition call_started :: "call_kind \<Rightarrow> jsstr \<Rightarrow> jsstr \<Rightarrow> jsstr \<Rightarrow> header option \<Rightarrow> content \<Rightarrow> (nat \<Rightarrow> bool) \<Rightarrow> nat \<Rightarrow>
    flights \<Rightarrow> flights" where
  "call_started kd m hst u h x dead now s =
     (case client_parse_url hst of
        None \<Rightarrow> s\<lparr>calls := calls s @ [\<lparr>kind_of = kd, method_of = call_method kd m,
                   target_of = \<lparr>protocol = [], host = [], port = InheritedFunction, path = [], hostHeader = []\<rparr>,
                   url_of = u, header_of = h, content_of = call_content kd x, fromPool = False,
                   phase_of = Rejected BadUrl\<rparr>]\<rparr>
      | Some p \<Rightarrow>
          let c = \<lparr>kind_of = kd, method_of = call_method kd m, target_of = p, url_of = u, header_of = h,
                   content_of = call_content kd x, fromPool = False, phase_of = Connecting\<rparr>;
              k = length (calls s)
          in if kd = Streamed then s\<lparr>calls := calls s @ [c]\<rparr>
             else (case pool_get dead now (pool_key_str p) (net s) of
                     (None, st) \<Rightarrow> s\<lparr>net := st, calls := calls s @ [c]\<rparr>
                   | (Some cn, st) \<Rightarrow> send_call k (fd cn) (s\<lparr>net := st, calls := calls s @ [c\<lparr>fromPool := True\<rparr>]\<rparr>)))"

text \<open>\<open>openConnection\<close> after its first \<open>await\<close>, and after its second one. A rejection of either is
  not inside the \<open>try\<close> of the callers: it goes to the user as it is.\<close>

definition connection_made :: "nat \<Rightarrow> nat option \<Rightarrow> bool \<Rightarrow> flights \<Rightarrow> flights" where
  "connection_made k fo hasTls s =
     (case fo of
        None \<Rightarrow> set_phase k (Rejected ConnectFailed) s
      | Some i \<Rightarrow>
          let s' = s\<lparr>net := (net s)\<lparr>opened := opened (net s) @ [i]\<rparr>\<rparr>
          in if protocol (target_of (calls s ! k)) \<noteq> js ''https'' then send_call k i s'
             else if \<not> hasTls then set_phase k (Rejected TlsError) (s'\<lparr>net := close_fd i (net s')\<rparr>)
             else set_phase k (Upgrading i) s')"

definition upgrade_ended :: "nat \<Rightarrow> nat \<Rightarrow> bool \<Rightarrow> flights \<Rightarrow> flights" where
  "upgrade_ended k i ok s =
     (if ok then send_call k i s
      else (set_phase k (Rejected TlsError) s)\<lparr>lost := lost s @ [i]\<rparr>)"

text \<open>The \<open>catch\<close> clauses: the socket is closed; \<open>request\<close> and \<open>head\<close> connect again when it was the
  one of the pool.\<close>

definition call_failed :: "nat \<Rightarrow> nat \<Rightarrow> response_error \<Rightarrow> flights \<Rightarrow> flights" where
  "call_failed k i err s =
     (let s' = s\<lparr>net := close_fd i (net s)\<rparr>
      in if fromPool (calls s ! k)
         then s'\<lparr>calls := (calls s')[k := (calls s' ! k)\<lparr>fromPool := False, phase_of := Connecting\<rparr>]\<rparr>
         else set_phase k (Rejected (Response err)) s')"

text \<open>The end of \<open>request\<close>, of \<open>head\<close> and of \<open>requestStream\<close> when the response is there.\<close>

definition full_answered :: "nat \<Rightarrow> nat \<Rightarrow> nat \<Rightarrow> nat \<Rightarrow> flights \<Rightarrow> flights" where
  "full_answered k i b now s =
     (let c = calls s ! k
      in case read_response (method_of c) b [] (incoming (net s) i) of
           Inl err \<Rightarrow> call_failed k i err s
         | Inr ((status, hdr, txt), r) \<Rightarrow>
             let st = (net s)\<lparr>incoming := (incoming (net s))(i := r)\<rparr>
             in set_phase k (Answered status hdr txt)
                  (s\<lparr>net := (if can_pool (method_of c) status hdr then pool_put now (pool_key_str (target_of c)) i hdr st
                             else close_fd i st)\<rparr>))"

definition head_answered :: "nat \<Rightarrow> nat \<Rightarrow> nat \<Rightarrow> flights \<Rightarrow> flights" where
  "head_answered k i now s =
     (case read_head [] (incoming (net s) i) of
        Inl err \<Rightarrow> call_failed k i err s
      | Inr ((status, hdr), r) \<Rightarrow>
          set_phase k (Answered status hdr [])
            (s\<lparr>net := pool_put now (pool_key_str (target_of (calls s ! k))) i hdr
                        ((net s)\<lparr>incoming := (incoming (net s))(i := r)\<rparr>)\<rparr>))"

definition opened_stream :: "nat \<Rightarrow> jsstr \<Rightarrow> nat \<Rightarrow> header \<Rightarrow> http_stream" where
  "opened_stream i key status hdr =
     \<lparr>s_fd = i, s_key = key, s_status = status, s_header = hdr,
      s_chunked = (map_of hdr (js ''transfer-encoding'') = Some (One (js ''chunked''))),
      s_left = (case map_of hdr (js ''content-length'') of
         None \<Rightarrow> ReadAll
       | Some v \<Rightarrow> (case parse_int 10 (hval_str v) of None \<Rightarrow> NotANumber | Some n \<Rightarrow> Remaining n)),
      s_closed = False\<rparr>"

definition stream_answered :: "nat \<Rightarrow> nat \<Rightarrow> flights \<Rightarrow> flights" where
  "stream_answered k i s =
     (case read_head [] (incoming (net s) i) of
        Inl err \<Rightarrow> call_failed k i err s
      | Inr ((status, hdr), r) \<Rightarrow>
          set_phase k (Streaming (opened_stream i (pool_key_str (target_of (calls s ! k))) status hdr) False)
            (s\<lparr>net := (net s)\<lparr>incoming := (incoming (net s))(i := r)\<rparr>\<rparr>))"

text \<open>\<open>read()\<close> of a stream up to its first \<open>await\<close>, which only the reading of bytes has, and from
  there on.\<close>

definition reads_at_once :: "http_stream \<Rightarrow> bool" where
  "reads_at_once t \<longleftrightarrow> s_closed t \<or>
     \<not> s_chunked t \<and> (case s_left t of ReadAll \<Rightarrow> True | Remaining n \<Rightarrow> n \<le> 0 | NotANumber \<Rightarrow> False)"

definition read_started :: "nat \<Rightarrow> http_stream \<Rightarrow> (nat \<Rightarrow> bool) \<Rightarrow> nat \<Rightarrow> flights \<Rightarrow> flights" where
  "read_started k t dead now s =
     (if reads_at_once t
      then (case stream_read dead now t (net s) of
              (r, t', st) \<Rightarrow> set_phase k (Streaming t' False) (s\<lparr>net := st\<rparr>))
      else set_phase k (Streaming t True) s)"

text \<open>From there on nothing looks at \<open>_closed\<close> again.\<close>

definition resume_read :: "(nat \<Rightarrow> bool) \<Rightarrow> nat \<Rightarrow> http_stream \<Rightarrow> client \<Rightarrow> stream_result \<times> http_stream \<times> client" where
  "resume_read dead now t st =
     (if s_chunked t then read_chunk dead now t st
      else case s_left t of
        Remaining n \<Rightarrow> read_part dead now n t st
      | NotANumber \<Rightarrow> (if dead (s_fd t) then StreamError else WaitsForClose, t, st)
      | ReadAll \<Rightarrow> (NoMore, t\<lparr>s_closed := True\<rparr>, close_fd (s_fd t) st))"

lemma stream_read_resume: "stream_read dead now t st = (if s_closed t then (NoMore, t, st) else resume_read dead now t st)"
  by (simp add: stream_read_def resume_read_def)

definition read_ended :: "nat \<Rightarrow> http_stream \<Rightarrow> (nat \<Rightarrow> bool) \<Rightarrow> nat \<Rightarrow> flights \<Rightarrow> flights" where
  "read_ended k t dead now s =
     (case resume_read dead now t (net s) of
        (r, t', st) \<Rightarrow> set_phase k (Streaming t' (r = WaitsForClose)) (s\<lparr>net := st\<rparr>))"

definition stream_closed :: "nat \<Rightarrow> http_stream \<Rightarrow> bool \<Rightarrow> flights \<Rightarrow> flights" where
  "stream_closed k t w s = (case stream_close t (net s) of (t', st) \<Rightarrow> set_phase k (Streaming t' w) (s\<lparr>net := st\<rparr>))"

text \<open>
  What may happen next. \<open>Responds\<close>: the response of a call is there or its bytes are not a response;
  \<open>Breaks\<close>: writing or reading fails. An event for a call that does not wait for it does nothing.
\<close>

datatype flight_event =
    Call call_kind jsstr jsstr jsstr "header option" content "nat \<Rightarrow> bool" nat
  | Connected nat "nat option" bool
  | Upgraded nat bool
  | Responds nat nat nat
  | Breaks nat
  | ReadStarts nat "nat \<Rightarrow> bool" nat
  | ReadEnds nat "nat \<Rightarrow> bool" nat
  | Closes nat
  | CleanUp "nat \<Rightarrow> bool" nat
  | CloseKept

definition phase_at :: "flights \<Rightarrow> nat \<Rightarrow> call_phase option" where
  "phase_at s k = (if k < length (calls s) then Some (phase_of (calls s ! k)) else None)"

fun flight_step :: "flights \<Rightarrow> flight_event \<Rightarrow> flights" where
  "flight_step s (Call kd m hst u h x dead now) = call_started kd m hst u h x dead now s"
| "flight_step s (Connected k fo hasTls) =
     (case phase_at s k of Some Connecting \<Rightarrow> connection_made k fo hasTls s | _ \<Rightarrow> s)"
| "flight_step s (Upgraded k ok) =
     (case phase_at s k of Some (Upgrading i) \<Rightarrow> upgrade_ended k i ok s | _ \<Rightarrow> s)"
| "flight_step s (Responds k b now) =
     (case phase_at s k of
        Some (Waiting i) \<Rightarrow>
          (case kind_of (calls s ! k) of
             Full \<Rightarrow> full_answered k i b now s
           | OnlyHead \<Rightarrow> head_answered k i now s
           | Streamed \<Rightarrow> stream_answered k i s)
      | _ \<Rightarrow> s)"
| "flight_step s (Breaks k) =
     (case phase_at s k of
        Some (Waiting i) \<Rightarrow> call_failed k i SocketLost s
      | Some (Streaming t True) \<Rightarrow> set_phase k (Streaming t False) s
      | _ \<Rightarrow> s)"
| "flight_step s (ReadStarts k dead now) =
     (case phase_at s k of Some (Streaming t w) \<Rightarrow> read_started k t dead now s | _ \<Rightarrow> s)"
| "flight_step s (ReadEnds k dead now) =
     (case phase_at s k of Some (Streaming t True) \<Rightarrow> read_ended k t dead now s | _ \<Rightarrow> s)"
| "flight_step s (Closes k) =
     (case phase_at s k of Some (Streaming t w) \<Rightarrow> stream_closed k t w s | _ \<Rightarrow> s)"
| "flight_step s (CleanUp dead now) = s\<lparr>net := cleanup dead now (net s)\<rparr>"
| "flight_step s CloseKept = s\<lparr>net := close_all_keepalive (net s)\<rparr>"

text \<open>The rule that the users of a stream follow: while a \<open>read\<close> is pending they neither read again
  nor close it. (The code does not enforce it.)\<close>

fun flight_legal :: "flights \<Rightarrow> flight_event \<Rightarrow> bool" where
  "flight_legal s (ReadStarts k dead now) = (case phase_at s k of Some (Streaming t w) \<Rightarrow> \<not> w | _ \<Rightarrow> True)"
| "flight_legal s (Closes k) = (case phase_at s k of Some (Streaming t w) \<Rightarrow> \<not> w | _ \<Rightarrow> True)"
| "flight_legal s _ = True"

section \<open>Who owns the sockets\<close>

fun phase_fds :: "call_phase \<Rightarrow> nat multiset" where
  "phase_fds (Upgrading i) = {#i#}"
| "phase_fds (Waiting i) = {#i#}"
| "phase_fds (Streaming t w) = held t"
| "phase_fds _ = {#}"

definition in_use :: "flights \<Rightarrow> nat multiset" where
  "in_use s = sum_list (map (\<lambda>c. phase_fds (phase_of c)) (calls s))"

definition all_accounted :: "flights \<Rightarrow> bool" where
  "all_accounted s \<longleftrightarrow>
     mset (opened (net s)) = mset (pool_fds (connPool (net s))) + mset (closes (net s)) + in_use s + mset (lost s)"

fun phase_sound :: "call_phase \<Rightarrow> bool" where
  "phase_sound (Streaming t w) = (w \<longrightarrow> \<not> s_closed t)"
| "phase_sound _ = True"

definition flights_inv :: "flights \<Rightarrow> bool" where
  "flights_inv s \<longleftrightarrow> mset (opened (net s)) = owned (net s) + in_use s + mset (lost s) \<and> pool_ok (net s) \<and>
     list_all (\<lambda>c. phase_sound (phase_of c)) (calls s)"

lemma sum_list_swap:
  fixes f :: "'b \<Rightarrow> 'c multiset"
  shows "k < length cs \<Longrightarrow> sum_list (map f (cs[k := c])) + f (cs ! k) = sum_list (map f cs) + f c"
proof (induction cs arbitrary: k)
  case (Cons a cs)
  then show ?case by (cases k) (simp_all add: ac_simps)
qed simp

lemma in_use_swap:
  "k < length (calls s) \<Longrightarrow>
   in_use (s\<lparr>calls := (calls s)[k := c]\<rparr>) + phase_fds (phase_of (calls s ! k)) = in_use s + phase_fds (phase_of c)"
  unfolding in_use_def using sum_list_swap [of k "calls s" "\<lambda>c. phase_fds (phase_of c)" c] by simp

lemma set_phase_simps [simp]:
  "net (set_phase k f s) = net s" "lost (set_phase k f s) = lost s" "length (calls (set_phase k f s)) = length (calls s)"
  by (simp_all add: set_phase_def)

lemma list_all_swap: "list_all P xs \<Longrightarrow> P x \<Longrightarrow> list_all P (xs[k := x])"
  by (induction xs arbitrary: k) (auto split: nat.split)

lemma flights_move:
  assumes "flights_inv s" "k < length (calls s)" "pool_ok st" "phase_sound (phase_of c)"
    "mset (opened st) + owned (net s) + phase_fds (phase_of (calls s ! k)) =
     mset (opened (net s)) + owned st + phase_fds (phase_of c) + mset l"
  shows "flights_inv (s\<lparr>net := st, calls := (calls s)[k := c], lost := lost s @ l\<rparr>)"
proof -
  let ?u = "in_use (s\<lparr>calls := (calls s)[k := c]\<rparr>)" and ?p = "phase_fds (phase_of (calls s ! k))"
  have u: "?u + ?p = in_use s + phase_fds (phase_of c)" by (rule in_use_swap [OF assms(2)])
  have o: "mset (opened (net s)) = owned (net s) + in_use s + mset (lost s)"
    using assms(1) by (simp add: flights_inv_def)
  have "mset (opened st) + (owned (net s) + ?p) = (owned st + ?u + mset (lost s) + mset l) + (owned (net s) + ?p)"
    using assms(5) u unfolding o by (simp add: ac_simps)
  then have "mset (opened st) = owned st + ?u + mset (lost s) + mset l" by (rule add_right_imp_eq)
  then show ?thesis using assms(1,3,4) by (simp add: flights_inv_def in_use_def ac_simps list_all_swap)
qed

lemma phase_at_set [simp]: "k < length (calls s) \<Longrightarrow> phase_at (set_phase k f s) k = Some f"
  by (simp add: phase_at_def set_phase_def)

text \<open>Most steps change the phase of one call and the client only.\<close>

lemma phase_move:
  assumes "flights_inv s" "phase_at s k = Some f0" "pool_ok st" "phase_sound f"
    "mset (opened st) + owned (net s) + phase_fds f0 = mset (opened (net s)) + owned st + phase_fds f"
  shows "flights_inv (set_phase k f (s\<lparr>net := st\<rparr>))"
  using flights_move [of s k st "(calls s ! k)\<lparr>phase_of := f\<rparr>" "[]"] assms
  by (simp add: phase_at_def set_phase_def split: if_splits)

lemma phase_only:
  "flights_inv s \<Longrightarrow> phase_at s k = Some f0 \<Longrightarrow> phase_fds f0 = phase_fds f \<Longrightarrow> phase_sound f \<Longrightarrow> flights_inv (set_phase k f s)"
  using phase_move [of s k f0 "net s" f] by (simp add: flights_inv_def)

lemma opened_more [simp]:
  "owned (st\<lparr>opened := x\<rparr>) = owned st" "pool_ok (st\<lparr>opened := x\<rparr>) = pool_ok st"
  by (simp_all add: owned_def pool_ok_def)

lemma pool_inv: "flights_inv s \<Longrightarrow> pool_ok (net s)"
  by (simp add: flights_inv_def)

lemma send_call_move:
  assumes "flights_inv s" "phase_at s k = Some f0" "pool_ok st"
    "mset (opened st) + owned (net s) + phase_fds f0 = mset (opened (net s)) + owned st + {#i#}"
  shows "flights_inv (send_call k i (s\<lparr>net := st\<rparr>))"
  using phase_move [OF assms(1,2), of "send_request (method_of (calls s ! k)) (hostHeader (target_of (calls s ! k)))
      (url_of (calls s ! k)) (header_of (calls s ! k)) (content_of (calls s ! k)) i st" "Waiting i"] assms(3,4)
  by (simp add: send_call_def Let_def)

lemma add_call_inv:
  assumes "flights_inv s" "pool_ok st" "phase_sound (phase_of c)"
    "mset (opened st) + owned (net s) = mset (opened (net s)) + owned st + phase_fds (phase_of c)"
  shows "flights_inv (s\<lparr>net := st, calls := calls s @ [c]\<rparr>)"
proof -
  have o: "mset (opened (net s)) = owned (net s) + in_use s + mset (lost s)"
    using assms(1) by (simp add: flights_inv_def)
  have "mset (opened st) + owned (net s) = (owned st + in_use s + phase_fds (phase_of c) + mset (lost s)) + owned (net s)"
    using assms(4) unfolding o by (simp add: ac_simps)
  then have "mset (opened st) = owned st + in_use s + phase_fds (phase_of c) + mset (lost s)" by (rule add_right_imp_eq)
  then show ?thesis using assms(1,2,3) by (simp add: flights_inv_def in_use_def)
qed

lemma send_pooled:
  "send_call (length (calls s)) i (s\<lparr>net := st, calls := calls s @ [c]\<rparr>) =
   s\<lparr>net := send_request (method_of c) (hostHeader (target_of c)) (url_of c) (header_of c) (content_of c) i st,
     calls := calls s @ [c\<lparr>phase_of := Waiting i\<rparr>]\<rparr>"
  by (simp add: send_call_def Let_def set_phase_def)

lemma call_started_inv: "flights_inv s \<Longrightarrow> flights_inv (call_started kd m hst u h x dead now s)"
proof (cases "client_parse_url hst")
  case None
  assume "flights_inv s"
  then show ?thesis using add_call_inv [of s "net s"] by (simp add: call_started_def None flights_inv_def in_use_def)
next
  case (Some p)
  assume a: "flights_inv s"
  obtain r st where g: "pool_get dead now (pool_key_str p) (net s) = (r, st)" by fastforce
  note o = pool_get_owned [OF g] and ok = pool_get_ok [OF g pool_inv [OF a]]
  have n: "\<And>c. phase_of c = Connecting \<Longrightarrow> flights_inv (s\<lparr>calls := calls s @ [c]\<rparr>)"
    using add_call_inv [of s "net s"] a by (simp add: flights_inv_def in_use_def)
  show ?thesis
  proof (cases r)
    case None
    then show ?thesis using n add_call_inv [OF a ok] o g by (simp add: call_started_def Some Let_def)
  next
    case (Some cn)
    then show ?thesis using n add_call_inv [OF a] ok o g
      by (simp add: call_started_def \<open>client_parse_url hst = Some p\<close> Let_def send_pooled)
  qed
qed

lemma connection_made_inv:
  assumes "flights_inv s" "phase_at s k = Some Connecting"
  shows "flights_inv (connection_made k fo t s)"
proof (cases fo)
  case (Some i)
  let ?st = "(net s)\<lparr>opened := opened (net s) @ [i]\<rparr>"
  have "flights_inv (send_call k i (s\<lparr>net := ?st\<rparr>))"
    using send_call_move [OF assms, of ?st i] pool_inv [OF assms(1)] by simp
  moreover have "flights_inv (set_phase k (Rejected TlsError) (s\<lparr>net := close_fd i ?st\<rparr>))"
    using phase_move [OF assms, of "close_fd i ?st"] pool_inv [OF assms(1)] by simp
  moreover have "flights_inv (set_phase k (Upgrading i) (s\<lparr>net := ?st\<rparr>))"
    using phase_move [OF assms, of ?st] pool_inv [OF assms(1)] by simp
  ultimately show ?thesis using Some by (simp add: connection_made_def Let_def)
qed (use phase_only [OF assms] in \<open>simp add: connection_made_def\<close>)

lemma upgrade_ended_inv:
  assumes "flights_inv s" "phase_at s k = Some (Upgrading i)"
  shows "flights_inv (upgrade_ended k i ok s)"
proof (cases ok)
  case True
  then show ?thesis using send_call_move [OF assms, of "net s" i] pool_inv [OF assms(1)] by (simp add: upgrade_ended_def)
next
  case False
  then show ?thesis
    using flights_move [of s k "net s" "(calls s ! k)\<lparr>phase_of := Rejected TlsError\<rparr>" "[i]"] assms pool_inv [OF assms(1)]
    by (simp add: upgrade_ended_def phase_at_def set_phase_def split: if_splits)
qed

lemma call_failed_inv:
  assumes "flights_inv s" "phase_at s k = Some (Waiting i)"
  shows "flights_inv (call_failed k i err s)"
  using flights_move [of s k "close_fd i (net s)" "(calls s ! k)\<lparr>fromPool := False, phase_of := Connecting\<rparr>" "[]"]
    phase_move [OF assms, of "close_fd i (net s)" "Rejected (Response err)"] assms pool_inv [OF assms(1)]
  by (simp add: call_failed_def Let_def phase_at_def split: if_splits)

lemma answered_inv:
  assumes "flights_inv s" "phase_at s k = Some (Waiting i)"
  shows "flights_inv (full_answered k i b now s)" "flights_inv (head_answered k i now s)" "flights_inv (stream_answered k i s)"
proof -
  note f = call_failed_inv [OF assms] and ok = pool_inv [OF assms(1)]
  have p: "flights_inv (set_phase k (Answered a h x) (s\<lparr>net := pool_put now key i h ((net s)\<lparr>incoming := q\<rparr>)\<rparr>))" for a h x key q
    using phase_move [OF assms] ok by (simp add: pool_put_owned pool_put_ok)
  have c: "flights_inv (set_phase k (Answered a h x) (s\<lparr>net := close_fd i ((net s)\<lparr>incoming := q\<rparr>)\<rparr>))" for a h x q
    using phase_move [OF assms] ok by simp
  have t: "flights_inv (set_phase k (Streaming (opened_stream i key a h) False) (s\<lparr>net := (net s)\<lparr>incoming := q\<rparr>\<rparr>))" for key a h q
    using phase_move [OF assms] ok by (simp add: held_def opened_stream_def)
  show "flights_inv (full_answered k i b now s)"
    using f p c by (auto simp: full_answered_def Let_def split: sum.split prod.split)
  show "flights_inv (head_answered k i now s)"
    using f p by (auto simp: head_answered_def split: sum.split prod.split)
  show "flights_inv (stream_answered k i s)"
    using f t by (auto simp: stream_answered_def split: sum.split prod.split)
qed

lemma cleanup_balance:
  "owned (cleanup d now st) = owned st" "opened (cleanup d now st) = opened st" "pool_ok st \<Longrightarrow> pool_ok (cleanup d now st)"
proof -
  obtain ps ds where c: "cleanup_loop d now (connPool st) = (ps, ds)" by (cases "cleanup_loop d now (connPool st)")
  show "owned (cleanup d now st) = owned st" "opened (cleanup d now st) = opened st"
    using cleanup_loop_fds [OF c] by (simp_all add: cleanup_def c owned_def close_fds_def ac_simps)
  show "pool_ok st \<Longrightarrow> pool_ok (cleanup d now st)"
    using cleanup_loop_ok [OF c, of max_per_host] by (simp add: cleanup_def c pool_ok_def close_fds_def)
qed

lemma close_all_balance:
  "owned (close_all_keepalive st) = owned st" "opened (close_all_keepalive st) = opened st" "pool_ok (close_all_keepalive st)"
  by (simp_all add: close_all_keepalive_def owned_def pool_ok_def close_fds_def pool_fds_def add.commute)

text \<open>What a stream does to the sockets, in a client that has others open: the balance of a stream.\<close>

definition even :: "http_stream \<times> client \<Rightarrow> http_stream \<times> client \<Rightarrow> bool" where
  "even x y \<longleftrightarrow> mset (opened (snd y)) + owned (snd x) + held (fst x) = mset (opened (snd x)) + owned (snd y) + held (fst y) \<and>
     (pool_ok (snd x) \<longrightarrow> pool_ok (snd y))"

lemma even_refl [simp]: "even x x"
  by (simp add: even_def)

lemma even_bytes [simp]:
  "even x (t, set_incoming i r st) = even x (t, st)" "even x (t\<lparr>s_left := l\<rparr>, st) = even x (t, st)"
  "even x (t\<lparr>s_header := h\<rparr>, st) = even x (t, st)" "even (t, set_incoming i r st) x = even (t, st) x"
  "even (t\<lparr>s_left := l\<rparr>, st) x = even (t, st) x" "even (t\<lparr>s_header := h\<rparr>, st) x = even (t, st) x"
  by (simp_all add: even_def set_incoming_def held_def)

lemma finish_even: "\<not> s_closed t \<Longrightarrow> even (t, st) (finish_stream d now t st)"
  by (simp add: even_def finish_stream_def held_def pool_put_owned pool_put_ok)

lemma finish_even_after:
  assumes "\<not> s_closed t"
  shows "even (t, st) (finish_stream d now t (set_incoming i r st))"
    "even (t, st) (finish_stream d now (t\<lparr>s_left := l\<rparr>) (set_incoming i r st))"
    "even (t, st) (finish_stream d now (t\<lparr>s_header := h\<rparr>) (set_incoming i r st))"
  using finish_even [of t "set_incoming i r st" d now] finish_even [of "t\<lparr>s_left := l\<rparr>" "set_incoming i r st" d now]
    finish_even [of "t\<lparr>s_header := h\<rparr>" "set_incoming i r st" d now] assms
  by simp_all

lemma close_even: "\<not> s_closed t \<Longrightarrow> even (t, st) (t\<lparr>s_closed := True\<rparr>, close_fd (s_fd t) st)"
  by (simp add: even_def held_def)

lemma finish_chunks_even: "\<not> s_closed t \<Longrightarrow> even (t, st) (snd (finish_chunks d now t r st))"
  using finish_even_after [of t st d now]
  by (simp add: finish_chunks_def Let_def split: reading.split prod.split)

lemma read_chunk_even: "\<not> s_closed t \<Longrightarrow> even (t, st) (snd (read_chunk d now t st))"
  using finish_chunks_even [of t st d now]
  by (simp add: read_chunk_def Let_def split: option.split prod.split)

lemma read_part_even: "\<not> s_closed t \<Longrightarrow> even (t, st) (snd (read_part d now n t st))"
  using finish_even_after [of t st d now] finish_even [of t st d now]
  by (simp add: read_part_def Let_def split: option.split prod.split)

lemma resume_read_even: "\<not> s_closed t \<Longrightarrow> even (t, st) (snd (resume_read d now t st))"
  by (simp add: resume_read_def read_chunk_even read_part_even close_even split: left.split)

lemma stream_read_even: "even (t, st) (snd (stream_read d now t st))"
  by (simp add: stream_read_resume resume_read_even)

lemma read_chunk_never_waits: "read_chunk d now t st \<noteq> (WaitsForClose, x)"
  by (auto simp: read_chunk_def finish_chunks_def Let_def split: option.split prod.split reading.split)

lemma read_part_never_waits: "read_part d now n t st \<noteq> (WaitsForClose, x)"
  by (auto simp: read_part_def Let_def split: option.split prod.split)

lemma waits_unchanged: "resume_read d now t st = (WaitsForClose, t', st') \<Longrightarrow> t' = t"
  by (auto simp: read_chunk_never_waits read_part_never_waits resume_read_def split: if_splits left.splits)

lemma stream_close_even: "even (t, st) (stream_close t st)"
  by (simp add: stream_close_def close_even)

lemma stream_move:
  assumes "flights_inv s" "phase_at s k = Some (Streaming t w)" "even (t, net s) (t', st)" "w' \<longrightarrow> \<not> s_closed t'"
  shows "flights_inv (set_phase k (Streaming t' w') (s\<lparr>net := st\<rparr>))"
  using phase_move [OF assms(1,2), of st] assms(3,4) pool_inv [OF assms(1)] by (simp add: even_def)

lemma pending_open: "flights_inv s \<Longrightarrow> phase_at s k = Some (Streaming t True) \<Longrightarrow> \<not> s_closed t"
  by (fastforce simp: flights_inv_def phase_at_def list_all_length split: if_splits)

lemma read_ended_inv:
  assumes "flights_inv s" "phase_at s k = Some (Streaming t True)"
  shows "flights_inv (read_ended k t d now s)"
proof -
  obtain r t' st where r: "resume_read d now t (net s) = (r, t', st)" by (cases "resume_read d now t (net s)") auto
  have "even (t, net s) (t', st)" using resume_read_even [OF pending_open [OF assms], of "net s" d now] r by simp
  moreover have "r = WaitsForClose \<longrightarrow> \<not> s_closed t'" using waits_unchanged r pending_open [OF assms] by blast
  ultimately show ?thesis using stream_move [OF assms] by (simp add: read_ended_def r)
qed

lemma read_started_inv:
  "flights_inv s \<Longrightarrow> phase_at s k = Some (Streaming t w) \<Longrightarrow> flights_inv (read_started k t d now s)"
  using stream_read_even [of t "net s" d now]
  by (auto simp: read_started_def reads_at_once_def split: prod.split intro: stream_move phase_only)

lemma stream_closed_inv:
  "flights_inv s \<Longrightarrow> phase_at s k = Some (Streaming t False) \<Longrightarrow> flights_inv (stream_closed k t False s)"
  using stream_close_even [of t "net s"]
  by (auto simp: stream_closed_def split: prod.split intro: stream_move)

lemma clean_inv:
  assumes "flights_inv s"
  shows "flights_inv (s\<lparr>net := cleanup d now (net s)\<rparr>)" "flights_inv (s\<lparr>net := close_all_keepalive (net s)\<rparr>)"
  using assms by (simp_all add: flights_inv_def cleanup_balance close_all_balance in_use_def)

interpretation flights: guarded_component flight_step flights_inv flight_legal
proof unfold_locales
  fix s e
  assume "flights_inv s" "flight_legal s e"
  then show "flights_inv (flight_step s e)"
    by (cases e)
      (auto simp: call_started_inv connection_made_inv upgrade_ended_inv answered_inv call_failed_inv read_started_inv
        read_ended_inv stream_closed_inv clean_inv split: option.splits call_phase.splits bool.split call_kind.split intro: phase_only)
qed


text \<open>Only a failed upgrade loses a socket.\<close>

fun upgrade_fails :: "flight_event \<Rightarrow> bool" where
  "upgrade_fails (Upgraded k ok) = (\<not> ok)"
| "upgrade_fails _ = False"

lemma lost_send [simp]: "lost (send_call k i s) = lost s"
  by (simp add: send_call_def Let_def)

lemma lost_start [simp]: "lost (call_started kd m hst u h x dead now s) = lost s"
  by (simp add: call_started_def Let_def split: option.split prod.split)

lemma lost_made [simp]: "lost (connection_made k fo b s) = lost s"
  by (simp add: connection_made_def Let_def split: option.split)

lemma lost_failed [simp]: "lost (call_failed k i err s) = lost s"
  by (simp add: call_failed_def Let_def)

lemma lost_answered [simp]:
  "lost (full_answered k i b now s) = lost s" "lost (head_answered k i now s) = lost s" "lost (stream_answered k i s) = lost s"
  by (simp_all add: full_answered_def head_answered_def stream_answered_def Let_def split: sum.split prod.split)

lemma lost_reads [simp]:
  "lost (read_started k t d now s) = lost s" "lost (read_ended k t d now s) = lost s" "lost (stream_closed k t w s) = lost s"
  by (simp_all add: read_started_def read_ended_def stream_closed_def split: prod.split)

lemma lost_ended: "length (lost (upgrade_ended k i ok s)) = length (lost s) + (if ok then 0 else 1)"
  by (simp add: upgrade_ended_def)

lemma lost_step: "length (lost (flight_step s e)) \<le> length (lost s) + (if upgrade_fails e then 1 else 0)"
  by (cases e) (simp_all add: lost_ended split: option.split call_phase.split bool.split call_kind.split)

lemma lost_run: "length (lost (foldl flight_step s es)) \<le> length (lost s) + length (filter upgrade_fails es)"
proof (induction es arbitrary: s)
  case (Cons e es)
  have "length (lost (foldl flight_step (flight_step s e) es)) \<le> length (lost (flight_step s e)) + length (filter upgrade_fails es)"
    by (rule Cons.IH)
  with lost_step [of s e] show ?case by (simp split: if_splits)
qed simp

text \<open>C4. No socket of the client is forgotten, closed twice, or in two hands: however the steps of
  any number of requests, \<open>HEAD\<close> requests and streamed requests interleave with each other, with
  the clean-up timer and with \<open>closeAllKeepalive\<close>, whatever the servers answer and whenever
  connections and TLS upgrades fail, the sockets that \<open>connectAsync\<close> returned are, each exactly
  once: in the pool, closed, held by a call that is waiting or by a stream that is not finished, or
  one of the sockets of the failed TLS upgrades, which the code does leak, at most one for each
  such failure. No host has more than eight pooled connections, and the clean-up timer
  runs while the pool has any. (Nobody reads or closes a stream while a \<open>read\<close> of it is pending.)\<close>

theorem every_socket_accounted:
  assumes "legal_run flight_step flight_legal (no_flights inc) es"
  shows "all_accounted (foldl flight_step (no_flights inc) es) \<and>
    pool_ok (net (foldl flight_step (no_flights inc) es)) \<and>
    length (lost (foldl flight_step (no_flights inc) es)) \<le> length (filter upgrade_fails es)"
proof -
  have "flights_inv (no_flights inc)"
    by (simp add: flights_inv_def no_flights_def new_client_def owned_def pool_ok_def in_use_def)
  from flights.run_legal [OF this assms]
  have "flights_inv (foldl flight_step (no_flights inc) es)" .
  then show ?thesis using lost_run [of "no_flights inc" es]
    by (simp add: flights_inv_def all_accounted_def owned_def no_flights_def)
qed

text \<open>The rule about streams is needed: \<open>close()\<close> while the last bytes of a \<open>read\<close> are on their way to
  it closes the socket, and then the \<open>read\<close> puts the closed socket into the pool.\<close>

lemma pool_put_puts: "\<not> says_close h \<Longrightarrow> i \<in> set (pool_fds (connPool (pool_put now key i h st)))"
proof -
  have "i \<in> set (pool_fds (map_put key (cs @ [\<lparr>fd = i, expireTime = e\<rparr>]) ps))" for cs e ps
    by (induction key "cs @ [\<lparr>fd = i, expireTime = e\<rparr>]" ps rule: map_put.induct) auto
  then show "\<not> says_close h \<Longrightarrow> i \<in> set (pool_fds (connPool (pool_put now key i h st)))"
    by (simp add: pool_put_def Let_def split: prod.split)
qed

lemma pool_put_closes: "set (closes st) \<subseteq> set (closes (pool_put now key i h st))"
  by (auto simp: pool_put_def close_fd_def close_fds_def Let_def split: prod.split)

lemma close_during_read:
  assumes "phase_at s k = Some (Streaming t True)" "\<not> s_closed t" "\<not> s_chunked t" "s_left t = Remaining n"
    "0 < n" "n \<le> 8192" "read_exact n (incoming (net s) (s_fd t)) = Some (b, r)" "\<not> says_close (s_header t)" "\<not> dead (s_fd t)"
    "z = net (foldl flight_step s [Closes k, ReadEnds k dead now])"
  shows "s_fd t \<in> set (closes z) \<and> s_fd t \<in> set (pool_fds (connPool z))"
proof -
  have k: "k < length (calls s)" using assms(1) by (simp add: phase_at_def split: if_splits)
  let ?u = "t\<lparr>s_closed := True\<rparr>" and ?st = "close_fd (s_fd t) (net s)"
  have "flight_step s (Closes k) = set_phase k (Streaming ?u True) (s\<lparr>net := ?st\<rparr>)"
    using assms(1,2) by (simp add: stream_closed_def stream_close_def)
  then have "z = pool_put now (s_key t) (s_fd t) (s_header t) (set_incoming (s_fd t) r ?st)"
    using assms k by (simp add: read_ended_def resume_read_def read_part_def finish_stream_def close_fd_def Let_def min_def)
  then show ?thesis
    using pool_put_puts [OF assms(8)] pool_put_closes [of "set_incoming (s_fd t) r ?st" now "s_key t" "s_fd t" "s_header t"]
    by (auto simp: set_incoming_def close_fd_def)
qed

definition https_run :: "flight_event list" where
  "https_run =
     [Call Full (js ''GET'') (js ''https://h'') (js ''/'') None NoContent (\<lambda>_. False) 0,
      Call Streamed (js ''GET'') (js ''h'') (js ''/'') None NoContent (\<lambda>_. False) 0,
      Connected 1 (Some 8) True, Connected 0 (Some 7) True, Upgraded 0 False, Breaks 1, CloseKept]"

lemma every_socket_accounted_witness:
  "all_accounted (foldl flight_step (no_flights (\<lambda>_. [])) https_run) \<and>
   pool_ok (net (foldl flight_step (no_flights (\<lambda>_. [])) https_run)) \<and>
   length (lost (foldl flight_step (no_flights (\<lambda>_. [])) https_run)) \<le> length (filter upgrade_fails https_run)"
  by (rule every_socket_accounted) (simp add: https_run_def)

section \<open>One call alone\<close>

text \<open>When nothing else happens between its steps, a call does what the function \<open>http_request\<close> of
  \<open>Http_Client\<close> says: it reaches the same client and the same result.\<close>

definition attempt_events :: "network \<Rightarrow> nat \<Rightarrow> nat \<Rightarrow> flight_event list" where
  "attempt_events e n k = [Connected k (connects e n) (tls e n \<noteq> TlsMissing), Upgraded k (tls e n = TlsOk), Responds k (buffered e) (time_put e)]"

definition result_phase :: "(request_error + nat \<times> header \<times> jsstr) \<Rightarrow> call_phase" where
  "result_phase r = (case r of Inl err \<Rightarrow> Rejected err | Inr (status, hdr, txt) \<Rightarrow> Answered status hdr txt)"


text \<open>The call \<open>k\<close> with its arguments.\<close>

definition is_request :: "flights \<Rightarrow> nat \<Rightarrow> jsstr \<Rightarrow> client_url \<Rightarrow> jsstr \<Rightarrow> header option \<Rightarrow> content \<Rightarrow> bool \<Rightarrow> bool" where
  "is_request s k m p u h x pooled \<longleftrightarrow> k < length (calls s) \<and> kind_of (calls s ! k) = Full \<and> method_of (calls s ! k) = m \<and>
     target_of (calls s ! k) = p \<and> url_of (calls s ! k) = u \<and> header_of (calls s ! k) = h \<and>
     content_of (calls s ! k) = x \<and> fromPool (calls s ! k) = pooled"

lemma set_phase_call:
  "k < length (calls s) \<Longrightarrow>
   calls (set_phase k' f s) ! k = (if k = k' then (calls s ! k)\<lparr>phase_of := f\<rparr> else calls s ! k)"
  by (simp add: set_phase_def)

lemma set_phase_args [simp]:
  "k < length (calls s) \<Longrightarrow> kind_of (calls (set_phase k' f s) ! k) = kind_of (calls s ! k)"
  "k < length (calls s) \<Longrightarrow> method_of (calls (set_phase k' f s) ! k) = method_of (calls s ! k)"
  "k < length (calls s) \<Longrightarrow> target_of (calls (set_phase k' f s) ! k) = target_of (calls s ! k)"
  "k < length (calls s) \<Longrightarrow> url_of (calls (set_phase k' f s) ! k) = url_of (calls s ! k)"
  "k < length (calls s) \<Longrightarrow> header_of (calls (set_phase k' f s) ! k) = header_of (calls s ! k)"
  "k < length (calls s) \<Longrightarrow> content_of (calls (set_phase k' f s) ! k) = content_of (calls s ! k)"
  "k < length (calls s) \<Longrightarrow> fromPool (calls (set_phase k' f s) ! k) = fromPool (calls s ! k)"
  by (simp_all add: set_phase_call)

lemma is_request_net [simp]:
  "is_request (s\<lparr>net := st\<rparr>) k m p u h x b = is_request s k m p u h x b"
  "is_request (s\<lparr>lost := l\<rparr>) k m p u h x b = is_request s k m p u h x b"
  "is_request (set_phase k' f s) k m p u h x b = is_request s k m p u h x b"
  "is_request (send_call k' i s) k m p u h x b = is_request s k m p u h x b"
  by (simp_all add: is_request_def send_call_def Let_def cong: conj_cong)

lemma phase_at_send [simp]: "is_request s k m p u h x b \<Longrightarrow> phase_at (send_call k i s) k = Some (Waiting i)"
  by (simp add: send_call_def Let_def is_request_def)

lemma phase_at_net [simp]: "phase_at (s\<lparr>net := st\<rparr>) k = phase_at s k" "phase_at (s\<lparr>lost := l\<rparr>) k = phase_at s k"
  by (simp_all add: phase_at_def)

lemma phase_of_request [simp]: "is_request s k m p u h x b \<Longrightarrow> phase_at (set_phase k f s) k = Some f"
  by (simp add: is_request_def)

lemma responds_sent:
  assumes "is_request s k m p u h x b"
  shows "flight_step (send_call k i s) (Responds k (buffered e) (time_put e)) =
    (case request_on e m p u h x i (net s) of
       (Inr (a, hd', tx), st) \<Rightarrow> set_phase k (Answered a hd' tx) ((send_call k i s)\<lparr>net := st\<rparr>)
     | (Inl err, st) \<Rightarrow> call_failed k i err ((send_call k i s)\<lparr>net := st\<rparr>))"
proof -
  have c: "kind_of (calls (send_call k i s) ! k) = Full" "method_of (calls (send_call k i s) ! k) = m"
    "target_of (calls (send_call k i s) ! k) = p" "net (send_call k i s) = send_request m (hostHeader p) u h x i (net s)"
    using assms by (simp_all add: is_request_def send_call_def Let_def)
  have n: "(send_call k i s)\<lparr>net := send_request m (hostHeader p) u h x i (net s)\<rparr> = send_call k i s"
    by (simp add: c(4) [symmetric])
  show ?thesis using assms
    by (simp add: c n full_answered_def request_on_def Let_def split: sum.split prod.split)
qed

lemma call_failed_first:
  "is_request s k m p u h x False \<Longrightarrow>
   call_failed k i err s = set_phase k (Rejected (Response err)) (s\<lparr>net := close_fd i (net s)\<rparr>)"
  by (simp add: call_failed_def is_request_def)

lemma attempt_run:
  assumes "is_request s k m p u h x False" "phase_at s k = Some Connecting"
  shows "net (foldl flight_step s (attempt_events e n k)) = snd (fresh_request e n m p u h x (net s)) \<and>
    phase_at (foldl flight_step s (attempt_events e n k)) k = Some (result_phase (fst (fresh_request e n m p u h x (net s))))"
proof (cases "connects e n")
  case None
  then show ?thesis using assms
    by (simp add: attempt_events_def connection_made_def fresh_request_def open_connection_def result_phase_def)
next
  case (Some i)
  let ?s = "s\<lparr>net := (net s)\<lparr>opened := opened (net s) @ [i]\<rparr>\<rparr>"
  have q: "net r = snd (case request_on e m p u h x i (net ?s) of (Inr res, st2) \<Rightarrow> (Inr res, st2)
        | (Inl err, st2) \<Rightarrow> (Inl (Response err), close_fd i st2)) \<and>
      phase_at r k = Some (result_phase (fst (case request_on e m p u h x i (net ?s) of (Inr res, st2) \<Rightarrow> (Inr res, st2)
        | (Inl err, st2) \<Rightarrow> (Inl (Response err), close_fd i st2))))"
    if "r = flight_step (send_call k i z) (Responds k (buffered e) (time_put e))" "is_request z k m p u h x False" "net z = net ?s" for r z
  proof -
    have w: "is_request ((send_call k i z)\<lparr>net := st\<rparr>) k m p u h x False" for st using that(2) by simp
    show ?thesis
      unfolding that(1) responds_sent [OF that(2)] that(3)
      using phase_of_request [OF w] that(2) by (auto simp: result_phase_def call_failed_first [OF w] split: sum.split prod.split)
  qed
  have r: "is_request ?s k m p u h x False" "is_request (set_phase k f ?s) k m p u h x False"
    "net ?s = (net s)\<lparr>opened := opened (net s) @ [i]\<rparr>" "net (set_phase k f ?s) = net ?s" for f
    using assms(1) by simp_all
  have c: "target_of (calls s ! k) = p" using assms(1) by (simp add: is_request_def)
  note q1 = q [OF refl r(1) refl] and q2 = q [OF refl r(2,4)]
  show ?thesis
  proof (cases "protocol p = js ''https''")
    case False
    have "foldl flight_step s (attempt_events e n k) =
        flight_step (send_call k i ?s) (Responds k (buffered e) (time_put e))"
      using assms False by (simp add: attempt_events_def connection_made_def Some c del: flight_step.simps(4))
    then show ?thesis using q1 Some False by (simp add: fresh_request_def open_connection_def Let_def)
  next
    case True
    show ?thesis
    proof (cases "tls e n")
      case TlsOk
      have "foldl flight_step s (attempt_events e n k) =
          flight_step (send_call k i (set_phase k (Upgrading i) ?s)) (Responds k (buffered e) (time_put e))"
        using assms True TlsOk
        by (simp add: attempt_events_def connection_made_def upgrade_ended_def Some c del: flight_step.simps(4))
      then show ?thesis using q2 [of "Upgrading i"] Some True TlsOk
        by (simp add: fresh_request_def open_connection_def Let_def)
    qed (use assms True Some in \<open>simp_all add: attempt_events_def connection_made_def upgrade_ended_def c
      fresh_request_def open_connection_def Let_def result_phase_def\<close>)
  qed
qed

text \<open>The events of one request that nothing interrupts.\<close>

definition request_events :: "network \<Rightarrow> jsstr \<Rightarrow> client \<Rightarrow> nat \<Rightarrow> flight_event list" where
  "request_events e hst st k =
     (case client_parse_url hst of
        None \<Rightarrow> []
      | Some p \<Rightarrow>
          (case fst (pool_get (gone e) (time_get e) (pool_key_str p) st) of
             None \<Rightarrow> attempt_events e 0 k
           | Some c \<Rightarrow> Responds k (buffered e) (time_put e) # attempt_events e 1 k))"

lemma settled_attempt:
  "phase_at s k = Some (Answered a hd' tx) \<Longrightarrow> foldl flight_step s (attempt_events e n k) = s"
  by (simp add: attempt_events_def)

theorem request_alone:
  assumes k_def: "k = length (calls s)"
    and t_def: "t = foldl flight_step s (Call Full m hst u h x (gone e) (time_get e) # request_events e hst (net s) k)"
  shows "net t = snd (http_request e m hst u h x (net s)) \<and>
    phase_at t k = Some (result_phase (fst (http_request e m hst u h x (net s))))"
proof (cases "client_parse_url hst")
  case None
  then show ?thesis
    by (simp add: t_def k_def request_events_def call_started_def http_request_def result_phase_def phase_at_def)
next
  case (Some p)
  obtain r st where g: "pool_get (gone e) (time_get e) (pool_key_str p) (net s) = (r, st)" by fastforce
  define c where "c = \<lparr>kind_of = Full, method_of = m, target_of = p, url_of = u, header_of = h,
    content_of = x, fromPool = False, phase_of = Connecting\<rparr>"
  have m: "call_method Full m = m" "call_content Full x = x" by (simp_all add: call_method_def call_content_def)
  show ?thesis
  proof (cases r)
    case None
    let ?z = "s\<lparr>net := st, calls := calls s @ [c]\<rparr>"
    have "t = foldl flight_step ?z (attempt_events e 0 k)"
      by (simp add: t_def request_events_def Some g None call_started_def m c_def)
    moreover have "is_request ?z k m p u h x False" "phase_at ?z k = Some Connecting"
      by (simp_all add: is_request_def k_def c_def phase_at_def)
    ultimately show ?thesis using attempt_run [of ?z k m p u h x e 0] by (simp add: http_request_def Some g None)
  next
    case (Some cn)
    note rr = this
    let ?z = "s\<lparr>net := st, calls := calls s @ [c\<lparr>fromPool := True\<rparr>]\<rparr>"
    have z: "is_request ?z k m p u h x True" by (simp add: is_request_def k_def c_def)
    obtain o' st2 where q: "request_on e m p u h x (fd cn) st = (o', st2)" by fastforce
    have t: "t = foldl flight_step (flight_step (send_call k (fd cn) ?z) (Responds k (buffered e) (time_put e))) (attempt_events e 1 k)"
      by (simp add: t_def request_events_def \<open>client_parse_url hst = Some p\<close> g rr call_started_def m c_def k_def)
    show ?thesis
    proof (cases o')
      case (Inr res)
      obtain a hd' tx where res: "res = (a, hd', tx)" by (cases res)
      have "t = set_phase k (Answered a hd' tx) ((send_call k (fd cn) ?z)\<lparr>net := st2\<rparr>)"
        unfolding t responds_sent [OF z] using z by (simp add: q Inr res settled_attempt)
      then show ?thesis using z
        by (simp add: http_request_def \<open>client_parse_url hst = Some p\<close> g rr q Inr res result_phase_def)
    next
      case (Inl err)
      let ?y = "call_failed k (fd cn) err ((send_call k (fd cn) ?z)\<lparr>net := st2\<rparr>)"
      have y: "t = foldl flight_step ?y (attempt_events e 1 k)"
        unfolding t responds_sent [OF z] by (simp add: q Inl)
      have "is_request ?y k m p u h x False" "phase_at ?y k = Some Connecting" "net ?y = close_fd (fd cn) st2"
        using z by (auto simp: call_failed_def Let_def is_request_def send_call_def set_phase_def phase_at_def)
      then show ?thesis using attempt_run [of ?y k m p u h x e 1] y
        by (simp add: http_request_def \<open>client_parse_url hst = Some p\<close> g rr q Inl)
    qed
  qed
qed

end
