(* ===== verification/Http_Node.thy ===== *)
theory Http_Node
  imports Http_Messages Net_Core
begin

text \<open>
  \<open>js/builtins/http.js\<close>, the Node facade of HTTP: its own parsers of requests and responses, the
  response object of the server, the loop of the server over the chunks of a connection, and the
  client. The sockets are those of \<open>builtins/net.js\<close>; what is written to one is a list of bytes.
\<close>

section \<open>Parsing\<close>

text \<open>\<open>s.split("\<backslash>r\<backslash>n")\<close>.\<close>

function split_crlf :: "jsstr \<Rightarrow> jsstr list" where
  "split_crlf [] = [[]]"
| "split_crlf (c # s) =
     (if c = 13 \<and> starts_with s [10] then [] # split_crlf (tl s)
      else (case split_crlf s of [] \<Rightarrow> [[c]] | l # ls \<Rightarrow> (c # l) # ls))"
  by pat_completeness auto
termination by (relation "measure length") auto

text \<open>\<open>bs.subarray(a, b)\<close> for any numbers, \<open>NaN\<close> being \<open>None\<close>.\<close>

definition rel_index :: "nat \<Rightarrow> int option \<Rightarrow> nat" where
  "rel_index n i = (case i of None \<Rightarrow> 0 | Some k \<Rightarrow> if k < 0 then nat (int n + k) else min n (nat k))"

definition sub_bytes :: "bytes \<Rightarrow> int option \<Rightarrow> int option \<Rightarrow> bytes" where
  "sub_bytes bs a b = (let i = rel_index (length bs) a in take (rel_index (length bs) b - i) (drop i bs))"

definition head_end :: bytes where "head_end = [13, 10, 13, 10]"

text \<open>\<open>/^([A-Z]+)\s+(\S+)\s+HTTP\/(\d\.\d)$/\<close>: no two neighbours share a character, so no backtracking.\<close>

definition is_upper :: "code_unit \<Rightarrow> bool" where
  "is_upper c \<longleftrightarrow> 65 \<le> c \<and> c \<le> 90"

definition node_request_line :: "jsstr \<Rightarrow> (jsstr \<times> jsstr \<times> jsstr) option" where
  "node_request_line line =
     (let m = takeWhile is_upper line; r = drop (length m) line; r' = dropWhile is_space r;
          u = takeWhile (\<lambda>c. \<not> is_space c) r'; t = drop (length u) r'; t' = dropWhile is_space t; v = drop 5 t'
      in if m \<noteq> [] \<and> r \<noteq> r' \<and> u \<noteq> [] \<and> t \<noteq> t' \<and> starts_with t' (js ''HTTP/'')
            \<and> length v = 3 \<and> is_dec (v ! 0) \<and> v ! 1 = 46 \<and> is_dec (v ! 2) then Some (m, u, v) else None)"

text \<open>A header line: the name as it was sent, its key, the value.\<close>

definition node_field :: "jsstr \<Rightarrow> (jsstr \<times> jsstr \<times> jsstr) option" where
  "node_field line = (case index_of_char line 58 of
     None \<Rightarrow> None
   | Some i \<Rightarrow> Some (trim (take i line), to_lower (trim (take i line)), trim (drop (i + 1) line)))"

fun node_headers :: "jsstr list \<Rightarrow> header \<times> jsstr list \<Rightarrow> header \<times> jsstr list" where
  "node_headers [] (h, raw) = (h, raw)"
| "node_headers (l # ls) (h, raw) = (case node_field l of
     None \<Rightarrow> node_headers ls (h, raw)
   | Some (n, k, v) \<Rightarrow> node_headers ls (add_header k v h, raw @ [n, v]))"

record parsed_request =
  p_method :: jsstr
  p_url :: jsstr
  p_version :: jsstr
  p_headers :: header
  p_raw :: "jsstr list"
  p_body :: bytes
  p_consumed :: "int option"

text \<open>\<open>parseInt(headers["content-length"] || "0", 10)\<close>; an array is read by its text.\<close>

definition node_length :: "header \<Rightarrow> int option" where
  "node_length h = (case hget h ''content-length'' of None \<Rightarrow> Some 0 | Some v \<Rightarrow> parse_int 10 (hval_str v))"

definition parse_request :: "bytes \<Rightarrow> parsed_request option" where
  "parse_request buffer = (case index_of buffer head_end of
     None \<Rightarrow> None
   | Some e \<Rightarrow> (case split_crlf (decode_utf8 (take e buffer)) of
        [] \<Rightarrow> None
      | l # ls \<Rightarrow> (case node_request_line l of
           None \<Rightarrow> None
         | Some (m, u, v) \<Rightarrow>
             (let hr = node_headers ls ([], []); n = node_length (fst hr);
                  stop = map_option (\<lambda>k. int e + 4 + k) n
              in if (case n of None \<Rightarrow> False | Some k \<Rightarrow> int (length buffer) - int e - 4 < k) then None
                 else Some \<lparr>p_method = m, p_url = u, p_version = v, p_headers = fst hr, p_raw = snd hr,
                    p_body = sub_bytes buffer (Some (int e + 4)) stop, p_consumed = stop\<rparr>))))"

text \<open>\<open>parseResponse\<close>: a header that comes again replaces the one before. \<open>None\<close> is the error \<open>ERR_PROTOCOL\<close>.\<close>

record response =
  r_status :: "int option"
  r_reason :: jsstr
  r_headers :: "(jsstr \<times> jsstr) list"
  r_body :: bytes

fun response_fields :: "jsstr list \<Rightarrow> (jsstr \<times> jsstr) list \<Rightarrow> (jsstr \<times> jsstr) list" where
  "response_fields [] h = h"
| "response_fields (l # ls) h = (case node_field l of
     None \<Rightarrow> response_fields ls h
   | Some (n, k, v) \<Rightarrow> response_fields ls (if k = js ''__proto__'' then h else obj_put k v h))"

definition parse_response :: "bytes \<Rightarrow> response option" where
  "parse_response raw = (case index_of raw head_end of
     None \<Rightarrow> None
   | Some e \<Rightarrow>
       (let lines = split_crlf (decode_utf8 (take e raw)); status = split_on 32 (hd lines)
        in Some \<lparr>r_status = (if 1 < length status then parse_int 10 (status ! 1) else None),
                 r_reason = join_with [32] (drop 2 status),
                 r_headers = response_fields (tl lines) [],
                 r_body = drop (e + 4) raw\<rparr>))"

section \<open>The response object\<close>

text \<open>\<open>STATUS_CODES\<close>.\<close>

definition status_codes :: "(nat \<times> string) list" where
  "status_codes = [(200, ''OK''), (201, ''Created''), (204, ''No Content''), (206, ''Partial Content''),
     (301, ''Moved Permanently''), (302, ''Found''), (304, ''Not Modified''), (400, ''Bad Request''),
     (401, ''Unauthorized''), (403, ''Forbidden''), (404, ''Not Found''), (405, ''Method Not Allowed''),
     (408, ''Request Timeout''), (413, ''Payload Too Large''), (500, ''Internal Server Error''),
     (501, ''Not Implemented''), (502, ''Bad Gateway''), (503, ''Service Unavailable'')]"

record server_response =
  statusCode :: nat
  statusMessage :: "jsstr option"
  headersSent :: bool
  finished :: bool
  out_headers :: header
  out_chunks :: "bytes list"

definition new_response :: server_response where
  "new_response = \<lparr>statusCode = 200, statusMessage = None, headersSent = False, finished = False,
     out_headers = [], out_chunks = []\<rparr>"

definition set_header :: "jsstr \<Rightarrow> hval \<Rightarrow> server_response \<Rightarrow> server_response" where
  "set_header name v r = r\<lparr>out_headers := (if to_lower name = js ''__proto__'' then out_headers r
     else obj_put (to_lower name) v (out_headers r))\<rparr>"

definition get_header :: "jsstr \<Rightarrow> server_response \<Rightarrow> hval option" where
  "get_header name r = map_of (out_headers r) (to_lower name)"

definition remove_header :: "jsstr \<Rightarrow> server_response \<Rightarrow> server_response" where
  "remove_header name r = r\<lparr>out_headers := filter (\<lambda>p. fst p \<noteq> to_lower name) (out_headers r)\<rparr>"

text \<open>The second argument of \<open>writeHead\<close>: nothing, a reason, or the headers.\<close>

datatype head_arg = NoReason | Reason jsstr | Fields header

definition write_head :: "nat \<Rightarrow> head_arg \<Rightarrow> header option \<Rightarrow> server_response \<Rightarrow> server_response" where
  "write_head code arg fs r =
     (let r1 = r\<lparr>statusCode := code\<rparr>;
          r2 = (case arg of Reason m \<Rightarrow> r1\<lparr>statusMessage := Some m\<rparr> | _ \<Rightarrow> r1);
          extra = (case arg of Fields h \<Rightarrow> Some h | _ \<Rightarrow> fs)
      in (foldl (\<lambda>s p. set_header (fst p) (snd p) s) r2 (case extra of None \<Rightarrow> [] | Some h \<Rightarrow> h))
           \<lparr>headersSent := True\<rparr>)"

text \<open>The sink of the stream, and \<open>_finish\<close>: with what it writes to the socket.\<close>

definition push_chunk :: "bytes \<Rightarrow> server_response \<Rightarrow> server_response" where
  "push_chunk c r = r\<lparr>out_chunks := out_chunks r @ [c]\<rparr>"

definition reason_of :: "server_response \<Rightarrow> jsstr" where
  "reason_of r = (case statusMessage r of
     Some m \<Rightarrow> if m \<noteq> [] then m else (case map_of status_codes (statusCode r) of None \<Rightarrow> [] | Some s \<Rightarrow> js s)
   | None \<Rightarrow> (case map_of status_codes (statusCode r) of None \<Rightarrow> [] | Some s \<Rightarrow> js s))"

definition sent_headers :: "server_response \<Rightarrow> header" where
  "sent_headers r = foldl (\<lambda>h p. obj_put (fst p) (snd p) h)
     [(js ''content-length'', One (dec (length (concat (out_chunks r))))), (js ''connection'', One (js ''keep-alive''))]
     (out_headers r)"

definition field_line :: "jsstr \<times> hval \<Rightarrow> jsstr" where
  "field_line p = fst p @ js '': '' @ hval_str (snd p) @ crlf"

definition response_head :: "server_response \<Rightarrow> jsstr" where
  "response_head r = js ''HTTP/1.1 '' @ dec (statusCode r) @ 32 # reason_of r @ crlf
     @ concat (map field_line (sent_headers r)) @ crlf"

definition finish :: "bool \<Rightarrow> server_response \<Rightarrow> server_response \<times> bytes list" where
  "finish err r =
     (let r1 = r\<lparr>headersSent := True\<rparr>; body = concat (out_chunks r)
      in if err then (r1, [])
         else (r1\<lparr>finished := True\<rparr>, encode_utf8 (response_head r) # (if body \<noteq> [] then [body] else [])))"

section \<open>The server and the client\<close>

text \<open>
  The \<open>data\<close> listener of a connection: the buffer, and the request that is passed to the program. One
  request at most is taken out of a chunk.
\<close>

definition on_chunk :: "bytes \<Rightarrow> bytes \<Rightarrow> bytes \<times> parsed_request option" where
  "on_chunk buffer chunk =
     (let b = buffer @ chunk in case parse_request b of
        None \<Rightarrow> (b, None)
      | Some p \<Rightarrow> (sub_bytes b (p_consumed p) (Some (int (length b))), Some p))"

text \<open>The options of a client; what is empty counts as not given.\<close>

record client_options =
  co_hostname :: jsstr
  co_host :: jsstr
  co_port :: nat
  co_https :: bool
  co_path :: jsstr
  co_method :: jsstr
  co_headers :: header
  co_body :: bytes

definition or_default :: "jsstr \<Rightarrow> jsstr \<Rightarrow> jsstr" where
  "or_default a b = (if a = [] then b else a)"

definition target_host :: "client_options \<Rightarrow> jsstr" where
  "target_host opts = or_default (or_default (co_hostname opts) (co_host opts)) (js ''127.0.0.1'')"

definition target_port :: "client_options \<Rightarrow> nat" where
  "target_port opts = (if co_port opts = 0 then (if co_https opts then 443 else 80) else co_port opts)"

definition client_head :: "client_options \<Rightarrow> jsstr" where
  "client_head opts = or_default (co_method opts) (js ''GET'') @ 32 # or_default (co_path opts) (js ''/'') @ js '' HTTP/1.1'' @ crlf
     @ field_line (js ''host'', One (target_host opts)) @ field_line (js ''connection'', One (js ''close''))
     @ concat (map field_line (co_headers opts)) @ crlf"

definition client_writes :: "client_options \<Rightarrow> bytes list" where
  "client_writes opts = encode_utf8 (client_head opts) # (if co_body opts \<noteq> [] then [co_body opts] else [])"

text \<open>The promise of \<open>request\<close>: it waits for the end of the connection.\<close>

datatype fetched = Waiting | Response response | MalformedResponse | ConnectionError

datatype client_event = Chunk bytes | End | Fail

fun fetch_step :: "bytes \<times> fetched \<Rightarrow> client_event \<Rightarrow> bytes \<times> fetched" where
  "fetch_step (raw, f) (Chunk c) = (raw @ c, f)"
| "fetch_step (raw, f) End = (raw, if f = Waiting
     then (case parse_response raw of None \<Rightarrow> MalformedResponse | Some r \<Rightarrow> Response r) else f)"
| "fetch_step (raw, f) Fail = (raw, if f = Waiting then ConnectionError else f)"


section \<open>Heads\<close>

lemma index_of_skip: "13 \<notin> set a \<Longrightarrow> index_of (a @ s) (13 # p) = map_option ((+) (length a)) (index_of s ((13 :: byte) # p))"
proof (induction a)
  case (Cons x a)
  then have "\<not> starts_with (x # a @ s) (13 # p)" by (auto simp: starts_with_def)
  then show ?case using Cons by (simp add: option.map_comp o_def)
qed (cases "index_of s (13 # p)"; simp)

lemma head_end_at:
  "ls \<noteq> [] \<Longrightarrow> list_all (\<lambda>l. l \<noteq> [] \<and> 13 \<notin> set l) ls \<Longrightarrow>
   index_of (join_with [13, 10] ls @ head_end @ r) head_end = Some (length (join_with [13, 10] ls))"
proof (induction ls rule: induct_list012)
  case (2 l)
  then show ?case by (simp add: head_end_def index_of_skip starts_with_def)
next
  case (3 l m ls)
  let ?X = "join_with [13, 10] (m # ls) @ head_end @ r"
  obtain x xs where x: "?X = x # xs" "x \<noteq> 13" using 3(4) by (cases m; cases ls) auto
  have "index_of (13 # 10 # ?X) head_end = map_option (\<lambda>i. Suc (Suc i)) (index_of ?X head_end)"
    using x by (simp add: head_end_def starts_with_def option.map_comp o_def)
  then show ?case using 3 by (simp add: head_end_def index_of_skip)
qed simp

lemma encode_join: "ls \<noteq> [] \<Longrightarrow> encode_utf8 (join_with crlf ls) = join_with [13, 10] (map encode_utf8 ls)"
proof (induction ls)
  case (Cons l ls)
  then show ?case using encode_crlf [of l "join_with crlf ls"] by (cases ls) (simp_all add: crlf_def)
qed simp

lemma line_block_join: "ls \<noteq> [] \<Longrightarrow> line_block ls = join_with crlf ls @ crlf"
proof (induction ls)
  case (Cons l ls)
  then show ?case by (cases ls) simp_all
qed simp

lemma split_crlf_last: "13 \<notin> set l \<Longrightarrow> split_crlf l = [l]"
  by (induction l) auto

lemma split_crlf_line: "13 \<notin> set l \<Longrightarrow> split_crlf (l @ crlf @ s) = l # split_crlf s"
  by (induction l) (auto simp: crlf_def starts_with_def)

lemma split_crlf_join: "ls \<noteq> [] \<Longrightarrow> list_all header_line_ok ls \<Longrightarrow> split_crlf (join_with crlf ls) = ls"
proof (induction ls)
  case (Cons l ls)
  then show ?case by (cases ls) (simp_all add: split_crlf_last split_crlf_line header_line_ok_def)
qed simp

text \<open>Where the head of a message ends, and what its lines are.\<close>

definition head_size :: "jsstr list \<Rightarrow> nat" where
  "head_size ls = length (encode_utf8 (join_with crlf ls))"

lemma head_found:
  assumes "ls \<noteq> []" "list_all header_line_ok ls"
  shows "encode_utf8 (line_block ls @ crlf) @ r = encode_utf8 (join_with crlf ls) @ head_end @ r"
    and "index_of (encode_utf8 (line_block ls @ crlf) @ r) head_end = Some (head_size ls)"
    and "split_crlf (decode_utf8 (take (head_size ls) (encode_utf8 (line_block ls @ crlf) @ r))) = ls"
    and "drop (head_size ls + 4) (encode_utf8 (line_block ls @ crlf) @ r) = r"
proof -
  have e: "encode_utf8 (line_block ls @ crlf) = encode_utf8 (join_with crlf ls) @ head_end"
    using encode_crlf [of "join_with crlf ls" crlf] encode_crlf [of "[]" "[]"] assms(1)
    by (simp add: line_block_join head_end_def)
  then show "encode_utf8 (line_block ls @ crlf) @ r = encode_utf8 (join_with crlf ls) @ head_end @ r" by simp
  have "list_all (\<lambda>l. l \<noteq> [] \<and> 13 \<notin> set l) (map encode_utf8 ls)"
    using assms(2) by (auto simp: list_all_iff header_line_ok_def cr_encode_utf8)
  then show "index_of (encode_utf8 (line_block ls @ crlf) @ r) head_end = Some (head_size ls)"
    using assms(1) head_end_at [of "map encode_utf8 ls" r] by (simp add: e encode_join head_size_def)
  show "split_crlf (decode_utf8 (take (head_size ls) (encode_utf8 (line_block ls @ crlf) @ r))) = ls"
    using assms by (simp add: e head_size_def decode_encode_utf8_all split_crlf_join)
  show "drop (head_size ls + 4) (encode_utf8 (line_block ls @ crlf) @ r) = r"
    by (simp add: e head_size_def head_end_def)
qed

lemma head_length4:
  assumes "ls \<noteq> []" "list_all header_line_ok ls"
  shows "length (encode_utf8 (line_block ls @ crlf)) = head_size ls + 4"
  using head_found(1) [OF assms, of "[]"] by (simp add: head_size_def head_end_def)

text \<open>A header whose name and value come back as they are: no colon in the name, no white space around.\<close>

definition field_ok :: "jsstr \<times> hval \<Rightarrow> bool" where
  "field_ok p \<longleftrightarrow> pair_ok p \<and> trim (fst p) = fst p \<and> trim (hval_str (snd p)) = hval_str (snd p)"

lemma field_okE:
  assumes "field_ok p"
  obtains n v where "p = (n, One v)" "name_ok n" "value_ok v" "trim n = n" "trim v = v"
  using assms by (auto simp: field_ok_def elim!: pair_okE)

abbreviation plain_line :: "jsstr \<times> hval \<Rightarrow> jsstr" where
  "plain_line \<equiv> pair_line (js '': '')"

lemma colon_space: "js '': '' = [58, 32]"
  by (simp add: js_def)

lemma field_lines: "concat (map field_line hs) = line_block (map plain_line hs)"
  by (induction hs) (simp_all add: field_line_def pair_line_def)

lemma plain_line_ok: "field_ok p \<Longrightarrow> header_line_ok (plain_line p)"
  by (rule pair_line_ok) (simp_all add: field_ok_def colon_space)

lemma node_field_plain:
  assumes "field_ok p"
  shows "node_field (plain_line p) = Some (fst p, fst p, hval_str (snd p))"
proof -
  obtain n v where p: "p = (n, One v)" "name_ok n" "trim n = n" "trim v = v" using assms by (rule field_okE)
  have l: "plain_line (n, One v) = n @ 58 # 32 # v" by (simp add: pair_line_def colon_space)
  have "index_of_char (n @ 58 # 32 # v) 58 = Some (length n)"
    using p(2) by (intro index_of_char_append) (simp add: name_ok_def)
  moreover have "trim (32 # v) = v" using p(4) by (simp add: trim_def trim_start_def)
  moreover have "to_lower n = n" using p(2) by (simp add: name_ok_def)
  ultimately show ?thesis using p(3) unfolding p(1) by (simp add: node_field_def l del: index_of_char.simps)
qed

lemma node_headers_plain:
  "list_all field_ok hs \<Longrightarrow> distinct (map fst (h @ hs)) \<Longrightarrow>
   node_headers (map plain_line hs) (h, raw) = (h @ hs, raw @ concat (map (\<lambda>p. [fst p, hval_str (snd p)]) hs))"
proof (induction hs arbitrary: h raw)
  case (Cons p hs)
  obtain n v where p: "p = (n, One v)" "name_ok n" using Cons.prems(1) by (auto elim: field_okE)
  have "add_header n v h = h @ [p]" using Cons.prems(2) add_header_fresh [OF p(2), of h v] by (simp add: p)
  then show ?case using Cons.prems Cons.IH [of "h @ [p]" "raw @ [n, v]"] node_field_plain [of p] by (simp add: p)
qed simp

lemma response_fields_plain:
  "list_all field_ok hs \<Longrightarrow> distinct (map fst h @ map fst hs) \<Longrightarrow>
   response_fields (map plain_line hs) h = h @ map (\<lambda>p. (fst p, hval_str (snd p))) hs"
proof (induction hs arbitrary: h)
  case (Cons p hs)
  obtain n v where p: "p = (n, One v)" "name_ok n" using Cons.prems(1) by (auto elim: field_okE)
  have "obj_put n v h = h @ [(n, v)]" using Cons.prems(2) p by (intro obj_put_new) (auto simp: name_ok_def)
  then show ?case using Cons.prems Cons.IH [of "h @ [(n, v)]"] node_field_plain [of p] p(2) by (simp add: p name_ok_def)
qed simp


section \<open>What the server writes is what the client reads\<close>

definition reply_pairs :: "nat \<Rightarrow> header" where
  "reply_pairs n = [(js ''content-length'', One (dec n)), (js ''connection'', One (js ''keep-alive''))]"

lemma trim_id: "s = [] \<or> (\<not> is_space (hd s) \<and> \<not> is_space (last s)) \<Longrightarrow> trim s = s"
proof (cases s rule: rev_cases)
  case (snoc t c)
  assume "s = [] \<or> (\<not> is_space (hd s) \<and> \<not> is_space (last s))"
  with snoc have "\<not> is_space (hd s)" "\<not> is_space c" "s \<noteq> []" by auto
  moreover have "trim_start s = s" using calculation by (cases s) (simp_all add: trim_start_def)
  ultimately show ?thesis using snoc by (simp add: trim_def trim_start_def)
qed (simp add: trim_def trim_start_def)

lemma trim_dec: "trim (dec n) = dec n"
proof (rule trim_id)
  have "\<not> is_space c" if "c \<in> set (dec n)" for c
    using dec_digits(1) [of n] that by (auto simp: list_all_iff is_dec_def is_space_def word_le_nat_alt)
  then show "dec n = [] \<or> (\<not> is_space (hd (dec n)) \<and> \<not> is_space (last (dec n)))" using dec_digits(2) [of n] by simp
qed

lemma reply_names: "name_ok (js ''content-length'')" "name_ok (js ''connection'')" "name_ok (js ''host'')"
  "trim (js ''content-length'') = js ''content-length''" "trim (js ''connection'') = js ''connection''"
  "trim (js ''host'') = js ''host''" "trim (js ''keep-alive'') = js ''keep-alive''" "trim (js ''close'') = js ''close''"
  "value_ok (js ''keep-alive'')" "value_ok (js ''close'')"
  "js ''content-length'' \<noteq> js ''connection''" "js ''host'' \<noteq> js ''connection''" "js ''host'' \<noteq> js ''content-length''"
  "js ''connection'' \<noteq> js ''content-length''"
  by code_simp+

lemma reply_pairs_ok: "list_all field_ok (reply_pairs n)"
  by (simp add: reply_pairs_def field_ok_def reply_names value_ok_dec trim_dec)

text \<open>The headers that the program has set can be written as they are, and the head has no line end of its own.\<close>

definition response_sound :: "server_response \<Rightarrow> bool" where
  "response_sound r \<longleftrightarrow> list_all field_ok (out_headers r) \<and> distinct (map fst (out_headers r))
     \<and> free_of [''content-length'', ''connection''] (out_headers r) \<and> 13 \<notin> set (reason_of r)"

lemma sent_headers_sound:
  assumes "response_sound r"
  shows "sent_headers r = reply_pairs (length (concat (out_chunks r))) @ out_headers r"
    and "list_all field_ok (sent_headers r)" "distinct (map fst (sent_headers r))"
proof -
  have k: "index_key (fst p) = None" if "p \<in> set (out_headers r)" for p
  proof -
    have "field_ok p" using assms that by (simp add: response_sound_def list_all_iff)
    then show ?thesis by (auto simp: name_ok_def elim!: field_okE)
  qed
  have d: "distinct (map fst (reply_pairs n @ out_headers r))" for n
    using assms reply_names by (auto simp: response_sound_def free_of_def reply_pairs_def)
  show s: "sent_headers r = reply_pairs (length (concat (out_chunks r))) @ out_headers r"
    using obj_put_all [of "reply_pairs (length (concat (out_chunks r)))" "out_headers r"] d k
    by (auto simp: sent_headers_def reply_pairs_def list_all_iff)
  show "list_all field_ok (sent_headers r)" "distinct (map fst (sent_headers r))"
    using assms reply_pairs_ok d unfolding s by (simp_all add: response_sound_def)
qed

definition reply_line :: "server_response \<Rightarrow> jsstr" where
  "reply_line r = js ''HTTP/1.1 '' @ dec (statusCode r) @ 32 # reason_of r"

lemma response_head_block:
  "response_head r = line_block (reply_line r # map plain_line (sent_headers r)) @ crlf"
  by (simp add: response_head_def reply_line_def field_lines)

lemma reply_line_ok: "13 \<notin> set (reason_of r) \<Longrightarrow> header_line_ok (reply_line r)"
  using dec_no [OF dec_digits(1), of 13 "statusCode r"] by (auto simp: header_line_ok_def reply_line_def js_def)

lemma reply_line_parts:
  "split_on 32 (reply_line r) = [js ''HTTP/1.1'', dec (statusCode r)] @ split_on 32 (reason_of r)"
proof -
  have "32 \<notin> set (js ''HTTP/1.1'')" by code_simp
  moreover have "32 \<notin> set (dec (statusCode r))" by (intro dec_no dec_digits) simp
  moreover have "reply_line r = js ''HTTP/1.1'' @ 32 # dec (statusCode r) @ 32 # reason_of r"
    by (simp add: reply_line_def js_def)
  ultimately show ?thesis by (simp add: split_on_none)
qed

lemma response_read:
  assumes "response_sound r"
  shows "parse_response (concat (snd (finish False r))) = Some
    \<lparr>r_status = Some (int (statusCode r)), r_reason = reason_of r,
     r_headers = map (\<lambda>p. (fst p, hval_str (snd p))) (reply_pairs (length (concat (out_chunks r))) @ out_headers r),
     r_body = concat (out_chunks r)\<rparr>"
proof -
  let ?ls = "reply_line r # map plain_line (sent_headers r)" let ?b = "concat (out_chunks r)"
  have w: "concat (snd (finish False r)) = encode_utf8 (line_block ?ls @ crlf) @ ?b"
    by (simp add: finish_def Let_def response_head_block)
  have "list_all header_line_ok ?ls"
    using assms sent_headers_sound(2) [OF assms] plain_line_ok reply_line_ok
    by (auto simp: list_all_iff response_sound_def)
  note head = head_found [where ls = ?ls and r = ?b, OF _ this]
  have "response_fields (map plain_line (sent_headers r)) [] = map (\<lambda>p. (fst p, hval_str (snd p))) (sent_headers r)"
    using response_fields_plain [of "sent_headers r" "[]"] sent_headers_sound [OF assms] by simp
  then show ?thesis unfolding w parse_response_def
    using head sent_headers_sound(1) [OF assms] by (simp add: reply_line_parts parse_int_dec join_split_on)
qed

text \<open>
  A response survives the wire: \<open>parseResponse\<close> reads from what \<open>_finish\<close> writes the status, the reason,
  the headers that were set with the two that \<open>_finish\<close> adds, and the bytes of all the chunks in order.
\<close>

theorem node_response_round_trip:
  assumes "response_sound r"
  shows "parse_response (concat (snd (finish False r))) = Some
    \<lparr>r_status = Some (int (statusCode r)), r_reason = reason_of r,
     r_headers = map (\<lambda>p. (fst p, hval_str (snd p))) (reply_pairs (length (concat (out_chunks r))) @ out_headers r),
     r_body = concat (out_chunks r)\<rparr>"
  using assms by (rule response_read)

definition sample_response :: server_response where
  "sample_response = push_chunk [104, 105] (push_chunk [111] (set_header (js ''X-A'') (One (js ''1'')) (write_head 404 NoReason None new_response)))"

theorem node_response_round_trip_witness:
  "parse_response (concat (snd (finish False sample_response))) = Some
    \<lparr>r_status = Some 404, r_reason = js ''Not Found'',
     r_headers = [(js ''content-length'', js ''3''), (js ''connection'', js ''keep-alive''), (js ''x-a'', js ''1'')],
     r_body = [111, 104, 105]\<rparr>"
proof -
  have "response_sound sample_response" by code_simp
  moreover have "statusCode sample_response = 404" "reason_of sample_response = js ''Not Found''"
    "out_chunks sample_response = [[111], [104, 105]]" "out_headers sample_response = [(js ''x-a'', One (js ''1''))]"
     "dec (Suc (Suc (Suc 0))) = js ''3''"
    by code_simp+
  ultimately show ?thesis using node_response_round_trip [of sample_response] by (simp add: reply_pairs_def)
qed

section \<open>What the client writes is what the server reads\<close>

definition request_pairs :: "client_options \<Rightarrow> header" where
  "request_pairs q = (js ''host'', One (target_host q)) # (js ''connection'', One (js ''close'')) # co_headers q"

definition q_method :: "client_options \<Rightarrow> jsstr" where "q_method q = or_default (co_method q) (js ''GET'')"

definition q_path :: "client_options \<Rightarrow> jsstr" where "q_path q = or_default (co_path q) (js ''/'')"

text \<open>
  A request that can be read back: the method in capitals, no white space in the target, plain headers
  without the two that the client writes, and, as the client does not add it, the right
  \<open>content-length\<close> when there is a body.
\<close>

definition request_sound :: "client_options \<Rightarrow> bool" where
  "request_sound q \<longleftrightarrow> list_all is_upper (q_method q) \<and> target_ok (q_path q)
     \<and> list_all field_ok (request_pairs q) \<and> distinct (map fst (request_pairs q))
     \<and> map_of (co_headers q) (js ''content-length'') =
         (if co_body q = [] then None else Some (One (dec (length (co_body q)))))"

definition sent :: "client_options \<Rightarrow> bytes" where
  "sent q = concat (client_writes q)"

definition received_request :: "client_options \<Rightarrow> parsed_request" where
  "received_request q = \<lparr>p_method = q_method q, p_url = q_path q, p_version = js ''1.1'', p_headers = request_pairs q,
     p_raw = concat (map (\<lambda>p. [fst p, hval_str (snd p)]) (request_pairs q)), p_body = co_body q,
     p_consumed = Some (int (length (sent q)))\<rparr>"

lemma q_method_nonempty [simp]: "q_method q \<noteq> []"
  by (simp add: q_method_def or_default_def js_def)

lemma upper_not_space: "is_upper c \<Longrightarrow> \<not> is_space c"
  by (auto simp: is_upper_def is_space_def word_le_nat_alt)

lemma node_request_line_text:
  assumes "list_all is_upper m" "m \<noteq> []" "target_ok u"
  shows "node_request_line (request_text m u) = Some (m, u, js ''1.1'')"
proof -
  let ?r = "32 # u @ js '' HTTP/1.1''" let ?t = "js '' HTTP/1.1''"
  have s: "request_text m u = m @ ?r" by (simp add: request_text_def js_def)
  have "\<not> is_upper 32" by (simp add: is_upper_def)
  then have m: "takeWhile is_upper (m @ ?r) = m"
    using assms(1) by (simp add: takeWhile_append takeWhile_eq_all_conv list_all_iff)
  obtain c cs where c: "u = c # cs" "\<not> is_space c" using assms(3) by (cases u) (auto simp: target_ok_def)
  have r: "dropWhile is_space ?r = u @ ?t" using c by simp
  have "takeWhile (\<lambda>c. \<not> is_space c) ?t = []" by code_simp
  then have u: "takeWhile (\<lambda>c. \<not> is_space c) (u @ ?t) = u"
    using assms(3) by (simp add: target_ok_def takeWhile_append2 list_all_iff)
  have t: "dropWhile is_space ?t = js ''HTTP/1.1''" by code_simp
  have v: "starts_with (js ''HTTP/1.1'') (js ''HTTP/'')" "drop 5 (js ''HTTP/1.1'') = js ''1.1''" "?t \<noteq> js ''HTTP/1.1''"
    "length (js ''1.1'') = 3" "is_dec (js ''1.1'' ! 0)" "js ''1.1'' ! 1 = 46" "is_dec (js ''1.1'' ! 2)" by code_simp+
  have "length ?r \<noteq> length (u @ ?t)" by simp
  then have n: "?r \<noteq> u @ ?t" by metis
  have d: "drop (length m) (m @ ?r) = ?r" "drop (length u) (u @ ?t) = ?t" "u \<noteq> []" using c by simp_all
  show ?thesis unfolding node_request_line_def s Let_def m d r u t v using assms(2) d(3) v n by simp
qed

definition request_head_lines :: "client_options \<Rightarrow> jsstr list" where
  "request_head_lines q = request_text (q_method q) (q_path q) # map plain_line (request_pairs q)"

lemma client_head_block: "client_head q = line_block (request_head_lines q) @ crlf"
  by (simp add: client_head_def request_head_lines_def request_pairs_def request_text_def q_method_def q_path_def field_line_def pair_line_def
    field_lines js_def)

lemma sent_text: "sent q = encode_utf8 (line_block (request_head_lines q) @ crlf) @ co_body q"
  by (simp add: sent_def client_writes_def client_head_block)

lemma request_lines_sound:
  assumes "request_sound q"
  shows "list_all header_line_ok (request_head_lines q)" "request_head_lines q \<noteq> []"
proof -
  have "13 \<notin> set (q_method q)" "13 \<notin> set (q_path q)"
    using assms by (auto simp: request_sound_def list_all_iff is_upper_def target_ok_def is_space_def)
  then have "header_line_ok (request_text (q_method q) (q_path q))"
    by (auto simp: header_line_ok_def request_text_def js_def)
  then show "list_all header_line_ok (request_head_lines q)" "request_head_lines q \<noteq> []"
    using assms plain_line_ok by (auto simp: request_head_lines_def list_all_iff request_sound_def)
qed

lemma request_length:
  assumes "request_sound q"
  shows "node_length (request_pairs q) = Some (int (length (co_body q)))"
proof -
  have n: "dec (length (co_body q)) \<noteq> []" by (simp add: dec_digits)
  have "map_of (request_pairs q) (js ''content-length'') = map_of (co_headers q) (js ''content-length'')"
    using reply_names by (simp add: request_pairs_def)
  then show ?thesis using assms n
    by (simp add: node_length_def hget_def request_sound_def parse_int_dec split: if_splits)
qed

lemma request_headers_read:
  assumes "request_sound q"
  shows "node_headers (map plain_line (request_pairs q)) ([], []) =
    (request_pairs q, concat (map (\<lambda>p. [fst p, hval_str (snd p)]) (request_pairs q)))"
  using assms node_headers_plain [of "request_pairs q" "[]" "[]"] by (simp add: request_sound_def)

text \<open>What the parser finds in any buffer that has a plain head and goes on with \<open>r\<close>.\<close>

lemma parse_block:
  fixes m u :: jsstr and hs :: header and r :: bytes
  assumes "list_all is_upper m" "m \<noteq> []" "target_ok u" "list_all field_ok hs" "distinct (map fst hs)"
  defines "ls \<equiv> request_text m u # map plain_line hs"
  defines "s \<equiv> encode_utf8 (line_block ls @ crlf) @ r"
  defines "stop \<equiv> map_option (\<lambda>k. int (head_size ls) + 4 + k) (node_length hs)"
  shows "parse_request s = (if (case node_length hs of None \<Rightarrow> False | Some k \<Rightarrow> int (length r) < k) then None
     else Some \<lparr>p_method = m, p_url = u, p_version = js ''1.1'', p_headers = hs,
       p_raw = concat (map (\<lambda>p. [fst p, hval_str (snd p)]) hs),
       p_body = sub_bytes s (Some (int (head_size ls) + 4)) stop, p_consumed = stop\<rparr>)"
proof -
  have "13 \<notin> set m" "13 \<notin> set u"
    using assms(1,3) by (auto simp: list_all_iff is_upper_def target_ok_def is_space_def)
  then have "header_line_ok (request_text m u)" by (auto simp: header_line_ok_def request_text_def js_def)
  then have l: "ls \<noteq> []" "list_all header_line_ok ls"
    using assms(4) plain_line_ok by (auto simp: ls_def list_all_iff)
  note h = head_found [where r = r, OF l, folded s_def] head_length4 [OF l]
  have "int (length s) = int (head_size ls) + 4 + int (length r)" using h(5) by (simp add: s_def)
  then have n: "int (length s) - int (head_size ls) - 4 < k \<longleftrightarrow> int (length r) < k" for k by linarith
  show ?thesis unfolding parse_request_def h(2) option.case h(3)
    using node_headers_plain [of hs "[]" "[]"] node_request_line_text [OF assms(1-3)] assms(4,5)
    by (simp add: ls_def Let_def stop_def n [unfolded ls_def] n split: option.split)
qed

lemma parse_head_of:
  assumes "request_sound q"
  shows "parse_request (encode_utf8 (line_block (request_head_lines q) @ crlf) @ r) =
    (if length r < length (co_body q) then None
     else Some ((received_request q)\<lparr>p_body := take (length (co_body q)) r\<rparr>))"
proof -
  let ?ls = "request_head_lines q" let ?e = "head_size ?ls" let ?s = "encode_utf8 (line_block ?ls @ crlf) @ r"
  have l: "list_all header_line_ok ?ls" "?ls \<noteq> []" using request_lines_sound [OF assms] by auto
  note h = head_found [where r = r, OF l(2,1)] head_length4 [OF l(2,1)]
  have len: "length ?s = ?e + 4 + length r" using h(5) by simp
  have b: "sub_bytes ?s (Some (int ?e + 4)) (Some (int ?e + 4 + int (length (co_body q)))) = take (length (co_body q)) r"
    if "length (co_body q) \<le> length r"
  proof -
    have i: "rel_index (length ?s) (Some (int ?e + 4)) = ?e + 4" using len by (simp add: rel_index_def nat_add_distrib)
    have j: "rel_index (length ?s) (Some (int ?e + 4 + int (length (co_body q)))) = ?e + 4 + length (co_body q)"
      using len that by (simp add: rel_index_def nat_add_distrib)
    show ?thesis unfolding sub_bytes_def Let_def i j h(4) by simp
  qed
  have c: "int (length (sent q)) = int ?e + 4 + int (length (co_body q))" using h(5) by (simp add: sent_text)
  show ?thesis
    using parse_block [of "q_method q" "q_path q" "request_pairs q" r] assms request_length [OF assms] b c
    by (simp add: request_sound_def received_request_def flip: request_head_lines_def)
qed

text \<open>
  A request survives the wire: from what the client writes, and whatever follows it, the parser of the
  server takes exactly the request, with method, target, headers and body.
\<close>

lemma parse_sent:
  assumes "request_sound q"
  shows "parse_request (sent q @ rest) = Some (received_request q)"
  using parse_head_of [OF assms, of "co_body q @ rest"] by (simp add: sent_text received_request_def)

lemma parse_sent_part:
  assumes "request_sound q" "prefix b (sent q @ rest)" "length b < length (sent q)"
  shows "parse_request b = None"
proof (cases "index_of b head_end")
  case None
  then show ?thesis by (simp add: parse_request_def)
next
  case (Some e)
  obtain y where y: "sent q @ rest = b @ y" using assms(2) by (auto elim: prefixE)
  let ?ls = "request_head_lines q" let ?H = "encode_utf8 (line_block ?ls @ crlf)"
  note l = request_lines_sound(2,1) [OF assms(1)]
  note h = head_found [where r = "co_body q @ rest", OF l] head_length4 [OF l]
  have "index_of (sent q @ rest) head_end = Some e" using index_of_append [OF Some, of y] y by simp
  then have e: "e = head_size ?ls" using h(2) by (simp add: sent_text)
  have "e + 4 \<le> length b" using index_of_bound [OF Some] by (simp add: head_end_def)
  then have "prefix ?H b" using assms(2) h(5) e prefix_length_prefix [of ?H "sent q @ rest" b] by (simp add: sent_text)
  then obtain r where "b = ?H @ r" by (auto elim: prefixE)
  moreover have "length r < length (co_body q)" using assms(3) calculation by (simp add: sent_text)
  ultimately show ?thesis using parse_head_of [OF assms(1), of r] by simp
qed

section \<open>One request for each chunk\<close>

text \<open>
  What a connection does, without a buffer: of the requests that were sent and the number of bytes that
  have come and belong to no request yet, each chunk takes the next request if the whole of it is there.
\<close>

fun serve :: "client_options list \<Rightarrow> nat \<Rightarrow> bytes list \<Rightarrow> parsed_request option list" where
  "serve qs n [] = []"
| "serve [] n (c # cs) = None # serve [] (n + length c) cs"
| "serve (q # qs) n (c # cs) =
     (let m = n + length c
      in if length (sent q) \<le> m then Some (received_request q) # serve qs (m - length (sent q)) cs
         else None # serve (q # qs) m cs)"

lemma consumed_all:
  assumes "length (sent q) \<le> length b" "prefix b (sent q @ rest)"
  shows "\<exists>r. b = sent q @ r \<and> prefix r rest \<and>
    sub_bytes b (p_consumed (received_request q)) (Some (int (length b))) = r"
proof -
  have "prefix (sent q) b" using assms prefix_length_prefix [of "sent q" "sent q @ rest" b] by simp
  then obtain r where "b = sent q @ r" by (auto elim: prefixE)
  then show ?thesis using assms(2) by (auto simp: sub_bytes_def received_request_def rel_index_def Let_def)
qed

lemma serve_run:
  "list_all request_sound qs \<Longrightarrow> prefix (b0 @ concat cs) (concat (map sent qs)) \<Longrightarrow>
   snd (run_abstract on_chunk b0 cs) = serve qs (length b0) cs"
proof (induction cs arbitrary: qs b0)
  case (Cons c cs)
  show ?case
  proof (cases qs)
    case Nil
    have "on_chunk [] [] = ([], None)" by (simp add: on_chunk_def parse_request_def head_end_def)
    moreover obtain t xs where "run_abstract on_chunk [] cs = (t, xs)" by fastforce
    ultimately show ?thesis using Nil Cons.prems Cons.IH [of "[]" "[]"] by simp
  next
    case (Cons q qs')
    have q: "request_sound q" and qs': "list_all request_sound qs'" using Cons.prems(1) Cons by simp_all
    have p: "prefix (b0 @ c) (sent q @ concat (map sent qs'))"
      using Cons.prems(2) Cons by (metis append.assoc append_prefixD concat.simps(2) list.map(2))
    show ?thesis
    proof (cases "length (sent q) \<le> length (b0 @ c)")
      case True
      from consumed_all [OF True p] obtain r where r: "b0 @ c = sent q @ r"
        "sub_bytes (b0 @ c) (p_consumed (received_request q)) (Some (int (length (b0 @ c)))) = r" by blast
      have s: "on_chunk b0 c = (r, Some (received_request q))"
        using r parse_sent [OF q, of r] by (simp add: on_chunk_def)
      have "prefix (r @ concat cs) (concat (map sent qs'))"
      proof -
        have "prefix ((b0 @ c) @ concat cs) (sent q @ concat (map sent qs'))" using Cons.prems(2) Cons by simp
        then show ?thesis unfolding r(1) by simp
      qed
      from Cons.IH [OF qs' this] have run: "snd (run_abstract on_chunk r cs) = serve qs' (length r) cs" .
      have n: "length b0 + length c - length (sent q) = length r" using arg_cong [OF r(1), of length] by simp
      have "serve qs (length b0) (c # cs) = Some (received_request q) # serve qs' (length r) cs"
        using True n by (simp add: Cons Let_def)
      moreover have "snd (run_abstract on_chunk b0 (c # cs)) = Some (received_request q) # snd (run_abstract on_chunk r cs)"
        by (simp add: s split: prod.split)
      ultimately show ?thesis using run by simp
    next
      case False
      then have s: "on_chunk b0 c = (b0 @ c, None)"
        using parse_sent_part [OF q p] by (simp add: on_chunk_def)
      have "prefix ((b0 @ c) @ concat cs) (concat (map sent qs))" using Cons.prems(2) by simp
      from Cons.IH [OF Cons.prems(1) this]
      have run: "snd (run_abstract on_chunk (b0 @ c) cs) = serve qs (length b0 + length c) cs" by simp
      have "serve qs (length b0) (c # cs) = None # serve qs (length b0 + length c) cs"
        using False by (simp add: Cons Let_def)
      moreover have "snd (run_abstract on_chunk b0 (c # cs)) = None # snd (run_abstract on_chunk (b0 @ c) cs)"
        by (simp add: s split: prod.split)
      ultimately show ?thesis using run by simp
    qed
  qed
qed simp

text \<open>C10. 
  However the network cuts what the clients of a connection send, the server gets the requests in order,
  each whole and none twice: with every chunk the next one, if all of it has come.
\<close>

theorem node_server_serves:
  assumes "list_all request_sound qs" "prefix (concat cs) (concat (map sent qs))"
  shows "snd (run_abstract on_chunk [] cs) = serve qs 0 cs"
  using serve_run [OF assms(1), of "[]" cs] assms(2) by simp

definition sample_get :: client_options where
  "sample_get = \<lparr>co_hostname = [], co_host = js ''h'', co_port = 0, co_https = False, co_path = js ''/a'',
     co_method = [], co_headers = [], co_body = []\<rparr>"

definition sample_post :: client_options where
  "sample_post = sample_get\<lparr>co_method := js ''POST'', co_headers := [(js ''content-length'', One (js ''2''))], co_body := [104, 105]\<rparr>"

theorem node_server_serves_witness:
  "snd (run_abstract on_chunk [] [take 9 (sent sample_post), drop 9 (sent sample_post) @ sent sample_get, []]) =
     [None, Some (received_request sample_post), Some (received_request sample_get)]"
proof -
  let ?cs = "[take 9 (sent sample_post), drop 9 (sent sample_post) @ sent sample_get, []]"
  have s: "list_all request_sound [sample_post, sample_get]" by code_simp
  have l: "9 < length (sent sample_post)" by code_simp
  have "serve [sample_post, sample_get] 0 ?cs = [None, Some (received_request sample_post), Some (received_request sample_get)]"
    using l by (simp add: Let_def)
  moreover have "prefix (concat ?cs) (concat (map sent [sample_post, sample_get]))"
    by (simp flip: append_assoc)
  ultimately show ?thesis using node_server_serves [OF s, of ?cs] by simp
qed

text \<open>Two requests in one chunk: the second one waits until the connection delivers something else.\<close>

lemma second_request_waits:
  "snd (run_abstract on_chunk [] [sent sample_get @ sent sample_get]) = [Some (received_request sample_get)]"
proof -
  have "list_all request_sound [sample_get, sample_get]" by code_simp
  from serve_run [OF this, of "[]" "[sent sample_get @ sent sample_get]"] show ?thesis by (simp add: Let_def)
qed

text \<open>
  A body for which the program does not give the \<open>content-length\<close> is lost: the server takes the request
  without it and keeps the body for the start of the next one. A length that is no number leaves the
  request in the buffer, and the next chunk delivers it again.
\<close>

lemma body_without_length:
  assumes "list_all is_upper m" "m \<noteq> []" "target_ok u" "list_all field_ok hs" "distinct (map fst hs)"
    and "map_of hs (js ''content-length'') = None"
  shows "map_option p_body (parse_request (encode_utf8 (line_block (request_text m u # map plain_line hs) @ crlf) @ r)) = Some []"
  using assms parse_block [OF assms(1-5), of r] by (simp add: node_length_def hget_def sub_bytes_def)

lemma length_not_a_number:
  assumes "list_all is_upper m" "m \<noteq> []" "target_ok u"
  shows "map_option p_consumed (parse_request (encode_utf8 (line_block
     (request_text m u # map plain_line [(js ''content-length'', One (js ''x''))]) @ crlf) @ r)) = Some None"
proof -
  have "field_ok (js ''content-length'', One (js ''x''))" "node_length [(js ''content-length'', One (js ''x''))] = None"
    by code_simp+
  then show ?thesis using assms parse_block [of m u "[(js ''content-length'', One (js ''x''))]" r] by simp
qed

text \<open>
  The client waits for the end of the connection, so its promise is resolved by that event only; the
  server does not end a connection after a response.
\<close>

lemma client_waits_for_end:
  "End \<notin> set es \<Longrightarrow> Fail \<notin> set es \<Longrightarrow> snd (foldl fetch_step (raw, Waiting) es) = Waiting"
proof (induction es arbitrary: raw)
  case (Cons e es)
  then show ?case by (cases e) auto
qed simp

text \<open>The promise settles once, with the first end or error.\<close>

lemma client_settles_once:
  "f \<noteq> Waiting \<Longrightarrow> snd (foldl fetch_step (raw, f) es) = f"
proof (induction es arbitrary: raw)
  case (Cons e es)
  then show ?case by (cases e) auto
qed simp

end
