(* ===== verification/Net_Socket.thy ===== *)
theory Net_Socket
  imports Net_Core
begin

text \<open>
  \<open>js/builtins/net.js\<close>, the Node facade of sockets: a \<open>Socket\<close> turns the callbacks of \<open>net-core.js\<close> into
  events and closes itself when it was idle for too long. Its listeners are code of the program and may
  call the methods of the socket at every event, so a socket is a machine with a list of the tasks that
  are still to be done; a program says which methods are called after which history. Listeners do not
  throw here.
\<close>

section \<open>The socket\<close>

text \<open>
  What is registered for the socket in \<open>net-core.js\<close>: nothing, the callback of \<open>connect\<close>, or those of
  \<open>start\<close>. \<open>sock_id\<close> is the number the C layer gave, and \<open>fd\<close> the field \<open>_fd\<close>, which has it only after the
  connection. The timers of the event loop that are still armed are \<open>live\<close>.
\<close>

datatype hooks = NoHooks | ConnectHook | AllHooks

datatype net_event = Connect | Connection | Chunk bytes | End | Close bool | ErrorEvent | Timeout | Finish
  | Called bool  \<comment> \<open>a callback of the program, with an error or without\<close>

datatype net_out = Emitted net_event | Wrote int bytes | ClosedFd int

record net_socket =
  connecting :: bool
  destroyed :: bool
  sock_id :: int
  fd :: int
  timeout :: int
  timeoutId :: "nat option"
  live :: "nat list"
  next_timer :: nat
  hooked :: hooks
  trace :: "net_out list"

text \<open>Where a function stands among the arguments of \<open>end\<close>.\<close>

datatype callback_place = NoCallback | AsEncoding | AsCallback

datatype net_op = Write bytes bool | Finishing "bytes option" callback_place | SetTimeout int | Destroy bool

datatype task = Emit net_event | Do net_op | ArmTimeout | Pump | MarkDestroyed

definition log :: "net_out \<Rightarrow> net_socket \<Rightarrow> net_socket" where
  "log x s = s\<lparr>trace := trace s @ [x]\<rparr>"

definition drop_timer :: "net_socket \<Rightarrow> net_socket" where
  "drop_timer s = (case timeoutId s of None \<Rightarrow> s | Some t \<Rightarrow> s\<lparr>live := filter (\<lambda>u. u \<noteq> t) (live s)\<rparr>)"

definition arm_timeout :: "net_socket \<Rightarrow> net_socket" where
  "arm_timeout s =
     (if timeout s \<le> 0 then s
      else s\<lparr>timeoutId := Some (next_timer s), live := live s @ [next_timer s], next_timer := Suc (next_timer s)\<rparr>)"

definition refresh_timeout :: "net_socket \<Rightarrow> net_socket" where
  "refresh_timeout s = arm_timeout (drop_timer s)"

text \<open>\<open>netCore.close(this._fd)\<close>: the callbacks are gone when the field has the number of the socket.\<close>

definition close_number :: "net_socket \<Rightarrow> net_socket" where
  "close_number s = log (ClosedFd (fd s)) (if fd s = sock_id s then s\<lparr>hooked := NoHooks\<rparr> else s)"

text \<open>The methods: the new state, and what is left to do before the method returns.\<close>

fun perform :: "net_op \<Rightarrow> net_socket \<Rightarrow> net_socket \<times> task list" where
  "perform (Write d cb) s =
     (if destroyed s then (s, [Emit (if cb then Called True else ErrorEvent)])
      else (log (Wrote (fd s) d) (refresh_timeout s), if cb then [Emit (Called False)] else []))"
| "perform (Finishing d cb) s =
     (s, (case d of None \<Rightarrow> [] | Some b \<Rightarrow> [Do (Write b (cb = AsEncoding))]) @ [Emit Finish, Do (Destroy False)]
       @ (if cb = NoCallback then [] else [Emit (Called False)]))"
| "perform (SetTimeout ms) s = (refresh_timeout (s\<lparr>timeout := ms\<rparr>), [])"
| "perform (Destroy err) s =
     (if destroyed s then (s, [])
      else (close_number ((case timeoutId s of None \<Rightarrow> s\<lparr>destroyed := True\<rparr>
                | Some t \<Rightarrow> (drop_timer s)\<lparr>destroyed := True, timeoutId := None\<rparr>)),
            (if err then [Emit ErrorEvent] else []) @ [Emit (Close err)]))"

text \<open>
  A task: an event is noted and its listeners run, in the order of their calls; the rest are the lines of
  the callbacks after an \<open>emit\<close>.
\<close>

type_synonym net_program = "net_out list \<Rightarrow> net_op list"

fun run_task :: "net_program \<Rightarrow> task \<Rightarrow> net_socket \<Rightarrow> net_socket \<times> task list" where
  "run_task P (Emit e) s = (let s' = log (Emitted e) s in (s', map Do (P (trace s'))))"
| "run_task P (Do a) s = perform a s"
| "run_task P ArmTimeout s = (arm_timeout s, [])"
| "run_task P Pump s = (s\<lparr>hooked := AllHooks\<rparr>, [])"
| "run_task P MarkDestroyed s = (s\<lparr>destroyed := True\<rparr>, [])"

text \<open>
  What comes from the outside when no code is running: the callbacks of \<open>net-core.js\<close>, as far as they are
  registered, the timers, the microtask of a \<open>connect\<close> that failed at once, and the program on its own.
\<close>

datatype outside = Connected | Incoming bytes | RemoteClose | RemoteError | TimerFires nat | Refused | ProgramCalls net_op

fun external :: "outside \<Rightarrow> net_socket \<Rightarrow> net_socket \<times> task list" where
  "external Connected s =
     (if hooked s = ConnectHook then (s\<lparr>connecting := False, fd := sock_id s\<rparr>, [Emit Connect, ArmTimeout, Pump]) else (s, []))"
| "external (Incoming d) s = (if hooked s = AllHooks then (refresh_timeout s, [Emit (Chunk d)]) else (s, []))"
| "external RemoteClose s =
     (s\<lparr>hooked := NoHooks\<rparr>, if hooked s = AllHooks then [Emit End, Emit (Close False), MarkDestroyed] else [])"
| "external RemoteError s = (s\<lparr>hooked := NoHooks\<rparr>, if hooked s = AllHooks then [Emit ErrorEvent] else [])"
| "external (TimerFires t) s =
     (if t \<in> set (live s) then (s\<lparr>live := filter (\<lambda>u. u \<noteq> t) (live s)\<rparr>, [Emit Timeout, Do (Destroy True)]) else (s, []))"
| "external Refused s = (s, if sock_id s < 0 then [Emit ErrorEvent] else [])"
| "external (ProgramCalls a) s = (s, [Do a])"

text \<open>A step of the machine: the next task, or something from the outside when there is none.\<close>

datatype net_input = Continue | Outside outside

fun net_step :: "net_program \<Rightarrow> net_socket \<times> task list \<Rightarrow> net_input \<Rightarrow> net_socket \<times> task list" where
  "net_step P (s, t # ts) Continue = (case run_task P t s of (s', new) \<Rightarrow> (s', new @ ts))"
| "net_step P (s, []) (Outside x) = external x s"
| "net_step P c i = c"

text \<open>A socket after \<open>connect\<close>, to which the C layer answered \<open>i\<close>, and one that the server has accepted.\<close>

definition blank_socket :: net_socket where
  "blank_socket = \<lparr>connecting = False, destroyed = False, sock_id = -1, fd = -1, timeout = 0, timeoutId = None, live = [],
     next_timer = 0, hooked = NoHooks, trace = []\<rparr>"

definition dial :: "int \<Rightarrow> net_socket \<times> task list" where
  "dial i = (blank_socket\<lparr>connecting := True, sock_id := i, hooked := (if i < 0 then NoHooks else ConnectHook)\<rparr>, [])"

definition accept_socket :: "nat \<Rightarrow> net_socket \<times> task list" where
  "accept_socket i = (blank_socket\<lparr>sock_id := int i, fd := int i\<rparr>, [Emit Connection, Pump])"

section \<open>The server\<close>

record net_server =
  listening :: bool
  server_fd :: int
  connections :: nat

datatype server_out = ServerListening | ServerClosed | ServerConnection nat

definition new_server :: net_server where
  "new_server = \<lparr>listening = False, server_fd = -1, connections = 0\<rparr>"

text \<open>\<open>listen\<close>, where the C layer answers \<open>r\<close>; the callback of an accepted connection; \<open>close\<close>.\<close>

definition server_listen :: "int \<Rightarrow> net_server \<Rightarrow> net_server \<times> server_out list" where
  "server_listen r S = (S\<lparr>server_fd := r, listening := 0 \<le> r\<rparr>, [ServerListening])"

definition server_accept :: "nat \<Rightarrow> net_server \<Rightarrow> net_server \<times> server_out list" where
  "server_accept i S = (S\<lparr>connections := Suc (connections S)\<rparr>, [ServerConnection i])"

definition server_close :: "net_server \<Rightarrow> net_server \<times> server_out list" where
  "server_close S = (S\<lparr>listening := False\<rparr>, [ServerClosed])"

section \<open>The life of a socket\<close>

text \<open>
  The order in which the events of a connection come: first the connection, then data, at most one end,
  at most one close, and nothing of these after it. The other events may come at any time.
\<close>

datatype stage = Fresh | Alive | Ended | Gone | Wrong

fun advance :: "stage \<Rightarrow> net_out \<Rightarrow> stage" where
  "advance g (Emitted Connect) = (if g = Fresh then Alive else Wrong)"
| "advance g (Emitted Connection) = (if g = Fresh then Alive else Wrong)"
| "advance g (Emitted (Chunk d)) = (if g = Alive then Alive else Wrong)"
| "advance g (Emitted End) = (if g = Alive then Ended else Wrong)"
| "advance g (Emitted (Close b)) = (if g = Gone \<or> g = Wrong then Wrong else Gone)"
| "advance g _ = g"

definition stage_of :: "net_out list \<Rightarrow> stage" where
  "stage_of xs = foldl advance Fresh xs"

fun lifely :: "task \<Rightarrow> net_out list" where
  "lifely (Emit e) = (if advance Fresh (Emitted e) = Fresh then [] else [Emitted e])"
| "lifely _ = []"

definition coming :: "task list \<Rightarrow> net_out list" where
  "coming ts = concat (map lifely ts)"

text \<open>
  A program is orderly when it does not destroy a socket that is being connected, in the listener of
  \<open>connect\<close> or \<open>connection\<close>, or in the listeners of the close of the other side.
\<close>

fun net_legal :: "net_socket \<times> task list \<Rightarrow> net_input \<Rightarrow> bool" where
  "net_legal (s, Do (Destroy b) # ts) Continue =
     (destroyed s \<or> (hooked s \<noteq> ConnectHook \<and> Pump \<notin> set ts \<and> MarkDestroyed \<notin> set ts))"
| "net_legal _ _ = True"

definition pumps :: "task list \<Rightarrow> nat" where
  "pumps ts = length (filter (\<lambda>t. t = Pump) ts)"

text \<open>
  How the stage that the pending events lead to, the callbacks, the flag and the pending tasks go together.
\<close>

definition life_ok :: "stage \<Rightarrow> hooks \<Rightarrow> bool \<Rightarrow> nat \<Rightarrow> bool \<Rightarrow> bool" where
  "life_ok g h gone n mark \<longleftrightarrow> g \<noteq> Wrong \<and> n \<le> 1
     \<and> (h = ConnectHook \<and> n = 0 \<longrightarrow> g = Fresh)
     \<and> (n = 1 \<longrightarrow> g = Alive \<and> h \<noteq> AllHooks)
     \<and> (h = AllHooks \<longrightarrow> g = Alive)
     \<and> (mark \<or> gone \<longleftrightarrow> g = Gone) \<and> (g = Gone \<longrightarrow> h = NoHooks)"

definition net_inv :: "net_socket \<times> task list \<Rightarrow> bool" where
  "net_inv c \<longleftrightarrow> (case c of (s, ts) \<Rightarrow>
     life_ok (stage_of (trace s @ coming ts)) (hooked s) (destroyed s) (pumps ts) (MarkDestroyed \<in> set ts)
     \<and> (destroyed s \<or> MarkDestroyed \<in> set ts \<or> coming (tl ts) = []))"


lemma stage_Nil [simp]: "stage_of [] = Fresh"
  by (simp add: stage_of_def)

lemma stage_append: "stage_of (xs @ ys) = foldl advance (stage_of xs) ys"
  by (simp add: stage_of_def)

lemma wrong_stays: "foldl advance Wrong xs = Wrong"
proof (induction xs)
  case (Cons x xs)
  have "advance Wrong x = Wrong" by (cases "(Wrong, x)" rule: advance.cases) simp_all
  then show ?case using Cons by simp
qed simp

lemma not_lifely: "lifely (Emit e) = [] \<Longrightarrow> advance g (Emitted e) = g"
  by (cases e) auto

lemma is_lifely: "lifely (Emit e) \<noteq> [] \<Longrightarrow> lifely (Emit e) = [Emitted e]"
  by (simp split: if_splits)

lemma coming_simps [simp]:
  "coming [] = []" "coming (t # ts) = lifely t @ coming ts" "coming (ts @ us) = coming ts @ coming us"
  "coming (map Do as) = []"
  by (simp_all add: coming_def comp_def)

lemma not_in_dos [simp]: "MarkDestroyed \<notin> Do ` A"
  by auto

lemma pumps_simps [simp]:
  "pumps [] = 0" "pumps (t # ts) = (if t = Pump then Suc (pumps ts) else pumps ts)" "pumps (ts @ us) = pumps ts + pumps us"
  "pumps (map Do as) = 0"
  by (simp_all add: pumps_def filter_empty_conv)

lemma coming_tl: "coming ts = [] \<Longrightarrow> coming (tl ts) = []"
  by (cases ts) simp_all

lemma emit_stage: "foldl advance (advance g (Emitted e)) (coming ts) = foldl advance g (lifely (Emit e) @ coming ts)"
  using not_lifely [of e g] is_lifely [of e] by (cases "lifely (Emit e) = []") (auto simp del: lifely.simps)

lemma inv_emit:
  assumes "net_inv (s, Emit e # ts)"
  shows "net_inv (net_step P (s, Emit e # ts) Continue)"
proof -
  let ?s = "log (Emitted e) s"
  have g: "stage_of (trace ?s @ coming (map Do (P (trace ?s)) @ ts)) = stage_of (trace s @ coming (Emit e # ts))"
    using emit_stage [of "stage_of (trace s)" e ts] by (simp add: log_def stage_append del: lifely.simps)
  have "net_step P (s, Emit e # ts) Continue = (?s, map Do (P (trace ?s)) @ ts)" by (simp add: Let_def)
  moreover have "coming (tl (map Do (P (trace ?s)) @ ts)) = []" if "coming ts = []"
    using that coming_tl [of ts] by (cases "P (trace ?s)") auto
  ultimately show ?thesis using assms coming_tl [of ts] g unfolding net_inv_def
    by (auto simp: log_def simp del: coming_simps(2,3) lifely.simps)
qed


lemma neutral [simp]: "stage_of (xs @ Wrote n d # ys) = stage_of (xs @ ys)" "stage_of (xs @ ClosedFd n # ys) = stage_of (xs @ ys)"
  by (simp_all add: stage_of_def)

lemma timer_fields [simp]:
  "trace (drop_timer s) = trace s" "hooked (drop_timer s) = hooked s" "destroyed (drop_timer s) = destroyed s"
  "sock_id (drop_timer s) = sock_id s" "fd (drop_timer s) = fd s"
  "trace (arm_timeout s) = trace s" "hooked (arm_timeout s) = hooked s" "destroyed (arm_timeout s) = destroyed s"
  "sock_id (arm_timeout s) = sock_id s" "fd (arm_timeout s) = fd s"
  "trace (refresh_timeout s) = trace s" "hooked (refresh_timeout s) = hooked s" "destroyed (refresh_timeout s) = destroyed s"
  "sock_id (refresh_timeout s) = sock_id s" "fd (refresh_timeout s) = fd s"
  by (simp_all add: drop_timer_def arm_timeout_def refresh_timeout_def split: option.split)

lemma close_fields:
  "trace (close_number s) = trace s @ [ClosedFd (fd s)]" "destroyed (close_number s) = destroyed s"
  "hooked (close_number s) = (if fd s = sock_id s then NoHooks else hooked s)"
  by (simp_all add: close_number_def log_def)

text \<open>The number of the socket is in the field whenever its callbacks are registered, but for those of \<open>connect\<close>.\<close>

definition fd_inv :: "net_socket \<times> task list \<Rightarrow> bool" where
  "fd_inv c \<longleftrightarrow> (case c of (s, ts) \<Rightarrow> hooked s = AllHooks \<or> Pump \<in> set ts \<longrightarrow> fd s = sock_id s)"

lemma fd_close [simp]: "fd (close_number s) = fd s" "sock_id (close_number s) = sock_id s" "fd (log x s) = fd s"
  "sock_id (log x s) = sock_id s" "hooked (log x s) = hooked s" "destroyed (log x s) = destroyed s"
  by (simp_all add: close_number_def log_def)

lemma perform_tasks: "Pump \<notin> set (snd (perform a s))" "MarkDestroyed \<notin> set (snd (perform a s))"
  "pumps (snd (perform a s)) = 0"
  by (cases a; auto split: option.split)+

lemma perform_fields: "fd (fst (perform a s)) = fd s" "sock_id (fst (perform a s)) = sock_id s"
  "hooked (fst (perform a s)) \<in> {hooked s, NoHooks}"
  by (cases a; auto simp: close_fields split: option.split)+

lemma fd_inv_step:
  assumes "fd_inv c"
  shows "fd_inv (net_step P c i)"
proof -
  obtain s ts where c: "c = (s, ts)" by (cases c)
  show ?thesis
  proof (cases i)
    case Continue
    show ?thesis
    proof (cases ts)
      case (Cons t us)
      then show ?thesis
      proof (cases t)
        case (Do a)
        then show ?thesis using assms c Cons Continue perform_fields [of a s] perform_tasks [of a s]
          by (auto simp: fd_inv_def split: prod.split)
      qed (use assms c Continue in \<open>auto simp: fd_inv_def Let_def\<close>)
    qed (use assms c Continue in simp)
  next
    case (Outside x)
    then show ?thesis using assms c by (cases ts; cases x) (auto simp: fd_inv_def)
  qed
qed

lemma inv_do:
  assumes "net_inv (s, Do a # ts)" "net_legal (s, Do a # ts) Continue" "fd_inv (s, Do a # ts)"
  shows "net_inv (net_step P (s, Do a # ts) Continue)"
proof (cases "\<exists>b. a = Destroy b \<and> \<not> destroyed s")
  case True
  then obtain b where a: "a = Destroy b" "\<not> destroyed s" by blast
  have l: "hooked s \<noteq> ConnectHook" "pumps ts = 0" "MarkDestroyed \<notin> set ts" "coming ts = []"
    using assms(1,2) a by (auto simp: net_inv_def pumps_def filter_empty_conv)
  then have g: "stage_of (trace s) \<noteq> Wrong" "stage_of (trace s) \<noteq> Gone"
    using assms(1) a by (auto simp: net_inv_def life_ok_def)
  have n: "fd s = sock_id s \<or> hooked s = NoHooks" using assms(3) l(1) by (cases "hooked s") (auto simp: fd_inv_def)
  obtain s' where s': "net_step P (s, Do a # ts) Continue = (s', (if b then [Emit ErrorEvent] else []) @ [Emit (Close b)] @ ts)"
    "trace s' = trace s @ [ClosedFd (fd s)]" "destroyed s'" "hooked s' = NoHooks"
    using a n by (cases "timeoutId s") (auto simp: close_fields)
  have "stage_of (trace s' @ coming ((if b then [Emit ErrorEvent] else []) @ [Emit (Close b)] @ ts)) = Gone"
    using g l(4) by (simp add: s'(2) stage_append)
  then show ?thesis unfolding s'(1) net_inv_def
    using l s'(3,4) by (simp add: life_ok_def)
next
  case False
  obtain s' new where p: "perform a s = (s', new)" by fastforce
  have "hooked s' = hooked s" "destroyed s' = destroyed s" "coming new = []"
    "stage_of (trace s' @ coming ts) = stage_of (trace s @ coming ts)"
    using False p by (cases a; auto simp: log_def split: if_splits option.splits)+
  moreover have "coming (tl (new @ ts)) = []" if "coming ts = []"
    using that coming_tl [of ts] \<open>coming new = []\<close> coming_tl [of new] by (cases new) auto
  ultimately show ?thesis using assms(1) p perform_tasks [of a s] by (auto simp: net_inv_def)
qed

lemma inv_external:
  assumes "net_inv (s, [])"
  shows "net_inv (external x s)"
  using assms by (cases x; cases "hooked s") (auto simp: net_inv_def life_ok_def stage_append)

lemma net_inv_step:
  assumes "net_inv c" "fd_inv c" "net_legal c i"
  shows "net_inv (net_step P c i)"
proof -
  obtain s ts where c: "c = (s, ts)" by (cases c)
  show ?thesis
  proof (cases i)
    case Continue
    show ?thesis
    proof (cases ts)
      case (Cons t us)
      then show ?thesis
      proof (cases t)
        case (Emit e)
        then show ?thesis using inv_emit [of s e us P] assms(1) c Cons Continue by simp
      next
        case (Do a)
        then show ?thesis using inv_do [of s a us P] assms c Cons Continue by simp
      next
        case ArmTimeout
        then show ?thesis using assms(1) c Cons Continue coming_tl [of us] by (auto simp: net_inv_def)
      next
        case Pump
        then show ?thesis using assms(1) c Cons Continue coming_tl [of us] by (auto simp: net_inv_def life_ok_def)
      next
        case MarkDestroyed
        then show ?thesis using assms(1) c Cons Continue by (auto simp: net_inv_def life_ok_def)
      qed
    qed (use assms c Continue in simp)
  next
    case (Outside x)
    then show ?thesis using assms c inv_external [of s x] by (cases ts) auto
  qed
qed

interpretation net_socket: guarded_component "net_step P" "\<lambda>c. net_inv c \<and> fd_inv c" net_legal for P
  by unfold_locales (auto intro: net_inv_step fd_inv_step)

lemma start_inv: "net_inv (dial i) \<and> fd_inv (dial i)" "net_inv (accept_socket n) \<and> fd_inv (accept_socket n)"
  by (auto simp: dial_def accept_socket_def net_inv_def fd_inv_def life_ok_def blank_socket_def stage_of_def)

text \<open>C38. 
  The life of a socket: whatever comes from the network, the timers and the listeners, the events of a
  connection come in their order. Data comes only between the connection and the end or the close, and
  the close at most once and as the last of them. The program is orderly, in the sense above.
\<close>

theorem socket_life:
  assumes "c \<in> {dial i, accept_socket n}" "legal_run (net_step P) net_legal c ins"
  shows "stage_of (trace (fst (foldl (net_step P) c ins))) \<noteq> Wrong"
proof -
  have "net_inv c \<and> fd_inv c" using assms(1) start_inv by auto
  from net_socket.run_legal [OF this assms(2)] have "net_inv (foldl (net_step P) c ins)" by simp
  moreover obtain s ts where r: "foldl (net_step P) c ins = (s, ts)" by (rule prod.exhaust)
  ultimately have "net_inv (s, ts)" by (simp only:)
  then have "stage_of (trace s @ coming ts) \<noteq> Wrong" unfolding net_inv_def life_ok_def prod.case by blast
  then have "stage_of (trace s) \<noteq> Wrong" using wrong_stays [of "coming ts"] by (metis stage_append)
  then show ?thesis using r by simp
qed

text \<open>A client that writes when it is connected and ends the connection when it has data.\<close>

definition polite :: net_program where
  "polite xs = (case last xs of Emitted Connect \<Rightarrow> [Write [1] False] | Emitted (Chunk d) \<Rightarrow> [Finishing None NoCallback] | _ \<Rightarrow> [])"

definition polite_run :: "net_input list" where
  "polite_run = [Outside Connected] @ replicate 4 Continue @ [Outside (Incoming [7])] @ replicate 5 Continue @ [Outside (Incoming [8])]"

theorem socket_life_witness:
  "stage_of (trace (fst (foldl (net_step polite) (dial 5) polite_run))) \<noteq> Wrong
   \<and> trace (fst (foldl (net_step polite) (dial 5) polite_run)) =
       [Emitted Connect, Wrote 5 [1], Emitted (Chunk [7]), Emitted Finish, ClosedFd 5, Emitted (Close False)]"
proof -
  have "legal_run (net_step polite) net_legal (dial 5) polite_run"
    and t: "trace (fst (foldl (net_step polite) (dial 5) polite_run)) =
       [Emitted Connect, Wrote 5 [1], Emitted (Chunk [7]), Emitted Finish, ClosedFd 5, Emitted (Close False)]"
    by code_simp+
  then show ?thesis using socket_life [of "dial 5" 5 0 polite polite_run] by simp
qed

section \<open>Where the facade goes wrong\<close>

definition on_event :: "net_event \<Rightarrow> net_op list \<Rightarrow> net_program" where
  "on_event e as xs = (if last xs = Emitted e then as else [])"

text \<open>
  Destroyed while it is being connected, a socket is connected all the same: the call of \<open>net-core.js\<close> is
  for the number -1. Destroyed in the listener of \<open>connect\<close>, it is registered again after it was closed.
\<close>

lemma destroyed_then_connected:
  "trace (fst (foldl (net_step (\<lambda>_. [])) (dial 5)
     ([Outside (ProgramCalls (Destroy False))] @ replicate 2 Continue @ [Outside Connected] @ replicate 3 Continue @ [Outside (Incoming [7]), Continue])))
   = [ClosedFd (-1), Emitted (Close False), Emitted Connect, Emitted (Chunk [7])]"
  by code_simp

lemma destroyed_in_connect:
  "hooked (fst (foldl (net_step (on_event Connect [Destroy False])) (dial 5) (Outside Connected # replicate 5 Continue))) = AllHooks"
  by code_simp

text \<open>Destroyed in the listener of \<open>end\<close>, it is closed twice.\<close>

lemma close_comes_twice:
  "trace (fst (foldl (net_step (on_event End [Destroy False])) (dial 5)
     ([Outside Connected] @ replicate 3 Continue @ [Outside RemoteClose] @ replicate 5 Continue)))
   = [Emitted Connect, Emitted End, ClosedFd 5, Emitted (Close False), Emitted (Close False)]"
  by code_simp

text \<open>
  A timeout that is set before the connection: the timer is armed twice, and the first one is never
  cleared. It destroys the socket while data is coming in.
\<close>

lemma forgotten_timer:
  "trace (fst (foldl (net_step (\<lambda>_. [])) (dial 5)
     ([Outside (ProgramCalls (SetTimeout 1000)), Continue, Outside Connected] @ replicate 3 Continue
      @ [Outside (Incoming [7]), Continue, Outside (TimerFires 0)] @ replicate 4 Continue)))
   = [Emitted Connect, Emitted (Chunk [7]), Emitted Timeout, ClosedFd 5, Emitted ErrorEvent, Emitted (Close True)]"
  by code_simp

text \<open>The close of the other side leaves the timer armed, so \<open>timeout\<close> comes after \<open>close\<close>.\<close>

lemma timeout_after_close:
  "trace (fst (foldl (net_step (\<lambda>_. [])) (dial 5)
     ([Outside Connected] @ replicate 3 Continue @ [Outside (ProgramCalls (SetTimeout 1000)), Continue, Outside RemoteClose]
      @ replicate 3 Continue @ [Outside (TimerFires 0), Continue])))
   = [Emitted Connect, Emitted End, Emitted (Close False), Emitted Timeout]"
  by code_simp

text \<open>
  A connection that is refused after \<open>connect\<close> has returned is never reported: of the table of
  \<open>net-core.js\<close> only the callback of the connection is set, and the event of the error calls nothing.
\<close>

lemma refused_silently:
  "0 \<le> r \<Longrightarrow> snd (dispatch_event decode (EvError (nat r) m) (sock_connect r (Some f) hs)) = []"
  "external RemoteError (fst (dial (int n))) = ((fst (dial (int n)))\<lparr>hooked := NoHooks\<rparr>, [])"
  by (simp_all add: dispatch_event_def sock_connect_def no_handler_def dial_def)

text \<open>After an error the socket is neither closed nor marked as destroyed, and \<open>end(data, f)\<close> calls \<open>f\<close> twice.\<close>

lemma no_close_after_error:
  "hooked s = AllHooks \<Longrightarrow> external RemoteError s = (s\<lparr>hooked := NoHooks\<rparr>, [Emit ErrorEvent])"
  by simp

lemma callback_twice:
  "filter (\<lambda>x. x = Emitted (Called False)) (trace (fst (foldl (net_step (\<lambda>_. [])) (accept_socket 5)
     ([Continue, Continue, Outside (ProgramCalls (Finishing (Some [1]) AsEncoding))] @ replicate 7 Continue))))
   = [Emitted (Called False), Emitted (Called False)]"
  by code_simp

text \<open>What is written before the connection goes to the number -1, and the callback is told that it was sent.\<close>

lemma write_before_connect:
  "perform (Write d True) (fst (dial 5)) = (log (Wrote (-1) d) (fst (dial 5)), [Emit (Called False)])"
  by (simp add: dial_def blank_socket_def refresh_timeout_def drop_timer_def arm_timeout_def)

text \<open>The server says that it listens also when it does not.\<close>

lemma listening_without_socket: "server_listen (-1) S = (S\<lparr>server_fd := -1, listening := False\<rparr>, [ServerListening])"
  by (simp add: server_listen_def)

end
