(* ===== verification/Skynet_Core.thy ===== *)
theory Skynet_Core
  imports Json "HOL-Library.Multiset"
begin

text \<open>
  \<open>js/internal/skynet-core.js\<close> and \<open>js/internal/runtime-hooks.js\<close>: the protocols, the calls that wait
  for a response, the timers, the router of incoming messages and the wrapper that answers them.
  The program's own functions (handlers, timer callbacks, promise continuations) are scripts: the
  list of the calls they make and how they end. What the C layer answers (the session of a call, the
  result of a send) is an argument of the call.
\<close>

section \<open>State\<close>

definition ptype_text :: nat where "ptype_text = 0"
definition ptype_response :: nat where "ptype_response = 1"
definition ptype_client :: nat where "ptype_client = 3"
definition ptype_socket :: nat where "ptype_socket = 6"
definition ptype_error :: nat where "ptype_error = 7"
definition ptype_lua :: nat where "ptype_lua = 10"

lemmas ptypes = ptype_text_def ptype_response_def ptype_client_def ptype_socket_def ptype_error_def ptype_lua_def

text \<open>
  The values that cross the boundary: \<open>undefined\<close>, \<open>null\<close>, what is a string or becomes one, a
  buffer, and what cannot become a string (a symbol, an object whose \<open>toString\<close> throws).
\<close>

datatype jval = JUndefined | JNullV | JText jsstr | JBuffer bytes | JSymbol

record protocol =
  pname :: jsstr
  dispatch :: "nat option"

text \<open>What the service does to the outside and to the promises of its calls.\<close>

datatype effect =
    Sent int nat jval nat  \<comment> \<open>address, type, payload, session\<close>
  | Redirected int int nat nat jval
  | Replied nat int jval  \<comment> \<open>session, source, value\<close>
  | ErrorReplied nat int
  | Resolved nat jval  \<comment> \<open>the promise of a call\<close>
  | Rejected nat
  | TimerFired nat
  | Handled nat jval int nat  \<comment> \<open>handler, message, source, session\<close>
  | SocketHandled jval
  | ClusterResponse nat jval
  | ClusterError nat int
  | Command string jsstr
  | Logged

record service =
  proto :: "nat \<Rightarrow> protocol option"
  pendingCalls :: "nat \<Rightarrow> (nat \<times> bool) option"  \<comment> \<open>promise, and whether it takes bytes\<close>
  pendingTimers :: "nat \<Rightarrow> nat option"
  promises :: nat  \<comment> \<open>number of promises made\<close>
  waiting :: "(nat \<times> nat \<times> int \<times> nat) list"  \<comment> \<open>handlers' promises: token, session, source, type\<close>
  socketHandler :: bool
  clusterHandlers :: "bool \<times> bool"
  effects :: "effect list"

definition new_service :: service where
  "new_service = \<lparr>proto = (\<lambda>_. None)(0 \<mapsto> \<lparr>pname = js ''text'', dispatch = None\<rparr>,
       10 \<mapsto> \<lparr>pname = js ''lua'', dispatch = None\<rparr>, 3 \<mapsto> \<lparr>pname = js ''client'', dispatch = None\<rparr>),
     pendingCalls = (\<lambda>_. None), pendingTimers = (\<lambda>_. None), promises = 0, waiting = [],
     socketHandler = False, clusterHandlers = (False, False), effects = []\<rparr>"

definition emit :: "effect \<Rightarrow> service \<Rightarrow> service" where
  "emit e s = s\<lparr>effects := effects s @ [e]\<rparr>"

text \<open>A promise that is settled stays as it is.\<close>

fun settles :: "nat \<Rightarrow> effect \<Rightarrow> bool" where
  "settles p (Resolved q v) = (q = p)"
| "settles p (Rejected q) = (q = p)"
| "settles p _ = False"

definition settle :: "nat \<Rightarrow> effect \<Rightarrow> service \<Rightarrow> service" where
  "settle p e s = (if list_ex (settles p) (effects s) then s else emit e s)"

section \<open>The API\<close>

text \<open>\<open>None\<close> is an exception.\<close>

definition register_protocol :: "int \<Rightarrow> protocol \<Rightarrow> service \<Rightarrow> service option" where
  "register_protocol i p s =
     (if i < 0 \<or> i > 255 then None else Some (s\<lparr>proto := (proto s)(nat i \<mapsto> p)\<rparr>))"

text \<open>\<open>for (const k in proto)\<close> goes through the ids in ascending order.\<close>

definition find_type :: "jsstr \<Rightarrow> service \<Rightarrow> nat option" where
  "find_type typename s =
     find (\<lambda>k. case proto s k of None \<Rightarrow> False | Some p \<Rightarrow> pname p = typename) [0..<256]"

definition skynet_dispatch :: "jsstr \<Rightarrow> nat option \<Rightarrow> service \<Rightarrow> service option" where
  "skynet_dispatch typename f s =
     (case find_type typename s of
        None \<Rightarrow> None
      | Some i \<Rightarrow> Some (s\<lparr>proto := (proto s)(i \<mapsto> (the (proto s i))\<lparr>dispatch := f\<rparr>)\<rparr>))"

definition payload_of :: "jval \<Rightarrow> jval" where
  "payload_of v = (if v = JUndefined \<or> v = JNullV then JText [] else v)"

text \<open>
  \<open>call\<close>: \<open>ses\<close> is what \<open>genId\<close> returned and \<open>r\<close> the result of \<open>send\<close>. A payload that is no string
  makes \<open>send\<close> throw, and the promise constructor turns that into a rejection.
\<close>

definition skynet_call :: "int \<Rightarrow> jsstr \<Rightarrow> jval \<Rightarrow> nat \<Rightarrow> int \<Rightarrow> service \<Rightarrow> service option" where
  "skynet_call addr typename msg ses r s =
     (case find_type typename s of
        None \<Rightarrow> None
      | Some t \<Rightarrow>
          let p = promises s;
              s1 = s\<lparr>pendingCalls := (pendingCalls s)(ses \<mapsto> (p, t = ptype_lua)), promises := p + 1\<rparr>
          in if msg = JSymbol then Some (settle p (Rejected p) s1)
             else let s2 = emit (Sent addr t (payload_of msg) ses) s1
                  in if r < 0 then Some (settle p (Rejected p) (s2\<lparr>pendingCalls := (pendingCalls s2)(ses := None)\<rparr>))
                     else Some s2)"

text \<open>\<open>send\<close> packs the arguments of a lua message; \<open>pack\<close> is the C layer's serializer.\<close>

definition skynet_send :: "(jval list \<Rightarrow> bytes) \<Rightarrow> int \<Rightarrow> jsstr \<Rightarrow> jval list \<Rightarrow> service \<Rightarrow> service option" where
  "skynet_send pack addr typename args s =
     (case find_type typename s of
        None \<Rightarrow> None
      | Some t \<Rightarrow>
          let v = (if t = ptype_lua then JBuffer (pack args)
                   else (case args of [] \<Rightarrow> JText [] | a # _ \<Rightarrow> payload_of a))
          in if v = JSymbol then None else Some (emit (Sent addr t v 0) s))"

definition skynet_redirect :: "int \<Rightarrow> int \<Rightarrow> jsstr \<Rightarrow> nat \<Rightarrow> jval \<Rightarrow> service \<Rightarrow> service option" where
  "skynet_redirect dest source typename session msg s =
     (case find_type typename s of
        None \<Rightarrow> None
      | Some t \<Rightarrow> if msg = JSymbol then None else Some (emit (Redirected dest source t session (payload_of msg)) s))"

definition skynet_timeout :: "nat \<Rightarrow> nat \<Rightarrow> nat \<Rightarrow> service \<Rightarrow> service" where
  "skynet_timeout ti f ses s =
     (emit (Command ''TIMEOUT'' (to_radix 10 ti)) s)\<lparr>pendingTimers := (pendingTimers s)(ses \<mapsto> f)\<rparr>"

text \<open>\<open>sleep(ms)\<close> for a whole number of milliseconds; \<open>Math.round\<close> rounds halves up.\<close>

definition skynet_sleep :: "nat \<Rightarrow> nat \<Rightarrow> nat \<Rightarrow> service \<Rightarrow> service" where
  "skynet_sleep ms f ses s = skynet_timeout (max 1 ((ms + 5) div 10)) f ses s"

definition skynet_newservice :: "jsstr \<Rightarrow> jsstr \<Rightarrow> service \<Rightarrow> service" where
  "skynet_newservice name param s =
     emit (Command ''LAUNCH'' (if param = [] then name else name @ [32] @ param)) s"

definition skynet_self :: "jsstr option \<Rightarrow> int option" where
  "skynet_self reg = (case reg of None \<Rightarrow> Some 0 | Some r \<Rightarrow> if r = [] then Some 0 else parse_int 16 (tl r))"

definition skynet_register :: "jsstr \<Rightarrow> jsstr \<Rightarrow> service \<Rightarrow> service" where
  "skynet_register name self s = emit (Command ''NAME'' ([46] @ name @ [32] @ self)) s"

definition set_socket_handler :: "bool \<Rightarrow> service \<Rightarrow> service" where
  "set_socket_handler h s = s\<lparr>socketHandler := h\<rparr>"

definition set_cluster_handlers :: "bool \<Rightarrow> bool \<Rightarrow> service \<Rightarrow> service" where
  "set_cluster_handlers response err s = s\<lparr>clusterHandlers := (response, err)\<rparr>"

text \<open>The calls a script makes, and how it ends; \<open>Promised t\<close>: it returned a promise, named \<open>t\<close>.\<close>

datatype api =
    RegisterProtocol int protocol
  | SetDispatch jsstr "nat option"
  | Call int jsstr jval nat int
  | Send int jsstr "jval list"
  | Redirect int int jsstr nat jval
  | Timeout nat nat nat
  | Sleep nat nat nat
  | NewService jsstr jsstr
  | Register jsstr jsstr
  | SetSocketHandler bool
  | SetClusterHandlers bool bool
  | Exit

fun run_api :: "(jval list \<Rightarrow> bytes) \<Rightarrow> api \<Rightarrow> service \<Rightarrow> service option" where
  "run_api pack (RegisterProtocol i p) s = register_protocol i p s"
| "run_api pack (SetDispatch n f) s = skynet_dispatch n f s"
| "run_api pack (Call addr n msg ses r) s = skynet_call addr n msg ses r s"
| "run_api pack (Send addr n args) s = skynet_send pack addr n args s"
| "run_api pack (Redirect d src n ses msg) s = skynet_redirect d src n ses msg s"
| "run_api pack (Timeout ti f ses) s = Some (skynet_timeout ti f ses s)"
| "run_api pack (Sleep ms f ses) s = Some (skynet_sleep ms f ses s)"
| "run_api pack (NewService n p) s = Some (skynet_newservice n p s)"
| "run_api pack (Register n self) s = Some (skynet_register n self s)"
| "run_api pack (SetSocketHandler h) s = Some (set_socket_handler h s)"
| "run_api pack (SetClusterHandlers r e) s = Some (set_cluster_handlers r e s)"
| "run_api pack Exit s = Some (emit (Command ''EXIT'' []) s)"

datatype result = Returns jval | Throws | Promised nat

text \<open>A script runs until a call throws; the flag says whether one did.\<close>

fun run_script :: "(jval list \<Rightarrow> bytes) \<Rightarrow> api list \<Rightarrow> service \<Rightarrow> bool \<times> service" where
  "run_script pack [] s = (False, s)"
| "run_script pack (a # as) s =
     (case run_api pack a s of None \<Rightarrow> (True, s) | Some s' \<Rightarrow> run_script pack as s')"

definition run_user :: "(jval list \<Rightarrow> bytes) \<Rightarrow> api list \<times> result \<Rightarrow> service \<Rightarrow> result \<times> service" where
  "run_user pack u s =
     (case run_script pack (fst u) s of (threw, s') \<Rightarrow> (if threw then Throws else snd u, s'))"

section \<open>Incoming messages\<close>

text \<open>The C layer as far as the router relies on it.\<close>

record clayer =
  pack :: "jval list \<Rightarrow> bytes"
  str :: "bytes \<Rightarrow> jsstr"

text \<open>A C layer that reads bytes as UTF-8, for the concrete runs below.\<close>

definition plain_layer :: clayer where
  "plain_layer = \<lparr>pack = (\<lambda>_. []), str = decode_utf8\<rparr>"

text \<open>What the callback of a call passes on to its promise.\<close>

definition call_value :: "clayer \<Rightarrow> bool \<Rightarrow> jval \<Rightarrow> jval" where
  "call_value C binary v =
     (if binary then v else (case v of JBuffer b \<Rightarrow> JText (str C b) | _ \<Rightarrow> v))"

text \<open>
  \<open>internalDispatch\<close>; \<open>u\<close> is what the program's function does, if one is called. An exception from
  the socket or cluster code is not modelled here.
\<close>

definition internal_dispatch ::
  "clayer \<Rightarrow> jval \<Rightarrow> nat \<Rightarrow> int \<Rightarrow> nat \<Rightarrow> api list \<times> result \<Rightarrow> service \<Rightarrow> result \<times> service" where
  "internal_dispatch C msg session source type u s =
     (if type = ptype_socket
      then (Returns JUndefined, if socketHandler s then emit (SocketHandled msg) s else s)
      else if type = ptype_response
      then (case pendingCalls s session of
              Some (p, binary) \<Rightarrow>
                (Returns JUndefined,
                 settle p (Resolved p (call_value C binary msg)) (s\<lparr>pendingCalls := (pendingCalls s)(session := None)\<rparr>))
            | None \<Rightarrow>
                (case pendingTimers s session of
                   Some f \<Rightarrow>
                     (case run_user (pack C) u (emit (TimerFired f) (s\<lparr>pendingTimers := (pendingTimers s)(session := None)\<rparr>)) of
                        (r, s') \<Rightarrow> (if r = Throws then Throws else Returns JUndefined, s'))
                 | None \<Rightarrow>
                     (Returns JUndefined, if fst (clusterHandlers s) then emit (ClusterResponse session msg) s else s)))
      else if type = ptype_error
      then (case pendingCalls s session of
              Some (p, _) \<Rightarrow>
                (Returns JUndefined, settle p (Rejected p) (s\<lparr>pendingCalls := (pendingCalls s)(session := None)\<rparr>))
            | None \<Rightarrow>
                (Returns JUndefined, if snd (clusterHandlers s) then emit (ClusterError session source) s else s))
      else (case proto s type of
              None \<Rightarrow> (Throws, s)
            | Some pr \<Rightarrow>
                (case dispatch pr of
                   None \<Rightarrow> (Throws, s)
                 | Some f \<Rightarrow> run_user (pack C) u (emit (Handled f msg source session) s))))"

text \<open>
  The function that \<open>__snjs_wrap\<close> returns. \<open>response\<close> throws on a value that cannot become a string:
  then nothing is sent.
\<close>

definition wants_reply :: "nat \<Rightarrow> nat \<Rightarrow> bool" where
  "wants_reply session type \<longleftrightarrow>
     session \<noteq> 0 \<and> type \<noteq> ptype_response \<and> type \<noteq> ptype_error \<and> type \<noteq> ptype_client"

definition reply :: "nat \<Rightarrow> int \<Rightarrow> nat \<Rightarrow> jval \<Rightarrow> service \<Rightarrow> service" where
  "reply session source type v s =
     (if wants_reply session type \<and> v \<noteq> JSymbol
      then emit (Replied session source (if v = JUndefined then JText [] else v)) s else s)"

definition reply_error :: "nat \<Rightarrow> int \<Rightarrow> nat \<Rightarrow> service \<Rightarrow> service" where
  "reply_error session source type s =
     (if wants_reply session type then emit (ErrorReplied session source) (emit Logged s) else emit Logged s)"

definition wrapped_dispatch ::
  "clayer \<Rightarrow> jval \<Rightarrow> nat \<Rightarrow> int \<Rightarrow> nat \<Rightarrow> api list \<times> result \<Rightarrow> service \<Rightarrow> service" where
  "wrapped_dispatch C msg session source type u s =
     (case internal_dispatch C msg session source type u s of
        (Throws, s') \<Rightarrow> reply_error session source type s'
      | (Promised t, s') \<Rightarrow> s'\<lparr>waiting := waiting s' @ [(t, session, source, type)]\<rparr>
      | (Returns v, s') \<Rightarrow> reply session source type v s')"

text \<open>The promise of a handler settles: fulfilled with a value, or rejected (\<open>None\<close>).\<close>

definition settle_handler :: "nat \<Rightarrow> jval option \<Rightarrow> service \<Rightarrow> service" where
  "settle_handler t out s =
     (case find (\<lambda>w. fst w = t) (waiting s) of
        None \<Rightarrow> s
      | Some (t', session, source, type) \<Rightarrow>
          let s' = s\<lparr>waiting := remove1 (t', session, source, type) (waiting s)\<rparr>
          in (case out of
                Some v \<Rightarrow> reply session source type v s'
              | None \<Rightarrow> reply_error session source type s'))"

text \<open>
  A service's life: messages arrive, its own code runs between them, promises of handlers settle.
\<close>

datatype service_event =
    Deliver jval nat int nat "api list \<times> result"
  | Continue "api list"
  | SettleHandler nat "jval option"

fun service_step :: "clayer \<Rightarrow> service \<Rightarrow> service_event \<Rightarrow> service" where
  "service_step C s (Deliver msg session source type u) = wrapped_dispatch C msg session source type u s"
| "service_step C s (Continue as) = snd (run_script (pack C) as s)"
| "service_step C s (SettleHandler t out) = settle_handler t out s"

section \<open>getenv\<close>

text \<open>
  \<open>getenv\<close>: the configuration is parsed at the first call and kept; \<open>raw\<close> is the text of the
  configuration and \<open>flat\<close> the environment of the C layer. \<open>in\<close> finds the names that every object
  inherits as well, and throws on a value that is no object (\<open>null\<close> is parsed again every time, and
  throws).
\<close>

datatype env_value = FromConfig json | FromEnv "jsstr option" | InheritedValue | EnvThrows

definition object_names :: "string list" where
  "object_names = [''constructor'', ''__defineGetter__'', ''__defineSetter__'', ''hasOwnProperty'',
     ''__lookupGetter__'', ''__lookupSetter__'', ''isPrototypeOf'', ''propertyIsEnumerable'', ''toString'',
     ''valueOf'', ''toLocaleString'', ''__proto__'']"

definition load_config :: "jsstr option \<Rightarrow> json option \<Rightarrow> json option" where
  "load_config raw config =
     (case config of
        Some c \<Rightarrow> Some c
      | None \<Rightarrow> (case raw of None \<Rightarrow> Some (JObj []) | Some t \<Rightarrow> if t = [] then Some (JObj []) else json_parse t))"

definition skynet_getenv :: "jsstr option \<Rightarrow> (jsstr \<Rightarrow> jsstr option) \<Rightarrow> jsstr \<Rightarrow> json option \<Rightarrow> json option \<times> env_value" where
  "skynet_getenv raw flat key config =
     (case load_config raw config of
        None \<Rightarrow> (config, EnvThrows)
      | Some (JObj ps) \<Rightarrow>
          (Some (JObj ps),
           case map_of ps key of
             Some v \<Rightarrow> FromConfig v
           | None \<Rightarrow> if key \<in> set (map js object_names) then InheritedValue else FromEnv (flat key))
      | Some c \<Rightarrow> (if c = JNull \<or> c = JBool False \<or> c = JNum 0 \<or> c = JStr [] then config else Some c, EnvThrows))"

section \<open>console\<close>

text \<open>
  The values that \<open>console.log\<close> shows. A number is an integer; a function has its name, a
  \<open>LuaTable\<close> its array part and its hash part, an object its own enumerable properties.
\<close>

datatype shown = ShNull | ShUndefined | ShString jsstr | ShNumber int | ShBool bool | ShBigInt int
  | ShFunction jsstr | ShArrayBuffer nat | ShBytes bytes | ShArray "shown list"
  | ShLuaTable "shown list" "(shown \<times> shown) list" | ShMap "(shown \<times> shown) list"
  | ShObject "(jsstr \<times> shown) list"

definition hex_byte_text :: "byte \<Rightarrow> jsstr" where
  "hex_byte_text b = pad_start 2 48 (to_radix 16 (unat b))"

fun to_display :: "nat \<Rightarrow> shown \<Rightarrow> jsstr" where
  "to_display depth ShNull = js ''null''"
| "to_display depth ShUndefined = js ''undefined''"
| "to_display depth (ShString s) = s"
| "to_display depth (ShNumber i) = int_str i"
| "to_display depth (ShBool b) = (if b then js ''true'' else js ''false'')"
| "to_display depth (ShBigInt i) = int_str i @ js ''n''"
| "to_display depth (ShFunction n) = js ''[function '' @ (if n = [] then js ''anonymous'' else n) @ js '']''"
| "to_display depth (ShArrayBuffer n) =
     (if depth > 3 then js ''...'' else js ''<ArrayBuffer '' @ to_radix 10 n @ js ''>'')"
| "to_display depth (ShBytes bs) =
     (if depth > 3 then js ''...''
      else js ''<Uint8Array '' @ to_radix 10 (length bs) @ js '' ['' @
        join_with (js '' '') (map hex_byte_text (take 16 bs)) @
        (if length bs > 16 then js '' ...'' else []) @ js '']>'')"
| "to_display depth (ShArray vs) =
     (if depth > 3 then js ''...''
      else js ''['' @ join_with (js '', '') (map (to_display (depth + 1)) vs) @ js '']'')"
| "to_display depth (ShLuaTable vs ps) =
     (if depth > 3 then js ''...''
      else js ''LuaTable{ '' @ join_with (js '', '') (map (to_display (depth + 1)) vs @
        map (\<lambda>(k, v). to_display (depth + 1) k @ js '': '' @ to_display (depth + 1) v) ps) @ js '' }'')"
| "to_display depth (ShMap ps) =
     (if depth > 3 then js ''...''
      else js ''{ '' @ join_with (js '', '')
        (map (\<lambda>(k, v). to_display (depth + 1) k @ js '': '' @ to_display (depth + 1) v) ps) @ js '' }'')"
| "to_display depth (ShObject ps) =
     (if depth > 3 then js ''...''
      else js ''{ '' @ join_with (js '', '')
        (map (\<lambda>(k, v). k @ js '': '' @ to_display (depth + 1) v) ps) @ js '' }'')"

definition console_line :: "shown list \<Rightarrow> jsstr" where
  "console_line args = join_with (js '' '') (map (to_display 0) args)"

text \<open>
  \<open>console.time\<close>, \<open>timeLog\<close> and \<open>timeEnd\<close>: the labels with their start times, and the line logged.
\<close>

type_synonym labels = "jsstr \<Rightarrow> nat option"

definition time_label :: "jsstr option \<Rightarrow> jsstr" where
  "time_label l = (case l of None \<Rightarrow> js ''default'' | Some x \<Rightarrow> x)"

definition elapsed_line :: "labels \<Rightarrow> nat \<Rightarrow> jsstr \<Rightarrow> jsstr \<Rightarrow> shown list \<Rightarrow> jsstr" where
  "elapsed_line ls now pre label args =
     (case ls label of
        None \<Rightarrow> pre @ js '': no such label '' @ [39] @ label @ [39]
      | Some t0 \<Rightarrow> label @ js '': '' @ int_str (int now - int t0) @ js ''ms'' @
          (if args = [] then [] else js '' '' @ console_line args))"

definition console_time :: "nat \<Rightarrow> jsstr option \<Rightarrow> labels \<Rightarrow> labels" where
  "console_time now l ls = ls(time_label l \<mapsto> now)"

definition console_time_log :: "nat \<Rightarrow> jsstr option \<Rightarrow> shown list \<Rightarrow> labels \<Rightarrow> jsstr" where
  "console_time_log now l args ls = elapsed_line ls now (js ''console.timeLog'') (time_label l) args"

definition console_time_end :: "nat \<Rightarrow> jsstr option \<Rightarrow> shown list \<Rightarrow> labels \<Rightarrow> labels \<times> jsstr" where
  "console_time_end now l args ls =
     (ls(time_label l := None), elapsed_line ls now (js ''console.timeEnd'') (time_label l) args)"

section \<open>Every request is answered once\<close>

fun answer_of :: "effect \<Rightarrow> (nat \<times> int) list" where
  "answer_of (Replied session source v) = [(session, source)]"
| "answer_of (ErrorReplied session source) = [(session, source)]"
| "answer_of _ = []"

definition answers :: "service \<Rightarrow> (nat \<times> int) list" where
  "answers s = concat (map answer_of (effects s))"

definition unanswered :: "service \<Rightarrow> (nat \<times> int) list" where
  "unanswered s = map (\<lambda>(t, session, source, type). (session, source))
     (filter (\<lambda>(t, session, source, type). wants_reply session type) (waiting s))"

fun asked_by :: "service_event \<Rightarrow> (nat \<times> int) list" where
  "asked_by (Deliver msg session source type u) = (if wants_reply session type then [(session, source)] else [])"
| "asked_by _ = []"

text \<open>The values handed to \<open>response\<close> can become strings.\<close>

fun sendable :: "service_event \<Rightarrow> bool" where
  "sendable (Deliver msg session source type u) = (snd u \<noteq> Returns JSymbol)"
| "sendable (SettleHandler t out) = (out \<noteq> Some JSymbol)"
| "sendable _ = True"

lemma answers_emit [simp]: "answers (emit e s) = answers s @ answer_of e"
  by (simp add: answers_def emit_def)

lemma waiting_emit [simp]: "waiting (emit e s) = waiting s" "unanswered (emit e s) = unanswered s"
  by (simp_all add: emit_def unanswered_def)

lemma answers_update [simp]:
  "answers (s\<lparr>proto := x\<rparr>) = answers s" "answers (s\<lparr>pendingCalls := y\<rparr>) = answers s"
  "answers (s\<lparr>pendingTimers := z\<rparr>) = answers s" "answers (s\<lparr>promises := n\<rparr>) = answers s"
  "answers (s\<lparr>waiting := w\<rparr>) = answers s" "answers (s\<lparr>socketHandler := h\<rparr>) = answers s"
  "answers (s\<lparr>clusterHandlers := c\<rparr>) = answers s"
  by (simp_all add: answers_def)

lemma answers_settle [simp]: "answer_of e = [] \<Longrightarrow> answers (settle p e s) = answers s" "waiting (settle p e s) = waiting s"
  by (simp_all add: settle_def)

definition same_answers :: "service \<Rightarrow> service \<Rightarrow> bool" where
  "same_answers s s' \<longleftrightarrow> answers s' = answers s \<and> waiting s' = waiting s"

lemmas api_defs = register_protocol_def skynet_dispatch_def skynet_call_def skynet_send_def skynet_redirect_def
  skynet_timeout_def skynet_sleep_def skynet_newservice_def skynet_register_def set_socket_handler_def
  set_cluster_handlers_def

lemma run_api_answers: "run_api pk a s = Some s' \<Longrightarrow> same_answers s s'"
  by (cases a) (auto simp: api_defs same_answers_def Let_def split: option.splits if_splits)

lemma run_script_answers: "run_script pk as s = (threw, s') \<Longrightarrow> same_answers s s'"
proof (induction as arbitrary: s)
  case (Cons a as)
  then show ?case using run_api_answers [of pk a s]
    by (fastforce simp: same_answers_def split: option.splits)
qed (simp add: same_answers_def)

lemma run_user_answers: "run_user pk u s = (r, s') \<Longrightarrow> same_answers s s' \<and> (r = Throws \<or> r = snd u)"
  using run_script_answers [of pk "fst u" s] by (auto simp: run_user_def split: prod.splits if_splits)

lemma internal_dispatch_answers:
  assumes "internal_dispatch C msg session source type u s = (r, s')" "snd u \<noteq> Returns JSymbol"
  shows "same_answers s s' \<and> r \<noteq> Returns JSymbol"
  using assms
  by (auto simp: internal_dispatch_def same_answers_def split: if_splits option.splits prod.splits
    dest!: run_user_answers)

lemma find_remove1: "find P xs = Some x \<Longrightarrow> x \<in> set xs"
  by (induction xs) (auto split: if_splits)

lemma unanswered_remove:
  "w \<in> set (waiting s) \<Longrightarrow> w = (t, session, source, type) \<Longrightarrow>
   mset (unanswered s) = mset (unanswered (s\<lparr>waiting := remove1 w (waiting s)\<rparr>)) +
     (if wants_reply session type then {#(session, source)#} else {#})"
proof -
  assume a: "w \<in> set (waiting s)" "w = (t, session, source, type)"
  define P where "P = (\<lambda>(t :: nat, session, source :: int, type). wants_reply session type)"
  define f where "f = (\<lambda>(t :: nat, session :: nat, source :: int, type :: nat). (session, source))"
  have "mset (waiting s) = add_mset w (mset (remove1 w (waiting s)))" using a by simp
  then have "image_mset f (filter_mset P (mset (waiting s))) =
      image_mset f (filter_mset P (add_mset w (mset (remove1 w (waiting s)))))" by simp
  then show ?thesis using a(2) by (simp add: unanswered_def P_def [symmetric] f_def [symmetric] del: mset_remove1)
    (simp add: P_def f_def)
qed

text \<open>The events together with the requests they brought.\<close>

definition tracked_step :: "clayer \<Rightarrow> (nat \<times> int) list \<times> service \<Rightarrow> service_event \<Rightarrow> (nat \<times> int) list \<times> service" where
  "tracked_step C x e = (fst x @ asked_by e, service_step C (snd x) e)"

definition balanced :: "(nat \<times> int) list \<times> service \<Rightarrow> bool" where
  "balanced x \<longleftrightarrow> mset (fst x) = mset (answers (snd x)) + mset (unanswered (snd x))"

lemma unanswered_same: "waiting s' = waiting s \<Longrightarrow> unanswered s' = unanswered s"
  by (simp add: unanswered_def)

lemma unanswered_add:
  "unanswered (s\<lparr>waiting := waiting s @ [(t, session, source, type)]\<rparr>) =
   unanswered s @ (if wants_reply session type then [(session, source)] else [])"
  by (simp add: unanswered_def)

lemma reply_balanced:
  "v \<noteq> JSymbol \<Longrightarrow> mset (answers (reply session source type v s)) =
     mset (answers s) + (if wants_reply session type then {#(session, source)#} else {#})"
  "mset (answers (reply_error session source type s)) =
     mset (answers s) + (if wants_reply session type then {#(session, source)#} else {#})"
  "unanswered (reply session source type v s) = unanswered s"
  "unanswered (reply_error session source type s) = unanswered s"
  by (simp_all add: reply_def reply_error_def)

lemma tracked_step_balanced:
  assumes "balanced x" "sendable e"
  shows "balanced (tracked_step C x e)"
proof (cases e)
  case (Deliver msg session source type u)
  obtain r s' where d: "internal_dispatch C msg session source type u (snd x) = (r, s')"
    by (cases "internal_dispatch C msg session source type u (snd x)")
  have k: "same_answers (snd x) s' \<and> r \<noteq> Returns JSymbol"
    using internal_dispatch_answers [OF d] assms(2) Deliver by simp
  then have w: "unanswered s' = unanswered (snd x)" "answers s' = answers (snd x)"
    by (simp_all add: same_answers_def unanswered_def)
  show ?thesis
    using assms(1) k w
    by (cases r) (auto simp: balanced_def tracked_step_def Deliver wrapped_dispatch_def d reply_balanced unanswered_add
      split: prod.splits)
next
  case (Continue as)
  obtain t s' where "run_script (pack C) as (snd x) = (t, s')" by (cases "run_script (pack C) as (snd x)")
  then show ?thesis using run_script_answers [of "pack C" as "snd x"] assms(1)
    by (auto simp: balanced_def tracked_step_def Continue same_answers_def unanswered_def)
next
  case (SettleHandler t out)
  show ?thesis
  proof (cases "find (\<lambda>w. fst w = t) (waiting (snd x))")
    case (Some w)
    obtain t' session source type where w: "w = (t', session, source, type)" by (cases w)
    have "w \<in> set (waiting (snd x))" using Some by (rule find_remove1)
    then show ?thesis
      using assms Some w unanswered_remove [of w "snd x"]
      by (auto simp: balanced_def tracked_step_def SettleHandler settle_handler_def Let_def reply_balanced split: option.split)
  qed (use assms in \<open>simp add: balanced_def tracked_step_def SettleHandler settle_handler_def\<close>)
qed

interpretation answering: guarded_component "tracked_step C" balanced "\<lambda>_. sendable" for C
  by unfold_locales (rule tracked_step_balanced)

lemma tracked_foldl:
  "foldl (tracked_step C) (as, s) es = (as @ concat (map asked_by es), foldl (service_step C) s es)"
  by (induction es arbitrary: as s) (simp_all add: tracked_step_def)

text \<open>C7. Every request is answered exactly once: whatever messages arrive in whatever order, and
  whether the handlers return, throw or give a promise that settles later or never, the answers the
  service has sent are, one by one, the requests that want one, except for those whose handler's
  promise is still pending; responses, errors and client messages are never answered. (The values
  returned can become strings.)\<close>

theorem requests_answered_once:
  assumes "list_all sendable es"
  shows "mset (concat (map asked_by es)) =
    mset (answers (foldl (service_step C) new_service es)) + mset (unanswered (foldl (service_step C) new_service es))"
proof -
  have "balanced (foldl (tracked_step C) ([], new_service) es)"
    by (rule answering.run_legal) (simp_all add: legal_run_all assms balanced_def answers_def unanswered_def new_service_def)
  then show ?thesis by (simp add: tracked_foldl balanced_def)
qed

lemma requests_answered_once_witness:
  "mset (concat (map asked_by [Continue [SetDispatch (js ''text'') (Some 1)],
      Deliver (JText []) 5 7 0 ([], Promised 0), Deliver (JText []) 6 7 0 ([], Throws), SettleHandler 0 (Some JUndefined)])) =
   mset (answers (foldl (service_step plain_layer) new_service [Continue [SetDispatch (js ''text'') (Some 1)],
      Deliver (JText []) 5 7 0 ([], Promised 0), Deliver (JText []) 6 7 0 ([], Throws), SettleHandler 0 (Some JUndefined)])) +
   mset (unanswered (foldl (service_step plain_layer) new_service [Continue [SetDispatch (js ''text'') (Some 1)],
      Deliver (JText []) 5 7 0 ([], Promised 0), Deliver (JText []) 6 7 0 ([], Throws), SettleHandler 0 (Some JUndefined)]))"
  by (rule requests_answered_once) simp

lemma symbol_never_answered:
  "effects (wrapped_dispatch C (JText []) 5 7 0 ([], Returns JSymbol)
     (new_service\<lparr>proto := (\<lambda>_. None)(0 \<mapsto> \<lparr>pname = js ''text'', dispatch = Some 1\<rparr>)\<rparr>)) = [Handled 1 (JText []) 7 5]"
  by (simp add: wrapped_dispatch_def internal_dispatch_def ptypes run_user_def reply_def emit_def new_service_def)

section \<open>Calls and their promises\<close>

definition settled :: "nat \<Rightarrow> service \<Rightarrow> bool" where
  "settled p s = list_ex (settles p) (effects s)"

definition outstanding :: "nat \<Rightarrow> service \<Rightarrow> bool" where
  "outstanding p s \<longleftrightarrow> p \<in> fst ` ran (pendingCalls s)"

definition settle_count :: "nat \<Rightarrow> service \<Rightarrow> nat" where
  "settle_count p s = length (filter (settles p) (effects s))"

text \<open>
  Each promise made is settled once or waits under exactly one session.
\<close>

definition calls_ok :: "service \<Rightarrow> bool" where
  "calls_ok s \<longleftrightarrow>
     (\<forall>p. settle_count p s = (if p < promises s \<and> \<not> outstanding p s then 1 else 0)) \<and>
     (\<forall>p. outstanding p s \<longrightarrow> p < promises s) \<and>
     (\<forall>ses ses' p b b'. pendingCalls s ses = Some (p, b) \<longrightarrow> pendingCalls s ses' = Some (p, b') \<longrightarrow> ses = ses')"

lemma settled_count: "settled p s \<longleftrightarrow> settle_count p s \<noteq> 0"
  by (auto simp: settled_def settle_count_def list_ex_iff filter_empty_conv)

lemma settle_count_emit [simp]: "settle_count p (emit e s) = settle_count p s + (if settles p e then 1 else 0)"
  by (simp add: settle_count_def emit_def)

lemma fields_emit [simp]:
  "pendingCalls (emit e s) = pendingCalls s" "promises (emit e s) = promises s" "outstanding p (emit e s) = outstanding p s"
  by (simp_all add: emit_def outstanding_def)

lemma settle_count_update [simp]:
  "settle_count p (s\<lparr>proto := x\<rparr>) = settle_count p s" "settle_count p (s\<lparr>pendingCalls := y\<rparr>) = settle_count p s"
  "settle_count p (s\<lparr>pendingTimers := z\<rparr>) = settle_count p s" "settle_count p (s\<lparr>promises := n\<rparr>) = settle_count p s"
  "settle_count p (s\<lparr>waiting := w\<rparr>) = settle_count p s" "settle_count p (s\<lparr>socketHandler := h\<rparr>) = settle_count p s"
  "settle_count p (s\<lparr>clusterHandlers := c\<rparr>) = settle_count p s"
  "outstanding p (s\<lparr>proto := x\<rparr>) = outstanding p s" "outstanding p (s\<lparr>pendingTimers := z\<rparr>) = outstanding p s"
  "outstanding p (s\<lparr>promises := n\<rparr>) = outstanding p s" "outstanding p (s\<lparr>waiting := w\<rparr>) = outstanding p s"
  "outstanding p (s\<lparr>socketHandler := h\<rparr>) = outstanding p s" "outstanding p (s\<lparr>clusterHandlers := c\<rparr>) = outstanding p s"
  by (simp_all add: settle_count_def outstanding_def)

lemma settle_fresh: "settle_count p s = 0 \<Longrightarrow> settle p e s = emit e s"
  by (simp add: settle_def settled_def [symmetric] settled_count)

lemma calls_ok_emit: "(\<And>p. \<not> settles p e) \<Longrightarrow> calls_ok (emit e s) = calls_ok s"
  by (simp add: calls_ok_def)

lemma calls_ok_update [simp]:
  "calls_ok (s\<lparr>proto := x\<rparr>) = calls_ok s" "calls_ok (s\<lparr>pendingTimers := z\<rparr>) = calls_ok s"
  "calls_ok (s\<lparr>waiting := w\<rparr>) = calls_ok s" "calls_ok (s\<lparr>socketHandler := h\<rparr>) = calls_ok s"
  "calls_ok (s\<lparr>clusterHandlers := c\<rparr>) = calls_ok s"
  by (simp_all add: calls_ok_def)

lemma outstanding_iff: "outstanding p s \<longleftrightarrow> (\<exists>ses b. pendingCalls s ses = Some (p, b))"
  by (force simp: outstanding_def ran_def)

text \<open>A response or an error for a session settles its promise and frees the session.\<close>

lemma calls_ok_settle:
  assumes "calls_ok s" "pendingCalls s ses = Some (p, b)" "\<And>q. settles q e = (q = p)"
  shows "calls_ok (settle p e (s\<lparr>pendingCalls := (pendingCalls s)(ses := None)\<rparr>))"
proof -
  let ?s = "s\<lparr>pendingCalls := (pendingCalls s)(ses := None)\<rparr>"
  have inj: "\<And>ses' b'. pendingCalls s ses' = Some (p, b') \<Longrightarrow> ses' = ses"
    using assms(1,2) unfolding calls_ok_def by blast
  have out: "outstanding q ?s \<longleftrightarrow> outstanding q s \<and> q \<noteq> p" for q
  proof -
    have "outstanding q ?s \<longleftrightarrow> (\<exists>ses' b. ses' \<noteq> ses \<and> pendingCalls s ses' = Some (q, b))"
      by (auto simp: outstanding_iff)
    moreover have "pendingCalls s ses' = Some (q, b') \<Longrightarrow> q \<noteq> p \<Longrightarrow> ses' \<noteq> ses" for ses' b'
      using assms(2) by auto
    ultimately show ?thesis using inj unfolding outstanding_iff [of q s] by blast
  qed
  have o: "outstanding p s" using assms(2) by (auto simp: outstanding_iff)
  then have lt: "p < promises s" using assms(1) by (simp add: calls_ok_def)
  have "settle_count p ?s = 0" using assms(1) o by (simp add: calls_ok_def)
  then have e: "settle p e ?s = emit e ?s" by (rule settle_fresh)
  have 1: "settle_count q s = (if q < promises s \<and> \<not> outstanding q s then 1 else 0)"
    "outstanding q s \<Longrightarrow> q < promises s" for q
    using assms(1) by (simp_all add: calls_ok_def)
  have 2: "settle_count q ?s = (if q < promises s \<and> \<not> outstanding q s then 1 else 0)"
    "promises ?s = promises s" for q
    using 1(1) [of q] by simp_all
  have 3: "pendingCalls ?s i = Some (q, b1) \<Longrightarrow> pendingCalls ?s j = Some (q, b2) \<Longrightarrow> i = j" for i j q b1 b2
    using assms(1) unfolding calls_ok_def by (simp split: if_splits)
  have 4: "settle_count q (emit e ?s) = (if q < promises (emit e ?s) \<and> \<not> outstanding q (emit e ?s) then 1 else 0)" for q
    using lt o 2(1) [of q] out [of q] by (cases "q = p") (simp_all add: assms(3))
  have 5: "outstanding q (emit e ?s) \<Longrightarrow> q < promises (emit e ?s)" for q
    using out [of q] 1(2) [of q] by simp
  have 6: "pendingCalls (emit e ?s) i = Some (q, b1) \<Longrightarrow> pendingCalls (emit e ?s) j = Some (q, b2) \<Longrightarrow> i = j" for i j q b1 b2
    using 3 [of i q b1 j b2] by simp
  show ?thesis unfolding e calls_ok_def using 4 5 6 by blast
qed

lemma calls_ok_respond:
  assumes "calls_ok s" "pendingCalls s ses = Some (p, b)"
  shows "calls_ok (settle p (Resolved p v) (s\<lparr>pendingCalls := (pendingCalls s)(ses := None)\<rparr>))"
    "calls_ok (settle p (Rejected p) (s\<lparr>pendingCalls := (pendingCalls s)(ses := None)\<rparr>))"
  using assms by (auto intro!: calls_ok_settle)

text \<open>A call makes a promise that waits under its session; the session must be free.\<close>

lemma calls_ok_add:
  assumes "calls_ok s" "pendingCalls s ses = None"
  shows "calls_ok (s\<lparr>pendingCalls := (pendingCalls s)(ses \<mapsto> (promises s, b)), promises := promises s + 1\<rparr>)"
proof -
  let ?s = "s\<lparr>pendingCalls := (pendingCalls s)(ses \<mapsto> (promises s, b)), promises := promises s + 1\<rparr>"
  have new: "\<not> outstanding (promises s) s" using assms(1) by (auto simp: calls_ok_def)
  have out: "outstanding q (s\<lparr>pendingCalls := (pendingCalls s)(ses \<mapsto> (promises s, b))\<rparr>) \<longleftrightarrow> outstanding q s \<or> q = promises s" for q
  proof -
    have "outstanding q (s\<lparr>pendingCalls := (pendingCalls s)(ses \<mapsto> (promises s, b))\<rparr>) \<longleftrightarrow>
        (\<exists>ses' b. ses' \<noteq> ses \<and> pendingCalls s ses' = Some (q, b)) \<or> q = promises s"
      by (auto simp: outstanding_iff)
    moreover have "pendingCalls s ses' = Some (q, b') \<Longrightarrow> ses' \<noteq> ses" for ses' b'
      using assms(2) by auto
    ultimately show ?thesis unfolding outstanding_iff [of q s] by blast
  qed
  have fresh: "\<And>ses' b'. pendingCalls s ses' \<noteq> Some (promises s, b')" using new by (auto simp: outstanding_iff)
  show ?thesis using assms(1) new fresh
    by (auto simp: calls_ok_def out less_Suc_eq split: if_splits)
qed

lemma calls_ok_call:
  assumes "calls_ok s" "pendingCalls s ses = None" "msg \<noteq> JSymbol" "skynet_call addr n msg ses r s = Some s'"
  shows "calls_ok s'"
proof -
  obtain t where t: "find_type n s = Some t" using assms(4) by (auto simp: skynet_call_def split: option.splits)
  let ?s1 = "s\<lparr>pendingCalls := (pendingCalls s)(ses \<mapsto> (promises s, t = ptype_lua)), promises := promises s + 1\<rparr>"
  let ?s2 = "emit (Sent addr t (payload_of msg) ses) ?s1"
  have ok: "calls_ok ?s2" using calls_ok_add [OF assms(1,2)] by (simp add: calls_ok_emit)
  have "pendingCalls ?s2 ses = Some (promises s, t = ptype_lua)" by simp
  then have "calls_ok (settle (promises s) (Rejected (promises s)) (?s2\<lparr>pendingCalls := (pendingCalls ?s2)(ses := None)\<rparr>))"
    using ok by (intro calls_ok_settle) auto
  then show ?thesis using assms(3,4) ok t by (auto simp: skynet_call_def Let_def split: if_splits)
qed

text \<open>The sessions that the calls of a script are given.\<close>

fun api_sessions :: "api \<Rightarrow> nat list" where
  "api_sessions (Call addr n msg ses r) = [ses]"
| "api_sessions _ = []"

fun api_sendable :: "api \<Rightarrow> bool" where
  "api_sendable (Call addr n msg ses r) = (msg \<noteq> JSymbol)"
| "api_sendable _ = True"

lemma run_api_calls:
  assumes "run_api pk a s = Some s'" "calls_ok s" "api_sendable a" "\<forall>ses\<in>set (api_sessions a). pendingCalls s ses = None"
  shows "calls_ok s' \<and> dom (pendingCalls s') \<subseteq> dom (pendingCalls s) \<union> set (api_sessions a)"
proof (cases a)
  case (Call addr n msg ses r)
  then show ?thesis using assms calls_ok_call [of s ses msg addr n r s']
    by (auto simp: skynet_call_def Let_def settle_def emit_def split: option.splits if_splits)
qed (use assms in \<open>auto simp: api_defs Let_def calls_ok_emit split: option.splits if_splits\<close>)

lemma run_script_calls:
  assumes "run_script pk as s = (t, s')" "calls_ok s" "list_all api_sendable as"
    "distinct (concat (map api_sessions as))" "dom (pendingCalls s) \<inter> set (concat (map api_sessions as)) = {}"
  shows "calls_ok s' \<and> dom (pendingCalls s') \<subseteq> dom (pendingCalls s) \<union> set (concat (map api_sessions as))"
  using assms
proof (induction as arbitrary: s)
  case (Cons a as)
  show ?case
  proof (cases "run_api pk a s")
    case (Some s1)
    have 1: "calls_ok s1 \<and> dom (pendingCalls s1) \<subseteq> dom (pendingCalls s) \<union> set (api_sessions a)"
      using Cons.prems by (intro run_api_calls [OF Some]) auto
    have d: "dom (pendingCalls s1) \<inter> set (concat (map api_sessions as)) = {}"
      using 1 Cons.prems(4,5) by (simp add: Int_Un_distrib) blast
    have "calls_ok s' \<and> dom (pendingCalls s') \<subseteq> dom (pendingCalls s1) \<union> set (concat (map api_sessions as))"
      by (rule Cons.IH) (use Cons.prems Some 1 d in auto)
    then show ?thesis using 1 by (simp add: Un_assoc) blast
  qed (use Cons.prems in auto)
qed auto

fun event_apis :: "service_event \<Rightarrow> api list" where
  "event_apis (Deliver msg session source type u) = fst u"
| "event_apis (Continue as) = as"
| "event_apis (SettleHandler t out) = []"

definition event_sessions :: "service_event \<Rightarrow> nat list" where
  "event_sessions e = concat (map api_sessions (event_apis e))"

lemma run_user_calls:
  assumes "run_user pk u s = (r, s')" "calls_ok s" "list_all api_sendable (fst u)"
    "distinct (concat (map api_sessions (fst u)))" "dom (pendingCalls s) \<inter> set (concat (map api_sessions (fst u))) = {}"
  shows "calls_ok s' \<and> dom (pendingCalls s') \<subseteq> dom (pendingCalls s) \<union> set (concat (map api_sessions (fst u)))"
proof -
  obtain t s1 where "run_script pk (fst u) s = (t, s1)" by (cases "run_script pk (fst u) s")
  then show ?thesis using run_script_calls [of pk "fst u" s t s1] assms by (auto simp: run_user_def)
qed

lemma calls_ok_reply [simp]:
  "calls_ok (reply session source type v s) = calls_ok s" "calls_ok (reply_error session source type s) = calls_ok s"
  "pendingCalls (reply session source type v s) = pendingCalls s" "pendingCalls (reply_error session source type s) = pendingCalls s"
  by (simp_all add: reply_def reply_error_def calls_ok_emit)

lemma pendingCalls_settle [simp]: "pendingCalls (settle p e s) = pendingCalls s"
  by (simp add: settle_def)

lemma internal_dispatch_calls:
  assumes "internal_dispatch C msg session source type u s = (r, s')" "calls_ok s" "list_all api_sendable (fst u)"
    "distinct (concat (map api_sessions (fst u)))" "dom (pendingCalls s) \<inter> set (concat (map api_sessions (fst u))) = {}"
  shows "calls_ok s' \<and> dom (pendingCalls s') \<subseteq> dom (pendingCalls s) \<union> set (concat (map api_sessions (fst u)))"
proof -
  have timer: "run_user (pack C) u (emit (TimerFired f) (s\<lparr>pendingTimers := pt\<rparr>)) = (r', s'') \<Longrightarrow>
      calls_ok s'' \<and> dom (pendingCalls s'') \<subseteq> dom (pendingCalls s) \<union> set (concat (map api_sessions (fst u)))" for f pt r' s''
    using run_user_calls [of "pack C" u "emit (TimerFired f) (s\<lparr>pendingTimers := pt\<rparr>)" r' s''] assms(2-5)
    by (simp add: calls_ok_emit)
  have handler: "run_user (pack C) u (emit (Handled f msg source session) s) = (r', s'') \<Longrightarrow>
      calls_ok s'' \<and> dom (pendingCalls s'') \<subseteq> dom (pendingCalls s) \<union> set (concat (map api_sessions (fst u)))" for f r' s''
    using run_user_calls [of "pack C" u "emit (Handled f msg source session) s" r' s''] assms(2-5)
    by (simp add: calls_ok_emit)
  show ?thesis using assms(1,2) timer handler
    by (auto simp: internal_dispatch_def calls_ok_emit calls_ok_respond
      split: if_splits option.splits prod.splits)
qed

text \<open>The events together with the sessions that have been given to calls.\<close>

definition session_step :: "clayer \<Rightarrow> nat list \<times> service \<Rightarrow> service_event \<Rightarrow> nat list \<times> service" where
  "session_step C x e = (fst x @ event_sessions e, service_step C (snd x) e)"

definition session_inv :: "nat list \<times> service \<Rightarrow> bool" where
  "session_inv x \<longleftrightarrow> calls_ok (snd x) \<and> dom (pendingCalls (snd x)) \<subseteq> set (fst x)"

definition session_legal :: "nat list \<times> service \<Rightarrow> service_event \<Rightarrow> bool" where
  "session_legal x e \<longleftrightarrow> list_all api_sendable (event_apis e) \<and> distinct (fst x @ event_sessions e)"

lemma session_step_inv:
  assumes "session_inv x" "session_legal x e"
  shows "session_inv (session_step C x e)"
proof (cases e)
  case (Deliver msg session source type u)
  obtain r s' where d: "internal_dispatch C msg session source type u (snd x) = (r, s')"
    by (cases "internal_dispatch C msg session source type u (snd x)")
  have "calls_ok s' \<and> dom (pendingCalls s') \<subseteq> dom (pendingCalls (snd x)) \<union> set (concat (map api_sessions (fst u)))"
    using assms Deliver
    by (intro internal_dispatch_calls [OF d]) (auto simp: session_inv_def session_legal_def event_sessions_def)
  then show ?thesis using assms(1)
    by (cases r) (auto simp: session_inv_def session_step_def Deliver wrapped_dispatch_def d event_sessions_def)
next
  case (Continue as)
  obtain t s' where d: "run_script (pack C) as (snd x) = (t, s')" by (cases "run_script (pack C) as (snd x)")
  have "calls_ok s' \<and> dom (pendingCalls s') \<subseteq> dom (pendingCalls (snd x)) \<union> set (concat (map api_sessions as))"
    using assms Continue
    by (intro run_script_calls [OF d]) (auto simp: session_inv_def session_legal_def event_sessions_def)
  then show ?thesis using assms(1)
    by (auto simp: session_inv_def session_step_def Continue d event_sessions_def)
next
  case (SettleHandler t out)
  then show ?thesis using assms(1)
    by (auto simp: session_inv_def session_step_def settle_handler_def Let_def event_sessions_def
      split: option.splits prod.splits)
qed

interpretation sessions: guarded_component "session_step C" session_inv session_legal for C
  by unfold_locales (rule session_step_inv)

lemma session_foldl:
  "foldl (session_step C) (as, s) es = (as @ concat (map event_sessions es), foldl (service_step C) s es)"
  by (induction es arbitrary: as s) (simp_all add: session_step_def)

lemma session_legal_run:
  "list_all (\<lambda>e. list_all api_sendable (event_apis e)) es \<Longrightarrow> distinct (fst x @ concat (map event_sessions es)) \<Longrightarrow>
   legal_run (session_step C) session_legal x es"
proof (induction es arbitrary: x)
  case (Cons e es)
  then have "legal_run (session_step C) session_legal (session_step C x e) es"
    by (intro Cons.IH) (auto simp: session_step_def)
  moreover have "session_legal x e" using Cons.prems by (auto simp: session_legal_def)
  ultimately show ?case by simp
qed simp

lemma calls_ok_new: "calls_ok new_service"
  by (simp add: calls_ok_def new_service_def settle_count_def outstanding_def)

text \<open>No call is lost and none is answered twice: as long as the C layer gives every call a session
  of its own, after any sequence of messages and calls the promise of each call is either settled,
  exactly once, or still waiting under exactly one session.\<close>

theorem calls_settle_once:
  assumes "distinct (concat (map event_sessions es))" "list_all (\<lambda>e. list_all api_sendable (event_apis e)) es"
  shows "calls_ok (foldl (service_step C) new_service es)"
proof -
  have "session_inv (foldl (session_step C) ([], new_service) es)"
    using assms by (intro sessions.run_legal session_legal_run) (simp_all add: session_inv_def calls_ok_new, simp add: new_service_def)
  then show ?thesis by (simp add: session_inv_def session_foldl)
qed

lemma calls_settle_once_witness:
  "calls_ok (foldl (service_step plain_layer) new_service [Continue [Call 9 (js ''text'') (JText []) 1 0, Call 9 (js ''lua'') (JText []) 2 (-1)],
     Deliver (JText []) 1 9 1 ([], Throws)])"
  by (rule calls_settle_once) (simp_all add: event_sessions_def)

section \<open>Which answer settles which call\<close>

text \<open>Effects are only ever added.\<close>

lemma effects_emit [simp]: "effects (emit e s) = effects s @ [e]"
  by (simp add: emit_def)

lemma prefix_snoc [simp]: "prefix xs (xs @ ys)"
  by (rule prefixI) simp

lemma prefix_settle: "prefix (effects s) (effects (settle p e s))"
  by (simp add: settle_def)

lemma prefix_api: "run_api pk a s = Some s' \<Longrightarrow> prefix (effects s) (effects s')"
  by (cases a) (auto simp: api_defs Let_def settle_def split: option.splits if_splits)

lemma prefix_script: "run_script pk as s = (t, s') \<Longrightarrow> prefix (effects s) (effects s')"
  by (induction pk as s rule: run_script.induct) (auto split: option.splits dest: prefix_api intro: prefix_order.trans)

lemma prefix_user: "run_user pk u s = (r, s') \<Longrightarrow> prefix (effects s) (effects s')"
  by (auto simp: run_user_def split: prod.splits dest: prefix_script)

lemma prefix_reply: "prefix (effects s) (effects (reply ses src ty v s))" "prefix (effects s) (effects (reply_error ses src ty s))"
  by (simp_all add: reply_def reply_error_def)

lemma prefix_dispatch:
  assumes "internal_dispatch C msg session source type u s = (r, s')"
  shows "prefix (effects s) (effects s')"
proof -
  have "prefix (effects s) (effects s')" if "run_user (pack C) u (emit e (s\<lparr>pendingTimers := m\<rparr>)) = (r', s')" for e m r'
    using prefix_user [OF that] by (auto dest: append_prefixD)
  moreover have "prefix (effects s) (effects s')" if "run_user (pack C) u (emit e s) = (r', s')" for e r'
    using prefix_user [OF that] by (auto dest: append_prefixD)
  ultimately show ?thesis using assms
    by (auto simp: internal_dispatch_def settle_def split: if_splits option.splits prod.splits)
qed

lemma prefix_step: "prefix (effects s) (effects (service_step C s e))"
proof (cases e)
  case (Deliver msg session source type u)
  obtain r s' where d: "internal_dispatch C msg session source type u s = (r, s')"
    by (cases "internal_dispatch C msg session source type u s")
  then show ?thesis using prefix_dispatch [OF d] prefix_reply prefix_order.trans
    by (cases r) (auto simp: Deliver wrapped_dispatch_def d, blast+)
next
  case (Continue as)
  then show ?thesis using prefix_script [of "pack C" as s] by (metis prod.collapse service_step.simps(2))
next
  case (SettleHandler t out)
  have "prefix (effects s) (effects (reply ses src ty v (s\<lparr>waiting := w\<rparr>)))"
    "prefix (effects s) (effects (reply_error ses src ty (s\<lparr>waiting := w\<rparr>)))" for ses src ty v w
    using prefix_reply [of "s\<lparr>waiting := w\<rparr>"] by simp_all
  then show ?thesis by (auto simp: SettleHandler settle_handler_def Let_def split: option.splits prod.splits)
qed

lemma prefix_run: "prefix (effects s) (effects (foldl (service_step C) s es))"
  by (induction es arbitrary: s) (auto intro: prefix_order.trans [OF prefix_step])

text \<open>A call waits until a message of its session arrives that is a response or an error.\<close>

fun answers_session :: "nat \<Rightarrow> service_event \<Rightarrow> bool" where
  "answers_session ses (Deliver msg session source type u) = (session = ses \<and> type \<in> {ptype_response, ptype_error})"
| "answers_session ses _ = False"

lemma waits_api: "run_api pk a s = Some s' \<Longrightarrow> ses \<notin> set (api_sessions a) \<Longrightarrow> pendingCalls s' ses = pendingCalls s ses"
  by (cases a) (auto simp: api_defs Let_def settle_def emit_def split: option.splits if_splits)

lemma waits_script:
  "run_script pk as s = (t, s') \<Longrightarrow> ses \<notin> set (concat (map api_sessions as)) \<Longrightarrow> pendingCalls s' ses = pendingCalls s ses"
  by (induction pk as s rule: run_script.induct) (auto split: option.splits dest: waits_api)

lemma waits_user:
  "run_user pk u s = (r, s') \<Longrightarrow> ses \<notin> set (concat (map api_sessions (fst u))) \<Longrightarrow> pendingCalls s' ses = pendingCalls s ses"
  by (auto simp: run_user_def simp del: set_concat split: prod.splits dest: waits_script)

lemma waits_dispatch:
  assumes "internal_dispatch C msg session source type u s = (r, s')" "ses \<notin> set (concat (map api_sessions (fst u)))"
    "\<not> (session = ses \<and> type \<in> {ptype_response, ptype_error})"
  shows "pendingCalls s' ses = pendingCalls s ses"
  using assms waits_user [of "pack C" u _ _ s' ses]
  by (auto simp: internal_dispatch_def simp del: set_concat split: if_splits option.splits prod.splits)

lemma waits_step:
  "ses \<notin> set (event_sessions e) \<Longrightarrow> \<not> answers_session ses e \<Longrightarrow> pendingCalls (service_step C s e) ses = pendingCalls s ses"
proof (cases e)
  case (Deliver msg session source type u)
  assume "ses \<notin> set (event_sessions e)" "\<not> answers_session ses e"
  moreover obtain r s' where d: "internal_dispatch C msg session source type u s = (r, s')"
    by (cases "internal_dispatch C msg session source type u s")
  ultimately have "pendingCalls s' ses = pendingCalls s ses"
    by (intro waits_dispatch [OF d]) (auto simp: Deliver event_sessions_def)
  then show ?thesis by (cases r) (simp_all add: Deliver wrapped_dispatch_def d)
next
  case (Continue as)
  assume "ses \<notin> set (event_sessions e)"
  then show ?thesis using waits_script [of "pack C" as s] by (metis Continue event_apis.simps(2) event_sessions_def prod.collapse service_step.simps(2))
qed (auto simp: settle_handler_def Let_def split: option.splits prod.splits)

lemma waits_run:
  "\<forall>e\<in>set es. ses \<notin> set (event_sessions e) \<and> \<not> answers_session ses e \<Longrightarrow>
   pendingCalls (foldl (service_step C) s es) ses = pendingCalls s ses"
  by (induction es arbitrary: s) (simp_all add: waits_step)

text \<open>The sessions under which calls wait are sessions that were given to calls.\<close>

lemma run_sessions:
  assumes "distinct (concat (map event_sessions es))" "list_all (\<lambda>e. list_all api_sendable (event_apis e)) es"
  shows "session_inv (concat (map event_sessions es), foldl (service_step C) new_service es)"
proof -
  have "session_inv (foldl (session_step C) ([], new_service) es)"
    using assms by (intro sessions.run_legal session_legal_run) (simp_all add: session_inv_def calls_ok_new, simp add: new_service_def)
  then show ?thesis by (simp add: session_foldl)
qed

lemmas calls_ok_run = conjunct1 [OF run_sessions [unfolded session_inv_def snd_conv]]
lemmas pending_sessions = conjunct2 [OF run_sessions [unfolded session_inv_def fst_conv snd_conv]]

text \<open>C23. The answer of a call is the first message of its session that is a response or an error, whatever
  happens before and after. Take any run of a service in which every call has a session of its own, and
  in it a point at which a call is waiting. Until its answer arrives (messages of other sessions, requests
  to the service, timers, calls of its own may come between) the call's promise is not settled. The answer
  settles it: a response resolves it with the value, turned into text unless the call takes bytes, an error
  rejects it. Nothing that comes later, another answer for the session included, settles it again.\<close>

theorem answer_settles_call:
  assumes "distinct (concat (map event_sessions (es1 @ es2 @ Deliver msg ses src t u # es3)))"
    and "list_all (\<lambda>e. list_all api_sendable (event_apis e)) (es1 @ es2 @ Deliver msg ses src t u # es3)"
    and "pendingCalls (foldl (service_step C) new_service es1) ses = Some (p, binary)"
    and "\<forall>e\<in>set es2. \<not> answers_session ses e" "t = ptype_response \<or> t = ptype_error"
  shows "filter (settles p) (effects (foldl (service_step C) new_service (es1 @ es2))) = [] \<and>
    filter (settles p) (effects (foldl (service_step C) new_service (es1 @ es2 @ Deliver msg ses src t u # es3))) =
      [if t = ptype_response then Resolved p (call_value C binary msg) else Rejected p]"
proof -
  let ?run = "foldl (service_step C) new_service"
  let ?s = "?run (es1 @ es2)" and ?d = "Deliver msg ses src t u"
  have ok: "calls_ok (?run xs)" if pre: "prefix xs (es1 @ es2 @ ?d # es3)" for xs
  proof (rule calls_ok_run)
    obtain zs where zs: "es1 @ es2 @ ?d # es3 = xs @ zs" using pre by (auto simp: prefix_def)
    show "distinct (concat (map event_sessions xs))" "list_all (\<lambda>e. list_all api_sendable (event_apis e)) xs"
      using assms(1,2) unfolding zs by simp_all
  qed
  have used: "dom (pendingCalls (?run es1)) \<subseteq> set (concat (map event_sessions es1))"
    using assms(1,2) by (intro pending_sessions) auto
  then have "ses \<in> set (concat (map event_sessions es1))" using assms(3) by blast
  then have "\<forall>e\<in>set es2. ses \<notin> set (event_sessions e)" using assms(1) by auto
  then have pend: "pendingCalls ?s ses = Some (p, binary)" using waits_run [of es2 ses C "?run es1"] assms(3,4) by simp
  then have out: "outstanding p ?s" by (auto simp: outstanding_iff)
  have "settle_count p ?s = 0" using ok [of "es1 @ es2"] out unfolding calls_ok_def by auto
  then have before: "filter (settles p) (effects ?s) = []" by (simp add: settle_count_def)
  let ?e = "if t = ptype_response then Resolved p (call_value C binary msg) else Rejected p"
  have eff: "effects (service_step C ?s ?d) = effects ?s @ [?e]"
    using assms(5) pend before
    by (auto simp: wrapped_dispatch_def internal_dispatch_def ptypes settle_def reply_def wants_reply_def list_ex_iff filter_empty_conv)
  have "?run (es1 @ es2 @ ?d # es3) = foldl (service_step C) (service_step C ?s ?d) es3" by simp
  then obtain ys where ys: "effects (?run (es1 @ es2 @ ?d # es3)) = (effects ?s @ [?e]) @ ys"
    using prefix_run [of "service_step C ?s ?d" C es3] unfolding eff by (metis prefixE)
  have "settle_count p (?run (es1 @ es2 @ ?d # es3)) \<le> 1"
    using ok [of "es1 @ es2 @ ?d # es3"] unfolding calls_ok_def by auto
  then have "length (filter (settles p) ((effects ?s @ [?e]) @ ys)) \<le> 1" unfolding settle_count_def ys .
  moreover have se: "settles p ?e" by simp
  ultimately have "filter (settles p) ys = []" by (simp only: filter_append filter.simps before if_True append_Nil append_Cons list.size) simp
  then show ?thesis unfolding ys by (simp only: filter_append filter.simps before se if_True append_Nil append_Cons simp_thms)
qed

text \<open>A call for text, a request and a second call in between, the answer, and an error for the same session.\<close>

lemma answer_settles_call_witness:
  "filter (settles 0) (effects (foldl (service_step plain_layer) new_service
      ([Continue [Call 9 (js ''text'') (JText []) 4 0]] @ [Deliver (JText []) 5 7 0 ([], Throws), Continue [Call 9 (js ''lua'') (JText []) 6 0]] @
       Deliver (JBuffer (encode_utf8 (js ''r''))) 4 9 ptype_response ([], Throws) # [Deliver JUndefined 4 9 ptype_error ([], Throws)]))) =
   [Resolved 0 (JText (js ''r''))]"
proof -
  let ?es1 = "[Continue [Call 9 (js ''text'') (JText []) 4 0]]" and ?d = "Deliver (JBuffer (encode_utf8 (js ''r''))) 4 9 ptype_response ([], Throws)"
  let ?es2 = "[Deliver (JText []) 5 7 0 ([], Throws), Continue [Call 9 (js ''lua'') (JText []) 6 0]]"
  let ?es3 = "[Deliver JUndefined 4 9 ptype_error ([], Throws)]"
  have h: "distinct (concat (map event_sessions (?es1 @ ?es2 @ ?d # ?es3)))"
    "list_all (\<lambda>e. list_all api_sendable (event_apis e)) (?es1 @ ?es2 @ ?d # ?es3)"
    "pendingCalls (foldl (service_step plain_layer) new_service ?es1) 4 = Some (0, False)" by code_simp+
  have "\<forall>e\<in>set ?es2. \<not> answers_session 4 e" by simp
  note app = conjunct2 [OF answer_settles_call [where ?es1.0 = ?es1 and ?es2.0 = ?es2 and ?es3.0 = ?es3 and C = plain_layer, OF h this disjI1 [OF refl]]]
  have "call_value plain_layer False (JBuffer (encode_utf8 (js ''r''))) = JText (js ''r'')"
    using decode_encode_utf8_all [of "js ''r''"] by (simp add: call_value_def plain_layer_def)
  then show ?thesis using app by (simp only: if_True simp_thms)
qed

end
