(* ===== verification/Events.thy ===== *)
theory Events
  imports Prelude "HOL-Library.AList"
begin

text \<open>
  The event emitter, \<open>js/builtins/events.js\<close>, on which the streams and sockets of the library are
  built. The \<open>Map\<close> from event names to lists of listeners is an association list in insertion
  order (\<open>AList.update\<close> and \<open>AList.delete\<close> are \<open>Map.set\<close> and \<open>Map.delete\<close>). A listener is a
  function of the user, or the wrapper that \<open>once\<close> makes; functions are compared by identity, so a
  wrapper carries the number it was created under, the event it unregisters itself from and the
  function in its property \<open>listener\<close>. What a user function does is a program of calls on the
  emitter, among them further emits, chosen from its argument and the user's state, and it may
  throw. Nested emits are bounded by the depth of the call stack: \<open>None\<close> says that the stack is
  exhausted.
\<close>

section \<open>The emitter\<close>

datatype listener = Fn nat | Wrapper nat jsstr listener

record emitter =
  events :: "(jsstr \<times> listener list) list"
  maxListeners :: int
  wrappers :: nat

definition new_emitter :: emitter where
  "new_emitter = \<lparr>events = [], maxListeners = 10, wrappers = 0\<rparr>"

datatype thrown = TypeError | RangeError | UserError

text \<open>\<open>_list(event, true)\<close>, and the property \<open>listener\<close> of a function.\<close>

definition list_of :: "emitter \<Rightarrow> jsstr \<Rightarrow> listener list" where
  "list_of E ev = (case map_of (events E) ev of None \<Rightarrow> [] | Some ls \<Rightarrow> ls)"

fun wrapped :: "listener \<Rightarrow> listener option" where
  "wrapped (Fn f) = None"
| "wrapped (Wrapper i ev l) = Some l"

text \<open>An argument that is not a function is \<open>None\<close>.\<close>

definition check_listener :: "listener option \<Rightarrow> thrown + listener" where
  "check_listener l = (case l of None \<Rightarrow> Inl TypeError | Some f \<Rightarrow> Inr f)"

definition on :: "jsstr \<Rightarrow> listener option \<Rightarrow> emitter \<Rightarrow> emitter \<times> thrown option" where
  "on ev listener E = (case check_listener listener of
     Inl e \<Rightarrow> (E, Some e)
   | Inr l \<Rightarrow> (E\<lparr>events := AList.update ev (list_of E ev @ [l]) (events E)\<rparr>, None))"

definition prepend_listener :: "jsstr \<Rightarrow> listener option \<Rightarrow> emitter \<Rightarrow> emitter \<times> thrown option" where
  "prepend_listener ev listener E = (case check_listener listener of
     Inl e \<Rightarrow> (E, Some e)
   | Inr l \<Rightarrow> (E\<lparr>events := AList.update ev (l # list_of E ev) (events E)\<rparr>, None))"

definition once :: "jsstr \<Rightarrow> listener option \<Rightarrow> emitter \<Rightarrow> emitter \<times> thrown option" where
  "once ev listener E = (case check_listener listener of
     Inl e \<Rightarrow> (E, Some e)
   | Inr l \<Rightarrow> on ev (Some (Wrapper (wrappers E) ev l)) (E\<lparr>wrappers := wrappers E + 1\<rparr>))"

definition prepend_once_listener :: "jsstr \<Rightarrow> listener option \<Rightarrow> emitter \<Rightarrow> emitter \<times> thrown option" where
  "prepend_once_listener ev listener E = (case check_listener listener of
     Inl e \<Rightarrow> (E, Some e)
   | Inr l \<Rightarrow> prepend_listener ev (Some (Wrapper (wrappers E) ev l)) (E\<lparr>wrappers := wrappers E + 1\<rparr>))"

definition matches :: "listener \<Rightarrow> listener \<Rightarrow> bool" where
  "matches listener x \<longleftrightarrow> x = listener \<or> wrapped x = Some listener"

text \<open>The loop from the last index down, and the splice.\<close>

fun remove_loop :: "listener \<Rightarrow> listener list \<Rightarrow> nat \<Rightarrow> listener list" where
  "remove_loop listener ls 0 = ls"
| "remove_loop listener ls (Suc i) =
     (if matches listener (ls ! i) then take i ls @ drop (Suc i) ls else remove_loop listener ls i)"

definition remove_listener :: "jsstr \<Rightarrow> listener \<Rightarrow> emitter \<Rightarrow> emitter" where
  "remove_listener ev listener E = (case map_of (events E) ev of
     None \<Rightarrow> E
   | Some ls \<Rightarrow>
       (let ls' = remove_loop listener ls (length ls)
        in E\<lparr>events := (if ls' = [] then AList.delete ev (events E) else AList.update ev ls' (events E))\<rparr>))"

definition remove_all_listeners :: "jsstr option \<Rightarrow> emitter \<Rightarrow> emitter" where
  "remove_all_listeners ev E =
     E\<lparr>events := (case ev of None \<Rightarrow> [] | Some e \<Rightarrow> AList.delete e (events E))\<rparr>"

text \<open>An argument of \<open>setMaxListeners\<close> that is not an integer is \<open>None\<close>.\<close>

definition set_max_listeners :: "int option \<Rightarrow> emitter \<Rightarrow> emitter \<times> thrown option" where
  "set_max_listeners n E = (case n of
     None \<Rightarrow> (E, Some RangeError)
   | Some k \<Rightarrow> if k < 0 then (E, Some RangeError) else (E\<lparr>maxListeners := k\<rparr>, None))"

definition listeners :: "jsstr \<Rightarrow> emitter \<Rightarrow> listener list" where
  "listeners ev E = map (\<lambda>l. case wrapped l of None \<Rightarrow> l | Some f \<Rightarrow> f) (list_of E ev)"

definition raw_listeners :: "jsstr \<Rightarrow> emitter \<Rightarrow> listener list" where
  "raw_listeners ev E = list_of E ev"

definition listener_count :: "jsstr \<Rightarrow> emitter \<Rightarrow> nat" where
  "listener_count ev E = (case map_of (events E) ev of None \<Rightarrow> 0 | Some ls \<Rightarrow> length ls)"

definition event_names :: "emitter \<Rightarrow> jsstr list" where
  "event_names E = map fst (events E)"

section \<open>Emitting\<close>

text \<open>
  The calls a program makes, and the tree of the listener calls that come of it. The world is the
  emitter and the user's own state.
\<close>

datatype 'a action =
    On jsstr "listener option" | Prepend jsstr "listener option"
  | Once jsstr "listener option" | PrependOnce jsstr "listener option"
  | Remove jsstr listener | RemoveAll "jsstr option" | SetMax "int option"
  | Emit jsstr 'a

datatype 'a call = Call (callee: listener) (args: 'a) (nested: "'a call list")

type_synonym 'u world = "emitter \<times> 'u"
type_synonym ('u, 'a) run = "('u world \<times> 'a call list \<times> thrown option) option"
type_synonym ('u, 'a) programs = "nat \<Rightarrow> 'a \<Rightarrow> 'u \<Rightarrow> 'u \<times> 'a action list \<times> bool"

text \<open>One thing after another: what is thrown ends the program.\<close>

definition andThen :: "('u, 'a) run \<Rightarrow> ('u world \<Rightarrow> ('u, 'a) run) \<Rightarrow> ('u, 'a) run" where
  "andThen r k = (case r of
     None \<Rightarrow> None
   | Some (w, cs, Some e) \<Rightarrow> Some (w, cs, Some e)
   | Some (w, cs, None) \<Rightarrow> (case k w of None \<Rightarrow> None | Some (v, ds, e) \<Rightarrow> Some (v, cs @ ds, e)))"

definition set_emitter :: "'u \<Rightarrow> emitter \<times> thrown option \<Rightarrow> ('u, 'a) run" where
  "set_emitter u r = Some ((fst r, u), [], snd r)"

fun run_action :: "(jsstr \<Rightarrow> 'a \<Rightarrow> 'u world \<Rightarrow> ('u, 'a) run) \<Rightarrow> 'a action \<Rightarrow> 'u world \<Rightarrow> ('u, 'a) run" where
  "run_action emits (On ev l) (E, u) = set_emitter u (on ev l E)"
| "run_action emits (Prepend ev l) (E, u) = set_emitter u (prepend_listener ev l E)"
| "run_action emits (Once ev l) (E, u) = set_emitter u (once ev l E)"
| "run_action emits (PrependOnce ev l) (E, u) = set_emitter u (prepend_once_listener ev l E)"
| "run_action emits (Remove ev l) (E, u) = set_emitter u (remove_listener ev l E, None)"
| "run_action emits (RemoveAll ev) (E, u) = set_emitter u (remove_all_listeners ev E, None)"
| "run_action emits (SetMax n) (E, u) = set_emitter u (set_max_listeners n E)"
| "run_action emits (Emit ev a) w = emits ev a w"

fun run_actions :: "(jsstr \<Rightarrow> 'a \<Rightarrow> 'u world \<Rightarrow> ('u, 'a) run) \<Rightarrow> 'a action list \<Rightarrow> 'u world \<Rightarrow> ('u, 'a) run" where
  "run_actions emits [] w = Some (w, [], None)"
| "run_actions emits (x # xs) w = andThen (run_action emits x w) (run_actions emits xs)"

text \<open>\<open>listener.apply(this, args)\<close>: a wrapper unregisters itself, then calls what it wraps.\<close>

fun apply_listener :: "(jsstr \<Rightarrow> 'a \<Rightarrow> 'u world \<Rightarrow> ('u, 'a) run) \<Rightarrow> ('u, 'a) programs \<Rightarrow> 'a \<Rightarrow> listener \<Rightarrow>
    'u world \<Rightarrow> ('u, 'a) run" where
  "apply_listener emits P a (Fn f) (E, u) =
     (case P f a u of (v, xs, throws) \<Rightarrow>
        andThen (run_actions emits xs (E, v)) (\<lambda>w. Some (w, [], if throws then Some UserError else None)))"
| "apply_listener emits P a (Wrapper i ev l) (E, u) =
     apply_listener emits P a l (remove_listener ev (Wrapper i ev l) E, u)"

definition call_listener :: "(jsstr \<Rightarrow> 'a \<Rightarrow> 'u world \<Rightarrow> ('u, 'a) run) \<Rightarrow> ('u, 'a) programs \<Rightarrow> 'a \<Rightarrow> listener \<Rightarrow>
    'u world \<Rightarrow> ('u, 'a) run" where
  "call_listener emits P a l w =
     map_option (\<lambda>(v, cs, e). (v, [Call l a cs], e)) (apply_listener emits P a l w)"

text \<open>The loop of \<open>emit\<close> over the copy of the list.\<close>

fun emit_loop :: "(jsstr \<Rightarrow> 'a \<Rightarrow> 'u world \<Rightarrow> ('u, 'a) run) \<Rightarrow> ('u, 'a) programs \<Rightarrow> 'a \<Rightarrow> listener list \<Rightarrow>
    'u world \<Rightarrow> ('u, 'a) run" where
  "emit_loop emits P a [] w = Some (w, [], None)"
| "emit_loop emits P a (l # ls) w = andThen (call_listener emits P a l w) (emit_loop emits P a ls)"

fun emit :: "nat \<Rightarrow> ('u, 'a) programs \<Rightarrow> jsstr \<Rightarrow> 'a \<Rightarrow> 'u world \<Rightarrow> ('u, 'a) run" where
  "emit 0 P ev a w = None"
| "emit (Suc n) P ev a (E, u) = emit_loop (emit n P) P a (list_of E ev) (E, u)"

text \<open>What \<open>emit\<close> returns when no listener throws.\<close>

definition emit_value :: "jsstr \<Rightarrow> emitter \<Rightarrow> bool" where
  "emit_value ev E \<longleftrightarrow> (case map_of (events E) ev of None \<Rightarrow> False | Some ls \<Rightarrow> ls \<noteq> [])"

text \<open>The program that uses the emitter: it catches what a call throws and goes on.\<close>

fun history :: "nat \<Rightarrow> ('u, 'a) programs \<Rightarrow> 'a action list \<Rightarrow> 'u world \<Rightarrow> ('u world \<times> 'a call list) option" where
  "history n P [] w = Some (w, [])"
| "history n P (x # xs) w = (case run_action (emit n P) x w of
     None \<Rightarrow> None
   | Some (v, cs, e) \<Rightarrow> map_option (\<lambda>(u, ds). (u, cs @ ds)) (history n P xs v))"

section \<open>What an emit calls\<close>

lemma call_listener_Some:
  "call_listener emits P a l w = Some (v, cs, e) \<Longrightarrow> \<exists>ds. cs = [Call l a ds]"
  by (auto simp: call_listener_def)

lemma emit_loop_calls:
  "emit_loop emits P a ls w = Some (v, cs, e) \<Longrightarrow>
   prefix (map callee cs) ls \<and> (e = None \<longrightarrow> map callee cs = ls) \<and> (\<forall>c\<in>set cs. args c = a)"
proof (induction ls arbitrary: w cs)
  case (Cons l ls)
  then obtain w' ds e' where c: "call_listener emits P a l w = Some (w', ds, e')"
    by (auto simp: andThen_def split: option.splits)
  obtain d where d: "ds = [Call l a d]" using call_listener_Some [OF c] by blast
  show ?case
  proof (cases e')
    case None
    then obtain es where "emit_loop emits P a ls w' = Some (v, es, e)" "cs = ds @ es"
      using Cons.prems c by (auto simp: andThen_def split: option.splits)
    then show ?thesis using Cons.IH d by fastforce
  next
    case (Some x)
    then show ?thesis using Cons.prems c d by (auto simp: andThen_def)
  qed
qed simp


text \<open>C25. An emit calls the listeners that are registered for the event when it starts, in the order of
  the list, once each and with the argument given, whatever the listeners do in between: register or
  remove listeners, themselves included, or emit again. Only a listener that throws ends it early.\<close>

theorem emit_snapshot:
  assumes "emit n P ev a (E, u) = Some (w, cs, e)"
  shows "prefix (map callee cs) (raw_listeners ev E) \<and> (e = None \<longrightarrow> map callee cs = raw_listeners ev E) \<and>
    (\<forall>c\<in>set cs. args c = a)"
  using assms by (cases n) (auto simp: raw_listeners_def dest: emit_loop_calls)

text \<open>A listener that removes the next one and adds a third: the next one is still called.\<close>

definition meddler :: "(unit, nat) programs" where
  "meddler f a u = (u, if f = 1 then [Remove (js ''e'') (Fn 2), On (js ''e'') (Some (Fn 3))] else [], False)"

lemma emit_snapshot_witness:
  "\<exists>w cs. emit 1 meddler (js ''e'') 7 (fst (on (js ''e'') (Some (Fn 2)) (fst (on (js ''e'') (Some (Fn 1)) new_emitter))), ()) =
     Some (w, cs, None) \<and> map callee cs = [Fn 1, Fn 2] \<and> listeners (js ''e'') (fst w) = [Fn 1, Fn 3]"
proof -
  let ?E = "fst (on (js ''e'') (Some (Fn 2)) (fst (on (js ''e'') (Some (Fn 1)) new_emitter)))"
  have "map_option (\<lambda>(w, cs, e). (fst w, e)) (emit 1 meddler (js ''e'') 7 (?E, ())) =
      Some (new_emitter\<lparr>events := [(js ''e'', [Fn 1, Fn 3])]\<rparr>, None)"
    by code_simp
  then obtain w cs where r: "emit 1 meddler (js ''e'') 7 (?E, ()) = Some (w, cs, None)"
      "fst w = new_emitter\<lparr>events := [(js ''e'', [Fn 1, Fn 3])]\<rparr>"
    by auto
  have l: "raw_listeners (js ''e'') ?E = [Fn 1, Fn 2]" by code_simp
  show ?thesis using emit_snapshot [OF r(1)] r l
    by (simp add: listeners_def list_of_def new_emitter_def)
qed

section \<open>The map of lists\<close>

lemma list_of_update [simp]:
  "list_of (E\<lparr>events := AList.update ev ls (events E)\<rparr>) = (list_of E)(ev := ls)"
  by (rule ext) (simp add: list_of_def update_conv')

lemma list_of_delete [simp]:
  "list_of (E\<lparr>events := AList.delete ev (events E)\<rparr>) = (list_of E)(ev := [])"
  by (rule ext) (simp add: list_of_def delete_conv')

lemma list_of_wrappers [simp]: "list_of (E\<lparr>wrappers := n\<rparr>) = list_of E"
  "list_of (E\<lparr>maxListeners := k\<rparr>) = list_of E"
  "list_of (E\<lparr>wrappers := n, events := es\<rparr>) = list_of (E\<lparr>events := es\<rparr>)"
  by (rule ext; simp add: list_of_def)+

lemma list_of_new [simp]: "list_of new_emitter ev = []" "list_of (E\<lparr>events := []\<rparr>) ev = []"
  by (simp_all add: list_of_def new_emitter_def)

lemma list_of_remove_listener:
  "list_of (remove_listener ev l E) = (list_of E)(ev := remove_loop l (list_of E ev) (length (list_of E ev)))"
proof (cases "map_of (events E) ev")
  case None
  then have "list_of E ev = []" by (simp add: list_of_def)
  then show ?thesis using None by (auto simp: remove_listener_def fun_eq_iff)
next
  case (Some ls)
  then have "list_of E ev = ls" by (simp add: list_of_def)
  then show ?thesis using Some by (simp add: remove_listener_def Let_def)
qed

lemma remove_loop_split:
  "n \<le> length ls \<Longrightarrow> (\<forall>x\<in>set (take n ls). \<not> matches l x) \<and> remove_loop l ls n = ls \<or>
     (\<exists>ys m zs. ls = ys @ m # zs \<and> matches l m \<and> remove_loop l ls n = ys @ zs)"
proof (induction n)
  case (Suc i)
  have t: "take (Suc i) ls = take i ls @ [ls ! i]" using Suc.prems by (simp add: take_Suc_conv_app_nth)
  have s: "ls = take i ls @ ls ! i # drop (Suc i) ls" using Suc.prems by (simp add: id_take_nth_drop)
  show ?case
  proof (cases "matches l (ls ! i)")
    case True
    then show ?thesis using s by (intro disjI2) (simp, blast)
  next
    case False
    then show ?thesis using Suc.IH Suc.prems by (auto simp: t)
  qed
qed simp

lemma remove_loop_cases:
  obtains "\<forall>x\<in>set ls. \<not> matches l x" "remove_loop l ls (length ls) = ls"
  | ys m zs where "ls = ys @ m # zs" "matches l m" "remove_loop l ls (length ls) = ys @ zs"
  using remove_loop_split [of "length ls" ls l] by auto

text \<open>The names of \<open>eventNames\<close> are those with a listener: an event whose last listener goes leaves the map.\<close>

definition tidy :: "emitter \<Rightarrow> bool" where
  "tidy E \<longleftrightarrow> distinct (map fst (events E)) \<and> (\<forall>p\<in>set (events E). snd p \<noteq> [])"

lemma set_AList_update: "p \<in> set (AList.update k v ps) \<Longrightarrow> p = (k, v) \<or> p \<in> set ps"
  by (induction ps) (auto split: if_splits)

lemma tidy_update: "tidy E \<Longrightarrow> ls \<noteq> [] \<Longrightarrow> tidy (E\<lparr>events := AList.update ev ls (events E)\<rparr>)"
  by (auto simp: tidy_def distinct_update dest!: set_AList_update)

lemma tidy_delete: "tidy E \<Longrightarrow> tidy (E\<lparr>events := AList.delete ev (events E)\<rparr>)"
  by (auto simp: tidy_def AList.delete_keys distinct_removeAll) (auto simp: AList.delete_eq)

lemma tidy_names: "tidy E \<Longrightarrow> ev \<in> set (event_names E) \<longleftrightarrow> listener_count ev E > 0"
proof (cases "map_of (events E) ev")
  case None
  then show ?thesis by (simp add: event_names_def listener_count_def) (simp add: map_of_eq_None_iff)
next
  case (Some ls)
  moreover from this have "(ev, ls) \<in> set (events E)" by (rule map_of_SomeD)
  ultimately show "tidy E \<Longrightarrow> ?thesis"
    by (force simp: tidy_def event_names_def listener_count_def)
qed

lemma tidy_counters [simp]: "tidy (E\<lparr>wrappers := n\<rparr>) = tidy E" "tidy (E\<lparr>maxListeners := k\<rparr>) = tidy E"
  by (simp_all add: tidy_def)

lemma tidy_on: "tidy E \<Longrightarrow> tidy (fst (on ev l E))"
  "tidy E \<Longrightarrow> tidy (fst (prepend_listener ev l E))"
  by (auto simp: on_def prepend_listener_def tidy_update split: sum.splits)

lemma tidy_once: "tidy E \<Longrightarrow> tidy (fst (once ev l E))"
  "tidy E \<Longrightarrow> tidy (fst (prepend_once_listener ev l E))"
  by (auto simp: once_def prepend_once_listener_def tidy_on split: sum.splits)

lemma tidy_remove: "tidy E \<Longrightarrow> tidy (remove_listener ev l E)"
  by (auto simp: remove_listener_def Let_def tidy_update tidy_delete split: option.splits)

lemma tidy_remove_all: "tidy E \<Longrightarrow> tidy (remove_all_listeners ev E)"
  by (cases ev) (auto simp: remove_all_listeners_def tidy_delete, simp add: tidy_def)

lemma tidy_set_max: "tidy E \<Longrightarrow> tidy (fst (set_max_listeners n E))"
  by (auto simp: set_max_listeners_def split: option.splits)

lemmas tidy_operations = tidy_on tidy_once tidy_remove tidy_remove_all tidy_set_max

text \<open>
  What every method of the emitter keeps is kept by every emit, however its listeners use the emitter.
\<close>

lemma andThen_SomeE:
  assumes "andThen r k = Some (v, cs, e)"
  obtains (stop) x where "r = Some (v, cs, Some x)" "e = Some x"
  | (go) w ds es where "r = Some (w, ds, None)" "k w = Some (v, es, e)" "cs = ds @ es"
  using assms by (auto simp: andThen_def split: option.splits)

locale emitter_invariant =
  fixes I :: "emitter \<Rightarrow> bool"
  assumes on_inv: "I E \<Longrightarrow> I (fst (on ev l E))"
    and prepend_inv: "I E \<Longrightarrow> I (fst (prepend_listener ev l E))"
    and once_inv: "I E \<Longrightarrow> I (fst (once ev l E))"
    and prepend_once_inv: "I E \<Longrightarrow> I (fst (prepend_once_listener ev l E))"
    and remove_inv: "I E \<Longrightarrow> I (remove_listener ev k E)"
    and remove_all_inv: "I E \<Longrightarrow> I (remove_all_listeners oe E)"
    and set_max_inv: "I E \<Longrightarrow> I (fst (set_max_listeners n E))"
begin

definition keeps :: "('u world \<Rightarrow> ('u, 'a) run) \<Rightarrow> bool" where
  "keeps r \<longleftrightarrow> (\<forall>E u E' u' cs e. I E \<longrightarrow> r (E, u) = Some ((E', u'), cs, e) \<longrightarrow> I E')"

lemma keepsD: "keeps r \<Longrightarrow> r (E, u) = Some ((E', u'), cs, e) \<Longrightarrow> I E \<Longrightarrow> I E'"
  unfolding keeps_def by blast

lemma keeps_andThen:
  assumes "keeps r" "keeps k"
  shows "keeps (\<lambda>w. andThen (r w) k)"
  unfolding keeps_def
  by (auto elim!: andThen_SomeE dest: keepsD [OF assms(1)] keepsD [OF assms(2)])

lemma run_action_keeps: "(\<And>ev a. keeps (emits ev a)) \<Longrightarrow> keeps (run_action emits x)"
  unfolding keeps_def [of "run_action emits x"]
  by (cases x) (auto simp: set_emitter_def on_inv prepend_inv once_inv prepend_once_inv remove_inv
      remove_all_inv set_max_inv dest: keepsD)

lemma run_actions_keeps: "(\<And>ev a. keeps (emits ev a)) \<Longrightarrow> keeps (run_actions emits xs)"
proof (induction xs)
  case (Cons x xs)
  then show ?case using keeps_andThen [OF run_action_keeps Cons.IH] by simp
qed (simp add: keeps_def)

lemma apply_listener_keeps:
  assumes "\<And>ev a. keeps (emits ev a)"
  shows "keeps (apply_listener emits P a l)"
proof (induction l)
  case (Fn f)
  show ?case unfolding keeps_def
    by (auto elim!: andThen_SomeE split: prod.splits dest: keepsD [OF run_actions_keeps [OF assms]])
next
  case (Wrapper i ev l)
  show ?case unfolding keeps_def [of "apply_listener emits P a (Wrapper i ev l)"]
    by (auto dest: keepsD [OF Wrapper] simp: remove_inv)
qed

lemma emit_loop_keeps: "(\<And>ev a. keeps (emits ev a)) \<Longrightarrow> keeps (emit_loop emits P a ls)"
proof (induction ls)
  case (Cons l ls)
  have "keeps (call_listener emits P a l)"
    using apply_listener_keeps [OF Cons.prems] unfolding keeps_def call_listener_def by fastforce
  then show ?case using keeps_andThen Cons by simp
qed (simp add: keeps_def)

lemma emit_keeps: "keeps (emit n P ev a)"
proof (induction n arbitrary: ev a)
  case (Suc n)
  show ?case using emit_loop_keeps [OF Suc] unfolding keeps_def by auto
qed (simp add: keeps_def)

lemma history_keeps: "history n P xs w = Some (v, cs) \<Longrightarrow> I (fst w) \<Longrightarrow> I (fst v)"
  by (induction n P xs w arbitrary: cs rule: history.induct)
     (auto simp: fst_def split: option.splits dest: keepsD [OF run_action_keeps [OF emit_keeps]])

end

interpretation tidy_map: emitter_invariant tidy
  by unfold_locales (simp_all add: tidy_operations)

interpretation limits: emitter_invariant "\<lambda>E. 0 \<le> maxListeners E"
  by unfold_locales
    (auto simp: on_def prepend_listener_def once_def prepend_once_listener_def remove_listener_def
      remove_all_listeners_def set_max_listeners_def Let_def split: sum.splits option.splits)


section \<open>Listeners that run once\<close>

text \<open>The flaw of the wrapper: nothing tells it that it has run, so an emit that started before
  it unregistered itself calls it again. Here the first listener emits the event once more.\<close>

definition reentrant :: "(bool, nat) programs" where
  "reentrant f a again = (False, if f = 1 \<and> again then [Emit (js ''e'') a] else [], False)"

fun all_calls :: "'a call \<Rightarrow> listener list" where
  "all_calls (Call l a cs) = l # concat (map all_calls cs)"

lemma once_runs_twice:
  "map_option (\<lambda>(w, cs). concat (map all_calls cs))
     (history 2 reentrant [On (js ''e'') (Some (Fn 1)), Once (js ''e'') (Some (Fn 2)), Emit (js ''e'') 0] (new_emitter, True)) =
   Some [Fn 1, Fn 1, Wrapper 0 (js ''e'') (Fn 2), Wrapper 0 (js ''e'') (Fn 2)]"
  by code_simp

text \<open>Programs that do not emit again, and use functions of their own only.\<close>

fun own_function :: "listener option \<Rightarrow> bool" where
  "own_function (Some (Wrapper i ev l)) = False"
| "own_function _ = True"

fun plain :: "'a action \<Rightarrow> bool" where
  "plain (On ev l) = own_function l"
| "plain (Prepend ev l) = own_function l"
| "plain (Once ev l) = own_function l"
| "plain (PrependOnce ev l) = own_function l"
| "plain (Remove ev l) = own_function (Some l)"
| "plain _ = True"

fun quiet :: "'a action \<Rightarrow> bool" where
  "quiet (Emit ev a) = False"
| "quiet x = plain x"

definition quiet_programs :: "('u, 'a) programs \<Rightarrow> bool" where
  "quiet_programs P \<longleftrightarrow> (\<forall>f a u. list_all quiet (fst (snd (P f a u))))"

text \<open>A listener of the list of an event, its wrapper number below a bound.\<close>

fun entry :: "nat \<Rightarrow> jsstr \<Rightarrow> listener \<Rightarrow> bool" where
  "entry n ev (Fn f) = True"
| "entry n ev (Wrapper i e l) = (e = ev \<and> i < n \<and> (\<exists>f. l = Fn f))"

definition wraps :: "listener list \<Rightarrow> listener list" where
  "wraps ls = filter (\<lambda>l. wrapped l \<noteq> None) ls"

lemma wraps_simps [simp]: "wraps [] = []" "wraps (Fn f # ls) = wraps ls"
  "wraps (Wrapper i ev l # ls) = Wrapper i ev l # wraps ls" "wraps (ks @ ls) = wraps ks @ wraps ls"
  by (simp_all add: wraps_def)

lemma set_wraps: "l \<in> set (wraps ls) \<longleftrightarrow> l \<in> set ls \<and> wrapped l \<noteq> None"
  by (auto simp: wraps_def)

lemma entry_mono: "entry n ev l \<Longrightarrow> n \<le> m \<Longrightarrow> entry m ev l"
  by (cases l) auto

lemma entry_wrapper: "entry n ev l \<Longrightarrow> wrapped l \<noteq> None \<Longrightarrow> \<exists>i f. i < n \<and> l = Wrapper i ev (Fn f)"
  by (cases l) auto

text \<open>The wrappers in the lists are distinct and none of them has been called.\<close>

definition fresh_lists :: "listener list \<Rightarrow> nat \<Rightarrow> (jsstr \<Rightarrow> listener list) \<Rightarrow> bool" where
  "fresh_lists C n L \<longleftrightarrow> distinct C \<and> (\<forall>c\<in>set C. \<exists>ev. entry n ev c) \<and>
     (\<forall>ev. list_all (entry n ev) (L ev) \<and> distinct (wraps (L ev)) \<and> set (wraps (L ev)) \<inter> set C = {})"

lemma fresh_lists_upd:
  "fresh_lists C n L \<Longrightarrow> list_all (entry n ev) ls \<Longrightarrow> distinct (wraps ls) \<Longrightarrow> set (wraps ls) \<inter> set C = {} \<Longrightarrow>
   fresh_lists C n (L(ev := ls))"
  by (auto simp: fresh_lists_def)

lemma fresh_lists_mono: "fresh_lists C n L \<Longrightarrow> n \<le> m \<Longrightarrow> fresh_lists C m L"
  unfolding fresh_lists_def by (meson entry_mono list.pred_mono_strong)

lemma fresh_listsD:
  "fresh_lists C n L \<Longrightarrow> list_all (entry n ev) (L ev) \<and> distinct (wraps (L ev)) \<and> set (wraps (L ev)) \<inter> set C = {}"
  by (simp add: fresh_lists_def)

lemma fresh_lists_fn:
  assumes "fresh_lists C n L"
  shows "fresh_lists C n (L(ev := L ev @ [Fn f]))" "fresh_lists C n (L(ev := Fn f # L ev))"
  using fresh_listsD [OF assms, of ev] by (auto intro!: fresh_lists_upd [OF assms])

lemma not_stored: "fresh_lists C n L \<Longrightarrow> Wrapper n ev l \<notin> set (L e)" "fresh_lists C n L \<Longrightarrow> Wrapper n ev l \<notin> set C"
  by (fastforce simp: fresh_lists_def list_all_iff)+

lemma wraps_Cons: "wraps (l # ls) = (if wrapped l = None then [] else [l]) @ wraps ls"
  by (simp add: wraps_def)

lemma fresh_lists_wrapper:
  assumes "fresh_lists C n L"
  shows "fresh_lists C (Suc n) (L(ev := L ev @ [Wrapper n ev (Fn f)]))"
    "fresh_lists C (Suc n) (L(ev := Wrapper n ev (Fn f) # L ev))"
proof -
  have m: "fresh_lists C (Suc n) L" by (rule fresh_lists_mono [OF assms]) simp
  note d = fresh_listsD [OF m, of ev]
  have "Wrapper n ev (Fn f) \<notin> set (wraps (L ev))" "Wrapper n ev (Fn f) \<notin> set C"
    using not_stored [OF assms] by (simp_all add: set_wraps)
  then show "fresh_lists C (Suc n) (L(ev := L ev @ [Wrapper n ev (Fn f)]))"
    "fresh_lists C (Suc n) (L(ev := Wrapper n ev (Fn f) # L ev))"
    using d by (auto intro!: fresh_lists_upd [OF m])
qed

lemma fresh_lists_remove:
  assumes "fresh_lists C n L"
  shows "fresh_lists C n (L(ev := remove_loop l (L ev) (length (L ev))))"
proof (cases rule: remove_loop_cases [of "L ev" l])
  case 1
  then show ?thesis using assms by simp
next
  case (2 ys m zs)
  have "list_all (entry n ev) (ys @ zs) \<and> distinct (wraps (ys @ zs)) \<and> set (wraps (ys @ zs)) \<inter> set C = {}"
    using fresh_listsD [OF assms, of ev] unfolding 2(1) by (auto simp: wraps_Cons split: if_splits)
  then show ?thesis unfolding 2(3) by (auto intro!: fresh_lists_upd [OF assms])
qed

text \<open>When the wrapper is called it leaves its list, so it can count as called.\<close>

lemma remove_wrapper_gone:
  assumes "fresh_lists C n L"
  shows "Wrapper i ev (Fn f) \<notin> set (remove_loop (Wrapper i ev (Fn f)) (L ev) (length (L ev)))"
proof (cases rule: remove_loop_cases [of "L ev" "Wrapper i ev (Fn f)"])
  case 1
  then show ?thesis by (auto simp: matches_def)
next
  case (2 ys m zs)
  have e: "entry n ev m" using fresh_listsD [OF assms, of ev] 2(1) by simp
  then have "m = Wrapper i ev (Fn f)" using 2(2) by (cases m) (auto simp: matches_def)
  then show ?thesis using fresh_listsD [OF assms, of ev] unfolding 2(3) by (auto simp: 2(1) set_wraps)
qed

lemma fresh_lists_called:
  assumes "fresh_lists C n L" "c \<notin> set C" "entry n ev c" "\<And>e. c \<notin> set (L e)"
  shows "fresh_lists (C @ [c]) n L"
  using assms by (auto simp: fresh_lists_def set_wraps)

lemma fresh_lists_call:
  assumes "fresh_lists C n L" "i < n" "Wrapper i ev (Fn f) \<notin> set C"
  shows "fresh_lists (C @ [Wrapper i ev (Fn f)]) n
    (L(ev := remove_loop (Wrapper i ev (Fn f)) (L ev) (length (L ev))))"
proof (rule fresh_lists_called [OF fresh_lists_remove [OF assms(1)] assms(3)])
  show "entry n ev (Wrapper i ev (Fn f))" using assms(2) by simp
  fix e
  have "e \<noteq> ev \<Longrightarrow> Wrapper i ev (Fn f) \<notin> set (L e)"
    using fresh_listsD [OF assms(1), of e] by (fastforce simp: list_all_iff)
  then show "Wrapper i ev (Fn f) \<notin> set ((L(ev := remove_loop (Wrapper i ev (Fn f)) (L ev) (length (L ev)))) e)"
    using remove_wrapper_gone [OF assms(1)] by simp
qed


text \<open>Every call of a quiet program keeps it so.\<close>

definition once_ok :: "listener list \<Rightarrow> emitter \<Rightarrow> bool" where
  "once_ok C E \<longleftrightarrow> fresh_lists C (wrappers E) (list_of E)"

lemma once_ok_new: "once_ok [] new_emitter"
  by (simp add: once_ok_def fresh_lists_def)

lemma own_function_cases: "own_function l \<Longrightarrow> l = None \<or> (\<exists>f. l = Some (Fn f))"
  by (cases l rule: own_function.cases) auto

lemma wrappers_remove [simp]: "wrappers (remove_listener ev l E) = wrappers E"
  by (simp add: remove_listener_def Let_def split: option.split)

lemma once_ok_remove: "once_ok C E \<Longrightarrow> once_ok C (remove_listener ev l E)"
  by (simp add: once_ok_def list_of_remove_listener fresh_lists_remove)

lemma once_ok_remove_all: "once_ok C E \<Longrightarrow> once_ok C (remove_all_listeners ev E)"
  by (cases ev) (auto simp: once_ok_def remove_all_listeners_def fresh_lists_def)

lemmas registering = on_def prepend_listener_def once_def prepend_once_listener_def check_listener_def

lemma once_ok_register:
  assumes "once_ok C E" "own_function l"
    "E' \<in> {fst (on ev l E), fst (prepend_listener ev l E), fst (once ev l E), fst (prepend_once_listener ev l E)}"
  shows "once_ok C E' \<and> wrappers E \<le> wrappers E'"
  using own_function_cases [OF assms(2)] assms(1,3)
  by (auto simp: registering once_ok_def fresh_lists_fn fresh_lists_wrapper)

lemma once_ok_set_max: "once_ok C E \<Longrightarrow> once_ok C (fst (set_max_listeners n E)) \<and> wrappers (fst (set_max_listeners n E)) = wrappers E"
  by (auto simp: set_max_listeners_def once_ok_def split: option.split)

lemma quiet_action:
  assumes "once_ok C E" "quiet x"
  shows "\<exists>E' e. run_action emits x (E, u) = Some ((E', u), [], e) \<and> once_ok C E' \<and> wrappers E \<le> wrappers E'"
  using assms
  by (cases x)
     (auto simp: set_emitter_def once_ok_remove once_ok_remove_all once_ok_set_max
       dest: once_ok_register [where E' = "fst (on _ _ E)"] once_ok_register [where E' = "fst (prepend_listener _ _ E)"]
       once_ok_register [where E' = "fst (once _ _ E)"] once_ok_register [where E' = "fst (prepend_once_listener _ _ E)"],
       simp add: remove_all_listeners_def)

lemma quiet_actions:
  assumes "once_ok C E" "list_all quiet xs"
  shows "\<exists>E' e. run_actions emits xs (E, u) = Some ((E', u), [], e) \<and> once_ok C E' \<and> wrappers E \<le> wrappers E'"
  using assms
proof (induction xs arbitrary: E)
  case (Cons x xs)
  obtain E1 e1 where 1: "run_action emits x (E, u) = Some ((E1, u), [], e1)" "once_ok C E1" "wrappers E \<le> wrappers E1"
    using quiet_action [OF Cons.prems(1), of x emits u] Cons.prems(2) by auto
  obtain E2 e2 where "run_actions emits xs (E1, u) = Some ((E2, u), [], e2)" "once_ok C E2" "wrappers E1 \<le> wrappers E2"
    using Cons.IH [OF 1(2)] Cons.prems(2) by auto
  then show ?case using 1 by (cases e1) (auto simp: andThen_def)
qed simp

lemma quiet_function:
  assumes "quiet_programs P" "once_ok C E"
  shows "\<exists>E' u' e. apply_listener emits P a (Fn f) (E, u) = Some ((E', u'), [], e) \<and> once_ok C E' \<and> wrappers E \<le> wrappers E'"
proof -
  obtain v xs th where P: "P f a u = (v, xs, th)" by (cases "P f a u")
  then have "list_all quiet xs" using assms(1) unfolding quiet_programs_def by (metis fst_conv snd_conv)
  from quiet_actions [OF assms(2) this, of emits v] show ?thesis
    by (auto simp: P andThen_def split: option.splits)
qed

lemma quiet_call:
  assumes "quiet_programs P" "once_ok C E" "entry (wrappers E) ev l" "set (wraps [l]) \<inter> set C = {}"
  shows "\<exists>E' u' e. call_listener emits P a l (E, u) = Some ((E', u'), [Call l a []], e) \<and>
    once_ok (C @ wraps [l]) E' \<and> wrappers E \<le> wrappers E'"
proof (cases l)
  case (Fn f)
  then show ?thesis using quiet_function [OF assms(1,2), of emits a f u] by (auto simp: call_listener_def)
next
  case (Wrapper i e k)
  then obtain f where l: "l = Wrapper i ev (Fn f)" "i < wrappers E" using assms(3) by auto
  let ?E = "remove_listener ev l E"
  have "once_ok (C @ [l]) ?E"
    using fresh_lists_call [of C "wrappers E" "list_of E" i ev f] assms(2,4) l
    by (simp add: once_ok_def list_of_remove_listener)
  then show ?thesis using quiet_function [OF assms(1), of "C @ [l]" ?E emits a f u]
    by (auto simp: call_listener_def l(1))
qed

lemma quiet_loop:
  assumes "quiet_programs P" "once_ok C E" "list_all (entry (wrappers E) ev) ls" "distinct (wraps ls)"
    "set (wraps ls) \<inter> set C = {}"
  shows "\<exists>E' u' cs e. emit_loop emits P a ls (E, u) = Some ((E', u'), cs, e) \<and> once_ok (C @ wraps (map callee cs)) E'"
  using assms(2-)
proof (induction ls arbitrary: C E u)
  case (Cons l ls)
  have "set (wraps [l]) \<inter> set C = {}" using Cons.prems(4) by (auto simp: wraps_Cons split: if_splits)
  then obtain E1 u1 e1 where 1: "call_listener emits P a l (E, u) = Some ((E1, u1), [Call l a []], e1)"
      "once_ok (C @ wraps [l]) E1" "wrappers E \<le> wrappers E1"
    using quiet_call [OF assms(1) Cons.prems(1), of ev l emits a u] Cons.prems(2) by auto
  show ?case
  proof (cases e1)
    case None
    have "list_all (entry (wrappers E1) ev) ls" using Cons.prems(2) 1(3)
      by (auto simp: list_all_iff intro: entry_mono)
    then obtain E2 u2 cs e2 where "emit_loop emits P a ls (E1, u1) = Some ((E2, u2), cs, e2)"
        "once_ok ((C @ wraps [l]) @ wraps (map callee cs)) E2"
      using Cons.IH [OF 1(2), of u1] Cons.prems(3,4) by (auto simp: wraps_Cons split: if_splits)
    then show ?thesis using 1 None by (simp add: andThen_def wraps_Cons)
  next
    case (Some x)
    then show ?thesis using 1 by (simp add: andThen_def)
  qed
qed simp

lemma quiet_history:
  assumes "quiet_programs P" "list_all plain xs" "once_ok C E"
  shows "\<exists>E' u' cs. history (Suc n) P xs (E, u) = Some ((E', u'), cs) \<and> once_ok (C @ wraps (map callee cs)) E'"
  using assms(2,3)
proof (induction xs arbitrary: C E u)
  case (Cons x xs)
  have "\<exists>E1 u1 cs1 e1. run_action (emit (Suc n) P) x (E, u) = Some ((E1, u1), cs1, e1) \<and> once_ok (C @ wraps (map callee cs1)) E1"
  proof (cases "quiet x")
    case True
    then show ?thesis using quiet_action [OF Cons.prems(2), of x "emit (Suc n) P" u] by auto
  next
    case False
    then obtain ev a where x: "x = Emit ev a" using Cons.prems(1) by (cases x) auto
    have "fresh_lists C (wrappers E) (list_of E)" using Cons.prems(2) by (simp add: once_ok_def)
    then show ?thesis using quiet_loop [OF assms(1) Cons.prems(2), of ev "list_of E ev" "emit n P" a u] fresh_listsD
      by (fastforce simp: x)
  qed
  then obtain E1 u1 cs1 e1 where 1: "run_action (emit (Suc n) P) x (E, u) = Some ((E1, u1), cs1, e1)"
      "once_ok (C @ wraps (map callee cs1)) E1"
    by blast
  obtain E2 u2 cs2 where "history (Suc n) P xs (E1, u1) = Some ((E2, u2), cs2)"
      "once_ok ((C @ wraps (map callee cs1)) @ wraps (map callee cs2)) E2"
    using Cons.IH [OF _ 1(2), of u1] Cons.prems(1) by auto
  then show ?case using 1(1) by simp
qed simp

text \<open>A listener registered with \<open>once\<close> runs at most once: over any sequence of calls, with
  listeners that register and remove listeners and throw but do not emit, every emit returns and no wrapper
  is called twice. (A listener that emits can make one run twice, as \<open>once_runs_twice\<close> shows.)\<close>

theorem once_at_most_once:
  assumes "quiet_programs P" "list_all plain xs"
  shows "\<exists>w cs. history (Suc n) P xs (new_emitter, u) = Some (w, cs) \<and>
    distinct (filter (\<lambda>l. wrapped l \<noteq> None) (map callee cs))"
proof -
  obtain E' u' cs where "history (Suc n) P xs (new_emitter, u) = Some ((E', u'), cs)" "once_ok ([] @ wraps (map callee cs)) E'"
    using quiet_history [OF assms once_ok_new] by blast
  then show ?thesis by (auto simp: once_ok_def fresh_lists_def wraps_def)
qed

lemma once_at_most_once_witness:
  "\<exists>w cs. history 1 meddler [Once (js ''e'') (Some (Fn 1)), Emit (js ''e'') 5, Emit (js ''e'') 6] (new_emitter, ()) = Some (w, cs) \<and>
    distinct (filter (\<lambda>l. wrapped l \<noteq> None) (map callee cs))"
  using once_at_most_once [of meddler "[Once (js ''e'') (Some (Fn 1)), Emit (js ''e'') 5, Emit (js ''e'') 6]" 0 "()"]
  by (simp add: quiet_programs_def meddler_def)

end
