(* ===== verification/Url_Params.thy ===== *)
theory Url_Params
  imports Http_Url "HOL-Library.List_Lexorder"
begin

text \<open>
  Query strings: \<open>URLSearchParams\<close> of \<open>js/internal/url-search-params.js\<close> and the facade
  \<open>js/builtins/querystring.js\<close>, over \<open>encodeURIComponent\<close> and \<open>decodeURIComponent\<close> as the
  language defines them: the first throws on a lone surrogate, the second on bytes that are not UTF-8.
\<close>

section \<open>encodeURIComponent and decodeURIComponent\<close>

definition uri_unreserved :: "code_unit \<Rightarrow> bool" where
  "uri_unreserved c \<longleftrightarrow> (65 \<le> c \<and> c \<le> 90) \<or> (97 \<le> c \<and> c \<le> 122) \<or> (48 \<le> c \<and> c \<le> 57) \<or>
     c \<in> {45, 95, 46, 33, 126, 42, 39, 40, 41}"

definition percents :: "bytes \<Rightarrow> jsstr" where
  "percents bs = concat (map percent_byte bs)"

text \<open>\<open>None\<close> is the \<open>URIError\<close>.\<close>

fun encode_uri :: "jsstr \<Rightarrow> jsstr option" where
  "encode_uri [] = Some []"
| "encode_uri (c # s) =
     (if uri_unreserved c then map_option ((#) c) (encode_uri s)
      else if is_low c then None
      else if is_high c
      then (case s of
              [] \<Rightarrow> None
            | lo # r \<Rightarrow> if is_low lo then map_option ((@) (percents (encode_cp (pair_cp c lo)))) (encode_uri r) else None)
      else map_option ((@) (percents (encode_cp (unat c)))) (encode_uri s))"

definition hex_byte :: "jsstr \<Rightarrow> (byte \<times> jsstr) option" where
  "hex_byte s =
     (if 3 \<le> length s \<and> hd s = 37 \<and> is_digit_of 16 (s ! 1) \<and> is_digit_of 16 (s ! 2)
      then Some (to_byte (digits_value 16 [s ! 1, s ! 2]), drop 3 s) else None)"

fun hex_bytes :: "nat \<Rightarrow> jsstr \<Rightarrow> (bytes \<times> jsstr) option" where
  "hex_bytes 0 s = Some ([], s)"
| "hex_bytes (Suc n) s =
     (case hex_byte s of None \<Rightarrow> None
      | Some (b, r) \<Rightarrow> map_option (\<lambda>(bs, t). (b # bs, t)) (hex_bytes n r))"

lemma hex_byte_length: "hex_byte s = Some (b, r) \<Longrightarrow> length r < length s"
  by (auto simp: hex_byte_def split: if_splits)

lemma hex_bytes_length: "hex_bytes n s = Some (bs, r) \<Longrightarrow> length r \<le> length s"
  by (induction n arbitrary: s bs) (auto split: option.splits dest!: hex_byte_length, fastforce)

text \<open>
  The lead byte says how many bytes follow; together they must be the encoding of one code point.
\<close>

function decode_uri :: "jsstr \<Rightarrow> jsstr option" where
  "decode_uri [] = Some []"
| "decode_uri (c # s) =
     (if c \<noteq> 37 then map_option ((#) c) (decode_uri s)
      else case hex_byte (c # s) of
        None \<Rightarrow> None
      | Some (b, r) \<Rightarrow>
          (case lead (unat b) of
             None \<Rightarrow> None
           | Some (need, cp, lo) \<Rightarrow>
               (case hex_bytes need r of
                  None \<Rightarrow> None
                | Some (bs, t) \<Rightarrow>
                    if is_utf8 (b # bs) then map_option ((@) (decode_utf8 (b # bs))) (decode_uri t) else None)))"
  by pat_completeness auto
termination
  by (relation "measure length") (auto dest!: hex_byte_length hex_bytes_length)

declare decode_uri.simps(2) [simp del]

section \<open>URLSearchParams\<close>

text \<open>The list \<open>_entries\<close>. A name or value is converted to a string by the caller.\<close>

type_synonym entries = "(jsstr \<times> jsstr) list"

text \<open>\<open>text.replace(/%20/g, "+")\<close> and the second \<open>replace\<close> of \<open>encodeComponent\<close>.\<close>

fun plus_20 :: "jsstr \<Rightarrow> jsstr" where
  "plus_20 (a # b # c # s) =
     (if a = 37 \<and> b = 50 \<and> c = 48 then 43 # plus_20 s else a # plus_20 (b # c # s))"
| "plus_20 s = s"

definition escape_marks :: "jsstr \<Rightarrow> jsstr" where
  "escape_marks s = concat (map (\<lambda>c. if c \<in> {33, 39, 40, 41, 126}
     then 37 # map upper_unit (to_radix 16 (unat c)) else [c]) s)"

definition encode_component :: "jsstr \<Rightarrow> jsstr option" where
  "encode_component s = map_option (\<lambda>t. escape_marks (plus_20 t)) (encode_uri s)"

definition decode_component :: "jsstr \<Rightarrow> jsstr" where
  "decode_component s =
     (case decode_uri (map (\<lambda>c. if c = 43 then 32 else c) s) of None \<Rightarrow> s | Some t \<Rightarrow> t)"

definition parse_part :: "jsstr \<Rightarrow> entries" where
  "parse_part part =
     (if part = [] then []
      else case index_of_char part 61 of
        None \<Rightarrow> [(decode_component part, [])]
      | Some i \<Rightarrow> [(decode_component (take i part), decode_component (drop (i + 1) part))])"

definition parse_params :: "jsstr \<Rightarrow> entries" where
  "parse_params text =
     (let stripped = (if starts_with text [63] then tl text else text)
      in if stripped = [] then [] else concat (map parse_part (split_on 38 stripped)))"

text \<open>What the constructor may be given; a tuple that is no pair is a \<open>TypeError\<close>, \<open>None\<close>.\<close>

datatype init = NoInit | Text jsstr | Params entries | Tuples "jsstr list list" | Record entries

definition append_param :: "jsstr \<Rightarrow> jsstr \<Rightarrow> entries \<Rightarrow> entries" where
  "append_param name val es = es @ [(name, val)]"

fun append_tuples :: "jsstr list list \<Rightarrow> entries \<Rightarrow> entries option" where
  "append_tuples [] es = Some es"
| "append_tuples (p # ps) es =
     (if length p \<noteq> 2 then None else append_tuples ps (append_param (p ! 0) (p ! 1) es))"

fun new_params :: "init \<Rightarrow> entries option" where
  "new_params NoInit = Some []"
| "new_params (Text t) = Some (parse_params t)"
| "new_params (Params es) = Some es"
| "new_params (Tuples ps) = append_tuples ps []"
| "new_params (Record ps) = Some (foldl (\<lambda>es p. append_param (fst p) (snd p) es) [] ps)"

definition delete_param :: "jsstr \<Rightarrow> jsstr option \<Rightarrow> entries \<Rightarrow> entries" where
  "delete_param key val es =
     filter (\<lambda>pair. if fst pair \<noteq> key then True else val \<noteq> None \<and> Some (snd pair) \<noteq> val) es"

fun get_param :: "jsstr \<Rightarrow> entries \<Rightarrow> jsstr option" where
  "get_param key [] = None"
| "get_param key (pair # es) = (if fst pair = key then Some (snd pair) else get_param key es)"

definition get_all :: "jsstr \<Rightarrow> entries \<Rightarrow> jsstr list" where
  "get_all key es = map snd (filter (\<lambda>pair. fst pair = key) es)"

definition has_param :: "jsstr \<Rightarrow> jsstr option \<Rightarrow> entries \<Rightarrow> bool" where
  "has_param key val es \<longleftrightarrow> list_ex (\<lambda>pair. fst pair = key \<and> (val = None \<or> Some (snd pair) = val)) es"

text \<open>The loop of \<open>set\<close>: what it has kept, and whether it has replaced.\<close>

fun set_loop :: "jsstr \<Rightarrow> jsstr \<Rightarrow> entries \<Rightarrow> entries \<Rightarrow> bool \<Rightarrow> entries \<times> bool" where
  "set_loop key text [] next replaced = (next, replaced)"
| "set_loop key text (pair # es) next replaced =
     (if fst pair \<noteq> key then set_loop key text es (next @ [pair]) replaced
      else if \<not> replaced then set_loop key text es (next @ [(key, text)]) True
      else set_loop key text es next replaced)"

definition set_param :: "jsstr \<Rightarrow> jsstr \<Rightarrow> entries \<Rightarrow> entries" where
  "set_param key text es =
     (case set_loop key text es [] False of (next, replaced) \<Rightarrow>
        if replaced then next else next @ [(key, text)])"

text \<open>\<open>sort\<close> is stable and compares names by their code units.\<close>

definition sort_params :: "entries \<Rightarrow> entries" where
  "sort_params es = sort_key fst es"

fun all_some :: "'a option list \<Rightarrow> 'a list option" where
  "all_some [] = Some []"
| "all_some (x # xs) = (case x of None \<Rightarrow> None | Some y \<Rightarrow> map_option ((#) y) (all_some xs))"

definition entry_text :: "jsstr \<times> jsstr \<Rightarrow> jsstr option" where
  "entry_text p = (case encode_component (fst p) of None \<Rightarrow> None
     | Some k \<Rightarrow> map_option (\<lambda>v. k @ [61] @ v) (encode_component (snd p)))"

definition params_text :: "entries \<Rightarrow> jsstr option" where
  "params_text es = map_option (join_with [38]) (all_some (map entry_text es))"

section \<open>The querystring facade\<close>

text \<open>
  A value of the object is a list, a string (numbers and booleans by their text), or missing
  (\<open>undefined\<close> or \<open>null\<close>).
\<close>

datatype qvalue = QText jsstr | QList "jsstr list" | QMissing

definition qs_escape :: "jsstr \<Rightarrow> jsstr option" where
  "qs_escape s = encode_uri s"

definition qs_unescape :: "jsstr \<Rightarrow> jsstr" where
  "qs_unescape s = (case decode_uri s of None \<Rightarrow> s | Some t \<Rightarrow> t)"

fun qs_parts :: "jsstr \<Rightarrow> jsstr \<times> qvalue \<Rightarrow> jsstr list option" where
  "qs_parts equals (k, QList vs) = (case qs_escape k of None \<Rightarrow> None
     | Some e \<Rightarrow> all_some (map (\<lambda>v. map_option (\<lambda>t. e @ equals @ t) (qs_escape v)) vs))"
| "qs_parts equals (k, QText v) = (case qs_escape k of None \<Rightarrow> None
     | Some e \<Rightarrow> map_option (\<lambda>t. [e @ equals @ t]) (qs_escape v))"
| "qs_parts equals (k, QMissing) = map_option (\<lambda>e. [e @ equals]) (qs_escape k)"

definition qs_stringify :: "(jsstr \<times> qvalue) list \<Rightarrow> jsstr \<Rightarrow> jsstr \<Rightarrow> jsstr option" where
  "qs_stringify obj separator equals =
     map_option (\<lambda>ps. join_with separator (concat ps)) (all_some (map (qs_parts equals) obj))"

text \<open>\<open>str.split(sep)\<close> for a separator of any length.\<close>

function split_str :: "jsstr \<Rightarrow> jsstr \<Rightarrow> jsstr list" where
  "split_str sep s =
     (if sep = [] then map (\<lambda>c. [c]) s
      else case index_of s sep of None \<Rightarrow> [s]
        | Some i \<Rightarrow> take i s # split_str sep (drop (i + length sep) s))"
  by pat_completeness auto
termination
  by (relation "measure (\<lambda>(sep, s). length s)") (auto dest!: index_of_le intro!: diff_less)

declare split_str.simps [simp del]

definition qs_pair :: "jsstr \<Rightarrow> jsstr \<Rightarrow> jsstr \<times> jsstr" where
  "qs_pair equals pair = (case index_of pair equals of
     Some i \<Rightarrow> (qs_unescape (take i pair), qs_unescape (drop (i + 1) pair))
   | None \<Rightarrow> (qs_unescape pair, []))"

definition qs_add :: "jsstr \<times> jsstr \<Rightarrow> header \<Rightarrow> header" where
  "qs_add p result = (case map_of result (fst p) of
     None \<Rightarrow> obj_put (fst p) (One (snd p)) result
   | Some (Many vs) \<Rightarrow> obj_put (fst p) (Many (vs @ [snd p])) result
   | Some (One v) \<Rightarrow> obj_put (fst p) (Many [v, snd p]) result)"

fun qs_loop :: "nat \<Rightarrow> jsstr \<Rightarrow> jsstr list \<Rightarrow> nat \<Rightarrow> header \<Rightarrow> header" where
  "qs_loop maxKeys equals [] count result = result"
| "qs_loop maxKeys equals (pair # ps) count result =
     (if maxKeys > 0 \<and> count \<ge> maxKeys then result
      else if pair = [] then qs_loop maxKeys equals ps count result
      else qs_loop maxKeys equals ps (count + 1) (qs_add (qs_pair equals pair) result))"

definition qs_parse :: "jsstr \<Rightarrow> jsstr \<Rightarrow> jsstr \<Rightarrow> nat \<Rightarrow> header" where
  "qs_parse str separator equals maxKeys =
     (if str = [] then [] else qs_loop maxKeys equals (split_str separator str) 0 [])"


section \<open>Percent encoding of well-formed strings\<close>

lemma is_hex_digit: "d < 16 \<Longrightarrow> is_digit_of 16 (hex_digit d)"
  by (rule hex_digit(3))

lemma hex_byte_percent: "hex_byte (percent_byte b @ r) = Some (b, r)"
proof -
  have d: "unat b div 16 < 16" "unat b mod 16 < 16" using unat_byte [of b] by simp_all
  have "digits_value 16 [hex_digit (unat b div 16), hex_digit (unat b mod 16)] = unat b"
    using hex_digit(1) [OF d(1)] hex_digit(1) [OF d(2)] by (simp add: digits_value_def)
  then show ?thesis using d by (simp add: percent_byte_digits hex_byte_def is_hex_digit numeral_2_eq_2 numeral_3_eq_3)
qed

lemma hex_bytes_percents: "hex_bytes (length bs) (percents bs @ r) = Some (bs, r)"
  by (induction bs) (simp_all add: percents_def hex_byte_percent)

lemma percents_Cons: "percents (b # bs) = percent_byte b @ percents bs"
  by (simp add: percents_def)

lemma lead_encode_cp:
  assumes "scalar cp"
  obtains b bs c lo where "encode_cp cp = b # bs" "lead (unat b) = Some (length bs, c, lo)"
proof -
  consider "cp < 0x80" | "0x80 \<le> cp" "cp < 0x800" | "0x800 \<le> cp" "cp < 0x10000" | "0x10000 \<le> cp" "cp < 0x110000"
    using assms unfolding scalar_def by linarith
  then show thesis
  proof cases
    case 1
    then have "cp mod 256 = cp" by simp
    then have "lead (unat (to_byte cp)) = Some (length ([] :: bytes), cp, 0)" using 1 by (simp add: lead_def)
    then show thesis by (rule that [rotated]) (simp add: encode_cp_simps(1) [OF 1])
  next
    case 2
    then have "cp div 64 < 32" using less_mult_imp_div_less [of cp 32 64] by simp
    then have "lead (unat (to_byte (0xc0 + cp div 64))) = Some (1, cp div 64, 0x80)" by (simp add: lead_cases)
    then show thesis by (intro that [rotated]) (simp_all add: encode_cp_simps(2) [OF 2])
  next
    case 3
    then have "cp div 4096 < 16" using less_mult_imp_div_less [of cp 16 4096] by simp
    then have "lead (unat (to_byte (0xe0 + cp div 4096))) = Some (2, cp div 4096, 0x800)" by (simp add: lead_cases)
    then show thesis by (intro that [rotated]) (simp_all add: encode_cp_simps(3) [OF 3])
  next
    case 4
    then have "cp div 262144 < 5" using less_mult_imp_div_less [of cp 5 262144] by simp
    then have "lead (unat (to_byte (0xf0 + cp div 262144))) = Some (3, cp div 262144, 0x10000)" by (simp add: lead_cases)
    then show thesis by (intro that [rotated]) (simp_all add: encode_cp_simps(4) [OF 4])
  qed
qed

lemma percent_byte_head: "\<exists>t. percent_byte b = 37 # t"
  by (simp add: percent_byte_def)

lemma decode_uri_percents:
  assumes "scalar cp"
  shows "decode_uri (percents (encode_cp cp) @ r) = map_option ((@) (from_cp cp)) (decode_uri r)"
proof -
  obtain b bs c lo where e: "encode_cp cp = b # bs" "lead (unat b) = Some (length bs, c, lo)"
    by (rule lead_encode_cp [OF assms])
  have u: "is_utf8 (b # bs)" using is_utf8_encode_cp [OF assms, of "[]"] by (simp add: e(1) del: is_utf8.simps(2)) 
  have d: "decode_utf8 (b # bs) = from_cp cp"
    using decode_utf8_encode_cp [of cp "[]"] assms by (simp add: e(1) scalar_def del: decode_utf8.simps(2))
  obtain t where t: "percent_byte b = 37 # t" using percent_byte_head by blast
  have h: "hex_byte (37 # t @ percents bs @ r) = Some (b, percents bs @ r)"
    using hex_byte_percent [of b "percents bs @ r"] by (simp add: t)
  show ?thesis
    using u d by (simp add: e percents_Cons t decode_uri.simps(2) h hex_bytes_percents del: is_utf8.simps decode_utf8.simps)
qed

lemma decode_uri_unit: "c \<noteq> 37 \<Longrightarrow> decode_uri (c # s) = map_option ((#) c) (decode_uri s)"
  by (simp add: decode_uri.simps(2))

lemma uri_unreserved_ascii: "uri_unreserved c \<Longrightarrow> unat c < 128 \<and> c \<notin> {37, 38, 43, 61, 63}"
  by (auto simp: uri_unreserved_def word_le_nat_alt)

lemma scalar_unit: "\<not> is_low c \<Longrightarrow> \<not> is_high c \<Longrightarrow> scalar (unat c) \<and> from_cp (unat c) = [c]"
  using unat_unit [of c] by (auto simp: scalar_def surrogate_bounds from_cp_def)

lemma scalar_pair: "is_high c \<Longrightarrow> is_low lo \<Longrightarrow> scalar (pair_cp c lo) \<and> from_cp (pair_cp c lo) = [c, lo] \<and> 0x10000 \<le> pair_cp c lo"
  using from_cp_pair [of c lo] by (auto simp: scalar_def pair_cp_arith)

text \<open>The pieces an encoded string is made of, and the string they stand for.\<close>

inductive pieces :: "jsstr \<Rightarrow> jsstr \<Rightarrow> bool" where
  nothing: "pieces [] []"
| unit: "uri_unreserved c \<Longrightarrow> pieces s t \<Longrightarrow> pieces (c # s) (c # t)"
| escaped: "scalar cp \<Longrightarrow> pieces s t \<Longrightarrow> pieces (from_cp cp @ s) (percents (encode_cp cp) @ t)"

lemma encode_uri_pieces: "encode_uri s = Some t \<Longrightarrow> pieces s t"
proof (induction s arbitrary: t rule: encode_uri.induct)
  case (2 c s)
  show ?case
  proof (cases "uri_unreserved c")
    case True
    then show ?thesis using 2 by (auto intro: pieces.unit)
  next
    case nu: False
    then have l: "\<not> is_low c" using "2.prems" by auto
    show ?thesis
    proof (cases "is_high c")
      case True
      then obtain lo r u where s: "s = lo # r" "is_low lo" "encode_uri r = Some u"
          "t = percents (encode_cp (pair_cp c lo)) @ u"
        using "2.prems" nu l by (auto split: list.splits if_splits)
      then have "pieces r u" using "2.IH"(2) [OF nu l True s(1,2) s(3)] by blast
      then show ?thesis using pieces.escaped [of "pair_cp c lo" r u] scalar_pair [OF True s(2)] s by simp
    next
      case False
      then obtain u where u: "encode_uri s = Some u" "t = percents (encode_cp (unat c)) @ u" using "2.prems" nu l by auto
      then have "pieces s u" using "2.IH"(3) [OF nu l False] by blast
      then show ?thesis using pieces.escaped [of "unat c" s u] scalar_unit [OF l False] u by simp
    qed
  qed
qed (auto intro: pieces.nothing)

lemma decode_pieces: "pieces s t \<Longrightarrow> decode_uri t = Some s"
  by (induction rule: pieces.induct) (auto simp: decode_uri_percents decode_uri_unit dest!: uri_unreserved_ascii)

lemma unescape_escape: "qs_escape s = Some t \<Longrightarrow> qs_unescape t = s"
  by (simp add: qs_escape_def qs_unescape_def decode_pieces [OF encode_uri_pieces])


subsection \<open>The form of URLSearchParams\<close>

lemma plus_20_unit: "c \<noteq> 37 \<Longrightarrow> plus_20 (c # s) = c # plus_20 s"
  by (cases "c # s" rule: plus_20.cases) auto

lemma hex_digit_code: "list_all (\<lambda>d. hex_digit d \<notin> {37, 33, 39, 40, 41, 126, 43, 63} \<and> (hex_digit d = 50 \<longleftrightarrow> d = 2) \<and>
    (hex_digit d = 48 \<longleftrightarrow> d = 0)) [0..<16]"
  by code_simp

lemma hex_digit_facts:
  "d < 16 \<Longrightarrow> hex_digit d \<notin> {37, 33, 39, 40, 41, 126, 43, 63} \<and> (hex_digit d = 50 \<longleftrightarrow> d = 2) \<and> (hex_digit d = 48 \<longleftrightarrow> d = 0)"
  using hex_digit_code by (auto simp: list_all_iff)

lemma byte_digits: "unat (b :: byte) div 16 < 16" "unat b mod 16 < 16"
  using unat_byte [of b] by simp_all

lemma plus_20_percent:
  "plus_20 (percent_byte b @ s) = (if b = 32 then [43] else percent_byte b) @ plus_20 s"
proof -
  let ?h = "unat b div 16" and ?l = "unat b mod 16"
  note f = hex_digit_facts [OF byte_digits(1)] hex_digit_facts [OF byte_digits(2)]
  have "b = 32 \<longleftrightarrow> unat b = unat (32 :: byte)" by (rule word_unat_eq_iff)
  then have "b = 32 \<longleftrightarrow> unat b = 32" by simp
  also have "unat b = 32 \<longleftrightarrow> ?h = 2 \<and> ?l = 0" using div_mult_mod_eq [of "unat b" 16] by auto
  finally have b: "b = 32 \<longleftrightarrow> ?h = 2 \<and> ?l = 0" .
  show ?thesis
  proof (cases "b = 32")
    case True
    have "hex_digit 2 = 50" "hex_digit 0 = 48" by code_simp+
    then show ?thesis using True b by (simp add: percent_byte_digits)
  next
    case False
    then have "\<not> (hex_digit ?h = 50 \<and> hex_digit ?l = 48)" using b f by blast
    then show ?thesis using False f by (simp add: percent_byte_digits plus_20_unit)
  qed
qed

lemma encode_cp_high:
  assumes "scalar cp" "0x80 \<le> cp" "b \<in> set (encode_cp cp)"
  shows "0x80 \<le> unat b"
proof -
  consider "cp < 0x800" | "0x800 \<le> cp" "cp < 0x10000" | "0x10000 \<le> cp" "cp < 0x110000"
    using assms(1) unfolding scalar_def by linarith
  then show ?thesis
  proof cases
    case 1
    then have "cp div 64 < 32" using less_mult_imp_div_less [of cp 32 64] by simp
    then show ?thesis using assms(2,3) 1 by (auto simp: encode_cp_simps or_lead)
  next
    case 2
    then have "cp div 4096 < 16" using less_mult_imp_div_less [of cp 16 4096] by simp
    then show ?thesis using assms(3) 2 by (auto simp: encode_cp_simps or_lead)
  next
    case 3
    then have "cp div 262144 < 5" using less_mult_imp_div_less [of cp 5 262144] by simp
    then show ?thesis using assms(3) 3 by (auto simp: encode_cp_simps or_lead)
  qed
qed

lemma no_blank: "scalar cp \<Longrightarrow> cp \<noteq> 32 \<Longrightarrow> 32 \<notin> set (encode_cp cp)"
proof (cases "cp < 0x80")
  case True
  assume "cp \<noteq> 32"
  then have "unat (to_byte cp) \<noteq> unat (32 :: byte)" using True by simp
  then have "to_byte cp \<noteq> 32" by metis
  then show ?thesis using True by (auto simp: encode_cp_simps)
next
  case False
  assume "scalar cp"
  then show ?thesis using False encode_cp_high [of cp 32] by auto
qed

lemma plus_20_percents: "32 \<notin> set bs \<Longrightarrow> plus_20 (percents bs @ s) = percents bs @ plus_20 s"
  by (induction bs) (auto simp: percents_def plus_20_percent)

lemma escape_marks_append: "escape_marks (s @ t) = escape_marks s @ escape_marks t"
  by (simp add: escape_marks_def)

lemma escape_marks_id: "set s \<inter> {33, 39, 40, 41, 126} = {} \<Longrightarrow> escape_marks s = s"
  by (induction s) (auto simp: escape_marks_def)

lemma set_percent_byte: "c \<in> set (percent_byte b) \<Longrightarrow> c \<notin> {33, 39, 40, 41, 126, 43, 38, 61, 63}"
proof -
  assume "c \<in> set (percent_byte b)"
  then consider "c = 37" | "c = hex_digit (unat b div 16)" | "c = hex_digit (unat b mod 16)"
    by (auto simp: percent_byte_digits)
  then show ?thesis
  proof cases
    case 2
    then show ?thesis using hex_digit_facts [OF byte_digits(1)] hex_digit(4) [OF byte_digits(1)] by simp
  next
    case 3
    then show ?thesis using hex_digit_facts [OF byte_digits(2)] hex_digit(4) [OF byte_digits(2)] by simp
  qed simp
qed

lemma set_percents: "c \<in> set (percents bs) \<Longrightarrow> c \<notin> {33, 39, 40, 41, 126, 43, 38, 61, 63}"
  using set_percent_byte by (auto simp: percents_def simp del: insert_iff)

lemma mark_codes: "list_all (\<lambda>c. length (to_radix 16 (unat c)) = 2 \<and> unat c < 128 \<and> \<not> is_high c \<and> \<not> is_low c)
    ([33, 39, 40, 41, 126] :: code_unit list)"
  by code_simp

lemma escape_mark_codes:
  assumes "c \<in> set [33, 39, 40, 41, 126]"
  shows "scalar (unat c) \<and> from_cp (unat c) = [c] \<and> escape_marks [c] = percents (encode_cp (unat c))"
proof -
  have c: "length (to_radix 16 (unat c)) = 2" "unat c < 128" "\<not> is_high c" "\<not> is_low c"
    using mark_codes [unfolded list_all_iff, rule_format, OF assms] by blast+
  have "escape_marks [c] = percent_byte (to_byte (unat c))"
    using assms c(1,2) by (simp add: escape_marks_def percent_byte_def pad_start_def)
  then show ?thesis using scalar_unit [OF c(4,3)] encode_cp_simps(1) [of "unat c"] c(2) by (simp add: percents_def)
qed

lemma escape_mark_unit:
  "uri_unreserved c \<Longrightarrow> escape_marks [c] = [c] \<and> c \<noteq> 43 \<or>
     scalar (unat c) \<and> from_cp (unat c) = [c] \<and> escape_marks [c] = percents (encode_cp (unat c))"
proof (cases "c \<in> set [33, 39, 40, 41, 126]")
  case False
  assume "uri_unreserved c"
  then show ?thesis using False uri_unreserved_ascii [of c] by (simp add: escape_marks_def)
next
  case True
  show ?thesis using escape_mark_codes [OF True] by blast
qed

lemma plus_space_append: "plus_space (s @ t) = plus_space s @ plus_space t"
  by (simp add: plus_space_def)

lemma plus_space_percents: "plus_space (percents bs) = percents bs"
  using set_percents [of 43 bs] by (intro plus_space_none) auto

lemma decode_marks: "pieces s t \<Longrightarrow> decode_uri (plus_space (escape_marks (plus_20 t))) = Some s"
proof (induction rule: pieces.induct)
  case (unit c s t)
  have p: "plus_20 (c # t) = [c] @ plus_20 t" using uri_unreserved_ascii [OF unit(1)] by (simp add: plus_20_unit)
  have c: "c \<noteq> 37" using uri_unreserved_ascii [OF unit(1)] by auto
  show ?case using escape_mark_unit [OF unit(1)]
  proof
    assume "escape_marks [c] = [c] \<and> c \<noteq> 43"
    then have e: "plus_space (escape_marks (plus_20 (c # t))) = c # plus_space (escape_marks (plus_20 t))"
      unfolding p escape_marks_append plus_space_append by (simp add: plus_space_def)
    show ?thesis unfolding e using unit(3) c by (simp add: decode_uri_unit)
  next
    assume a: "scalar (unat c) \<and> from_cp (unat c) = [c] \<and> escape_marks [c] = percents (encode_cp (unat c))"
    then have e: "plus_space (escape_marks (plus_20 (c # t))) = percents (encode_cp (unat c)) @ plus_space (escape_marks (plus_20 t))"
      unfolding p escape_marks_append plus_space_append by (simp add: plus_space_percents)
    show ?thesis unfolding e using unit(3) a by (simp add: decode_uri_percents)
  qed
next
  case (escaped cp s t)
  show ?case
  proof (cases "cp = 32")
    case True
    have "percents (encode_cp 32) = percent_byte 32" "from_cp 32 = [32]" "(32 :: code_unit) \<noteq> 37"
      by (simp_all add: encode_cp_simps percents_def from_cp_def to_byte_def to_unit_def)
    then show ?thesis using escaped.IH True
      by (simp add: plus_20_percent escape_marks_append plus_space_append)
         (simp add: escape_marks_def plus_space_def decode_uri_unit)
  next
    case False
    let ?p = "percents (encode_cp cp)"
    have m: "escape_marks ?p = ?p" using set_percents by (intro escape_marks_id) blast
    have "plus_20 (?p @ t) = ?p @ plus_20 t" using no_blank [OF escaped(1) False] by (rule plus_20_percents)
    then have e: "plus_space (escape_marks (plus_20 (?p @ t))) = ?p @ plus_space (escape_marks (plus_20 t))"
      by (simp add: escape_marks_append plus_space_append m plus_space_percents)
    show ?thesis unfolding e using escaped by (simp add: decode_uri_percents)
  qed
qed (simp add: escape_marks_def plus_space_def)

lemma decode_encode_component: "encode_component s = Some t \<Longrightarrow> decode_component t = s"
  using decode_marks [OF encode_uri_pieces]
  by (auto simp: encode_component_def decode_component_def plus_space_def)


subsection \<open>No separators in encoded text\<close>

lemma pieces_set: "pieces s t \<Longrightarrow> c \<in> set t \<Longrightarrow> c \<notin> {38, 61, 63}"
proof (induction arbitrary: c rule: pieces.induct)
  case (unit d s t)
  then show ?case using uri_unreserved_ascii [OF unit(1)] by auto
next
  case (escaped cp s t)
  then show ?case using set_percents [of c] by auto
qed simp

lemma set_plus_20: "c \<in> set (plus_20 s) \<Longrightarrow> c \<in> set s \<or> c = 43"
  by (induction s rule: plus_20.induct) (auto split: if_splits)

lemma escape_marks_concat: "escape_marks s = concat (map (\<lambda>c. escape_marks [c]) s)"
  by (simp add: escape_marks_def)

lemma set_escape_mark: "c \<in> set (escape_marks [d]) \<Longrightarrow> d \<notin> {38, 61, 63} \<Longrightarrow> c \<notin> {38, 61, 63}"
proof (cases "d \<in> set [33, 39, 40, 41, 126]")
  case True
  assume "c \<in> set (escape_marks [d])"
  then have "c \<in> set (percents (encode_cp (unat d)))" using escape_mark_codes [OF True] by simp
  then show ?thesis using set_percents [of c] by auto
next
  case False
  assume "c \<in> set (escape_marks [d])" "d \<notin> {38, 61, 63}"
  then show ?thesis using False by (simp add: escape_marks_def)
qed

lemma encode_component_set:
  assumes "encode_component s = Some t" "c \<in> set t"
  shows "c \<notin> {38, 61, 63}"
proof -
  obtain u where u: "encode_uri s = Some u" "t = escape_marks (plus_20 u)"
    using assms(1) by (auto simp: encode_component_def)
  then obtain d where d: "d \<in> set (plus_20 u)" "c \<in> set (escape_marks [d])"
    using assms(2) escape_marks_concat [of "plus_20 u"] by auto
  have "d \<notin> {38, 61, 63}"
    using set_plus_20 [OF d(1)] pieces_set [OF encode_uri_pieces [OF u(1)], of d] by auto
  then show ?thesis by (rule set_escape_mark [OF d(2)])
qed

lemma all_some_map: "all_some (map f xs) = Some ys \<Longrightarrow> list_all2 (\<lambda>x y. f x = Some y) xs ys"
  by (induction xs arbitrary: ys) (auto split: option.splits)

lemma all_some_source: "all_some (map f es) = Some xs \<Longrightarrow> \<forall>x\<in>set xs. \<exists>p. f p = Some x"
  by (induction es arbitrary: xs) (auto split: option.splits)

lemma entry_text_parse:
  assumes "entry_text p = Some x"
  shows "parse_part x = [p] \<and> x \<noteq> [] \<and> 38 \<notin> set x \<and> hd x \<noteq> 63"
proof -
  obtain k v where e: "encode_component (fst p) = Some k" "encode_component (snd p) = Some v" "x = k @ 61 # v"
    using assms by (auto simp: entry_text_def split: option.splits)
  note sk = encode_component_set [OF e(1)] and sv = encode_component_set [OF e(2)]
  have "index_of_char x 61 = Some (length k)" unfolding e(3) using sk [of 61] by (intro index_of_char_append) auto
  moreover have "hd x \<noteq> 63" using sk [of 63] e(3) by (cases k) auto
  moreover have "38 \<notin> set x" using sk [of 38] sv [of 38] e(3) by auto
  ultimately show ?thesis
    using decode_encode_component [OF e(1)] decode_encode_component [OF e(2)] by (simp add: parse_part_def e(3))
qed

lemma parse_parts: "list_all2 (\<lambda>p x. entry_text p = Some x) es xs \<Longrightarrow> concat (map parse_part xs) = es"
  by (induction rule: list_all2_induct) (auto dest: entry_text_parse)

text \<open>\<open>URLSearchParams\<close> survives its own text: parsing what \<open>toString\<close> gives yields the same names
  and values in the same order, duplicates, empty names and values, reserved and non-ASCII characters
  included, whenever \<open>toString\<close> does not throw on a lone surrogate.\<close>

theorem params_round_trip:
  assumes "params_text es = Some t"
  shows "new_params (Text t) = Some es"
proof (cases "es = []")
  case True
  then show ?thesis using assms by (simp add: params_text_def parse_params_def starts_with_def)
next
  case False
  obtain xs where xs: "all_some (map entry_text es) = Some xs" "t = join_with [38] xs"
    using assms by (auto simp: params_text_def)
  note l = all_some_map [OF xs(1)]
  have "\<forall>x\<in>set xs. \<exists>p. entry_text p = Some x" by (rule all_some_source [OF xs(1)])
  then have a: "x \<noteq> [] \<and> 38 \<notin> set x \<and> hd x \<noteq> 63" if "x \<in> set xs" for x
    using entry_text_parse that by blast
  obtain y ys where y: "xs = y # ys" using l False by (cases xs) auto
  have h: "t \<noteq> []" "hd t \<noteq> 63" using a [of y] xs(2) y by (cases y; cases ys; auto)+
  have "split_on 38 t = xs" unfolding xs(2) using a y by (intro split_on_join) auto
  then show ?thesis using h parse_parts [OF l] by (simp add: parse_params_def starts_with_single)
qed

lemma params_round_trip_witness:
  "\<exists>t. params_text [(js ''a'', js ''x~y''), (js ''a'', []), ([], js ''1&2'')] = Some t \<and>
     new_params (Text t) = Some [(js ''a'', js ''x~y''), (js ''a'', []), ([], js ''1&2'')]"
proof -
  have "params_text [(js ''a'', js ''x~y''), (js ''a'', []), ([], js ''1&2'')] \<noteq> None"
    by (simp add: params_text_def entry_text_def encode_component_def js_def uri_unreserved_def is_low_def is_high_def)
  then show ?thesis using params_round_trip by blast
qed

section \<open>The operations on names\<close>

lemma set_loop_spec:
  "set_loop key text es next replaced = (next', r) \<Longrightarrow>
   get_all key next' = get_all key next @ (if replaced \<or> key \<notin> fst ` set es then [] else [text]) \<and>
   (\<forall>m. m \<noteq> key \<longrightarrow> get_all m next' = get_all m next @ get_all m es) \<and> (r \<longleftrightarrow> replaced \<or> key \<in> fst ` set es)"
  by (induction key "text" es "next" replaced rule: set_loop.induct) (auto simp: get_all_def split: if_splits)

lemma get_param_all: "get_param k es = (case get_all k es of [] \<Rightarrow> None | v # vs \<Rightarrow> Some v)"
  by (induction es) (auto simp: get_all_def split: list.splits)

lemma get_all_set: "get_all m (set_param k v es) = (if m = k then [v] else get_all m es)"
proof -
  obtain n r where s: "set_loop k v es [] False = (n, r)" by (cases "set_loop k v es [] False")
  have "get_all k es = [] \<longleftrightarrow> k \<notin> fst ` set es" by (auto simp: get_all_def filter_empty_conv)
  then show ?thesis using set_loop_spec [OF s] by (auto simp: set_param_def s get_all_def)
qed

lemma get_all_sort: "get_all m (sort_params es) = get_all m es"
  by (simp add: get_all_def sort_params_def sort_key_stable)

text \<open>Seen through \<open>getAll\<close>, the parameters are a map from names to lists of values: \<open>append\<close> adds at
  the end of one list, \<open>set\<close> replaces one list by a single value, \<open>delete\<close> empties one or takes one
  value out, \<open>sort\<close> changes none and orders the names, and \<open>get\<close> and \<open>has\<close> read that map.\<close>

theorem params_multimap:
  "get_all m (append_param k v es) = (if m = k then get_all k es @ [v] else get_all m es) \<and>
   get_all m (set_param k v es) = (if m = k then [v] else get_all m es) \<and>
   get_all m (delete_param k None es) = (if m = k then [] else get_all m es) \<and>
   get_all m (delete_param k (Some v) es) = (if m = k then filter (\<lambda>x. x \<noteq> v) (get_all k es) else get_all m es) \<and>
   get_all m (sort_params es) = get_all m es \<and> sorted (map fst (sort_params es)) \<and>
   get_param m es = (case get_all m es of [] \<Rightarrow> None | x # xs \<Rightarrow> Some x) \<and>
   (has_param m None es \<longleftrightarrow> get_all m es \<noteq> []) \<and> (has_param m (Some v) es \<longleftrightarrow> v \<in> set (get_all m es))"
proof -
  have "get_all m (delete_param k None es) = (if m = k then [] else get_all m es)"
    by (auto simp: delete_param_def get_all_def intro!: arg_cong [where f = "map snd"] filter_cong)
  moreover have "get_all m (delete_param k (Some v) es) = (if m = k then filter (\<lambda>x. x \<noteq> v) (get_all k es) else get_all m es)"
    by (auto simp: delete_param_def get_all_def filter_map o_def intro!: arg_cong [where f = "map snd"] filter_cong)
  moreover have "has_param m None es \<longleftrightarrow> get_all m es \<noteq> []"
    by (induction es) (auto simp: has_param_def get_all_def)
  moreover have "has_param m (Some v) es \<longleftrightarrow> v \<in> set (get_all m es)"
    by (induction es) (auto simp: has_param_def get_all_def)
  moreover have "get_all m (append_param k v es) = (if m = k then get_all k es @ [v] else get_all m es)"
    by (simp add: append_param_def get_all_def)
  moreover have "sorted (map fst (sort_params es))" by (simp add: sort_params_def)
  ultimately show ?thesis by (simp add: get_all_set get_all_sort get_param_all)
qed


section \<open>Query strings of objects\<close>

lemma index_of_single: "index_of s [c] = index_of_char s c"
  by (induction s) (auto simp: starts_with_single)

lemma split_str_single: "split_str [c] s = split_on c s"
proof (induction s rule: length_induct)
  case (1 s)
  show ?case
  proof (cases "index_of_char s c")
    case None
    then have "split_str [c] s = [s]" by (simp only: split_str.simps [of "[c]" s] index_of_single option.case list.distinct if_False)
    then show ?thesis using None by (simp add: split_on_none)
  next
    case (Some i)
    note f = index_of_char_Some [OF Some]
    have l: "length (drop (Suc i) s) < length s" using conjunct1 [OF f] by simp
    have "split_str [c] s = take i s # split_str [c] (drop (Suc i) s)"
      using Some by (subst split_str.simps) (simp add: index_of_single)
    also have "\<dots> = split_on c (take i s) @ split_on c (drop (Suc i) s)"
      using 1 l f by (simp add: split_on_none del: length_drop)
    also have "\<dots> = split_on c s" using f split_on_append [of c "take i s" "drop (Suc i) s"] by simp
    finally show ?thesis .
  qed
qed

definition pairs_of :: "jsstr \<times> qvalue \<Rightarrow> entries" where
  "pairs_of p = (case snd p of QText v \<Rightarrow> [(fst p, v)] | QList vs \<Rightarrow> map (Pair (fst p)) vs | QMissing \<Rightarrow> [(fst p, [])])"

lemma qs_escape_set: "qs_escape s = Some t \<Longrightarrow> c \<in> set t \<Longrightarrow> c \<notin> {38, 61, 63}"
  unfolding qs_escape_def using encode_uri_pieces pieces_set by blast

lemma qs_pair_escape:
  assumes "qs_escape k = Some e" "qs_escape v = Some t"
  shows "qs_pair [61] (e @ [61] @ t) = (k, v) \<and> 38 \<notin> set (e @ [61] @ t)"
proof -
  have s: "61 \<notin> set e" "38 \<notin> set e" "38 \<notin> set t" using qs_escape_set [OF assms(1)] qs_escape_set [OF assms(2)] by blast+
  then have "index_of (e @ [61] @ t) [61] = Some (length e)"
    using index_of_char_append [of 61 e t] by (simp add: index_of_single)
  then show ?thesis using s unescape_escape [OF assms(1)] unescape_escape [OF assms(2)] by (simp add: qs_pair_def)
qed

lemma qs_parts_pairs:
  assumes "qs_parts [61] p = Some xs"
  shows "map (qs_pair [61]) xs = pairs_of p \<and> (\<forall>x\<in>set xs. x \<noteq> [] \<and> 38 \<notin> set x)"
proof -
  obtain k q where p: "p = (k, q)" by (cases p)
  obtain e where e: "qs_escape k = Some e" using assms p by (cases q) (auto split: option.splits)
  have se: "38 \<notin> set e" using qs_escape_set [OF e] by blast
  have one: "qs_pair [61] (e @ 61 # t) = (k, v) \<and> 38 \<notin> set t"
    if "qs_escape v = Some t" for v t using qs_pair_escape [OF e that] by simp
  show ?thesis
  proof (cases q)
    case (QText v)
    then show ?thesis using assms p e se one by (auto simp: pairs_of_def)
  next
    case (QList vs)
    have "all_some (map (\<lambda>v. map_option (\<lambda>t. e @ [61] @ t) (qs_escape v)) vs) = Some xs"
      using assms p e QList by simp
    then have "map (qs_pair [61]) xs = map (Pair k) vs \<and> (\<forall>x\<in>set xs. x \<noteq> [] \<and> 38 \<notin> set x)"
    proof (induction vs arbitrary: xs)
      case (Cons v vs)
      then obtain t zs where t: "qs_escape v = Some t" "xs = (e @ 61 # t) # zs"
          "all_some (map (\<lambda>v. map_option (\<lambda>t. e @ [61] @ t) (qs_escape v)) vs) = Some zs"
        by (auto split: option.splits)
      then show ?case using one [OF t(1)] se Cons.IH [OF t(3)] by simp
    qed simp
    then show ?thesis by (simp add: pairs_of_def p QList)
  next
    case QMissing
    have "qs_escape [] = Some []" by (simp add: qs_escape_def)
    then show ?thesis using assms p e se one [of "[]" "[]"] QMissing by (auto simp: pairs_of_def)
  qed
qed

text \<open>What comes back: a list of one value is a string, an empty list is gone.\<close>

definition read_back :: "jsstr \<times> qvalue \<Rightarrow> header" where
  "read_back p = (case map snd (pairs_of p) of [] \<Rightarrow> [] | [v] \<Rightarrow> [(fst p, One v)] | vs \<Rightarrow> [(fst p, Many vs)])"

lemma obj_put_last: "k \<notin> fst ` set r \<Longrightarrow> obj_put k w (r @ [(k, v)]) = r @ [(k, w)]"
  by (force simp: obj_put_def intro!: map_idI)

lemma map_of_last: "k \<notin> fst ` set r \<Longrightarrow> map_of (r @ [(k, v)]) k = Some v"
  by (simp add: map_add_def map_of_eq_None_iff [THEN iffD2])

lemma qs_add_many:
  "k \<notin> fst ` set r \<Longrightarrow>
   foldl (\<lambda>r p. qs_add p r) (r @ [(k, Many ws)]) (map (Pair k) vs) = r @ [(k, Many (ws @ vs))]"
  by (induction vs arbitrary: ws) (simp_all add: qs_add_def map_of_last obj_put_last del: map_of_append)

lemma qs_add_group:
  assumes "index_key k = None" "k \<notin> fst ` set r"
  shows "foldl (\<lambda>r p. qs_add p r) r (map (Pair k) vs) =
    r @ (case vs of [] \<Rightarrow> [] | [v] \<Rightarrow> [(k, One v)] | vs \<Rightarrow> [(k, Many vs)])"
proof -
  have m: "map_of r k = None" using assms(2) by (simp add: map_of_eq_None_iff)
  show ?thesis
  proof (cases vs)
    case (Cons v us)
    have 1: "qs_add (k, v) r = r @ [(k, One v)]" using assms m by (simp add: qs_add_def obj_put_new)
    show ?thesis
    proof (cases us)
      case (Cons u ws)
      have "qs_add (k, u) (r @ [(k, One v)]) = r @ [(k, Many [v, u])]"
        using assms(2) by (simp add: qs_add_def map_of_last obj_put_last del: map_of_append)
      then show ?thesis using qs_add_many [OF assms(2), of "[v, u]" ws] \<open>vs = v # us\<close> Cons 1 by simp
    qed (use Cons 1 in simp)
  qed simp
qed

lemma pairs_of_Pair: "pairs_of p = map (Pair (fst p)) (map snd (pairs_of p))"
  by (auto simp: pairs_of_def split: qvalue.split)

lemma read_back_keys: "map fst (read_back p) = [] \<or> map fst (read_back p) = [fst p]"
  by (auto simp: read_back_def split: list.split)

lemma qs_add_object:
  "distinct (map fst r @ map fst obj) \<Longrightarrow> list_all (\<lambda>p. index_key (fst p) = None) obj \<Longrightarrow>
   foldl (\<lambda>r p. qs_add p r) r (concat (map pairs_of obj)) = r @ concat (map read_back obj)"
proof (induction obj arbitrary: r)
  case (Cons p obj)
  have "foldl (\<lambda>r p. qs_add p r) r (pairs_of p) = r @ read_back p"
    using Cons.prems qs_add_group [of "fst p" r "map snd (pairs_of p)"]
    by (subst pairs_of_Pair) (auto simp: read_back_def)
  moreover have "distinct (map fst (r @ read_back p) @ map fst obj)"
    using Cons.prems(1) read_back_keys [of p] by (elim disjE) (simp_all only: map_append append_assoc append_Nil append_Cons list.map distinct_append distinct.simps set_append list.set, auto)
  ultimately show ?case using Cons.IH [of "r @ read_back p"] Cons.prems(2) by simp
qed simp

lemma qs_loop_foldl:
  "\<forall>x\<in>set xs. x \<noteq> [] \<Longrightarrow> count + length xs \<le> n \<Longrightarrow>
   qs_loop n eq xs count r = foldl (\<lambda>r p. qs_add p r) r (map (qs_pair eq) xs)"
  by (induction xs arbitrary: count r) auto

text \<open>\<open>querystring.parse\<close> undoes \<open>querystring.stringify\<close>: the object comes back with its keys in
  order and its values as strings, or as lists where a key has more than one value (lists of one value
  become strings, empty lists vanish), as long as there are at most 1000 pairs; the keys are distinct
  and no array indices.\<close>

theorem querystring_round_trip:
  assumes "qs_stringify obj [38] [61] = Some t" "distinct (map fst obj)"
    "list_all (\<lambda>p. index_key (fst p) = None) obj" "length (concat (map pairs_of obj)) \<le> 1000"
  shows "qs_parse t [38] [61] 1000 = concat (map read_back obj)"
proof -
  obtain ps where ps: "all_some (map (qs_parts [61]) obj) = Some ps" "t = join_with [38] (concat ps)"
    using assms(1) by (auto simp: qs_stringify_def)
  have m: "map (qs_pair [61]) (concat ps) = concat (map pairs_of obj) \<and> (\<forall>x\<in>set (concat ps). x \<noteq> [] \<and> 38 \<notin> set x)"
    using all_some_map [OF ps(1)] by (induction rule: list_all2_induct) (auto dest: qs_parts_pairs)
  then have len: "length (concat ps) \<le> 1000" using assms(4) by (metis length_map)
  have add: "foldl (\<lambda>r p. qs_add p r) [] (map (qs_pair [61]) (concat ps)) = concat (map read_back obj)"
    using qs_add_object [of "[]" obj] assms(2,3) m by simp
  show ?thesis
  proof (cases "concat ps = []")
    case True
    then show ?thesis using add ps(2) by (simp add: qs_parse_def del: concat_eq_Nil_conv)
  next
    case False
    then have "t \<noteq> []" using m ps(2) by (cases "concat ps"; cases "tl (concat ps)") auto
    moreover have "split_str [38] t = concat ps"
      unfolding split_str_single ps(2) using False m by (intro split_on_join) auto
    ultimately show ?thesis using qs_loop_foldl [of "concat ps" 0 1000 "[61]" "[]"] m len add by (simp add: qs_parse_def)
  qed
qed

lemma querystring_round_trip_witness:
  "\<exists>t. qs_stringify [(js ''a'', QList [js ''1'', js ''x''])] [38] [61] = Some t \<and>
     qs_parse t [38] [61] 1000 = [(js ''a'', Many [js ''1'', js ''x''])]"
proof -
  let ?o = "[(js ''a'', QList [js ''1'', js ''x''])]"
  have "qs_stringify ?o [38] [61] \<noteq> None"
    by (simp add: qs_stringify_def qs_escape_def js_def uri_unreserved_def is_low_def is_high_def)
  then obtain t where t: "qs_stringify ?o [38] [61] = Some t" by blast
  have "index_key (js ''a'') = None" by code_simp
  then show ?thesis using querystring_round_trip [OF t] t by (simp add: pairs_of_def read_back_def)
qed

text \<open>An equals sign of two characters leaves its second character in the value.\<close>

lemma long_equals: "qs_parse (js ''a::b'') [38] (js ''::'') 1000 = [(js ''a'', One (js '':b''))]"
  by code_simp

text \<open>A value that is no valid encoding is kept as it is, its plus signs too.\<close>

lemma plus_kept: "parse_params (js ''q=100%+sure'') = [(js ''q'', js ''100%+sure'')]"
  by code_simp

end
