(* ===== verification/Url_Core.thy ===== *)
theory Url_Core
  imports Url_Params
begin

text \<open>
  The \<open>URL\<close> class of \<open>js/internal/url-core.js\<close>: the parser of absolute URLs, relative
  resolution and the formatter. The regular expressions have no alternatives that overlap, so each of
  them reads its groups from left to right.
\<close>

section \<open>Parsing\<close>

definition special :: "jsstr \<Rightarrow> nat option" where
  "special p =
     (if p = js ''http:'' then Some 80 else if p = js ''https:'' then Some 443 else if p = js ''ws:'' then Some 80
      else if p = js ''wss:'' then Some 443 else if p = js ''ftp:'' then Some 21 else None)"

definition is_special :: "jsstr \<Rightarrow> bool" where
  "is_special p \<longleftrightarrow> special p \<noteq> None"

text \<open>What \<open>parseAbsolute\<close> and \<open>resolveAgainst\<close> return.\<close>

record parsed =
  protocol :: jsstr
  hostname :: jsstr
  port :: jsstr
  username :: jsstr
  password :: jsstr
  host :: jsstr
  pathname :: jsstr
  search :: jsstr
  hash :: jsstr

definition scheme_char :: "code_unit \<Rightarrow> bool" where
  "scheme_char c \<longleftrightarrow> is_letter c \<or> (48 \<le> c \<and> c \<le> 57) \<or> c = 43 \<or> c = 46 \<or> c = 45"

text \<open>\<open>/^[a-zA-Z][a-zA-Z0-9+.-]*:/\<close>: the scheme without its colon, and what follows the colon.\<close>

definition split_scheme :: "jsstr \<Rightarrow> (jsstr \<times> jsstr) option" where
  "split_scheme text =
     (let s = takeWhile scheme_char text; r = drop (length s) text
      in if s \<noteq> [] \<and> is_letter (hd s) \<and> starts_with r [58] then Some (s, tl r) else None)"

text \<open>
  \<open>/^([a-zA-Z][a-zA-Z0-9+.-]*:)(?:\<backslash>/\<backslash>/([^/?#]*))?([^?#]*)(\<backslash>?[^#]*)?(#.*)?$/\<close>: the five groups.
\<close>

definition match_absolute :: "jsstr \<Rightarrow> (jsstr \<times> jsstr option \<times> jsstr \<times> jsstr \<times> jsstr) option" where
  "match_absolute text =
     (case split_scheme text of
        None \<Rightarrow> None
      | Some (s, r1) \<Rightarrow>
          (let slashes = starts_with r1 [47, 47];
               auth = takeWhile (\<lambda>c. c \<notin> {47, 63, 35}) (drop 2 r1);
               r2 = (if slashes then drop (length auth) (drop 2 r1) else r1);
               pth = takeWhile (\<lambda>c. c \<notin> {63, 35}) r2; r3 = drop (length pth) r2;
               sea = takeWhile (\<lambda>c. c \<noteq> 35) r3; r4 = drop (length sea) r3
           in if list_ex is_line_end r4 then None
              else Some (s @ [58], if slashes then Some auth else None, pth, sea, r4)))"

definition user_info :: "jsstr \<Rightarrow> jsstr \<times> jsstr" where
  "user_info info = (case index_of_char info 58 of
     Some colon \<Rightarrow> (take colon info, drop (colon + 1) info)
   | None \<Rightarrow> (info, []))"

text \<open>Host name and port of what follows the user information.\<close>

definition host_port :: "jsstr \<Rightarrow> jsstr \<times> jsstr" where
  "host_port hostPart =
     (if starts_with hostPart [91]
      then (case index_of_char hostPart 93 of
              None \<Rightarrow> ([], if starts_with hostPart [58] then drop 1 hostPart else [])
            | Some close \<Rightarrow> (take (close + 1) hostPart,
                if starts_with (drop (close + 1) hostPart) [58] then drop (close + 2) hostPart else []))
      else (case last_index_of_char hostPart 58 of
              Some colon \<Rightarrow> (take colon hostPart, drop (colon + 1) hostPart)
            | None \<Rightarrow> (hostPart, [])))"

text \<open>User name, password, host name and port of the authority.\<close>

definition parse_authority :: "jsstr \<Rightarrow> jsstr \<times> jsstr \<times> jsstr \<times> jsstr" where
  "parse_authority authority =
     (let (info, hostPart) = (case last_index_of_char authority 64 of
            Some i \<Rightarrow> (user_info (take i authority), drop (i + 1) authority)
          | None \<Rightarrow> (([], []), authority));
          (hn, prt) = host_port hostPart
      in (fst info, snd info, to_lower hn, prt))"

fun normalize_loop :: "jsstr list \<Rightarrow> jsstr list \<Rightarrow> jsstr list" where
  "normalize_loop [] parts = parts"
| "normalize_loop (part # ps) parts =
     (if part = [] \<or> part = [46] then normalize_loop ps parts
      else if part = [46, 46] then normalize_loop ps (butlast parts)
      else normalize_loop ps (parts @ [part]))"

definition normalize_path :: "jsstr \<Rightarrow> jsstr" where
  "normalize_path pth =
     (let parts = normalize_loop (split_on 47 pth) [];
          trailing = ends_with pth [47] \<or> ends_with pth [47, 46] \<or> ends_with pth [47, 46, 46];
          out = 47 # join_with [47] parts
      in if trailing \<and> out \<noteq> [47] then out @ [47] else out)"

definition host_text :: "jsstr \<Rightarrow> jsstr \<Rightarrow> jsstr" where
  "host_text hn prt = hn @ (if prt = [] then [] else 58 # prt)"

definition parse_absolute :: "jsstr \<Rightarrow> parsed option" where
  "parse_absolute text =
     (case match_absolute text of
        None \<Rightarrow> None
      | Some (m1, authority, m3, m4, m5) \<Rightarrow>
          (let proto = to_lower m1;
               (user, pass, hn, prt0) = (case authority of None \<Rightarrow> ([], [], [], []) | Some a \<Rightarrow> parse_authority a);
               prt = (if map_option (to_radix 10) (special proto) = Some prt0 then [] else prt0);
               defaultPath = (if authority \<noteq> None \<and> is_special proto then [47] else [])
           in Some \<lparr>protocol = proto, hostname = hn, port = prt, username = user, password = pass,
                host = host_text hn prt, pathname = (if m3 = [] then defaultPath else normalize_path m3),
                search = m4, hash = m5\<rparr>))"

section \<open>Formatting and resolving\<close>

definition format_url :: "parsed \<Rightarrow> jsstr" where
  "format_url u = protocol u @
     (if host u \<noteq> []
      then [47, 47] @ (if username u \<noteq> [] \<or> password u \<noteq> []
             then username u @ (if password u \<noteq> [] then 58 # password u else []) @ [64] else []) @ host u
      else []) @ pathname u @ search u @ hash u"

definition strip_hash :: "parsed \<Rightarrow> parsed" where
  "strip_hash base = base\<lparr>hash := []\<rparr>"

text \<open>The part of \<open>resolveAgainst\<close> for a path relative to the directory of the base.\<close>

definition resolve_merged :: "parsed \<Rightarrow> jsstr \<Rightarrow> parsed" where
  "resolve_merged out relative =
     (let basePath = (if ends_with (pathname out) [47] then pathname out
            else (case last_index_of_char (pathname out) 47 of None \<Rightarrow> [] | Some i \<Rightarrow> take (i + 1) (pathname out)));
          merged = basePath @ relative;
          hashIndex = index_of_char merged 35; searchIndex = index_of_char merged 63;
          hsh = (case hashIndex of None \<Rightarrow> [] | Some h \<Rightarrow> drop h merged);
          p = (case hashIndex of None \<Rightarrow> merged | Some h \<Rightarrow> take h merged);
          before = (case searchIndex of None \<Rightarrow> False | Some s \<Rightarrow> case hashIndex of None \<Rightarrow> True | Some h \<Rightarrow> s < h)
      in if before
         then out\<lparr>pathname := normalize_path (take (the searchIndex) p), search := drop (the searchIndex) p, hash := hsh\<rparr>
         else out\<lparr>pathname := normalize_path p, search := [], hash := hsh\<rparr>)"

definition resolve_against :: "parsed \<Rightarrow> jsstr \<Rightarrow> parsed option" where
  "resolve_against base relative =
     (if relative = [] then Some (strip_hash base)
      else if starts_with relative [35] then Some ((strip_hash base)\<lparr>hash := relative\<rparr>)
      else if starts_with relative [63] then Some ((strip_hash base)\<lparr>search := relative\<rparr>)
      else if starts_with relative [47, 47] then parse_absolute (protocol base @ relative)
      else (let out = (strip_hash base)\<lparr>search := []\<rparr>
            in if starts_with relative [47] then Some (out\<lparr>pathname := normalize_path relative\<rparr>)
               else Some (resolve_merged out relative)))"

section \<open>The class\<close>

text \<open>The object: its fields and the parameters derived from the query. \<open>None\<close> is the \<open>TypeError\<close>.\<close>

record url = parsed +
  searchParams :: "(jsstr \<times> jsstr) list"

text \<open>\<open>_apply\<close> with \<open>_refreshSearchParams\<close>.\<close>

definition apply_parsed :: "parsed \<Rightarrow> url" where
  "apply_parsed p = parsed.extend p
     \<lparr>searchParams = parse_params (if starts_with (search p) [63] then drop 1 (search p) else search p)\<rparr>"

definition has_scheme :: "jsstr \<Rightarrow> bool" where
  "has_scheme text \<longleftrightarrow> split_scheme text \<noteq> None"

definition new_url1 :: "jsstr \<Rightarrow> url option" where
  "new_url1 input = (if has_scheme input then map_option apply_parsed (parse_absolute input) else None)"

definition new_url :: "jsstr \<Rightarrow> jsstr option \<Rightarrow> url option" where
  "new_url input base =
     (if has_scheme input then map_option apply_parsed (parse_absolute input)
      else (case base of
              None \<Rightarrow> None
            | Some b \<Rightarrow> (case new_url1 b of None \<Rightarrow> None
                | Some bu \<Rightarrow> map_option apply_parsed (resolve_against (parsed.truncate bu) input))))"

definition can_parse :: "jsstr \<Rightarrow> jsstr option \<Rightarrow> bool" where
  "can_parse input base \<longleftrightarrow> new_url input base \<noteq> None"

definition href :: "url \<Rightarrow> jsstr" where
  "href u = format_url (parsed.truncate u)"

definition set_href :: "jsstr \<Rightarrow> url \<Rightarrow> url option" where
  "set_href val u = new_url1 val"

definition origin :: "url \<Rightarrow> jsstr" where
  "origin u = (if is_special (protocol u) then protocol u @ [47, 47] @ host u else js ''null'')"

definition set_search :: "jsstr \<Rightarrow> url \<Rightarrow> url" where
  "set_search val u =
     (let s = (if val = [] then [] else if starts_with val [63] then val else 63 # val)
      in u\<lparr>search := s, searchParams := parse_params (if starts_with s [63] then drop 1 s else s)\<rparr>)"

text \<open>
  \<open>append\<close>, \<open>delete\<close>, \<open>set\<close> and \<open>sort\<close> of \<open>searchParams\<close> are wrapped so that the query follows the
  parameters. When \<open>toString\<close> throws, the parameters have changed and the query has not.
\<close>

definition change_params :: "(entries \<Rightarrow> entries) \<Rightarrow> url \<Rightarrow> url" where
  "change_params f u =
     (let es = f (searchParams u); v = u\<lparr>searchParams := es\<rparr>
      in case params_text es of
           None \<Rightarrow> v
         | Some t \<Rightarrow> v\<lparr>search := (if t = [] then [] else 63 # t)\<rparr>)"

section \<open>Paths\<close>

definition good_part :: "jsstr \<Rightarrow> bool" where
  "good_part p \<longleftrightarrow> p \<noteq> [] \<and> 47 \<notin> set p \<and> p \<noteq> [46] \<and> p \<noteq> [46, 46]"

lemma normalize_loop_good:
  "\<forall>p\<in>set ps. 47 \<notin> set p \<Longrightarrow> list_all good_part parts \<Longrightarrow> list_all good_part (normalize_loop ps parts)"
proof (induction ps parts rule: normalize_loop.induct)
  case (2 part ps parts)
  have "list_all good_part (butlast parts)" using "2.prems"(2) by (auto simp: list_all_iff dest: in_set_butlastD)
  then show ?case using 2 by (simp add: good_part_def [of part])
qed simp

lemma normalize_loop_id: "list_all good_part ps \<Longrightarrow> normalize_loop ps parts = parts @ ps"
  by (induction ps arbitrary: parts) (auto simp: good_part_def)

lemma normalize_loop_snoc_Nil: "normalize_loop (ps @ [[]]) parts = normalize_loop ps parts"
  by (induction ps parts rule: normalize_loop.induct) auto

lemma normalize_loop_set:
  "c \<in> set (concat (normalize_loop ps parts)) \<Longrightarrow> c \<in> set (concat ps) \<or> c \<in> set (concat parts)"
proof (induction ps parts rule: normalize_loop.induct)
  case (2 part ps parts)
  have "c \<in> set (concat (butlast parts)) \<Longrightarrow> c \<in> set (concat parts)" by (auto dest: in_set_butlastD)
  then show ?case using 2 by (auto split: if_splits)
qed simp

lemma set_join_with: "c \<in> set (join_with sep ps) \<Longrightarrow> c \<in> set sep \<or> c \<in> set (concat ps)"
  by (induction sep ps rule: join_with.induct) auto

lemma set_split_on: "c \<in> set (concat (split_on d s)) \<Longrightarrow> c \<in> set s"
  by (induction s) (auto split: if_splits list.splits)

text \<open>A normalised path: its parts, and whether a slash follows.\<close>

definition path_of :: "jsstr list \<Rightarrow> bool \<Rightarrow> jsstr" where
  "path_of parts trailing = 47 # join_with [47] parts @ (if trailing then [47] else [])"

lemma normalize_path_form:
  obtains parts tr where "normalize_path p = path_of parts tr" "list_all good_part parts" "tr \<Longrightarrow> parts \<noteq> []"
    "set (normalize_path p) \<subseteq> insert 47 (set p)"
proof -
  let ?ps = "normalize_loop (split_on 47 p) []"
  define tr where "tr = ((ends_with p [47] \<or> ends_with p [47, 46] \<or> ends_with p [47, 46, 46]) \<and> 47 # join_with [47] ?ps \<noteq> [47])"
  have g: "list_all good_part ?ps" by (rule normalize_loop_good) (auto dest: split_on_parts)
  have n: "normalize_path p = path_of ?ps tr" by (simp add: normalize_path_def path_of_def Let_def tr_def)
  have "set (join_with [47] ?ps) \<subseteq> insert 47 (set p)"
    using set_join_with normalize_loop_set [of _ "split_on 47 p" "[]"] set_split_on by fastforce
  then have "set (normalize_path p) \<subseteq> insert 47 (set p)" by (auto simp: n path_of_def)
  moreover have "tr \<Longrightarrow> ?ps \<noteq> []" by (auto simp: tr_def)
  ultimately show thesis using that n g by blast
qed

lemma split_path_of:
  assumes "list_all good_part parts" "parts \<noteq> []"
  shows "split_on 47 (path_of parts tr) = [] # parts @ (if tr then [[]] else [])"
proof -
  have s: "split_on 47 (join_with [47] parts) = parts"
    using assms by (intro split_on_join) (auto simp: list_all_iff good_part_def)
  show ?thesis
    using split_on_append [of 47 "join_with [47] parts" "[]"] s by (simp add: path_of_def)
qed

lemma first_sep:
  assumes "q @ x # r = l @ x # s" "x \<notin> set q" "x \<notin> set l"
  shows "q = l \<and> r = s"
proof -
  have t: "takeWhile (\<lambda>y. y \<noteq> x) (a @ x # b) = a" if "x \<notin> set a" for a b
    using that by (subst takeWhile_append2) auto
  have "q = l" using t [OF assms(2), of r] t [OF assms(3), of s] assms(1) by simp
  then show ?thesis using assms(1) by simp
qed

lemma last_sep:
  assumes "x \<notin> set q" "x \<notin> set l"
  shows "zs @ x # q = w @ x # l \<longleftrightarrow> zs = w \<and> q = l"
proof
  assume "zs @ x # q = w @ x # l"
  then have "rev (zs @ x # q) = rev (w @ x # l)" by simp
  then have "rev q @ x # rev zs = rev l @ x # rev w" by simp
  from first_sep [OF this] show "zs = w \<and> q = l" using assms by simp
qed simp

lemma ends_with_sep: "47 \<notin> set q \<Longrightarrow> 47 \<notin> set l \<Longrightarrow> ends_with (w @ 47 # l) (47 # q) \<longleftrightarrow> q = l"
  by (auto simp: ends_with_suffix suffix_def) (metis last_sep)

lemma path_of_last:
  assumes "list_all good_part parts" "parts \<noteq> []"
  obtains w where "path_of parts False = w @ 47 # last parts" "good_part (last parts)"
proof -
  have g: "good_part (last parts)" using assms by (auto simp: list_all_iff)
  show thesis
  proof (cases "butlast parts = []")
    case True
    then have "parts = [last parts]" using assms(2) by (metis append_Nil append_butlast_last_id)
    then have "join_with [47] parts = last parts" by (metis join_with.simps(2))
    then show thesis using that [of "[]"] g by (simp add: path_of_def)
  next
    case False
    have "join_with [47] parts = join_with [47] (butlast parts @ [last parts])" using assms(2) by simp
    also have "\<dots> = join_with [47] (butlast parts) @ 47 # last parts" using False by (simp add: join_with_append)
    finally show thesis using that [of "47 # join_with [47] (butlast parts)"] g by (simp add: path_of_def)
  qed
qed

lemma normalize_path_of:
  assumes "list_all good_part parts" "tr \<Longrightarrow> parts \<noteq> []"
  shows "normalize_path (path_of parts tr) = path_of parts tr"
proof (cases "parts = []")
  case True
  then have "path_of parts tr = [47]" using assms(2) by (cases tr) (auto simp: path_of_def)
  then show ?thesis by (simp add: normalize_path_def)
next
  case False
  have l: "normalize_loop (split_on 47 (path_of parts tr)) [] = parts"
    using split_path_of [OF assms(1) False, of tr] normalize_loop_id [OF assms(1), of "[]"] normalize_loop_snoc_Nil [of parts "[]"]
    by (cases tr) simp_all
  obtain w where w: "path_of parts False = w @ 47 # last parts" "good_part (last parts)"
    by (rule path_of_last [OF assms(1) False])
  have ne: "47 # join_with [47] parts \<noteq> [47]"
    using w by (auto simp: path_of_def good_part_def append_eq_Cons_conv)
  show ?thesis
  proof (cases tr)
    case True
    then have "ends_with (path_of parts tr) [47]" by (simp add: path_of_def ends_with_single)
    then show ?thesis using l ne True by (simp add: normalize_path_def path_of_def)
  next
    case nt: False
    have "\<not> ends_with (path_of parts False) (47 # q)" if "q \<in> {[], [46], [46, 46]}" for q
      using that w(2) unfolding w(1) by (subst ends_with_sep) (auto simp: good_part_def)
    then have "\<not> ends_with (path_of parts False) [47]" "\<not> ends_with (path_of parts False) [47, 46]"
      "\<not> ends_with (path_of parts False) [47, 46, 46]" by auto
    then show ?thesis using l nt by (simp add: normalize_path_def Let_def) (simp add: path_of_def)
  qed
qed

lemma normalize_path_idem: "normalize_path (normalize_path p) = normalize_path p"
proof -
  obtain parts tr where "normalize_path p = path_of parts tr" "list_all good_part parts" "tr \<Longrightarrow> parts \<noteq> []"
    using normalize_path_form [of p] by metis
  then show ?thesis using normalize_path_of by simp
qed

lemma path_of_head: "list_all good_part parts \<Longrightarrow> (tr \<Longrightarrow> parts \<noteq> []) \<Longrightarrow> \<not> starts_with (path_of parts tr) [47, 47]"
  by (cases parts; cases "tl parts"; cases "hd parts"; cases tr)
    (auto simp: path_of_def starts_with_def good_part_def)

lemma normalize_path_head: "starts_with (normalize_path p) [47] \<and> \<not> starts_with (normalize_path p) [47, 47]"
  by (rule normalize_path_form [of p]) (use path_of_head in \<open>auto simp: path_of_def starts_with_single\<close>)

lemma normalize_path_set: "c \<in> set (normalize_path p) \<Longrightarrow> c = 47 \<or> c \<in> set p"
  by (rule normalize_path_form [of p]) auto

section \<open>The groups of the expression\<close>

definition mark :: "code_unit \<Rightarrow> bool" where
  "mark d \<longleftrightarrow> d \<in> {91, 93, 58, 64, 47, 63, 35}"

lemma lower_unit_mark: "mark d \<Longrightarrow> lower_unit c = d \<longleftrightarrow> c = d"
proof -
  assume d: "mark d"
  have "c + 32 = d \<longleftrightarrow> c = d - 32" by (simp add: eq_diff_eq)
  then show ?thesis using d by (auto simp: lower_unit_def mark_def)
qed

lemma to_lower_mark: "mark d \<Longrightarrow> d \<in> set (to_lower s) \<longleftrightarrow> d \<in> set s"
  using lower_unit_mark by (force simp: to_lower_def)

lemma to_lower_head: "mark d \<Longrightarrow> starts_with (to_lower s) [d] \<longleftrightarrow> starts_with s [d]"
  by (cases s) (auto simp: to_lower_def starts_with_single lower_unit_mark)

lemma to_lower_append: "to_lower (s @ t) = to_lower s @ to_lower t" "to_lower [] = []"
  by (simp_all add: to_lower_def)

lemma lower_unit_idem: "lower_unit (lower_unit c) = lower_unit c"
proof -
  have "\<not> ((65 \<le> c + 32 \<and> c + 32 \<le> 90) \<or> (192 \<le> c + 32 \<and> c + 32 \<le> 222 \<and> c + 32 \<noteq> 215))"
    if "(65 \<le> c \<and> c \<le> 90) \<or> (192 \<le> c \<and> c \<le> 222 \<and> c \<noteq> 215)"
  proof -
    have "unat (c + 32) = unat c + 32" using that by (auto simp: word_le_nat_alt unat_word_ariths)
    then show ?thesis using that by (auto simp: word_le_nat_alt)
  qed
  then show ?thesis by (simp add: lower_unit_def)
qed

lemma to_lower_idem: "to_lower (to_lower s) = to_lower s"
  by (simp add: to_lower_def lower_unit_idem)

lemma lower_unit_letter: "is_letter c \<Longrightarrow> is_letter (lower_unit c)"
proof -
  assume c: "is_letter c"
  then have "unat (c + 32) = unat c + 32" by (auto simp: is_letter_def word_le_nat_alt unat_word_ariths)
  then show ?thesis using c by (auto simp: is_letter_def lower_unit_def word_le_nat_alt)
qed

lemma scheme_char_lower: "scheme_char c \<Longrightarrow> scheme_char (lower_unit c)"
  using lower_unit_letter [of c] by (auto simp: scheme_char_def lower_unit_def word_le_nat_alt)

definition scheme_ok :: "jsstr \<Rightarrow> bool" where
  "scheme_ok s \<longleftrightarrow> s \<noteq> [] \<and> is_letter (hd s) \<and> list_all scheme_char s"

lemma scheme_ok_lower: "scheme_ok s \<Longrightarrow> scheme_ok (to_lower s)"
  by (cases s) (auto simp: scheme_ok_def to_lower_def lower_unit_letter scheme_char_lower list_all_iff)

lemma split_scheme_append: "scheme_ok s \<Longrightarrow> split_scheme (s @ 58 # r) = Some (s, r)"
proof -
  assume s: "scheme_ok s"
  have "\<not> scheme_char 58" by code_simp
  then have "takeWhile scheme_char (s @ 58 # r) = s" using s by (subst takeWhile_append2) (auto simp: scheme_ok_def list_all_iff)
  then show ?thesis using s by (simp add: split_scheme_def scheme_ok_def starts_with_def)
qed

lemma split_scheme_Some: "split_scheme text = Some (s, r) \<Longrightarrow> scheme_ok s"
  by (auto simp: split_scheme_def Let_def scheme_ok_def list_all_iff dest: set_takeWhileD split: if_splits)

lemma takeWhile_stop: "\<forall>c\<in>set a. P c \<Longrightarrow> b = [] \<or> \<not> P (hd b) \<Longrightarrow> takeWhile P (a @ b) = a"
  by (cases b) (auto simp: takeWhile_append)

text \<open>What the five groups may hold.\<close>

definition groups_ok :: "jsstr option \<Rightarrow> jsstr \<Rightarrow> jsstr \<Rightarrow> jsstr \<Rightarrow> bool" where
  "groups_ok auth pth sea hsh \<longleftrightarrow>
     (case auth of None \<Rightarrow> \<not> starts_with pth [47, 47]
      | Some a \<Rightarrow> set a \<inter> {47, 63, 35} = {} \<and> (pth = [] \<or> hd pth = 47)) \<and>
     set pth \<inter> {63, 35} = {} \<and> (sea = [] \<or> hd sea = 63 \<and> 35 \<notin> set sea) \<and>
     (hsh = [] \<or> hd hsh = 35) \<and> \<not> list_ex is_line_end hsh"

lemma match_absolute_append:
  assumes "scheme_ok s" "groups_ok auth pth sea hsh"
  shows "match_absolute (s @ 58 # (case auth of None \<Rightarrow> [] | Some a \<Rightarrow> 47 # 47 # a) @ pth @ sea @ hsh) =
    Some (s @ [58], auth, pth, sea, hsh)"
proof -
  let ?P = "\<lambda>c. c \<notin> {63, 35 :: code_unit}" and ?A = "\<lambda>c. c \<notin> {47, 63, 35 :: code_unit}"
  have rest: "takeWhile ?P (pth @ sea @ hsh) = pth" "takeWhile (\<lambda>c. c \<noteq> 35) (sea @ hsh) = sea"
    using assms(2) by (intro takeWhile_stop; cases sea; cases hsh; auto simp: groups_ok_def)+
  show ?thesis
  proof (cases auth)
    case None
    have "\<not> starts_with (pth @ sea @ hsh) [47, 47]"
      using assms(2) None by (cases pth; cases "tl pth"; cases sea; cases hsh) (auto simp: groups_ok_def starts_with_def)
    then show ?thesis using None rest assms(2) split_scheme_append [OF assms(1), of "pth @ sea @ hsh"]
      by (simp add: match_absolute_def Let_def groups_ok_def)
  next
    case (Some a)
    have a: "takeWhile ?A (a @ pth @ sea @ hsh) = a"
      using assms(2) Some by (intro takeWhile_stop) (cases pth; cases sea; cases hsh; auto simp: groups_ok_def)+
    have "starts_with (47 # 47 # a @ pth @ sea @ hsh) [47, 47]" by (simp add: starts_with_def)
    then show ?thesis using Some rest a assms(2) split_scheme_append [OF assms(1), of "47 # 47 # a @ pth @ sea @ hsh"]
      by (simp add: match_absolute_def Let_def groups_ok_def)
  qed
qed

lemma dropWhile_hd: "dropWhile P s = [] \<or> \<not> P (hd (dropWhile P s))"
  by (induction s) auto

lemma drop_takeWhile: "drop (length (takeWhile P s)) s = dropWhile P s"
  by (simp add: dropWhile_eq_drop)

lemma match_absolute_Some:
  assumes "match_absolute text = Some (m1, auth, pth, sea, hsh)"
  shows "\<exists>s. m1 = s @ [58] \<and> scheme_ok s \<and> groups_ok auth pth sea hsh"
proof -
  let ?P = "\<lambda>c. c \<notin> {63, 35 :: code_unit}" and ?A = "\<lambda>c. c \<notin> {47, 63, 35 :: code_unit}"
  obtain s r1 where s: "split_scheme text = Some (s, r1)" using assms by (auto simp: match_absolute_def split: option.splits)
  define r2 where "r2 = (if starts_with r1 [47, 47] then dropWhile ?A (drop 2 r1) else r1)"
  define r3 where "r3 = dropWhile ?P r2"
  have g: "m1 = s @ [58]" "auth = (if starts_with r1 [47, 47] then Some (takeWhile ?A (drop 2 r1)) else None)"
    "pth = takeWhile ?P r2" "sea = takeWhile (\<lambda>c. c \<noteq> 35) r3" "hsh = dropWhile (\<lambda>c. c \<noteq> 35) r3" "\<not> list_ex is_line_end hsh"
    using assms s by (auto simp: match_absolute_def Let_def r2_def r3_def drop_takeWhile simp del: drop_drop split: if_splits)
  have p: "set pth \<inter> {63, 35} = {}" using g(3) by (auto dest: set_takeWhileD)
  have h: "hsh = [] \<or> hd hsh = 35" using dropWhile_hd [of "\<lambda>c. c \<noteq> 35" r3] g(5) by auto
  have "r3 = [] \<or> hd r3 = 63 \<or> hd r3 = 35" using dropWhile_hd [of ?P r2] r3_def by auto
  then have q: "sea = [] \<or> hd sea = 63 \<and> 35 \<notin> set sea" using g(4) by (cases r3) (auto dest: set_takeWhileD)
  have "case auth of None \<Rightarrow> \<not> starts_with pth [47, 47] | Some a \<Rightarrow> set a \<inter> {47, 63, 35} = {} \<and> (pth = [] \<or> hd pth = 47)"
  proof (cases "starts_with r1 [47, 47]")
    case True
    have "r2 = [] \<or> hd r2 \<in> {47, 63, 35}" using dropWhile_hd [of ?A "drop 2 r1"] True r2_def by auto
    then have "pth = [] \<or> hd pth = 47" using g(3) by (cases r2) auto
    then show ?thesis using True g(2) by (auto dest: set_takeWhileD)
  next
    case False
    then have "prefix pth r1" using g(3) by (simp add: r2_def takeWhile_is_prefix)
    then have "\<not> starts_with pth [47, 47]"
      using False unfolding starts_with_prefix using prefix_order.trans by blast
    then show ?thesis using False g(2) by simp
  qed
  then show ?thesis using g p q h split_scheme_Some [OF s] by (auto simp: groups_ok_def)
qed

section \<open>The authority\<close>

lemma last_index_append: "c \<notin> set t \<Longrightarrow> last_index_of_char (s @ c # t) c = Some (length s)"
  using index_of_char_append [of c "rev t" "rev s"] by (simp add: last_index_of_char_def)

lemma last_index_none: "c \<notin> set s \<Longrightarrow> last_index_of_char s c = None"
  by (simp add: last_index_of_char_def)

lemma last_index_Some:
  assumes "last_index_of_char s c = Some i"
  shows "c \<notin> set (drop (i + 1) s) \<and> s = take i s @ c # drop (i + 1) s"
proof -
  obtain j where j: "index_of_char (rev s) c = Some j" "i = length s - 1 - j"
    using assms by (auto simp: last_index_of_char_def)
  note f = index_of_char_Some [OF j(1)]
  have l: "j < length s" using f by simp
  have "i + 1 = length s - j" using l j(2) by simp
  then have "drop (i + 1) s = rev (take j (rev s))" by (simp add: rev_take)
  moreover have "s = rev (rev s)" by simp
  moreover have "rev (rev s) = rev (drop (Suc j) (rev s)) @ c # rev (take j (rev s))"
    using conjunct2 [OF conjunct2 [OF conjunct2 [OF f]]] by (metis append.assoc append_Cons append_Nil rev.simps(2) rev_append)
  moreover have "rev (drop (Suc j) (rev s)) = take i s" using l j(2) by (simp add: rev_drop)
  ultimately show ?thesis using f by (metis set_rev)
qed

text \<open>Host name and port that come out of a host part, and are read back from their text.\<close>

definition host_ok :: "jsstr \<Rightarrow> jsstr \<Rightarrow> bool" where
  "host_ok hn prt \<longleftrightarrow>
     (if starts_with hn [91] then hn \<noteq> [] \<and> last hn = 93 \<and> 93 \<notin> set (butlast hn)
      else 58 \<notin> set hn \<and> 58 \<notin> set prt)"

lemma host_port_text: "host_ok hn prt \<Longrightarrow> host_port (host_text hn prt) = (hn, prt)"
proof (cases "starts_with hn [91]")
  case True
  assume h: "host_ok hn prt"
  then have hn: "hn = butlast hn @ [93]" "93 \<notin> set (butlast hn)"
    using True append_butlast_last_id [of hn] by (auto simp: host_ok_def)
  obtain n where n: "length hn = Suc n" using hn(1) by (metis length_append_singleton)
  have i: "index_of_char (hn @ r) 93 = Some n" for r
    using index_of_char_append [OF hn(2), of r] n by (subst hn(1)) simp
  have s: "starts_with (hn @ r) [91]" for r using True by (cases hn) (auto simp: starts_with_single)
  show ?thesis using i [of "[]"] i [of "58 # prt"] s [of "[]"] s [of "58 # prt"] n
    by (cases "prt = []") (simp_all add: host_port_def host_text_def starts_with_single)
next
  case False
  assume h: "host_ok hn prt"
  have "\<not> starts_with (host_text hn prt) [91]" using False by (cases hn) (auto simp: host_text_def starts_with_single)
  then show ?thesis using h False last_index_append [of 58 prt hn] last_index_none [of 58 hn]
    by (auto simp: host_port_def host_text_def host_ok_def)
qed

lemma host_port_ok:
  assumes "host_port h = (hn, prt)" "58 \<in> set hn \<longrightarrow> starts_with hn [91]"
  shows "host_ok hn prt"
proof (cases "starts_with h [91]")
  case True
  show ?thesis
  proof (cases "index_of_char h 93")
    case None
    have "\<not> starts_with h [58]" using True by (cases h) (auto simp: starts_with_single)
    then have "hn = [] \<and> prt = []" using assms(1) True unfolding host_port_def None by simp
    then show ?thesis by (simp add: host_ok_def starts_with_single)
  next
    case (Some i)
    note f = index_of_char_Some [OF Some]
    have "hn = take (Suc i) h" using assms(1) True Some by (auto simp: host_port_def split: if_splits)
    then have "hn = take i h @ [93]" using f by (simp add: take_Suc_conv_app_nth)
    moreover from this have "starts_with hn [91]" using True f by (cases h; cases i; auto simp: starts_with_single)
    ultimately show ?thesis using f by (simp add: host_ok_def)
  qed
next
  case False
  show ?thesis
  proof (cases "last_index_of_char h 58")
    case None
    have "hn = h \<and> prt = []" using assms(1) False unfolding host_port_def None by simp
    then show ?thesis using assms(2) False by (auto simp: host_ok_def)
  next
    case (Some i)
    note f = last_index_Some [OF Some]
    have "hn = take i h" "prt = drop (i + 1) h" using assms(1) False Some by (auto simp: host_port_def)
    then show ?thesis using f assms(2) False by (cases h; cases i; auto simp: host_ok_def starts_with_single split: if_splits)
  qed
qed

lemma host_port_set:
  assumes "host_port h = (hn, prt)" "c \<in> set hn \<or> c \<in> set prt"
  shows "c \<in> set h"
  using assms
  by (auto simp: host_port_def split: if_splits option.splits dest: in_set_takeD in_set_dropD)


lemma user_info_text:
  "58 \<notin> set user \<Longrightarrow> user_info (user @ (if pass = [] then [] else 58 # pass)) = (user, pass)"
proof -
  assume "58 \<notin> set user"
  then have "index_of_char user 58 = None" "index_of_char (user @ 58 # pass) 58 = Some (length user)"
    by (simp_all add: index_of_char_append)
  then show ?thesis by (simp add: user_info_def del: index_of_char_None)
qed

lemma user_info_user: "58 \<notin> set (fst (user_info t))"
  by (auto simp: user_info_def split: option.splits dest!: index_of_char_Some)

lemma user_info_set: "c \<in> set (fst (user_info t)) \<or> c \<in> set (snd (user_info t)) \<Longrightarrow> c \<in> set t"
  by (auto simp: user_info_def split: option.splits dest: in_set_takeD in_set_dropD)

definition authority_text :: "jsstr \<Rightarrow> jsstr \<Rightarrow> jsstr \<Rightarrow> jsstr" where
  "authority_text user pass h =
     (if user \<noteq> [] \<or> pass \<noteq> [] then user @ (if pass \<noteq> [] then 58 # pass else []) @ [64] else []) @ h"

lemma parse_authority_text:
  assumes "58 \<notin> set user" "host_ok hn prt" "64 \<notin> set hn" "64 \<notin> set prt"
  shows "parse_authority (authority_text user pass (host_text hn prt)) = (user, pass, to_lower hn, prt)"
proof -
  have h: "64 \<notin> set (host_text hn prt)" using assms(3,4) by (auto simp: host_text_def)
  show ?thesis
  proof (cases "user = [] \<and> pass = []")
    case True
    then show ?thesis using last_index_none [OF h] host_port_text [OF assms(2)]
      by (simp add: parse_authority_def authority_text_def)
  next
    case False
    let ?i = "user @ (if pass = [] then [] else 58 # pass)"
    have "authority_text user pass (host_text hn prt) = ?i @ 64 # host_text hn prt"
      using False by (simp add: authority_text_def)
    then show ?thesis using last_index_append [OF h, of ?i] user_info_text [OF assms(1), of pass] host_port_text [OF assms(2)]
      by (simp add: parse_authority_def)
  qed
qed

lemma marks: "mark 58" "mark 91" "mark 93" "mark 64" "mark 47" "mark 63" "mark 35"
  by (simp_all add: mark_def)

lemma host_ok_lower: "host_ok hn prt \<Longrightarrow> host_ok (to_lower hn) prt"
proof (cases "starts_with hn [91]")
  case True
  have "last (to_lower hn) = 93 \<longleftrightarrow> last hn = 93" "butlast (to_lower hn) = to_lower (butlast hn)" if "hn \<noteq> []"
    using that lower_unit_mark [OF marks(3)] by (simp_all add: to_lower_def last_map map_butlast)
  moreover have "to_lower hn = [] \<longleftrightarrow> hn = []" by (simp add: to_lower_def)
  moreover assume "host_ok hn prt"
  ultimately show ?thesis using True to_lower_head [OF marks(2)] to_lower_mark [OF marks(3)]
    by (cases "hn = []") (auto simp: host_ok_def)
next
  case False
  assume "host_ok hn prt"
  then show ?thesis using False to_lower_head [OF marks(2)] to_lower_mark [OF marks(1)] by (simp add: host_ok_def)
qed

lemma authority_split:
  assumes "(case last_index_of_char a 64 of Some i \<Rightarrow> (user_info (take i a), drop (i + 1) a)
      | None \<Rightarrow> (([], []), a)) = (info, h)"
  shows "64 \<notin> set h" "set h \<subseteq> set a" "set (fst info) \<subseteq> set a" "set (snd info) \<subseteq> set a" "58 \<notin> set (fst info)"
proof -
  have "64 \<notin> set h \<and> set h \<subseteq> set a \<and> set (fst info) \<subseteq> set a \<and> set (snd info) \<subseteq> set a \<and> 58 \<notin> set (fst info)"
  proof (cases "last_index_of_char a 64")
    case None
    then have "h = a" "info = ([], [])" using assms by simp_all
    moreover have "64 \<notin> set a" using None by (simp add: last_index_of_char_def)
    ultimately show ?thesis by simp
  next
    case (Some i)
    then have d: "info = user_info (take i a)" "h = drop (i + 1) a" using assms by simp_all
    have "set (take i a) \<subseteq> set a" "set h \<subseteq> set a" by (simp_all add: d(2) set_take_subset set_drop_subset)
    moreover have "set (fst info) \<subseteq> set (take i a)" "set (snd info) \<subseteq> set (take i a)"
      using user_info_set [where t = "take i a"] by (auto simp: d(1))
    moreover have "58 \<notin> set (fst info)" by (simp add: d(1) user_info_user)
    ultimately show ?thesis using last_index_Some [OF Some] d(2) by auto
  qed
  then show "64 \<notin> set h" "set h \<subseteq> set a" "set (fst info) \<subseteq> set a" "set (snd info) \<subseteq> set a" "58 \<notin> set (fst info)"
    by blast+
qed

lemma parse_authority_parts:
  assumes "parse_authority a = (user, pass, hn, prt)" "58 \<in> set hn \<longrightarrow> starts_with hn [91]"
  shows "58 \<notin> set user \<and> host_ok hn prt \<and> 64 \<notin> set hn \<and> 64 \<notin> set prt \<and> to_lower hn = hn \<and>
    (set user \<union> set pass \<union> set hn \<union> set prt) \<inter> {47, 63, 35} \<subseteq> set a"
proof -
  obtain info h where ih: "(case last_index_of_char a 64 of Some i \<Rightarrow> (user_info (take i a), drop (i + 1) a)
      | None \<Rightarrow> (([], []), a)) = (info, h)" by fastforce
  obtain hn0 where h0: "host_port h = (hn0, prt)" "hn = to_lower hn0" "user = fst info" "pass = snd info"
    using assms(1) ih by (auto simp: parse_authority_def split: prod.splits)
  note sp = authority_split [OF ih]
  have "58 \<in> set hn0 \<longrightarrow> starts_with hn0 [91]"
    using assms(2) h0(2) to_lower_mark [OF marks(1)] to_lower_head [OF marks(2)] by simp
  then have ok: "host_ok hn prt" using host_ok_lower [OF host_port_ok [OF h0(1)]] h0(2) by simp
  have "64 \<notin> set hn \<and> 64 \<notin> set prt"
    using host_port_set [OF h0(1), of 64] sp(1) to_lower_mark [OF marks(4), of hn0] h0(2) by auto
  moreover have "(set hn \<union> set prt) \<inter> {47, 63, 35} \<subseteq> set h"
    using host_port_set [OF h0(1), of 47] host_port_set [OF h0(1), of 63] host_port_set [OF h0(1), of 35]
      to_lower_mark [OF marks(5), of hn0] to_lower_mark [OF marks(6), of hn0] to_lower_mark [OF marks(7), of hn0] h0(2) by auto
  ultimately show ?thesis using ok sp to_lower_idem [of hn0] h0 by auto
qed

section \<open>The text of a URL\<close>

lemma special_digits: "to_radix 10 n \<noteq> []"
  using to_radix_digits [of 10 n] by auto

lemma groups_ok_path:
  assumes "groups_ok auth p sea hsh"
  shows "groups_ok auth (normalize_path p) sea hsh" "groups_ok None (normalize_path p) sea hsh"
proof -
  have "set (normalize_path p) \<inter> {63, 35} = {}" using assms normalize_path_set [of 63 p] normalize_path_set [of 35 p] by (auto simp: groups_ok_def)
  moreover have "hd (normalize_path p) = 47" using normalize_path_head [of p] by (simp add: starts_with_single)
  ultimately show "groups_ok auth (normalize_path p) sea hsh" "groups_ok None (normalize_path p) sea hsh"
    using assms normalize_path_head [of p] by (auto simp: groups_ok_def split: option.splits)
qed

definition path_field :: "bool \<Rightarrow> jsstr \<Rightarrow> jsstr" where
  "path_field slash p = (if p = [] then (if slash then [47] else []) else normalize_path p)"

lemma path_field_idem: "path_field slash (path_field slash p) = path_field slash p"
  "\<not> slash' \<or> path_field slash p = path_field slash' p \<Longrightarrow> path_field slash' (path_field slash p) = path_field slash p"
proof -
  have r: "normalize_path [47] = [47]" by code_simp
  have "normalize_path p \<noteq> []" for p using normalize_path_head [of p] by (auto simp: starts_with_single)
  then show "path_field slash (path_field slash p) = path_field slash p"
    "\<not> slash' \<or> path_field slash p = path_field slash' p \<Longrightarrow> path_field slash' (path_field slash p) = path_field slash p"
    using r normalize_path_idem by (auto simp: path_field_def)
qed

lemma groups_ok_field:
  assumes "groups_ok auth p sea hsh"
  shows "groups_ok auth (path_field slash p) sea hsh" "groups_ok None (path_field slash p) sea hsh"
  using assms groups_ok_path [OF assms]
  by (auto simp: path_field_def groups_ok_def starts_with_def split: option.splits)

lemma scheme_lower: "scheme_ok s \<Longrightarrow> to_lower (s @ [58]) = to_lower s @ [58]"
  by (simp add: to_lower_def lower_unit_def)

lemma parse_fields:
  assumes "match_absolute text = Some (m1, auth, p, sea, hsh)" "to_lower m1 = proto"
    "(case auth of None \<Rightarrow> ([], [], [], []) | Some a \<Rightarrow> parse_authority a) = (user, pass, hn, prt0)"
    "prt = (if map_option (to_radix 10) (special proto) = Some prt0 then [] else prt0)"
  shows "parse_absolute text = Some \<lparr>protocol = proto, hostname = hn, port = prt, username = user, password = pass,
      host = host_text hn prt, pathname = path_field (auth \<noteq> None \<and> is_special proto) p, search = sea, hash = hsh\<rparr>"
  unfolding parse_absolute_def assms(1) option.case prod.case assms(2) Let_def assms(3) path_field_def assms(4)
  by simp

text \<open>Parsing the text of a parsed URL.\<close>

lemma parse_format:
  assumes "parse_absolute text = Some u" "host u = [] \<Longrightarrow> username u = [] \<and> password u = []"
    "58 \<in> set (hostname u) \<longrightarrow> starts_with (hostname u) [91]"
  shows "parse_absolute (format_url u) = Some u"
proof -
  obtain m1 auth p sea hsh where m: "match_absolute text = Some (m1, auth, p, sea, hsh)"
    using assms(1) by (auto simp: parse_absolute_def split: option.splits)
  obtain s where s: "m1 = s @ [58]" "scheme_ok s" and g: "groups_ok auth p sea hsh"
    using match_absolute_Some [OF m] by blast
  define proto where "proto = to_lower s @ [58]"
  obtain user pass hn prt0 where a: "(case auth of None \<Rightarrow> ([], [], [], []) | Some a \<Rightarrow> parse_authority a) = (user, pass, hn, prt0)"
    by (metis prod_cases4)
  define prt where "prt = (if map_option (to_radix 10) (special proto) = Some prt0 then [] else prt0)"
  define slash where "slash = (auth \<noteq> None \<and> is_special proto)"
  have tl: "to_lower m1 = proto" using scheme_lower [OF s(2)] by (simp add: s(1) proto_def)
  have u: "u = \<lparr>protocol = proto, hostname = hn, port = prt, username = user, password = pass,
      host = host_text hn prt, pathname = path_field slash p, search = sea, hash = hsh\<rparr>"
    using assms(1) parse_fields [OF m tl a prt_def] by (simp add: slash_def)
  have sl: "scheme_ok (to_lower s)" "to_lower proto = proto"
    using scheme_ok_lower [OF s(2)] scheme_lower [OF scheme_ok_lower [OF s(2)]] to_lower_idem by (simp_all add: proto_def)
  have pp: "(if map_option (to_radix 10) (special proto) = Some prt then [] else prt) = prt"
    using special_digits by (auto simp: prt_def)
  show ?thesis
  proof (cases "host u = []")
    case True
    then have e: "user = []" "pass = []" "hn = []" "prt = []" using assms(2) u by (auto simp: host_text_def split: if_splits)
    have f: "format_url u = to_lower s @ 58 # path_field slash p @ sea @ hsh"
      using True u by (simp add: format_url_def proto_def)
    have "match_absolute (format_url u) = Some (proto, None, path_field slash p, sea, hsh)"
      using match_absolute_append [OF sl(1) groups_ok_field(2) [OF g, of slash]] by (simp add: f proto_def)
    from parse_fields [OF this sl(2), of "[]" "[]" "[]" "[]" "[]"] special_digits
    have "parse_absolute (format_url u) = Some (u\<lparr>pathname := path_field False (path_field slash p)\<rparr>)"
      by (simp add: u e host_text_def split: option.split)
    then show ?thesis using path_field_idem(2) [of False slash p] by (simp add: u)
  next
    case False
    then obtain au where au: "auth = Some au" using u a by (cases auth) (auto simp: host_text_def prt_def)
    let ?a = "authority_text user pass (host_text hn prt)"
    have pa: "parse_authority au = (user, pass, hn, prt0)" using a au by simp
    note parts = parse_authority_parts [OF pa]
    have h58: "58 \<in> set hn \<longrightarrow> starts_with hn [91]" using assms(3) u by simp
    have ok: "58 \<notin> set user" "host_ok hn prt" "64 \<notin> set hn" "64 \<notin> set prt" "to_lower hn = hn"
      using parts [OF h58] by (auto simp: prt_def host_ok_def)
    have "set ?a \<inter> {47, 63, 35} \<subseteq> set au"
      using parts [OF h58] by (auto simp: authority_text_def host_text_def prt_def split: if_splits)
    then have sa: "set ?a \<inter> {47, 63, 35} = {}" using g au by (auto simp: groups_ok_def)
    have "groups_ok (Some ?a) (path_field slash p) sea hsh"
      using groups_ok_field(1) [OF g, of slash] sa by (simp add: groups_ok_def au)
    moreover have "format_url u = to_lower s @ 58 # (47 # 47 # ?a) @ path_field slash p @ sea @ hsh"
      using False u by (simp add: format_url_def proto_def authority_text_def)
    ultimately have "match_absolute (format_url u) = Some (proto, Some ?a, path_field slash p, sea, hsh)"
      using match_absolute_append [OF sl(1), of "Some ?a"] by (simp add: proto_def)
    moreover have "parse_authority ?a = (user, pass, hn, prt)" using parse_authority_text [OF ok(1-4), of pass] ok(5) by simp
    ultimately have "parse_absolute (format_url u) =
        Some (u\<lparr>pathname := path_field (Some ?a \<noteq> None \<and> is_special proto) (path_field slash p)\<rparr>)"
      using parse_fields [of "format_url u" proto "Some ?a" "path_field slash p" sea hsh proto user pass hn prt prt] sl(2) pp
      by (simp add: u)
    then show ?thesis using path_field_idem(1) [of slash p] by (simp add: slash_def au u)
  qed
qed

lemma href_again:
  assumes "new_url1 text = Some u" "host u = [] \<longrightarrow> username u = [] \<and> password u = []"
    "58 \<in> set (hostname u) \<longrightarrow> starts_with (hostname u) [91]"
  shows "new_url1 (href u) = Some u"
proof -
  obtain p where p: "parse_absolute text = Some p" "u = apply_parsed p"
    using assms(1) by (auto simp: new_url1_def split: if_splits)
  have f: "host u = host p" "username u = username p" "password u = password p" "hostname u = hostname p"
    "href u = format_url p"
    by (cases p; simp add: p(2) apply_parsed_def href_def parsed.defs)+
  have r: "parse_absolute (format_url p) = Some p" using parse_format [OF p(1)] assms(2,3) f by simp
  then have "has_scheme (format_url p)"
    by (auto simp: has_scheme_def parse_absolute_def match_absolute_def split: option.splits)
  then show ?thesis using r f(5) p(2) by (simp add: new_url1_def)
qed

text \<open>C17. A URL is its text: formatting a parsed URL and parsing the text again gives the same URL, with
  user information, IPv6 hosts, ports, normalised paths, query, fragment and query parameters. (It has a
  host if it has user information, and its host name has no colon outside brackets.)\<close>

theorem href_round_trip:
  assumes "new_url1 text = Some u" "host u = [] \<longrightarrow> username u = [] \<and> password u = []"
    "58 \<in> set (hostname u) \<longrightarrow> starts_with (hostname u) [91]"
  shows "new_url1 (href u) = Some u"
  using assms by (rule href_again)

lemma href_round_trip_witness:
  "\<exists>u. new_url1 (js ''HTTP://me:pw@[::1]:8080/a/../b/?q=1#top'') = Some u \<and> new_url1 (href u) = Some u \<and>
     href u = js ''http://me:pw@[::1]:8080/b/?q=1#top''"
proof -
  let ?t = "js ''HTTP://me:pw@[::1]:8080/a/../b/?q=1#top''"
  have 1: "map_option (\<lambda>u. (host u \<noteq> [] \<and> starts_with (hostname u) [91], href u)) (new_url1 ?t) =
      Some (True, js ''http://me:pw@[::1]:8080/b/?q=1#top'')" by code_simp
  then obtain u where u: "new_url1 ?t = Some u" by auto
  then show ?thesis using 1 href_round_trip [OF u] by simp
qed

section \<open>What goes wrong\<close>

text \<open>A query after an absolute path stays in the path, a fragment after a query in the query.\<close>

lemma absolute_path_query:
  "map_option (\<lambda>u. (pathname u, search u)) (new_url (js ''/p?q=1'') (Some (js ''http://h/''))) = Some (js ''/p?q=1'', [])"
  by code_simp

lemma query_fragment:
  "map_option (\<lambda>u. (search u, hash u)) (new_url (js ''?a#b'') (Some (js ''http://h/''))) = Some (js ''?a#b'', [])"
  by code_simp

text \<open>The path of a URL without authority gets a slash in front.\<close>

lemma mailto_slash: "map_option href (new_url (js ''mailto:x@y'') None) = Some (js ''mailto:/x@y'')"
  by code_simp

text \<open>User information is lost when the host is empty, and a second port is peeled off by the second parse.\<close>

lemma userinfo_lost: "map_option href (new_url (js ''file://me@/x'') None) = Some (js ''file:/x'')"
  by code_simp

lemma two_ports:
  "map_option hostname (new_url (js ''http://h:1:80'') None) = Some (js ''h:1'') \<and>
   map_option (\<lambda>u. map_option hostname (new_url (href u) None)) (new_url (js ''http://h:1:80'') None) = Some (Some (js ''h''))"
  by code_simp

end
