(* ===== verification/Stream_Core.thy ===== *)
theory Stream_Core
  imports Text_Codec "HOL-Library.Multiset"
begin

text \<open>
  The stream kernel, \<open>js/internal/stream-core.js\<close>: the \<open>AsyncQueue\<close>, \<open>Readable\<close> and
  \<open>Writable\<close> as machines, and \<open>pipe\<close> over them. An async method is cut where it awaits: the
  call itself is one step, every continuation another. The environment decides when a promise of the
  source or the sink settles and with what; continuations of resolved promises run in any order, which
  covers the order of the engine's job queue.
\<close>

section \<open>Chunks\<close>

text \<open>
  What is thrown. An \<open>Error\<close> object: the one of a write after the end; the \<open>TypeError\<close> of a chunk of another
  type, and that of \<open>String()\<close>; one of the program's without a code; one that has a code or is named
  \<open>AbortError\<close>; one that \<open>abortedError\<close> made of a value that was no error. Or any other value, with one whose
  \<open>String()\<close> throws.
\<close>

datatype raw_value = UndefinedValue | NullValue | OtherValue nat

datatype stream_error = WriteAfterEnd | BadChunk | NoText | UserError nat | CodedError nat | AbortError raw_value
  | UserValue raw_value | Unprintable nat

text \<open>\<open>abortedError\<close>: the error itself, or a new one for another value; it throws when that has no text.\<close>

fun aborted_error :: "stream_error \<Rightarrow> stream_error + stream_error" where
  "aborted_error (UserValue v) = Inr (AbortError v)"
| "aborted_error (Unprintable n) = Inl NoText"
| "aborted_error e = Inr e"

text \<open>An error object without a code gets the name \<open>AbortError\<close> and its code.\<close>

fun renames :: "stream_error \<Rightarrow> bool" where
  "renames (UserError n) = True"
| "renames BadChunk = True"
| "renames NoText = True"
| "renames _ = False"

text \<open>The properties \<open>_error\<close> cannot tell a failure with \<open>null\<close> from none.\<close>

definition error_slot :: "stream_error \<Rightarrow> stream_error option" where
  "error_slot e = (if e = UserValue NullValue then None else Some e)"

text \<open>\<open>null\<close> or \<open>undefined\<close>, an \<open>ArrayBuffer\<close>, a view (buffer, offset, length), a string, anything else.\<close>

datatype chunk = Missing | Buffer bytes | View bytes nat nat | Str jsstr | Other

definition to_array_buffer :: "chunk \<Rightarrow> stream_error + bytes option" where
  "to_array_buffer c = (case c of
     Missing \<Rightarrow> Inr None
   | Buffer b \<Rightarrow> Inr (Some b)
   | View b off len \<Rightarrow> Inr (Some (jslice b off (off + len)))
   | Str s \<Rightarrow> Inr (Some (encode_utf8 s))
   | Other \<Rightarrow> Inl BadChunk)"

definition default_high_water_mark :: nat where
  "default_high_water_mark = 1024 * 1024"

definition high_water_mark :: "nat option \<Rightarrow> nat" where
  "high_water_mark opt = (case opt of None \<Rightarrow> default_high_water_mark | Some n \<Rightarrow> if n = 0 then default_high_water_mark else n)"

section \<open>Readable\<close>

text \<open>
  Where a call of \<open>read(n)\<close> stands: it runs the pump and waits for the source; the pump is done (or was
  not needed) and it goes on next; it is the waiter of the queue; it has its chunk.
\<close>

datatype phase = Pulling "int option" | Pumped "int option" | Waiting "int option" | Got "int option" bytes

datatype outcome = Chunk bytes | Null | Thrown stream_error

record readable =
  rclosed :: bool
  ended :: bool
  rerror :: "stream_error option"
  pumping :: bool
  items :: "bytes list"
  waiter :: "nat option"
  bufferedBytes :: int
  reads :: "nat \<Rightarrow> phase option"
  results :: "(nat \<times> outcome) list"

definition new_readable :: readable where
  "new_readable = \<lparr>rclosed = False, ended = False, rerror = None, pumping = False, items = [], waiter = None,
     bufferedBytes = 0, reads = (\<lambda>_. None), results = []\<rparr>"

definition settle_read :: "nat \<Rightarrow> outcome \<Rightarrow> readable \<Rightarrow> readable" where
  "settle_read i x R = R\<lparr>reads := (reads R)(i := None), results := results R @ [(i, x)]\<rparr>"

text \<open>
  \<open>AsyncQueue.push\<close>: the waiter takes the item, or it is queued. \<open>AsyncQueue.shift\<close>: the first item,
  or the call becomes the waiter, in the place of an earlier one.
\<close>

definition queue_push :: "bytes \<Rightarrow> readable \<Rightarrow> readable" where
  "queue_push b R = (case waiter R of
     Some w \<Rightarrow> R\<lparr>waiter := None,
       reads := (case reads R w of Some (Waiting n) \<Rightarrow> (reads R)(w \<mapsto> Got n b) | _ \<Rightarrow> reads R)\<rparr>
   | None \<Rightarrow> R\<lparr>items := items R @ [b]\<rparr>)"

definition queue_shift :: "nat \<Rightarrow> int option \<Rightarrow> readable \<Rightarrow> readable" where
  "queue_shift i n R = (case items R of
     b # bs \<Rightarrow> R\<lparr>items := bs, reads := (reads R)(i \<mapsto> Got n b)\<rparr>
   | [] \<Rightarrow> R\<lparr>waiter := Some i, reads := (reads R)(i \<mapsto> Waiting n)\<rparr>)"

text \<open>\<open>read\<close> after the pump.\<close>

definition after_pump :: "nat \<Rightarrow> int option \<Rightarrow> readable \<Rightarrow> readable" where
  "after_pump i n R = (case rerror R of
     Some e \<Rightarrow> settle_read i (Thrown e) R
   | None \<Rightarrow> if items R = [] \<and> ended R then settle_read i Null R else queue_shift i n R)"

text \<open>The call \<open>read(n)\<close> up to its first await; \<open>_pump\<close> up to the call of \<open>pull\<close>.\<close>

definition start_pump :: "nat \<Rightarrow> int option \<Rightarrow> readable \<Rightarrow> readable" where
  "start_pump i n R =
     (if pumping R \<or> ended R \<or> rerror R \<noteq> None then R\<lparr>reads := (reads R)(i \<mapsto> Pumped n)\<rparr>
      else R\<lparr>pumping := True, reads := (reads R)(i \<mapsto> Pulling n)\<rparr>)"

definition read_call :: "nat \<Rightarrow> int option \<Rightarrow> readable \<Rightarrow> readable" where
  "read_call i n R = (case rerror R of
     Some e \<Rightarrow> settle_read i (Thrown e) R
   | None \<Rightarrow>
       if ended R \<and> items R = [] then settle_read i Null R
       else if items R = [] then start_pump i n R
       else after_pump i n R)"

text \<open>The rest of \<open>_pump\<close>, when the promise of \<open>pull\<close> settles; \<open>i\<close> is the read that runs the pump.\<close>

definition pump_result :: "stream_error + chunk \<Rightarrow> readable \<Rightarrow> readable" where
  "pump_result x R = (case x of
     Inl e \<Rightarrow> R\<lparr>rerror := error_slot e\<rparr>
   | Inr c \<Rightarrow> (case to_array_buffer c of
        Inl e \<Rightarrow> R\<lparr>rerror := error_slot e\<rparr>
      | Inr None \<Rightarrow> R\<lparr>ended := True\<rparr>
      | Inr (Some b) \<Rightarrow> (let S = queue_push b R in S\<lparr>bufferedBytes := bufferedBytes S + int (length b)\<rparr>)))"

definition pulled :: "nat \<Rightarrow> stream_error + chunk \<Rightarrow> readable \<Rightarrow> readable" where
  "pulled i x R = (case reads R i of
     Some (Pulling n) \<Rightarrow> (let S = pump_result x R in S\<lparr>pumping := False, reads := (reads S)(i \<mapsto> Pumped n)\<rparr>)
   | _ \<Rightarrow> R)"

text \<open>The end of \<open>read\<close>, with the chunk that \<open>shift\<close> gave.\<close>

definition take_chunk :: "nat \<Rightarrow> int option \<Rightarrow> bytes \<Rightarrow> readable \<Rightarrow> readable" where
  "take_chunk i n b R =
     (let R1 = R\<lparr>bufferedBytes := bufferedBytes R - int (length b), reads := (reads R)(i := None)\<rparr>
      in case n of
           Some k \<Rightarrow>
             if 0 \<le> k \<and> int (length b) > k
             then (let S = queue_push (drop (nat k) b) R1
                   in settle_read i (Chunk (take (nat k) b))
                        (S\<lparr>bufferedBytes := bufferedBytes S + int (length b) - k\<rparr>))
             else settle_read i (Chunk b) R1
         | None \<Rightarrow> settle_read i (Chunk b) R1)"

definition resume :: "nat \<Rightarrow> readable \<Rightarrow> readable" where
  "resume i R = (case reads R i of
     Some (Pumped n) \<Rightarrow> after_pump i n R
   | Some (Got n b) \<Rightarrow> take_chunk i n b R
   | _ \<Rightarrow> R)"

text \<open>\<open>cancel\<close>, once the source's own \<open>cancel\<close> is done.\<close>

definition cancelled :: "readable \<Rightarrow> readable" where
  "cancelled R = R\<lparr>rclosed := True, ended := True\<rparr>"

datatype read_event = Read nat "int option" | Pulled nat "stream_error + chunk" | Resume nat | Cancelled

fun read_step :: "readable \<Rightarrow> read_event \<Rightarrow> readable" where
  "read_step R (Read i n) = read_call i n R"
| "read_step R (Pulled i x) = pulled i x R"
| "read_step R (Resume i) = resume i R"
| "read_step R Cancelled = cancelled R"

section \<open>Writable\<close>

text \<open>
  The chain of promises \<open>_tail\<close> is a queue: \<open>write\<close> and \<open>end\<close> put a continuation behind it, and the
  next one runs when the write in progress has settled. What the sink is asked to do is logged; a sink
  without \<open>close\<close> or \<open>abort\<close> ignores these calls. \<open>marked\<close> are the error objects that \<open>abortedError\<close> has
  renamed. A write ends accepted or rejected; with a chunk that is none, the call itself throws.
\<close>

datatype job = WriteJob nat bytes | EndJob

datatype sink_call = SinkWrite bytes | SinkClose | SinkAbort stream_error

datatype write_result = Accepted | Rejected stream_error | Throws stream_error

record writable =
  wclosed :: bool
  werror :: "stream_error option"
  wpending :: int
  tail :: "job list"
  running :: "(nat \<times> bytes) option"
  sink :: "sink_call list"
  written :: "(nat \<times> write_result) list"
  marked :: "stream_error list"

definition new_writable :: writable where
  "new_writable = \<lparr>wclosed = False, werror = None, wpending = 0, tail = [], running = None, sink = [], written = [], marked = []\<rparr>"

definition need_drain :: "nat \<Rightarrow> writable \<Rightarrow> bool" where
  "need_drain hwm W \<longleftrightarrow> wpending W \<ge> int hwm"

definition write_call :: "nat \<Rightarrow> chunk \<Rightarrow> writable \<Rightarrow> writable" where
  "write_call i c W =
     (if wclosed W then W\<lparr>written := written W @ [(i, Rejected WriteAfterEnd)]\<rparr>
      else case werror W of
        Some e \<Rightarrow> W\<lparr>written := written W @ [(i, Rejected e)]\<rparr>
      | None \<Rightarrow> (case to_array_buffer c of
            Inr (Some b) \<Rightarrow> W\<lparr>wpending := wpending W + int (length b), tail := tail W @ [WriteJob i b]\<rparr>
          | _ \<Rightarrow> W\<lparr>written := written W @ [(i, Throws BadChunk)]\<rparr>))"

definition end_call :: "writable \<Rightarrow> writable" where
  "end_call W = (if wclosed W then W else W\<lparr>tail := tail W @ [EndJob]\<rparr>)"

text \<open>The next continuation of the chain runs.\<close>

definition next_job :: "writable \<Rightarrow> writable" where
  "next_job W = (case running W of
     Some _ \<Rightarrow> W
   | None \<Rightarrow> (case tail W of
        [] \<Rightarrow> W
      | WriteJob i b # ks \<Rightarrow> W\<lparr>tail := ks, running := Some (i, b), sink := sink W @ [SinkWrite b]\<rparr>
      | EndJob # ks \<Rightarrow> W\<lparr>tail := ks, wclosed := True, sink := sink W @ [SinkClose]\<rparr>))"

text \<open>The promise of the sink's \<open>write\<close> settles.\<close>

definition settle_write :: "stream_error option \<Rightarrow> writable \<Rightarrow> writable" where
  "settle_write r W = (case running W of
     None \<Rightarrow> W
   | Some (i, b) \<Rightarrow>
       (let V = W\<lparr>running := None, wpending := wpending W - int (length b)\<rparr>
        in case r of
             None \<Rightarrow> V\<lparr>written := written V @ [(i, Accepted)]\<rparr>
           | Some e \<Rightarrow> V\<lparr>werror := error_slot e, written := written V @ [(i, Rejected e)]\<rparr>))"

definition mark :: "stream_error \<Rightarrow> writable \<Rightarrow> writable" where
  "mark e W = (if renames e \<and> e \<notin> set (marked W) then W\<lparr>marked := marked W @ [e]\<rparr> else W)"

definition abort_call :: "stream_error \<Rightarrow> writable \<Rightarrow> writable" where
  "abort_call reason W =
     (if wclosed W then W
      else case aborted_error reason of
        Inl x \<Rightarrow> W\<lparr>wclosed := True\<rparr>
      | Inr e \<Rightarrow> (mark e W)\<lparr>wclosed := True, werror := Some e, sink := sink W @ [SinkAbort e]\<rparr>)"


datatype write_event = Write nat chunk | End | NextJob | Settle "stream_error option" | Abort stream_error

fun write_step :: "writable \<Rightarrow> write_event \<Rightarrow> writable" where
  "write_step W (Write i c) = write_call i c W"
| "write_step W End = end_call W"
| "write_step W NextJob = next_job W"
| "write_step W (Settle r) = settle_write r W"
| "write_step W (Abort e) = abort_call e W"

section \<open>pipe\<close>

text \<open>
  One turn of the loop of \<open>pipe\<close>: the reason of the signal, if it is aborted, what \<open>pull\<close> answers, how the
  sink takes the chunk (or its close). \<open>pipe\<close> awaits every call, so no two overlap; the calls of the source's
  \<open>cancel\<close> and of the sink settle.
\<close>

record turn =
  aborted :: "stream_error option"
  answer :: "stream_error + chunk"
  taken :: "stream_error option"






datatype pipe_result = Finished | Failed stream_error





section \<open>No byte is lost or made up\<close>

fun held :: "phase option \<Rightarrow> byte multiset" where
  "held (Some (Got n b)) = mset b"
| "held _ = {#}"

definition hands :: "(nat \<Rightarrow> phase option) \<Rightarrow> byte multiset" where
  "hands m = (\<Sum>i\<in>dom m. held (m i))"

lemma hands_superset: "finite A \<Longrightarrow> dom m \<subseteq> A \<Longrightarrow> hands m = (\<Sum>i\<in>A. held (m i))"
  unfolding hands_def by (rule sum.mono_neutral_left) (auto simp: domIff)

lemma hands_update:
  assumes "finite (dom m)"
  shows "hands (m(i := x)) + held (m i) = hands m + held x"
proof -
  let ?A = "dom m - {i}"
  have f: "finite (insert i ?A)" "finite ?A" using assms by auto
  have 1: "hands (m(i := x)) = held x + (\<Sum>j\<in>?A. held (m j))"
  proof -
    have "hands (m(i := x)) = (\<Sum>j\<in>insert i ?A. held ((m(i := x)) j))" using f by (intro hands_superset) auto
    also have "\<dots> = held x + (\<Sum>j\<in>?A. held ((m(i := x)) j))"
      by (subst sum.insert) (use f in auto)
    also have "(\<Sum>j\<in>?A. held ((m(i := x)) j)) = (\<Sum>j\<in>?A. held (m j))" by (rule sum.cong) auto
    finally show ?thesis .
  qed
  have "hands m = (\<Sum>j\<in>insert i ?A. held (m j))" using f by (intro hands_superset) auto
  also have "\<dots> = held (m i) + (\<Sum>j\<in>?A. held (m j))" by (rule sum.insert) (use f in auto)
  finally have "hands m = held (m i) + (\<Sum>j\<in>?A. held (m j))" .
  then show ?thesis using 1 by (simp add: ac_simps)
qed

lemma hands_same: "finite (dom m) \<Longrightarrow> held (m i) = held x \<Longrightarrow> hands (m(i := x)) = hands m"
  using hands_update [of m i x] by simp

fun outcome_bytes :: "outcome \<Rightarrow> bytes" where
  "outcome_bytes (Chunk b) = b"
| "outcome_bytes _ = []"

definition delivered :: "readable \<Rightarrow> byte multiset" where
  "delivered R = (\<Sum>r\<leftarrow>results R. mset (outcome_bytes (snd r)))"

text \<open>The bytes a readable has been given, all of them.\<close>

definition total_bytes :: "readable \<Rightarrow> byte multiset" where
  "total_bytes R = delivered R + mset (concat (items R)) + hands (reads R)"

definition read_ok :: "readable \<Rightarrow> bool" where
  "read_ok R \<longleftrightarrow> finite (dom (reads R)) \<and>
     (case waiter R of None \<Rightarrow> True | Some w \<Rightarrow> \<exists>n. reads R w = Some (Waiting n)) \<and>
     bufferedBytes R = int (size (mset (concat (items R)) + hands (reads R)))"

lemma read_ok_new: "read_ok new_readable"
  by (simp add: read_ok_def new_readable_def hands_def)

text \<open>The bytes that enter with an event.\<close>

definition entering :: "readable \<Rightarrow> read_event \<Rightarrow> bytes" where
  "entering R e = (case e of
     Pulled i (Inr c) \<Rightarrow> (case reads R i of
        Some (Pulling n) \<Rightarrow> (case to_array_buffer c of Inr (Some b) \<Rightarrow> b | _ \<Rightarrow> [])
      | _ \<Rightarrow> [])
   | _ \<Rightarrow> [])"

fun legal_read :: "readable \<Rightarrow> read_event \<Rightarrow> bool" where
  "legal_read R (Read i n) = (reads R i = None)"
| "legal_read R _ = True"

lemma settle_read_ok:
  assumes "read_ok R" "held (reads R i) = {#}" "\<And>n. reads R i \<noteq> Some (Waiting n)"
  shows "read_ok (settle_read i x R) \<and> total_bytes (settle_read i x R) = total_bytes R + mset (outcome_bytes x)"
  using assms
  by (auto simp: read_ok_def settle_read_def total_bytes_def delivered_def hands_same dom_def
      intro: finite_subset [of _ "dom (reads R)"] split: option.splits)


lemma queue_push_ok:
  assumes "read_ok R"
  shows "let S = queue_push b R in read_ok (S\<lparr>bufferedBytes := bufferedBytes R + int (length b)\<rparr>) \<and>
    total_bytes S = total_bytes R + mset b \<and> bufferedBytes S = bufferedBytes R \<and>
    (\<forall>i. (\<forall>n. reads R i \<noteq> Some (Waiting n)) \<longrightarrow> reads S i = reads R i)"
proof (cases "waiter R")
  case None
  then show ?thesis using assms by (simp add: queue_push_def read_ok_def total_bytes_def Let_def delivered_def)
next
  case (Some w)
  then obtain n where n: "reads R w = Some (Waiting n)" using assms by (auto simp: read_ok_def)
  have f: "finite (dom (reads R))" using assms by (simp add: read_ok_def)
  have "hands ((reads R)(w \<mapsto> Got n b)) = hands (reads R) + mset b"
    using hands_update [OF f, of w "Some (Got n b)"] n by simp
  then show ?thesis using assms Some n f by (auto simp: queue_push_def read_ok_def total_bytes_def Let_def delivered_def)
qed

lemma queue_shift_ok:
  assumes "read_ok R" "held (reads R i) = {#}" "waiter R \<noteq> Some i"
  shows "read_ok (queue_shift i n R) \<and> total_bytes (queue_shift i n R) = total_bytes R"
proof -
  have f: "finite (dom (reads R))" using assms by (simp add: read_ok_def)
  have h: "hands ((reads R)(i \<mapsto> Got n b)) = hands (reads R) + mset b"
    "hands ((reads R)(i \<mapsto> Waiting n)) = hands (reads R)" for b
    using hands_update [OF f, of i "Some (Got n b)"] hands_update [OF f, of i "Some (Waiting n)"] assms(2) by simp_all
  show ?thesis
    using assms h f
    by (cases "items R") (auto simp: queue_shift_def read_ok_def total_bytes_def delivered_def split: option.splits)
qed

lemma after_pump_ok:
  assumes "read_ok R" "held (reads R i) = {#}" "\<And>n. reads R i \<noteq> Some (Waiting n)"
  shows "read_ok (after_pump i n R) \<and> total_bytes (after_pump i n R) = total_bytes R"
proof -
  have "waiter R \<noteq> Some i" using assms by (auto simp: read_ok_def)
  then show ?thesis using queue_shift_ok [OF assms(1,2)] settle_read_ok [OF assms]
    by (auto simp: after_pump_def split: option.split)
qed

lemma reads_phase_ok:
  assumes "read_ok R" "held (reads R i) = {#}" "\<And>n. reads R i \<noteq> Some (Waiting n)" "held (Some p) = {#}"
    "S = R\<lparr>reads := (reads R)(i \<mapsto> p)\<rparr>"
  shows "read_ok S \<and> total_bytes S = total_bytes R"
  using assms by (auto simp: read_ok_def total_bytes_def delivered_def hands_same split: option.splits)

lemma pumping_ok [simp]: "read_ok (R\<lparr>pumping := x\<rparr>) = read_ok R" "total_bytes (R\<lparr>pumping := x\<rparr>) = total_bytes R"
  "read_ok (R\<lparr>rerror := e\<rparr>) = read_ok R" "total_bytes (R\<lparr>rerror := e\<rparr>) = total_bytes R"
  "read_ok (R\<lparr>ended := x\<rparr>) = read_ok R" "total_bytes (R\<lparr>ended := x\<rparr>) = total_bytes R"
  "read_ok (R\<lparr>rclosed := x\<rparr>) = read_ok R" "total_bytes (R\<lparr>rclosed := x\<rparr>) = total_bytes R"
  "total_bytes (R\<lparr>bufferedBytes := k\<rparr>) = total_bytes R"
  by (simp_all add: read_ok_def total_bytes_def delivered_def cong: option.case_cong)

lemma read_call_ok:
  assumes "read_ok R" "reads R i = None"
  shows "read_ok (read_call i n R) \<and> total_bytes (read_call i n R) = total_bytes R"
proof -
  have h: "held (reads R i) = {#}" "\<And>n. reads R i \<noteq> Some (Waiting n)" using assms(2) by simp_all
  have "read_ok (start_pump i n R) \<and> total_bytes (start_pump i n R) = total_bytes R"
    using reads_phase_ok [OF assms(1) h, of "Pumped n", OF _ refl]
      reads_phase_ok [of "R\<lparr>pumping := True\<rparr>" i "Pulling n", OF _ _ _ _ refl] assms h
    by (simp add: start_pump_def)
  then show ?thesis using settle_read_ok [OF assms(1) h] after_pump_ok [OF assms(1) h]
    by (auto simp: read_call_def split: option.split)
qed

lemma pump_result_ok:
  assumes "read_ok R"
  shows "read_ok (pump_result x R) \<and>
    total_bytes (pump_result x R) = total_bytes R +
      mset (case x of Inr c \<Rightarrow> (case to_array_buffer c of Inr (Some b) \<Rightarrow> b | _ \<Rightarrow> []) | _ \<Rightarrow> []) \<and>
    (\<forall>i. (\<forall>n. reads R i \<noteq> Some (Waiting n)) \<longrightarrow> reads (pump_result x R) i = reads R i)"
  using assms queue_push_ok [OF assms] by (auto simp: pump_result_def Let_def split: sum.splits option.splits)

lemma pulled_ok:
  assumes "read_ok R"
  shows "read_ok (pulled i x R) \<and> total_bytes (pulled i x R) = total_bytes R + mset (entering R (Pulled i x))"
proof (cases "\<exists>n. reads R i = Some (Pulling n)")
  case True
  then obtain n where n: "reads R i = Some (Pulling n)" by blast
  let ?S = "pump_result x R"
  note p = pump_result_ok [OF assms, of x]
  have i: "reads ?S i = Some (Pulling n)" using p n by (metis option.inject phase.distinct(3))
  have "read_ok (pulled i x R) \<and> total_bytes (pulled i x R) = total_bytes ?S"
    using reads_phase_ok [of "?S\<lparr>pumping := False\<rparr>" i "Pumped n", OF _ _ _ _ refl] p i
    by (simp add: pulled_def n Let_def)
  then show ?thesis using p n by (auto simp: entering_def split: sum.splits)
next
  case False
  then show ?thesis using assms by (auto simp: pulled_def entering_def split: option.splits phase.splits sum.splits)
qed

lemma take_chunk_ok:
  assumes "read_ok R" "reads R i = Some (Got n b)"
  shows "read_ok (take_chunk i n b R) \<and> total_bytes (take_chunk i n b R) = total_bytes R"
proof -
  have f: "finite (dom (reads R))" using assms by (simp add: read_ok_def)
  define R1 where "R1 = R\<lparr>bufferedBytes := bufferedBytes R - int (length b), reads := (reads R)(i := None)\<rparr>"
  have h: "hands (reads R) = hands ((reads R)(i := None)) + mset b" using hands_update [OF f, of i None] assms(2) by simp
  have ok: "read_ok R1" and tot: "total_bytes R1 + mset b = total_bytes R" and none: "reads R1 i = None"
    using assms f h by (auto simp: R1_def read_ok_def total_bytes_def delivered_def split: option.splits)
  show ?thesis
  proof (cases "\<exists>k. n = Some k \<and> 0 \<le> k \<and> int (length b) > k")
    case True
    then obtain k where k: "n = Some k" "0 \<le> k" "int (length b) > k" by blast
    let ?d = "drop (nat k) b" and ?t = "take (nat k) b"
    define S where "S = queue_push ?d R1"
    note q = queue_push_ok [OF ok, of ?d, folded S_def, unfolded Let_def]
    have "int (length ?d) = int (length b) - k" using k by (simp add: of_nat_diff nat_le_iff)
    then have e: "bufferedBytes S + int (length b) - k = bufferedBytes R1 + int (length ?d)" using q by linarith
    have s: "read_ok (S\<lparr>bufferedBytes := bufferedBytes S + int (length b) - k\<rparr>)" unfolding e using q by blast
    have "reads S i = None" using q none by simp
    then have "read_ok (take_chunk i n b R) \<and> total_bytes (take_chunk i n b R) = total_bytes S + mset ?t"
      using settle_read_ok [OF s, of i "Chunk ?t"] k by (simp add: take_chunk_def R1_def [symmetric] S_def [symmetric] Let_def)
    moreover have "mset ?d + mset ?t = mset b" by (metis append_take_drop_id mset_append union_commute)
    ultimately show ?thesis using q tot by (simp add: ac_simps)
  next
    case False
    then have "take_chunk i n b R = settle_read i (Chunk b) R1"
      by (auto simp: take_chunk_def R1_def Let_def split: option.split)
    then show ?thesis using settle_read_ok [OF ok, of i "Chunk b"] none tot by simp
  qed
qed

lemma resume_ok:
  assumes "read_ok R"
  shows "read_ok (resume i R) \<and> total_bytes (resume i R) = total_bytes R"
  using assms after_pump_ok [OF assms, of i] take_chunk_ok [OF assms, of i]
  by (auto simp: resume_def split: option.split phase.split)

lemma read_step_ok:
  assumes "read_ok R" "legal_read R e"
  shows "read_ok (read_step R e) \<and> total_bytes (read_step R e) = total_bytes R + mset (entering R e)"
  using assms read_call_ok pulled_ok [OF assms(1)] resume_ok
  by (cases e) (auto simp: entering_def cancelled_def)


definition tracked_read :: "bytes \<times> readable \<Rightarrow> read_event \<Rightarrow> bytes \<times> readable" where
  "tracked_read T e = (fst T @ entering (snd T) e, read_step (snd T) e)"

definition accounted :: "bytes \<times> readable \<Rightarrow> bool" where
  "accounted T \<longleftrightarrow> read_ok (snd T) \<and> mset (fst T) = total_bytes (snd T)"

interpretation reading: guarded_component tracked_read accounted "\<lambda>T. legal_read (snd T)"
  using read_step_ok by unfold_locales (simp add: accounted_def tracked_read_def)

text \<open>Whatever calls of \<open>read\<close> overlap, with whatever sizes, and whenever the source answers, fails or is
  cancelled: the bytes the source has given are exactly those delivered, those in the queue and those
  held by a read about to return, none lost and none twice, and \<open>_bufferedBytes\<close> counts the
  bytes not yet delivered.\<close>

theorem read_conserves:
  assumes "legal_run tracked_read (\<lambda>T. legal_read (snd T)) ([], new_readable) es"
    "foldl tracked_read ([], new_readable) es = (given, R)"
  shows "mset given = delivered R + mset (concat (items R)) + hands (reads R) \<and>
    bufferedBytes R = int (size (mset (concat (items R)) + hands (reads R)))"
proof -
  have "accounted ([], new_readable)"
    using read_ok_new by (simp add: accounted_def total_bytes_def delivered_def new_readable_def hands_def)
  from reading.run_legal [OF this assms(1)] show ?thesis
    by (simp add: assms(2) accounted_def total_bytes_def read_ok_def)
qed

lemma read_conserves_witness:
  "mset (fst (foldl tracked_read ([], new_readable) [Read 0 (Some 1), Read 1 None, Pulled 0 (Inr (Buffer [1, 2, 3])), Resume 1, Resume 0])) =
   delivered (snd (foldl tracked_read ([], new_readable) [Read 0 (Some 1), Read 1 None, Pulled 0 (Inr (Buffer [1, 2, 3])), Resume 1, Resume 0])) +
   mset (concat (items (snd (foldl tracked_read ([], new_readable) [Read 0 (Some 1), Read 1 None, Pulled 0 (Inr (Buffer [1, 2, 3])), Resume 1, Resume 0])))) +
   hands (reads (snd (foldl tracked_read ([], new_readable) [Read 0 (Some 1), Read 1 None, Pulled 0 (Inr (Buffer [1, 2, 3])), Resume 1, Resume 0])))"
proof -
  let ?es = "[Read 0 (Some 1), Read 1 None, Pulled 0 (Inr (Buffer [1, 2, 3])), Resume 1, Resume 0]"
  have "legal_run tracked_read (\<lambda>T. legal_read (snd T)) ([], new_readable) ?es"
    by (simp add: tracked_read_def new_readable_def read_call_def start_pump_def)
  from read_conserves [OF this, of "fst (foldl tracked_read ([], new_readable) ?es)" "snd (foldl tracked_read ([], new_readable) ?es)"]
  show ?thesis by simp
qed

text \<open>Two reads that overlap: the first pumps, the second waits for a chunk; when the source ends, the second
  waits for ever, since the end is no item of the queue.\<close>

lemma overlapping_read_hangs:
  "let R = foldl read_step new_readable [Read 0 None, Read 1 None, Resume 1, Pulled 0 (Inr Missing), Resume 0]
   in results R = [(0, Null)] \<and> reads R 1 = Some (Waiting None) \<and> ended R \<and> results (resume 1 R) = [(0, Null)]"
  by code_simp

text \<open>Reads by size that overlap change the order: the rest of a chunk goes behind later chunks.\<close>

lemma overlapping_read_reorders:
  "results (foldl read_step new_readable
     [Read 0 None, Read 1 (Some 1), Resume 1, Pulled 0 (Inr (Buffer [1, 2])), Resume 0, Resume 1, Resume 0,
      Read 2 None, Resume 2]) = [(1, Chunk [1]), (0, Chunk [2])]"
  by code_simp

section \<open>The sink sees what was accepted, in order\<close>

fun kind :: "job \<Rightarrow> sink_call" where
  "kind (WriteJob i b) = SinkWrite b"
| "kind EndJob = SinkClose"

fun job_bytes :: "job \<Rightarrow> int" where
  "job_bytes (WriteJob i b) = int (length b)"
| "job_bytes EndJob = 0"

definition is_abort :: "sink_call \<Rightarrow> bool" where
  "is_abort c \<longleftrightarrow> (case c of SinkAbort e \<Rightarrow> True | _ \<Rightarrow> False)"

text \<open>What an event puts behind the chain.\<close>

definition accepted :: "writable \<Rightarrow> write_event \<Rightarrow> sink_call list" where
  "accepted W e = (case e of
     Write i c \<Rightarrow>
       (if wclosed W \<or> werror W \<noteq> None then []
        else case to_array_buffer c of Inr (Some b) \<Rightarrow> [SinkWrite b] | _ \<Rightarrow> [])
   | End \<Rightarrow> if wclosed W then [] else [SinkClose]
   | _ \<Rightarrow> [])"

definition tracked_write :: "sink_call list \<times> writable \<Rightarrow> write_event \<Rightarrow> sink_call list \<times> writable" where
  "tracked_write T e = (fst T @ accepted (snd T) e, write_step (snd T) e)"

definition in_order :: "sink_call list \<times> writable \<Rightarrow> bool" where
  "in_order T \<longleftrightarrow> fst T = filter (\<lambda>c. \<not> is_abort c) (sink (snd T)) @ map kind (tail (snd T)) \<and>
     wpending (snd T) = (\<Sum>j\<leftarrow>tail (snd T). job_bytes j) +
       (case running (snd T) of None \<Rightarrow> 0 | Some (i, b) \<Rightarrow> int (length b))"

lemma in_order_step: "in_order T \<Longrightarrow> in_order (tracked_write T e)"
proof (cases T; cases e)
  fix as W i c assume "in_order T" "T = (as, W)" "e = Write i c"
  then show ?thesis
    by (auto simp: in_order_def tracked_write_def accepted_def write_call_def split: sum.splits option.splits)
next
  fix as W assume "in_order T" "T = (as, W)" "e = NextJob"
  then show ?thesis
    by (auto simp: in_order_def tracked_write_def accepted_def next_job_def is_abort_def split: list.splits option.splits job.splits)
next
  fix as W r assume "in_order T" "T = (as, W)" "e = Settle r"
  then show ?thesis
    by (auto simp: in_order_def tracked_write_def accepted_def settle_write_def Let_def split: option.splits)
qed (auto simp: in_order_def tracked_write_def accepted_def end_call_def abort_call_def mark_def is_abort_def split: sum.split)

interpretation writing: component tracked_write in_order
  by unfold_locales (rule in_order_step)

text \<open>C24. A writable is a queue in front of its sink: for every sequence of writes, ends, aborts and answers of the
  sink, the sink is called for exactly the accepted writes and ends, in the order they were made, one
  write at a time, the rest still queued; and \<open>_pending\<close>, on which \<open>needDrain\<close> rests, is the number of
  bytes accepted and not yet taken.\<close>

theorem writable_in_order:
  assumes "foldl tracked_write ([], new_writable) es = (as, W)"
  shows "as = filter (\<lambda>c. \<not> is_abort c) (sink W) @ map kind (tail W) \<and>
    wpending W = (\<Sum>j\<leftarrow>tail W. job_bytes j) + (case running W of None \<Rightarrow> 0 | Some (i, b) \<Rightarrow> int (length b)) \<and> 0 \<le> wpending W"
proof -
  have "in_order ([], new_writable)" by (simp add: in_order_def new_writable_def)
  from writing.run_inv [OF this, of es] have o: "in_order (as, W)" by (simp add: assms)
  have "0 \<le> (\<Sum>j\<leftarrow>ks. job_bytes j)" for ks by (induction ks rule: list.induct) (simp, case_tac x1, auto)
  then have "0 \<le> (\<Sum>j\<leftarrow>tail W. job_bytes j)" .
  then show ?thesis using o by (auto simp: in_order_def split: option.splits)
qed

lemma writable_in_order_witness:
  "\<exists>W. foldl tracked_write ([], new_writable) [Write 0 (Str (js ''a'')), NextJob, End, Write 1 (Buffer [7, 8]), Settle None, NextJob] =
      ([SinkWrite [97], SinkClose, SinkWrite [7, 8]], W) \<and> wpending W = 2 \<and> tail W = [WriteJob 1 [7, 8]]"
proof -
  let ?es = "[Write 0 (Str (js ''a'')), NextJob, End, Write 1 (Buffer [7, 8]), Settle None, NextJob]"
  obtain as W where r: "foldl tracked_write ([], new_writable) ?es = (as, W)" by fastforce
  have e: "to_array_buffer (Str (js ''a'')) = Inr (Some [97])"
    by (simp add: to_array_buffer_def js_def encode_cp_def to_byte_def)
  have "as = [SinkWrite [97], SinkClose, SinkWrite [7, 8]] \<and> tail W = [WriteJob 1 [7, 8]] \<and> running W = None"
    using r by (auto simp: tracked_write_def accepted_def new_writable_def write_call_def end_call_def next_job_def
        settle_write_def Let_def e to_array_buffer_def [of "Buffer b" for b])
  then show ?thesis using writable_in_order [OF r] r by auto
qed

text \<open>What is accepted need not be wanted: a write made after \<open>end\<close> while an earlier write is in progress
  reaches the sink after its close; two calls of \<open>end\<close> close it twice; queued writes go on after an abort.\<close>

lemma write_after_close:
  "sink (foldl write_step new_writable
     [Write 0 (Buffer [1]), NextJob, End, Write 1 (Buffer [2]), Settle None, NextJob, NextJob]) =
   [SinkWrite [1], SinkClose, SinkWrite [2]]"
  by code_simp

lemma closed_twice: "sink (foldl write_step new_writable [End, End, NextJob, NextJob]) = [SinkClose, SinkClose]"
  by code_simp

lemma write_after_abort:
  "sink (foldl write_step new_writable
     [Write 0 (Buffer [1]), Write 1 (Buffer [2]), NextJob, Abort (UserValue UndefinedValue), Settle None, NextJob]) =
   [SinkWrite [1], SinkAbort (AbortError UndefinedValue), SinkWrite [2]]"
  by code_simp


text \<open>
  A source that fails with \<open>null\<close> is not noticed, and the read waits for ever; nor is a sink that does.
\<close>

lemma null_failure_hangs:
  "let R = foldl read_step new_readable [Read 0 None, Pulled 0 (Inl (UserValue NullValue)), Resume 0]
   in results R = [] \<and> reads R 0 = Some (Waiting None) \<and> rerror R = None \<and> \<not> ended R"
  by code_simp

lemma null_failure_forgotten:
  "written (foldl write_step new_writable
     [Write 0 (Buffer [1]), NextJob, Settle (Some (UserValue NullValue)), Write 1 (Buffer [2]), NextJob, Settle None]) =
   [(0, Rejected (UserValue NullValue)), (1, Accepted)]"
  by code_simp

section \<open>What pipe does\<close>

text \<open>
  The reference: every chunk goes to the sink; the end of the source closes it; the first failure of the
  signal, the source or the sink aborts it with an abort error: that failure itself, if it is an error, named
  \<open>AbortError\<close> unless it has a code. What \<open>cancel\<close> or \<open>abort\<close> throws takes the place of the failure. The last
  component are the errors that were renamed.
\<close>

definition marks :: "stream_error \<Rightarrow> stream_error list" where
  "marks e = (if renames e then [e] else [])"

definition spec_fail :: "stream_error option \<Rightarrow> stream_error option \<Rightarrow> stream_error \<Rightarrow> sink_call list \<Rightarrow>
    pipe_result \<times> sink_call list \<times> stream_error list" where
  "spec_fail cf af e cs = (case cf of
     Some f \<Rightarrow> (Failed f, cs, [])
   | None \<Rightarrow> (case aborted_error e of
        Inl x \<Rightarrow> (Failed x, cs, [])
      | Inr a \<Rightarrow> (Failed (case af of Some g \<Rightarrow> g | None \<Rightarrow> e), cs @ [SinkAbort a], marks a)))"

definition spec_abort :: "stream_error option \<Rightarrow> stream_error option \<Rightarrow> stream_error \<Rightarrow>
    pipe_result \<times> sink_call list \<times> stream_error list" where
  "spec_abort cf af reason = (case aborted_error reason of
     Inl x \<Rightarrow> spec_fail cf af x []
   | Inr e \<Rightarrow> (case spec_fail cf af e [] of (res, cs, ms) \<Rightarrow> (res, cs, marks e)))"

fun pipe_spec :: "bool \<Rightarrow> stream_error option \<Rightarrow> stream_error option \<Rightarrow> turn list \<Rightarrow>
    (pipe_result \<times> sink_call list \<times> stream_error list) option" where
  "pipe_spec end cf af [] = None"
| "pipe_spec end cf af (t # ts) =
     (case aborted t of
        Some reason \<Rightarrow> Some (spec_abort cf af reason)
      | None \<Rightarrow> (case answer t of
          Inl e \<Rightarrow> if e = UserValue NullValue then None else Some (spec_fail cf af e [])
        | Inr c \<Rightarrow> (case to_array_buffer c of
            Inl e \<Rightarrow> Some (spec_fail cf af e [])
          | Inr None \<Rightarrow>
              (if \<not> end then Some (Finished, [], [])
               else case taken t of
                 None \<Rightarrow> Some (Finished, [SinkClose], [])
               | Some e \<Rightarrow> Some (Failed (case cf of Some f \<Rightarrow> f | None \<Rightarrow> e), [SinkClose], []))
          | Inr (Some b) \<Rightarrow> (case taken t of
              Some e \<Rightarrow> Some (spec_fail cf af e [SinkWrite b])
            | None \<Rightarrow> map_option (\<lambda>(r, cs, ms). (r, SinkWrite b # cs, ms)) (pipe_spec end cf af ts)))))"













definition after :: "sink_call list \<Rightarrow> pipe_result \<times> sink_call list \<times> stream_error list \<Rightarrow> pipe_result \<times> sink_call list \<times> stream_error list" where
  "after cs x = (case x of (r, ds, ms) \<Rightarrow> (r, cs @ ds, ms))"

lemma mark_simps [simp]: "wclosed (mark e W) = wclosed W" "sink (mark e W) = sink W"
  "marked W = [] \<Longrightarrow> marked (mark e W) = marks e"
  by (simp_all add: mark_def marks_def)








lemma after_fun: "after cs = (\<lambda>x. (fst x, cs @ fst (snd x), snd (snd x)))"
  by (rule ext) (simp add: after_def case_prod_unfold)

lemma after_nil [simp]: "after [] = id"
  by (rule ext) (simp add: after_fun)



text \<open>An abort hook that throws hides the failure; a hook \<open>cancel\<close> that throws leaves the sink as it is.\<close>

lemma hooks_hide_the_failure:
  "pipe_spec end None (Some g) [\<lparr>aborted = None, answer = Inl (UserError n), taken = None\<rparr>] =
     Some (Failed g, [SinkAbort (UserError n)], [UserError n])"
  "pipe_spec end (Some f) af [\<lparr>aborted = None, answer = Inl (UserError n), taken = None\<rparr>] = Some (Failed f, [], [])"
  by (simp_all add: spec_fail_def marks_def)

end
