(* ===== verification/Gateserver.thy ===== *)
theory Gateserver
  imports Prelude
begin

text \<open>
  The TCP gate, \<open>js/builtins/skyjs/gateserver.js\<close>: it counts the clients it has accepted, keeps the
  connections that are open and hands their messages to the handler of the user. The handler's
  callbacks are programs of calls into the gate. The C layer (sockets and the netpack buffer) is the
  environment: it delivers the events and carries out what the gate asks for, which is logged.
\<close>

section \<open>The state\<close>

text \<open>A handler must have \<open>message\<close> and \<open>connect\<close>; which of the other callbacks it has is recorded.\<close>

record handler =
  hasDisconnect :: bool
  hasError :: bool
  hasWarning :: bool

datatype 'm gate_effect =
    Connect int 'm | Message int 'm | Disconnect int | ErrorCall int | WarningCall int
  | Shutdown int | Nodelay int | ResumeSocket int | CloseSocket int | CloseListener int | Log

record 'm gate =
  listenSocket :: int
  maxclient :: int
  clientNumber :: int
  useNodelay :: bool
  userHandler :: "handler option"
  connection :: "int \<Rightarrow> bool option"
  effects :: "'m gate_effect list"

definition new_gate :: "'m gate" where
  "new_gate = \<lparr>listenSocket = 0, maxclient = 1024, clientNumber = 0, useNodelay = False, userHandler = None,
     connection = (\<lambda>_. None), effects = []\<rparr>"

definition gate_emit :: "'m gate_effect \<Rightarrow> 'm gate \<Rightarrow> 'm gate" where
  "gate_emit e g = g\<lparr>effects := effects g @ [e]\<rparr>"

section \<open>The calls of the user\<close>

definition openclient :: "int \<Rightarrow> 'm gate \<Rightarrow> 'm gate" where
  "openclient i g = (if connection g i = Some True then gate_emit (ResumeSocket i) g else g)"

definition closeclient :: "int \<Rightarrow> 'm gate \<Rightarrow> 'm gate" where
  "closeclient i g =
     (if connection g i \<noteq> None then gate_emit (CloseSocket i) (g\<lparr>connection := (connection g)(i := None)\<rparr>) else g)"

text \<open>\<open>open\<close>: \<open>n\<close> is \<open>maxClient\<close>, with 0 for a missing one; \<open>i\<close> is what \<open>net.listen\<close> returns.\<close>

definition open_gate :: "int \<Rightarrow> bool \<Rightarrow> int \<Rightarrow> 'm gate \<Rightarrow> 'm gate" where
  "open_gate n nodelay i g =
     (let g1 = gate_emit Log (g\<lparr>maxclient := (if n = 0 then 1024 else n), useNodelay := nodelay, listenSocket := i\<rparr>)
      in if i \<ge> 0 then gate_emit (ResumeSocket i) g1 else g1)"

definition close_gate :: "'m gate \<Rightarrow> 'm gate" where
  "close_gate g = (if listenSocket g \<noteq> 0 then gate_emit (CloseListener (listenSocket g)) g else g)"

text \<open>\<open>start\<close>; \<open>None\<close> is a handler without \<open>message\<close> or \<open>connect\<close>, for which it throws.\<close>

definition start :: "handler option \<Rightarrow> 'm gate \<Rightarrow> 'm gate option" where
  "start h g = (case h of None \<Rightarrow> None | Some x \<Rightarrow> Some (g\<lparr>userHandler := Some x\<rparr>))"

datatype gate_call = OpenClient int | CloseClient int | CloseGate

fun run_call :: "gate_call \<Rightarrow> 'm gate \<Rightarrow> 'm gate" where
  "run_call (OpenClient i) g = openclient i g"
| "run_call (CloseClient i) g = closeclient i g"
| "run_call CloseGate g = close_gate g"

definition run_calls :: "gate_call list \<Rightarrow> 'm gate \<Rightarrow> 'm gate" where
  "run_calls cs g = fold run_call cs g"

section \<open>The events of the C layer\<close>

text \<open>Each event comes with what the callback that it leads to does.\<close>

definition dispatch_msg :: "int \<Rightarrow> 'm \<Rightarrow> gate_call list \<Rightarrow> 'm gate \<Rightarrow> 'm gate" where
  "dispatch_msg i msg cs g =
     (if connection g i = Some True then run_calls cs (gate_emit (Message i msg) g) else gate_emit Log g)"

datatype 'm gate_event =
    Data int 'm "gate_call list" | More "(int \<times> 'm \<times> gate_call list) list" | Open int 'm "gate_call list"
  | Closed int "gate_call list" | Failed int "gate_call list" | Warned int "gate_call list" | Init

text \<open>The loop over the packets that \<open>netpack.pop\<close> gives.\<close>

fun dispatch_all :: "(int \<times> 'm \<times> gate_call list) list \<Rightarrow> 'm gate \<Rightarrow> 'm gate" where
  "dispatch_all [] g = g"
| "dispatch_all ((i, msg, cs) # ps) g = dispatch_all ps (dispatch_msg i msg cs g)"

definition on_open :: "int \<Rightarrow> 'm \<Rightarrow> gate_call list \<Rightarrow> 'm gate \<Rightarrow> 'm gate" where
  "on_open i msg cs g =
     (if clientNumber g \<ge> maxclient g then gate_emit (Shutdown i) g
      else (let g1 = g\<lparr>clientNumber := clientNumber g + 1\<rparr>;
                g2 = (if useNodelay g1 then gate_emit (Nodelay i) g1 else g1)
            in run_calls cs (gate_emit (Connect i msg) (g2\<lparr>connection := (connection g2)(i \<mapsto> True)\<rparr>))))"

definition on_closed :: "int \<Rightarrow> gate_call list \<Rightarrow> 'm gate \<Rightarrow> 'm gate" where
  "on_closed i cs g =
     (if i \<noteq> listenSocket g
      then (let g1 = g\<lparr>clientNumber := clientNumber g - 1, connection := (connection g)(i := None)\<rparr>
            in case userHandler g of
                 Some h \<Rightarrow> if hasDisconnect h then run_calls cs (gate_emit (Disconnect i) g1) else g1
               | None \<Rightarrow> g1)
      else g\<lparr>listenSocket := 0\<rparr>)"

definition on_failed :: "int \<Rightarrow> gate_call list \<Rightarrow> 'm gate \<Rightarrow> 'm gate" where
  "on_failed i cs g =
     (if i = listenSocket g then gate_emit Log g
      else (case userHandler g of
              Some h \<Rightarrow> if hasError h then run_calls cs (gate_emit (ErrorCall i) (gate_emit (Shutdown i) g)) else gate_emit (Shutdown i) g
            | None \<Rightarrow> gate_emit (Shutdown i) g))"

definition on_warned :: "int \<Rightarrow> gate_call list \<Rightarrow> 'm gate \<Rightarrow> 'm gate" where
  "on_warned i cs g = (case userHandler g of
     Some h \<Rightarrow> if hasWarning h then run_calls cs (gate_emit (WarningCall i) g) else g
   | None \<Rightarrow> g)"

fun on_socket :: "'m gate \<Rightarrow> 'm gate_event \<Rightarrow> 'm gate" where
  "on_socket g (Data i msg cs) = dispatch_msg i msg cs g"
| "on_socket g (More ps) = dispatch_all ps g"
| "on_socket g (Open i msg cs) = on_open i msg cs g"
| "on_socket g (Closed i cs) = on_closed i cs g"
| "on_socket g (Failed i cs) = on_failed i cs g"
| "on_socket g (Warned i cs) = on_warned i cs g"
| "on_socket g Init = g"

text \<open>The gate's life: events, and calls of the user outside the callbacks.\<close>

datatype 'm gate_op = Event "'m gate_event" | Call gate_call | Listen int bool int

fun gate_step :: "'m gate \<Rightarrow> 'm gate_op \<Rightarrow> 'm gate" where
  "gate_step g (Event e) = on_socket g e"
| "gate_step g (Call c) = run_call c g"
| "gate_step g (Listen n nodelay i) = open_gate n nodelay i g"

section \<open>Messages of open connections only\<close>

text \<open>Which connections the handler has reason to think open, from what it has seen and done.\<close>

fun watch :: "int set option \<Rightarrow> 'm gate_effect \<Rightarrow> int set option" where
  "watch None e = None"
| "watch (Some S) (Connect i m) = Some (insert i S)"
| "watch (Some S) (Message i m) = (if i \<in> S then Some S else None)"
| "watch (Some S) (Disconnect i) = Some (S - {i})"
| "watch (Some S) (CloseSocket i) = Some (S - {i})"
| "watch (Some S) e = Some S"

text \<open>The sockets that a step of the environment closes.\<close>

fun lost :: "'m gate \<Rightarrow> 'm gate_op \<Rightarrow> int set" where
  "lost g (Event (Closed i cs)) = (if i = listenSocket g then {} else {i})"
| "lost g a = {}"

definition watched_step :: "'m gate \<times> int set option \<Rightarrow> 'm gate_op \<Rightarrow> 'm gate \<times> int set option" where
  "watched_step x a = (case x of (g, S) \<Rightarrow>
     let g' = gate_step g a
     in (g', foldl watch (map_option (\<lambda>S. S - lost g a) S) (drop (length (effects g)) (effects g'))))"

text \<open>A piece of the gate's work that the watcher accepts.\<close>

definition accepted :: "int set \<Rightarrow> 'm gate \<Rightarrow> 'm gate \<Rightarrow> bool" where
  "accepted S g g' \<longleftrightarrow> (\<exists>es S'. effects g' = effects g @ es \<and> foldl watch (Some S) es = Some S' \<and> dom (connection g') \<subseteq> S')"

lemma acceptedI:
  "effects g' = effects g @ es \<Longrightarrow> foldl watch (Some S) es = Some S' \<Longrightarrow> dom (connection g') \<subseteq> S' \<Longrightarrow> accepted S g g'"
  unfolding accepted_def by blast

lemma accepted_then:
  assumes "accepted S g g1" "\<And>S1. dom (connection g1) \<subseteq> S1 \<Longrightarrow> accepted S1 g1 g2"
  shows "accepted S g g2"
proof -
  obtain es S1 where 1: "effects g1 = effects g @ es" "foldl watch (Some S) es = Some S1" "dom (connection g1) \<subseteq> S1"
    using assms(1) unfolding accepted_def by blast
  obtain fs S2 where "effects g2 = effects g1 @ fs" "foldl watch (Some S1) fs = Some S2" "dom (connection g2) \<subseteq> S2"
    using assms(2) [OF 1(3)] unfolding accepted_def by blast
  then show ?thesis using 1 by (intro acceptedI [of _ _ "es @ fs"]) auto
qed

lemma accepted_emit:
  assumes "connection g' = connection g" "effects g' = effects g" "dom (connection g) \<subseteq> S"
    "\<exists>S'. watch (Some S) e = Some S' \<and> dom (connection g) \<subseteq> S'"
  shows "accepted S g (gate_emit e g')"
proof -
  obtain S' where "watch (Some S) e = Some S'" "dom (connection g) \<subseteq> S'" using assms(4) by blast
  then show ?thesis using assms(1,2) by (intro acceptedI [of _ _ "[e]" _ S']) (simp_all add: gate_emit_def)
qed

lemma accepted_same:
  "connection g' = connection g \<Longrightarrow> effects g' = effects g \<Longrightarrow> dom (connection g) \<subseteq> S \<Longrightarrow> accepted S g g'"
  by (intro acceptedI [of _ _ "[]"]) simp_all

lemma accepted_emits:
  "connection g' = connection g \<Longrightarrow> effects g' = effects g @ es \<Longrightarrow> foldl watch (Some S) es = Some S' \<Longrightarrow>
   dom (connection g) \<subseteq> S' \<Longrightarrow> accepted S g g'"
  by (intro acceptedI) simp_all

lemma accepted_call: "dom (connection g) \<subseteq> S \<Longrightarrow> accepted S g (run_call c g)"
proof (cases c)
  case (CloseClient i)
  assume S: "dom (connection g) \<subseteq> S"
  show ?thesis
  proof (cases "connection g i = None")
    case False
    then show ?thesis using S unfolding CloseClient
      by (intro acceptedI [of _ _ "[CloseSocket i]" _ "S - {i}"]) (auto simp: closeclient_def gate_emit_def)
  qed (use S CloseClient in \<open>simp add: closeclient_def accepted_same\<close>)
qed (auto simp: openclient_def close_gate_def intro!: accepted_emit [OF refl refl] accepted_same)

lemma accepted_calls: "dom (connection g) \<subseteq> S \<Longrightarrow> accepted S g (run_calls cs g)"
proof (induction cs arbitrary: g S)
  case (Cons c cs)
  have "accepted S g (run_call c g)" by (rule accepted_call [OF Cons.prems])
  then show ?case using Cons.IH [of "run_call c g"] by (simp add: run_calls_def) (rule accepted_then)
qed (simp add: run_calls_def accepted_same)

lemma accepted_dispatch: "dom (connection g) \<subseteq> S \<Longrightarrow> accepted S g (dispatch_msg i msg cs g)"
proof (cases "connection g i = Some True")
  case True
  moreover assume S: "dom (connection g) \<subseteq> S"
  ultimately have "accepted S g (gate_emit (Message i msg) g)" by (intro accepted_emit [OF refl refl]) auto
  then have "accepted S g (run_calls cs (gate_emit (Message i msg) g))"
    by (rule accepted_then) (rule accepted_calls)
  then show ?thesis using True by (simp add: dispatch_msg_def)
qed (auto simp: dispatch_msg_def intro!: accepted_emit)

lemma accepted_dispatch_all: "dom (connection g) \<subseteq> S \<Longrightarrow> accepted S g (dispatch_all ps g)"
proof (induction ps arbitrary: g S)
  case (Cons p ps)
  obtain i msg cs where p: "p = (i, msg, cs)" by (cases p) auto
  have "accepted S g (dispatch_msg i msg cs g)" by (rule accepted_dispatch [OF Cons.prems])
  then show ?case using Cons.IH unfolding p dispatch_all.simps by (rule accepted_then)
qed (simp add: accepted_same)

lemma accepted_open: "dom (connection g) \<subseteq> S \<Longrightarrow> accepted S g (on_open i msg cs g)"
proof (cases "clientNumber g \<ge> maxclient g")
  case False
  assume S: "dom (connection g) \<subseteq> S"
  define g2 where "g2 = (let g1 = g\<lparr>clientNumber := clientNumber g + 1\<rparr>
    in if useNodelay g1 then gate_emit (Nodelay i) g1 else g1)"
  define g3 where "g3 = gate_emit (Connect i msg) (g2\<lparr>connection := (connection g2)(i \<mapsto> True)\<rparr>)"
  have "accepted S g g3" using S
    by (intro acceptedI [of _ _ "(if useNodelay g then [Nodelay i] else []) @ [Connect i msg]" _ "insert i S"])
       (auto simp: g3_def g2_def Let_def gate_emit_def split: if_splits)
  then have "accepted S g (run_calls cs g3)" by (rule accepted_then) (rule accepted_calls)
  then show ?thesis using False by (simp add: on_open_def g3_def g2_def Let_def)
qed (auto simp: on_open_def intro!: accepted_emit)

lemma accepted_closed:
  "dom (connection g) \<subseteq> S \<Longrightarrow> accepted (S - lost g (Event (Closed i cs))) g (on_closed i cs g)"
proof (cases "i = listenSocket g")
  case False
  assume S: "dom (connection g) \<subseteq> S"
  define g1 where "g1 = g\<lparr>clientNumber := clientNumber g - 1, connection := (connection g)(i := None)\<rparr>"
  have 1: "dom (connection g1) \<subseteq> S - {i}" "effects g1 = effects g" using S by (auto simp: g1_def)
  then have "accepted (S - {i}) g (gate_emit (Disconnect i) g1)"
    by (intro acceptedI [of _ _ "[Disconnect i]"]) (auto simp: gate_emit_def)
  then have "accepted (S - {i}) g (run_calls cs (gate_emit (Disconnect i) g1))"
    by (rule accepted_then) (rule accepted_calls)
  moreover have "accepted (S - {i}) g g1" using 1 by (intro acceptedI [of _ _ "[]"]) auto
  ultimately show ?thesis using False by (simp add: on_closed_def g1_def Let_def split: option.split)
qed (auto simp: on_closed_def intro!: accepted_same)

lemma accepted_failed: "dom (connection g) \<subseteq> S \<Longrightarrow> accepted S g (on_failed i cs g)"
proof -
  assume S: "dom (connection g) \<subseteq> S"
  have "accepted S g (gate_emit (ErrorCall i) (gate_emit (Shutdown i) g))"
    using S by (intro accepted_emits [of _ _ "[Shutdown i, ErrorCall i]"]) (simp_all add: gate_emit_def)
  then have "accepted S g (run_calls cs (gate_emit (ErrorCall i) (gate_emit (Shutdown i) g)))"
    by (rule accepted_then) (rule accepted_calls)
  moreover have "accepted S g (gate_emit Log g)" "accepted S g (gate_emit (Shutdown i) g)"
    using S by (auto intro!: accepted_emit)
  ultimately show ?thesis by (simp add: on_failed_def split: option.split)
qed

lemma accepted_warned: "dom (connection g) \<subseteq> S \<Longrightarrow> accepted S g (on_warned i cs g)"
proof -
  assume S: "dom (connection g) \<subseteq> S"
  have "accepted S g (gate_emit (WarningCall i) g)" using S by (auto intro!: accepted_emit)
  then have "accepted S g (run_calls cs (gate_emit (WarningCall i) g))" by (rule accepted_then) (rule accepted_calls)
  then show ?thesis using S by (simp add: on_warned_def accepted_same split: option.split)
qed

lemma accepted_listen: "dom (connection g) \<subseteq> S \<Longrightarrow> accepted S g (open_gate n nodelay i g)"
  by (rule accepted_emits [where es = "if i \<ge> 0 then [Log, ResumeSocket i] else [Log]"])
     (simp_all add: open_gate_def Let_def gate_emit_def)

lemma accepted_step: "dom (connection g) \<subseteq> S \<Longrightarrow> accepted (S - lost g a) g (gate_step g a)"
proof (cases a)
  case (Event e)
  assume S: "dom (connection g) \<subseteq> S"
  then show ?thesis unfolding Event
    by (cases e) (simp_all add: accepted_dispatch accepted_dispatch_all accepted_open accepted_failed accepted_warned
      accepted_same accepted_closed del: lost.simps(1))
qed (simp_all add: accepted_call accepted_listen)

definition gate_inv :: "'m gate \<times> int set option \<Rightarrow> bool" where
  "gate_inv x \<longleftrightarrow> (\<exists>S. snd x = Some S \<and> dom (connection (fst x)) \<subseteq> S)"

interpretation gate: component watched_step gate_inv
proof unfold_locales
  fix x :: "'m gate \<times> int set option" and a
  assume "gate_inv x"
  then obtain g S where x: "x = (g, Some S)" "dom (connection g) \<subseteq> S" by (cases x) (auto simp: gate_inv_def)
  then show "gate_inv (watched_step x a)"
    using accepted_step [OF x(2), of a] by (auto simp: gate_inv_def watched_step_def Let_def accepted_def)
qed

text \<open>C34. The gate hands a message to the handler only while its connection is open: in every run,
  whatever the sockets report and whatever the handler's callbacks do, each call of \<open>message\<close> for a
  connection comes after a call of \<open>connect\<close> for it with no close of it since, neither a close event
  of the socket nor a \<open>closeclient\<close>; also in the middle of a batch of packets.\<close>

theorem messages_of_open_connections:
  "\<exists>S. snd (foldl watched_step (new_gate, Some {}) steps) = Some S \<and>
     dom (connection (fst (foldl watched_step (new_gate, Some {}) steps))) \<subseteq> S"
  using gate.run_inv [of "(new_gate, Some {})" steps] by (simp add: gate_inv_def new_gate_def)

text \<open>
  A client that was refused is counted down when its socket closes although it was never counted up:
  with room for one client, two are let in.
\<close>

lemma refused_client_counted_down:
  "let h = Some \<lparr>hasDisconnect = False, hasError = False, hasWarning = False\<rparr>;
       g0 = open_gate 1 False 9 (the (start h (new_gate :: unit gate)));
       g = foldl on_socket g0 [Open 1 () [], Open 2 () [], Closed 2 [], Open 3 () []]
   in connection g 1 = Some True \<and> connection g 3 = Some True \<and> maxclient g = 1 \<and> clientNumber g = 1"
  by code_simp

end
