(* ===== verification/Errors.thy ===== *)
theory Errors
  imports Json
begin

text \<open>
  \<open>js/internal/errors.js\<close>: the error numbers of the system, the class each belongs to, and the
  normalization of whatever was thrown into an error with a code. An \<open>Error\<close> object is a record of
  the properties the runtime reads; of \<open>detail\<close> the \<open>skyjsCode\<close>; the property \<open>cause\<close>, which
  nothing in the runtime reads, is left out. A thrown value need not be an error.
\<close>

section \<open>Tables\<close>

definition errno_table :: "(string \<times> int) list" where
  "errno_table = [
    (''EPERM'', -1), (''ENOENT'', -2), (''ESRCH'', -3), (''EINTR'', -4), (''EIO'', -5), (''ENXIO'', -6),
    (''E2BIG'', -7), (''ENOEXEC'', -8), (''EBADF'', -9), (''ECHILD'', -10), (''EAGAIN'', -11),
    (''ENOMEM'', -12), (''EACCES'', -13), (''EFAULT'', -14), (''EBUSY'', -16), (''EEXIST'', -17),
    (''EXDEV'', -18), (''ENODEV'', -19), (''ENOTDIR'', -20), (''EISDIR'', -21), (''EINVAL'', -22),
    (''ENFILE'', -23), (''EMFILE'', -24), (''ENOTTY'', -25), (''EFBIG'', -27), (''ENOSPC'', -28),
    (''ESPIPE'', -29), (''EROFS'', -30), (''EMLINK'', -31), (''EPIPE'', -32), (''EDOM'', -33),
    (''ERANGE'', -34), (''EDEADLK'', -35), (''ENAMETOOLONG'', -36), (''ENOLCK'', -37),
    (''ENOSYS'', -38), (''ENOTEMPTY'', -39), (''ELOOP'', -40), (''EWOULDBLOCK'', -11)]"

definition errno_class :: "(string \<times> string) list" where
  "errno_class = [
    (''ENOENT'', ''ERR_NOT_FOUND''), (''EACCES'', ''ERR_PERMISSION''), (''EPERM'', ''ERR_PERMISSION''),
    (''EEXIST'', ''ERR_IO''), (''EISDIR'', ''ERR_IO''), (''ENOTDIR'', ''ERR_IO''), (''ENOTEMPTY'', ''ERR_IO''),
    (''EMFILE'', ''ERR_LIMIT_EXCEEDED''), (''ENFILE'', ''ERR_LIMIT_EXCEEDED''), (''ENOSPC'', ''ERR_LIMIT_EXCEEDED''),
    (''EAGAIN'', ''ERR_BUSY''), (''EBUSY'', ''ERR_BUSY''), (''EWOULDBLOCK'', ''ERR_BUSY''),
    (''EINVAL'', ''ERR_PROTOCOL''), (''ENOSYS'', ''ERR_UNSUPPORTED_PLATFORM''),
    (''ENOTSUP'', ''ERR_UNSUPPORTED_PLATFORM''), (''EOPNOTSUPP'', ''ERR_UNSUPPORTED_PLATFORM''),
    (''EPIPE'', ''ERR_IO''), (''EIO'', ''ERR_IO''), (''EINTR'', ''ERR_CANCELLED''), (''ETIMEDOUT'', ''ERR_TIMEOUT'')]"

text \<open>A row of \<open>MESSAGE_HINTS\<close>: the alternatives of its pattern, the code and the system call.\<close>

definition message_hints :: "(string list \<times> string \<times> string) list" where
  "message_hints = [
    ([''can'' @ CHR 0x27 # ''t open'', ''failed to open'', ''not found'', ''no such file''], ''ENOENT'', ''open''),
    ([''permission denied'', ''access denied''], ''EACCES'', ''open''),
    ([''failed to create'', ''already exists''], ''EEXIST'', ''mkdir''),
    ([''failed to remove'', ''not empty''], ''ENOTEMPTY'', ''rm''),
    ([''failed to rename'', ''invalid cross-device''], ''EXDEV'', ''rename''),
    ([''not supported''], ''ENOSYS'', ''unknown'')]"

definition js_keys :: "(string \<times> 'a) list \<Rightarrow> (jsstr \<times> 'a) list" where
  "js_keys ps = map (\<lambda>p. (js (fst p), snd p)) ps"

definition errno_of :: "jsstr \<Rightarrow> int option" where
  "errno_of code = map_of (js_keys errno_table) code"

definition class_of :: "jsstr \<Rightarrow> jsstr" where
  "class_of code = (case map_of (js_keys errno_class) code of None \<Rightarrow> js ''ERR_IO'' | Some c \<Rightarrow> js c)"

section \<open>Constructors\<close>

record js_error =
  message :: jsstr
  code :: "jsstr option"
  errno :: "int option"
  syscall :: "jsstr option"
  epath :: "jsstr option"
  skyjs_code :: "jsstr option"
  ename :: jsstr  \<comment> \<open>the property \<open>name\<close>, of the class or its own\<close>

definition plain_error :: "jsstr \<Rightarrow> js_error" where
  "plain_error msg = \<lparr>message = msg, code = None, errno = None, syscall = None, epath = None, skyjs_code = None,
     ename = js ''Error''\<rparr>"

definition type_error :: "jsstr \<Rightarrow> js_error" where
  "type_error msg = (plain_error msg)\<lparr>ename := js ''TypeError''\<rparr>"

text \<open>\<open>skyjsError\<close>; the details it is given in the runtime carry no \<open>skyjsCode\<close> of their own.\<close>

definition skyjs_error :: "jsstr \<Rightarrow> jsstr \<Rightarrow> js_error" where
  "skyjs_error c msg = (plain_error msg)\<lparr>code := Some c, skyjs_code := Some c\<rparr>"

text \<open>\<open>systemError\<close>; the message is built when none (or an empty one) is given, with the text
  \<open>undefined\<close> for a missing path.\<close>

definition system_error :: "jsstr \<Rightarrow> jsstr \<Rightarrow> jsstr option \<Rightarrow> jsstr option \<Rightarrow> js_error" where
  "system_error c call p msg =
     \<lparr>message = (case msg of
          Some m \<Rightarrow> if m \<noteq> [] then m
            else c @ js '': '' @ call @ [32, 39] @ (case p of None \<Rightarrow> js ''undefined'' | Some q \<Rightarrow> q) @ [39]
        | None \<Rightarrow> c @ js '': '' @ call @ [32, 39] @ (case p of None \<Rightarrow> js ''undefined'' | Some q \<Rightarrow> q) @ [39]),
      code = Some c,
      errno = (case errno_of c of None \<Rightarrow> Some (-1) | Some n \<Rightarrow> Some n),
      syscall = Some call, epath = p, skyjs_code = Some (class_of c), ename = js ''Error''\<rparr>"

definition aborted_error :: "js_error" where
  "aborted_error = (plain_error (js ''The operation was aborted''))\<lparr>code := Some (js ''ABORT_ERR''),
     skyjs_code := Some (js ''ERR_CANCELLED''), ename := js ''AbortError''\<rparr>"

definition timeout_error :: "nat \<Rightarrow> js_error" where
  "timeout_error ms = (plain_error (js ''The operation timed out after '' @ to_radix 10 ms @ js ''ms''))
     \<lparr>code := Some (js ''ERR_TIMEOUT''), skyjs_code := Some (js ''ERR_TIMEOUT''), ename := js ''TimeoutError''\<rparr>"

section \<open>normalizeError\<close>

text \<open>
  What \<open>throw\<close> can throw. \<open>Thrown\<close> is an \<open>Error\<close> with a string for its message and its name. Any other
  value has what reading its property \<open>message\<close> gives and what \<open>String()\<close> makes of it; both may throw
  (a getter; an object without \<open>toString\<close>, as \<open>Object.create(null)\<close>), which is \<open>MsgThrows\<close> and \<open>None\<close>. An
  \<open>Error\<close> whose message was replaced by something that is no string, or that has a \<open>toString\<close> of its own, is
  such a value too, unless it has a string for its code: then it is \<open>Thrown\<close> and nothing but the code is looked
  at. \<open>undefined\<close> and \<open>null\<close> have no properties.

  The property \<open>message\<close>: falsy and no string (or absent), a string, another value with what \<open>String()\<close> makes
  of it (\<open>None\<close>: it throws, as \<open>new Error\<close> does for a symbol), or reading it throws.
\<close>

datatype message_prop = NoMessage | MsgText jsstr | MsgOther "jsstr option" | MsgThrows

datatype thrown_value = Thrown js_error | Value message_prop "jsstr option" | Nullish

text \<open>The alternatives of a hint, anywhere in the message, in upper or lower case (\<open>/a|b/i\<close>).\<close>

definition fold_case :: "code_unit \<Rightarrow> code_unit" where
  "fold_case c = (if 65 \<le> c \<and> c \<le> 90 then c + 32 else c)"

definition hint_matches :: "string list \<Rightarrow> jsstr \<Rightarrow> bool" where
  "hint_matches alts msg \<longleftrightarrow> list_ex (\<lambda>a. index_of (map fold_case msg) (js a) \<noteq> None) alts"

fun hint_loop :: "(string list \<times> string \<times> string) list \<Rightarrow> jsstr option \<Rightarrow> (jsstr \<times> jsstr) option" where
  "hint_loop [] msg = None"
| "hint_loop ((alts, c, call) # hints) msg =
     (case msg of
        Some m \<Rightarrow> if hint_matches alts m then Some (js c, js call) else hint_loop hints msg
      | None \<Rightarrow> hint_loop hints msg)"

fun thrown_message :: "thrown_value \<Rightarrow> jsstr option" where
  "thrown_message (Thrown e) = Some (message e)"
| "thrown_message (Value (MsgText x) t) = Some x"
| "thrown_message _ = None"

text \<open>
  \<open>value && value.message ? value.message : String(value)\<close>, as the text of a new error; the text of an error
  without a message is its name. \<open>None\<close>: evaluating it throws.
\<close>

fun thrown_text :: "thrown_value \<Rightarrow> jsstr option" where
  "thrown_text (Thrown e) = Some (if message e = [] then ename e else message e)"
| "thrown_text (Value (MsgText x) t) = (if x = [] then t else Some x)"
| "thrown_text (Value (MsgOther x) t) = x"
| "thrown_text (Value NoMessage t) = t"
| "thrown_text (Value MsgThrows t) = None"
| "thrown_text Nullish = None"

text \<open>
  What becomes of a value without a code: the first hint that fits, or an internal error. \<open>None\<close>: the function
  itself throws, because it reads \<open>value.message\<close> of \<open>undefined\<close> or \<open>null\<close> or of a value that does not let
  it, or because there is no text to be had.
\<close>

definition internal_error :: "jsstr \<Rightarrow> js_error" where
  "internal_error msg = (plain_error msg)\<lparr>code := Some (js ''ERR_INTERNAL''), skyjs_code := Some (js ''ERR_INTERNAL'')\<rparr>"

definition classify :: "thrown_value \<Rightarrow> jsstr option \<Rightarrow> js_error option" where
  "classify v context =
     (case hint_loop message_hints (thrown_message v) of
        Some (c, call) \<Rightarrow> Some (system_error c call context (thrown_message v))
      | None \<Rightarrow> map_option internal_error (thrown_text v))"

definition normalize_error :: "thrown_value \<Rightarrow> jsstr option \<Rightarrow> js_error option" where
  "normalize_error v context =
     (case v of
        Thrown e \<Rightarrow> if code e \<noteq> None then Some e else classify v context
      | _ \<Rightarrow> classify v context)"

section \<open>systemErrorName\<close>

fun name_loop :: "(string \<times> int) list \<Rightarrow> int \<Rightarrow> jsstr option" where
  "name_loop [] n = None"
| "name_loop ((name, value) # ps) n = (if value = n then Some (js name) else name_loop ps n)"

definition system_error_name :: "int \<Rightarrow> jsstr" where
  "system_error_name n =
     (case name_loop errno_table n of
        Some name \<Rightarrow> name
      | None \<Rightarrow> js ''Unknown system error '' @ int_str n @ js '' ('' @ to_radix 16 (nat (n mod 4294967296)) @ js '')'')"

definition errno_positive :: "(string \<times> int) list" where
  "errno_positive = map (\<lambda>p. (fst p, \<bar>snd p\<bar>)) errno_table"

section \<open>Every error has a code\<close>

lemma system_error_fields [simp]:
  "code (system_error c call p m) = Some c" "syscall (system_error c call p m) = Some call"
  "epath (system_error c call p m) = p" "skyjs_code (system_error c call p m) = Some (class_of c)"
  "errno (system_error c call p m) = Some (case errno_of c of None \<Rightarrow> -1 | Some n \<Rightarrow> n)"
  by (simp_all add: system_error_def split: option.split)

lemma hint_loop_text: "hint_loop hs m = Some r \<Longrightarrow> \<exists>x. m = Some x \<and> (list_all (\<lambda>h. \<forall>a\<in>set (fst h). a \<noteq> []) hs \<longrightarrow> x \<noteq> [])"
proof (induction hs m rule: hint_loop.induct)
  case (2 alts c call hints msg)
  show ?case
  proof (cases msg)
    case (Some x)
    have "x \<noteq> []" if "hint_matches alts x" "\<forall>a\<in>set alts. a \<noteq> []"
      using that by (auto simp: hint_matches_def list_ex_iff js_def split: if_splits)
    then show ?thesis using 2 Some by (auto split: if_splits)
  qed (use 2 in auto)
qed simp

lemma hints_not_empty: "list_all (\<lambda>h. \<forall>a\<in>set (fst h). a \<noteq> []) message_hints"
  by (simp add: message_hints_def)

lemma hint_loop_codes: "hint_loop hs m = Some (c, call) \<Longrightarrow> c \<in> (\<lambda>h. js (fst (snd h))) ` set hs"
  by (induction hs m rule: hint_loop.induct) (auto split: option.splits if_splits)

text \<open>The six codes of the hints all are numbers of the system.\<close>

lemma hint_errno: "h \<in> set message_hints \<Longrightarrow> errno_of (js (fst (snd h))) \<noteq> None"
proof -
  have "list_all (\<lambda>h. \<not> Option.is_none (errno_of (js (fst (snd h))))) message_hints" by code_simp
  then show "h \<in> set message_hints \<Longrightarrow> errno_of (js (fst (snd h))) \<noteq> None"
    by (auto simp: list_all_iff Option.is_none_def)
qed

text \<open>The message survives, and there is one exactly when the value has a text.\<close>

lemma classify_text: "map_option message (classify v ctx) = thrown_text v"
proof (cases "hint_loop message_hints (thrown_message v)")
  case None
  then show ?thesis by (cases "thrown_text v") (simp_all add: classify_def internal_error_def plain_error_def)
next
  case (Some r)
  then obtain x where x: "thrown_message v = Some x" "x \<noteq> []"
    using hint_loop_text [OF Some] hints_not_empty by auto
  then have "thrown_text v = Some x" by (cases v rule: thrown_message.cases) auto
  then show ?thesis using Some x by (cases r) (simp add: classify_def system_error_def)
qed

text \<open>What an error of the module looks like: one of the hints', or internal.\<close>

definition classified :: "jsstr option \<Rightarrow> js_error \<Rightarrow> bool" where
  "classified ctx e \<longleftrightarrow> code e = Some (js ''ERR_INTERNAL'') \<and> skyjs_code e = Some (js ''ERR_INTERNAL'') \<or>
     (\<exists>h\<in>set message_hints. code e = Some (js (fst (snd h))) \<and> errno e = errno_of (js (fst (snd h))) \<and>
        skyjs_code e = Some (class_of (js (fst (snd h)))) \<and> epath e = ctx)"

lemma classify_classified: "classify v ctx = Some e \<Longrightarrow> classified ctx e"
proof (cases "hint_loop message_hints (thrown_message v)")
  case (Some r)
  assume e: "classify v ctx = Some e"
  obtain c call where r: "r = (c, call)" by (cases r)
  have "c \<in> (\<lambda>h. js (fst (snd h))) ` set message_hints" by (rule hint_loop_codes) (use Some r in simp)
  then obtain h where h: "h \<in> set message_hints" "c = js (fst (snd h))" by (rule imageE) simp
  have e: "e = system_error c call ctx (thrown_message v)" using e by (simp add: classify_def Some r)
  obtain n where "errno_of c = Some n" using hint_errno [OF h(1)] h(2) by auto
  then show ?thesis unfolding classified_def e h(2) [symmetric] using h by (intro disjI2 bexI [of _ h]) simp_all
qed (auto simp: classify_def internal_error_def classified_def)

lemma classified_code: "classified ctx e \<Longrightarrow> code e \<noteq> None"
  by (auto simp: classified_def)

lemma normalize_thrown: "normalize_error (Thrown e) ctx \<noteq> None"
  using classify_text [of "Thrown e" ctx] by (auto simp: normalize_error_def)

lemma normalize_thrown_code: "normalize_error (Thrown e) ctx = Some m \<Longrightarrow> code m \<noteq> None"
  using classified_code [OF classify_classified, of "Thrown e" ctx m] by (auto simp: normalize_error_def split: if_splits)

text \<open>C35. \<open>normalizeError\<close> itself throws exactly on the values whose text cannot be read: \<open>undefined\<close> and
  \<open>null\<close>, a \<open>message\<close> that cannot be read or made a string, and, where there is no message, a value that
  cannot be made a string. On every other value it gives an error that it leaves alone when it meets it
  again. An error with a code is returned as it is. The text of any other is kept (of an error without a
  message, its name); its code is one of the hints', with the error number and the class of the tables and
  the path of the context, or \<open>ERR_INTERNAL\<close>.\<close>

theorem normalize_error_shape:
  "(normalize_error v ctx = None \<longleftrightarrow> v = Nullish \<or> (\<exists>t. v = Value MsgThrows t) \<or> (\<exists>t. v = Value (MsgOther None) t)
      \<or> v = Value NoMessage None \<or> v = Value (MsgText []) None) \<and>
   (case normalize_error v ctx of None \<Rightarrow> True
    | Some e \<Rightarrow> normalize_error (Thrown e) ctx' = Some e \<and> code e \<noteq> None \<and>
        (case v of
           Thrown e' \<Rightarrow> if code e' = None then thrown_text v = Some (message e) \<and> classified ctx e else e = e'
         | _ \<Rightarrow> thrown_text v = Some (message e) \<and> classified ctx e))"
proof -
  have none: "normalize_error v ctx = None \<longleftrightarrow> thrown_text v = None"
    using classify_text [of v ctx] by (cases v) (auto simp: normalize_error_def)
  also have "\<dots> \<longleftrightarrow> v = Nullish \<or> (\<exists>t. v = Value MsgThrows t) \<or> (\<exists>t. v = Value (MsgOther None) t)
      \<or> v = Value NoMessage None \<or> v = Value (MsgText []) None"
    by (cases v rule: thrown_text.cases) auto
  finally have fails: "normalize_error v ctx = None \<longleftrightarrow> \<dots>" .
  have own: "code e \<noteq> None \<and> thrown_text v = Some (message e) \<and> classified ctx e" if "classify v ctx = Some e" for e
    using that classify_text [of v ctx] classify_classified [OF that] classified_code by auto
  have ok: "normalize_error (Thrown e) ctx' = Some e \<and> code e \<noteq> None \<and>
        (case v of
           Thrown e' \<Rightarrow> if code e' = None then thrown_text v = Some (message e) \<and> classified ctx e else e = e'
         | _ \<Rightarrow> thrown_text v = Some (message e) \<and> classified ctx e)" if e: "normalize_error v ctx = Some e" for e
    using e own [of e] by (cases v) (auto simp: normalize_error_def split: if_splits)
  show ?thesis
    by (rule conjI [OF fails], cases "normalize_error v ctx") (simp_all only: option.case, rule ok)
qed

text \<open>An object without \<open>toString\<close> and without a message, and an error that has only a name.\<close>

lemma normalize_unprintable: "normalize_error (Value NoMessage None) ctx = None"
  by (simp add: normalize_error_def classify_def message_hints_def)

lemma normalize_nameless:
  "map_option message (normalize_error (Thrown (type_error [])) None) = Some (js ''TypeError'')"
  by code_simp

text \<open>The names and the numbers are inverse to each other, but for the two names of \<open>-11\<close>.\<close>

lemma system_error_names:
  "list_all (\<lambda>p. system_error_name (snd p) = js (fst p) \<or> fst p = ''EWOULDBLOCK'') errno_table"
  "system_error_name (-11) = js ''EAGAIN''"
  by code_simp+

text \<open>A thrown \<open>undefined\<close> makes \<open>normalizeError\<close> throw, though its last lines expect such a value.\<close>

lemma normalize_undefined: "normalize_error Nullish ctx = None"
  by (simp add: normalize_error_def classify_def message_hints_def)

end
