(* ===== verification/Fs_Core.thy ===== *)
theory Fs_Core
  imports Errors Buffer_Core Path_Posix
begin

text \<open>
  The files: \<open>js/internal/fs-core.js\<close> over the primitives of the C layer, and the Node operations of
  \<open>js/internal/fs-sync.js\<close> and \<open>js/builtins/fs/stats.js\<close> over these. The file system is a state of
  any type that only the primitives read and change; they are the fields of a record. Each operation
  returns the new file system with what it throws or returns.
\<close>

section \<open>The primitives\<close>

record stat_info =
  st_size :: int
  st_mtime :: int
  st_isDir :: bool
  st_isFile :: bool
  st_mode :: int
  st_isSymbolicLink :: bool

record 'w cio =
  c_readFile :: "jsstr \<Rightarrow> 'w \<Rightarrow> js_error + bytes"
  c_writeFile :: "jsstr \<Rightarrow> bytes \<Rightarrow> 'w \<Rightarrow> 'w \<times> (js_error + unit)"
  c_appendFile :: "jsstr \<Rightarrow> bytes \<Rightarrow> 'w \<Rightarrow> 'w \<times> (js_error + unit)"
  c_exists :: "jsstr \<Rightarrow> 'w \<Rightarrow> bool"
  c_stat :: "jsstr \<Rightarrow> 'w \<Rightarrow> stat_info option"
  c_lstat :: "jsstr \<Rightarrow> 'w \<Rightarrow> stat_info option"
  c_readdir :: "jsstr \<Rightarrow> 'w \<Rightarrow> js_error + jsstr list"
  c_mkdir :: "jsstr \<Rightarrow> 'w \<Rightarrow> 'w \<times> (js_error + unit)"
  c_remove :: "jsstr \<Rightarrow> 'w \<Rightarrow> 'w \<times> (js_error + unit)"
  c_rename :: "jsstr \<Rightarrow> jsstr \<Rightarrow> 'w \<Rightarrow> 'w \<times> (js_error + unit)"
  c_open :: "jsstr \<Rightarrow> jsstr \<Rightarrow> 'w \<Rightarrow> 'w \<times> (js_error + nat)"
  c_str2ab :: "jsstr \<Rightarrow> bytes"
  c_str :: "bytes \<Rightarrow> jsstr"

section \<open>fs-core.js\<close>

text \<open>What \<open>data\<close> can be: a buffer, a view of one, a string, or anything else.\<close>

datatype fdata = DBuffer bytes | DView bytes nat nat | DString jsstr | DOther jsstr

definition to_ab :: "'w cio \<Rightarrow> fdata \<Rightarrow> js_error + bytes" where
  "to_ab C d = (case d of
     DBuffer b \<Rightarrow> Inr b
   | DView b off len \<Rightarrow> Inr (jslice b off (off + len))
   | DString s \<Rightarrow> Inr (c_str2ab C s)
   | DOther t \<Rightarrow> Inl (type_error (js ''io: data must be string, ArrayBuffer, or TypedArray'')))"

definition read_file :: "'w cio \<Rightarrow> jsstr \<Rightarrow> 'w \<Rightarrow> js_error + bytes" where
  "read_file C path w = c_readFile C path w"

definition read_text_file :: "'w cio \<Rightarrow> jsstr \<Rightarrow> 'w \<Rightarrow> js_error + jsstr" where
  "read_text_file C path w = map_sum id (c_str C) (c_readFile C path w)"

definition write_file :: "'w cio \<Rightarrow> jsstr \<Rightarrow> fdata \<Rightarrow> 'w \<Rightarrow> 'w \<times> (js_error + unit)" where
  "write_file C path d w = (case to_ab C d of Inl e \<Rightarrow> (w, Inl e) | Inr b \<Rightarrow> c_writeFile C path b w)"

definition append_file :: "'w cio \<Rightarrow> jsstr \<Rightarrow> fdata \<Rightarrow> 'w \<Rightarrow> 'w \<times> (js_error + unit)" where
  "append_file C path d w = (case to_ab C d of Inl e \<Rightarrow> (w, Inl e) | Inr b \<Rightarrow> c_appendFile C path b w)"

definition normalize_stat :: "stat_info option \<Rightarrow> js_error + stat_info" where
  "normalize_stat raw = (case raw of
     None \<Rightarrow> Inl \<lparr>message = js ''ENOENT: no such file or directory'', code = Some (js ''ENOENT''), errno = Some (-2),
       syscall = Some (js ''stat''), epath = None, skyjs_code = Some (js ''ERR_NOT_FOUND''), ename = js ''Error''\<rparr>
   | Some st \<Rightarrow> Inr st)"

definition fs_stat :: "'w cio \<Rightarrow> jsstr \<Rightarrow> 'w \<Rightarrow> js_error + stat_info" where
  "fs_stat C path w = normalize_stat (c_stat C path w)"

definition fs_lstat :: "'w cio \<Rightarrow> jsstr \<Rightarrow> 'w \<Rightarrow> js_error + stat_info" where
  "fs_lstat C path w = normalize_stat (c_lstat C path w)"

text \<open>\<open>mkdir(path, true)\<close>: the loop over the parts, with \<open>cur\<close>; \<open>first\<close> is \<open>i === 0\<close>.\<close>

fun mkdir_loop :: "'w cio \<Rightarrow> bool \<Rightarrow> jsstr \<Rightarrow> jsstr list \<Rightarrow> 'w \<Rightarrow> 'w \<times> (js_error + unit)" where
  "mkdir_loop C first cur [] w = (w, Inr ())"
| "mkdir_loop C first cur (part # parts) w =
     (if first \<and> part = [] then mkdir_loop C False [slash] parts w
      else if part = [] then mkdir_loop C False cur parts w
      else let cur' = (if cur \<noteq> [] then cur @ slash # part else part)
           in case c_mkdir C cur' w of
                (w', Inl e) \<Rightarrow> (w', Inl e)
              | (w', Inr _) \<Rightarrow> mkdir_loop C False cur' parts w')"

definition fs_mkdir :: "'w cio \<Rightarrow> jsstr \<Rightarrow> bool \<Rightarrow> 'w \<Rightarrow> 'w \<times> (js_error + unit)" where
  "fs_mkdir C path recursive w =
     (if recursive then mkdir_loop C True [] (split_on slash path) w else c_mkdir C path w)"

section \<open>fs-sync.js\<close>

record stats =
  s_mode :: int
  s_size :: int
  s_blocks :: int
  s_mtimeMs :: int
  s_raw :: stat_info

text \<open>The fields of \<open>Stats\<close> that are not constants; the four times all are the one of the file system.\<close>

definition new_stats :: "stat_info \<Rightarrow> stats" where
  "new_stats raw = \<lparr>s_mode = st_mode raw, s_size = st_size raw, s_blocks = - (- st_size raw div 512),
     s_mtimeMs = st_mtime raw * 1000, s_raw = raw\<rparr>"

definition is_file :: "stats \<Rightarrow> bool" where "is_file s = st_isFile (s_raw s)"
definition is_directory :: "stats \<Rightarrow> bool" where "is_directory s = st_isDir (s_raw s)"
definition is_symbolic_link :: "stats \<Rightarrow> bool" where "is_symbolic_link s = st_isSymbolicLink (s_raw s)"

text \<open>The entries of a directory: names, or objects made from a name and an empty \<open>raw\<close>.\<close>

datatype dir_entry = Name jsstr | Dirent jsstr "bool option" "bool option"

fun dirent_is_file :: "dir_entry \<Rightarrow> bool" where
  "dirent_is_file (Dirent name f d) = (f = Some True)" | "dirent_is_file (Name n) = False"

fun buffer_js_error :: "buffer_error \<Rightarrow> js_error" where
  "buffer_js_error InvalidHex = type_error (js ''Invalid hex string'')"
| "buffer_js_error InvalidBase64 = type_error (js ''Invalid base64 string'')"
| "buffer_js_error (UnknownEncoding n) = type_error (js ''Unknown encoding: '' @ n)"
| "buffer_js_error OffsetOutOfRange = (plain_error (js ''offset is out of bounds''))\<lparr>ename := js ''RangeError''\<rparr>"

text \<open>The encoding of \<open>options\<close>; none and an empty one ask for a buffer.\<close>

definition read_file_sync :: "'w cio \<Rightarrow> jsstr \<Rightarrow> jsstr option \<Rightarrow> 'w \<Rightarrow> js_error + (bytes + jsstr)" where
  "read_file_sync C path enc w =
     (case read_file C path w of
        Inl e \<Rightarrow> Inl e
      | Inr raw \<Rightarrow> (case enc of
            None \<Rightarrow> Inr (Inl raw)
          | Some name \<Rightarrow> if name = [] then Inr (Inl raw)
              else map_sum buffer_js_error Inr (decode_string raw name)))"

definition to_bytes_sync :: "fdata \<Rightarrow> jsstr option \<Rightarrow> js_error + bytes" where
  "to_bytes_sync d enc = (case d of
     DBuffer b \<Rightarrow> Inr b
   | DView b off len \<Rightarrow> Inr (jslice b off (off + len))
   | DString s \<Rightarrow> map_sum buffer_js_error id (encode_string s (case enc of None \<Rightarrow> js ''utf8'' | Some n \<Rightarrow> if n = [] then js ''utf8'' else n))
   | DOther t \<Rightarrow> map_sum buffer_js_error id (encode_string t (case enc of None \<Rightarrow> js ''utf8'' | Some n \<Rightarrow> if n = [] then js ''utf8'' else n)))"

definition write_file_sync :: "'w cio \<Rightarrow> jsstr \<Rightarrow> fdata \<Rightarrow> jsstr option \<Rightarrow> 'w \<Rightarrow> 'w \<times> (js_error + unit)" where
  "write_file_sync C path d enc w =
     (case to_bytes_sync d enc of Inl e \<Rightarrow> (w, Inl e) | Inr b \<Rightarrow> write_file C path (DBuffer b) w)"

definition append_file_sync :: "'w cio \<Rightarrow> jsstr \<Rightarrow> fdata \<Rightarrow> jsstr option \<Rightarrow> 'w \<Rightarrow> 'w \<times> (js_error + unit)" where
  "append_file_sync C path d enc w =
     (case to_bytes_sync d enc of Inl e \<Rightarrow> (w, Inl e) | Inr b \<Rightarrow> append_file C path (DBuffer b) w)"

definition stat_sync :: "'w cio \<Rightarrow> jsstr \<Rightarrow> 'w \<Rightarrow> js_error + stats" where
  "stat_sync C path w = map_sum id new_stats (fs_stat C path w)"

definition lstat_sync :: "'w cio \<Rightarrow> jsstr \<Rightarrow> 'w \<Rightarrow> js_error + stats" where
  "lstat_sync C path w = map_sum id new_stats (fs_lstat C path w)"

definition readdir_sync :: "'w cio \<Rightarrow> jsstr \<Rightarrow> bool \<Rightarrow> 'w \<Rightarrow> js_error + dir_entry list" where
  "readdir_sync C path withFileTypes w =
     map_sum id (map (if withFileTypes then (\<lambda>n. Dirent n None None) else Name)) (c_readdir C path w)"

definition access_sync :: "'w cio \<Rightarrow> jsstr \<Rightarrow> 'w \<Rightarrow> js_error + unit" where
  "access_sync C path w =
     (if \<not> c_exists C path w then Inl (system_error (js ''ENOENT'') (js ''access'') (Some path) None) else Inr ())"

text \<open>\<open>normalize\<close>; what the primitives throw are errors.\<close>

definition normalize_sync :: "js_error \<Rightarrow> jsstr \<Rightarrow> js_error" where
  "normalize_sync e path =
     (case code e of
        Some c \<Rightarrow> if starts_with c (js ''E'') then e else (case normalize_error (Thrown e) (Some path) of Some e' \<Rightarrow> e' | None \<Rightarrow> e)
      | None \<Rightarrow> (case normalize_error (Thrown e) (Some path) of Some e' \<Rightarrow> e' | None \<Rightarrow> e))"

definition mkdir_sync :: "'w cio \<Rightarrow> jsstr \<Rightarrow> bool \<Rightarrow> 'w \<Rightarrow> 'w \<times> (js_error + unit)" where
  "mkdir_sync C path recursive w =
     (case fs_mkdir C path recursive w of
        (w', Inl e) \<Rightarrow> if recursive \<and> code e = Some (js ''EEXIST'') then (w', Inr ())
                      else (w', Inl (normalize_sync e path))
      | (w', Inr _) \<Rightarrow> (w', Inr ()))"

definition rmdir_sync :: "'w cio \<Rightarrow> jsstr \<Rightarrow> bool \<Rightarrow> 'w \<Rightarrow> 'w \<times> (js_error + unit)" where
  "rmdir_sync C path recursive w =
     (case c_remove C path w of
        (w', Inl e) \<Rightarrow> if recursive then (w', Inr ()) else (w', Inl (normalize_sync e path))
      | (w', Inr _) \<Rightarrow> (w', Inr ()))"

definition rm_sync :: "'w cio \<Rightarrow> jsstr \<Rightarrow> bool option \<Rightarrow> 'w \<Rightarrow> 'w \<times> (js_error + unit)" where
  "rm_sync C path force w =
     (if force \<noteq> Some False \<and> \<not> c_exists C path w then (w, Inr ())
      else case c_remove C path w of
        (w', Inl e) \<Rightarrow> if force = Some True then (w', Inr ()) else (w', Inl (normalize_sync e path))
      | (w', Inr _) \<Rightarrow> (w', Inr ()))"

definition unlink_sync :: "'w cio \<Rightarrow> jsstr \<Rightarrow> 'w \<Rightarrow> 'w \<times> (js_error + unit)" where
  "unlink_sync C path w =
     (case c_remove C path w of (w', Inl e) \<Rightarrow> (w', Inl (normalize_sync e path)) | (w', Inr _) \<Rightarrow> (w', Inr ()))"

definition rename_sync :: "'w cio \<Rightarrow> jsstr \<Rightarrow> jsstr \<Rightarrow> 'w \<Rightarrow> 'w \<times> (js_error + unit)" where
  "rename_sync C old new w =
     (case c_rename C old new w of (w', Inl e) \<Rightarrow> (w', Inl (normalize_sync e old)) | (w', Inr _) \<Rightarrow> (w', Inr ()))"

definition copy_file_sync :: "'w cio \<Rightarrow> jsstr \<Rightarrow> jsstr \<Rightarrow> 'w \<Rightarrow> 'w \<times> (js_error + unit)" where
  "copy_file_sync C src dest w =
     (case read_file C src w of Inl e \<Rightarrow> (w, Inl e) | Inr data \<Rightarrow> write_file C dest (DBuffer data) w)"

text \<open>
  \<open>truncateSync\<close> calls \<open>core.ftruncate\<close> and then \<open>core.fclose\<close>; \<open>fs-core.js\<close> exports neither, so
  the second call of \<open>undefined\<close> is what is thrown.
\<close>

definition truncate_sync :: "'w cio \<Rightarrow> jsstr \<Rightarrow> int \<Rightarrow> 'w \<Rightarrow> 'w \<times> (js_error + unit)" where
  "truncate_sync C path len w =
     (case c_open C path (js ''r+'') w of
        (w', Inl e) \<Rightarrow> (w', Inl e)
      | (w', Inr h) \<Rightarrow> (w', Inl (type_error (js ''not a function''))))"

section \<open>Recursive mkdir\<close>

fun mkdir_all :: "'w cio \<Rightarrow> jsstr list \<Rightarrow> 'w \<Rightarrow> 'w \<times> (js_error + unit)" where
  "mkdir_all C [] w = (w, Inr ())"
| "mkdir_all C (p # ps) w = (case c_mkdir C p w of (w', Inl e) \<Rightarrow> (w', Inl e) | (w', Inr _) \<Rightarrow> mkdir_all C ps w')"

text \<open>The components of a path, and the directories above and including it, from the top.\<close>

definition path_parts :: "jsstr \<Rightarrow> jsstr list" where
  "path_parts path = filter (\<lambda>p. p \<noteq> []) (split_on slash path)"

definition ancestors :: "jsstr \<Rightarrow> jsstr list \<Rightarrow> jsstr list" where
  "ancestors pre ps = map (\<lambda>k. pre @ join_with [slash] (take (Suc k) ps)) [0..<length ps]"

lemma ancestors_Cons: "ancestors pre (p # ps) = (pre @ p) # ancestors (pre @ p @ [slash]) ps"
proof -
  have "join_with [slash] (p # take (Suc k) ps) = p @ slash # join_with [slash] (take (Suc k) ps)" if "k < length ps" for k
    using that by (cases ps) (auto simp: join_with_Cons)
  then show ?thesis by (simp add: ancestors_def map_upt_Suc del: upt_Suc)
qed

lemma mkdir_loop_rest:
  "cur \<noteq> [] \<Longrightarrow> mkdir_loop C False cur parts w = mkdir_all C (ancestors (cur @ [slash]) (filter (\<lambda>p. p \<noteq> []) parts)) w"
proof (induction parts arbitrary: cur w)
  case (Cons p parts)
  then show ?case
    by (simp add: ancestors_Cons Let_def split: prod.split sum.split)
qed (simp add: ancestors_def)

text \<open>A recursive \<open>mkdir\<close> makes the directories on the way to the path, one after the other from
  the top: the k-th call of the primitive is for the first k components, joined by slashes, after two
  slashes when the path is absolute; empty components are skipped, and the first failure ends it.\<close>

theorem mkdir_recursive:
  "fs_mkdir C path True w =
     mkdir_all C (ancestors (if path = [] \<or> starts_with path [slash] then [slash, slash] else []) (path_parts path)) w"
proof -
  obtain p ps where s: "split_on slash path = p # ps" by (cases "split_on slash path") auto
  have p: "p = [] \<longleftrightarrow> path = [] \<or> starts_with path [slash]"
    using s by (cases path) (auto simp: starts_with_def split: list.splits if_splits)
  show ?thesis
  proof (cases "p = []")
    case True
    then show ?thesis using p mkdir_loop_rest [of "[slash]" C ps w] by (simp add: fs_mkdir_def path_parts_def s)
  next
    case False
    then show ?thesis using p mkdir_loop_rest [of p C ps]
      by (simp add: fs_mkdir_def path_parts_def s ancestors_Cons Let_def split: prod.split sum.split)
  qed
qed

section \<open>Errors\<close>

text \<open>What \<open>normalize\<close> throws has a code.\<close>

lemma normalize_sync_code: "code (normalize_sync e path) \<noteq> None"
  using normalize_thrown [of e "Some path"] normalize_thrown_code [of e "Some path"]
  by (auto simp: normalize_sync_def split: option.split)

text \<open>Every failure of the Node operations that change directories is an error with a code, whatever
  the primitives throw, and they succeed otherwise; \<open>access\<close> reports the path and the system call.\<close>

theorem fs_sync_error_codes:
  "\<forall>r\<in>{snd (mkdir_sync C path b w), snd (rmdir_sync C path b w), snd (rm_sync C path f w), snd (unlink_sync C path w),
       snd (rename_sync C path new w), access_sync C path w}.
     r = Inr () \<or> (\<exists>e. r = Inl e \<and> code e \<noteq> None)"
  using normalize_sync_code [of _ path]
  by (simp add: mkdir_sync_def rmdir_sync_def rm_sync_def unlink_sync_def rename_sync_def access_sync_def
      split: prod.split sum.split)

text \<open>\<open>truncateSync\<close> always throws, after it has opened the file for writing.\<close>

lemma truncate_throws: "\<exists>e. snd (truncate_sync C path len w) = Inl e"
  by (simp add: truncate_sync_def split: prod.split sum.split)

text \<open>With \<open>recursive\<close>, \<open>rmdir\<close> reports success also when nothing was removed.\<close>

lemma rmdir_recursive_hides: "c_remove C path w = (w, Inl e) \<Longrightarrow> rmdir_sync C path True w = (w, Inr ())"
  by (simp add: rmdir_sync_def)

text \<open>Without options, \<open>rm\<close> of a path that does not exist succeeds.\<close>

lemma rm_missing_succeeds: "\<not> c_exists C path w \<Longrightarrow> rm_sync C path None w = (w, Inr ())"
  by (simp add: rm_sync_def)

text \<open>The entries made for \<open>withFileTypes\<close> never say that they are files.\<close>

lemma dirents_are_no_files:
  "readdir_sync C path True w = Inr es \<Longrightarrow> e \<in> set es \<Longrightarrow> \<not> dirent_is_file e"
  by (cases "c_readdir C path w") (auto simp: readdir_sync_def)

end
