(* ===== verification/Frame_Rpc.thy ===== *)
theory Frame_Rpc
  imports Errors Permission Binary_Frame
begin

text \<open>
  What the owner services \<open>service/fs-service.js\<close> and \<open>service/subprocess-service.js\<close> and their clients
  share: how they read JSON values, the headers they build as object literals, the errors of the parts
  as \<open>Error\<close> objects, and the frames of such headers, which the other side reads back.
\<close>

section \<open>JSON values as the service reads them\<close>

text \<open>A property of a parsed header; \<open>undefined\<close> where it has none. \<open>null\<close> has no properties.\<close>

fun field :: "json \<Rightarrow> string \<Rightarrow> json option" where
  "field (JObj ps) k = map_of ps (js k)"
| "field _ k = None"

text \<open>Which values \<open>||\<close> passes over.\<close>

fun falsy :: "json \<Rightarrow> bool" where
  "falsy JNull = True"
| "falsy (JBool b) = (\<not> b)"
| "falsy (JNum n) = (n = 0)"
| "falsy (JDec t) = list_all (\<lambda>c. \<not> (49 \<le> c \<and> c \<le> 57)) (takeWhile (\<lambda>c. c \<noteq> 101 \<and> c \<noteq> 69) t)"
| "falsy (JStr s) = (s = [])"
| "falsy _ = False"

text \<open>\<open>String(value)\<close>, as in the concatenation with an operator name.\<close>

fun json_text :: "json \<Rightarrow> jsstr" where
  "json_text JNull = js ''null''"
| "json_text (JBool b) = (if b then js ''true'' else js ''false'')"
| "json_text (JNum n) = int_str n"
| "json_text (JDec t) = t"
| "json_text (JStr s) = s"
| "json_text (JArr vs) = join_with [44] (map (\<lambda>v. if v = JNull then [] else json_text v) vs)"
| "json_text (JObj ps) = js ''[object Object]''"

definition value_text :: "json option \<Rightarrow> jsstr" where
  "value_text v = (case v of None \<Rightarrow> js ''undefined'' | Some j \<Rightarrow> json_text j)"

text \<open>An object literal: the properties whose value is \<open>undefined\<close> are not printed.\<close>

fun literal :: "(string \<times> json option) list \<Rightarrow> (jsstr \<times> json) list" where
  "literal [] = []"
| "literal ((k, v) # ps) = (case v of None \<Rightarrow> literal ps | Some j \<Rightarrow> (js k, j) # literal ps)"

section \<open>The errors of the parts\<close>

fun perm_js_error :: "perm_error \<Rightarrow> js_error" where
  "perm_js_error (PathEscapes target absolute rs) = skyjs_error (js ''ERR_PERMISSION'') (js ''path escapes permitted root: '' @ target)"
| "perm_js_error (InvalidByteCount op) = skyjs_error (js ''ERR_PROTOCOL'') (js ''invalid byte count for '' @ op)"
| "perm_js_error (ExceedsQuota op n limit) = skyjs_error (js ''ERR_LIMIT_EXCEEDED'')
     (op @ js '' exceeds quota ('' @ int_str n @ js '' > '' @ int_str limit @ js '')'')"
| "perm_js_error (ReadOnly op target) = skyjs_error (js ''ERR_PERMISSION'') (op @ js '' denied: read-only permission set'')"
| "perm_js_error (CapabilityNotGranted c) = skyjs_error (js ''ERR_PERMISSION'') (js ''capability not granted: '' @ c)"

fun frame_js_error :: "frame_error \<Rightarrow> js_error" where
  "frame_js_error HeaderNotObject = type_error (js ''frameEncode(header, body): header must be an object'')"
| "frame_js_error (LimitExceeded n) = skyjs_error (js ''ERR_LIMIT_EXCEEDED'') (js ''frame header too large: '' @ to_radix 10 n)"
| "frame_js_error (FrameTooShort n) = skyjs_error (js ''ERR_PROTOCOL'') (js ''frame too short: '' @ to_radix 10 n)"
| "frame_js_error BadMagic = skyjs_error (js ''ERR_PROTOCOL'') (js ''bad frame magic'')"
| "frame_js_error (HeaderTooLarge n) = skyjs_error (js ''ERR_PROTOCOL'') (js ''frame header too large: '' @ to_radix 10 n)"
| "frame_js_error LengthMismatch = skyjs_error (js ''ERR_PROTOCOL'') (js ''frame length mismatch'')"
| "frame_js_error BadJson = skyjs_error (js ''ERR_PROTOCOL'') (js ''frame header is not valid JSON'')"

definition encode :: "(string \<times> json option) list \<Rightarrow> bytes option \<Rightarrow> js_error + bytes" where
  "encode header body = map_sum frame_js_error id (frame_encode (JObj (literal header)) body)"

definition ok_reply :: "(string \<times> json option) list \<Rightarrow> bytes option \<Rightarrow> js_error + bytes" where
  "ok_reply header body = encode ((''ok'', Some (JBool True)) # header) body"

text \<open>A computation that may throw, and what follows it.\<close>

fun and_then :: "'e + 'a \<Rightarrow> ('a \<Rightarrow> 'e + 'b) \<Rightarrow> 'e + 'b" where
  "and_then (Inl e) f = Inl e"
| "and_then (Inr x) f = f x"

definition op_is :: "json \<Rightarrow> string \<Rightarrow> bool" where
  "op_is header name \<longleftrightarrow> field header ''op'' = Some (JStr (js name))"

definition echo :: "json \<Rightarrow> (string \<times> json option) list" where
  "echo header = [(''reqId'', field header ''reqId''), (''op'', field header ''op'')]"

lemma and_then_cong: "(\<And>x. r = Inr x \<Longrightarrow> f x = g x) \<Longrightarrow> and_then r f = and_then r g"
  by (cases r) simp_all

lemma and_then_Inr: "and_then r f = Inr y \<longleftrightarrow> (\<exists>x. r = Inr x \<and> f x = Inr y)"
  by (cases r) simp_all

definition string_field :: "json \<Rightarrow> string \<Rightarrow> jsstr option" where
  "string_field h k = (case field h k of Some (JStr s) \<Rightarrow> Some s | _ \<Rightarrow> None)"

definition or_else :: "jsstr option \<Rightarrow> string \<Rightarrow> jsstr" where
  "or_else v d = (case v of None \<Rightarrow> js d | Some s \<Rightarrow> if s = [] then js d else s)"

section \<open>Frames of literal headers\<close>

lemma js_inject [simp]: "js a = js b \<longleftrightarrow> a = b"
proof
  let ?f = "\<lambda>c. of_nat (of_char c) :: code_unit"
  have u: "unat (?f c) = of_char c" for c
  proof -
    have "of_char c < (65536 :: nat)" using nat_of_char_less_256 [of c] by linarith
    then show ?thesis by (simp add: unat_of_nat)
  qed
  have "c = d" if "?f c = ?f d" for c d
  proof -
    have "unat (?f c) = unat (?f d)" by (simp only: that)
    then show ?thesis unfolding u by simp
  qed
  then have "inj ?f" by (rule injI)
  then show "js a = js b \<Longrightarrow> a = b" by (simp add: js_def inj_map_eq_map)
qed simp

lemma map_of_literal:
  "distinct (map fst ps) \<Longrightarrow> map_of (literal ps) (js k) = (case map_of ps k of None \<Rightarrow> None | Some v \<Rightarrow> v)"
proof (induction ps rule: literal.induct)
  case (2 k' v ps)
  then show ?case
  proof (cases "k = k'")
    case True
    then have "map_of ps k = None" using 2 by (simp add: map_of_eq_None_iff)
    then show ?thesis using 2 True by (cases v) auto
  qed (use 2 in \<open>auto split: option.splits\<close>)
qed simp

lemma keys_literal: "k \<in> fst ` set (literal ps) \<Longrightarrow> \<exists>k'\<in>fst ` set ps. k = js k'"
  by (induction ps rule: literal.induct) (auto split: option.splits)

lemma literal_ok:
  "distinct (map fst ps) \<Longrightarrow> list_all (\<lambda>p. index_key (js (fst p)) = None) ps \<Longrightarrow> list_all (\<lambda>p. case snd p of None \<Rightarrow> True | Some v \<Rightarrow> json_ok v) ps \<Longrightarrow>
   json_ok (JObj (literal ps))"
proof -
  assume 1: "distinct (map fst ps)" "list_all (\<lambda>p. index_key (js (fst p)) = None) ps"
    "list_all (\<lambda>p. case snd p of None \<Rightarrow> True | Some v \<Rightarrow> json_ok v) ps"
  have "distinct (map fst (literal ps))" using 1(1)
  proof (induction ps rule: literal.induct)
    case (2 k v ps)
    then show ?case using keys_literal [of "js k" ps] by (auto split: option.splits)
  qed simp
  moreover have "list_all (\<lambda>p. index_key (fst p) = None \<and> json_ok (snd p)) (literal ps)" using 1(2,3)
    by (induction ps rule: literal.induct) (auto split: option.splits)
  ultimately show ?thesis by (rule json_ok_object)
qed

lemma decode_encode:
  assumes "encode ps body = Inr msg" "json_ok (JObj (literal ps))" "case body of None \<Rightarrow> True | Some b \<Rightarrow> length b < 4294967296"
  shows "frame_decode msg = Inr (JObj (literal ps), norm_body body)"
proof -
  have "frame_encode (JObj (literal ps)) body = Inr msg"
    using assms(1) by (cases "frame_encode (JObj (literal ps)) body") (auto simp: encode_def)
  then show ?thesis by (rule frame_decode_encode [OF _ assms(2,3)])
qed

lemma names_plain:
  "list_all (\<lambda>k. index_key (js k) = None) [''ok'', ''reqId'', ''op'', ''path'', ''size'', ''code'', ''errno'', ''syscall'', ''skyjsCode'', ''message'']"
  by code_simp

lemmas name_plain = names_plain [unfolded list.pred_inject]

lemma length_encode_cp: "length (encode_cp cp) \<le> 4" "cp < 0x10000 \<Longrightarrow> length (encode_cp cp) \<le> 3"
  by (auto simp: encode_cp_def)

lemma length_encode_utf8: "length (encode_utf8 s) \<le> 3 * length s"
proof (induction s rule: encode_utf8.induct)
  case (2 c)
  then show ?case using length_encode_cp(2) [of "unat c"] unat_unit [of c] by simp
next
  case (3 c lo cs)
  then show ?case using length_encode_cp(2) [of "unat c"] unat_unit [of c] length_encode_cp(1) [of "pair_cp c lo"]
    by auto
qed simp

lemma length_int_str: "length (int_str (int n)) \<le> Suc n"
proof -
  have "n < 10 ^ Suc n" by (induction n) auto
  then show ?thesis using length_to_radix [of 10 n n] by (simp add: int_str_def)
qed

lemma length_int_str_bound: "n < 10 ^ Suc k \<Longrightarrow> length (int_str (int n)) \<le> Suc k"
  using length_to_radix [of 10 n k] by (simp add: int_str_def)

lemma length_quote: "length (quote s) \<le> 6 * length s + 2"
proof -
  have h: "length (hex4 (unat c)) \<le> 4" for c :: code_unit
  proof -
    have "length (to_radix 16 (unat c)) \<le> 4" using length_to_radix [of 16 "unat c" 3] unat_unit [of c] by simp
    then show ?thesis by (simp add: hex4_def pad_start_def)
  qed
  have u: "length (quote_unit c) \<le> 6" for c using h [of c] by (auto simp: quote_unit_def)
  have "length (quote_body s) \<le> 6 * length s"
  proof (induction s rule: quote_body.induct)
    case (2 c)
    show ?case using u [of c] by simp
  next
    case (3 c d s)
    then show ?case using u [of c] by auto
  qed simp
  then show ?thesis by (simp add: quote_def)
qed

lemma encode_fits:
  assumes "length (json_str (JObj (literal ps))) \<le> 21845"
  shows "\<exists>r. encode ps body = Inr r"
proof -
  have "length (encode_utf8 (json_str (JObj (literal ps)))) \<le> max_header"
    using assms length_encode_utf8 [of "json_str (JObj (literal ps))"] by (simp only: max_header_def)
  then show ?thesis by (simp add: encode_def frame_encode_def Let_def del: json_str.simps literal.simps)
qed

end
