(* ===== verification/Fs_Service.thy ===== *)
theory Fs_Service
  imports Fs_Core Frame_Rpc
begin

text \<open>
  The \<open>.fs\<close> owner service, \<open>service/fs-service.js\<close>, and its client, \<open>js/internal/fs-client.js\<close>: requests
  and replies are binary frames, every operation goes through the permission set, and whatever is
  thrown while a request is handled becomes an error reply. Here the components meet: path
  resolution, permissions, frames, JSON, errors and the primitives of the file system.
\<close>

section \<open>The service\<close>

record fs_state =
  policy :: permission
  inFlight :: int
  totalOps :: int

definition new_fs :: "jsstr \<Rightarrow> fs_state" where
  "new_fs cwd = \<lparr>policy = default_permission cwd, inFlight = 0, totalOps = 0\<rparr>"

text \<open>\<open>fail(undefined, undefined, err)\<close>, the only way it is called.\<close>

definition error_fields :: "js_error \<Rightarrow> (string \<times> json option) list" where
  "error_fields e = [(''ok'', Some (JBool False)), (''reqId'', None), (''op'', None),
     (''code'', map_option JStr (code e)), (''errno'', map_option JNum (errno e)),
     (''syscall'', map_option JStr (syscall e)), (''path'', map_option JStr (epath e)),
     (''skyjsCode'', map_option JStr (skyjs_code e)), (''message'', Some (JStr (message e)))]"

definition fail_reply :: "js_error \<Rightarrow> js_error + bytes" where
  "fail_reply e = encode (error_fields (case normalize_error (Thrown e) (epath e) of Some m \<Rightarrow> m | None \<Rightarrow> e)) None"

text \<open>\<open>policy.resolvePath(header.path, header.base)\<close>: \<open>path.resolve\<close> wants strings, the base first.\<close>

definition path_type_error :: js_error where
  "path_type_error = type_error (js ''Path must be a string'')"

definition resolve_request :: "jsstr \<Rightarrow> permission \<Rightarrow> json \<Rightarrow> js_error + jsstr" where
  "resolve_request cwd P header =
     (case (case field header ''base'' of None \<Rightarrow> Some None
            | Some b \<Rightarrow> if falsy b then Some None else (case b of JStr s \<Rightarrow> Some (Some s) | _ \<Rightarrow> None)) of
        None \<Rightarrow> Inl path_type_error
      | Some base \<Rightarrow> (case field header ''path'' of
            Some (JStr p) \<Rightarrow> map_sum perm_js_error id (resolve_path cwd P p base)
          | _ \<Rightarrow> Inl path_type_error))"

text \<open>
  The policy of a request. The roots must be strings in an array, or falsy. The quota is an integer or
  \<open>true\<close>, which compares as 1, or falsy; that \<open>>\<close> also compares strings and fractions with a number
  of bytes is not modelled.
\<close>

fun json_strings :: "json list \<Rightarrow> jsstr list option" where
  "json_strings [] = Some []"
| "json_strings (JStr s # vs) = map_option ((#) s) (json_strings vs)"
| "json_strings _ = None"

definition requested_roots :: "json \<Rightarrow> js_error + jsstr list" where
  "requested_roots header = (case field header ''roots'' of
     None \<Rightarrow> Inr []
   | Some r \<Rightarrow> if falsy r then Inr []
      else (case r of
          JArr vs \<Rightarrow> (case json_strings vs of None \<Rightarrow> Inl path_type_error | Some rs \<Rightarrow> Inr rs)
        | _ \<Rightarrow> Inl (type_error (js ''not a function''))))"

definition requested_quota :: "json \<Rightarrow> int option" where
  "requested_quota header = (case field header ''maxReadBytes'' of
     Some (JNum n) \<Rightarrow> Some n | Some (JBool True) \<Rightarrow> Some 1 | _ \<Rightarrow> None)"

definition new_policy :: "jsstr \<Rightarrow> json \<Rightarrow> js_error + permission" where
  "new_policy cwd header = map_sum id
     (\<lambda>rs. new_permission cwd (Some rs) (requested_quota header) None (Some (field header ''readOnly'' = Some (JBool True))))
     (requested_roots header)"

definition stat_fields :: "stat_info \<Rightarrow> json" where
  "stat_fields st = JObj [(js ''size'', JNum (st_size st)), (js ''mtime'', JNum (st_mtime st)),
     (js ''isDir'', JBool (st_isDir st)), (js ''isFile'', JBool (st_isFile st)), (js ''mode'', JNum (st_mode st))]"

text \<open>The \<open>switch\<close> of \<open>handle\<close>. It returns the policy that is in force afterwards.\<close>

definition handle_readFile :: "jsstr \<Rightarrow> 'w cio \<Rightarrow> permission \<Rightarrow> json \<Rightarrow> 'w \<Rightarrow> js_error + bytes" where
  "handle_readFile cwd C P header w =
     and_then (resolve_request cwd P header) (\<lambda>target.
     and_then (fs_stat C target w) (\<lambda>st.
     and_then (map_sum perm_js_error id (check_quota P (st_size st) (js ''readFile''))) (\<lambda>_.
     and_then (read_file C target w) (\<lambda>ab.
       ok_reply (echo header @ [(''size'', Some (JNum (int (length ab))))]) (Some ab)))))"

definition handle_op :: "jsstr \<Rightarrow> 'w cio \<Rightarrow> fs_state \<Rightarrow> json \<Rightarrow> 'w \<Rightarrow> permission \<times> (js_error + bytes)" where
  "handle_op cwd C s header w =
     (let P = policy s in
      if op_is header ''ping'' then
        (P, ok_reply [(''reqId'', field header ''reqId''), (''op'', Some (JStr (js ''pong''))),
               (''inFlight'', Some (JNum (inFlight s))), (''totalOps'', Some (JNum (totalOps s)))] None)
      else if op_is header ''policy'' then
        (case new_policy cwd header of Inl e \<Rightarrow> (P, Inl e) | Inr Q \<Rightarrow> (Q, ok_reply (echo header) None))
      else if op_is header ''readFile'' then (P, handle_readFile cwd C P header w)
      else if op_is header ''writeFile'' then
        (P, and_then (resolve_request cwd P header) (\<lambda>target.
            and_then (map_sum perm_js_error id (check_write P (js ''writeFile'') target)) (\<lambda>_. ok_reply (echo header) None)))
      else if op_is header ''stat'' then
        (P, and_then (resolve_request cwd P header) (\<lambda>target.
            and_then (fs_stat C target w) (\<lambda>st.
              encode ((''ok'', Some (JBool True)) # echo header) (Some (encode_utf8 (json_str (stat_fields st)))))))
      else if op_is header ''readdir'' then
        (P, and_then (resolve_request cwd P header) (\<lambda>target.
            and_then (c_readdir C target w) (\<lambda>names.
              encode ((''ok'', Some (JBool True)) # echo header) (Some (encode_utf8 (json_str (JArr (map JStr names))))))))
      else if op_is header ''json'' then
        (P, and_then (resolve_request cwd P header) (\<lambda>target.
            and_then (fs_stat C target w) (\<lambda>st.
              encode ((''ok'', Some (JBool True)) # echo header @ [(''stat'', Some (stat_fields st))]) None)))
      else (P, encode ((''ok'', Some (JBool False)) # echo header @ [(''code'', Some (JStr (js ''ERR_PROTOCOL''))),
              (''message'', Some (JStr (js ''unknown fs op: '' @ value_text (field header ''op''))))]) None))"

text \<open>
  The handler of a message. The payload of a write is applied here; an exception anywhere goes to the
  \<open>catch\<close> clause, which counts the request as done and replies with the error. What the clause itself
  throws is the answer \<open>Inl\<close>. \<open>null\<close> is the only JSON value whose property \<open>op\<close> cannot be read.
\<close>

definition caught :: "js_error \<Rightarrow> fs_state \<Rightarrow> 'w \<Rightarrow> (fs_state \<times> 'w) \<times> (js_error + bytes)" where
  "caught e s w = ((s\<lparr>inFlight := inFlight s - 1\<rparr>, w), fail_reply e)"

definition write_request ::
  "jsstr \<Rightarrow> 'w cio \<Rightarrow> fs_state \<Rightarrow> json \<Rightarrow> bytes option \<Rightarrow> 'w \<Rightarrow> (fs_state \<times> 'w) \<times> (js_error + bytes)" where
  "write_request cwd C s header body w =
     (let P = policy s; payload = (case body of None \<Rightarrow> [] | Some b \<Rightarrow> b) in
      case and_then (resolve_request cwd P header) (\<lambda>target.
           and_then (map_sum perm_js_error id (check_write P (js ''writeFile'') target)) (\<lambda>_.
           and_then (map_sum perm_js_error id (check_quota P (int (length payload)) (js ''writeFile''))) (\<lambda>_. Inr target))) of
        Inl e \<Rightarrow> caught e s w
      | Inr target \<Rightarrow>
          (case write_file C target (DBuffer payload) w of
             (w', Inl e) \<Rightarrow> caught e s w'
           | (w', Inr _) \<Rightarrow>
               let s' = s\<lparr>inFlight := inFlight s - 1\<rparr>
               in (case ok_reply [(''reqId'', field header ''reqId''), (''op'', Some (JStr (js ''writeFile''))),
                           (''size'', Some (JNum (int (length payload))))] None of
                     Inl e \<Rightarrow> caught e s' w'
                   | Inr reply \<Rightarrow> ((s', w'), Inr reply))))"

definition fs_dispatch :: "jsstr \<Rightarrow> 'w cio \<Rightarrow> fs_state \<times> 'w \<Rightarrow> bytes \<Rightarrow> (fs_state \<times> 'w) \<times> (js_error + bytes)" where
  "fs_dispatch cwd C x msg = (case x of (s0, w) \<Rightarrow>
     let s = s0\<lparr>inFlight := inFlight s0 + 1, totalOps := totalOps s0 + 1\<rparr> in
     case frame_decode msg of
       Inl e \<Rightarrow> caught (frame_js_error e) s w
     | Inr (header, body) \<Rightarrow>
         if header = JNull then caught (type_error (js ''cannot read property '' @ [39, 111, 112, 39] @ js '' of null'')) s w
         else if op_is header ''writeFile'' then write_request cwd C s header body w
         else (case handle_op cwd C s header w of
             (P, Inl e) \<Rightarrow> caught e (s\<lparr>policy := P\<rparr>) w
           | (P, Inr reply) \<Rightarrow> ((s\<lparr>policy := P, inFlight := inFlight s - 1\<rparr>, w), Inr reply)))"

section \<open>The client\<close>

text \<open>What the service is called with: the header is a request number and the fields of the operation.\<close>

definition request_path :: "jsstr \<Rightarrow> jsstr \<Rightarrow> jsstr option \<Rightarrow> jsstr" where
  "request_path cwd path base =
     resolve cwd [case base of None \<Rightarrow> resolve cwd [js ''.''] | Some b \<Rightarrow> if b = [] then resolve cwd [js ''.''] else b, path]"

definition fs_request :: "nat \<Rightarrow> string \<Rightarrow> jsstr \<Rightarrow> (string \<times> json option) list" where
  "fs_request reqId op path = [(''reqId'', Some (JNum (int reqId))), (''op'', Some (JStr (js op))), (''path'', Some (JStr path))]"

definition remote_error :: "json \<Rightarrow> js_error" where
  "remote_error h = \<lparr>message = or_else (string_field h ''message'') ''fs owner error'',
     code = Some (or_else (string_field h ''code'') ''ERR_IO''),
     errno = (case field h ''errno'' of Some (JNum n) \<Rightarrow> Some n | _ \<Rightarrow> None),
     syscall = string_field h ''syscall'', epath = string_field h ''path'',
     skyjs_code = Some (or_else (string_field h ''skyjsCode'') ''ERR_IO''), ename = js ''Error''\<rparr>"

definition read_reply :: "bytes \<Rightarrow> js_error + json \<times> bytes option" where
  "read_reply reply = (case frame_decode reply of
     Inl e \<Rightarrow> Inl (frame_js_error e)
   | Inr (h, body) \<Rightarrow> if field h ''ok'' \<noteq> Some (JBool True) then Inl (remote_error h) else Inr (h, body))"

text \<open>
  \<open>call\<close> against the service; the messages between actors carry the bytes unchanged, and a handler
  that throws makes the call fail with \<open>lost\<close>.
\<close>

definition fs_call :: "jsstr \<Rightarrow> 'w cio \<Rightarrow> js_error \<Rightarrow> (string \<times> json option) list \<Rightarrow> bytes option \<Rightarrow>
    fs_state \<times> 'w \<Rightarrow> (fs_state \<times> 'w) \<times> (js_error + json \<times> bytes option)" where
  "fs_call scwd C lost header body x =
     (case encode header body of
        Inl e \<Rightarrow> (x, Inl e)
      | Inr msg \<Rightarrow> (case fs_dispatch scwd C x msg of
            (y, Inl e) \<Rightarrow> (y, Inl lost)
          | (y, Inr reply) \<Rightarrow> (y, read_reply reply)))"

definition client_readFile :: "jsstr \<Rightarrow> jsstr \<Rightarrow> 'w cio \<Rightarrow> js_error \<Rightarrow> nat \<Rightarrow> jsstr \<Rightarrow> jsstr option \<Rightarrow>
    fs_state \<times> 'w \<Rightarrow> (fs_state \<times> 'w) \<times> (js_error + bytes)" where
  "client_readFile ccwd scwd C lost reqId path base x =
     (case fs_call scwd C lost (fs_request reqId ''readFile'' (request_path ccwd path base)) None x of
        (y, r) \<Rightarrow> (y, map_sum id (\<lambda>p. case snd p of None \<Rightarrow> [] | Some b \<Rightarrow> b) r))"

definition client_writeFile :: "jsstr \<Rightarrow> jsstr \<Rightarrow> 'w cio \<Rightarrow> js_error \<Rightarrow> nat \<Rightarrow> jsstr \<Rightarrow> bytes \<Rightarrow> jsstr option \<Rightarrow>
    fs_state \<times> 'w \<Rightarrow> (fs_state \<times> 'w) \<times> (js_error + unit)" where
  "client_writeFile ccwd scwd C lost reqId path data base x =
     (case fs_call scwd C lost (fs_request reqId ''writeFile'' (request_path ccwd path base)) (Some data) x of
        (y, r) \<Rightarrow> (y, map_sum id (\<lambda>_. ()) r))"

text \<open>\<open>stat\<close> and \<open>readdir\<close>: the JSON in the body; \<open>Inl (Inr ())\<close> when that is no JSON.\<close>

definition client_json :: "string \<Rightarrow> jsstr \<Rightarrow> jsstr \<Rightarrow> 'w cio \<Rightarrow> js_error \<Rightarrow> nat \<Rightarrow> jsstr \<Rightarrow> jsstr option \<Rightarrow>
    fs_state \<times> 'w \<Rightarrow> (fs_state \<times> 'w) \<times> ((js_error + unit) + json)" where
  "client_json op ccwd scwd C lost reqId path base x =
     (case fs_call scwd C lost (fs_request reqId op (request_path ccwd path base)) None x of
        (y, Inl e) \<Rightarrow> (y, Inl (Inl e))
      | (y, Inr (h, body)) \<Rightarrow>
          (y, case json_parse (decode_utf8 (case body of None \<Rightarrow> [] | Some b \<Rightarrow> b)) of None \<Rightarrow> Inl (Inr ()) | Some v \<Rightarrow> Inr v))"

section \<open>A read through the service\<close>

lemma canonical_resolved: "canonical p \<Longrightarrow> resolve_target cwd p None = p"
proof -
  assume p: "canonical p"
  then obtain ps where ps: "normal_form True ps" "p = render True ps False" by (auto simp: canonical_render)
  have s: "starts_with p [slash]" using ps(2) by (simp add: render_def starts_with_def)
  have "resolve cwd [[slash], p] = resolve p []" using s by (simp add: resolve_def starts_with_def)
  also have "... = render True (split_path p) False" using resolve_absolute [OF s, of "[]"] by simp
  also have "... = p" using split_on_render(1) [OF ps(1), of False] ps(2) by simp
  finally show ?thesis by (simp add: resolve_target_def)
qed

lemma request_header:
  assumes "encode (fs_request n op p) body = Inr msg" "case body of None \<Rightarrow> True | Some b \<Rightarrow> length b < 4294967296"
  shows "frame_decode msg = Inr (JObj (literal (fs_request n op p)), norm_body body)"
proof (rule decode_encode [OF assms(1) _ assms(2)])
  show "json_ok (JObj (literal (fs_request n op p)))"
    by (rule literal_ok) (simp_all add: fs_request_def name_plain)
qed

lemma request_fields:
  "field (JObj (literal (fs_request n op p))) ''reqId'' = Some (JNum (int n))"
  "field (JObj (literal (fs_request n op p))) ''op'' = Some (JStr (js op))"
  "field (JObj (literal (fs_request n op p))) ''path'' = Some (JStr p)"
  "field (JObj (literal (fs_request n op p))) ''base'' = None"
  "op_is (JObj (literal (fs_request n op p))) name \<longleftrightarrow> op = name"
  by (simp_all add: op_is_def fs_request_def)

text \<open>The replies with a number and the name of the operation fit into a header.\<close>

lemma size_reply_fits:
  assumes "n < 2 ^ 53" "m < 4294967296" "length op \<le> 10"
  shows "\<exists>r. ok_reply [(''reqId'', Some (JNum (int n))), (''op'', Some (JStr (js op))), (''size'', Some (JNum (int m)))] body = Inr r"
proof -
  let ?h = "JObj (literal [(''ok'', Some (JBool True)), (''reqId'', Some (JNum (int n))), (''op'', Some (JStr (js op))), (''size'', Some (JNum (int m)))])"
  have "length (int_str (int n)) \<le> 16" "length (int_str (int m)) \<le> 16"
    using assms length_int_str_bound [of n 15] length_int_str_bound [of m 15] by simp_all
  moreover have "length (quote (js ''ok'')) \<le> 14" "length (quote (js ''reqId'')) \<le> 32" "length (quote (js ''op'')) \<le> 14"
    "length (quote (js ''size'')) \<le> 26" "length (quote (js op)) \<le> 62"
    using length_quote [of "js ''ok''"] length_quote [of "js ''reqId''"] length_quote [of "js ''op''"]
      length_quote [of "js ''size''"] length_quote [of "js op"] assms(3) by simp_all
  ultimately have "length (json_str ?h) \<le> 1000" by simp
  then have "length (encode_utf8 (json_str ?h)) \<le> max_header"
    using length_encode_utf8 [of "json_str ?h"] by (simp only: max_header_def)
  then show ?thesis by (simp add: ok_reply_def encode_def frame_encode_def Let_def del: json_str.simps literal.simps)
qed

lemma size_reply_read:
  assumes "ok_reply [(''reqId'', Some (JNum (int n))), (''op'', Some (JStr (js op))), (''size'', Some (JNum (int m)))] body = Inr r"
    "case body of None \<Rightarrow> True | Some b \<Rightarrow> length b < 4294967296"
  shows "\<exists>h. read_reply r = Inr (h, norm_body body)"
proof -
  let ?ps = "[(''ok'', Some (JBool True)), (''reqId'', Some (JNum (int n))), (''op'', Some (JStr (js op))), (''size'', Some (JNum (int m)))]"
  have "frame_decode r = Inr (JObj (literal ?ps), norm_body body)"
    using assms by (intro decode_encode literal_ok) (simp_all add: ok_reply_def name_plain)
  then show ?thesis by (simp add: read_reply_def)
qed

text \<open>What the caller gets to see of an error.\<close>

definition received :: "js_error \<Rightarrow> js_error" where
  "received e = (let m = (case normalize_error (Thrown e) (epath e) of Some m \<Rightarrow> m | None \<Rightarrow> e)
     in m\<lparr>message := or_else (Some (message m)) ''fs owner error'', code := Some (or_else (code m) ''ERR_IO''),
          skyjs_code := Some (or_else (skyjs_code m) ''ERR_IO''), ename := js ''Error''\<rparr>)"

lemma fail_reply_read:
  assumes "fail_reply e = Inr r"
  shows "read_reply r = Inl (received e)"
proof -
  define m where "m = (case normalize_error (Thrown e) (epath e) of Some m \<Rightarrow> m | None \<Rightarrow> e)"
  have e: "encode (error_fields m) None = Inr r" using assms by (simp add: fail_reply_def m_def)
  have "json_ok (JObj (literal (error_fields m)))"
    by (rule literal_ok) (simp_all add: error_fields_def name_plain split: option.split)
  then have d: "frame_decode r = Inr (JObj (literal (error_fields m)), None)"
    using decode_encode [OF e] by (simp only: norm_body_def) simp
  have f: "field (JObj (literal (error_fields m))) k = (case map_of (error_fields m) k of None \<Rightarrow> None | Some v \<Rightarrow> v)" for k
    using map_of_literal [of "error_fields m" k] by (simp add: error_fields_def)
  have "remote_error (JObj (literal (error_fields m))) =
      m\<lparr>message := or_else (Some (message m)) ''fs owner error'', code := Some (or_else (code m) ''ERR_IO''),
        skyjs_code := Some (or_else (skyjs_code m) ''ERR_IO''), ename := js ''Error''\<rparr>"
    unfolding remote_error_def string_field_def f
    by (cases m; cases "code m"; cases "errno m"; cases "syscall m"; cases "epath m"; cases "skyjs_code m")
       (simp_all add: error_fields_def)
  moreover have "field (JObj (literal (error_fields m))) ''ok'' = Some (JBool False)" unfolding f by (simp add: error_fields_def)
  ultimately show ?thesis unfolding read_reply_def d by (simp add: received_def m_def [symmetric] del: field.simps)
qed

section \<open>The operations, as the caller sees them\<close>

text \<open>
  What the service promises: an operation on a path, guarded by the policy. \<open>in_policy\<close> says in terms of
  path components what \<open>resolvePath\<close> allows.
\<close>

definition in_policy :: "permission \<Rightarrow> jsstr \<Rightarrow> bool" where
  "in_policy P p \<longleftrightarrow> roots P = [] \<or> (\<exists>r\<in>set (roots P). p = r \<or> (r \<noteq> [slash] \<and> prefix (split_path r) (split_path p)))"

definition guarded :: "permission \<Rightarrow> jsstr \<Rightarrow> (js_error + 'a) \<Rightarrow> js_error + 'a" where
  "guarded P p r = (if in_policy P p then r else Inl (perm_js_error (PathEscapes p p (roots P))))"

definition guarded_read :: "'w cio \<Rightarrow> permission \<Rightarrow> jsstr \<Rightarrow> 'w \<Rightarrow> js_error + bytes" where
  "guarded_read C P p w = guarded P p
     (and_then (fs_stat C p w) (\<lambda>st.
      if st_size st < 0 then Inl (perm_js_error (InvalidByteCount (js ''readFile'')))
      else if st_size st > max_read_bytes P then Inl (perm_js_error (ExceedsQuota (js ''readFile'') (st_size st) (max_read_bytes P)))
      else read_file C p w))"

definition remote :: "js_error \<Rightarrow> js_error + 'a \<Rightarrow> js_error + 'a" where
  "remote lost r = (case r of Inr x \<Rightarrow> Inr x | Inl e \<Rightarrow> (case fail_reply e of Inr _ \<Rightarrow> Inl (received e) | Inl _ \<Rightarrow> Inl lost))"

lemma resolve_request_path:
  assumes "starts_with scwd [slash]" "P = new_permission scwd rts q al ro" "canonical p"
  shows "resolve_request scwd P (JObj (literal (fs_request n op p))) = guarded P p (Inr p)"
proof -
  have "resolve_path scwd P p None = (if in_policy P p then Inr p else Inl (PathEscapes p p (roots P)))"
    using conjunct2 [OF resolve_path_spec [OF assms(1,2) refl, of p None]]
    unfolding canonical_resolved [OF assms(3)] in_policy_def .
  then show ?thesis by (simp add: resolve_request_def request_fields guarded_def del: field.simps)
qed

lemma call_reply:
  assumes "encode header body = Inr msg"
  shows "fs_call scwd C lost header body x =
    (case fs_dispatch scwd C x msg of (y, Inl e) \<Rightarrow> (y, Inl lost) | (y, Inr reply) \<Rightarrow> (y, read_reply reply))"
  using assms by (simp add: fs_call_def)

lemma dispatch_readFile:
  assumes "encode (fs_request n ''readFile'' p) None = Inr msg"
  shows "fs_dispatch scwd C (s, w) msg =
    (case handle_readFile scwd C (policy s) (JObj (literal (fs_request n ''readFile'' p))) w of
       Inl e \<Rightarrow> ((s\<lparr>totalOps := totalOps s + 1\<rparr>, w), fail_reply e)
     | Inr r \<Rightarrow> ((s\<lparr>totalOps := totalOps s + 1\<rparr>, w), Inr r))"
  using request_header [OF assms]
  by (simp add: fs_dispatch_def Let_def request_fields handle_op_def caught_def norm_body_def del: field.simps split: sum.split)

lemma handled_read:
  assumes "starts_with scwd [slash]" "P = new_permission scwd rts q al ro" "canonical p"
  shows "handle_readFile scwd C P (JObj (literal (fs_request n ''readFile'' p))) w =
    and_then (guarded_read C P p w) (\<lambda>ab.
      ok_reply [(''reqId'', Some (JNum (int n))), (''op'', Some (JStr (js ''readFile''))), (''size'', Some (JNum (int (length ab))))] (Some ab))"
  unfolding handle_readFile_def resolve_request_path [OF assms] echo_def request_fields guarded_read_def guarded_def check_quota_def
  by (cases "fs_stat C p w") (simp_all del: field.simps)

lemma call_readFile:
  assumes "starts_with scwd [slash]" "policy s = new_permission scwd rts q al ro" "canonical p"
    and "encode (fs_request n ''readFile'' p) None = Inr msg" "n < 2 ^ 53" "\<And>b. c_readFile C p w = Inr b \<Longrightarrow> length b < 4294967296"
  shows "\<exists>h. fs_call scwd C lost (fs_request n ''readFile'' p) None (s, w) =
    ((s\<lparr>totalOps := totalOps s + 1\<rparr>, w), map_sum id (\<lambda>b. (h, norm_body (Some b))) (remote lost (guarded_read C (policy s) p w)))"
proof (cases "guarded_read C (policy s) p w")
  case (Inl e)
  then have "handle_readFile scwd C (policy s) (JObj (literal (fs_request n ''readFile'' p))) w = Inl e"
    using handled_read [OF assms(1-3), where C = C and w = w and n = n] by simp
  then show ?thesis unfolding call_reply [OF assms(4)] dispatch_readFile [OF assms(4)] Inl remote_def
    using fail_reply_read [of e] by (simp split: sum.split)
next
  case (Inr b)
  then have "c_readFile C p w = Inr b"
    by (cases "fs_stat C p w") (auto simp: guarded_read_def guarded_def read_file_def split: if_splits)
  then have l: "length b < 4294967296" by (rule assms(6))
  obtain r where r: "ok_reply [(''reqId'', Some (JNum (int n))), (''op'', Some (JStr (js ''readFile''))), (''size'', Some (JNum (int (length b))))] (Some b) = Inr r"
    using size_reply_fits [OF assms(5) l, of "''readFile''" "Some b"] by auto
  then have h: "handle_readFile scwd C (policy s) (JObj (literal (fs_request n ''readFile'' p))) w = Inr r"
    using handled_read [OF assms(1-3), where C = C and w = w and n = n] Inr by simp
  obtain hd where "read_reply r = Inr (hd, norm_body (Some b))" using size_reply_read [OF r] l by auto
  then show ?thesis unfolding call_reply [OF assms(4)] dispatch_readFile [OF assms(4)] Inr h remote_def
    by simp
qed

lemma client_read:
  assumes "starts_with ccwd [slash]" "starts_with scwd [slash]" "policy s = new_permission scwd rts q al ro"
    and "target = request_path ccwd path base"
    and "encode (fs_request n ''readFile'' target) None = Inr msg" "n < 2 ^ 53"
    and "\<And>b. c_readFile C target w = Inr b \<Longrightarrow> length b < 4294967296"
  shows "client_readFile ccwd scwd C lost n path base (s, w) =
    ((s\<lparr>totalOps := totalOps s + 1\<rparr>, w), remote lost (guarded_read C (policy s) target w))"
proof -
  have c: "canonical target" unfolding assms(4) request_path_def by (rule resolve_canonical [OF assms(1)])
  obtain h where h: "fs_call scwd C lost (fs_request n ''readFile'' target) None (s, w) =
    ((s\<lparr>totalOps := totalOps s + 1\<rparr>, w), map_sum id (\<lambda>b. (h, norm_body (Some b))) (remote lost (guarded_read C (policy s) target w)))"
    using call_readFile [OF assms(2,3) c assms(5,6), where C = C and w = w and lost = lost, OF assms(7)] by blast
  show ?thesis unfolding client_readFile_def assms(4) [symmetric] h
    by (cases "remote lost (guarded_read C (policy s) target w)") (simp_all add: norm_body_def)
qed

text \<open>C3. Reading a file through the owner service is reading it under the service's policy: for absolute
  working directories, a policy that the constructor built and a request that fits a frame, the
  caller gets exactly the bytes of the file named by its own working directory (the service's does not
  matter) when that path lies inside a root and the quota admits the size, and otherwise the error of
  the check or of the file system, with its code, number and class (or the lost reply, when the error
  does not fit a frame). Nothing else of the service changes but its count of operations.\<close>

theorem read_through_service:
  assumes "starts_with ccwd [slash]" "starts_with scwd [slash]" "policy s = new_permission scwd rts q al ro"
    and "target = request_path ccwd path base"
    and "encode (fs_request n ''readFile'' target) None = Inr msg" "n < 2 ^ 53"
    and "\<And>b. c_readFile C target w = Inr b \<Longrightarrow> length b < 4294967296"
  shows "client_readFile ccwd scwd C lost n path base (s, w) =
    ((s\<lparr>totalOps := totalOps s + 1\<rparr>, w), remote lost (guarded_read C (policy s) target w))"
  using assms by (rule client_read)

text \<open>The same for a write.\<close>

definition guarded_write :: "'w cio \<Rightarrow> permission \<Rightarrow> jsstr \<Rightarrow> bytes \<Rightarrow> 'w \<Rightarrow> 'w \<times> (js_error + unit)" where
  "guarded_write C P p data w =
     (case guarded P p
        (if read_only P then Inl (perm_js_error (ReadOnly (js ''writeFile'') p))
         else if int (length data) > max_read_bytes P
         then Inl (perm_js_error (ExceedsQuota (js ''writeFile'') (int (length data)) (max_read_bytes P))) else Inr ()) of
        Inl e \<Rightarrow> (w, Inl e)
      | Inr _ \<Rightarrow> c_writeFile C p data w)"

lemma payload_norm: "(case norm_body (Some d) of None \<Rightarrow> [] | Some b \<Rightarrow> b) = d"
  by (simp add: norm_body_def)

lemma dispatch_writeFile:
  assumes "starts_with scwd [slash]" "policy s = new_permission scwd rts q al ro" "canonical p"
    and "encode (fs_request n ''writeFile'' p) (Some data) = Inr msg" "n < 2 ^ 53" "length data < 4294967296"
  shows "\<exists>r. fs_dispatch scwd C (s, w) msg =
    (case guarded_write C (policy s) p data w of
       (w', Inl e) \<Rightarrow> ((s\<lparr>totalOps := totalOps s + 1\<rparr>, w'), fail_reply e)
     | (w', Inr _) \<Rightarrow> ((s\<lparr>totalOps := totalOps s + 1\<rparr>, w'), Inr r)) \<and> (\<exists>h. read_reply r = Inr (h, None))"
proof -
  let ?s = "s\<lparr>inFlight := inFlight s + 1, totalOps := totalOps s + 1\<rparr>"
  obtain r where r: "ok_reply [(''reqId'', Some (JNum (int n))), (''op'', Some (JStr (js ''writeFile''))), (''size'', Some (JNum (int (length data))))] None = Inr r"
    using size_reply_fits [OF assms(5,6), of "''writeFile''" None] by auto
  have d: "frame_decode msg = Inr (JObj (literal (fs_request n ''writeFile'' p)), norm_body (Some data))"
    by (rule request_header [OF assms(4)]) (simp add: assms(6))
  have "fs_dispatch scwd C (s, w) msg = write_request scwd C ?s (JObj (literal (fs_request n ''writeFile'' p))) (norm_body (Some data)) w"
    by (simp add: fs_dispatch_def Let_def d request_fields del: field.simps literal.simps)
  also have "... = (case guarded_write C (policy s) p data w of
       (w', Inl e) \<Rightarrow> ((s\<lparr>totalOps := totalOps s + 1\<rparr>, w'), fail_reply e)
     | (w', Inr _) \<Rightarrow> ((s\<lparr>totalOps := totalOps s + 1\<rparr>, w'), Inr r))"
  proof -
    have rr: "resolve_request scwd (policy ?s) (JObj (literal (fs_request n ''writeFile'' p))) = guarded (policy s) p (Inr p)"
      using resolve_request_path [OF assms(1-3)] by simp
    show ?thesis
      unfolding write_request_def Let_def payload_norm rr request_fields r guarded_write_def guarded_def check_write_def check_quota_def
        write_file_def to_ab_def caught_def
      by (simp del: field.simps literal.simps split: prod.split sum.split)
  qed
  finally show ?thesis using size_reply_read [OF r] by (auto simp: norm_body_def)
qed

text \<open>Writing a file through the owner service is writing it under the service's policy: the caller's
  path, resolved in its own working directory, is written only when it lies inside a root, the policy
  is not read-only and the payload is within the quota; otherwise the file system is left as it is and
  the caller gets the error, with its code and class.\<close>

theorem write_through_service:
  assumes "starts_with ccwd [slash]" "starts_with scwd [slash]" "policy s = new_permission scwd rts q al ro"
    and "target = request_path ccwd path base"
    and "encode (fs_request n ''writeFile'' target) (Some data) = Inr msg" "n < 2 ^ 53" "length data < 4294967296"
    and "guarded_write C (policy s) target data w = (w', res)"
  shows "client_writeFile ccwd scwd C lost n path data base (s, w) = ((s\<lparr>totalOps := totalOps s + 1\<rparr>, w'), remote lost res)"
proof -
  have c: "canonical target" unfolding assms(4) request_path_def by (rule resolve_canonical [OF assms(1)])
  obtain r where r: "fs_dispatch scwd C (s, w) msg = (case guarded_write C (policy s) target data w of
       (w', Inl e) \<Rightarrow> ((s\<lparr>totalOps := totalOps s + 1\<rparr>, w'), fail_reply e)
     | (w', Inr _) \<Rightarrow> ((s\<lparr>totalOps := totalOps s + 1\<rparr>, w'), Inr r))" "\<exists>h. read_reply r = Inr (h, None)"
    by (rule exE [OF dispatch_writeFile [OF assms(2,3) c assms(5,6,7), where C = C and w = w]], erule conjE) (rule that)
  show ?thesis
  proof (cases res)
    case (Inl e)
    then show ?thesis unfolding client_writeFile_def assms(4) [symmetric] call_reply [OF assms(5)] r(1) assms(8) remote_def
      using fail_reply_read by (cases "fail_reply e") simp_all
  next
    case (Inr u)
    obtain h where "read_reply r = Inr (h, None)" using r(2) ..
    then show ?thesis unfolding client_writeFile_def assms(4) [symmetric] call_reply [OF assms(5)] r(1) assms(8) remote_def Inr
      by simp
  qed
qed

section \<open>Confinement\<close>

text \<open>Whether a message asks for another policy.\<close>

definition asks_policy :: "bytes \<Rightarrow> bool" where
  "asks_policy msg = (case frame_decode msg of Inl e \<Rightarrow> False | Inr (h, b) \<Rightarrow> op_is h ''policy'')"

fun fs_serve :: "jsstr \<Rightarrow> 'w cio \<Rightarrow> fs_state \<times> 'w \<Rightarrow> bytes list \<Rightarrow> (fs_state \<times> 'w) \<times> (js_error + bytes) list" where
  "fs_serve cwd C x [] = (x, [])"
| "fs_serve cwd C x (msg # msgs) =
     (case fs_dispatch cwd C x msg of (y, r) \<Rightarrow> case fs_serve cwd C y msgs of (z, rs) \<Rightarrow> (z, r # rs))"

text \<open>Two file systems that agree on what a policy admits.\<close>

definition agree :: "permission \<Rightarrow> 'w cio \<Rightarrow> 'w cio \<Rightarrow> bool" where
  "agree P A B \<longleftrightarrow> (\<forall>p w. in_policy P p \<longrightarrow>
     c_stat A p w = c_stat B p w \<and> c_readFile A p w = c_readFile B p w \<and> c_readdir A p w = c_readdir B p w \<and>
     (\<not> read_only P \<longrightarrow> (\<forall>b. int (length b) \<le> max_read_bytes P \<longrightarrow> c_writeFile A p b w = c_writeFile B p b w)))"

lemma resolve_request_in_policy:
  assumes "starts_with cwd [slash]" "P = new_permission cwd rts q al ro" "resolve_request cwd P h = Inr p"
  shows "in_policy P p"
proof -
  obtain t b where "resolve_path cwd P t b = Inr p"
    using assms(3) by (auto simp: resolve_request_def map_sum_def split: option.splits json.splits sum.splits if_splits)
  then show ?thesis using conjunct2 [OF resolve_path_spec [OF assms(1,2) refl, of t b]]
    unfolding in_policy_def by (auto split: if_splits)
qed

lemma handle_policy: "\<not> op_is h ''policy'' \<Longrightarrow> fst (handle_op cwd C s h w) = policy s"
  by (simp add: handle_op_def Let_def)

lemma handle_agree:
  assumes "starts_with cwd [slash]" "policy s = new_permission cwd rts q al ro" "agree (policy s) A B"
  shows "handle_op cwd A s h w = handle_op cwd B s h w"
proof -
  have c: "c_stat A p w = c_stat B p w" "c_readFile A p w = c_readFile B p w" "c_readdir A p w = c_readdir B p w"
    if "resolve_request cwd (policy s) h = Inr p" for p
    using resolve_request_in_policy [OF assms(1,2) that] assms(3) unfolding agree_def by blast+
  have r: "handle_readFile cwd A (policy s) h w = handle_readFile cwd B (policy s) h w"
    unfolding handle_readFile_def by (intro and_then_cong) (simp add: fs_stat_def read_file_def c)
  have st: "and_then (resolve_request cwd (policy s) h) (\<lambda>p. and_then (fs_stat A p w) (f p)) =
      and_then (resolve_request cwd (policy s) h) (\<lambda>p. and_then (fs_stat B p w) (f p))" for f :: "jsstr \<Rightarrow> stat_info \<Rightarrow> js_error + bytes"
    by (intro and_then_cong) (simp add: fs_stat_def c)
  have d: "and_then (resolve_request cwd (policy s) h) (\<lambda>p. and_then (c_readdir A p w) (f p)) =
      and_then (resolve_request cwd (policy s) h) (\<lambda>p. and_then (c_readdir B p w) (f p))" for f :: "jsstr \<Rightarrow> jsstr list \<Rightarrow> js_error + bytes"
    by (intro and_then_cong) (simp add: c)
  show ?thesis unfolding handle_op_def Let_def r st d ..
qed

lemma write_agree:
  assumes "starts_with cwd [slash]" "policy s = new_permission cwd rts q al ro" "agree (policy s) A B"
  shows "write_request cwd A s h body w = write_request cwd B s h body w"
proof -
  define d where "d = (case body of None \<Rightarrow> [] | Some b \<Rightarrow> b)"
  define r where "r = and_then (resolve_request cwd (policy s) h) (\<lambda>target.
     and_then (map_sum perm_js_error id (check_write (policy s) (js ''writeFile'') target)) (\<lambda>_.
     and_then (map_sum perm_js_error id (check_quota (policy s) (int (length d)) (js ''writeFile''))) (\<lambda>_. Inr target)))"
  have w: "c_writeFile A p d w = c_writeFile B p d w" if "r = Inr p" for p
  proof -
    have "resolve_request cwd (policy s) h = Inr p" "\<not> read_only (policy s)" "int (length d) \<le> max_read_bytes (policy s)"
      using that by (auto simp: r_def and_then_Inr check_write_def check_quota_def split: if_splits)
    then show ?thesis using resolve_request_in_policy [OF assms(1,2)] assms(3) unfolding agree_def by blast
  qed
  show ?thesis
    unfolding write_request_def Let_def d_def [symmetric] r_def [symmetric]
    by (cases r) (simp_all add: write_file_def to_ab_def w)
qed

lemma write_policy: "policy (fst (fst (write_request cwd C s h body w))) = policy s"
  by (simp add: write_request_def Let_def caught_def split: sum.split prod.split)

lemma dispatch_agree:
  assumes "starts_with cwd [slash]" "policy s = new_permission cwd rts q al ro" "agree (policy s) A B" "\<not> asks_policy msg"
  shows "fs_dispatch cwd A (s, w) msg = fs_dispatch cwd B (s, w) msg" (is ?eq)
    and "policy (fst (fst (fs_dispatch cwd A (s, w) msg))) = policy s" (is ?pol)
proof -
  let ?s = "s\<lparr>inFlight := inFlight s + 1, totalOps := totalOps s + 1\<rparr>"
  have s: "policy ?s = new_permission cwd rts q al ro" "agree (policy ?s) A B" using assms(2,3) by simp_all
  have h: "handle_op cwd A ?s h w = handle_op cwd B ?s h w" for h by (rule handle_agree [OF assms(1) s])
  have wr: "write_request cwd A ?s h b w = write_request cwd B ?s h b w" for h b by (rule write_agree [OF assms(1) s])
  show ?eq unfolding fs_dispatch_def Let_def prod.case h wr ..
  have "policy (fst (fst (fs_dispatch cwd A (s, w) msg))) = policy ?s"
  proof (cases "frame_decode msg")
    case (Inr x)
    obtain h b where x: "x = (h, b)" by (cases x)
    then have "\<not> op_is h ''policy''" using assms(4) Inr by (simp add: asks_policy_def)
    then show ?thesis using write_policy [of cwd A ?s h b w] handle_policy [of h cwd A ?s w]
      by (auto simp: fs_dispatch_def Let_def Inr x caught_def split: prod.split sum.split)
  qed (simp add: fs_dispatch_def Let_def caught_def)
  then show ?pol by simp
qed

text \<open>C14. Until a message asks for another policy, the service is confined to the one it has. Everything that a
  sequence of other messages, well-formed or not, makes it do, its replies and what becomes of the file
  system, is the same for any two file systems that agree on the paths inside the roots and, there, on the
  writes within the quota, if the policy allows writes at all; and the policy is still the same afterwards.
  The condition on the messages is needed: the operation \<open>policy\<close> is open to every caller, and a caller
  that uses it is no longer confined (\<open>policy_replaced\<close>).\<close>

theorem service_confined:
  assumes "starts_with cwd [slash]" "policy s = new_permission cwd rts q al ro" "agree (policy s) A B"
    and "\<forall>msg\<in>set msgs. \<not> asks_policy msg"
  shows "fs_serve cwd A (s, w) msgs = fs_serve cwd B (s, w) msgs \<and> policy (fst (fst (fs_serve cwd A (s, w) msgs))) = policy s"
  using assms(2-)
proof (induction msgs arbitrary: s w)
  case (Cons msg msgs)
  have m: "\<not> asks_policy msg" using Cons.prems(3) by simp
  note d = dispatch_agree [OF assms(1) Cons.prems(1,2) m, of w]
  obtain s' w' r where y: "fs_dispatch cwd A (s, w) msg = ((s', w'), r)" by (metis prod.exhaust_sel)
  then have p: "policy s' = policy s" "fs_dispatch cwd B (s, w) msg = ((s', w'), r)" using d by simp_all
  have ih: "fs_serve cwd A (s', w') msgs = fs_serve cwd B (s', w') msgs \<and>
      policy (fst (fst (fs_serve cwd A (s', w') msgs))) = policy s'"
    by (rule Cons.IH) (use p(1) Cons.prems in simp_all)
  have z: "policy (fst (fst (fs_serve cwd B (s', w') msgs))) = policy s"
    using conjunct2 [OF ih] unfolding conjunct1 [OF ih] p(1) .
  show ?case by (cases "fs_serve cwd B (s', w') msgs") (use z in \<open>simp add: y p(2) conjunct1 [OF ih]\<close>)
qed simp

text \<open>Any caller may replace the policy, and then reads what it likes.\<close>

lemma policy_replaced:
  assumes "asks_policy msg" "frame_decode msg = Inr (h, b)" "field h ''roots'' = None"
  shows "roots (policy (fst (fst (fs_dispatch cwd C (s, w) msg)))) = []"
proof -
  have "op_is h ''policy''" using assms(1,2) by (simp add: asks_policy_def)
  moreover from this have "h \<noteq> JNull" "\<not> op_is h ''writeFile''" "\<not> op_is h ''ping''" by (auto simp: op_is_def)
  ultimately show ?thesis using assms(2,3)
    by (simp add: fs_dispatch_def Let_def handle_op_def new_policy_def requested_roots_def new_permission_def caught_def split: sum.split)
qed

section \<open>The counter of requests in flight\<close>

text \<open>Every message is counted; the requests in flight are back where they were, unless the reply to a
  write did not fit a frame.\<close>

lemma dispatch_counts:
  "fs_dispatch cwd C (s, w) msg = ((s', w'), r) \<Longrightarrow>
   totalOps s' = totalOps s + 1 \<and> (inFlight s' = inFlight s \<or> inFlight s' = inFlight s - 1)"
  by (auto simp: fs_dispatch_def write_request_def Let_def caught_def split: sum.splits prod.splits if_splits)

text \<open>A file system that is a map from paths to contents, for concrete runs.\<close>

definition no_entry :: js_error where
  "no_entry = system_error (js ''ENOENT'') (js ''open'') None None"

definition map_host :: "(jsstr \<times> bytes) list cio" where
  "map_host = \<lparr>c_readFile = (\<lambda>p w. case map_of w p of None \<Rightarrow> Inl no_entry | Some b \<Rightarrow> Inr b),
     c_writeFile = (\<lambda>p b w. ((p, b) # w, Inr ())), c_appendFile = (\<lambda>p b w. ((p, b) # w, Inr ())),
     c_exists = (\<lambda>p w. map_of w p \<noteq> None),
     c_stat = (\<lambda>p w. map_option (\<lambda>b. \<lparr>st_size = int (length b), st_mtime = 0, st_isDir = False, st_isFile = True,
         st_mode = 420, st_isSymbolicLink = False\<rparr>) (map_of w p)),
     c_lstat = (\<lambda>p w. None), c_readdir = (\<lambda>p w. Inl no_entry), c_mkdir = (\<lambda>p w. (w, Inl no_entry)),
     c_remove = (\<lambda>p w. (w, Inl no_entry)), c_rename = (\<lambda>p q w. (w, Inl no_entry)), c_open = (\<lambda>p m w. (w, Inl no_entry)),
     c_str2ab = encode_utf8, c_str = decode_utf8\<rparr>"

lemma request_fits:
  assumes "n < 2 ^ 53" "length op \<le> 10" "length p \<le> 3000"
  shows "\<exists>r. encode (fs_request n op p) body = Inr r"
proof (rule encode_fits)
  have "length (int_str (int n)) \<le> 16" using assms(1) length_int_str_bound [of n 15] by simp
  moreover have "length (quote (js ''reqId'')) \<le> 32" "length (quote (js ''op'')) \<le> 14" "length (quote (js ''path'')) \<le> 26"
    "length (quote (js op)) \<le> 62" "length (quote p) \<le> 18002"
    using length_quote [of "js ''reqId''"] length_quote [of "js ''op''"] length_quote [of "js ''path''"]
      length_quote [of "js op"] length_quote [of p] assms(2,3) by simp_all
  ultimately show "length (json_str (JObj (literal (fs_request n op p)))) \<le> 21845"
    by (simp add: fs_request_def)
qed

definition demo_policy :: permission where
  "demo_policy = new_permission (js ''/srv'') (Some [js ''/data'']) None None None"

definition demo_state :: fs_state where
  "demo_state = \<lparr>policy = demo_policy, inFlight = 0, totalOps = 0\<rparr>"

lemma demo_target: "request_path (js ''/home'') (js ''../data/a'') None = js ''/data/a''"
  by code_simp

lemma read_through_service_witness:
  "client_readFile (js ''/home'') (js ''/srv'') map_host no_entry 1 (js ''../data/a'') None (demo_state, [(js ''/data/a'', [104, 105])]) =
     ((demo_state\<lparr>totalOps := 1\<rparr>, [(js ''/data/a'', [104, 105])]), Inr [104, 105])"
proof -
  obtain msg where m: "encode (fs_request 1 ''readFile'' (js ''/data/a'')) None = Inr msg"
    using request_fits [of 1 "''readFile''" "js ''/data/a''" None] by auto
  have s: "starts_with (js ''/home'') [slash]" "starts_with (js ''/srv'') [slash]" by code_simp+
  let ?w = "[(js ''/data/a'', [104, 105])]"
  have f: "\<And>b. c_readFile map_host (js ''/data/a'') ?w = Inr b \<Longrightarrow> length b < 4294967296"
    by (auto simp: map_host_def)
  have "in_policy demo_policy (js ''/data/a'')" by code_simp
  moreover have "max_read_bytes demo_policy = 67108864" by code_simp
  ultimately have g: "guarded_read map_host demo_policy (js ''/data/a'') [(js ''/data/a'', [104, 105])] = Inr [104, 105]"
    by (simp add: guarded_read_def guarded_def fs_stat_def normalize_stat_def map_host_def read_file_def)
  have p: "policy demo_state = demo_policy" "totalOps demo_state = 0" by (simp_all add: demo_state_def)
  have e: "policy demo_state = new_permission (js ''/srv'') (Some [js ''/data'']) None None None"
    by (simp add: demo_state_def demo_policy_def)
  show ?thesis
    using read_through_service [OF s e demo_target [symmetric] m, where lost = no_entry and C = map_host and w = ?w, OF _ f] g
    by (simp add: p remote_def)
qed

lemma write_through_service_witness:
  "snd (client_writeFile (js ''/home'') (js ''/srv'') map_host no_entry 1 (js ''../data/a'') [7] None (demo_state, [])) = Inr ()"
proof -
  obtain msg where m: "encode (fs_request 1 ''writeFile'' (js ''/data/a'')) (Some [7]) = Inr msg"
    using request_fits [of 1 "''writeFile''" "js ''/data/a''" "Some [7]"] by auto
  have s: "starts_with (js ''/home'') [slash]" "starts_with (js ''/srv'') [slash]" by code_simp+
  have "in_policy demo_policy (js ''/data/a'')" by code_simp
  moreover have "max_read_bytes demo_policy = 67108864" "\<not> read_only demo_policy" by code_simp+
  ultimately have g: "guarded_write map_host (policy demo_state) (js ''/data/a'') [7] [] = ([(js ''/data/a'', [7])], Inr ())"
    by (simp add: guarded_write_def guarded_def map_host_def demo_state_def)
  have e: "policy demo_state = new_permission (js ''/srv'') (Some [js ''/data'']) None None None"
    by (simp add: demo_state_def demo_policy_def)
  show ?thesis
    using write_through_service [OF s e demo_target [symmetric] m _ _ g, where lost = no_entry]
    by (simp add: remote_def)
qed

lemma service_confined_witness:
  "fs_serve (js ''/srv'') map_host (demo_state, []) [[1, 2, 3], []] =
   fs_serve (js ''/srv'') (map_host\<lparr>c_readFile := (\<lambda>p w. if in_policy demo_policy p then c_readFile map_host p w else Inr [9])\<rparr>)
     (demo_state, []) [[1, 2, 3], []]"
proof (rule conjunct1 [OF service_confined])
  show "starts_with (js ''/srv'') [slash]" by code_simp
  show "policy demo_state = new_permission (js ''/srv'') (Some [js ''/data'']) None None None"
    by (simp add: demo_state_def demo_policy_def)
  show "agree (policy demo_state) map_host
      (map_host\<lparr>c_readFile := (\<lambda>p w. if in_policy demo_policy p then c_readFile map_host p w else Inr [9])\<rparr>)"
    by (simp add: agree_def demo_state_def)
  show "\<forall>msg\<in>set [[1, 2, 3], []]. \<not> asks_policy msg" by (simp add: asks_policy_def frame_decode_def header_offset_def)
qed

section \<open>A reply that does not fit\<close>

text \<open>
  The reply to a write is longer than the request could be: for a request number close to the limit
  (any JSON value is echoed) the file is written, the reply cannot be encoded, and the \<open>catch\<close> clause
  takes the request from the count a second time.
\<close>

lemma quote_body_as: "quote_body (replicate n 97) = replicate n 97"
proof (induction n rule: induct_nat_012)
  case (ge2 n)
  then show ?case by (simp add: quote_unit_def is_high_def is_low_def)
qed (simp_all add: quote_unit_def is_high_def is_low_def)

lemma length_encode_ascii: "\<forall>c\<in>set s. c < 128 \<Longrightarrow> length (encode_utf8 s) = length s"
proof (induction s rule: encode_utf8.induct)
  case (3 c lo cs)
  then have "\<not> is_high c" "unat c < 128" by (auto simp: is_high_def word_less_nat_alt word_le_nat_alt)
  then show ?case using 3 by (simp add: encode_cp_def)
qed (simp_all add: encode_cp_def word_less_nat_alt)

definition huge_id :: json where
  "huge_id = JStr (replicate 65491 97)"

lemma quote_huge: "quote (replicate n 97) = 34 # replicate n 97 @ [34]"
  by (simp add: quote_def quote_body_as)

lemma write_counted_twice:
  assumes "field h ''op'' = Some (JStr (js ''writeFile''))" "field h ''reqId'' = Some huge_id"
    and "frame_decode msg = Inr (h, None)"
    and "resolve_request cwd (policy s) h = Inr p" "\<not> read_only (policy s)" "0 \<le> max_read_bytes (policy s)"
    and "c_writeFile C p [] w = (w', Inr ())"
  shows "\<exists>r. fs_dispatch cwd C (s, w) msg = ((s\<lparr>inFlight := inFlight s - 1, totalOps := totalOps s + 1\<rparr>, w'), r)"
proof -
  have "h \<noteq> JNull" "op_is h ''writeFile''" using assms(1) by (auto simp: op_is_def)
  moreover have "\<exists>e. ok_reply [(''reqId'', Some huge_id), (''op'', Some (JStr (js ''writeFile''))), (''size'', Some (JNum 0))] None = Inl e"
  proof -
    let ?h = "JObj (literal [(''ok'', Some (JBool True)), (''reqId'', Some huge_id), (''op'', Some (JStr (js ''writeFile''))), (''size'', Some (JNum 0))])"
    have s: "json_str ?h = js ''{'' @ quote (js ''ok'') @ js '':true,'' @ quote (js ''reqId'') @ js '':'' @ quote (replicate 65491 97) @ js '','' @
        quote (js ''op'') @ js '':'' @ quote (js ''writeFile'') @ js '','' @ quote (js ''size'') @ js '':0}''"
      by (simp add: huge_id_def js_def int_str_def to_radix.simps digit_char_def to_unit_def)
    have q: "length (quote (js ''ok'')) = 4 \<and> length (quote (js ''reqId'')) = 7 \<and> length (quote (js ''op'')) = 4 \<and>
      length (quote (js ''writeFile'')) = 11 \<and> length (quote (js ''size'')) = 6" by code_simp
    have a: "list_all (\<lambda>c. c < 128) (quote (js ''ok'') @ quote (js ''reqId'') @ quote (js ''op'') @ quote (js ''writeFile'') @
       quote (js ''size'') @ js ''{'' @ js '':true,'' @ js '':'' @ js '','' @ js '':0}'')" by code_simp
    have "\<forall>c\<in>set (json_str ?h). c < 128"
      unfolding s quote_huge using a by (auto simp: list_all_iff)
    then have "length (encode_utf8 (json_str ?h)) = length (json_str ?h)" by (rule length_encode_ascii)
    also have "... = 65539" unfolding s quote_huge using q by simp
    finally show ?thesis by (simp add: ok_reply_def encode_def frame_encode_def Let_def max_header_def del: json_str.simps literal.simps)
  qed
  ultimately show ?thesis using assms(2-)
    by (auto simp: fs_dispatch_def Let_def write_request_def check_write_def check_quota_def write_file_def to_ab_def caught_def)
qed

end
