(* ===== verification/Module_Loader.thy ===== *)
theory Module_Loader
  imports Path_Posix Json Errors
begin

text \<open>
  The CommonJS loader, \<open>js/loader.js\<close>, with its rule table \<open>js/internal/module-registry.js\<close>: from a
  request and the module that makes it to a file, and from the file to a module that is executed once.
  The C layer answers \<open>realpath\<close> and \<open>readModuleSource\<close>; the text of a module stands for a script of
  the requires it makes.
\<close>

section \<open>The rule table\<close>

datatype mod_kind = Internal | Builtin

record rule =
  rule_id :: jsstr
  rule_kind :: mod_kind
  fallback :: "jsstr option"
  fallbackDirs :: "jsstr list option"

definition builtin_rule :: "jsstr \<Rightarrow> jsstr option \<Rightarrow> rule" where
  "builtin_rule path fb = \<lparr>rule_id = js ''builtins/'' @ path, rule_kind = Builtin, fallback = fb, fallbackDirs = None\<rparr>"

definition strip_node :: "jsstr \<Rightarrow> jsstr" where
  "strip_node request = (if starts_with request (js ''node:'') then drop 5 request else request)"

definition is_internal :: "jsstr \<Rightarrow> bool" where
  "is_internal r \<longleftrightarrow> starts_with r (js ''internal/'') \<or> starts_with r (js ''js/internal/'')"

definition internal_id :: "jsstr \<Rightarrow> jsstr" where
  "internal_id r = (if starts_with r (js ''internal/'') then r else drop 3 r)"

definition registry_resolve :: "jsstr \<Rightarrow> rule option" where
  "registry_resolve request0 =
     (if request0 = [] then None
      else let nodePrefix = starts_with request0 (js ''node:''); request = strip_node request0 in
        if is_internal request then Some \<lparr>rule_id = internal_id request, rule_kind = Internal, fallback = None, fallbackDirs = None\<rparr>
        else if request \<in> set (map js [''crypto'', ''zlib'', ''http'', ''https'', ''net'', ''tls'', ''child_process''])
        then Some (builtin_rule request None)
        else if request = js ''fs'' \<or> starts_with request (js ''fs/'')
        then Some (builtin_rule (js ''fs/'' @ (if request = js ''fs'' then js ''index'' else drop 3 request)) None)
        else if request = js ''stream'' \<or> starts_with request (js ''stream/'')
        then Some (builtin_rule (js ''stream/'' @ (if request = js ''stream'' then js ''index'' else drop 7 request)) None)
        else if starts_with request (js ''skyjs/'')
        then Some ((builtin_rule request (Some (js ''@skyjs/'' @ drop 6 request)))
               \<lparr>fallbackDirs := Some [js ''packages/'' @ drop 6 request, js ''node_modules/@skyjs/'' @ drop 6 request]\<rparr>)
        else if starts_with request (js ''./'') \<or> starts_with request (js ''../'') \<or> starts_with request [slash] \<or> starts_with request [64]
        then None
        else Some (builtin_rule request (if nodePrefix then None else Some request)))"

definition engine_root :: "jsstr \<Rightarrow> jsstr" where
  "engine_root cwd = resolve cwd [js ''./js'']"

definition is_internal_allowed :: "jsstr \<Rightarrow> jsstr option \<Rightarrow> bool" where
  "is_internal_allowed cwd parent = (case parent of
     None \<Rightarrow> True
   | Some p \<Rightarrow> let rel = relative cwd (engine_root cwd) p
       in rel = js ''bootstrap.js'' \<or> rel = js ''loader.js'' \<or>
          starts_with rel (js ''internal/'') \<or> starts_with rel (js ''builtins/''))"

section \<open>Finding a file\<close>

datatype mod_error =
    InvalidModulePath          \<comment> \<open>thrown by \<open>realpath\<close>\<close>
  | CannotFind jsstr | PermissionDenied jsstr | EmptyRequest | JsonSyntax | PropertyOfNull | NativeFailed | Threw nat

fun mod_code :: "mod_error \<Rightarrow> jsstr option" where
  "mod_code (CannotFind r) = Some (js ''MODULE_NOT_FOUND'')"
| "mod_code (PermissionDenied r) = Some (js ''ERR_PERMISSION'')"
| "mod_code _ = None"

record disk =
  realpath :: "jsstr \<Rightarrow> mod_error + jsstr option"
  module_source :: "jsstr \<Rightarrow> jsstr option"

text \<open>A file that was found: its canonical name, its text, and the package it is the main file of.\<close>

type_synonym package = "jsstr \<times> json"
type_synonym found = "jsstr \<times> jsstr \<times> package option"
type_synonym search = "mod_error + found option"

text \<open>\<open>a || b\<close> for searches that may throw.\<close>

fun or_try :: "search \<Rightarrow> search \<Rightarrow> search" where
  "or_try (Inl e) b = Inl e"
| "or_try (Inr (Some f)) b = Inr (Some f)"
| "or_try (Inr None) b = b"

definition try_file :: "disk \<Rightarrow> jsstr \<Rightarrow> search" where
  "try_file D filename =
     (case realpath D filename of
        Inl e \<Rightarrow> Inl e
      | Inr None \<Rightarrow> Inr None
      | Inr (Some canon) \<Rightarrow> (case module_source D canon of None \<Rightarrow> Inr None | Some text \<Rightarrow> Inr (Some (canon, text, None))))"

definition try_extensions :: "disk \<Rightarrow> jsstr \<Rightarrow> search" where
  "try_extensions D filename =
     or_try (try_file D filename) (or_try (try_file D (filename @ js ''.js'')) (try_file D (filename @ js ''.json'')))"

definition directory_path :: "jsstr \<Rightarrow> jsstr" where
  "directory_path directory =
     (let n = normalize directory in if n = [slash] then [slash] else rev (dropWhile (\<lambda>c. c = slash) (rev n)))"

text \<open>A property of the manifest; \<open>null\<close> has none, and reading one throws.\<close>

fun member :: "json \<Rightarrow> string \<Rightarrow> json option" where
  "member (JObj ps) k = map_of ps (js k)"
| "member _ k = None"

definition main_of :: "json \<Rightarrow> jsstr option" where
  "main_of metadata = (case member metadata ''main'' of Some (JStr s) \<Rightarrow> if s = [] then None else Some s | _ \<Rightarrow> None)"

definition try_index :: "disk \<Rightarrow> jsstr \<Rightarrow> search" where
  "try_index D root = or_try (try_extensions D (join_path [root, js ''index.js''])) (try_extensions D (join_path [root, js ''index.json'']))"

text \<open>The package of a main file: the outermost one that declares \<open>skyjs\<close> is remembered.\<close>

definition with_package :: "jsstr \<Rightarrow> json \<Rightarrow> found \<Rightarrow> found" where
  "with_package root metadata f = (case f of (name, text, info) \<Rightarrow>
     (name, text, if member metadata ''skyjs'' \<noteq> None then Some (root, metadata) else info))"

text \<open>\<open>tryDirectory\<close> follows \<open>main\<close> fields; it may not end, so it has fuel, and \<open>None\<close> is out of fuel.\<close>

fun try_directory :: "nat \<Rightarrow> disk \<Rightarrow> jsstr \<Rightarrow> search option" where
  "try_directory 0 D directory = None"
| "try_directory (Suc n) D directory =
     (case realpath D (directory_path directory) of
        Inl e \<Rightarrow> Some (Inl e)
      | Inr None \<Rightarrow> Some (Inr None)
      | Inr (Some root) \<Rightarrow>
         (case try_file D (join_path [root, js ''package.json'']) of
            Inl e \<Rightarrow> Some (Inl e)
          | Inr None \<Rightarrow> Some (try_index D root)
          | Inr (Some (pf, text, info)) \<Rightarrow>
             (case json_parse text of
                None \<Rightarrow> Some (Inl JsonSyntax)
              | Some metadata \<Rightarrow>
                  if metadata = JNull then Some (Inl PropertyOfNull)
                  else (case main_of metadata of
                     None \<Rightarrow> Some (try_index D root)
                   | Some m \<Rightarrow>
                       let main = join_path [root, m] in
                       (case (case try_extensions D main of
                                Inr None \<Rightarrow> try_directory n D main
                              | r \<Rightarrow> Some r) of
                          None \<Rightarrow> None
                        | Some (Inl e) \<Rightarrow> Some (Inl e)
                        | Some (Inr (Some f)) \<Rightarrow> Some (Inr (Some (with_package root metadata f)))
                        | Some (Inr None) \<Rightarrow> Some (try_index D root))))))"

definition try_path_or_directory :: "nat \<Rightarrow> disk \<Rightarrow> jsstr \<Rightarrow> search option" where
  "try_path_or_directory n D filename =
     (if ends_with filename [slash] then try_directory n D filename
      else (case try_extensions D filename of Inr None \<Rightarrow> try_directory n D filename | r \<Rightarrow> Some r))"

definition try_engine_module :: "disk \<Rightarrow> jsstr \<Rightarrow> search" where
  "try_engine_module D i = or_try (try_file D i) (or_try (try_file D (i @ js ''.js''))
     (or_try (try_file D (i @ js ''/index.js'')) (try_file D (i @ js ''/index.json''))))"

text \<open>The walk of \<open>searchNodeModules\<close> upwards, until \<open>dirname\<close> has a fixed point.\<close>

lemma dirname_shorter:
  "dirname d \<noteq> d \<Longrightarrow> (if dirname d = [dot] then 0 else Suc (length (dirname d))) < (if d = [dot] then 0 else Suc (length d))"
proof (cases rule: path_cases [of d])
  case (slashes n)
  assume ne: "dirname d \<noteq> d"
  show ?thesis
  proof (cases "n = 0")
    case False
    then have "dirname d = [slash]" using slashes dirname_cases(1) [of n] by simp
    then show ?thesis using ne slashes False by (cases n; cases "n - 1") auto
  qed (use slashes in \<open>simp add: dirname_def\<close>)
next
  case (name b n)
  assume ne: "dirname d \<noteq> d"
  then show ?thesis using name dirname_cases(2) [of b n] by auto
next
  case (dir x b n)
  then have "dirname d = (if x = [] then [slash] else if x = [slash] then [slash, slash] else x)"
    using dirname_cases(3) [of b x n] by simp
  then show ?thesis using dir by (cases b) auto
qed

function search_node_modules :: "nat \<Rightarrow> disk \<Rightarrow> jsstr \<Rightarrow> jsstr \<Rightarrow> search option" where
  "search_node_modules n D request directory =
     (case try_path_or_directory n D (join_path [directory, js ''node_modules'', request]) of
        Some (Inr None) \<Rightarrow>
          if dirname directory = directory then Some (Inr None)
          else search_node_modules n D request (dirname directory)
      | r \<Rightarrow> r)"
  by pat_completeness auto
termination
  by (relation "measure (\<lambda>(n, D, request, d). if d = [dot] then 0 else Suc (length d))")
     (use dirname_shorter in auto)

declare search_node_modules.simps [simp del]

text \<open>\<open>base\<close> is the directory of the parent, or the working directory.\<close>

definition base_dir :: "jsstr \<Rightarrow> jsstr option \<Rightarrow> jsstr" where
  "base_dir cwd parent = (case parent of None \<Rightarrow> cwd | Some p \<Rightarrow> dirname p)"

definition resolve_file_request :: "nat \<Rightarrow> disk \<Rightarrow> jsstr \<Rightarrow> jsstr \<Rightarrow> jsstr option \<Rightarrow> (mod_error + found) option" where
  "resolve_file_request n D cwd request parent =
     map_option (\<lambda>r. case r of Inl e \<Rightarrow> Inl e | Inr (Some f) \<Rightarrow> Inr f | Inr None \<Rightarrow> Inl (CannotFind request))
       (if starts_with request [slash] then try_path_or_directory n D (normalize request)
        else if starts_with request (js ''./'') \<or> starts_with request (js ''../'')
        then try_path_or_directory n D (join_path [base_dir cwd parent, request])
        else search_node_modules n D request (base_dir cwd parent))"

text \<open>The fallback directories, in order.\<close>

fun try_dirs :: "nat \<Rightarrow> disk \<Rightarrow> jsstr \<Rightarrow> jsstr list \<Rightarrow> search option" where
  "try_dirs n D cwd [] = Some (Inr None)"
| "try_dirs n D cwd (dir # dirs) =
     (case try_path_or_directory n D (resolve cwd [dir]) of Some (Inr None) \<Rightarrow> try_dirs n D cwd dirs | r \<Rightarrow> r)"

text \<open>\<open>_resolveFilename\<close>; before the registry is in place there are no rules and no checks.\<close>

definition resolve_filename :: "nat \<Rightarrow> disk \<Rightarrow> jsstr \<Rightarrow> bool \<Rightarrow> jsstr \<Rightarrow> jsstr option \<Rightarrow> (mod_error + found) option" where
  "resolve_filename n D cwd registered request parent =
     (if request = [] then Some (Inl EmptyRequest)
      else if is_internal (strip_node request) then
        (if registered \<and> \<not> is_internal_allowed cwd parent then Some (Inl (PermissionDenied request))
         else Some (case try_engine_module D (internal_id (strip_node request)) of
             Inl e \<Rightarrow> Inl e | Inr None \<Rightarrow> Inl (CannotFind request) | Inr (Some f) \<Rightarrow> Inr f))
      else (case (if registered then registry_resolve request else None) of
          None \<Rightarrow> resolve_file_request n D cwd request parent
        | Some rule \<Rightarrow>
            (case try_engine_module D (rule_id rule) of
               Inl e \<Rightarrow> Some (Inl e)
             | Inr (Some f) \<Rightarrow> Some (Inr f)
             | Inr None \<Rightarrow>
                (case try_dirs n D cwd (case fallbackDirs rule of None \<Rightarrow> [] | Some dirs \<Rightarrow> dirs) of
                   None \<Rightarrow> None
                 | Some (Inl e) \<Rightarrow> Some (Inl e)
                 | Some (Inr (Some f)) \<Rightarrow> Some (Inr f)
                 | Some (Inr None) \<Rightarrow> (case fallback rule of
                     None \<Rightarrow> Some (Inl (CannotFind request))
                   | Some fb \<Rightarrow> resolve_file_request n D cwd fb parent)))))"

section \<open>Loading\<close>

text \<open>
  What a module does when its text is run: it requires others, and goes on in a way that may depend on
  whether it got a module that is loaded, one that is still running (in a cycle), or an error, which
  it may catch; at last it returns or throws.
\<close>

datatype script = Return | Throw nat | Require jsstr script script script

record mod_program =
  disk_of :: disk
  script_of :: "jsstr \<Rightarrow> jsstr \<Rightarrow> script"  \<comment> \<open>file name and text\<close>
  native_fails :: "bool \<Rightarrow> jsstr \<Rightarrow> json \<Rightarrow> bool"  \<comment> \<open>\<open>load\<close> of the native loader, a module that is loaded or still running\<close>

text \<open>The cache maps a file name to \<open>loaded\<close>. What happens to the modules is logged.\<close>

datatype load_event = Started jsstr | Finished jsstr | Aborted jsstr

record loader =
  cache :: "jsstr \<Rightarrow> bool option"
  packageInfo :: "jsstr \<Rightarrow> package option"
  registry :: bool
  load_log :: "load_event list"

definition note_event :: "load_event \<Rightarrow> loader \<Rightarrow> loader" where
  "note_event e S = S\<lparr>load_log := load_log S @ [e]\<rparr>"

text \<open>A script, with \<open>ld\<close> for \<open>require\<close>; it returns the error that the module throws, if any.\<close>

fun run_mod_script :: "(jsstr \<Rightarrow> loader \<Rightarrow> (loader \<times> (mod_error + jsstr)) option) \<Rightarrow> script \<Rightarrow> loader \<Rightarrow> (loader \<times> mod_error option) option" where
  "run_mod_script ld Return S = Some (S, None)"
| "run_mod_script ld (Throw n) S = Some (S, Some (Threw n))"
| "run_mod_script ld (Require request a b c) S =
     (case ld request S of
        None \<Rightarrow> None
      | Some (S', Inl e) \<Rightarrow> run_mod_script ld c S'
      | Some (S', Inr f) \<Rightarrow> if cache S' f = Some True then run_mod_script ld a S' else run_mod_script ld b S')"

text \<open>Whether the manifest of a package declares a native part; reading that throws when \<open>skyjs\<close> is \<open>null\<close>.\<close>

definition wants_native :: "json \<Rightarrow> mod_error + bool" where
  "wants_native manifest = (case member manifest ''skyjs'' of
     None \<Rightarrow> Inr False
   | Some sk \<Rightarrow> if sk = JNull then Inl PropertyOfNull else Inr (member sk ''native'' \<noteq> None))"

text \<open>
  The body of a module that is not cached: JSON text is parsed; for a package with a native part the native
  loader is loaded (\<open>nl\<close>), which may fail, and does its work, which may fail too; the script is run.
\<close>

definition run_module :: "(jsstr \<Rightarrow> loader \<Rightarrow> (loader \<times> (mod_error + jsstr)) option) \<Rightarrow>
    (loader \<Rightarrow> (loader \<times> (mod_error + jsstr)) option) \<Rightarrow> mod_program \<Rightarrow> jsstr \<Rightarrow> jsstr \<Rightarrow> loader \<Rightarrow>
    (loader \<times> mod_error option) option" where
  "run_module ld nl P request filename S =
     (case module_source (disk_of P) filename of
        None \<Rightarrow> Some (S, Some (CannotFind request))
      | Some text \<Rightarrow>
          if ends_with filename (js ''.json'')
          then Some (S, if json_parse text = None then Some JsonSyntax else None)
          else (case packageInfo S filename of
              None \<Rightarrow> run_mod_script ld (script_of P filename text) S
            | Some (root, manifest) \<Rightarrow>
                (case wants_native manifest of
                   Inl e \<Rightarrow> Some (S, Some e)
                 | Inr False \<Rightarrow> run_mod_script ld (script_of P filename text) S
                 | Inr True \<Rightarrow>
                    (case nl S of
                       None \<Rightarrow> None
                     | Some (T, Inl e) \<Rightarrow> Some (T, Some e)
                     | Some (T, Inr f) \<Rightarrow>
                        if native_fails P (cache T f = Some True) root manifest then Some (T, Some NativeFailed)
                        else run_mod_script ld (script_of P filename text) T))))"

definition native_loader :: jsstr where
  "native_loader = js ''internal/native-loader.js''"

definition remember :: "found \<Rightarrow> loader \<Rightarrow> loader" where
  "remember f S = (case f of (name, text, info) \<Rightarrow>
     case info of None \<Rightarrow> S | Some p \<Rightarrow> S\<lparr>packageInfo := (packageInfo S)(name \<mapsto> p)\<rparr>)"

text \<open>\<open>Module._load\<close>; the fuel bounds the depth of nested loads, \<open>d\<close> is the fuel of the search.\<close>

fun load_module :: "nat \<Rightarrow> nat \<Rightarrow> mod_program \<Rightarrow> jsstr \<Rightarrow> jsstr option \<Rightarrow> jsstr \<Rightarrow> loader \<Rightarrow> (loader \<times> (mod_error + jsstr)) option" where
  "load_module 0 d P cwd parent request S = None"
| "load_module (Suc n) d P cwd parent request S =
     (case resolve_filename d (disk_of P) cwd (registry S) request parent of
        None \<Rightarrow> None
      | Some (Inl e) \<Rightarrow> Some (S, Inl e)
      | Some (Inr f) \<Rightarrow>
          let filename = fst f; S1 = remember f S in
          if cache S1 filename \<noteq> None then Some (S1, Inr filename)
          else (let S2 = note_event (Started filename) (S1\<lparr>cache := (cache S1)(filename \<mapsto> False)\<rparr>) in
            case run_module (load_module n d P cwd (Some filename)) (load_module n d P cwd None native_loader) P request filename S2 of
              None \<Rightarrow> None
            | Some (S3, None) \<Rightarrow> Some (note_event (Finished filename) (S3\<lparr>cache := (cache S3)(filename \<mapsto> True)\<rparr>), Inr filename)
            | Some (S3, Some e) \<Rightarrow> Some (note_event (Aborted filename) (S3\<lparr>cache := (cache S3)(filename := None)\<rparr>), Inl e)))"

definition run_main :: "nat \<Rightarrow> nat \<Rightarrow> mod_program \<Rightarrow> jsstr \<Rightarrow> jsstr \<Rightarrow> loader \<Rightarrow> (loader \<times> (mod_error + jsstr)) option" where
  "run_main n d P cwd entry S = load_module n d P cwd None (resolve cwd [entry]) S"

section \<open>The log explains the cache\<close>

text \<open>A module may start only when it is neither running nor loaded, and ends only when it runs.\<close>

fun replay :: "(jsstr \<Rightarrow> bool option) option \<Rightarrow> load_event \<Rightarrow> (jsstr \<Rightarrow> bool option) option" where
  "replay None e = None"
| "replay (Some c) (Started f) = (if c f = None then Some (c(f \<mapsto> False)) else None)"
| "replay (Some c) (Finished f) = (if c f = Some False then Some (c(f \<mapsto> True)) else None)"
| "replay (Some c) (Aborted f) = (if c f = Some False then Some (c(f := None)) else None)"

definition explained :: "loader \<Rightarrow> bool" where
  "explained S \<longleftrightarrow> foldl replay (Some (\<lambda>_. None)) (load_log S) = Some (cache S)"

text \<open>What a load leaves as it is: modules that run or are loaded stay what they are.\<close>

definition grows :: "loader \<Rightarrow> loader \<Rightarrow> bool" where
  "grows S S' \<longleftrightarrow> explained S' \<and> registry S' = registry S \<and> (\<forall>f. cache S f \<noteq> None \<longrightarrow> cache S' f = cache S f)"

lemma grows_refl: "explained S \<Longrightarrow> grows S S"
  by (simp add: grows_def)

lemma grows_trans: "grows S T \<Longrightarrow> grows T U \<Longrightarrow> grows S U"
  unfolding grows_def by metis

lemma remember_fields [simp]: "cache (remember f S) = cache S" "load_log (remember f S) = load_log S" "registry (remember f S) = registry S"
  by (simp_all add: remember_def split: prod.split option.split)

lemma run_mod_script_grows:
  assumes "\<And>request S S' r. explained S \<Longrightarrow> ld request S = Some (S', r) \<Longrightarrow> grows S S'"
  shows "explained S \<Longrightarrow> run_mod_script ld s S = Some (S', e) \<Longrightarrow> grows S S'"
proof (induction s arbitrary: S)
  case (Require request a b c)
  obtain T r where l: "ld request S = Some (T, r)" using Require.prems(2) by (auto split: option.splits)
  have g: "grows S T" by (rule assms [OF Require.prems(1) l])
  then have "explained T" by (simp add: grows_def)
  then have "grows T S'" using Require l by (cases r) (auto split: if_splits)
  then show ?case by (rule grows_trans [OF g])
qed (auto intro: grows_refl)

lemma run_module_grows:
  assumes ld: "\<And>request S S' r. explained S \<Longrightarrow> ld request S = Some (S', r) \<Longrightarrow> grows S S'"
    and nl: "\<And>S S' r. explained S \<Longrightarrow> nl S = Some (S', r) \<Longrightarrow> grows S S'"
    and S: "explained S" "run_module ld nl P request filename S = Some (S', e)"
  shows "grows S S'"
proof -
  have script: "grows S U" if "run_mod_script ld s S = Some (U, x)" for s U x
    using run_mod_script_grows [OF ld S(1) that] by simp
  have native: "grows S U" if "nl S = Some (T, y)" "run_mod_script ld s T = Some (U, x)" for s T y U x
  proof (rule grows_trans)
    show g: "grows S T" by (rule nl [OF S(1) that(1)])
    then show "grows T U" using run_mod_script_grows [OF ld _ that(2)] by (simp add: grows_def)
  qed
  show ?thesis
    using S(2) grows_refl [OF S(1)] script native nl [OF S(1)]
    by (auto simp: run_module_def split: option.splits if_splits sum.splits bool.splits)
qed

lemma load_grows: "explained S \<Longrightarrow> load_module n d P cwd parent request S = Some (S', r) \<Longrightarrow> grows S S'"
proof (induction n arbitrary: parent request S S' r)
  case (Suc n)
  show ?case
  proof (cases "resolve_filename d (disk_of P) cwd (registry S) request parent")
    case (Some q)
    show ?thesis
    proof (cases q)
      case (Inl e)
      then show ?thesis using Suc.prems Some by (simp add: grows_refl)
    next
      case (Inr f)
      define S1 where "S1 = remember f S"
      have e1: "explained S1" using Suc.prems(1) by (simp add: explained_def S1_def)
      show ?thesis
      proof (cases "cache S1 (fst f) = None")
        case False
        then show ?thesis using Suc.prems Some Inr e1 by (auto simp: Let_def S1_def grows_def)
      next
        case True
        define S2 where "S2 = note_event (Started (fst f)) (S1\<lparr>cache := (cache S1)(fst f \<mapsto> False)\<rparr>)"
        have e2: "explained S2" using e1 True by (simp add: explained_def S2_def note_event_def)
        obtain S3 e where m: "run_module (load_module n d P cwd (Some (fst f))) (load_module n d P cwd None native_loader) P request (fst f) S2 = Some (S3, e)"
          and S': "S' = (case e of None \<Rightarrow> note_event (Finished (fst f)) (S3\<lparr>cache := (cache S3)(fst f \<mapsto> True)\<rparr>)
             | Some x \<Rightarrow> note_event (Aborted (fst f)) (S3\<lparr>cache := (cache S3)(fst f := None)\<rparr>))"
          using Suc.prems(2) Some Inr True by (auto simp: Let_def S1_def [symmetric] S2_def [symmetric] split: option.splits)
        have "grows S2 S3"
          by (rule run_module_grows [OF _ _ e2 m]) (rule Suc.IH, assumption+)+
        moreover have "cache S2 (fst f) = Some False" by (simp add: S2_def note_event_def)
        ultimately have 3: "explained S3" "cache S3 (fst f) = Some False" "registry S3 = registry S2"
            and g: "\<And>g. cache S2 g \<noteq> None \<Longrightarrow> cache S3 g = cache S2 g"
          unfolding grows_def by auto
        have "cache S' g = cache S g" if "cache S g \<noteq> None" for g
        proof -
          have ne: "g \<noteq> fst f" using that True by (auto simp: S1_def)
          then have "cache S2 g = cache S g" by (simp add: S2_def S1_def note_event_def)
          then show ?thesis using g [of g] that ne by (simp add: S' note_event_def split: option.split)
        qed
        moreover have "explained S'" "registry S' = registry S" using 3
          by (simp_all add: S' explained_def note_event_def S2_def S1_def split: option.split)
        ultimately show ?thesis by (simp add: grows_def)
      qed
    qed
  qed (use Suc.prems in simp)
qed simp

text \<open>C30. A module runs at most once at a time and is not run again once it is loaded: in every run of
  the loader, from the empty cache, with cycles and with modules that throw (caught or not), the log of
  starts and ends is such that a module starts only when it is neither running nor loaded, and the cache
  is exactly what the log says: a module that threw is gone from it.\<close>

theorem modules_run_once:
  assumes "load_module n d P cwd parent request \<lparr>cache = (\<lambda>_. None), packageInfo = (\<lambda>_. None), registry = r, load_log = []\<rparr> = Some (S, res)"
  shows "foldl replay (Some (\<lambda>_. None)) (load_log S) = Some (cache S)"
  using load_grows [OF _ assms] by (simp add: grows_def explained_def)

section \<open>Loading ends\<close>

lemma run_mod_script_returns:
  assumes "\<And>request T. grows S T \<Longrightarrow> ld request T \<noteq> None"
    and "\<And>request T T' r. explained T \<Longrightarrow> ld request T = Some (T', r) \<Longrightarrow> grows T T'"
  shows "grows S T \<Longrightarrow> run_mod_script ld s T \<noteq> None"
proof (induction s arbitrary: T)
  case (Require request a b c)
  obtain T' r where l: "ld request T = Some (T', r)" using assms(1) [OF Require.prems, of request] by auto
  have "explained T" using Require.prems by (simp add: grows_def)
  then have "grows S T'" using grows_trans [OF Require.prems] assms(2) [OF _ l] by blast
  then show ?case using Require.IH l by (auto split: sum.split)
qed simp_all

lemma run_module_returns:
  assumes ld: "\<And>request T. grows S T \<Longrightarrow> ld request T \<noteq> None"
      "\<And>request T T' r. explained T \<Longrightarrow> ld request T = Some (T', r) \<Longrightarrow> grows T T'"
    and nl: "nl S \<noteq> None" "\<And>T' r. nl S = Some (T', r) \<Longrightarrow> grows S T'"
    and "explained S"
  shows "run_module ld nl P request filename S \<noteq> None"
proof -
  have script: "run_mod_script ld s S \<noteq> None" for s
    by (rule run_mod_script_returns [of S, OF ld grows_refl [OF assms(5)]])
  have native: "run_mod_script ld s T \<noteq> None" if "nl S = Some (T, y)" for s T y
    by (rule run_mod_script_returns [of S, OF ld nl(2) [OF that]])
  show ?thesis
    using script native nl(1) by (auto simp: run_module_def split: option.split sum.split bool.split)
qed

text \<open>What a search finds is a file of the disk.\<close>

definition disk_file :: "disk \<Rightarrow> jsstr \<Rightarrow> bool" where
  "disk_file D c \<longleftrightarrow> (\<exists>p. realpath D p = Inr (Some c)) \<and> module_source D c \<noteq> None"

lemma try_file_found: "try_file D p = Inr (Some f) \<Longrightarrow> disk_file D (fst f)"
  by (auto simp: try_file_def disk_file_def split: sum.splits option.splits)

lemma or_try_found: "or_try a b = Inr (Some f) \<Longrightarrow> a = Inr (Some f) \<or> b = Inr (Some f)"
  by (cases "(a, b)" rule: or_try.cases) auto

lemma try_extensions_found: "try_extensions D p = Inr (Some f) \<Longrightarrow> disk_file D (fst f)"
  by (auto simp: try_extensions_def dest!: or_try_found intro: try_file_found)

lemma try_index_found: "try_index D p = Inr (Some f) \<Longrightarrow> disk_file D (fst f)"
  by (auto simp: try_index_def dest!: or_try_found intro: try_extensions_found)

lemma try_engine_found: "try_engine_module D i = Inr (Some f) \<Longrightarrow> disk_file D (fst f)"
  by (auto simp: try_engine_module_def dest!: or_try_found intro: try_file_found)

lemma try_directory_found: "try_directory n D p = Some (Inr (Some f)) \<Longrightarrow> disk_file D (fst f)"
proof (induction n D p arbitrary: f rule: try_directory.induct)
  case (2 n D p)
  then show ?case
    by (auto simp: with_package_def Let_def split: sum.splits option.splits prod.splits if_splits
        dest: try_index_found try_extensions_found)
qed simp

lemma try_path_found: "try_path_or_directory n D p = Some (Inr (Some f)) \<Longrightarrow> disk_file D (fst f)"
  by (auto simp: try_path_or_directory_def split: sum.splits option.splits if_splits
      dest: try_directory_found try_extensions_found)

lemma search_found: "search_node_modules n D r dir = Some (Inr (Some f)) \<Longrightarrow> disk_file D (fst f)"
proof (induction n D r dir rule: search_node_modules.induct)
  case (1 n D r dir)
  then show ?case
    by (subst (asm) (2) search_node_modules.simps) (auto split: option.splits sum.splits if_splits dest: try_path_found)
qed

lemma try_dirs_found: "try_dirs n D cwd dirs = Some (Inr (Some f)) \<Longrightarrow> disk_file D (fst f)"
  by (induction dirs) (auto split: option.splits sum.splits dest: try_path_found)

lemma file_request_found: "resolve_file_request n D cwd r parent = Some (Inr f) \<Longrightarrow> disk_file D (fst f)"
proof -
  assume "resolve_file_request n D cwd r parent = Some (Inr f)"
  then obtain q where q: "(if starts_with r [slash] then try_path_or_directory n D (normalize r)
        else if starts_with r (js ''./'') \<or> starts_with r (js ''../'')
        then try_path_or_directory n D (join_path [base_dir cwd parent, r])
        else search_node_modules n D r (base_dir cwd parent)) = Some q"
    "(case q of Inl e \<Rightarrow> Inl e | Inr (Some f) \<Rightarrow> Inr f | Inr None \<Rightarrow> Inl (CannotFind r)) = Inr f"
    unfolding resolve_file_request_def map_option_eq_Some by blast
  then have "q = Inr (Some f)" by (simp split: sum.splits option.splits)
  then show ?thesis using q(1) try_path_found search_found by (simp split: if_splits)
qed

lemma resolve_found: "resolve_filename n D cwd reg r parent = Some (Inr f) \<Longrightarrow> disk_file D (fst f)"
  by (auto simp: resolve_filename_def split: if_splits sum.splits option.splits
      dest: try_engine_found try_dirs_found file_request_found)

text \<open>
  The search for the main file of a package goes on in the directory that \<open>main\<close> names when there is no such
  file: to the package there, if there is one, and so on. \<open>main_root\<close> is the next directory.
\<close>

definition main_root :: "disk \<Rightarrow> jsstr \<Rightarrow> jsstr option" where
  "main_root D root =
     (case try_file D (join_path [root, js ''package.json'']) of
        Inr (Some (pf, text, info)) \<Rightarrow>
          (case json_parse text of
             None \<Rightarrow> None
           | Some metadata \<Rightarrow>
               if metadata = JNull then None
               else (case main_of metadata of
                  None \<Rightarrow> None
                | Some m \<Rightarrow>
                    (case try_extensions D (join_path [root, m]) of
                       Inr None \<Rightarrow> (case realpath D (directory_path (join_path [root, m])) of Inr (Some r) \<Rightarrow> Some r | _ \<Rightarrow> None)
                     | _ \<Rightarrow> None)))
      | _ \<Rightarrow> None)"

definition main_step :: "disk \<Rightarrow> (jsstr \<times> jsstr) set" where
  "main_step D = {(root, r2). (\<exists>p. realpath D p = Inr (Some root)) \<and> main_root D root = Some r2}"

definition main_chain :: "disk \<Rightarrow> jsstr \<Rightarrow> jsstr set" where
  "main_chain D root = {r. (root, r) \<in> (main_step D)\<^sup>*}"

lemma main_chain_finite: "finite (main_step D) \<Longrightarrow> finite (main_chain D root) \<and> card (main_chain D root) \<le> card (main_step D) + 1"
proof -
  assume f: "finite (main_step D)"
  have sub: "main_chain D root \<subseteq> insert root (snd ` main_step D)"
  proof
    fix r assume "r \<in> main_chain D root"
    then have "(root, r) \<in> (main_step D)\<^sup>*" by (simp add: main_chain_def)
    then show "r \<in> insert root (snd ` main_step D)" by (cases rule: rtranclE) (auto intro: rev_image_eqI)
  qed
  moreover have "card (insert root (snd ` main_step D)) \<le> card (main_step D) + 1"
    using card_image_le [OF f, of snd] by (simp add: card_insert_if f)
  ultimately show ?thesis using f by (meson card_mono finite_imageI finite_insert finite_subset le_trans)
qed

lemma main_chain_shrinks:
  assumes "finite (main_step D)" "acyclic (main_step D)" "main_root D root = Some r" "realpath D p = Inr (Some root)"
  shows "card (main_chain D r) < card (main_chain D root)"
proof (rule psubset_card_mono)
  have st: "(root, r) \<in> main_step D" using assms(3,4) by (auto simp: main_step_def)
  have "root \<notin> main_chain D r" using assms(2) st unfolding acyclic_def main_chain_def by (auto dest: rtrancl_into_trancl2)
  moreover have "root \<in> main_chain D root" by (simp add: main_chain_def)
  moreover have "main_chain D r \<subseteq> main_chain D root" using st by (auto simp: main_chain_def intro: converse_rtrancl_into_rtrancl)
  ultimately show "main_chain D r \<subset> main_chain D root" by blast
qed (use main_chain_finite [OF assms(1)] in blast)

text \<open>The search of a directory goes no deeper than the chain of packages, and ends when no package's leads back.\<close>

lemma directory_ends:
  assumes f: "finite (main_step D)" "acyclic (main_step D)"
  shows "(\<And>root. realpath D (directory_path p) = Inr (Some root) \<Longrightarrow> card (main_chain D root) \<le> n) \<Longrightarrow> try_directory (Suc n) D p \<noteq> None"
proof (induction n arbitrary: p)
  case 0
  have "\<not> realpath D (directory_path p) = Inr (Some root)" for root
  proof
    assume r: "realpath D (directory_path p) = Inr (Some root)"
    have "root \<in> main_chain D root" by (simp add: main_chain_def)
    then have "card (main_chain D root) > 0" using main_chain_finite [OF f(1)] by (auto simp: card_gt_0_iff)
    then show False using 0 [OF r] by simp
  qed
  then show ?case by (auto split: sum.split option.split)
next
  case (Suc n)
  have deeper: "try_directory (Suc n) D (join_path [root, m]) \<noteq> None"
    if r: "realpath D (directory_path p) = Inr (Some root)"
      and pk: "try_file D (join_path [root, js ''package.json'']) = Inr (Some (pf, t, info))"
        "json_parse t = Some metadata" "metadata \<noteq> JNull" "main_of metadata = Some m"
        "try_extensions D (join_path [root, m]) = Inr None" for root pf t info metadata m
  proof (rule Suc.IH)
    fix r2 assume n: "realpath D (directory_path (join_path [root, m])) = Inr (Some r2)"
    have "main_root D root = Some r2" using pk n by (simp add: main_root_def)
    from main_chain_shrinks [OF f this r] show "card (main_chain D r2) \<le> n" using Suc.prems [OF r] by simp
  qed
  show ?case
    by (subst try_directory.simps)
       (auto simp: Let_def deeper simp del: try_directory.simps split: sum.split option.split)
qed

lemma node_modules_ends: "(\<And>p. try_path_or_directory n D p \<noteq> None) \<Longrightarrow> search_node_modules n D r dir \<noteq> None"
proof (induction n D r dir rule: search_node_modules.induct)
  case (1 n D r dir)
  obtain q where q: "try_path_or_directory n D (join_path [dir, js ''node_modules'', r]) = Some q"
    using 1(2) [of "join_path [dir, js ''node_modules'', r]"] by auto
  have "search_node_modules n D r (dirname dir) \<noteq> None" if "q = Inr None" "dirname dir \<noteq> dir"
    using "1.IH" q that "1.prems" by simp
  then show ?case using q by (subst search_node_modules.simps) (auto split: option.split sum.split)
qed

lemma search_ends:
  assumes f: "finite (main_step D)" "acyclic (main_step D)" "card (main_step D) + 1 < d"
  shows "resolve_filename d D cwd reg request parent \<noteq> None"
proof -
  obtain n where n: "d = Suc n" "card (main_step D) + 1 \<le> n" using f(3) by (cases d) auto
  have dir: "try_directory d D p \<noteq> None" for p
    unfolding n(1) by (rule directory_ends [OF f(1,2)]) (use main_chain_finite [OF f(1)] n(2) le_trans in blast)
  have t: "try_path_or_directory d D p \<noteq> None" for p
    using dir [of p] by (auto simp: try_path_or_directory_def simp del: try_directory.simps split: sum.split option.split)
  have s: "search_node_modules d D r dir \<noteq> None" for r dir by (rule node_modules_ends [OF t])
  have fd: "try_dirs d D cwd dirs \<noteq> None" for dirs
    by (induction dirs) (use t in \<open>auto split: option.split sum.split\<close>)
  have fr: "resolve_file_request d D cwd r parent \<noteq> None" for r
    using t s by (simp add: resolve_file_request_def)
  have fr': "\<exists>y. resolve_file_request d D cwd r parent = Some y" for r using fr by auto
  show ?thesis by (simp add: resolve_filename_def fr fr' fd split: option.split sum.split)
qed

text \<open>C6. Loading ends, cycles of requires included. On a disk with finitely many files and package manifests,
  where following the \<open>main\<close> fields that name directories never leads from a package back to it, a load
  returns (a module or an error), for any scripts, with packages whose native part makes the loader load
  another module in between, and with modules that throw. The nesting is at most one more than the number of
  files that are not in the cache, and the search for a file goes through at most one directory
  more than there are such \<open>main\<close> fields. The condition on them is not only sufficient: \<open>main_cycle_diverges\<close>.\<close>

theorem load_returns:
  assumes "finite {c. disk_file (disk_of P) c}"
    and "finite (main_step (disk_of P))" "acyclic (main_step (disk_of P))" "card (main_step (disk_of P)) + 1 < d"
    and "explained S" "card ({c. disk_file (disk_of P) c} - dom (cache S)) < n"
  shows "load_module n d P cwd parent request S \<noteq> None"
  using assms(5,6)
proof (induction n arbitrary: parent request S)
  case (Suc n)
  let ?F = "{c. disk_file (disk_of P) c}"
  obtain q where q: "resolve_filename d (disk_of P) cwd (registry S) request parent = Some q"
    using search_ends [OF assms(2-4)] by blast
  show ?case
  proof (cases q)
    case (Inr f)
    define S1 where "S1 = remember f S"
    have e1: "explained S1" using Suc.prems(1) by (simp add: explained_def S1_def)
    show ?thesis
    proof (cases "cache S1 (fst f) = None")
      case True
      define S2 where "S2 = note_event (Started (fst f)) (S1\<lparr>cache := (cache S1)(fst f \<mapsto> False)\<rparr>)"
      have e2: "explained S2" using e1 True by (simp add: explained_def S2_def note_event_def)
      have f: "fst f \<in> ?F" "fst f \<notin> dom (cache S)" using resolve_found q Inr True by (auto simp: S1_def)
      have ld: "load_module n d P cwd par req T \<noteq> None" if "grows S2 T" for T par req
      proof (rule Suc.IH)
        show "explained T" using that by (simp add: grows_def)
        have "dom (cache S2) = insert (fst f) (dom (cache S))" by (auto simp: S2_def S1_def note_event_def)
        moreover have "dom (cache S2) \<subseteq> dom (cache T)"
        proof
          fix g assume "g \<in> dom (cache S2)"
          then show "g \<in> dom (cache T)" using that unfolding grows_def by (metis domD domI option.distinct(1))
        qed
        ultimately have "?F - dom (cache T) \<subset> ?F - dom (cache S)" using f by auto
        then have "card (?F - dom (cache T)) < card (?F - dom (cache S))"
          by (rule psubset_card_mono [OF finite_Diff [OF assms(1)]])
        then show "card (?F - dom (cache T)) < n" using Suc.prems(2) by linarith
      qed
      have "run_module (load_module n d P cwd (Some (fst f))) (load_module n d P cwd None native_loader) P request (fst f) S2 \<noteq> None"
      proof (rule run_module_returns [where S = S2])
        show "load_module n d P cwd None native_loader S2 \<noteq> None" by (rule ld [OF grows_refl [OF e2]])
      qed (use ld load_grows e2 in blast)+
      then show ?thesis using q Inr True by (auto simp: Let_def S1_def [symmetric] S2_def [symmetric] split: option.split)
    qed (use q Inr in \<open>simp add: Let_def S1_def\<close>)
  qed (use q in simp)
qed simp

text \<open>
  A package whose \<open>main\<close> leads back to it, directly, such as \<open>"."\<close> or \<open>"./"\<close>, or over other packages, makes
  \<open>tryDirectory\<close> call itself for ever.
\<close>

lemma main_root_next:
  assumes "realpath D (directory_path p) = Inr (Some root)" "main_root D root = Some r2"
  shows "\<exists>q. realpath D (directory_path q) = Inr (Some r2) \<and> (try_directory n D q = None \<longrightarrow> try_directory (Suc n) D p = None)"
  using assms
  by (auto simp: main_root_def split: sum.splits option.splits if_splits
      intro!: exI [of _ "join_path [root, m]" for m])

lemma main_cycle_diverges:
  assumes "(root, root) \<in> (main_step D)\<^sup>+" "realpath D (directory_path p) = Inr (Some root)"
  shows "try_directory n D p = None"
proof -
  have "\<forall>r p. (r, root) \<in> (main_step D)\<^sup>* \<longrightarrow> realpath D (directory_path p) = Inr (Some r) \<longrightarrow> try_directory n D p = None"
  proof (induction n)
    case (Suc n)
    show ?case
    proof (intro allI impI)
      fix r p assume r: "(r, root) \<in> (main_step D)\<^sup>*" and p: "realpath D (directory_path p) = Inr (Some r)"
      then have "(r, root) \<in> (main_step D)\<^sup>+" using assms(1) by (rule_tac rtrancl_trancl_trancl)
      then obtain r2 where nx: "main_root D r = Some r2" "(r2, root) \<in> (main_step D)\<^sup>*"
        by (auto simp: main_step_def dest!: tranclD)
      show "try_directory (Suc n) D p = None"
        using main_root_next [OF p nx(1), of n] Suc.IH [rule_format, OF nx(2)] by auto
    qed
  qed simp
  then show ?thesis using assms(2) by blast
qed

lemma main_loop_diverges:
  assumes "realpath D (directory_path root) = Inr (Some root)"
    and "try_file D (join_path [root, js ''package.json'']) = Inr (Some (pf, text, info))"
    and "json_parse text = Some metadata" "metadata \<noteq> JNull" "main_of metadata = Some m"
    and "join_path [root, m] = root" "try_extensions D root = Inr None"
  shows "try_directory n D root = None"
proof (rule main_cycle_diverges [OF _ assms(1)])
  show "(root, root) \<in> (main_step D)\<^sup>+"
    using assms by (intro r_into_trancl) (auto simp: main_step_def main_root_def)
qed

lemma main_dot: "join_path [js ''/srv/node_modules/p'', js ''.''] = js ''/srv/node_modules/p''"
  by code_simp

section \<open>Who may load internal modules\<close>

lemma join_starts_with:
  assumes "\<forall>p\<in>set ps. p \<noteq> [] \<and> slash \<notin> set p" "slash \<notin> set name" "name \<noteq> []"
  shows "starts_with (join_with [slash] ps) (name @ [slash]) \<longleftrightarrow> (\<exists>x xs. ps = name # x # xs)"
proof
  assume "starts_with (join_with [slash] ps) (name @ [slash])"
  then obtain t where t: "join_with [slash] ps = name @ slash # t" by (auto simp: starts_with_prefix prefix_def)
  then have "ps \<noteq> []" by auto
  then have "ps = split_on slash (join_with [slash] ps)" using assms(1) by (simp add: split_on_join)
  also have "... = name # split_on slash t" using assms(2) by (simp add: t split_on_none)
  finally show "\<exists>x xs. ps = name # x # xs" by (cases "split_on slash t") auto
next
  assume "\<exists>x xs. ps = name # x # xs"
  then show "starts_with (join_with [slash] ps) (name @ [slash])" by (auto simp: starts_with_prefix)
qed

lemma join_eq_single:
  assumes "\<forall>p\<in>set ps. p \<noteq> [] \<and> slash \<notin> set p" "slash \<notin> set name" "name \<noteq> []"
  shows "join_with [slash] ps = name \<longleftrightarrow> ps = [name]"
proof
  assume j: "join_with [slash] ps = name"
  then have "ps \<noteq> []" using assms(3) by auto
  then have "ps = split_on slash name" using assms(1) j split_on_join [of ps slash] by simp
  then show "ps = [name]" using assms(2) by (simp add: split_on_none)
qed simp

lemma up_down_below:
  assumes "hd ns \<noteq> [dot, dot]" "ns \<noteq> []"
  shows "up_down F T = ns \<longleftrightarrow> T = F @ ns"
proof
  assume u: "up_down F T = ns"
  have "length F - common_prefix F T = 0"
    using u assms by (cases "length F - common_prefix F T") (auto simp: up_down_def)
  then have "take (common_prefix F T) F = F" "drop (common_prefix F T) T = ns" using u by (simp_all add: up_down_def)
  then show "T = F @ ns" using common_prefix_take(1) [of F T] append_take_drop_id [of "common_prefix F T" T] by simp
next
  assume "T = F @ ns"
  moreover have "common_prefix F (F @ ns) = length F" by (induction F) simp_all
  ultimately show "up_down F T = ns" by (simp add: up_down_def)
qed

lemma engine_parts: "good_part (js ''internal'')" "good_part (js ''builtins'')" "good_part (js ''bootstrap.js'')" "good_part (js ''loader.js'')"
  by (simp_all add: good_part_def js_def)

lemma engine_root_form:
  assumes cwd: "starts_with cwd [slash]"
  obtains F where "normal_form True F" "split_path (engine_root cwd) = F"
    "resolve cwd [engine_root cwd] = render True F False"
proof -
  obtain F where F: "normal_form True F" "engine_root cwd = render True F False"
    using resolve_canonical [OF cwd, of "[js ''./js'']"] by (auto simp: canonical_render engine_root_def)
  then have sp: "split_path (engine_root cwd) = F"
    using split_on_render(1) [OF F(1), of False] by simp
  have "starts_with (engine_root cwd) [slash]" by (simp add: F(2) render_def starts_with_def)
  then have "resolve cwd [engine_root cwd] = resolve (engine_root cwd) []" by (simp add: resolve_def)
  also have "... = render True (split_path (engine_root cwd)) False"
    using resolve_absolute [of "engine_root cwd" "[]"] by (simp add: F(2) render_def starts_with_def)
  finally show thesis using that F(1) sp by simp
qed

text \<open>The check of the parent, \<open>isInternalAllowed\<close>: a module passes when it is part of the engine.\<close>

definition part_of_engine :: "jsstr \<Rightarrow> jsstr option \<Rightarrow> bool" where
  "part_of_engine cwd parent \<longleftrightarrow> (case parent of None \<Rightarrow> True | Some p \<Rightarrow>
     \<exists>rest. split_path (resolve cwd [p]) = split_path (engine_root cwd) @ rest \<and>
       (rest = [js ''bootstrap.js''] \<or> rest = [js ''loader.js''] \<or>
        (\<exists>dir\<in>{js ''internal'', js ''builtins''}. \<exists>x xs. rest = dir # x # xs)))"

lemma internal_allowed_iff:
  assumes cwd: "starts_with cwd [slash]"
  shows "is_internal_allowed cwd parent \<longleftrightarrow> part_of_engine cwd parent"
proof (cases parent)
  case (Some p)
  obtain F where F: "normal_form True F" "split_path (engine_root cwd) = F"
      "resolve cwd [engine_root cwd] = render True F False"
    by (rule engine_root_form [OF cwd])
  obtain T where T: "normal_form True T" "resolve cwd [p] = render True T False"
    using resolve_canonical [OF cwd, of "[p]"] by (auto simp: canonical_render)
  have sp: "split_path (engine_root cwd) = F" "split_path (resolve cwd [p]) = T" and er: "resolve cwd [engine_root cwd] = render True F False"
    using split_on_render(1) [OF T(1), of False] F T(2) by simp_all
  let ?rel = "relative cwd (engine_root cwd) p"
  have names: "slash \<notin> set (js n) \<and> js n \<noteq> [] \<and> js n \<noteq> [dot, dot]" if "n \<in> {''internal'', ''builtins'', ''bootstrap.js'', ''loader.js''}" for n
    using that by (auto simp: js_def)
  have slashes: "js ''internal/'' = js ''internal'' @ [slash]" "js ''builtins/'' = js ''builtins'' @ [slash]" by code_simp+
  show ?thesis
  proof (cases "F = T")
    case True
    then have "?rel = []" using er T by (simp add: relative_def)
    then show ?thesis using True Some by (simp add: is_internal_allowed_def part_of_engine_def sp starts_with_def js_def)
  next
    case False
    then have ne: "render True F False \<noteq> render True T False"
      using split_on_render(1) [OF F(1), of False] split_on_render(1) [OF T(1), of False] by auto
    have rel: "?rel = join_with [slash] (up_down F T)" by (rule relative_up_down [OF F(1) T(1) ne er T(2)])
    note seg = up_down_path(2) [OF T(1) False]
    have one: "?rel = js n \<longleftrightarrow> T = F @ [js n]" if "n \<in> {''bootstrap.js'', ''loader.js''}" for n
      using join_eq_single [OF seg, of "js n"] up_down_below [of "[js n]" F T] names [of n] that by (auto simp: rel)
    have below: "starts_with ?rel (js n @ [slash]) \<longleftrightarrow> (\<exists>x xs. T = F @ js n # x # xs)" if "n \<in> {''internal'', ''builtins''}" for n
    proof -
      have "up_down F T = js n # x # xs \<longleftrightarrow> T = F @ js n # x # xs" for x xs
        using up_down_below [of "js n # x # xs" F T] names [of n] that by auto
      moreover have "slash \<notin> set (js n)" "js n \<noteq> []" using names [of n] that by auto
      ultimately show ?thesis using join_starts_with [OF seg, of "js n"] by (simp add: rel)
    qed
    show ?thesis
      using one [of "''bootstrap.js''"] one [of "''loader.js''"] below [of "''internal''"] below [of "''builtins''"]
      by (simp add: Some is_internal_allowed_def part_of_engine_def sp slashes) blast
  qed
qed (simp add: is_internal_allowed_def part_of_engine_def)

text \<open>C31. What a request by the name of an internal module gets (\<open>internal/x\<close> or \<open>js/internal/x\<close>, with or without
  \<open>node:\<close>), once the registry is in place. It is refused exactly when the module that makes it is not part
  of the engine: the path of that module, resolved, is the engine's directory followed by \<open>bootstrap.js\<close> or
  \<open>loader.js\<close>, or by \<open>internal\<close> or \<open>builtins\<close> and something below, however it is spelled; a directory whose
  name only begins like one of these does not count, and a request without a parent, the engine's own, is never
  refused. A request that is not refused finds a file of the engine's module of that name, or none; the search
  of packages and of directories takes no part in it. This is about names only: the same file asked for by its
  path is an ordinary request, which nobody is refused (\<open>internal_by_path\<close>).\<close>

theorem internal_requests_guarded:
  assumes "starts_with cwd [slash]" "is_internal (strip_node request)"
  shows "resolve_filename n D cwd True request parent =
    (if part_of_engine cwd parent
     then Some (case try_engine_module D (internal_id (strip_node request)) of
         Inl e \<Rightarrow> Inl e | Inr None \<Rightarrow> Inl (CannotFind request) | Inr (Some f) \<Rightarrow> Inr f)
     else Some (Inl (PermissionDenied request)))"
proof -
  have "request \<noteq> []" using assms(2) by (auto simp: is_internal_def strip_node_def starts_with_def js_def)
  then show ?thesis using assms by (simp add: resolve_filename_def internal_allowed_iff)
qed

section \<open>The order of the search\<close>

lemma dirname_snoc:
  assumes "\<forall>x\<in>set (ps @ [p]). x \<noteq> [] \<and> slash \<notin> set x"
  shows "dirname (slash # join_with [slash] (ps @ [p])) = slash # join_with [slash] ps"
proof (cases "ps = []")
  case True
  then show ?thesis using dirname_cases(3) [of p "[]" 0] assms by simp
next
  case False
  then have "join_with [slash] ps \<noteq> []" using assms join_with_eq_Nil [of ps "[slash]"] by auto
  then show ?thesis using dirname_cases(3) [of p "slash # join_with [slash] ps" 0] assms False
    by (simp add: join_with_append)
qed

lemma dirname_root: "dirname [slash] = [slash]"
  by code_simp

fun first_hit :: "search option list \<Rightarrow> search option" where
  "first_hit [] = Some (Inr None)"
| "first_hit (r # rs) = (case r of Some (Inr None) \<Rightarrow> first_hit rs | _ \<Rightarrow> r)"

lemma search_parts:
  "\<forall>x\<in>set ps. x \<noteq> [] \<and> slash \<notin> set x \<Longrightarrow>
   search_node_modules n D request (slash # join_with [slash] ps) =
   first_hit (map (\<lambda>k. try_path_or_directory n D (join_path [slash # join_with [slash] (take k ps), js ''node_modules'', request]))
     (rev [0..<Suc (length ps)]))"
proof (induction ps rule: rev_induct)
  case Nil
  then show ?case by (subst search_node_modules.simps) (simp add: dirname_root split: option.split sum.split)
next
  case (snoc p ps)
  let ?look = "\<lambda>qs. try_path_or_directory n D (join_path [slash # join_with [slash] qs, js ''node_modules'', request])"
  have ne: "slash # join_with [slash] ps \<noteq> slash # join_with [slash] (ps @ [p])"
  proof
    assume "slash # join_with [slash] ps = slash # join_with [slash] (ps @ [p])"
    moreover have "split_on slash (join_with [slash] (ps @ [p])) = ps @ [p]" using snoc.prems by (intro split_on_join) auto
    moreover have "ps \<noteq> [] \<Longrightarrow> split_on slash (join_with [slash] ps) = ps" using snoc.prems by (intro split_on_join) auto
    ultimately show False using snoc.prems by (cases "ps = []") auto
  qed
  have "search_node_modules n D request (slash # join_with [slash] (ps @ [p])) =
      (case ?look (ps @ [p]) of Some (Inr None) \<Rightarrow> search_node_modules n D request (slash # join_with [slash] ps) | r \<Rightarrow> r)"
    by (subst search_node_modules.simps) (use dirname_snoc [OF snoc.prems] ne in \<open>auto split: option.split sum.split\<close>)
  also have "... = first_hit (?look (ps @ [p]) # map (\<lambda>k. ?look (take k ps)) (rev [0..<Suc (length ps)]))"
    using snoc by (simp del: upt_Suc split: option.split sum.split)
  also have "map (\<lambda>k. ?look (take k ps)) (rev [0..<Suc (length ps)]) = map (\<lambda>k. ?look (take k (ps @ [p]))) (rev [0..<Suc (length ps)])"
    by (rule map_cong) auto
  also have "?look (ps @ [p]) # map (\<lambda>k. ?look (take k (ps @ [p]))) (rev [0..<Suc (length ps)]) =
      map (\<lambda>k. ?look (take k (ps @ [p]))) (rev [0..<Suc (length (ps @ [p]))])"
    by simp
  finally show ?case .
qed

text \<open>A bare request is looked up in the \<open>node_modules\<close> of every directory from the parent's up to the
  root, the nearest first, each exactly once, and the first hit (or error) is the answer: for a canonical
  directory the places are the prefixes of its components, from the longest to the empty one.\<close>

theorem node_modules_order:
  assumes "canonical dir"
  shows "search_node_modules n D request dir =
    first_hit (map (\<lambda>k. try_path_or_directory n D
        (join_path [slash # join_with [slash] (take k (split_path dir)), js ''node_modules'', request]))
      (rev [0..<Suc (length (split_path dir))]))"
proof -
  obtain ps where ps: "\<forall>x\<in>set ps. good_part x" "dir = slash # join_with [slash] ps" using assms by (auto simp: canonical_def)
  have "split_path dir = ps"
  proof -
    have nf: "normal_form True ps" using ps(1) by (simp add: normal_form_True)
    then show ?thesis using split_on_render(1) [OF nf, of False] ps(2) by (simp add: render_def)
  qed
  then show ?thesis using search_parts [of ps n D request] ps by (auto simp: good_part_def)
qed

section \<open>Witnesses\<close>

text \<open>Two modules that require each other, on a disk of two files.\<close>

definition two_files :: disk where
  "two_files = \<lparr>realpath = (\<lambda>p. Inr (if p \<in> {js ''/a.js'', js ''/b.js''} then Some p else None)),
     module_source = (\<lambda>p. if p \<in> {js ''/a.js'', js ''/b.js''} then Some p else None)\<rparr>"

definition cyclic :: mod_program where
  "cyclic = \<lparr>disk_of = two_files,
     script_of = (\<lambda>f text. if f = js ''/a.js'' then Require (js ''./b.js'') Return Return (Throw 1) else Require (js ''./a'') Return Return (Throw 2)),
     native_fails = (\<lambda>b r m. False)\<rparr>"

definition empty_loader :: loader where
  "empty_loader = \<lparr>cache = (\<lambda>_. None), packageInfo = (\<lambda>_. None), registry = False, load_log = []\<rparr>"

text \<open>
  A module that requires a package whose \<open>main\<close> is a directory and which has a native part, on a disk of
  four files and two directories.
\<close>

definition package_files :: "(jsstr \<times> jsstr) list" where
  "package_files =
     [(js ''/a.js'', []), (js ''/node_modules/p/lib/index.js'', []), (js ''internal/native-loader.js'', []),
      (js ''/node_modules/p/package.json'',
         json_str (JObj [(js ''main'', JStr (js ''lib'')), (js ''skyjs'', JObj [(js ''native'', JStr (js ''n''))])]))]"

definition package_dirs :: "jsstr list" where
  "package_dirs = [js ''/node_modules/p'', js ''/node_modules/p/lib'']"

definition package_disk :: disk where
  "package_disk = \<lparr>realpath = (\<lambda>p. Inr (if p \<in> set (map fst package_files @ package_dirs) then Some p else None)),
     module_source = map_of package_files\<rparr>"

definition with_native :: mod_program where
  "with_native = \<lparr>disk_of = package_disk,
     script_of = (\<lambda>f text. if f = js ''/a.js'' then Require (js ''p'') Return Return (Throw 1) else Return),
     native_fails = (\<lambda>loaded r m. \<not> loaded)\<rparr>"

lemma package_real: "realpath package_disk p = Inr (Some c) \<Longrightarrow> c \<in> set (map fst package_files @ package_dirs)"
  by (auto simp: package_disk_def split: if_splits)

lemma package_mains:
  "list_all (\<lambda>r. main_root package_disk r = (if r = js ''/node_modules/p'' then Some (js ''/node_modules/p/lib'') else None))
     (map fst package_files @ package_dirs)"
  by code_simp

lemma package_step: "main_step package_disk \<subseteq> {(js ''/node_modules/p'', js ''/node_modules/p/lib'')}"
proof
  fix x assume "x \<in> main_step package_disk"
  then obtain root r2 p where x: "x = (root, r2)" "realpath package_disk p = Inr (Some root)" "main_root package_disk root = Some r2"
    by (auto simp: main_step_def)
  then show "x \<in> {(js ''/node_modules/p'', js ''/node_modules/p/lib'')}"
    using package_mains [unfolded list_all_iff, rule_format, OF package_real [OF x(2)]] by (simp split: if_splits)
qed

lemma native_run:
  "map_option (\<lambda>(S, r). (load_log S, r)) (load_module 6 3 with_native (js ''/'') None (js ''./a.js'') empty_loader) =
   Some ([Started (js ''/a.js''), Started (js ''/node_modules/p/lib/index.js''), Started native_loader, Finished native_loader,
      Finished (js ''/node_modules/p/lib/index.js''), Finished (js ''/a.js'')], Inr (js ''/a.js''))"
  by code_simp

lemma load_returns_witness:
  "load_module 5 3 with_native (js ''/'') None (js ''./a.js'') empty_loader \<noteq> None"
proof -
  let ?F = "{c. disk_file (disk_of with_native) c}"
  have "?F \<subseteq> fst ` set package_files"
    by (auto simp: with_native_def disk_file_def package_disk_def map_of_eq_None_iff image_image split: if_splits)
  then have fin: "finite ?F" and "card ?F \<le> card (fst ` set package_files)"
    by (auto intro: finite_subset card_mono)
  moreover have "card (fst ` set package_files) \<le> length package_files"
    using card_image_le [of "set package_files" fst] card_length [of package_files] by simp
  moreover have "card (?F - dom (cache empty_loader)) \<le> card ?F" by (rule card_mono [OF fin]) auto
  ultimately have c: "card (?F - dom (cache empty_loader)) < 5" by (simp add: package_files_def)
  have ne: "js ''/node_modules/p'' \<noteq> js ''/node_modules/p/lib''" by (simp add: js_def)
  have f: "finite (main_step (disk_of with_native))" using package_step by (auto simp: with_native_def intro: finite_subset)
  have "acyclic {(js ''/node_modules/p'', js ''/node_modules/p/lib'')}" using ne by (simp, simp add: acyclic_def)
  then have ac: "acyclic (main_step (disk_of with_native))" by (rule acyclic_subset) (use package_step in \<open>simp add: with_native_def\<close>)
  have "card (main_step (disk_of with_native)) \<le> 1"
    using card_mono [OF _ package_step] by (simp add: with_native_def)
  then have d: "card (main_step (disk_of with_native)) + 1 < 3" by simp
  have "explained empty_loader" by (simp add: explained_def empty_loader_def)
  from load_returns [OF fin f ac d this c] show ?thesis .
qed

lemma two_files_try: "try_file two_files p = Inr (if p \<in> {js ''/a.js'', js ''/b.js''} then Some (p, p, None) else None)"
  by (auto simp: try_file_def two_files_def)

lemma cyclic_run:
  "map_option (\<lambda>(S, r). (load_log S, r)) (load_module 3 1 cyclic (js ''/'') None (js ''./a.js'') empty_loader) =
   Some ([Started (js ''/a.js''), Started (js ''/b.js''), Finished (js ''/b.js''), Finished (js ''/a.js'')], Inr (js ''/a.js''))"
  by code_simp

lemma modules_run_once_witness:
  "\<exists>S r. load_module 3 1 cyclic (js ''/'') None (js ''./a.js'') empty_loader = Some (S, r) \<and>
     foldl replay (Some (\<lambda>_. None)) (load_log S) = Some (cache S)"
proof -
  obtain S r where l: "load_module 3 1 cyclic (js ''/'') None (js ''./a.js'') empty_loader = Some (S, r)"
    using cyclic_run by auto
  show ?thesis using modules_run_once [OF l [unfolded empty_loader_def]] l by blast
qed

lemma internal_requests_guarded_witness:
  "resolve_filename 1 two_files (js ''/srv'') True (js ''node:internal/x'') (Some (js ''js/../js/internal/net-core.js'')) = Some (Inl (CannotFind (js ''node:internal/x''))) \<and>
   resolve_filename 1 two_files (js ''/srv'') True (js ''node:internal/x'') (Some (js ''js/internal-tools/x.js'')) = Some (Inl (PermissionDenied (js ''node:internal/x'')))"
proof -
  have cwd: "starts_with (js ''/srv'') [slash]" "is_internal (strip_node (js ''node:internal/x''))" by code_simp+
  have e: "split_path (engine_root (js ''/srv'')) = [js ''srv'', js ''js'']"
    "split_path (resolve (js ''/srv'') [js ''js/../js/internal/net-core.js'']) = [js ''srv'', js ''js'', js ''internal'', js ''net-core.js'']"
    "split_path (resolve (js ''/srv'') [js ''js/internal-tools/x.js'']) = [js ''srv'', js ''js'', js ''internal-tools'', js ''x.js'']"
    by code_simp+
  have n: "js ''internal-tools'' \<noteq> js ''internal''" "js ''internal-tools'' \<noteq> js ''builtins''" by (simp_all add: js_def)
  have parts: "part_of_engine (js ''/srv'') (Some (js ''js/../js/internal/net-core.js''))"
    "\<not> part_of_engine (js ''/srv'') (Some (js ''js/internal-tools/x.js''))"
    using e n by (simp_all add: part_of_engine_def)
  have "try_engine_module two_files (internal_id (strip_node (js ''node:internal/x''))) = Inr None" by code_simp
  then show ?thesis using parts by (simp add: internal_requests_guarded [OF cwd])
qed

lemma node_modules_order_witness:
  "search_node_modules 1 two_files (js ''p'') (js ''/x'') = first_hit
     (map (\<lambda>k. try_path_or_directory 1 two_files (join_path [slash # join_with [slash] (take k (split_path (js ''/x''))), js ''node_modules'', js ''p'']))
       (rev [0..<Suc (length (split_path (js ''/x'')))]))"
  by (rule node_modules_order) (auto simp: canonical_def good_part_def js_def intro!: exI [of _ "[js ''x'']"])

text \<open>
  The check of the parent is one of names: a module outside the engine may not ask for
  \<open>internal/b.js\<close>, but gets the same file by its path.
\<close>

lemma internal_by_path:
  assumes "try_file D (js ''/js/internal/b.js'') = Inr (Some f)"
  shows "resolve_filename 1 D (js ''/'') True (js ''internal/b.js'') (Some (js ''/app/main.js'')) = Some (Inl (PermissionDenied (js ''internal/b.js'')))"
    and "resolve_filename 1 D (js ''/'') True (js ''/js/internal/b.js'') (Some (js ''/app/main.js'')) = Some (Inr f)"
proof -
  have r: "is_internal (strip_node (js ''internal/b.js'')) \<and> \<not> is_internal_allowed (js ''/'') (Some (js ''/app/main.js'')) \<and>
      \<not> is_internal (strip_node (js ''/js/internal/b.js'')) \<and> starts_with (js ''/js/internal/b.js'') [slash] \<and>
      normalize (js ''/js/internal/b.js'') = js ''/js/internal/b.js'' \<and> \<not> ends_with (js ''/js/internal/b.js'') [slash]" by code_simp
  have ne: "js ''/js/internal/b.js'' \<noteq> []" by (simp add: js_def)
  have p: "registry_resolve (js ''/js/internal/b.js'') = None" by code_simp
  show "resolve_filename 1 D (js ''/'') True (js ''internal/b.js'') (Some (js ''/app/main.js'')) = Some (Inl (PermissionDenied (js ''internal/b.js'')))"
    using r by (simp add: resolve_filename_def js_def)
  show "resolve_filename 1 D (js ''/'') True (js ''/js/internal/b.js'') (Some (js ''/app/main.js'')) = Some (Inr f)"
    using r p ne assms by (simp add: resolve_filename_def resolve_file_request_def try_path_or_directory_def try_extensions_def)
qed

end
