(* ===== verification/Subprocess_Service.thy ===== *)
theory Subprocess_Service
  imports Frame_Rpc
begin

text \<open>
  The \<open>.subprocess\<close> owner service, \<open>service/subprocess-service.js\<close>. It owns the handles of the child
  processes: it starts them within a quota, polls their output into records until they exit, and
  answers requests about them. What the C layer answers (the process that was started, what a read or
  a wait returns) comes with each event; its calls that have an effect are logged.
\<close>

section \<open>State\<close>

datatype sub_call = CloseFd int | KillProcess int json | ReleaseProcess int | WriteFd int bytes

record proc =
  proc_pid :: int
  stdinFd :: int
  stdoutFd :: int
  stderrFd :: int
  exited :: bool
  exit_code :: int
  exit_signal :: int
  out_chunks :: "bytes list"
  err_chunks :: "bytes list"
  maxOutput :: json
  truncated :: bool

text \<open>
  The records live on while their timer does, also after they were taken from the map \<open>procs\<close>, so they
  are kept in the order of the spawns; the map leads from a pid to the number of a record.
\<close>

record sub_state =
  records :: "proc list"
  procs :: "(int \<times> nat) list"
  armed :: "nat list"
  calls :: "sub_call list"

definition new_sub :: sub_state where
  "new_sub = \<lparr>records = [], procs = [], armed = [], calls = []\<rparr>"

definition max_processes :: nat where "max_processes = 16"
definition default_max_output :: json where "default_max_output = JNum (10 * 1024 * 1024)"

text \<open>
  A record keeps the limit that the request gives, whatever JSON value it is (falsy: the default); the
  comparison \<open>total > maxOutput\<close> converts it to a number, a string by the rules of \<open>Number\<close>. A length is
  greater than a number when it is greater than the number rounded down; it is not greater than \<open>NaN\<close> or
  \<open>Infinity\<close>, so such a value is no limit. The conversion of an object that has a property \<open>toString\<close>,
  which JSON cannot make a function, throws.
\<close>

datatype limit = AtMost int | NoLimit | Incomparable

definition radix_limit :: "nat \<Rightarrow> jsstr \<Rightarrow> limit" where
  "radix_limit b ds = (if ds \<noteq> [] \<and> list_all (is_digit_of b) ds then AtMost (int (digits_value b ds)) else NoLimit)"

definition scaled :: "bool \<Rightarrow> nat \<Rightarrow> int \<Rightarrow> int" where
  "scaled neg v e = (let x = (if neg then - int v else int v) in if e \<ge> 0 then x * 10 ^ nat e else x div 10 ^ nat (- e))"

text \<open>Digits with a point and an exponent, after the sign.\<close>

definition decimal_limit :: "bool \<Rightarrow> jsstr \<Rightarrow> limit" where
  "decimal_limit neg u =
     (let a = takeWhile is_dec u; r1 = dropWhile is_dec u;
          b = (case r1 of c # t \<Rightarrow> if c = 46 then takeWhile is_dec t else [] | [] \<Rightarrow> []);
          r2 = (case r1 of c # t \<Rightarrow> if c = 46 then dropWhile is_dec t else r1 | [] \<Rightarrow> []);
          v = digits_value 10 (a @ b)
      in if a @ b = [] then NoLimit
         else case r2 of
            [] \<Rightarrow> AtMost (scaled neg v (- int (length b)))
          | c # t \<Rightarrow>
              let minus = (t \<noteq> [] \<and> hd t = 45); ds = (if t \<noteq> [] \<and> (hd t = 43 \<or> hd t = 45) then tl t else t);
                  e = (if minus then - int (digits_value 10 ds) else int (digits_value 10 ds))
              in if (c = 101 \<or> c = 69) \<and> ds \<noteq> [] \<and> list_all is_dec ds then AtMost (scaled neg v (e - int (length b))) else NoLimit)"

definition string_limit :: "jsstr \<Rightarrow> limit" where
  "string_limit s =
     (let t = trim s; p = take 2 t; neg = (t \<noteq> [] \<and> hd t = 45); u = (if t \<noteq> [] \<and> (hd t = 43 \<or> hd t = 45) then tl t else t)
      in if t = [] then AtMost 0
         else if p = js ''0x'' \<or> p = js ''0X'' then radix_limit 16 (drop 2 t)
         else if p = js ''0o'' \<or> p = js ''0O'' then radix_limit 8 (drop 2 t)
         else if p = js ''0b'' \<or> p = js ''0B'' then radix_limit 2 (drop 2 t)
         else if u = js ''Infinity'' then (if neg then AtMost (-1) else NoLimit)
         else decimal_limit neg u)"

fun no_text :: "json \<Rightarrow> bool" where
  "no_text (JObj ps) = (js ''toString'' \<in> fst ` set ps)"
| "no_text (JArr vs) = list_ex no_text vs"
| "no_text _ = False"

fun output_limit :: "json \<Rightarrow> limit" where
  "output_limit JNull = AtMost 0"
| "output_limit (JBool b) = AtMost (if b then 1 else 0)"
| "output_limit (JNum n) = AtMost n"
| "output_limit (JDec t) = string_limit t"
| "output_limit (JStr t) = string_limit t"
| "output_limit v = (if no_text v then Incomparable else string_limit (json_text v))"

text \<open>\<open>Map.set\<close> and \<open>Map.delete\<close>: a pid that is set again keeps its place.\<close>

definition procs_set :: "int \<Rightarrow> nat \<Rightarrow> (int \<times> nat) list \<Rightarrow> (int \<times> nat) list" where
  "procs_set pid i ps = (if pid \<in> fst ` set ps then map (\<lambda>p. if fst p = pid then (pid, i) else p) ps else ps @ [(pid, i)])"

definition procs_delete :: "int \<Rightarrow> (int \<times> nat) list \<Rightarrow> (int \<times> nat) list" where
  "procs_delete pid ps = filter (\<lambda>p. fst p \<noteq> pid) ps"

section \<open>Reading the output\<close>

text \<open>
  The loop of \<open>drain\<close> over what \<open>read\<close> returns, ending in \<open>again\<close> or \<open>eof\<close>; a list of answers that
  ends otherwise stands for an \<open>again\<close> after it. \<open>is_out\<close> says which of the two streams is read.
\<close>

datatype read_answer = Again | Eof | Data bytes | ReadFails

definition chunks_of :: "bool \<Rightarrow> proc \<Rightarrow> bytes list" where
  "chunks_of is_out r = (if is_out then out_chunks r else err_chunks r)"

definition set_chunks :: "bool \<Rightarrow> bytes list \<Rightarrow> proc \<Rightarrow> proc" where
  "set_chunks is_out cs r = (if is_out then r\<lparr>out_chunks := cs\<rparr> else r\<lparr>err_chunks := cs\<rparr>)"

definition sum_bytes :: "bytes list \<Rightarrow> int" where
  "sum_bytes cs = int (length (concat cs))"

definition at_eof :: "int \<Rightarrow> proc \<Rightarrow> proc" where
  "at_eof fd r = r\<lparr>stdoutFd := (if fd = stdoutFd r then -1 else stdoutFd r),
     stderrFd := (if fd = stderrFd r then -1 else stderrFd r)\<rparr>"

text \<open>The last component says whether the loop goes on: it does not when the comparison throws.\<close>

definition keep_chunk :: "bool \<Rightarrow> bytes \<Rightarrow> proc \<Rightarrow> proc \<times> bool" where
  "keep_chunk is_out b r =
     (if truncated r then (r, True)
      else let cs = chunks_of is_out r @ [b] in
        case output_limit (maxOutput r) of
          AtMost n \<Rightarrow>
            if sum_bytes cs > n then (set_chunks is_out [] (r\<lparr>truncated := True\<rparr>), True) else (set_chunks is_out cs r, True)
        | NoLimit \<Rightarrow> (set_chunks is_out cs r, True)
        | Incomparable \<Rightarrow> (set_chunks is_out cs r, False))"

text \<open>The last component says whether the loop ended without an exception.\<close>

fun drain_loop :: "bool \<Rightarrow> int \<Rightarrow> read_answer list \<Rightarrow> proc \<Rightarrow> proc \<times> sub_call list \<times> bool" where
  "drain_loop is_out fd [] r = (r, [], True)"
| "drain_loop is_out fd (Again # as) r = (r, [], True)"
| "drain_loop is_out fd (ReadFails # as) r = (r, [], False)"
| "drain_loop is_out fd (Eof # as) r = (at_eof fd r, [CloseFd fd], True)"
| "drain_loop is_out fd (Data b # as) r =
     (case keep_chunk is_out b r of (r1, ok) \<Rightarrow> if ok then drain_loop is_out fd as r1 else (r1, [], False))"

definition drain :: "bool \<Rightarrow> read_answer list \<Rightarrow> proc \<Rightarrow> proc \<times> sub_call list \<times> bool" where
  "drain is_out as r =
     (let fd = (if is_out then stdoutFd r else stderrFd r) in if fd < 0 then (r, [], True) else drain_loop is_out fd as r)"

text \<open>The first of two drains may throw, then there is no second one.\<close>

definition drain_both :: "read_answer list \<Rightarrow> read_answer list \<Rightarrow> proc \<Rightarrow> proc \<times> sub_call list \<times> bool" where
  "drain_both as bs r =
     (case drain True as r of
        (r1, c1, False) \<Rightarrow> (r1, c1, False)
      | (r1, c1, True) \<Rightarrow> (case drain False bs r1 of (r2, c2, ok) \<Rightarrow> (r2, c1 @ c2, ok)))"

text \<open>
  A tick of \<open>pump\<close>: what the reads of both streams return, what \<open>wait\<close> says, and what the reads after
  an exit return. The result says whether the timer goes on; it does not when something throws.
\<close>

datatype wait_answer = Running | ExitedWith int int | WaitFails

record tick_answers =
  t_out :: "read_answer list"
  t_err :: "read_answer list"
  t_wait :: wait_answer
  t_out_last :: "read_answer list"
  t_err_last :: "read_answer list"

definition pump_tick :: "tick_answers \<Rightarrow> proc \<Rightarrow> proc \<times> sub_call list \<times> bool" where
  "pump_tick t r =
     (if exited r then (r, [], False)
      else (case drain_both (t_out t) (t_err t) r of
          (r1, c1, False) \<Rightarrow> (r1, c1, False)
        | (r1, c1, True) \<Rightarrow>
            (case t_wait t of
               Running \<Rightarrow> (r1, c1, True)
             | WaitFails \<Rightarrow> (r1, c1, False)
             | ExitedWith c sg \<Rightarrow>
                 (case drain_both (t_out_last t) (t_err_last t) r1 of
                    (r2, c2, False) \<Rightarrow> (r2, c1 @ c2, False)
                  | (r2, c2, True) \<Rightarrow> (r2\<lparr>exited := True, exit_code := c, exit_signal := sg\<rparr>, c1 @ c2, False)))))"

text \<open>The timer of record \<open>i\<close> fires.\<close>

definition sub_tick :: "nat \<Rightarrow> tick_answers \<Rightarrow> sub_state \<Rightarrow> sub_state" where
  "sub_tick i t s =
     (if i \<in> set (armed s) \<and> i < length (records s) then
        (case pump_tick t (records s ! i) of (r, cs, again) \<Rightarrow>
           s\<lparr>records := (records s)[i := r], calls := calls s @ cs, armed := (if again then armed s else remove1 i (armed s))\<rparr>)
      else s)"

section \<open>Requests\<close>

text \<open>What the C layer answers to the calls of a request.\<close>

record sub_answers =
  a_spawn :: "js_error + int \<times> int \<times> int \<times> int"  \<comment> \<open>pid and the descriptors of stdin, stdout, stderr\<close>
  a_write :: "js_error + int"
  a_kill :: "js_error + unit"
  a_release :: "js_error + unit"

text \<open>\<open>fail\<close>: the errors that reach it have neither \<open>exitCode\<close> nor \<open>signal\<close>.\<close>

definition sub_fail :: "json option \<Rightarrow> json option \<Rightarrow> js_error \<Rightarrow> js_error + bytes" where
  "sub_fail reqId op e =
     (let m = (case normalize_error (Thrown e) None of Some m \<Rightarrow> m | None \<Rightarrow> e)
      in encode [(''ok'', Some (JBool False)), (''reqId'', reqId), (''op'', op),
           (''code'', map_option JStr (code m)), (''message'', Some (JStr (message m)))] None)"

definition find_proc :: "json \<Rightarrow> sub_state \<Rightarrow> nat option" where
  "find_proc header s = (case field header ''pid'' of Some (JNum n) \<Rightarrow> map_of (procs s) n | _ \<Rightarrow> None)"

definition unknown_pid :: js_error where
  "unknown_pid = skyjs_error (js ''ERR_NOT_FOUND'') (js ''unknown pid'')"

definition requested_output :: "json \<Rightarrow> json" where
  "requested_output header = (case field header ''maxOutput'' of
     Some v \<Rightarrow> if falsy v then default_max_output else v
   | None \<Rightarrow> default_max_output)"

definition spawn_proc :: "sub_answers \<Rightarrow> json \<Rightarrow> sub_state \<Rightarrow> sub_state \<times> (js_error + bytes)" where
  "spawn_proc a header s =
     (if length (procs s) \<ge> max_processes
      then (s, Inl (skyjs_error (js ''ERR_LIMIT_EXCEEDED'') (js ''process quota reached ('' @ to_radix 10 max_processes @ js '')'')))
      else (case a_spawn a of
          Inl e \<Rightarrow> (s, Inl e)
        | Inr (pid, fd0, fd1, fd2) \<Rightarrow>
            let r = \<lparr>proc_pid = pid, stdinFd = fd0, stdoutFd = fd1, stderrFd = fd2, exited = False, exit_code = 0, exit_signal = 0,
                  out_chunks = [], err_chunks = [], maxOutput = requested_output header, truncated = False\<rparr>;
                i = length (records s)
            in (s\<lparr>records := records s @ [r], procs := procs_set pid i (procs s), armed := armed s @ [i]\<rparr>,
                ok_reply [(''reqId'', field header ''reqId''), (''op'', Some (JStr (js ''spawn''))), (''pid'', Some (JNum pid))] None)))"

text \<open>The operations on a process that is known.\<close>

definition status_reply :: "json \<Rightarrow> proc \<Rightarrow> js_error + bytes" where
  "status_reply header r = ok_reply (echo header @
     [(''pid'', Some (JNum (proc_pid r))), (''exited'', Some (JBool (exited r))), (''code'', Some (JNum (exit_code r))),
      (''signal'', Some (JNum (exit_signal r))), (''truncated'', Some (JBool (truncated r))),
      (''stdoutLength'', Some (JNum (sum_bytes (out_chunks r)))), (''stderrLength'', Some (JNum (sum_bytes (err_chunks r))))]) None"

definition read_output :: "json \<Rightarrow> proc \<Rightarrow> js_error + bytes" where
  "read_output header r =
     (if \<not> exited r then ok_reply (echo header @ [(''pid'', Some (JNum (proc_pid r))), (''pending'', Some (JBool True))]) None
      else ok_reply (echo header @ [(''pid'', Some (JNum (proc_pid r))), (''exited'', Some (JBool True))])
        (Some (concat (chunks_of (field header ''stream'' \<noteq> Some (JStr (js ''stderr''))) r))))"

definition write_stdin :: "sub_answers \<Rightarrow> json \<Rightarrow> bytes option \<Rightarrow> nat \<Rightarrow> sub_state \<Rightarrow> sub_state \<times> (js_error + bytes)" where
  "write_stdin a header body i s =
     (let r = records s ! i in
      if stdinFd r < 0 then (s, sub_fail (field header ''reqId'') (field header ''op'') (skyjs_error (js ''ERR_IO'') (js ''stdin closed'')))
      else (s\<lparr>calls := calls s @ [WriteFd (stdinFd r) (case body of None \<Rightarrow> [] | Some b \<Rightarrow> b)]\<rparr>,
            and_then (a_write a) (\<lambda>n. ok_reply (echo header @ [(''written'', Some (JNum n))]) None)))"

definition close_stdin :: "json \<Rightarrow> nat \<Rightarrow> sub_state \<Rightarrow> sub_state \<times> (js_error + bytes)" where
  "close_stdin header i s =
     (let r = records s ! i in
      (if stdinFd r \<ge> 0 then s\<lparr>calls := calls s @ [CloseFd (stdinFd r)], records := (records s)[i := r\<lparr>stdinFd := -1\<rparr>]\<rparr> else s,
       ok_reply (echo header) None))"

definition kill_proc :: "sub_answers \<Rightarrow> json \<Rightarrow> nat \<Rightarrow> sub_state \<Rightarrow> sub_state \<times> (js_error + bytes)" where
  "kill_proc a header i s =
     (s\<lparr>calls := calls s @ [KillProcess (proc_pid (records s ! i))
          (case field header ''signal'' of None \<Rightarrow> JNum 15 | Some v \<Rightarrow> v)]\<rparr>,
      and_then (a_kill a) (\<lambda>_. ok_reply (echo header) None))"

definition release_proc :: "sub_answers \<Rightarrow> json \<Rightarrow> nat \<Rightarrow> sub_state \<Rightarrow> sub_state \<times> (js_error + bytes)" where
  "release_proc a header i s =
     (let pid = proc_pid (records s ! i); s1 = s\<lparr>calls := calls s @ [ReleaseProcess pid]\<rparr> in
      case a_release a of
        Inl e \<Rightarrow> (s1, Inl e)
      | Inr _ \<Rightarrow> (s1\<lparr>procs := procs_delete pid (procs s1)\<rparr>, ok_reply (echo header) None))"

definition sub_handle :: "sub_answers \<Rightarrow> json \<Rightarrow> bytes option \<Rightarrow> sub_state \<Rightarrow> sub_state \<times> (js_error + bytes)" where
  "sub_handle a header body s =
     (let notfound = (s, sub_fail (field header ''reqId'') (field header ''op'') unknown_pid) in
      if op_is header ''ping'' then
        (s, ok_reply [(''reqId'', field header ''reqId''), (''op'', Some (JStr (js ''pong''))), (''count'', Some (JNum (int (length (procs s)))))] None)
      else if op_is header ''spawn'' then spawn_proc a header s
      else if op_is header ''status'' then (case find_proc header s of None \<Rightarrow> notfound | Some i \<Rightarrow> (s, status_reply header (records s ! i)))
      else if op_is header ''read'' then (case find_proc header s of None \<Rightarrow> notfound | Some i \<Rightarrow> (s, read_output header (records s ! i)))
      else if op_is header ''write'' then (case find_proc header s of None \<Rightarrow> notfound | Some i \<Rightarrow> write_stdin a header body i s)
      else if op_is header ''closeStdin'' then (case find_proc header s of None \<Rightarrow> notfound | Some i \<Rightarrow> close_stdin header i s)
      else if op_is header ''kill'' then (case find_proc header s of None \<Rightarrow> notfound | Some i \<Rightarrow> kill_proc a header i s)
      else if op_is header ''release'' then
        (case find_proc header s of None \<Rightarrow> (s, ok_reply (echo header) None) | Some i \<Rightarrow> release_proc a header i s)
      else if op_is header ''list'' then
        (s, ok_reply (echo header @ [(''pids'', Some (JArr (map (\<lambda>p. JNum (fst p)) (procs s))))]) None)
      else (s, encode ((''ok'', Some (JBool False)) # echo header @ [(''code'', Some (JStr (js ''ERR_PROTOCOL''))),
              (''message'', Some (JStr (js ''unknown subprocess op: '' @ value_text (field header ''op''))))]) None))"

definition sub_dispatch :: "sub_answers \<Rightarrow> bytes \<Rightarrow> sub_state \<Rightarrow> sub_state \<times> (js_error + bytes)" where
  "sub_dispatch a msg s =
     (case frame_decode msg of
        Inl e \<Rightarrow> (s, sub_fail None None (frame_js_error e))
      | Inr (header, body) \<Rightarrow>
          if header = JNull then (s, sub_fail None None (type_error (js ''cannot read property '' @ [39, 111, 112, 39] @ js '' of null'')))
          else (case sub_handle a header body s of
              (s', Inl e) \<Rightarrow> (s', sub_fail None None e)
            | (s', Inr reply) \<Rightarrow> (s', Inr reply)))"

text \<open>The life of the service.\<close>

datatype sub_event = Request sub_answers bytes | Tick nat tick_answers

fun sub_step :: "sub_state \<Rightarrow> sub_event \<Rightarrow> sub_state" where
  "sub_step s (Request a msg) = fst (sub_dispatch a msg s)"
| "sub_step s (Tick i t) = sub_tick i t s"

section \<open>The output that is kept\<close>

text \<open>
  What the reads deliver until they stop, and in a whole tick; it is compared with what is kept. A chunk
  that cannot be counted, as the limit cannot be compared, is the last.
\<close>

definition uncountable :: "proc \<Rightarrow> bool" where
  "uncountable r \<longleftrightarrow> \<not> truncated r \<and> output_limit (maxOutput r) = Incomparable"

fun delivered_bytes :: "bool \<Rightarrow> read_answer list \<Rightarrow> bytes" where
  "delivered_bytes stop (Data b # as) = b @ (if stop then [] else delivered_bytes stop as)"
| "delivered_bytes stop _ = []"

definition read_by :: "bool \<Rightarrow> read_answer list \<Rightarrow> proc \<Rightarrow> bytes" where
  "read_by is_out as r = (if (if is_out then stdoutFd r else stderrFd r) < 0 then [] else delivered_bytes (uncountable r) as)"

definition both_bytes :: "read_answer list \<Rightarrow> read_answer list \<Rightarrow> proc \<Rightarrow> bool \<Rightarrow> bytes" where
  "both_bytes as bs r is_out =
     (if is_out then read_by True as r
      else case drain True as r of (r1, c1, ok) \<Rightarrow> if ok then read_by False bs r1 else [])"

definition tick_bytes :: "tick_answers \<Rightarrow> proc \<Rightarrow> bool \<Rightarrow> bytes" where
  "tick_bytes t r is_out =
     (if exited r then []
      else both_bytes (t_out t) (t_err t) r is_out @
        (case drain_both (t_out t) (t_err t) r of (r1, c1, ok) \<Rightarrow>
           if ok then (case t_wait t of ExitedWith c sg \<Rightarrow> both_bytes (t_out_last t) (t_err_last t) r1 is_out | _ \<Rightarrow> [])
           else []))"

text \<open>A length that a record may hold.\<close>

definition within_limit :: "json \<Rightarrow> int \<Rightarrow> bool" where
  "within_limit l n \<longleftrightarrow> (case output_limit l of AtMost k \<Rightarrow> n \<le> max 0 k | _ \<Rightarrow> True)"

lemma within_zero [simp]: "within_limit l 0"
  by (simp add: within_limit_def split: limit.split)

text \<open>A record that has read \<open>g\<close> from its two streams.\<close>

definition holds :: "(bool \<Rightarrow> bytes) \<Rightarrow> proc \<Rightarrow> bool" where
  "holds g r \<longleftrightarrow> (truncated r \<longrightarrow> (\<exists>n. output_limit (maxOutput r) = AtMost n)) \<and>
     (\<forall>b. within_limit (maxOutput r) (sum_bytes (chunks_of b r)) \<and>
        prefix (concat (chunks_of b r)) (g b) \<and> (\<not> truncated r \<longrightarrow> concat (chunks_of b r) = g b))"

lemma chunks_set [simp]:
  "chunks_of b (set_chunks c cs r) = (if b = c then cs else chunks_of b r)"
  "truncated (set_chunks c cs r) = truncated r" "maxOutput (set_chunks c cs r) = maxOutput r"
  by (simp_all add: chunks_of_def set_chunks_def)

lemma chunks_simps [simp]:
  "chunks_of b (r\<lparr>truncated := x\<rparr>) = chunks_of b r" "chunks_of b (r\<lparr>exited := y\<rparr>) = chunks_of b r"
  "chunks_of b (r\<lparr>exit_code := c\<rparr>) = chunks_of b r" "chunks_of b (r\<lparr>exit_signal := c\<rparr>) = chunks_of b r"
  "chunks_of b (r\<lparr>stdinFd := c\<rparr>) = chunks_of b r" "chunks_of b (at_eof fd r) = chunks_of b r"
  "truncated (at_eof fd r) = truncated r" "maxOutput (at_eof fd r) = maxOutput r"
  by (simp_all add: chunks_of_def at_eof_def)

lemma sum_bytes_simps [simp]: "sum_bytes [] = 0" "sum_bytes (cs @ ds) = sum_bytes cs + sum_bytes ds"
  by (simp_all add: sum_bytes_def)

lemma holds_keep: "holds g r \<Longrightarrow> holds (\<lambda>b. g b @ (if b = c then x else [])) (fst (keep_chunk c x r))"
  unfolding holds_def keep_chunk_def within_limit_def by (auto simp: Let_def intro: prefix_order.trans split: limit.splits)

lemma keep_goes_on: "snd (keep_chunk c x r) = (\<not> uncountable r)"
  by (auto simp: keep_chunk_def uncountable_def Let_def split: limit.splits)

lemma keep_countable: "\<not> uncountable r \<Longrightarrow> \<not> uncountable (fst (keep_chunk c x r))"
  by (auto simp: keep_chunk_def uncountable_def Let_def split: limit.splits)

lemma holds_drain_loop:
  "holds g r \<Longrightarrow> holds (\<lambda>b. g b @ (if b = c then delivered_bytes (uncountable r) as else [])) (fst (drain_loop c fd as r))"
proof (induction c fd as r arbitrary: g rule: drain_loop.induct)
  case (5 c fd b as r)
  obtain r1 ok where k: "keep_chunk c b r = (r1, ok)" by (cases "keep_chunk c b r")
  have h: "holds (\<lambda>d. g d @ (if d = c then b else [])) r1" and ok: "ok = (\<not> uncountable r)"
    using holds_keep [OF "5.prems", of c b] keep_goes_on [of c b r] k by simp_all
  show ?case
  proof (cases ok)
    case True
    then have u: "\<not> uncountable r1" using keep_countable [of r c b] ok k by simp
    have "holds (\<lambda>d. (g d @ (if d = c then b else [])) @ (if d = c then delivered_bytes (uncountable r1) as else [])) (fst (drain_loop c fd as r1))"
      by (rule "5.IH" [OF k [symmetric] True h])
    then show ?thesis using True ok u by (simp add: k if_distrib cong: if_cong)
  next
    case False
    then show ?thesis using h ok by (simp add: k cong: if_cong)
  qed
qed (simp_all add: holds_def)

lemma holds_drain: "holds g r \<Longrightarrow> holds (\<lambda>b. g b @ (if b = c then read_by c as r else [])) (fst (drain c as r))"
proof (cases "(if c then stdoutFd r else stderrFd r) < 0")
  case True
  assume "holds g r"
  moreover have "(\<lambda>b. g b @ (if b = c then read_by c as r else [])) = g" by (rule ext) (use True in \<open>simp add: read_by_def\<close>)
  ultimately show ?thesis using True by (simp add: drain_def)
next
  case False
  assume g: "holds g r"
  have "read_by c as r = delivered_bytes (uncountable r) as" "drain c as r = drain_loop c (if c then stdoutFd r else stderrFd r) as r"
    using False by (simp_all add: read_by_def drain_def)
  then show ?thesis using holds_drain_loop [OF g, where c = c and as = as] by (simp only:)
qed

lemma holds_both: "holds g r \<Longrightarrow> holds (\<lambda>b. g b @ both_bytes as bs r b) (fst (drain_both as bs r))"
proof -
  assume g: "holds g r"
  obtain r1 c1 ok where d: "drain True as r = (r1, c1, ok)" by (cases "drain True as r") auto
  have 1: "holds (\<lambda>b. g b @ (if b then read_by True as r else [])) r1" using holds_drain [OF g, of True as] d by simp
  have eq: "(\<lambda>b. g b @ both_bytes as bs r b) = (if ok then (\<lambda>b. (g b @ (if b then read_by True as r else [])) @ (if b = False then read_by False bs r1 else []))
     else (\<lambda>b. g b @ (if b then read_by True as r else [])))"
    by (rule ext) (simp add: both_bytes_def d)
  show ?thesis using 1 holds_drain [OF 1, of False bs] unfolding eq
    by (cases ok; cases "drain False bs r1") (simp_all add: drain_both_def d)
qed

lemma holds_tick: "holds g r \<Longrightarrow> holds (\<lambda>b. g b @ tick_bytes t r b) (fst (pump_tick t r))"
proof (cases "exited r")
  case False
  assume g: "holds g r"
  obtain r1 c1 ok where d: "drain_both (t_out t) (t_err t) r = (r1, c1, ok)" by (cases "drain_both (t_out t) (t_err t) r") auto
  have 1: "holds (\<lambda>b. g b @ both_bytes (t_out t) (t_err t) r b) r1" using holds_both [OF g] d by (metis fst_conv)
  show ?thesis
  proof (cases "ok \<and> (\<exists>c sg. t_wait t = ExitedWith c sg)")
    case True
    then obtain c sg where w: "t_wait t = ExitedWith c sg" and ok by blast
    obtain r2 c2 ok2 where e: "drain_both (t_out_last t) (t_err_last t) r1 = (r2, c2, ok2)"
      by (cases "drain_both (t_out_last t) (t_err_last t) r1") auto
    have "holds (\<lambda>b. (g b @ both_bytes (t_out t) (t_err t) r b) @ both_bytes (t_out_last t) (t_err_last t) r1 b) r2"
      using holds_both [OF 1, of "t_out_last t" "t_err_last t"] e by simp
    moreover have "pump_tick t r = (if ok2 then r2\<lparr>exited := True, exit_code := c, exit_signal := sg\<rparr> else r2, c1 @ c2, False)"
      using False \<open>ok\<close> by (cases ok2) (simp_all add: pump_tick_def d w e)
    ultimately show ?thesis using False \<open>ok\<close> by (simp add: tick_bytes_def d w holds_def)
  next
    case nr: False
    then have "fst (pump_tick t r) = r1" using False
      by (cases ok; cases "t_wait t") (auto simp: pump_tick_def d)
    moreover have "tick_bytes t r = both_bytes (t_out t) (t_err t) r"
      by (rule ext) (use nr False in \<open>auto simp: tick_bytes_def d split: wait_answer.split\<close>)
    ultimately show ?thesis using 1 by simp
  qed
qed (simp add: pump_tick_def tick_bytes_def)

text \<open>The service with the bytes that were read for each record.\<close>

definition watched_sub :: "sub_state \<times> (nat \<Rightarrow> bool \<Rightarrow> bytes) \<Rightarrow> sub_event \<Rightarrow> sub_state \<times> (nat \<Rightarrow> bool \<Rightarrow> bytes)" where
  "watched_sub x e = (case x of (s, g) \<Rightarrow> (sub_step s e,
     case e of
       Tick i t \<Rightarrow> if i \<in> set (armed s) \<and> i < length (records s)
                   then g(i := (\<lambda>b. g i b @ tick_bytes t (records s ! i) b)) else g
     | Request a m \<Rightarrow> g))"

definition sub_inv :: "sub_state \<times> (nat \<Rightarrow> bool \<Rightarrow> bytes) \<Rightarrow> bool" where
  "sub_inv x \<longleftrightarrow> (case x of (s, g) \<Rightarrow>
     length (procs s) \<le> max_processes \<and> distinct (map fst (procs s)) \<and>
     (\<forall>p\<in>set (procs s). snd p < length (records s) \<and> proc_pid (records s ! snd p) = fst p) \<and>
     (\<forall>i<length (records s). holds (g i) (records s ! i)) \<and> (\<forall>i\<ge>length (records s). g i = (\<lambda>b. [])))"

lemma keys_procs_set: "map fst (procs_set pid i ps) = (if pid \<in> fst ` set ps then map fst ps else map fst ps @ [pid])"
  by (auto simp: procs_set_def)

lemma procs_set_mem: "p \<in> set (procs_set pid i ps) \<Longrightarrow> p = (pid, i) \<or> p \<in> set ps"
  by (auto simp: procs_set_def split: if_splits)

lemma length_procs_set: "length (procs_set pid i ps) \<le> Suc (length ps)"
  by (simp add: procs_set_def)

lemma pid_drain: "proc_pid (fst (drain c as r)) = proc_pid r"
proof -
  have "proc_pid (fst (drain_loop c fd as r)) = proc_pid r" for fd
    by (induction c fd as r rule: drain_loop.induct)
       (auto simp: at_eof_def keep_chunk_def set_chunks_def Let_def split: prod.splits limit.splits if_splits)
  then show ?thesis by (simp add: drain_def Let_def)
qed

lemma pid_both: "proc_pid (fst (drain_both as bs r)) = proc_pid r"
proof -
  obtain r1 c1 ok where d: "drain True as r = (r1, c1, ok)" by (cases "drain True as r") auto
  have "proc_pid r1 = proc_pid r" using pid_drain [of True as r] d by simp
  then show ?thesis using pid_drain [of False bs r1] by (cases ok; cases "drain False bs r1") (simp_all add: drain_both_def d)
qed

lemma pid_tick: "proc_pid (fst (pump_tick t r)) = proc_pid r"
proof -
  obtain r1 c1 ok where d: "drain_both (t_out t) (t_err t) r = (r1, c1, ok)" by (cases "drain_both (t_out t) (t_err t) r") auto
  obtain r2 c2 ok2 where e: "drain_both (t_out_last t) (t_err_last t) r1 = (r2, c2, ok2)"
    by (cases "drain_both (t_out_last t) (t_err_last t) r1") auto
  have "proc_pid r1 = proc_pid r" "proc_pid r2 = proc_pid r1"
    using pid_both [of "t_out t" "t_err t" r] pid_both [of "t_out_last t" "t_err_last t" r1] d e by simp_all
  then show ?thesis by (cases ok; cases ok2; cases "t_wait t") (simp_all add: pump_tick_def d e)
qed

lemma sub_spawn:
  assumes "sub_inv (s, g)"
  shows "sub_inv (fst (spawn_proc a h s), g)"
proof (cases "length (procs s) \<ge> max_processes \<or> (\<exists>e. a_spawn a = Inl e)")
  case True
  then show ?thesis using assms by (auto simp: spawn_proc_def split: sum.split)
next
  case False
  then obtain pid fd0 fd1 fd2 where sp: "a_spawn a = Inr (pid, fd0, fd1, fd2)" by (cases "a_spawn a") auto
  let ?n = "length (records s)"
  define s' where "s' = fst (spawn_proc a h s)"
  obtain r where r: "records s' = records s @ [r]" "procs s' = procs_set pid ?n (procs s)" "proc_pid r = pid"
      "out_chunks r = []" "err_chunks r = []" "\<not> truncated r"
    using False by (simp add: s'_def spawn_proc_def sp Let_def)
  have "length (procs s') \<le> max_processes" using False length_procs_set [of pid ?n "procs s"] by (simp add: r(2))
  moreover have "distinct (map fst (procs s'))"
    using assms by (simp add: r(2) keys_procs_set sub_inv_def)
  moreover have "snd p < length (records s') \<and> proc_pid (records s' ! snd p) = fst p" if p: "p \<in> set (procs s')" for p
  proof (cases "p \<in> set (procs s)")
    case True
    then have "snd p < ?n" "proc_pid (records s ! snd p) = fst p" using assms by (auto simp: sub_inv_def)
    then show ?thesis by (simp add: r(1) nth_append)
  next
    case False
    then have "p = (pid, ?n)" using procs_set_mem [of p pid ?n "procs s"] p r(2) by auto
    then show ?thesis using r(1,3) by simp
  qed
  moreover have "holds (g i) (records s' ! i)" if "i < length (records s')" for i
  proof (cases "i < ?n")
    case True
    then show ?thesis using assms by (simp add: sub_inv_def r(1) nth_append)
  next
    case False
    then have "i = ?n" "g i = (\<lambda>b. [])" using that assms by (auto simp: r(1) sub_inv_def)
    then show ?thesis using r(4-6) by (simp add: r(1) holds_def chunks_of_def sum_bytes_def)
  qed
  moreover have "g i = (\<lambda>b. [])" if "length (records s') \<le> i" for i using that assms by (simp add: r(1) sub_inv_def)
  ultimately show ?thesis unfolding sub_inv_def s'_def [symmetric] by simp
qed

lemma sub_step_request:
  assumes "sub_inv (s, g)"
  shows "sub_inv (sub_step s (Request a msg), g)"
proof -
  have same: "sub_inv (s\<lparr>calls := cs\<rparr>, g)" for cs using assms by (simp add: sub_inv_def)
  have spawn: "sub_inv (fst (spawn_proc a h s), g)" for h by (rule sub_spawn [OF assms])
  have ind: "i < length (records s)" if "find_proc h s = Some i" for h i
    using that assms by (auto simp: find_proc_def sub_inv_def split: option.splits json.splits dest!: map_of_SomeD)
  have close: "sub_inv (fst (close_stdin h i s), g)" if "i < length (records s)" for h i
    using assms that by (auto simp: close_stdin_def Let_def sub_inv_def nth_list_update holds_def)
  have wr: "sub_inv (fst (write_stdin a h b i s), g)" for h b i using same assms by (simp add: write_stdin_def Let_def)
  have ki: "sub_inv (fst (kill_proc a h i s), g)" for h i using same by (simp add: kill_proc_def)
  have rel: "sub_inv (fst (release_proc a h i s), g)" for h i
  proof -
    show ?thesis using assms same [of "calls s @ [ReleaseProcess (proc_pid (records s ! i))]"]
      by (auto simp: release_proc_def Let_def sub_inv_def procs_delete_def split: sum.split
          intro: distinct_map_filter le_trans [OF length_filter_le])
  qed
  have "sub_inv (fst (sub_handle a h b s), g)" for h b
    using assms spawn close [OF ind] wr ki rel by (simp add: sub_handle_def Let_def split: option.split)
  then show ?thesis using assms
    by (auto simp: sub_dispatch_def split: sum.split prod.split) (metis fst_conv)+
qed

lemma sub_step_tick:
  assumes "sub_inv (s, g)"
  shows "sub_inv (watched_sub (s, g) (Tick i t))"
proof (cases "i \<in> set (armed s) \<and> i < length (records s)")
  case True
  obtain r cs again where p: "pump_tick t (records s ! i) = (r, cs, again)" by (cases "pump_tick t (records s ! i)") auto
  have "holds (g i) (records s ! i)" using assms True by (simp add: sub_inv_def)
  from holds_tick [OF this, of t] p have h: "holds (\<lambda>b. g i b @ tick_bytes t (records s ! i) b) r" by simp
  have "proc_pid r = proc_pid (records s ! i)" using pid_tick [of t "records s ! i"] p by simp
  then show ?thesis using assms True h
    by (auto simp: watched_sub_def sub_tick_def p sub_inv_def nth_list_update)
qed (use assms in \<open>auto simp: watched_sub_def sub_tick_def\<close>)

interpretation sub: component watched_sub sub_inv
proof unfold_locales
  fix x e assume inv: "sub_inv x"
  obtain s g where x: "x = (s, g)" by (cases x)
  show "sub_inv (watched_sub x e)"
  proof (cases e)
    case (Request a m)
    then show ?thesis using sub_step_request [of s g a m] inv x by (simp add: watched_sub_def)
  next
    case (Tick i t)
    then show ?thesis using sub_step_tick [of s g i t] inv x by simp
  qed
qed

lemma new_sub_inv: "sub_inv (new_sub, \<lambda>i b. [])"
  by (simp add: sub_inv_def new_sub_def)

text \<open>C32. The service keeps what it promises about its processes, whatever is requested and whatever the
  C layer answers: at most 16 pids are known at a time, each leading to a record of its own, and no
  record whose limit compares as a number holds more than that of either stream. What it holds is a prefix
  of what was read from the stream and, unless the record is marked as truncated, all of it; a record is
  marked only when its limit is a number. A limit such as \<open>"x"\<close>, which the service takes from the request
  as it is, bounds nothing.\<close>

theorem subprocess_output:
  assumes "foldl watched_sub (new_sub, \<lambda>i b. []) es = (s, g)"
  shows "length (procs s) \<le> 16 \<and> distinct (map fst (procs s)) \<and>
    (\<forall>p\<in>set (procs s). snd p < length (records s) \<and> proc_pid (records s ! snd p) = fst p) \<and>
    (\<forall>i<length (records s). \<forall>b. let r = records s ! i in
       within_limit (maxOutput r) (sum_bytes (chunks_of b r)) \<and>
       prefix (concat (chunks_of b r)) (g i b) \<and>
       (if truncated r then \<exists>n. output_limit (maxOutput r) = AtMost n else concat (chunks_of b r) = g i b))"
  using sub.run_inv [OF new_sub_inv, of es] assms by (auto simp: sub_inv_def holds_def max_processes_def)

text \<open>A process that has exited is not polled again, so its output can be read as often as one likes.\<close>

lemma exited_final: "exited r \<Longrightarrow> pump_tick t r = (r, [], False)"
  by (simp add: pump_tick_def)

definition a_record :: proc where
  "a_record = \<lparr>proc_pid = 7, stdinFd = 3, stdoutFd = 4, stderrFd = 5, exited = False, exit_code = 0, exit_signal = 0,
     out_chunks = [], err_chunks = [], maxOutput = JNum 2, truncated = False\<rparr>"

text \<open>The mark is one for both streams: when one of them is too long, the other is not kept either.\<close>

lemma truncation_is_shared:
  "out_chunks (fst (drain True [Data [9], Again] (fst (drain False [Data [1, 2, 3], Again] a_record)))) = []"
  by code_simp

text \<open>A string for a limit: \<open>"100"\<close> is a hundred, \<open>"x"\<close> lets everything through.\<close>

lemma text_limits:
  "map (\<lambda>t. output_limit (JStr (js t))) [''100'', '' 0x10 '', ''2.5e2'', ''-1.5'', ''x'', ''Infinity'']
     = [AtMost 100, AtMost 16, AtMost 250, AtMost (-2), NoLimit, NoLimit]"
  "requested_output (JObj [(js ''maxOutput'', JStr (js ''x''))]) = JStr (js ''x'')"
  by code_simp+

lemma unlimited_output:
  assumes "output_limit (maxOutput r) = NoLimit" "\<not> truncated r"
  shows "snd (snd (drain_loop c fd (map Data bs) r)) \<and> chunks_of c (fst (drain_loop c fd (map Data bs) r)) = chunks_of c r @ bs"
  using assms
proof (induction bs arbitrary: r)
  case (Cons b bs)
  then show ?case using Cons.IH [of "set_chunks c (chunks_of c r @ [b]) r"] by (simp add: keep_chunk_def Let_def)
qed simp

text \<open>
  The timer of a process that is released while it runs goes on: the next read is from a descriptor
  that the C layer has closed, and may have given to another process.
\<close>

lemma released_still_polled:
  assumes "records s = [a_record]" "armed s = [0]"
  shows "records (sub_tick 0 \<lparr>t_out = [Data [1], Again], t_err = [], t_wait = Running, t_out_last = [], t_err_last = []\<rparr>
     (fst (release_proc \<lparr>a_spawn = Inl e, a_write = Inl e, a_kill = Inr (), a_release = Inr ()\<rparr> (JObj []) 0 s))) =
     [a_record\<lparr>out_chunks := [[1]]\<rparr>]"
  using assms by (simp add: release_proc_def Let_def sub_tick_def pump_tick_def drain_both_def drain_def a_record_def
    keep_chunk_def chunks_of_def set_chunks_def sum_bytes_def)

lemma subprocess_output_witness:
  "\<exists>msg s g. foldl watched_sub (new_sub, \<lambda>i b. [])
       [Request \<lparr>a_spawn = Inr (7, 3, 4, 5), a_write = Inl aborted_error, a_kill = Inr (), a_release = Inr ()\<rparr> msg,
        Tick 0 \<lparr>t_out = [Data [104], Data [105], Again], t_err = [], t_wait = Running, t_out_last = [], t_err_last = []\<rparr>] = (s, g) \<and>
     length (procs s) = 1 \<and> procs s ! 0 = (7, 0) \<and> sum_bytes (chunks_of True (records s ! 0)) \<le> 10485760 \<and>
     concat (chunks_of True (records s ! 0)) = [104, 105]"
proof -
  let ?h = "[(''op'', Some (JStr (js ''spawn'')))]"
  let ?a = "\<lparr>a_spawn = Inr (7, 3, 4, 5), a_write = Inl aborted_error, a_kill = Inr (), a_release = Inr ()\<rparr>"
  let ?t = "\<lparr>t_out = [Data [104], Data [105], Again], t_err = [], t_wait = Running, t_out_last = [], t_err_last = []\<rparr>"
  have "length (quote (js ''op'')) \<le> 14" "length (quote (js ''spawn'')) \<le> 32"
    using length_quote [of "js ''op''"] length_quote [of "js ''spawn''"] by simp_all
  then obtain msg where m: "encode ?h None = Inr msg" using encode_fits [of ?h None] by auto
  have "frame_decode msg = Inr (JObj (literal ?h), None)"
    using decode_encode [OF m literal_ok] by (simp add: name_plain norm_body_def)
  then have d: "fst (sub_dispatch ?a msg new_sub) = fst (spawn_proc ?a (JObj (literal ?h)) new_sub)"
    by (simp add: sub_dispatch_def sub_handle_def op_is_def Let_def split: prod.split sum.split)
  define r where "r = \<lparr>proc_pid = 7, stdinFd = 3, stdoutFd = 4, stderrFd = 5, exited = False, exit_code = 0, exit_signal = 0,
     out_chunks = [], err_chunks = [], maxOutput = default_max_output, truncated = False\<rparr>"
  have q: "requested_output (JObj [(js ''op'', JStr (js ''spawn''))]) = default_max_output"
    unfolding requested_output_def by simp
  have s1: "fst (sub_dispatch ?a msg new_sub) = \<lparr>records = [r], procs = [(7, 0)], armed = [0], calls = []\<rparr>"
    unfolding d by (simp add: spawn_proc_def new_sub_def max_processes_def procs_set_def Let_def q r_def)
  have t: "pump_tick ?t r = (r\<lparr>out_chunks := [[104], [105]]\<rparr>, [], True)"
    by (simp add: pump_tick_def drain_both_def drain_def r_def keep_chunk_def chunks_of_def set_chunks_def sum_bytes_def default_max_output_def)
  let ?es = "[Request ?a msg, Tick 0 ?t]"
  obtain s g where run: "foldl watched_sub (new_sub, \<lambda>i b. []) ?es = (s, g)" by (cases "foldl watched_sub (new_sub, \<lambda>i b. []) ?es")
  then have s: "s = \<lparr>records = [r\<lparr>out_chunks := [[104], [105]]\<rparr>], procs = [(7, 0)], armed = [0], calls = []\<rparr>"
    by (auto simp: watched_sub_def s1 sub_tick_def t)
  have "\<forall>i<length (records s). \<forall>b. within_limit (maxOutput (records s ! i)) (sum_bytes (chunks_of b (records s ! i)))"
    using subprocess_output [OF run] unfolding Let_def by blast
  then have "within_limit (maxOutput (records s ! 0)) (sum_bytes (chunks_of True (records s ! 0)))" by (simp add: s)
  then have "sum_bytes (chunks_of True (records s ! 0)) \<le> 10485760"
    by (simp add: s r_def default_max_output_def within_limit_def)
  moreover have "length (procs s) = 1 \<and> procs s ! 0 = (7, 0) \<and> concat (chunks_of True (records s ! 0)) = [104, 105]"
    by (simp add: s chunks_of_def)
  ultimately show ?thesis using run by blast
qed

end
