(* ===== verification/Subprocess_Client.thy ===== *)
theory Subprocess_Client
  imports Subprocess_Service
begin

text \<open>
  \<open>js/internal/subprocess-core.js\<close>, the client of the \<open>.subprocess\<close> service and the child process object of
  Node. The service is the model of \<open>Subprocess_Service\<close>; its handle is known. While a promise waits, other
  things happen at the service: what happens before each call of the client is a list of its events.
\<close>

section \<open>Calls\<close>

text \<open>
  \<open>call\<close>: the request number counts up; a reply that is not ok becomes an error. The answers of the C
  layer to the request come with the call, and \<open>lost\<close> is the error of a call whose handler throws.
\<close>

definition sub_error :: "json \<Rightarrow> js_error" where
  "sub_error h = \<lparr>message = or_else (string_field h ''message'') ''subprocess owner error'',
     code = Some (or_else (string_field h ''code'') ''ERR_IO''), errno = None, syscall = None, epath = None,
     skyjs_code = Some (or_else (string_field h ''code'') ''ERR_IO''), ename = js ''Error''\<rparr>"

definition sub_reply :: "bytes \<Rightarrow> js_error + json \<times> bytes option" where
  "sub_reply reply = (case frame_decode reply of
     Inl e \<Rightarrow> Inl (frame_js_error e)
   | Inr (h, body) \<Rightarrow> if field h ''ok'' = Some (JBool True) then Inr (h, body) else Inl (sub_error h))"

definition rpc :: "sub_answers \<Rightarrow> js_error \<Rightarrow> (string \<times> json option) list \<Rightarrow> bytes option \<Rightarrow> nat \<times> sub_state
    \<Rightarrow> (nat \<times> sub_state) \<times> (js_error + json \<times> bytes option)" where
  "rpc a lost header body x = (case x of (n, s) \<Rightarrow>
     (case encode ((''reqId'', Some (JNum (int n))) # header) body of
        Inl e \<Rightarrow> ((Suc n, s), Inl e)
      | Inr msg \<Rightarrow> (case sub_dispatch a msg s of
           (s', Inl e) \<Rightarrow> ((Suc n, s'), Inl lost)
         | (s', Inr reply) \<Rightarrow> ((Suc n, s'), sub_reply reply))))"

definition meanwhile :: "sub_event list \<Rightarrow> nat \<times> sub_state \<Rightarrow> nat \<times> sub_state" where
  "meanwhile es x = (fst x, foldl sub_step (snd x) es)"

section \<open>ChildProcess\<close>

text \<open>What was pushed to \<open>stdout\<close> and \<open>stderr\<close> (\<open>None\<close> is \<open>null\<close>), and the events of the child.\<close>

datatype child_event = Spawned | Exited int "int option" | Closed int "int option" | Failed js_error

record child =
  c_pid :: int
  exitCode :: "int option"
  signalCode :: "int option"
  killed :: bool
  out_pushed :: "bytes option list"
  err_pushed :: "bytes option list"
  child_events :: "child_event list"

definition new_child :: "int \<Rightarrow> child" where
  "new_child pid = \<lparr>c_pid = pid, exitCode = None, signalCode = None, killed = False, out_pushed = [], err_pushed = [], child_events = []\<rparr>"

definition pid_request :: "string \<Rightarrow> int \<Rightarrow> (string \<times> json option) list" where
  "pid_request op pid = [(''op'', Some (JStr (js op))), (''pid'', Some (JNum pid))]"

definition read_request_of :: "int \<Rightarrow> string \<Rightarrow> (string \<times> json option) list" where
  "read_request_of pid stream = pid_request ''read'' pid @ [(''stream'', Some (JStr (js stream)))]"

definition number_of :: "json option \<Rightarrow> int" where
  "number_of v = (case v of Some (JNum n) \<Rightarrow> n | _ \<Rightarrow> 0)"

definition truthy :: "json option \<Rightarrow> bool" where
  "truthy v = (case v of None \<Rightarrow> False | Some j \<Rightarrow> \<not> falsy j)"

text \<open>The part of \<open>_waitFor\<close> after the exit; \<open>Rejects\<close> is a call that failed.\<close>

datatype waited = StillWaiting | Rejects js_error | Resolves int "int option"

definition settle_child :: "json \<Rightarrow> bytes option \<Rightarrow> bytes option \<Rightarrow> child \<Rightarrow> child" where
  "settle_child header out err c =
     (let code = number_of (field header ''code'');
          sg = (if truthy (field header ''signal'') then Some (number_of (field header ''signal'')) else None);
          pushed = (\<lambda>b. (case b of None \<Rightarrow> [] | Some d \<Rightarrow> [Some d]) @ [None])
      in c\<lparr>exitCode := Some code, signalCode := sg, out_pushed := out_pushed c @ pushed out,
           err_pushed := err_pushed c @ pushed err, child_events := child_events c @ [Exited code sg, Closed code sg]\<rparr>)"

definition finish_wait :: "sub_answers \<Rightarrow> js_error \<Rightarrow> int \<Rightarrow> json \<Rightarrow> sub_event list \<times> sub_event list \<times> sub_event list
    \<Rightarrow> child \<Rightarrow> nat \<times> sub_state \<Rightarrow> child \<times> (nat \<times> sub_state) \<times> waited" where
  "finish_wait a lost pid header es c x =
     (case rpc a lost (read_request_of pid ''stdout'') None (meanwhile (fst es) x) of
        (x1, Inl e) \<Rightarrow> (c, x1, Rejects e)
      | (x1, Inr (h1, out)) \<Rightarrow>
          (case rpc a lost (read_request_of pid ''stderr'') None (meanwhile (fst (snd es)) x1) of
             (x2, Inl e) \<Rightarrow> (c, x2, Rejects e)
           | (x2, Inr (h2, err)) \<Rightarrow>
               (let c' = settle_child header out err c
                in (case rpc a lost (pid_request ''release'' pid) None (meanwhile (snd (snd es)) x2) of
                      (x3, Inl e) \<Rightarrow> (c', x3, Rejects e)
                    | (x3, Inr h3) \<Rightarrow> (c', x3, Resolves (the (exitCode c')) (signalCode c'))))))"

text \<open>\<open>_waitFor\<close>: a poll for each list of events, with a sleep in between; \<open>es\<close> is what happens before the last calls.\<close>

fun wait_for :: "sub_answers \<Rightarrow> js_error \<Rightarrow> int \<Rightarrow> sub_event list list \<Rightarrow> sub_event list \<times> sub_event list \<times> sub_event list
    \<Rightarrow> child \<Rightarrow> nat \<times> sub_state \<Rightarrow> child \<times> (nat \<times> sub_state) \<times> waited" where
  "wait_for a lost pid [] es c x = (c, x, StillWaiting)"
| "wait_for a lost pid (p # ps) es c x =
     (case rpc a lost (pid_request ''status'' pid) None (meanwhile p x) of
        (x1, Inl e) \<Rightarrow> (c, x1, Rejects e)
      | (x1, Inr (h, b)) \<Rightarrow>
          if truthy (field h ''exited'') then finish_wait a lost pid h es c x1
          else wait_for a lost pid ps es c x1)"

text \<open>\<open>kill\<close>, the sink of \<open>stdin\<close>, and the answer of the service to \<open>spawn\<close>.\<close>

definition kill_child :: "sub_answers \<Rightarrow> js_error \<Rightarrow> json option \<Rightarrow> child \<Rightarrow> nat \<times> sub_state \<Rightarrow> child \<times> nat \<times> sub_state" where
  "kill_child a lost signal c x =
     (c\<lparr>killed := True\<rparr>, fst (rpc a lost (pid_request ''kill'' (c_pid c) @ [(''signal'', signal)]) None x))"

definition write_child :: "sub_answers \<Rightarrow> js_error \<Rightarrow> bytes \<Rightarrow> child \<Rightarrow> nat \<times> sub_state \<Rightarrow> (nat \<times> sub_state) \<times> js_error option" where
  "write_child a lost chunk c x = (case rpc a lost (pid_request ''write'' (c_pid c)) (Some chunk) x of
     (x', Inl e) \<Rightarrow> (x', Some e) | (x', Inr r) \<Rightarrow> (x', None))"

definition spawn_child :: "sub_answers \<Rightarrow> js_error \<Rightarrow> (string \<times> json option) list \<Rightarrow> nat \<times> sub_state
    \<Rightarrow> child \<times> (nat \<times> sub_state) \<times> (js_error + int)" where
  "spawn_child a lost request x = (case rpc a lost ((''op'', Some (JStr (js ''spawn''))) # request) None x of
     (x', Inl e) \<Rightarrow> ((new_child 0)\<lparr>child_events := [Failed e]\<rparr>, x', Inl e)
   | (x', Inr (h, b)) \<Rightarrow> (let pid = number_of (field h ''pid'') in ((new_child pid)\<lparr>child_events := [Spawned]\<rparr>, x', Inr pid)))"

text \<open>\<open>exec\<close> after the wait: \<open>out\<close> are the chunks its listener got from \<open>stdout\<close>.\<close>

definition exec_result :: "jsstr \<Rightarrow> bool \<Rightarrow> bytes list \<Rightarrow> int \<Rightarrow> js_error + int \<times> bytes" where
  "exec_result program allowNonZero out st =
     (if st \<noteq> 0 \<and> \<not> allowNonZero
      then Inl (skyjs_error (js ''ERR_IO'') (program @ js '' exited with code '' @ int_str st))
      else Inr (st, concat out))"

section \<open>Calls that get through\<close>

lemma length_json_obj: "length (json_str (JObj ps)) \<le> 2 + sum_list (map (\<lambda>p. 6 * length (fst p) + 4 + length (json_str (snd p))) ps)"
proof -
  have "length (join_with [44] (map (\<lambda>p. quote (fst p) @ 58 # json_str (snd p)) ps))
      \<le> sum_list (map (\<lambda>p. 6 * length (fst p) + 4 + length (json_str (snd p))) ps)"
  proof (induction ps)
    case (Cons p ps)
    then show ?case using length_quote [of "fst p"] by (cases ps) auto
  qed simp
  then show ?thesis by simp
qed

definition small :: "int \<Rightarrow> bool" where
  "small i \<longleftrightarrow> \<bar>i\<bar> < 2 ^ 53"

lemma small_int: "small i \<Longrightarrow> length (int_str i) \<le> 17"
proof -
  have b: "n < 2 ^ 53 \<Longrightarrow> length (to_radix 10 n) \<le> 16" for n
    using length_to_radix [of 10 n 15] by simp
  show "small i \<Longrightarrow> length (int_str i) \<le> 17"
    using b [of "nat i"] b [of "nat (- i)"] by (cases "i < 0") (auto simp: small_def int_str_def nat_less_iff)
qed

lemma more_names: "list_all (\<lambda>k. index_key (js k) = None) [''pid'', ''exited'', ''signal'', ''truncated'', ''stdoutLength'', ''stderrLength'', ''stream'', ''pending'']"
  by code_simp

lemmas more_name = more_names [unfolded list.pred_inject]

text \<open>A call whose request and reply fit is the handler applied to the request.\<close>

lemma rpc_through:
  assumes "sub_handle a (JObj (literal req)) (norm_body body) s = (s', ok_reply fs b)"
    and "req = (''reqId'', Some (JNum (int n))) # header"
    and "json_ok (JObj (literal req))" "json_ok (JObj (literal ((''ok'', Some (JBool True)) # fs)))"
    and "length (json_str (JObj (literal req))) \<le> 21845"
    and "length (json_str (JObj (literal ((''ok'', Some (JBool True)) # fs)))) \<le> 21845"
    and "case body of None \<Rightarrow> True | Some d \<Rightarrow> length d < 4294967296" "case b of None \<Rightarrow> True | Some d \<Rightarrow> length d < 4294967296"
  shows "rpc a lost header body (n, s) = ((Suc n, s'), Inr (JObj (literal ((''ok'', Some (JBool True)) # fs)), norm_body b))"
proof -
  obtain msg where m: "encode req body = Inr msg" using encode_fits [OF assms(5)] by blast
  obtain r where r: "ok_reply fs b = Inr r" using encode_fits [OF assms(6)] unfolding ok_reply_def by blast
  have d: "frame_decode msg = Inr (JObj (literal req), norm_body body)" by (rule decode_encode [OF m assms(3,7)])
  have e: "frame_decode r = Inr (JObj (literal ((''ok'', Some (JBool True)) # fs)), norm_body b)"
    by (rule decode_encode [OF r [unfolded ok_reply_def] assms(4,8)])
  have "sub_dispatch a msg s = (s', Inr r)"
    using assms(1) r by (simp add: sub_dispatch_def d del: literal.simps)
  moreover have "sub_reply r = Inr (JObj (literal ((''ok'', Some (JBool True)) # fs)), norm_body b)"
    by (simp add: sub_reply_def e)
  ultimately show ?thesis using m by (simp add: rpc_def flip: assms(2))
qed

text \<open>A record whose numbers can be printed, and whose output fits into a frame.\<close>

definition printable :: "proc \<Rightarrow> bool" where
  "printable r \<longleftrightarrow> small (proc_pid r) \<and> small (exit_code r) \<and> small (exit_signal r)
     \<and> (\<forall>b. sum_bytes (chunks_of b r) < 4294967296)"

definition status_fields :: "nat \<Rightarrow> proc \<Rightarrow> (string \<times> json option) list" where
  "status_fields n r = [(''reqId'', Some (JNum (int n))), (''op'', Some (JStr (js ''status''))), (''pid'', Some (JNum (proc_pid r))),
     (''exited'', Some (JBool (exited r))), (''code'', Some (JNum (exit_code r))), (''signal'', Some (JNum (exit_signal r))),
     (''truncated'', Some (JBool (truncated r))),
     (''stdoutLength'', Some (JNum (sum_bytes (out_chunks r)))), (''stderrLength'', Some (JNum (sum_bytes (err_chunks r))))]"

lemma length_js_bool: "length (json_str (JBool b)) \<le> 5"
  by simp

lemma printable_sizes:
  assumes "printable r"
  shows "small (sum_bytes (out_chunks r))" "small (sum_bytes (err_chunks r))" "small (proc_pid r)" "small (exit_code r)"
    "small (exit_signal r)"
proof -
  have s: "sum_bytes cs < 4294967296 \<Longrightarrow> small (sum_bytes cs)" for cs by (simp add: small_def sum_bytes_def)
  show "small (sum_bytes (out_chunks r))" "small (sum_bytes (err_chunks r))" "small (proc_pid r)" "small (exit_code r)"
    "small (exit_signal r)"
    using assms s by (auto simp: printable_def chunks_of_def all_bool_eq)
qed

lemma find_request: "map_of (procs s) pid = Some i \<Longrightarrow>
  find_proc (JObj (literal ((''reqId'', Some (JNum n)) # pid_request op pid @ fs))) s = Some i"
  by (simp add: find_proc_def pid_request_def)

lemma rpc_status:
  assumes "map_of (procs s) pid = Some i" "proc_pid (records s ! i) = pid" "printable (records s ! i)" "small (int n)"
  shows "rpc a lost (pid_request ''status'' pid) None (n, s) =
    ((Suc n, s), Inr (JObj (literal ((''ok'', Some (JBool True)) # status_fields n (records s ! i))), None))"
proof -
  let ?req = "(''reqId'', Some (JNum (int n))) # pid_request ''status'' pid" let ?r = "records s ! i"
  note sz = printable_sizes [OF assms(3)]
  have "rpc a lost (pid_request ''status'' pid) None (n, s) =
    ((Suc n, s), Inr (JObj (literal ((''ok'', Some (JBool True)) # status_fields n ?r)), norm_body None))"
  proof (rule rpc_through [OF _ refl])
    show "sub_handle a (JObj (literal ?req)) (norm_body None) s = (s, ok_reply (status_fields n ?r) None)"
      using find_request [OF assms(1), of "int n" "''status''" "[]"]
      by (simp add: sub_handle_def op_is_def status_reply_def echo_def status_fields_def pid_request_def)
    show "json_ok (JObj (literal ?req))" by (rule literal_ok) (simp_all add: pid_request_def name_plain more_name)
    show "json_ok (JObj (literal ((''ok'', Some (JBool True)) # status_fields n ?r)))"
      by (rule literal_ok) (simp_all add: status_fields_def name_plain more_name)
    show "length (json_str (JObj (literal ?req))) \<le> 21845"
      using length_json_obj [of "literal ?req"] small_int [OF assms(4)] small_int [OF sz(3)] assms(2) length_quote [of "js ''status''"]
      by (simp add: pid_request_def del: json_str.simps(7))
    show "length (json_str (JObj (literal ((''ok'', Some (JBool True)) # status_fields n ?r)))) \<le> 21845"
      using length_json_obj [of "literal ((''ok'', Some (JBool True)) # status_fields n ?r)"] small_int [OF assms(4)]
        sz [THEN small_int] length_quote [of "js ''status''"] length_js_bool [of True] length_js_bool [of "exited ?r"] length_js_bool [of "truncated ?r"]
      by (simp add: status_fields_def del: json_str.simps(2,7))
  qed simp_all
  then show ?thesis by (simp add: norm_body_def)
qed

lemma rpc_read:
  assumes "map_of (procs s) pid = Some i" "proc_pid (records s ! i) = pid" "printable (records s ! i)" "small (int n)"
    and "exited (records s ! i)" "stream \<in> {''stdout'', ''stderr''}"
  shows "\<exists>h. rpc a lost (read_request_of pid stream) None (n, s) =
    ((Suc n, s), Inr (h, norm_body (Some (concat (chunks_of (stream = ''stdout'') (records s ! i))))))"
proof -
  let ?req = "(''reqId'', Some (JNum (int n))) # read_request_of pid stream" let ?r = "records s ! i"
  let ?fs = "[(''reqId'', Some (JNum (int n))), (''op'', Some (JStr (js ''read''))), (''pid'', Some (JNum pid)), (''exited'', Some (JBool True))]"
  note sz = printable_sizes [OF assms(3)]
  have "rpc a lost (read_request_of pid stream) None (n, s) =
    ((Suc n, s), Inr (JObj (literal ((''ok'', Some (JBool True)) # ?fs)), norm_body (Some (concat (chunks_of (stream = ''stdout'') ?r)))))"
  proof (rule rpc_through [OF _ refl])
    show "sub_handle a (JObj (literal ?req)) (norm_body None) s = (s, ok_reply ?fs (Some (concat (chunks_of (stream = ''stdout'') ?r))))"
      using find_request [OF assms(1), of "int n" "''read''" "[(''stream'', Some (JStr (js stream)))]"] assms(2,5,6)
      by (auto simp: sub_handle_def op_is_def read_output_def echo_def read_request_of_def pid_request_def)
    show "json_ok (JObj (literal ?req))" by (rule literal_ok) (simp_all add: pid_request_def read_request_of_def name_plain more_name)
    show "json_ok (JObj (literal ((''ok'', Some (JBool True)) # ?fs)))" by (rule literal_ok) (simp_all add: name_plain more_name)
    have "length (quote (js stream)) \<le> 38" using length_quote [of "js stream"] assms(6) by auto
    then show "length (json_str (JObj (literal ?req))) \<le> 21845"
      using length_json_obj [of "literal ?req"] small_int [OF assms(4)] small_int [OF sz(3)] assms(2) length_quote [of "js ''read''"]
      by (simp add: pid_request_def read_request_of_def del: json_str.simps(7))
    show "length (json_str (JObj (literal ((''ok'', Some (JBool True)) # ?fs)))) \<le> 21845"
      using length_json_obj [of "literal ((''ok'', Some (JBool True)) # ?fs)"] small_int [OF assms(4)] small_int [OF sz(3)] assms(2)
        length_quote [of "js ''read''"]
      by (simp del: json_str.simps(7))
    have "sum_bytes (chunks_of (stream = ''stdout'') ?r) < 4294967296" using assms(3) by (simp add: printable_def)
    then show "case Some (concat (chunks_of (stream = ''stdout'') ?r)) of None \<Rightarrow> True | Some d \<Rightarrow> length d < 4294967296"
      by (simp add: sum_bytes_def)
  qed simp_all
  then show ?thesis by blast
qed

lemma rpc_release:
  assumes "map_of (procs s) pid = Some i" "proc_pid (records s ! i) = pid" "small pid" "small (int n)" "a_release a = Inr ()"
  shows "\<exists>h. rpc a lost (pid_request ''release'' pid) None (n, s) =
    ((Suc n, s\<lparr>calls := calls s @ [ReleaseProcess pid], procs := procs_delete pid (procs s)\<rparr>), Inr (h, None))"
proof -
  let ?req = "(''reqId'', Some (JNum (int n))) # pid_request ''release'' pid"
  let ?fs = "[(''reqId'', Some (JNum (int n))), (''op'', Some (JStr (js ''release'')))]"
  let ?s = "s\<lparr>calls := calls s @ [ReleaseProcess pid], procs := procs_delete pid (procs s)\<rparr>"
  have "rpc a lost (pid_request ''release'' pid) None (n, s) =
    ((Suc n, ?s), Inr (JObj (literal ((''ok'', Some (JBool True)) # ?fs)), norm_body None))"
  proof (rule rpc_through [OF _ refl])
    show "sub_handle a (JObj (literal ?req)) (norm_body None) s = (?s, ok_reply ?fs None)"
      using find_request [OF assms(1), of "int n" "''release''" "[]"] assms(2,5)
      by (simp add: sub_handle_def op_is_def release_proc_def echo_def pid_request_def Let_def)
    show "json_ok (JObj (literal ?req))" by (rule literal_ok) (simp_all add: pid_request_def name_plain more_name)
    show "json_ok (JObj (literal ((''ok'', Some (JBool True)) # ?fs)))" by (rule literal_ok) (simp_all add: name_plain more_name)
    show "length (json_str (JObj (literal ?req))) \<le> 21845"
      using length_json_obj [of "literal ?req"] small_int [OF assms(4)] small_int [OF assms(3)] length_quote [of "js ''release''"]
      by (simp add: pid_request_def del: json_str.simps(7))
    show "length (json_str (JObj (literal ((''ok'', Some (JBool True)) # ?fs)))) \<le> 21845"
      using length_json_obj [of "literal ((''ok'', Some (JBool True)) # ?fs)"] small_int [OF assms(4)] length_quote [of "js ''release''"]
      by (simp del: json_str.simps(7))
  qed simp_all
  then show ?thesis by (auto simp: norm_body_def)
qed


section \<open>Waiting for a process\<close>

text \<open>
  What may happen at the service while the client waits: its timers, and any requests but those that start
  or release a process. They leave the table of processes alone, and a process that has exited as it is.
\<close>

fun harmless :: "sub_event \<Rightarrow> bool" where
  "harmless (Tick i t) = True"
| "harmless (Request a msg) = (case frame_decode msg of Inl e \<Rightarrow> True
     | Inr (h, b) \<Rightarrow> \<not> op_is h ''spawn'' \<and> \<not> op_is h ''release'')"

definition keeps_process :: "nat \<Rightarrow> sub_state \<Rightarrow> sub_state \<Rightarrow> bool" where
  "keeps_process i s s' \<longleftrightarrow> procs s' = procs s \<and> length (records s') = length (records s)
     \<and> (i < length (records s) \<longrightarrow> proc_pid (records s' ! i) = proc_pid (records s ! i)
       \<and> (exited (records s ! i) \<longrightarrow> exited (records s' ! i) \<and> exit_code (records s' ! i) = exit_code (records s ! i)
           \<and> exit_signal (records s' ! i) = exit_signal (records s ! i)
           \<and> chunks_of True (records s' ! i) = chunks_of True (records s ! i)
           \<and> chunks_of False (records s' ! i) = chunks_of False (records s ! i)))"

lemma keeps_refl: "keeps_process i s s" "keeps_process i s (s\<lparr>calls := cs\<rparr>)"
  by (simp_all add: keeps_process_def)

lemma keeps_trans: "keeps_process i s t \<Longrightarrow> keeps_process i t u \<Longrightarrow> keeps_process i s u"
  unfolding keeps_process_def by auto

lemma keeps_close: "keeps_process i s (fst (close_stdin h j s))"
  by (cases "j < length (records s)") (auto simp: keeps_process_def close_stdin_def Let_def nth_list_update chunks_of_def)

lemma keeps_handle:
  assumes "\<not> op_is h ''spawn''" "\<not> op_is h ''release''"
  shows "keeps_process i s (fst (sub_handle a h b s))"
  using assms keeps_refl keeps_close
  by (simp add: sub_handle_def Let_def write_stdin_def kill_proc_def split: option.split)

lemma keeps_tick: "keeps_process i s (sub_tick j t s)"
proof (cases "j \<in> set (armed s) \<and> j < length (records s)")
  case True
  obtain r cs again where p: "pump_tick t (records s ! j) = (r, cs, again)" by (cases "pump_tick t (records s ! j)") auto
  have "proc_pid r = proc_pid (records s ! j)" using pid_tick [of t "records s ! j"] p by simp
  moreover have "r = records s ! j" if "exited (records s ! j)" using exited_final [OF that, of t] p by simp
  ultimately show ?thesis using True by (auto simp: keeps_process_def sub_tick_def p nth_list_update)
qed (auto simp: sub_tick_def keeps_refl)

lemma keeps_step: "harmless e \<Longrightarrow> keeps_process i s (sub_step s e)"
proof (cases e)
  case (Request a msg)
  assume h: "harmless e"
  show ?thesis
  proof (cases "frame_decode msg")
    case (Inl x)
    then show ?thesis using Request by (simp add: sub_dispatch_def keeps_refl)
  next
    case (Inr y)
    obtain hd b where y: "y = (hd, b)" by (cases y)
    then have "keeps_process i s (fst (sub_handle a hd b s))" using h Request Inr by (intro keeps_handle) simp_all
    then show ?thesis using Request Inr y keeps_refl by (auto simp: sub_dispatch_def split: prod.split sum.split)
  qed
qed (simp add: keeps_tick)

lemma keeps_run: "list_all harmless es \<Longrightarrow> keeps_process i s (foldl sub_step s es)"
  by (induction es arbitrary: s) (auto intro: keeps_refl keeps_trans keeps_step)

text \<open>The states of the service at the polls, and the child after a process has been waited for.\<close>

fun visits :: "sub_event list list \<Rightarrow> sub_state \<Rightarrow> sub_state list" where
  "visits [] s = []"
| "visits (p # ps) s = (let t = foldl sub_step s p in t # visits ps t)"

definition pushed_bytes :: "bytes \<Rightarrow> bytes option list" where
  "pushed_bytes d = (if d = [] then [] else [Some d]) @ [None]"

definition signal_of :: "proc \<Rightarrow> int option" where
  "signal_of r = (if exit_signal r = 0 then None else Some (exit_signal r))"

definition waited_child :: "proc \<Rightarrow> child \<Rightarrow> child" where
  "waited_child r c = c\<lparr>exitCode := Some (exit_code r), signalCode := signal_of r,
     out_pushed := out_pushed c @ pushed_bytes (concat (out_chunks r)), err_pushed := err_pushed c @ pushed_bytes (concat (err_chunks r)),
     child_events := child_events c @ [Exited (exit_code r) (signal_of r), Closed (exit_code r) (signal_of r)]\<rparr>"

lemma status_read:
  "field (JObj (literal ((''ok'', Some (JBool True)) # status_fields n r))) ''exited'' = Some (JBool (exited r))"
  "field (JObj (literal ((''ok'', Some (JBool True)) # status_fields n r))) ''code'' = Some (JNum (exit_code r))"
  "field (JObj (literal ((''ok'', Some (JBool True)) # status_fields n r))) ''signal'' = Some (JNum (exit_signal r))"
  by (simp_all add: status_fields_def)

lemma settle_status:
  "settle_child (JObj (literal ((''ok'', Some (JBool True)) # status_fields n r)))
     (norm_body (Some (concat (out_chunks r)))) (norm_body (Some (concat (err_chunks r)))) c = waited_child r c"
  unfolding settle_child_def status_read
  by (simp add: waited_child_def number_of_def truthy_def signal_of_def pushed_bytes_def norm_body_def Let_def del: field.simps)

definition known :: "int \<Rightarrow> nat \<Rightarrow> sub_state \<Rightarrow> bool" where
  "known pid i s \<longleftrightarrow> map_of (procs s) pid = Some i \<and> i < length (records s) \<and> proc_pid (records s ! i) = pid"

lemma known_keeps: "known pid i s \<Longrightarrow> keeps_process i s t \<Longrightarrow> known pid i t"
  by (simp add: known_def keeps_process_def)

lemma finish_settles:
  assumes "known pid i s" "exited (records s ! i)" "printable (records s ! i)" "small (int n + 3)" "a_release a = Inr ()"
    and "list_all harmless (fst es)" "list_all harmless (fst (snd es))" "list_all harmless (snd (snd es))"
    and h: "h = JObj (literal ((''ok'', Some (JBool True)) # status_fields m (records s ! i)))"
  shows "\<exists>x. finish_wait a lost pid h es c (n, s) =
      (waited_child (records s ! i) c, x, Resolves (exit_code (records s ! i)) (signal_of (records s ! i)))
    \<and> pid \<notin> fst ` set (procs (snd x))"
proof -
  let ?r = "records s ! i"
  define s1 where "s1 = foldl sub_step s (fst es)"
  define s2 where "s2 = foldl sub_step s1 (fst (snd es))"
  define s3 where "s3 = foldl sub_step s2 (snd (snd es))"
  have k: "keeps_process i s s1" "keeps_process i s1 s2" "keeps_process i s2 s3"
    using keeps_run assms(6-8) by (simp_all add: s1_def s2_def s3_def)
  have kn: "known pid i s1" "known pid i s2" "known pid i s3" using known_keeps assms(1) k by blast+
  have e: "exited (records s1 ! i)" "exited (records s2 ! i)" "chunks_of True (records s1 ! i) = out_chunks ?r"
    "chunks_of False (records s2 ! i) = err_chunks ?r"
    using k(1,2) kn(1) assms(1,2) by (auto simp: keeps_process_def known_def chunks_of_def)
  have p: "printable (records s1 ! i)" "printable (records s2 ! i)"
    using k(1,2) kn(1) assms(1-3) by (auto simp: keeps_process_def known_def printable_def all_bool_eq)
  have pid: "small pid" using printable_sizes(3) [OF p(1)] kn(1) by (simp add: known_def)
  have n: "small (int n)" "small (int (Suc n))" "small (int (Suc (Suc n)))" using assms(4) by (auto simp: small_def)
  obtain h1 where 1: "rpc a lost (read_request_of pid ''stdout'') None (n, s1) = ((Suc n, s1), Inr (h1, norm_body (Some (concat (out_chunks ?r)))))"
    using rpc_read [of s1 pid i n "''stdout''" a lost] kn(1) p(1) n(1) e by (auto simp: known_def)
  obtain h2 where 2: "rpc a lost (read_request_of pid ''stderr'') None (Suc n, s2) = ((Suc (Suc n), s2), Inr (h2, norm_body (Some (concat (err_chunks ?r)))))"
    using rpc_read [of s2 pid i "Suc n" "''stderr''" a lost] kn(2) p(2) n(2) e by (auto simp: known_def)
  obtain h3 where 3: "rpc a lost (pid_request ''release'' pid) None (Suc (Suc n), s3) =
      ((Suc (Suc (Suc n)), s3\<lparr>calls := calls s3 @ [ReleaseProcess pid], procs := procs_delete pid (procs s3)\<rparr>), Inr (h3, None))"
    using rpc_release [of s3 pid i "Suc (Suc n)" a lost] kn(3) pid n(3) assms(5) by (auto simp: known_def)
  have "finish_wait a lost pid h es c (n, s) =
      (waited_child ?r c, (Suc (Suc (Suc n)), s3\<lparr>calls := calls s3 @ [ReleaseProcess pid], procs := procs_delete pid (procs s3)\<rparr>),
       Resolves (exit_code ?r) (signal_of ?r))"
    using 1 2 3 settle_status [of m ?r c] by (simp add: finish_wait_def meanwhile_def h waited_child_def flip: s1_def s2_def s3_def)
  then show ?thesis by (auto simp: procs_delete_def)
qed

text \<open>C12. 
  Waiting for a child gives its end: \<open>wait\<close> resolves after the first poll that finds the process exited, with
  its code and its signal; both streams of the child get all the output that the service has kept and then
  their end; \<open>exit\<close> and \<open>close\<close> are emitted once; and the service forgets the process. Before that nothing
  happens to the child. This goes through the frames of four kinds of requests and their replies.
\<close>

theorem wait_settles:
  assumes "list_all (list_all harmless) ps" "list_all harmless (fst es)" "list_all harmless (fst (snd es))" "list_all harmless (snd (snd es))"
    and "known pid i s" "\<forall>t\<in>set (visits ps s). printable (records t ! i)" "small (int (n + length ps) + 3)" "a_release a = Inr ()"
  shows "case find (\<lambda>t. exited (records t ! i)) (visits ps s) of
      None \<Rightarrow> (\<exists>x. wait_for a lost pid ps es c (n, s) = (c, x, StillWaiting))
    | Some t \<Rightarrow> (\<exists>x. wait_for a lost pid ps es c (n, s) =
          (waited_child (records t ! i) c, x, Resolves (exit_code (records t ! i)) (signal_of (records t ! i)))
        \<and> pid \<notin> fst ` set (procs (snd x)))"
  using assms(1,5,6,7)
proof (induction ps arbitrary: s n)
  case (Cons p ps)
  define t where "t = foldl sub_step s p"
  have k: "known pid i t" using known_keeps [OF Cons.prems(2) keeps_run, of p] Cons.prems(1) by (simp add: t_def)
  have pr: "printable (records t ! i)" "\<forall>u\<in>set (visits ps t). printable (records u ! i)"
    using Cons.prems(3) by (simp_all add: t_def Let_def)
  have n: "small (int n)" "small (int (Suc n) + 3)" "small (int (Suc n + length ps) + 3)"
    using Cons.prems(4) by (auto simp: small_def)
  define H where "H = JObj (literal ((''ok'', Some (JBool True)) # status_fields n (records t ! i)))"
  have ex: "truthy (field H ''exited'') = exited (records t ! i)" unfolding H_def status_read by (simp add: truthy_def)
  have st: "rpc a lost (pid_request ''status'' pid) None (n, t) = ((Suc n, t), Inr (H, None))"
    unfolding H_def using rpc_status [of t pid i n a lost] k pr(1) n(1) by (simp add: known_def)
  show ?case
  proof (cases "exited (records t ! i)")
    case True
    from finish_settles [OF k True pr(1) n(2) assms(8,2-4) H_def, of lost c] show ?thesis
      using True st ex by (simp add: meanwhile_def Let_def flip: t_def)
  next
    case False
    have hs: "list_all (list_all harmless) ps" using Cons.prems(1) by simp
    have w: "wait_for a lost pid (p # ps) es c (n, s) = wait_for a lost pid ps es c (Suc n, t)"
      using False st ex by (simp add: meanwhile_def flip: t_def)
    from Cons.IH [OF hs k pr(2) n(3)] show ?thesis unfolding w
      using False by (simp add: Let_def flip: t_def)
  qed
qed simp


text \<open>A process that writes a byte and exits with 3 between the first poll and the second.\<close>

definition last_tick :: tick_answers where
  "last_tick = \<lparr>t_out = [Data [104], Again], t_err = [], t_wait = ExitedWith 3 0, t_out_last = [Eof], t_err_last = [Eof]\<rparr>"

definition one_process :: sub_state where
  "one_process = \<lparr>records = [a_record], procs = [(7, 0)], armed = [0], calls = []\<rparr>"

definition willing :: sub_answers where
  "willing = \<lparr>a_spawn = Inl aborted_error, a_write = Inr 0, a_kill = Inr (), a_release = Inr ()\<rparr>"

theorem wait_settles_witness:
  "\<exists>x. wait_for willing aborted_error 7 [[], [Tick 0 last_tick]] ([], [], []) (new_child 7) (1, one_process) =
     ((new_child 7)\<lparr>exitCode := Some 3, out_pushed := [Some [104], None], err_pushed := [None],
        child_events := [Exited 3 None, Closed 3 None]\<rparr>, x, Resolves 3 None) \<and> 7 \<notin> fst ` set (procs (snd x))"
proof -
  let ?r = "a_record\<lparr>stdoutFd := -1, stderrFd := -1, exited := True, exit_code := 3, out_chunks := [[104]]\<rparr>"
  let ?ps = "[[], [Tick 0 last_tick]]"
  have t: "pump_tick last_tick a_record = (?r, [CloseFd 4, CloseFd 5], False)"
    by (simp add: pump_tick_def last_tick_def drain_both_def drain_def a_record_def keep_chunk_def chunks_of_def set_chunks_def
        sum_bytes_def at_eof_def)
  have k: "known 7 0 one_process" by (simp add: known_def one_process_def a_record_def)
  have v: "visits ?ps one_process = [one_process, \<lparr>records = [?r], procs = [(7, 0)], armed = [], calls = [CloseFd 4, CloseFd 5]\<rparr>]"
    by (simp add: one_process_def sub_tick_def t)
  then have p: "\<forall>t\<in>set (visits ?ps one_process). printable (records t ! 0)"
    by (simp add: one_process_def printable_def a_record_def small_def chunks_of_def sum_bytes_def)
  have f: "find (\<lambda>t. exited (records t ! 0)) (visits ?ps one_process) =
      Some \<lparr>records = [?r], procs = [(7, 0)], armed = [], calls = [CloseFd 4, CloseFd 5]\<rparr>"
    unfolding v by (simp add: one_process_def a_record_def)
  have w: "waited_child ?r (new_child 7) = (new_child 7)\<lparr>exitCode := Some 3, out_pushed := [Some [104], None], err_pushed := [None],
        child_events := [Exited 3 None, Closed 3 None]\<rparr>" "signal_of ?r = None"
    by (simp_all add: waited_child_def new_child_def signal_of_def pushed_bytes_def a_record_def)
  show ?thesis
    using wait_settles [of ?ps "([], [], [])" 7 0 one_process 1 willing aborted_error "new_child 7", OF _ _ _ _ k p] f w
    by (simp add: willing_def small_def)
qed

text \<open>
  A wait that throws ends the timer of a process that is not marked as exited: nothing changes it any
  more, and the client polls for ever.
\<close>

lemma failed_wait_never_ends:
  assumes "i \<in> set (armed s)" "distinct (armed s)" "i < length (records s)" "\<not> exited (records s ! i)" "t_wait t = WaitFails"
    "t_out t = []" "t_err t = []"
  shows "\<not> exited (records (sub_tick i t s) ! i) \<and> i \<notin> set (armed (sub_tick i t s))"
  using assms by (simp add: sub_tick_def pump_tick_def drain_both_def drain_def Let_def)


text \<open>
  Before the service has answered to \<open>spawn\<close> the child has the pid 0: a \<open>wait\<close> that is called at once, as
  \<open>exec\<close> does, asks for it and is rejected.
\<close>

lemma unknown_reply:
  assumes "small (int n)"
  shows "\<exists>r. sub_fail (Some (JNum (int n))) (Some (JStr (js ''status''))) unknown_pid = Inr r \<and> (\<exists>e. sub_reply r = Inl e)"
proof -
  let ?ps = "[(''ok'', Some (JBool False)), (''reqId'', Some (JNum (int n))), (''op'', Some (JStr (js ''status''))),
     (''code'', Some (JStr (js ''ERR_NOT_FOUND''))), (''message'', Some (JStr (message unknown_pid)))]"
  have c: "code unknown_pid = Some (js ''ERR_NOT_FOUND'')" "length (message unknown_pid) \<le> 100" by code_simp+
  then have f: "sub_fail (Some (JNum (int n))) (Some (JStr (js ''status''))) unknown_pid = encode ?ps None"
    by (simp add: sub_fail_def normalize_error_def)
  have "length (json_str (JBool False)) \<le> 5" by simp
  then have "length (json_str (JObj (literal ?ps))) \<le> 21845"
    using length_json_obj [of "literal ?ps"] small_int [OF assms] length_quote [of "js ''status''"] length_quote [of "js ''ERR_NOT_FOUND''"]
      length_quote [of "message unknown_pid"] c(2) by (simp del: json_str.simps(2,7))
  then obtain r where r: "encode ?ps None = Inr r" using encode_fits by blast
  have "frame_decode r = Inr (JObj (literal ?ps), norm_body None)"
    by (rule decode_encode [OF r literal_ok]) (simp_all add: name_plain)
  then have "\<exists>e. sub_reply r = Inl e" by (simp add: sub_reply_def)
  then show ?thesis using f r by simp
qed

lemma early_wait_rejected:
  assumes "map_of (procs s) 0 = None" "small (int n)"
  shows "\<exists>x e. wait_for a lost 0 ([] # ps) es c (n, s) = (c, x, Rejects e)"
proof -
  let ?req = "(''reqId'', Some (JNum (int n))) # pid_request ''status'' 0"
  have "length (json_str (JObj (literal ?req))) \<le> 21845"
    using length_json_obj [of "literal ?req"] small_int [OF assms(2)] small_int [of 0] length_quote [of "js ''status''"]
    by (simp add: pid_request_def small_def del: json_str.simps(7))
  then obtain msg where m: "encode ?req None = Inr msg" using encode_fits by blast
  have d: "frame_decode msg = Inr (JObj (literal ?req), norm_body None)"
    by (rule decode_encode [OF m literal_ok]) (simp_all add: pid_request_def name_plain more_name)
  obtain r e where r: "sub_fail (Some (JNum (int n))) (Some (JStr (js ''status''))) unknown_pid = Inr r" "sub_reply r = Inl e"
    using unknown_reply [OF assms(2)] by blast
  have "sub_handle a (JObj (literal ?req)) (norm_body None) s = (s, Inr r)"
    using r(1) assms(1) by (simp add: sub_handle_def op_is_def find_proc_def pid_request_def)
  then have "sub_dispatch a msg s = (s, Inr r)" by (simp add: sub_dispatch_def d del: literal.simps)
  then have "rpc a lost (pid_request ''status'' 0) None (n, s) = ((Suc n, s), Inl e)" using m r(2) by (simp add: rpc_def)
  then show ?thesis by (simp add: meanwhile_def)
qed

section \<open>The type of a reply\<close>

text \<open>A header that says whether the request was done, and why not: with a code and a message that are strings.\<close>

definition reply_typed :: "json \<Rightarrow> bool" where
  "reply_typed h \<longleftrightarrow> field h ''ok'' = Some (JBool True)
     \<or> (field h ''ok'' = Some (JBool False) \<and> (\<exists>c m. field h ''code'' = Some (JStr c) \<and> field h ''message'' = Some (JStr m)))"

definition typed_bytes :: "js_error + bytes \<Rightarrow> bool" where
  "typed_bytes r \<longleftrightarrow> (case r of Inl e \<Rightarrow> True | Inr reply \<Rightarrow> \<exists>h b. frame_decode reply = Inr (h, b) \<and> reply_typed h)"

lemma typed_encode:
  assumes "distinct (map fst ps)" "list_all (\<lambda>p. index_key (js (fst p)) = None) ps"
    and "list_all (\<lambda>p. case snd p of None \<Rightarrow> True | Some v \<Rightarrow> json_ok v) ps"
    and "case b of None \<Rightarrow> True | Some d \<Rightarrow> length d < 4294967296" "reply_typed (JObj (literal ps))"
  shows "typed_bytes (encode ps b)"
proof (cases "encode ps b")
  case (Inr r)
  then show ?thesis using decode_encode [OF Inr literal_ok [OF assms(1-3)] assms(4)] assms(5)
    by (simp add: typed_bytes_def)
qed (simp add: typed_bytes_def)

definition fine :: "json option \<Rightarrow> bool" where
  "fine v \<longleftrightarrow> (case v of None \<Rightarrow> True | Some j \<Rightarrow> json_ok j)"

lemma fine_field: "json_ok h \<Longrightarrow> fine (field h k)"
  by (cases h) (auto simp: fine_def list_all_iff split: option.split dest!: map_of_SomeD)

lemma typed_fail:
  assumes "fine r" "fine op"
  shows "typed_bytes (sub_fail r op e)"
proof -
  define m where "m = (case normalize_error (Thrown e) None of Some m \<Rightarrow> m | None \<Rightarrow> e)"
  have "code m \<noteq> None" using normalize_thrown [of e None] normalize_thrown_code [of e None] by (auto simp: m_def)
  then obtain c where c: "code m = Some c" by blast
  let ?ps = "[(''ok'', Some (JBool False)), (''reqId'', r), (''op'', op), (''code'', Some (JStr c)), (''message'', Some (JStr (message m)))]"
  have "typed_bytes (encode ?ps None)"
    using assms by (intro typed_encode) (auto simp: name_plain fine_def reply_typed_def split: option.splits)
  then show ?thesis using c by (simp add: sub_fail_def m_def)
qed

lemma typed_ok:
  assumes "distinct (''ok'' # map fst fs)" "list_all (\<lambda>p. index_key (js (fst p)) = None) fs" "list_all (\<lambda>p. fine (snd p)) fs"
    and "case b of None \<Rightarrow> True | Some d \<Rightarrow> length d < 4294967296"
  shows "typed_bytes (ok_reply fs b)"
  unfolding ok_reply_def using assms by (intro typed_encode) (auto simp: name_plain fine_def reply_typed_def)

lemma even_more_names: "list_all (\<lambda>k. index_key (js k) = None) [''count'', ''written'', ''pids'']"
  by code_simp

lemmas service_names = name_plain more_name even_more_names [unfolded list.pred_inject]

definition output_fits :: "sub_state \<Rightarrow> bool" where
  "output_fits s \<longleftrightarrow> (\<forall>p\<in>set (procs s). snd p < length (records s))
     \<and> (\<forall>r\<in>set (records s). \<forall>b. sum_bytes (chunks_of b r) < 4294967296)"

lemma typed_then: "(\<And>x. typed_bytes (f x)) \<Longrightarrow> typed_bytes (and_then r f)"
  by (cases r) (simp_all add: typed_bytes_def)

lemma typed_handle:
  assumes "json_ok h" "output_fits s"
  shows "typed_bytes (snd (sub_handle a h b s))"
proof -
  note f = fine_field [OF assms(1)]
  have fs: "fine (Some (JNum n))" "fine (Some (JBool x))" "fine (Some (JStr t))" "fine (Some (JArr (map (\<lambda>p. JNum (fst p)) ps)))" for n x t and ps :: "(int \<times> nat) list"
    by (simp_all add: fine_def list_all_iff)
  have nf: "typed_bytes (sub_fail (field h ''reqId'') (field h ''op'') e)" for e by (rule typed_fail [OF f f])
  have er: "typed_bytes (Inl e)" for e by (simp add: typed_bytes_def)
  have ec: "typed_bytes (ok_reply (echo h) None)"
    by (rule typed_ok) (simp_all add: echo_def f service_names)
  have sp: "typed_bytes (snd (spawn_proc a h s))"
    by (auto simp: spawn_proc_def er f fs service_names Let_def intro!: typed_ok split: sum.split)
  have st: "typed_bytes (status_reply h r)" for r
    unfolding status_reply_def by (rule typed_ok) (simp_all add: echo_def f fs service_names)
  have rd: "typed_bytes (read_output h (records s ! i))" if "find_proc h s = Some i" for i
  proof -
    have "i < length (records s)" using that assms(2) by (auto simp: find_proc_def output_fits_def split: option.splits json.splits dest!: map_of_SomeD)
    then have "sum_bytes (chunks_of x (records s ! i)) < 4294967296" for x using assms(2) by (simp add: output_fits_def)
    then show ?thesis by (auto simp: read_output_def echo_def f fs service_names sum_bytes_def intro!: typed_ok)
  qed
  have wr: "typed_bytes (snd (write_stdin a h b i s))" for i
    by (auto simp: write_stdin_def nf Let_def echo_def f fs service_names intro!: typed_then typed_ok)
  have cl: "typed_bytes (snd (close_stdin h i s))" for i by (simp add: close_stdin_def Let_def ec)
  have ki: "typed_bytes (snd (kill_proc a h i s))" for i by (simp add: kill_proc_def typed_then ec)
  have re: "typed_bytes (snd (release_proc a h i s))" for i
    by (simp add: release_proc_def Let_def er ec split: sum.split)
  have li: "typed_bytes (ok_reply (echo h @ [(''pids'', Some (JArr (map (\<lambda>p. JNum (fst p)) (procs s))))]) None)"
    by (rule typed_ok) (simp_all add: echo_def f fs service_names)
  have pi: "typed_bytes (ok_reply [(''reqId'', field h ''reqId''), (''op'', Some (JStr (js ''pong''))), (''count'', Some (JNum (int (length (procs s)))))] None)"
    by (rule typed_ok) (simp_all add: f fs service_names)
  have un: "typed_bytes (encode ((''ok'', Some (JBool False)) # echo h @ [(''code'', Some (JStr (js ''ERR_PROTOCOL''))),
      (''message'', Some (JStr (js ''unknown subprocess op: '' @ value_text (field h ''op''))))]) None)"
    using f [of "''reqId''"] f [of "''op''"]
    by (intro typed_encode) (auto simp: echo_def service_names fine_def reply_typed_def split: option.splits)
  show ?thesis unfolding sub_handle_def Let_def
    by (simp add: nf sp st rd wr cl ki re li pi un ec split: option.split)
qed

text \<open>C39. 
  Whatever is sent to the service, what it answers is a frame that the client can read: its header is an
  object with a boolean \<open>ok\<close>, and when that is false a code and a message that are strings. The service
  keeps less output than fits into a frame, and the fields of the request have no fractions.
\<close>

theorem replies_typed:
  assumes "output_fits s" "case frame_decode msg of Inl e \<Rightarrow> True | Inr hb \<Rightarrow> json_ok (fst hb)"
    and "snd (sub_dispatch a msg s) = Inr reply"
  shows "\<exists>h b. frame_decode reply = Inr (h, b) \<and> reply_typed h"
proof -
  have f: "typed_bytes (sub_fail None None e)" for e by (rule typed_fail) (simp_all add: fine_def)
  have "typed_bytes (snd (sub_dispatch a msg s))"
  proof (cases "frame_decode msg")
    case (Inl e)
    then show ?thesis by (simp add: sub_dispatch_def f)
  next
    case (Inr hb)
    then have "typed_bytes (snd (sub_handle a (fst hb) (snd hb) s))" using assms(1,2) by (intro typed_handle) simp_all
    then show ?thesis using Inr f by (auto simp: sub_dispatch_def split: prod.split sum.split)
  qed
  then show ?thesis using assms(3) by (simp add: typed_bytes_def)
qed

theorem replies_typed_witness:
  "\<exists>msg reply. snd (sub_dispatch willing msg one_process) = Inr reply \<and> (\<exists>h b. frame_decode reply = Inr (h, b) \<and> reply_typed h)"
proof -
  let ?ps = "[(''op'', Some (JStr (js ''ping'')))]"
  have "length (quote (js ''op'')) \<le> 14" "length (quote (js ''ping'')) \<le> 32"
    using length_quote [of "js ''op''"] length_quote [of "js ''ping''"] by simp_all
  then obtain msg where m: "encode ?ps None = Inr msg" using encode_fits [of ?ps None] by auto
  have ok: "json_ok (JObj (literal ?ps))" by (rule literal_ok) (simp_all add: service_names)
  have d: "frame_decode msg = Inr (JObj (literal ?ps), norm_body None)" by (rule decode_encode [OF m ok]) simp
  let ?fs = "[(''ok'', Some (JBool True)), (''reqId'', None), (''op'', Some (JStr (js ''pong''))), (''count'', Some (JNum 1))]"
  have "length (json_str (JObj (literal ?fs))) \<le> 21845"
    using length_json_obj [of "literal ?fs"] small_int [of 1] length_js_bool [of True] length_quote [of "js ''pong''"]
    by (simp add: small_def del: json_str.simps(2,7))
  then obtain reply where r: "encode ?fs None = Inr reply" using encode_fits by blast
  have o: "output_fits one_process"
    by (simp add: output_fits_def one_process_def a_record_def chunks_of_def sum_bytes_def)
  have "snd (sub_dispatch willing msg one_process) = Inr reply"
    using r by (simp add: sub_dispatch_def d sub_handle_def op_is_def ok_reply_def one_process_def)
  moreover have "case frame_decode msg of Inl e \<Rightarrow> True | Inr hb \<Rightarrow> json_ok (fst hb)" using d ok by simp
  ultimately show ?thesis using replies_typed [OF o] by blast
qed

end
