(* ===== verification/Stream_Node.thy ===== *)
theory Stream_Node
  imports Buffer_Core
begin

text \<open>
  The Node streams, \<open>js/builtins/stream/index.js\<close>: \<open>Readable\<close>, \<open>Writable\<close>, \<open>Duplex\<close>,
  \<open>Transform\<close>, \<open>PassThrough\<close>, \<open>pipe\<close>, \<open>pipeline\<close> and \<open>finished\<close>.

  These classes call back into the program at almost every line: listeners, the functions \<open>read\<close>,
  \<open>write\<close> and \<open>transform\<close> of the options, and the callbacks of writes all run in the middle of an
  operation, may call any operation of any stream again, and may throw. The model is therefore a
  machine with an explicit stack. A frame is a point of the source where control comes back to, an
  operation replaces the top frame by what it does next, and a throw unwinds the stack to the next
  frame that stands for a \<open>try\<close>, the executor of a promise or a job. What the program does is a
  parameter: asked which call it is in, how many operations it has done there, and what has
  happened so far (the trace), it names its next operation. The theorems hold for every program.

  Promises are the ones the source makes, named by the place that makes them: the resolved promise a
  stream starts its writes with, the promises \<open>done\<close> and \<open>new Promise\<close> of write \<open>k\<close>, the promise of
  a pipeline and those of \<open>_readAsync\<close>. Jobs run in the order of the language, with the two extra
  turns a handler takes that returns a promise.
\<close>

section \<open>Values, streams and the machine\<close>

datatype node_error = UserErr nat | WriteAfterEnd | NotAFunction | TooFewStreams | BadText buffer_error
datatype schunk = BytesChunk bytes | StrChunk jsstr
datatype scb = UserCb nat | Noop | PromiseCb nat
datatype s_encoding = NoEnc | Enc jsstr | EncFn nat

datatype sevent = DataEv bytes | EndEv | CloseEv | ErrorEv node_error | FinishEv | DrainEv
datatype sname = NData | NEnd | NClose | NError | NFinish | NDrain

fun name_of :: "sevent \<Rightarrow> sname" where
  "name_of (DataEv b) = NData"
| "name_of EndEv = NEnd"
| "name_of CloseEv = NClose"
| "name_of (ErrorEv e) = NError"
| "name_of FinishEv = NFinish"
| "name_of DrainEv = NDrain"

text \<open>
  The listeners: those of the program, the two of \<open>pipe\<close>, those of \<open>pipeline\<close> and \<open>finished\<close>, and
  the callback of \<open>end\<close>, registered with \<open>once\<close> (wrappers are told apart by a number).
\<close>

datatype slistener =
    UserL nat | PipeData nat | PipeEnd nat bool | PipelineL nat | FinishedL nat scb | OnceL nat scb

text \<open>\<open>_finish\<close> and the methods depend on the class, the functions on the options.\<close>

datatype skind = KReadable | KWritable | KDuplex | KTransform
datatype read_fn = ReadNull | ReadNothing | ReadUser
datatype write_fn = WriteNothing | WriteUser | WriteTransform bool

datatype promise =
  Resolved nat | Done nat nat | Exec nat nat | PipelineP nat | AsyncP nat | TurnP nat nat

record stream_node =
  skind :: skind
  readHwm :: int
  rbuf :: "bytes list"
  rbuffered :: int
  flowing :: bool
  rended :: bool
  rdestroyed :: bool
  readable :: bool
  readFn :: read_fn
  writeHwm :: int
  wlength :: int
  wended :: bool
  wfinished :: bool
  wdestroyed :: bool
  writable :: bool
  writeFn :: write_fn
  writableTail :: promise
  writeError :: "node_error option"
  accepts :: "bytes list"
  slisteners :: "sname \<Rightarrow> slistener list"

text \<open>\<open>accepts\<close> lists the chunks taken so far: write \<open>k\<close> and its promises are named by the position.\<close>

datatype sreaction =
    RWrite nat nat bytes | RTrue | RAfter nat scb | RFinish nat | RSettle nat nat
  | RPipeline scb | RReadLoop nat nat nat

datatype pstate = Pending "sreaction list" | Fulfilled | Rejected node_error

datatype sjob = React sreaction pstate | Adopt nat nat | Turn nat nat

text \<open>The operations of the interface, and the two callbacks the classes hand out.\<close>

datatype sop =
    Push nat "schunk option" s_encoding | Read nat int | ReadAsync nat
  | PipeTo nat nat bool | Pause nat | Resume nat | Destroy nat "node_error option"
  | Write nat schunk s_encoding "scb option" | End nat "schunk option" s_encoding "scb option"
  | On nat sname nat | Pipeline "nat list" "nat option" | Finished nat "nat option"
  | WriteDone nat nat "node_error option"
  | TransformDone nat nat "node_error option" "schunk option"

datatype ucall =
    Main nat | CallListener nat nat sevent | CallRead nat int | CallWrite nat nat bytes
  | CallTransform nat nat bytes | CallCb nat "node_error option"

datatype ucmd = Do sop | Try sop | Return | Throw node_error

datatype sval = VBool bool | VChunk "bytes option" | VPromise | VThis | VUndefined

datatype sframe =
    Running ucall nat | Guard | DoOp sop | Throwing node_error | Ret sval
  | EmitF nat sevent | Deliver nat sevent "slistener list" | FlushLoop nat
  | PushRet nat | ReadRest nat | ReadLoop nat nat nat | ReadCheck nat nat nat | ReadDone nat nat
  | AsyncRet nat "bytes option" | AsyncEnd nat
  | Invoke scb "node_error option" | DrainCheck nat | EndRest nat "scb option"
  | DestroyRest nat "node_error option"
  | ResolveExec nat nat | ExecEnd nat nat | AdoptEnd nat nat | JobEnd
  | Settle nat "node_error option" | PipelineEnd nat | PipelineCb nat "nat option"

datatype obs =
    Pushed nat bytes | Took nat bytes | Emitted nat sevent | Accepted nat bytes
  | Sunk nat nat bytes | Called nat nat "node_error option"
  | CbCalled scb "node_error option" | Returned sval | Async nat "bytes option"
  | Caught node_error | Uncaught node_error

type_synonym stream_program = "obs list \<Rightarrow> ucall \<Rightarrow> nat \<Rightarrow> ucmd"

record machine =
  streams :: "nat \<Rightarrow> stream_node"
  promises :: "promise \<Rightarrow> pstate"
  jobs :: "sjob list"
  stack :: "sframe list"
  trace :: "obs list"
  settled :: "nat \<Rightarrow> bool"
  nextId :: nat

text \<open>The trace has the last thing first.\<close>

section \<open>The constructors\<close>

record soptions =
  o_kind :: skind
  o_hwm :: "int option"
  o_read :: bool
  o_write :: bool
  o_transform :: bool

definition default_hwm :: int where
  "default_hwm = 16 * 1024"

text \<open>\<open>opts.highWaterMark || HIGH_WATER_MARK\<close>, for both sides.\<close>

definition hwm_of :: "soptions \<Rightarrow> int" where
  "hwm_of opts = (case o_hwm opts of None \<Rightarrow> default_hwm | Some n \<Rightarrow> if n = 0 then default_hwm else n)"

definition read_fn_of :: "soptions \<Rightarrow> read_fn" where
  "read_fn_of opts = (if o_read opts then ReadUser
     else if o_kind opts = KReadable then ReadNull else ReadNothing)"

definition write_fn_of :: "soptions \<Rightarrow> write_fn" where
  "write_fn_of opts = (if o_kind opts = KTransform then WriteTransform (o_transform opts)
     else if o_write opts then WriteUser else WriteNothing)"

definition new_stream :: "soptions \<Rightarrow> nat \<Rightarrow> stream_node" where
  "new_stream opts i = \<lparr>skind = o_kind opts, readHwm = hwm_of opts, rbuf = [], rbuffered = 0,
     flowing = False, rended = False, rdestroyed = False, readable = True,
     readFn = read_fn_of opts, writeHwm = hwm_of opts, wlength = 0, wended = False,
     wfinished = False, wdestroyed = False, writable = True, writeFn = write_fn_of opts,
     writableTail = Resolved i, writeError = None, accepts = [], slisteners = (\<lambda>_. [])\<rparr>"

definition new_machine :: "(nat \<Rightarrow> soptions) \<Rightarrow> machine" where
  "new_machine cfg = \<lparr>streams = (\<lambda>i. new_stream (cfg i) i),
     promises = (\<lambda>p. case p of Resolved i \<Rightarrow> Fulfilled | _ \<Rightarrow> Pending []),
     jobs = [], stack = [], trace = [], settled = (\<lambda>_. False), nextId = 0\<rparr>"

definition has_read :: "skind \<Rightarrow> bool" where "has_read k \<longleftrightarrow> k \<noteq> KWritable"
definition has_write :: "skind \<Rightarrow> bool" where "has_write k \<longleftrightarrow> k \<noteq> KReadable"

section \<open>The parts of a step\<close>

definition stream :: "machine \<Rightarrow> nat \<Rightarrow> stream_node" where
  "stream M s = streams M s"

definition upd :: "nat \<Rightarrow> (stream_node \<Rightarrow> stream_node) \<Rightarrow> machine \<Rightarrow> machine" where
  "upd s f M = M\<lparr>streams := (streams M)(s := f (streams M s))\<rparr>"

definition push_frames :: "sframe list \<Rightarrow> machine \<Rightarrow> machine" where
  "push_frames fs M = M\<lparr>stack := fs @ stack M\<rparr>"

definition log_obs :: "obs \<Rightarrow> machine \<Rightarrow> machine" where
  "log_obs ob M = M\<lparr>trace := ob # trace M\<rparr>"

definition add_listener :: "sname \<Rightarrow> slistener \<Rightarrow> stream_node \<Rightarrow> stream_node" where
  "add_listener ev l nd = nd\<lparr>slisteners := (slisteners nd)(ev := slisteners nd ev @ [l])\<rparr>"

text \<open>\<open>p.then(...)\<close>, and settling a promise: the first one counts.\<close>

definition then_react :: "promise \<Rightarrow> sreaction \<Rightarrow> machine \<Rightarrow> machine" where
  "then_react p r M = (case promises M p of
     Pending rs \<Rightarrow> M\<lparr>promises := (promises M)(p := Pending (rs @ [r]))\<rparr>
   | v \<Rightarrow> M\<lparr>jobs := jobs M @ [React r v]\<rparr>)"

definition settle_promise :: "promise \<Rightarrow> pstate \<Rightarrow> machine \<Rightarrow> machine" where
  "settle_promise p v M = (case promises M p of
     Pending rs \<Rightarrow> M\<lparr>promises := (promises M)(p := v), jobs := jobs M @ map (\<lambda>r. React r v) rs\<rparr>
   | _ \<Rightarrow> M)"

text \<open>A throw: the frames up to the next boundary are dropped.\<close>

fun unwind :: "node_error \<Rightarrow> sframe list \<Rightarrow> machine \<Rightarrow> machine" where
  "unwind e [] M = log_obs (Uncaught e) (M\<lparr>stack := []\<rparr>)"
| "unwind e (Guard # fs) M = log_obs (Caught e) (M\<lparr>stack := fs\<rparr>)"
| "unwind e (ExecEnd s k # fs) M = settle_promise (Exec s k) (Rejected e) (M\<lparr>stack := fs\<rparr>)"
| "unwind e (AdoptEnd s k # fs) M = settle_promise (Done s k) (Rejected e) (M\<lparr>stack := fs\<rparr>)"
| "unwind e (JobEnd # fs) M = log_obs (Uncaught e) (M\<lparr>stack := fs\<rparr>)"
| "unwind e (AsyncEnd j # fs) M = settle_promise (AsyncP j) (Rejected e) (M\<lparr>stack := fs\<rparr>)"
| "unwind e (PipelineEnd j # fs) M = settle_promise (PipelineP j) (Rejected e) (M\<lparr>stack := fs\<rparr>)"
| "unwind e (f # fs) M = unwind e fs M"

definition throw :: "node_error \<Rightarrow> machine \<Rightarrow> machine" where
  "throw e M = unwind e (stack M) M"

text \<open>\<open>toBuffer\<close>: a function in the place of the encoding is not a string.\<close>

definition to_buffer :: "schunk \<Rightarrow> s_encoding \<Rightarrow> node_error + bytes" where
  "to_buffer chunk encoding = (case chunk of
     BytesChunk bs \<Rightarrow> Inr bs
   | StrChunk t \<Rightarrow> (case encoding of
        NoEnc \<Rightarrow> Inr (encode_utf8 t)
      | EncFn f \<Rightarrow> Inl NotAFunction
      | Enc name \<Rightarrow> (case encode_string t name of Inl e \<Rightarrow> Inl (BadText e) | Inr bs \<Rightarrow> Inr bs)))"

section \<open>Readable\<close>

definition call_read :: "stream_node \<Rightarrow> nat \<Rightarrow> int \<Rightarrow> sframe list" where
  "call_read nd s len = (case readFn nd of
     ReadNull \<Rightarrow> [DoOp (Push s None NoEnc)]
   | ReadNothing \<Rightarrow> []
   | ReadUser \<Rightarrow> [Running (CallRead s len) 0])"

definition enqueue :: "bytes \<Rightarrow> stream_node \<Rightarrow> stream_node" where
  "enqueue b nd = nd\<lparr>rbuf := rbuf nd @ [b], rbuffered := rbuffered nd + int (length b)\<rparr>"

definition shift :: "stream_node \<Rightarrow> stream_node" where
  "shift nd = nd\<lparr>rbuf := tl (rbuf nd), rbuffered := rbuffered nd - int (length (hd (rbuf nd)))\<rparr>"

definition op_push :: "nat \<Rightarrow> schunk option \<Rightarrow> s_encoding \<Rightarrow> machine \<Rightarrow> machine" where
  "op_push s chunk encoding M = (case chunk of
     None \<Rightarrow> push_frames [FlushLoop s, EmitF s EndEv, EmitF s CloseEv, Ret (VBool False)]
               (upd s (\<lambda>nd. nd\<lparr>rended := True\<rparr>) M)
   | Some c \<Rightarrow> (case to_buffer c encoding of
        Inl e \<Rightarrow> throw e M
      | Inr b \<Rightarrow> push_frames ((if flowing (stream M s) then [FlushLoop s] else []) @ [PushRet s])
                   (log_obs (Pushed s b) (upd s (enqueue b) M))))"

definition flush_loop :: "nat \<Rightarrow> machine \<Rightarrow> machine" where
  "flush_loop s M = (case rbuf (stream M s) of
     [] \<Rightarrow> M
   | c # r \<Rightarrow> if flowing (stream M s)
       then push_frames [EmitF s (DataEv c), FlushLoop s] (log_obs (Took s c) (upd s shift M))
       else M)"

definition op_read :: "nat \<Rightarrow> int \<Rightarrow> machine \<Rightarrow> machine" where
  "op_read s len M = (let nd = stream M s in
     push_frames ((if rbuf nd = [] \<and> \<not> rended nd
       then call_read nd s (if len = 0 then readHwm nd else len) else []) @ [ReadRest s]) M)"

definition read_rest :: "nat \<Rightarrow> machine \<Rightarrow> machine" where
  "read_rest s M = (case rbuf (stream M s) of
     [] \<Rightarrow> push_frames ((if rended (stream M s) then [EmitF s EndEv] else []) @ [Ret (VChunk None)]) M
   | c # r \<Rightarrow> push_frames [Ret (VChunk (Some c))] (log_obs (Took s c) (upd s shift M)))"

definition op_pause :: "nat \<Rightarrow> machine \<Rightarrow> machine" where
  "op_pause s M = push_frames [Ret VThis] (upd s (\<lambda>nd. nd\<lparr>flowing := False\<rparr>) M)"

definition op_resume :: "nat \<Rightarrow> machine \<Rightarrow> machine" where
  "op_resume s M = (let nd = stream M s in
     push_frames ((if rbuf nd = [] \<and> \<not> rended nd then call_read nd s (readHwm nd) else [])
         @ [FlushLoop s, Ret VThis])
       (upd s (\<lambda>nd. nd\<lparr>flowing := True\<rparr>) M))"

definition op_pipe :: "nat \<Rightarrow> nat \<Rightarrow> bool \<Rightarrow> machine \<Rightarrow> machine" where
  "op_pipe s d ends M = push_frames [DoOp (Resume s)]
     (upd s (\<lambda>nd. add_listener NEnd (PipeEnd d ends) (add_listener NData (PipeData d) nd)) M)"

subsection \<open>The asynchronous read of the iterator\<close>

definition op_read_async :: "nat \<Rightarrow> machine \<Rightarrow> machine" where
  "op_read_async s M = push_frames [ReadLoop s (nextId M) 0, AsyncEnd (nextId M), Ret VPromise]
     (M\<lparr>nextId := Suc (nextId M)\<rparr>)"

definition has_data :: "stream_node \<Rightarrow> bool" where
  "has_data nd \<longleftrightarrow> rbuf nd \<noteq> [] \<or> rended nd"

definition async_loop :: "nat \<Rightarrow> nat \<Rightarrow> nat \<Rightarrow> machine \<Rightarrow> machine" where
  "async_loop s j spins M = (let nd = stream M s in
     if has_data nd then push_frames [ReadDone s j] M
     else push_frames (call_read nd s (readHwm nd) @ [ReadCheck s j spins]) M)"

text \<open>The turn: a promise that a microtask resolves, and the rest of the loop awaits.\<close>

definition read_check :: "nat \<Rightarrow> nat \<Rightarrow> nat \<Rightarrow> machine \<Rightarrow> machine" where
  "read_check s j spins M =
     (if has_data (stream M s) \<or> spins \<ge> 1000 then push_frames [ReadDone s j] M
      else then_react (TurnP j spins) (RReadLoop s j (Suc spins)) (M\<lparr>jobs := jobs M @ [Turn j spins]\<rparr>))"

definition read_done :: "nat \<Rightarrow> nat \<Rightarrow> machine \<Rightarrow> machine" where
  "read_done s j M = (case rbuf (stream M s) of
     [] \<Rightarrow> push_frames ((if rended (stream M s) then [EmitF s EndEv] else []) @ [AsyncRet j None]) M
   | c # r \<Rightarrow> push_frames [AsyncRet j (Some c)] (log_obs (Took s c) (upd s shift M)))"

section \<open>Writable\<close>

definition callback_of :: "s_encoding \<Rightarrow> scb option \<Rightarrow> scb option" where
  "callback_of encoding callback = (case encoding of EncFn f \<Rightarrow> Some (UserCb f) | _ \<Rightarrow> callback)"

definition accept :: "nat \<Rightarrow> bytes \<Rightarrow> machine \<Rightarrow> machine" where
  "accept s b M = (let k = length (accepts (stream M s)) in
     upd s (\<lambda>nd. nd\<lparr>writableTail := Done s k, accepts := accepts nd @ [b], wlength := wlength nd + int (length b)\<rparr>)
       (log_obs (Accepted s b) (then_react (writableTail (stream M s)) (RWrite s k b) M)))"

definition op_write :: "nat \<Rightarrow> schunk \<Rightarrow> s_encoding \<Rightarrow> scb option \<Rightarrow> machine \<Rightarrow> machine" where
  "op_write s chunk encoding callback M = (let cb = callback_of encoding callback in
     if wended (stream M s)
     then push_frames [case cb of Some c \<Rightarrow> Invoke c (Some WriteAfterEnd) | None \<Rightarrow> EmitF s (ErrorEv WriteAfterEnd),
                       Ret (VBool False)] M
     else (case to_buffer chunk encoding of
        Inl e \<Rightarrow> throw e M
      | Inr b \<Rightarrow>
          (let M' = accept s b M; done' = writableTail (stream M' s)
           in (case cb of
                 None \<Rightarrow> push_frames [Ret VPromise] (then_react done' RTrue M')
               | Some c \<Rightarrow> push_frames [Ret (VBool (wlength (stream M' s) < writeHwm (stream M' s)))]
                             (then_react done' (RAfter s c) M')))))"

definition op_end :: "nat \<Rightarrow> schunk option \<Rightarrow> s_encoding \<Rightarrow> scb option \<Rightarrow> machine \<Rightarrow> machine" where
  "op_end s chunk encoding callback M =
     push_frames ((case chunk of None \<Rightarrow> [] | Some c \<Rightarrow> [DoOp (Write s c encoding (Some Noop))])
       @ [EndRest s (callback_of encoding callback)]) M"

definition end_rest :: "nat \<Rightarrow> scb option \<Rightarrow> machine \<Rightarrow> machine" where
  "end_rest s cb M =
     (let M' = then_react (writableTail (stream M s)) (RFinish s) (upd s (\<lambda>nd. nd\<lparr>wended := True\<rparr>) M)
      in push_frames [Ret VThis] (case cb of
           None \<Rightarrow> M'
         | Some c \<Rightarrow> (upd s (add_listener NFinish (OnceL (nextId M) c)) M')\<lparr>nextId := Suc (nextId M)\<rparr>))"

definition writable_finish :: "nat \<Rightarrow> node_error option \<Rightarrow> sframe list" where
  "writable_finish s err = (case err of None \<Rightarrow> [] | Some e \<Rightarrow> [EmitF s (ErrorEv e)])
     @ [EmitF s FinishEv, EmitF s CloseEv]"

text \<open>\<open>self._finish(err)\<close>: a \<open>Duplex\<close> that is no \<open>Transform\<close> has no such method.\<close>

definition finish_method :: "skind \<Rightarrow> nat \<Rightarrow> node_error option \<Rightarrow> sframe list" where
  "finish_method k s err = (case k of
     KWritable \<Rightarrow> writable_finish s err
   | KTransform \<Rightarrow> writable_finish s err @ (if err = None then [DoOp (Push s None NoEnc)] else [])
   | _ \<Rightarrow> [Throwing NotAFunction])"

definition finish_writable :: "nat \<Rightarrow> node_error option \<Rightarrow> machine \<Rightarrow> machine" where
  "finish_writable s err M = (if wfinished (stream M s) then M
     else push_frames (finish_method (skind (stream M s)) s err) (upd s (\<lambda>nd. nd\<lparr>wfinished := True\<rparr>) M))"

definition op_destroy :: "nat \<Rightarrow> node_error option \<Rightarrow> machine \<Rightarrow> machine" where
  "op_destroy s err M = (let k = skind (stream M s) in
     push_frames ((if has_read k then [EmitF s CloseEv] else [])
         @ [if has_write k then DestroyRest s err else Ret VThis])
       (upd s (\<lambda>nd. if has_read k then nd\<lparr>rdestroyed := True, readable := False\<rparr> else nd) M))"

definition destroy_rest :: "nat \<Rightarrow> node_error option \<Rightarrow> machine \<Rightarrow> machine" where
  "destroy_rest s err M = push_frames
     ((case err of None \<Rightarrow> [] | Some e \<Rightarrow> [EmitF s (ErrorEv e)]) @ [EmitF s CloseEv, Ret VThis])
     (upd s (\<lambda>nd. nd\<lparr>wdestroyed := True, writable := False\<rparr>) M)"

section \<open>Transform, and the callbacks handed out\<close>

definition call_write :: "stream_node \<Rightarrow> nat \<Rightarrow> nat \<Rightarrow> bytes \<Rightarrow> sframe list" where
  "call_write nd s k b = (case writeFn nd of
     WriteNothing \<Rightarrow> [DoOp (WriteDone s k None)]
   | WriteUser \<Rightarrow> [Running (CallWrite s k b) 0]
   | WriteTransform own \<Rightarrow>
       if own then [Running (CallTransform s k b) 0] else [DoOp (TransformDone s k None (Some (BytesChunk b)))])"

text \<open>A program can only call a callback it was given.\<close>

fun is_sunk :: "nat \<Rightarrow> nat \<Rightarrow> obs \<Rightarrow> bool" where
  "is_sunk s k (Sunk t i b) = (t = s \<and> i = k)"
| "is_sunk s k _ = False"

definition given :: "nat \<Rightarrow> nat \<Rightarrow> machine \<Rightarrow> bool" where
  "given s k M \<longleftrightarrow> list_ex (is_sunk s k) (trace M)"

definition op_write_done :: "nat \<Rightarrow> nat \<Rightarrow> node_error option \<Rightarrow> machine \<Rightarrow> machine" where
  "op_write_done s k err M = (if \<not> given s k M then M
     else (let M' = log_obs (Called s k err)
                      (upd s (\<lambda>nd. nd\<lparr>wlength := wlength nd - int (length (accepts nd ! k))\<rparr>) M)
           in (case err of
                 None \<Rightarrow> push_frames [ResolveExec s k] M'
               | Some e \<Rightarrow> push_frames [EmitF s (ErrorEv e), ResolveExec s k]
                             (upd s (\<lambda>nd. nd\<lparr>writeError := Some e\<rparr>) M'))))"

definition op_transform_done ::
  "nat \<Rightarrow> nat \<Rightarrow> node_error option \<Rightarrow> schunk option \<Rightarrow> machine \<Rightarrow> machine" where
  "op_transform_done s k err data M = (if \<not> given s k M then M
     else (case err of
        Some e \<Rightarrow> push_frames [DoOp (WriteDone s k (Some e))] M
      | None \<Rightarrow> push_frames ((case data of None \<Rightarrow> [] | Some c \<Rightarrow> [DoOp (Push s (Some c) NoEnc)])
                   @ [DoOp (WriteDone s k None)]) M))"

section \<open>pipeline and finished\<close>

fun adjacent :: "nat list \<Rightarrow> (nat \<times> nat) list" where
  "adjacent (a # b # r) = (a, b) # adjacent (b # r)"
| "adjacent _ = []"

definition listen_all :: "sname \<Rightarrow> slistener \<Rightarrow> nat list \<Rightarrow> machine \<Rightarrow> machine" where
  "listen_all ev l ss M = foldl (\<lambda>M s. upd s (add_listener ev l) M) M ss"

definition op_pipeline :: "nat list \<Rightarrow> nat option \<Rightarrow> machine \<Rightarrow> machine" where
  "op_pipeline stages callback M =
     (if length stages < 2
      then push_frames (case callback of
          Some c \<Rightarrow> [Invoke (UserCb c) (Some TooFewStreams), Ret VUndefined] | None \<Rightarrow> [Ret VPromise]) M
      else (let j = nextId M; top = last stages;
                M' = listen_all NClose (PipelineL j) [top] (listen_all NFinish (PipelineL j) [top]
                       (listen_all NError (PipelineL j) stages (M\<lparr>nextId := Suc j\<rparr>)))
            in push_frames (map (\<lambda>(a, b). DoOp (PipeTo a b True)) (adjacent stages)
                 @ [PipelineEnd j, PipelineCb j callback]) M'))"

definition pipeline_cb :: "nat \<Rightarrow> nat option \<Rightarrow> machine \<Rightarrow> machine" where
  "pipeline_cb j callback M = (case callback of
     Some c \<Rightarrow> push_frames [Ret VUndefined] (then_react (PipelineP j) (RPipeline (UserCb c)) M)
   | None \<Rightarrow> push_frames [Ret VPromise] M)"

text \<open>\<open>settle(err)\<close> of a pipeline.\<close>

definition pipeline_settle :: "nat \<Rightarrow> node_error option \<Rightarrow> machine \<Rightarrow> machine" where
  "pipeline_settle j err M = (if settled M j then M
     else settle_promise (PipelineP j) (case err of None \<Rightarrow> Fulfilled | Some e \<Rightarrow> Rejected e)
            (M\<lparr>settled := (settled M)(j := True)\<rparr>))"

definition op_finished :: "nat \<Rightarrow> nat option \<Rightarrow> machine \<Rightarrow> machine" where
  "op_finished s callback M = (let nd = stream M s; j = nextId M;
       cb = (case callback of None \<Rightarrow> PromiseCb j | Some c \<Rightarrow> UserCb c);
       v = Ret (case callback of None \<Rightarrow> VPromise | Some c \<Rightarrow> VUndefined);
       M' = M\<lparr>nextId := Suc j\<rparr>
     in if has_read (skind nd) \<and> rended nd \<or> has_write (skind nd) \<and> wfinished nd
        then push_frames [Invoke cb None, v] M'
        else push_frames [v] (upd s (\<lambda>nd. foldl (\<lambda>nd ev. add_listener ev (FinishedL j cb) nd) nd
               [NEnd, NFinish, NClose, NError]) M'))"

text \<open>\<open>settle(err)\<close> of \<open>finished\<close>.\<close>

definition finished_settle :: "nat \<Rightarrow> scb \<Rightarrow> node_error option \<Rightarrow> machine \<Rightarrow> machine" where
  "finished_settle j cb err M = (if settled M j then M
     else push_frames [Invoke cb err] (M\<lparr>settled := (settled M)(j := True)\<rparr>))"

section \<open>Emitting\<close>

definition emit_event :: "nat \<Rightarrow> sevent \<Rightarrow> machine \<Rightarrow> machine" where
  "emit_event s ev M = push_frames [Deliver s ev (slisteners (stream M s) (name_of ev))] (log_obs (Emitted s ev) M)"

fun error_arg :: "sevent \<Rightarrow> node_error option" where
  "error_arg (ErrorEv e) = Some e"
| "error_arg _ = None"

fun deliver_to :: "nat \<Rightarrow> sevent \<Rightarrow> slistener \<Rightarrow> machine \<Rightarrow> machine" where
  "deliver_to s ev (UserL f) M = push_frames [Running (CallListener f s ev) 0] M"
| "deliver_to s (DataEv b) (PipeData d) M =
     (if has_write (skind (stream M d)) then push_frames [DoOp (Write d (BytesChunk b) NoEnc None)] M else M)"
| "deliver_to s ev (PipeData d) M = M"
| "deliver_to s ev (PipeEnd d ends) M =
     (if ends \<and> has_write (skind (stream M d)) then push_frames [DoOp (End d None NoEnc None)] M else M)"
| "deliver_to s ev (PipelineL j) M = push_frames [Settle j (error_arg ev)] M"
| "deliver_to s ev (FinishedL j cb) M = finished_settle j cb (error_arg ev) M"
| "deliver_to s ev (OnceL i cb) M = push_frames [Invoke cb None]
     (upd s (\<lambda>nd. nd\<lparr>slisteners := (slisteners nd)(name_of ev := remove1 (OnceL i cb) (slisteners nd (name_of ev)))\<rparr>) M)"

section \<open>The machine\<close>

definition needs_read :: "nat \<Rightarrow> (machine \<Rightarrow> machine) \<Rightarrow> machine \<Rightarrow> machine" where
  "needs_read s f M = (if has_read (skind (stream M s)) then f M else throw NotAFunction M)"

definition needs_write :: "nat \<Rightarrow> (machine \<Rightarrow> machine) \<Rightarrow> machine \<Rightarrow> machine" where
  "needs_write s f M = (if has_write (skind (stream M s)) then f M else throw NotAFunction M)"

fun do_op :: "sop \<Rightarrow> machine \<Rightarrow> machine" where
  "do_op (Push s c enc) M = needs_read s (op_push s c enc) M"
| "do_op (Read s len) M = needs_read s (op_read s len) M"
| "do_op (ReadAsync s) M = needs_read s (op_read_async s) M"
| "do_op (PipeTo s d ends) M = needs_read s (op_pipe s d ends) M"
| "do_op (Pause s) M = needs_read s (op_pause s) M"
| "do_op (Resume s) M = needs_read s (op_resume s) M"
| "do_op (Destroy s err) M = op_destroy s err M"
| "do_op (Write s c enc cb) M = needs_write s (op_write s c enc cb) M"
| "do_op (End s c enc cb) M = needs_write s (op_end s c enc cb) M"
| "do_op (On s ev f) M = push_frames [Ret VThis] (upd s (add_listener ev (UserL f)) M)"
| "do_op (Pipeline ss cb) M = op_pipeline ss cb M"
| "do_op (Finished s cb) M = op_finished s cb M"
| "do_op (WriteDone s k err) M = op_write_done s k err M"
| "do_op (TransformDone s k err data) M = op_transform_done s k err data M"

text \<open>
  The callback of a write is in the hands of the program only when the sink, or the transform, is
  its own function.
\<close>

fun holds_callback :: "machine \<Rightarrow> sop \<Rightarrow> bool" where
  "holds_callback M (WriteDone s k err) = (writeFn (stream M s) = WriteUser)"
| "holds_callback M (TransformDone s k err data) = (writeFn (stream M s) = WriteTransform True)"
| "holds_callback M _ = True"

definition run_cmd :: "ucall \<Rightarrow> nat \<Rightarrow> ucmd \<Rightarrow> machine \<Rightarrow> machine" where
  "run_cmd c i cmd M = (case cmd of
     Do op \<Rightarrow> push_frames ((if holds_callback M op then [DoOp op] else []) @ [Running c (Suc i)]) M
   | Try op \<Rightarrow> push_frames ((if holds_callback M op then [DoOp op, Guard] else []) @ [Running c (Suc i)]) M
   | Return \<Rightarrow> M
   | Throw e \<Rightarrow> throw e M)"

fun invoke :: "scb \<Rightarrow> node_error option \<Rightarrow> machine \<Rightarrow> machine" where
  "invoke Noop err M = M"
| "invoke (UserCb c) err M = push_frames [Running (CallCb c err) 0] (log_obs (CbCalled (UserCb c) err) M)"
| "invoke (PromiseCb j) err M =
     settle_promise (PipelineP j) (case err of None \<Rightarrow> Fulfilled | Some e \<Rightarrow> Rejected e) (log_obs (CbCalled (PromiseCb j) err) M)"

fun run_frame :: "stream_program \<Rightarrow> sframe \<Rightarrow> machine \<Rightarrow> machine" where
  "run_frame P (Running c i) M = run_cmd c i (P (trace M) c i) M"
| "run_frame P Guard M = M"
| "run_frame P (DoOp op) M = do_op op M"
| "run_frame P (Throwing e) M = throw e M"
| "run_frame P (Ret v) M = log_obs (Returned v) M"
| "run_frame P (EmitF s ev) M = emit_event s ev M"
| "run_frame P (Deliver s ev []) M = M"
| "run_frame P (Deliver s ev (l # ls)) M = deliver_to s ev l (push_frames [Deliver s ev ls] M)"
| "run_frame P (FlushLoop s) M = flush_loop s M"
| "run_frame P (PushRet s) M = log_obs (Returned (VBool (rbuffered (stream M s) < readHwm (stream M s)))) M"
| "run_frame P (ReadRest s) M = read_rest s M"
| "run_frame P (ReadLoop s j n) M = async_loop s j n M"
| "run_frame P (ReadCheck s j n) M = read_check s j n M"
| "run_frame P (ReadDone s j) M = read_done s j M"
| "run_frame P (AsyncRet j v) M = settle_promise (AsyncP j) Fulfilled (log_obs (Async j v) M)"
| "run_frame P (AsyncEnd j) M = M"
| "run_frame P (Invoke cb err) M = invoke cb err M"
| "run_frame P (DrainCheck s) M = (if wlength (stream M s) = 0 then push_frames [EmitF s DrainEv] M else M)"
| "run_frame P (EndRest s cb) M = end_rest s cb M"
| "run_frame P (DestroyRest s err) M = destroy_rest s err M"
| "run_frame P (ResolveExec s k) M = settle_promise (Exec s k) Fulfilled M"
| "run_frame P (ExecEnd s k) M = M"
| "run_frame P (AdoptEnd s k) M = M\<lparr>jobs := jobs M @ [Adopt s k]\<rparr>"
| "run_frame P JobEnd M = M"
| "run_frame P (Settle j err) M = pipeline_settle j err M"
| "run_frame P (PipelineEnd j) M = M"
| "run_frame P (PipelineCb j cb) M = pipeline_cb j cb M"

text \<open>The jobs of the microtask queue.\<close>

definition sink :: "nat \<Rightarrow> nat \<Rightarrow> bytes \<Rightarrow> machine \<Rightarrow> machine" where
  "sink s k b M = push_frames (call_write (stream M s) s k b @ [ExecEnd s k, AdoptEnd s k]) (log_obs (Sunk s k b) M)"

fun rejection :: "pstate \<Rightarrow> node_error option" where
  "rejection (Rejected e) = Some e"
| "rejection _ = None"

fun run_reaction :: "sreaction \<Rightarrow> pstate \<Rightarrow> machine \<Rightarrow> machine" where
  "run_reaction (RWrite s k b) v M =
     (if v = Fulfilled then sink s k b M else settle_promise (Done s k) v M)"
| "run_reaction RTrue v M = M"
| "run_reaction (RAfter s cb) v M =
     (if v = Fulfilled
      then (case writeError (stream M s) of
              Some e \<Rightarrow> push_frames [Invoke cb (Some e), JobEnd] M
            | None \<Rightarrow> push_frames [Invoke cb None, DrainCheck s, JobEnd] M)
      else M)"
| "run_reaction (RFinish s) v M = finish_writable s (rejection v) (push_frames [JobEnd] M)"
| "run_reaction (RSettle s k) v M = settle_promise (Done s k) v M"
| "run_reaction (RPipeline cb) v M = push_frames [Invoke cb (rejection v), JobEnd] M"
| "run_reaction (RReadLoop s j n) v M = push_frames [ReadLoop s j n, AsyncEnd j] M"

fun run_job :: "sjob \<Rightarrow> machine \<Rightarrow> machine" where
  "run_job (React r v) M = run_reaction r v M"
| "run_job (Adopt s k) M = then_react (Exec s k) (RSettle s k) M"
| "run_job (Turn j n) M = settle_promise (TurnP j n) Fulfilled M"

text \<open>
  A tick does the top frame, or the first job when the stack is empty. When the stack is empty the
  program may also be entered from outside: a timer, a socket, another job.
\<close>

datatype sturn = Tick | Enter nat

definition machine_tick :: "stream_program \<Rightarrow> machine \<Rightarrow> machine" where
  "machine_tick P M = (case stack M of
     f # fs \<Rightarrow> run_frame P f (M\<lparr>stack := fs\<rparr>)
   | [] \<Rightarrow> (case jobs M of [] \<Rightarrow> M | j # r \<Rightarrow> run_job j (M\<lparr>jobs := r\<rparr>)))"

fun machine_step :: "stream_program \<Rightarrow> machine \<Rightarrow> sturn \<Rightarrow> machine" where
  "machine_step P M Tick = machine_tick P M"
| "machine_step P M (Enter n) = (if stack M = [] then push_frames [Running (Main n) 0] M else M)"

end
