(* ===== verification/Stream_Laws.thy ===== *)
theory Stream_Laws
  imports Stream_Node
begin

text \<open>
  The laws of the Node streams of \<open>Stream_Node\<close>, for every program and every interleaving: writes
  are serialized and in order, \<open>finish\<close> comes once and after the writes, what is read is what was
  pushed, and the callbacks of \<open>pipeline\<close> and \<open>finished\<close> come once.
\<close>

section \<open>What the parts of a step leave alone\<close>

lemma parts_simps [simp]:
  "promises (push_frames fs M) = promises M" "jobs (push_frames fs M) = jobs M"
  "trace (push_frames fs M) = trace M" "streams (push_frames fs M) = streams M"
  "stack (push_frames fs M) = fs @ stack M" "settled (push_frames fs M) = settled M"
  "promises (log_obs ob M) = promises M" "jobs (log_obs ob M) = jobs M"
  "trace (log_obs ob M) = ob # trace M" "streams (log_obs ob M) = streams M"
  "stack (log_obs ob M) = stack M" "settled (log_obs ob M) = settled M"
  "promises (upd s f M) = promises M" "jobs (upd s f M) = jobs M"
  "trace (upd s f M) = trace M"
  "stack (upd s f M) = stack M" "settled (upd s f M) = settled M"
  "trace (then_react p r M) = trace M" "streams (then_react p r M) = streams M"
  "stack (then_react p r M) = stack M" "settled (then_react p r M) = settled M"
  "trace (settle_promise p v M) = trace M" "streams (settle_promise p v M) = streams M"
  "stack (settle_promise p v M) = stack M" "settled (settle_promise p v M) = settled M"
  by (simp_all add: push_frames_def log_obs_def upd_def then_react_def settle_promise_def split: pstate.split)

lemma streams_upd: "streams (upd s f M) t = (if t = s then f (streams M s) else streams M t)"
  by (simp add: upd_def)

lemma stream_eq: "stream M s = streams M s"
  by (simp add: stream_def)

lemma listener_simps [simp]:
  "writableTail (add_listener ev l nd) = writableTail nd" "accepts (add_listener ev l nd) = accepts nd"
  "rbuf (add_listener ev l nd) = rbuf nd" "rbuffered (add_listener ev l nd) = rbuffered nd"
  "wfinished (add_listener ev l nd) = wfinished nd" "wended (add_listener ev l nd) = wended nd"
  "skind (add_listener ev l nd) = skind nd" "writeFn (add_listener ev l nd) = writeFn nd"
  "writableTail (enqueue b nd) = writableTail nd" "accepts (enqueue b nd) = accepts nd"
  "wfinished (enqueue b nd) = wfinished nd" "wended (enqueue b nd) = wended nd"
  "skind (enqueue b nd) = skind nd" "writeFn (enqueue b nd) = writeFn nd"
  "writableTail (shift nd) = writableTail nd" "accepts (shift nd) = accepts nd"
  "wfinished (shift nd) = wfinished nd" "wended (shift nd) = wended nd"
  "skind (shift nd) = skind nd" "writeFn (shift nd) = writeFn nd"
  by (simp_all add: add_listener_def enqueue_def shift_def)

section \<open>Writes are serialized\<close>

text \<open>
  Read off the trace: the chunks handed to the sink of stream \<open>s\<close>, in order; whether the callback of
  write \<open>k\<close> was called; and that a write only starts when it is the next one and the callback of
  the one before it was called.
\<close>

fun sunk_of :: "nat \<Rightarrow> obs list \<Rightarrow> bytes list" where
  "sunk_of s [] = []"
| "sunk_of s (Sunk t k b # tr) = (if t = s then sunk_of s tr @ [b] else sunk_of s tr)"
| "sunk_of s (x # tr) = sunk_of s tr"

fun is_called :: "nat \<Rightarrow> nat \<Rightarrow> obs \<Rightarrow> bool" where
  "is_called s k (Called t i e) = (t = s \<and> i = k)"
| "is_called s k _ = False"

definition was_called :: "nat \<Rightarrow> nat \<Rightarrow> obs list \<Rightarrow> bool" where
  "was_called s k tr \<longleftrightarrow> list_ex (is_called s k) tr"

fun serialized :: "nat \<Rightarrow> obs list \<Rightarrow> bool" where
  "serialized s [] = True"
| "serialized s (Sunk t k b # tr) = ((t = s \<longrightarrow> k = length (sunk_of s tr) \<and> (k = 0 \<or> was_called s (k - 1) tr)) \<and> serialized s tr)"
| "serialized s (x # tr) = serialized s tr"

fun prev_promise :: "nat \<Rightarrow> nat \<Rightarrow> promise" where
  "prev_promise s 0 = Resolved s"
| "prev_promise s (Suc k) = Done s k"

fun is_rwrite :: "nat \<Rightarrow> nat \<Rightarrow> sreaction \<Rightarrow> bool" where
  "is_rwrite s k (RWrite t i b) = (t = s \<and> i = k)"
| "is_rwrite s k _ = False"

fun job_writes :: "nat \<Rightarrow> nat \<Rightarrow> sjob \<Rightarrow> bool" where
  "job_writes s k (React r v) = is_rwrite s k r"
| "job_writes s k _ = False"

fun reactions :: "pstate \<Rightarrow> sreaction list" where
  "reactions (Pending rs) = rs"
| "reactions _ = []"

fun is_pending :: "pstate \<Rightarrow> bool" where
  "is_pending (Pending rs) = True"
| "is_pending _ = False"

text \<open>Write \<open>k\<close> is in one place: waiting for the promise before it, queued, or handed over.\<close>

definition tokens :: "nat \<Rightarrow> nat \<Rightarrow> machine \<Rightarrow> nat" where
  "tokens s k M = length (filter (is_rwrite s k) (reactions (promises M (prev_promise s k))))
     + length (filter (job_writes s k) (jobs M)) + length (filter (is_sunk s k) (trace M))"

definition called_ok :: "machine \<Rightarrow> bool" where
  "called_ok M \<longleftrightarrow> (\<forall>s k. promises M (Done s k) = Fulfilled \<longrightarrow> was_called s k (trace M))
     \<and> (\<forall>s k. promises M (Exec s k) = Fulfilled \<longrightarrow> was_called s k (trace M))
     \<and> (\<forall>s k v. React (RSettle s k) v \<in> set (jobs M) \<longrightarrow> \<not> is_pending v \<and> (v = Fulfilled \<longrightarrow> was_called s k (trace M)))
     \<and> (\<forall>s k. ResolveExec s k \<in> set (stack M) \<longrightarrow> was_called s k (trace M))
     \<and> (\<forall>p s k. RSettle s k \<in> set (reactions (promises M p)) \<longrightarrow> p = Exec s k)"

definition write_ok :: "machine \<Rightarrow> nat \<Rightarrow> nat \<Rightarrow> bytes \<Rightarrow> bool" where
  "write_ok M s k b \<longleftrightarrow> k < length (accepts (streams M s)) \<and> b = accepts (streams M s) ! k"

definition placed_ok :: "machine \<Rightarrow> bool" where
  "placed_ok M \<longleftrightarrow> (\<forall>s. writableTail (streams M s) = prev_promise s (length (accepts (streams M s))))
     \<and> (\<forall>p s k b. RWrite s k b \<in> set (reactions (promises M p)) \<longrightarrow> p = prev_promise s k \<and> write_ok M s k b)
     \<and> (\<forall>s k b v. React (RWrite s k b) v \<in> set (jobs M) \<longrightarrow>
          promises M (prev_promise s k) = v \<and> \<not> is_pending v \<and> write_ok M s k b)
     \<and> (\<forall>s k b. Sunk s k b \<in> set (trace M) \<longrightarrow> write_ok M s k b)
     \<and> (\<forall>s k. tokens s k M \<le> 1)"

lemma placed_okI:
  assumes "\<And>s. writableTail (streams M s) = prev_promise s (length (accepts (streams M s)))"
    and "\<And>p s k b. RWrite s k b \<in> set (reactions (promises M p)) \<Longrightarrow> p = prev_promise s k \<and> write_ok M s k b"
    and "\<And>s k b v. React (RWrite s k b) v \<in> set (jobs M) \<Longrightarrow>
          promises M (prev_promise s k) = v \<and> \<not> is_pending v \<and> write_ok M s k b"
    and "\<And>s k b. Sunk s k b \<in> set (trace M) \<Longrightarrow> write_ok M s k b"
    and "\<And>s k. tokens s k M \<le> 1"
  shows "placed_ok M"
  using assms by (simp add: placed_ok_def)

definition serial_ok :: "machine \<Rightarrow> bool" where
  "serial_ok M \<longleftrightarrow> (\<forall>s. serialized s (trace M))
     \<and> (\<forall>s k. was_called s k (trace M) \<longrightarrow> given s k M)"

definition writes_inv :: "machine \<Rightarrow> bool" where
  "writes_inv M \<longleftrightarrow> called_ok M \<and> placed_ok M \<and> serial_ok M"

text \<open>Nothing that matters here: frames, observations and reactions.\<close>

fun resolves :: "sframe \<Rightarrow> bool" where
  "resolves (ResolveExec s k) = True"
| "resolves _ = False"

fun telling :: "obs \<Rightarrow> bool" where
  "telling (Sunk s k b) = True"
| "telling (Called s k e) = True"
| "telling _ = False"

fun chained :: "sreaction \<Rightarrow> bool" where
  "chained (RWrite s k b) = True"
| "chained (RSettle s k) = True"
| "chained _ = False"

lemma untold [simp]:
  "\<not> telling ob \<Longrightarrow> was_called s k (ob # tr) = was_called s k tr"
  "\<not> telling ob \<Longrightarrow> serialized s (ob # tr) = serialized s tr"
  "\<not> telling ob \<Longrightarrow> sunk_of s (ob # tr) = sunk_of s tr"
  "\<not> telling ob \<Longrightarrow> \<not> is_sunk s k ob"
  by (cases ob; simp add: was_called_def)+

lemma unchained [simp]: "\<not> chained r \<Longrightarrow> \<not> is_rwrite s k r"
  by (cases r) auto

lemma writes_inv_push_resolve:
  assumes "writes_inv M" "\<And>s k. ResolveExec s k \<in> set fs \<Longrightarrow> was_called s k (trace M)"
  shows "writes_inv (push_frames fs M)"
proof -
  have "called_ok (push_frames fs M)" using assms by (auto simp: writes_inv_def called_ok_def)
  then show ?thesis using assms(1)
    unfolding writes_inv_def placed_ok_def serial_ok_def tokens_def write_ok_def given_def by simp
qed

lemma writes_inv_push:
  assumes "writes_inv M" "list_all (\<lambda>f. \<not> resolves f) fs"
  shows "writes_inv (push_frames fs M)"
  using assms(2) by (intro writes_inv_push_resolve [OF assms(1)]) (auto simp: list_all_iff)

lemma writes_inv_log:
  assumes "writes_inv M" "\<not> telling ob"
  shows "writes_inv (log_obs ob M)"
proof -
  have [simp]: "Sunk s k b \<noteq> ob" for s k b using assms(2) by auto
  show ?thesis using assms
    unfolding writes_inv_def called_ok_def placed_ok_def serial_ok_def tokens_def write_ok_def given_def
    by simp
qed

lemma writes_inv_upd:
  assumes "writes_inv M" "\<And>nd. writableTail (f nd) = writableTail nd" "\<And>nd. accepts (f nd) = accepts nd"
  shows "writes_inv (upd s f M)"
proof -
  have [simp]: "writableTail (streams (upd s f M) t) = writableTail (streams M t)"
    "accepts (streams (upd s f M) t) = accepts (streams M t)" for t
    using assms by (simp_all add: streams_upd)
  show ?thesis using assms(1)
    unfolding writes_inv_def called_ok_def placed_ok_def serial_ok_def tokens_def write_ok_def given_def
    by simp
qed

lemma writes_inv_stack:
  "writes_inv M \<Longrightarrow> set fs \<subseteq> set (stack M) \<Longrightarrow> writes_inv (M\<lparr>stack := fs\<rparr>)"
  unfolding writes_inv_def called_ok_def placed_ok_def serial_ok_def tokens_def write_ok_def given_def
  by (simp add: subset_iff)

lemma writes_inv_other [simp]:
  "writes_inv (M\<lparr>nextId := i\<rparr>) = writes_inv M" "writes_inv (M\<lparr>settled := g\<rparr>) = writes_inv M"
  unfolding writes_inv_def called_ok_def placed_ok_def serial_ok_def tokens_def write_ok_def given_def
  by simp_all


text \<open>What \<open>then\<close> and settling do to the promises and the queue.\<close>

lemma then_simps:
  "promises (then_react p r M) q = Fulfilled \<longleftrightarrow> promises M q = Fulfilled"
  "\<not> is_pending v \<Longrightarrow> promises (then_react p r M) q = v \<longleftrightarrow> promises M q = v"
  "x \<in> set (reactions (promises (then_react p r M) q)) \<longleftrightarrow>
     x \<in> set (reactions (promises M q)) \<or> q = p \<and> x = r \<and> is_pending (promises M p)"
  "y \<in> set (jobs (then_react p r M)) \<longleftrightarrow>
     y \<in> set (jobs M) \<or> \<not> is_pending (promises M p) \<and> y = React r (promises M p)"
  by (auto simp: then_react_def split: pstate.split)

lemma then_tokens:
  "tokens s k (then_react p r M) = tokens s k M
     + (if is_rwrite s k r \<and> (is_pending (promises M p) \<longrightarrow> p = prev_promise s k) then 1 else 0)"
  by (auto simp: then_react_def tokens_def split: pstate.split)

lemma settle_simps:
  assumes "\<not> is_pending v"
  shows "promises (settle_promise p v M) q = Fulfilled \<longleftrightarrow>
      promises M q = Fulfilled \<or> q = p \<and> v = Fulfilled \<and> is_pending (promises M p)"
    and "\<not> is_pending w \<Longrightarrow> promises M q = w \<Longrightarrow> promises (settle_promise p v M) q = w"
    and "x \<in> set (reactions (promises (settle_promise p v M) q)) \<longleftrightarrow> x \<in> set (reactions (promises M q)) \<and> q \<noteq> p"
    and "y \<in> set (jobs (settle_promise p v M)) \<longleftrightarrow>
      y \<in> set (jobs M) \<or> (\<exists>r\<in>set (reactions (promises M p)). y = React r v)"
    and "is_pending (promises M p) \<Longrightarrow> promises (settle_promise p v M) p = v"
proof -
  have "reactions v = []" using assms by (cases v) auto
  then show "promises (settle_promise p v M) q = Fulfilled \<longleftrightarrow>
      promises M q = Fulfilled \<or> q = p \<and> v = Fulfilled \<and> is_pending (promises M p)"
    "\<not> is_pending w \<Longrightarrow> promises M q = w \<Longrightarrow> promises (settle_promise p v M) q = w"
    "x \<in> set (reactions (promises (settle_promise p v M) q)) \<longleftrightarrow> x \<in> set (reactions (promises M q)) \<and> q \<noteq> p"
    "y \<in> set (jobs (settle_promise p v M)) \<longleftrightarrow>
      y \<in> set (jobs M) \<or> (\<exists>r\<in>set (reactions (promises M p)). y = React r v)"
    "is_pending (promises M p) \<Longrightarrow> promises (settle_promise p v M) p = v"
    using assms by (auto simp: settle_promise_def split: pstate.split)
qed

lemma jobs_of_reactions: "filter (job_writes s k) (map (\<lambda>r. React r v) rs) = map (\<lambda>r. React r v) (filter (is_rwrite s k) rs)"
  by (induction rs) auto

lemma is_rwriteD: "is_rwrite s k r \<Longrightarrow> \<exists>b. r = RWrite s k b"
  by (cases r) auto

lemma settle_tokens:
  assumes "\<not> is_pending v" "placed_ok M"
  shows "tokens s k (settle_promise p v M) = tokens s k M"
proof (cases "promises M p")
  case (Pending rs)
  have "p \<noteq> prev_promise s k \<Longrightarrow> filter (is_rwrite s k) rs = []"
    using assms(2) Pending by (fastforce simp: placed_ok_def filter_empty_conv dest: is_rwriteD)
  then show ?thesis using Pending assms(1)
    by (cases v) (auto simp: settle_promise_def tokens_def jobs_of_reactions)
qed (simp_all add: settle_promise_def)

lemma writes_inv_then:
  assumes "writes_inv M" "\<not> chained r"
  shows "writes_inv (then_react p r M)"
proof -
  have [simp]: "RWrite s k b \<noteq> r" "RSettle s k \<noteq> r" for s k b using assms(2) by auto
  show ?thesis using assms
    unfolding writes_inv_def called_ok_def placed_ok_def serial_ok_def write_ok_def given_def
    by (simp add: then_simps then_tokens)
qed

lemma writes_inv_then_settle:
  assumes "writes_inv M"
  shows "writes_inv (then_react (Exec s k) (RSettle s k) M)"
  using assms
  unfolding writes_inv_def called_ok_def placed_ok_def serial_ok_def write_ok_def given_def
  by (auto simp: then_simps then_tokens)

lemma writes_inv_settle:
  assumes I: "writes_inv M" and v: "\<not> is_pending v"
    and c: "\<And>s k. v = Fulfilled \<Longrightarrow> p = Done s k \<or> p = Exec s k \<Longrightarrow> was_called s k (trace M)"
  shows "writes_inv (settle_promise p v M)"
proof -
  have C: "called_ok (settle_promise p v M)"
    using I c v unfolding writes_inv_def called_ok_def by (auto simp: settle_simps [OF v])
  have P: "placed_ok M" using I by (simp add: writes_inv_def)
  have J: "React (RWrite s k b) w \<in> set (jobs (settle_promise p v M)) \<Longrightarrow>
      promises (settle_promise p v M) (prev_promise s k) = w \<and> \<not> is_pending w \<and> write_ok M s k b" for s k b w
  proof (cases "React (RWrite s k b) w \<in> set (jobs M)")
    case True
    then show ?thesis using P settle_simps(2) [OF v] by (auto simp: placed_ok_def)
  next
    case False
    assume "React (RWrite s k b) w \<in> set (jobs (settle_promise p v M))"
    with False have "RWrite s k b \<in> set (reactions (promises M p))" "w = v"
      by (auto simp: settle_simps [OF v])
    moreover from this have "p = prev_promise s k" "write_ok M s k b" "is_pending (promises M p)"
      using P by (auto simp: placed_ok_def) (cases "promises M p"; auto)
    ultimately show ?thesis using v settle_simps(5) [OF v, of M p] by simp
  qed
  have "placed_ok (settle_promise p v M)"
  proof (rule placed_okI)
    show "React (RWrite s k b) w \<in> set (jobs (settle_promise p v M)) \<Longrightarrow>
      promises (settle_promise p v M) (prev_promise s k) = w \<and> \<not> is_pending w \<and> write_ok (settle_promise p v M) s k b" for s k b w
      using J by (simp add: write_ok_def)
  qed (use P in \<open>auto simp: placed_ok_def write_ok_def settle_simps(3) [OF v] settle_tokens [OF v P]\<close>)
  then show ?thesis using C I unfolding writes_inv_def serial_ok_def given_def by simp
qed


lemma writes_inv_jobs:
  assumes "writes_inv M" "jobs M = j # r"
  shows "writes_inv (M\<lparr>jobs := r\<rparr>)"
proof -
  have "tokens s k (M\<lparr>jobs := r\<rparr>) \<le> tokens s k M" for s k
    using assms(2) by (simp add: tokens_def)
  moreover have "\<forall>s k. tokens s k M \<le> 1" using assms(1) by (simp add: writes_inv_def placed_ok_def)
  ultimately have "\<forall>s k. tokens s k (M\<lparr>jobs := r\<rparr>) \<le> 1" using order_trans by blast
  then show ?thesis using assms
    unfolding writes_inv_def called_ok_def placed_ok_def serial_ok_def write_ok_def given_def by simp
qed

lemma writes_inv_queue:
  assumes "writes_inv M" "\<And>r v. j \<noteq> React r v"
  shows "writes_inv (M\<lparr>jobs := jobs M @ [j]\<rparr>)"
proof -
  have [simp]: "React r v \<noteq> j" for r v using assms(2) by metis
  have [simp]: "\<not> job_writes s k j" for s k using assms(2) by (cases j) auto
  show ?thesis using assms(1)
    unfolding writes_inv_def called_ok_def placed_ok_def serial_ok_def tokens_def write_ok_def given_def
    by simp
qed

lemma serialized_given: "serialized s tr \<Longrightarrow> list_ex (is_sunk s i) tr \<longleftrightarrow> i < length (sunk_of s tr)"
  by (induction s tr rule: serialized.induct) auto

lemma no_token:
  assumes "placed_ok M" "length (accepts (streams M s)) \<le> k"
  shows "tokens s k M = 0"
proof -
  have w: "\<not> write_ok M s k b" for b using assms(2) by (simp add: write_ok_def)
  have "RWrite s k b \<notin> set (reactions (promises M p))" "React (RWrite s k b) v \<notin> set (jobs M)"
    "Sunk s k b \<notin> set (trace M)" for p b v
    using assms(1) w unfolding placed_ok_def by blast+
  moreover have "is_rwrite s k r \<Longrightarrow> \<exists>b. r = RWrite s k b" for r by (cases r) auto
  moreover have "job_writes s k j \<Longrightarrow> \<exists>b v. j = React (RWrite s k b) v" for j
    by (cases j) (auto dest: is_rwriteD)
  moreover have "is_sunk s k ob \<Longrightarrow> \<exists>b. ob = Sunk s k b" for ob by (cases ob) auto
  ultimately have "r \<in> set (reactions (promises M p)) \<Longrightarrow> \<not> is_rwrite s k r"
    "j \<in> set (jobs M) \<Longrightarrow> \<not> job_writes s k j" "ob \<in> set (trace M) \<Longrightarrow> \<not> is_sunk s k ob" for r p j ob
    by metis+
  then show ?thesis by (simp add: tokens_def filter_empty_conv)
qed

lemma writes_inv_accept:
  assumes "writes_inv M"
  shows "writes_inv (accept s b M)"
proof -
  let ?k = "length (accepts (streams M s))" and ?p = "writableTail (streams M s)"
  have P: "placed_ok M" using assms by (simp add: writes_inv_def)
  then have p: "?p = prev_promise s ?k" by (simp add: placed_ok_def)
  have [simp]: "promises (accept s b M) = promises (then_react ?p (RWrite s ?k b) M)"
    "jobs (accept s b M) = jobs (then_react ?p (RWrite s ?k b) M)"
    "trace (accept s b M) = Accepted s b # trace M" "stack (accept s b M) = stack M"
    "writableTail (streams (accept s b M) t) = (if t = s then Done s ?k else writableTail (streams M t))"
    "accepts (streams (accept s b M) t) = accepts (streams M t) @ (if t = s then [b] else [])" for t
    by (simp_all add: accept_def Let_def stream_eq streams_upd)
  have T: "tokens t i (accept s b M) = tokens t i (then_react ?p (RWrite s ?k b) M)" for t i
    by (simp add: tokens_def)
  have w: "write_ok M t i c \<Longrightarrow> write_ok (accept s b M) t i c" for t i c
    by (simp add: write_ok_def nth_append)
  have w': "write_ok (accept s b M) s ?k b" by (simp add: write_ok_def nth_append)
  have "placed_ok (accept s b M)"
  proof (rule placed_okI)
    show "writableTail (streams (accept s b M) t) = prev_promise t (length (accepts (streams (accept s b M) t)))" for t
      using P by (simp add: placed_ok_def)
    show "RWrite t i c \<in> set (reactions (promises (accept s b M) q)) \<Longrightarrow>
        q = prev_promise t i \<and> write_ok (accept s b M) t i c" for q t i c
      using P p w w' by (auto simp: then_simps placed_ok_def)
    show "React (RWrite t i c) v \<in> set (jobs (accept s b M)) \<Longrightarrow>
        promises (accept s b M) (prev_promise t i) = v \<and> \<not> is_pending v \<and> write_ok (accept s b M) t i c" for t i c v
      using P p w w' by (auto simp: then_simps placed_ok_def)
    show "Sunk t i c \<in> set (trace (accept s b M)) \<Longrightarrow> write_ok (accept s b M) t i c" for t i c
      using P w by (auto simp: placed_ok_def)
    show "tokens t i (accept s b M) \<le> 1" for t i
      using P no_token [OF P, of s ?k] by (auto simp: T then_tokens placed_ok_def)
  qed
  moreover have "called_ok (accept s b M)"
    using assms unfolding writes_inv_def called_ok_def by (auto simp: then_simps)
  ultimately show ?thesis using assms unfolding writes_inv_def serial_ok_def given_def by simp
qed

lemma was_called_simps [simp]:
  "was_called s k (Called t i e # tr) \<longleftrightarrow> t = s \<and> i = k \<or> was_called s k tr"
  "was_called s k (Sunk t i b # tr) = was_called s k tr"
  by (auto simp: was_called_def)

lemma writes_inv_sunk:
  assumes I: "writes_inv M" and t: "tokens s k M = 0" and f: "promises M (prev_promise s k) = Fulfilled"
    and w: "write_ok M s k b"
  shows "writes_inv (log_obs (Sunk s k b) M)"
proof -
  have S: "serialized t (trace M)" for t using I by (simp add: writes_inv_def serial_ok_def)
  have "\<not> list_ex (is_sunk s k) (trace M)" using t by (auto simp: tokens_def filter_empty_conv list_ex_iff)
  then have 1: "length (sunk_of s (trace M)) \<le> k" by (simp add: serialized_given [OF S])
  have 2: "k = 0 \<or> was_called s (k - 1) (trace M)"
    using f I by (cases k) (auto simp: writes_inv_def called_ok_def)
  then have "k \<le> length (sunk_of s (trace M))"
    using I serialized_given [OF S, of s "k - 1"] by (auto simp: writes_inv_def serial_ok_def given_def)
  with 1 2 have "serial_ok (log_obs (Sunk s k b) M)" "called_ok (log_obs (Sunk s k b) M)"
    using I by (auto simp: writes_inv_def called_ok_def serial_ok_def given_def)
  moreover have "placed_ok (log_obs (Sunk s k b) M)"
  proof (rule placed_okI)
    show "tokens t i (log_obs (Sunk s k b) M) \<le> 1" for t i
      using I t by (auto simp: writes_inv_def placed_ok_def tokens_def)
  qed (use I w in \<open>auto simp: writes_inv_def placed_ok_def write_ok_def\<close>)
  ultimately show ?thesis by (simp add: writes_inv_def)
qed

lemma writes_inv_called:
  assumes "writes_inv M" "given s k M"
  shows "writes_inv (log_obs (Called s k e) M)"
proof -
  have "called_ok (log_obs (Called s k e) M)" "serial_ok (log_obs (Called s k e) M)"
    using assms by (auto simp: writes_inv_def called_ok_def serial_ok_def given_def)
  then show ?thesis using assms(1) unfolding writes_inv_def placed_ok_def tokens_def write_ok_def by simp
qed

subsection \<open>Every step\<close>

lemma writes_inv_unwind:
  "writes_inv M \<Longrightarrow> set fs \<subseteq> set (stack M) \<Longrightarrow> writes_inv (unwind e fs M)"
  by (induction e fs M rule: unwind.induct)
     (auto intro!: writes_inv_log writes_inv_settle writes_inv_stack)

lemma writes_inv_throw: "writes_inv M \<Longrightarrow> writes_inv (throw e M)"
  by (simp add: throw_def writes_inv_unwind)

lemmas writes_inv_rules = writes_inv_push writes_inv_log writes_inv_upd writes_inv_then writes_inv_throw
  writes_inv_accept writes_inv_queue

lemma resolves_lists [simp]:
  "list_all (\<lambda>f. \<not> resolves f) (call_read nd s n)"
  "list_all (\<lambda>f. \<not> resolves f) (call_write nd s k b)"
  "list_all (\<lambda>f. \<not> resolves f) (finish_method kd s err)"
  "f \<in> set (call_read nd s n) \<Longrightarrow> \<not> resolves f"
  by (simp_all add: call_read_def call_write_def finish_method_def writable_finish_def
      split: read_fn.splits write_fn.split skind.split option.split)

lemma writes_inv_listen: "writes_inv M \<Longrightarrow> writes_inv (listen_all ev l ss M)"
  unfolding listen_all_def by (induction ss arbitrary: M) (simp_all add: writes_inv_upd)

lemma writes_inv_write: "writes_inv M \<Longrightarrow> writes_inv (op_write s c enc cb M)"
  unfolding op_write_def Let_def
  by (auto intro!: writes_inv_rules split: option.split sum.split)

lemma writes_inv_write_done: "writes_inv M \<Longrightarrow> writes_inv (op_write_done s k err M)"
  unfolding op_write_done_def Let_def
  by (auto intro!: writes_inv_upd writes_inv_called writes_inv_push_resolve simp: given_def split: option.split)

lemma writes_inv_op: "writes_inv M \<Longrightarrow> writes_inv (do_op opn M)"
  apply (cases opn)
  apply (auto simp: needs_read_def needs_write_def op_push_def op_read_def op_read_async_def op_pipe_def
      op_pause_def op_resume_def op_destroy_def op_end_def op_pipeline_def op_finished_def op_transform_done_def Let_def list_all_iff
      dest: resolves_lists(4) intro!: writes_inv_rules writes_inv_write writes_inv_write_done writes_inv_listen split: option.split sum.split)
  done


lemma writes_inv_listener: "writes_inv M \<Longrightarrow> writes_inv (deliver_to s ev l M)"
  by (cases "(s, ev, l, M)" rule: deliver_to.cases)
     (auto simp: finished_settle_def intro!: writes_inv_rules)

lemma writes_inv_invoke: "writes_inv M \<Longrightarrow> writes_inv (invoke cb err M)"
  by (cases cb) (auto intro!: writes_inv_rules writes_inv_settle split: option.split)

lemma writes_inv_frame:
  assumes "writes_inv M" "\<And>s k. f = ResolveExec s k \<Longrightarrow> was_called s k (trace M)"
  shows "writes_inv (run_frame P f M)"
  using assms
  by (cases "(P, f, M)" rule: run_frame.cases)
     (auto simp: run_cmd_def emit_event_def flush_loop_def read_rest_def async_loop_def read_check_def read_done_def
      end_rest_def destroy_rest_def pipeline_settle_def pipeline_cb_def Let_def list_all_iff
      dest: resolves_lists(4) intro!: writes_inv_rules writes_inv_op writes_inv_settle writes_inv_listener
      writes_inv_invoke split: option.split list.split ucmd.split)

lemma writes_inv_sink:
  assumes "writes_inv M" "tokens s k M = 0" "promises M (prev_promise s k) = Fulfilled" "write_ok M s k b"
  shows "writes_inv (sink s k b M)"
  unfolding sink_def using writes_inv_sunk [OF assms] by (intro writes_inv_push) simp_all

lemma writes_inv_job:
  assumes I: "writes_inv M" and j: "jobs M = j # r"
  shows "writes_inv (run_job j (M\<lparr>jobs := r\<rparr>))"
proof -
  let ?M = "M\<lparr>jobs := r\<rparr>"
  have J: "writes_inv ?M" by (rule writes_inv_jobs [OF I j])
  show ?thesis
  proof (cases j)
    case (Adopt s k)
    then show ?thesis using writes_inv_then_settle [OF J] by simp
  next
    case (Turn i n)
    then show ?thesis using J by (auto intro!: writes_inv_settle)
  next
    case (React x v)
    show ?thesis
    proof (cases "chained x")
      case False
      then show ?thesis using React J
        by (cases x) (auto simp: finish_writable_def intro!: writes_inv_rules split: option.split)
    next
      case True
      then consider s k b where "x = RWrite s k b" | s k where "x = RSettle s k" by (cases x) auto
      then show ?thesis
      proof cases
        case (1 s k b)
        then have f: "promises M (prev_promise s k) = v" "\<not> is_pending v" "write_ok M s k b" "tokens s k M \<le> 1"
          using I React j by (auto simp: writes_inv_def placed_ok_def)
        then have "tokens s k ?M = 0" using 1 React j by (simp add: tokens_def)
        with f show ?thesis using 1 React writes_inv_sink [OF J, of s k b]
          by (auto simp: write_ok_def intro!: writes_inv_settle J)
      next
        case (2 s k)
        then have "\<not> is_pending v" "v = Fulfilled \<longrightarrow> was_called s k (trace M)"
          using I React j by (auto simp: writes_inv_def called_ok_def)
        then show ?thesis using 2 React J by (auto intro!: writes_inv_settle)
      qed
    qed
  qed
qed

lemma writes_inv_step: "writes_inv M \<Longrightarrow> writes_inv (machine_step P M a)"
proof (cases a)
  case Tick
  assume I: "writes_inv M"
  show ?thesis
  proof (cases "stack M")
    case Nil
    then show ?thesis using I writes_inv_job [OF I] Tick by (simp add: machine_tick_def split: list.split)
  next
    case (Cons f fs)
    then have "writes_inv (M\<lparr>stack := fs\<rparr>)" using I by (auto intro: writes_inv_stack)
    moreover have "f = ResolveExec s k \<Longrightarrow> was_called s k (trace M)" for s k
      using I Cons by (simp add: writes_inv_def called_ok_def)
    ultimately show ?thesis using Tick Cons by (simp add: machine_tick_def writes_inv_frame)
  qed
qed (auto intro: writes_inv_push)

interpretation writes: component "machine_step P" writes_inv
  by unfold_locales (rule writes_inv_step)

lemma writes_inv_new: "writes_inv (new_machine cfg)"
  by (auto simp: writes_inv_def called_ok_def placed_ok_def serial_ok_def tokens_def new_machine_def
      new_stream_def given_def was_called_def split: promise.split)

lemma sunk_take:
  assumes "serialized s tr" "\<And>k b. Sunk s k b \<in> set tr \<Longrightarrow> k < length W \<and> b = W ! k"
  shows "sunk_of s tr = take (length (sunk_of s tr)) W"
  using assms
proof (induction s tr rule: serialized.induct)
  case (2 s t k b tr)
  have IH: "sunk_of s tr = take (length (sunk_of s tr)) W"
  proof (rule 2(1))
    show "serialized s tr" using 2(2) by simp
    show "Sunk s i c \<in> set tr \<Longrightarrow> i < length W \<and> c = W ! i" for i c using 2(3) [of i c] by simp
  qed
  show ?case
  proof (cases "t = s")
    case True
    then have "k = length (sunk_of s tr)" "k < length W" "b = W ! k" using 2(2) 2(3) [of k b] by simp_all
    then have "take (Suc k) W = sunk_of s tr @ [b]" using IH by (simp add: take_Suc_conv_app_nth)
    then show ?thesis using True \<open>k = _\<close> by simp
  qed (simp add: IH [symmetric])
qed auto

text \<open>C2. 
  Whatever the program and the sinks do, every stream hands its chunks to the sink in the order of the
  writes, none twice and none left out, and the next one only after the callback of the one before
  was called.
\<close>

theorem writes_serialized:
  "let M = foldl (machine_step P) (new_machine cfg) turns
   in serialized s (trace M)
      \<and> sunk_of s (trace M) = take (length (sunk_of s (trace M))) (accepts (streams M s))"
proof -
  let ?M = "foldl (machine_step P) (new_machine cfg) turns"
  have "writes_inv ?M" by (rule writes.run_inv [OF writes_inv_new])
  then have "serialized s (trace ?M)" "\<And>k b. Sunk s k b \<in> set (trace ?M) \<Longrightarrow> write_ok ?M s k b"
    by (simp_all add: writes_inv_def placed_ok_def serial_ok_def)
  then show ?thesis unfolding Let_def write_ok_def by (blast intro: sunk_take)
qed


section \<open>Finish comes once, after the writes\<close>

fun is_finish_frame :: "nat \<Rightarrow> sframe \<Rightarrow> bool" where
  "is_finish_frame s (EmitF t FinishEv) = (t = s)"
| "is_finish_frame s _ = False"

fun is_finish :: "nat \<Rightarrow> obs \<Rightarrow> bool" where
  "is_finish s (Emitted t FinishEv) = (t = s)"
| "is_finish s _ = False"

definition finishes :: "nat \<Rightarrow> machine \<Rightarrow> nat" where
  "finishes s M = length (filter (is_finish_frame s) (stack M)) + length (filter (is_finish s) (trace M))"

definition finish_inv :: "machine \<Rightarrow> bool" where
  "finish_inv M \<longleftrightarrow> (\<forall>s. finishes s M \<le> (if wfinished (streams M s) then 1 else 0))
     \<and> (\<forall>s. wfinished (streams M s) \<longrightarrow>
          wended (streams M s) \<and> \<not> is_pending (promises M (writableTail (streams M s))))
     \<and> (\<forall>s p. RFinish s \<in> set (reactions (promises M p)) \<longrightarrow>
          p = writableTail (streams M s) \<and> wended (streams M s))
     \<and> (\<forall>s v. React (RFinish s) v \<in> set (jobs M) \<longrightarrow>
          wended (streams M s) \<and> promises M (writableTail (streams M s)) = v \<and> \<not> is_pending v)"

lemma finish_invD:
  assumes "finish_inv M"
  shows "finishes s M \<le> (if wfinished (streams M s) then 1 else 0)"
    and "wfinished (streams M s) \<Longrightarrow> wended (streams M s) \<and> \<not> is_pending (promises M (writableTail (streams M s)))"
    and "RFinish s \<in> set (reactions (promises M p)) \<Longrightarrow> p = writableTail (streams M s) \<and> wended (streams M s)"
    and "React (RFinish s) v \<in> set (jobs M) \<Longrightarrow>
      wended (streams M s) \<and> promises M (writableTail (streams M s)) = v \<and> \<not> is_pending v"
  using assms by (simp_all add: finish_inv_def)

lemma finish_invI:
  assumes "\<And>s. finishes s M \<le> (if wfinished (streams M s) then 1 else 0)"
    and "\<And>s. wfinished (streams M s) \<Longrightarrow> wended (streams M s) \<and> \<not> is_pending (promises M (writableTail (streams M s)))"
    and "\<And>s p. RFinish s \<in> set (reactions (promises M p)) \<Longrightarrow> p = writableTail (streams M s) \<and> wended (streams M s)"
    and "\<And>s v. React (RFinish s) v \<in> set (jobs M) \<Longrightarrow>
      wended (streams M s) \<and> promises M (writableTail (streams M s)) = v \<and> \<not> is_pending v"
  shows "finish_inv M"
  using assms by (simp add: finish_inv_def)

lemma finishes_simps [simp]:
  "finishes s (then_react p r M) = finishes s M" "finishes s (settle_promise p v M) = finishes s M"
  "finishes s (upd t f M) = finishes s M" "finishes s (M\<lparr>jobs := r'\<rparr>) = finishes s M"
  by (simp_all add: finishes_def)

lemma finish_inv_push:
  assumes "finish_inv M" "\<And>s. filter (is_finish_frame s) fs = []"
  shows "finish_inv (push_frames fs M)"
  using assms by (simp add: finish_inv_def finishes_def)

lemma finish_inv_log:
  assumes "finish_inv M" "\<And>s. \<not> is_finish s ob"
  shows "finish_inv (log_obs ob M)"
  using assms by (simp add: finish_inv_def finishes_def)

lemma finish_inv_upd:
  assumes "finish_inv M" "\<And>nd. writableTail (f nd) = writableTail nd" "\<And>nd. wfinished (f nd) = wfinished nd"
    "\<And>nd. wended nd \<Longrightarrow> wended (f nd)"
  shows "finish_inv (upd s f M)"
proof -
  have [simp]: "writableTail (streams (upd s f M) t) = writableTail (streams M t)"
    "wfinished (streams (upd s f M) t) = wfinished (streams M t)" for t
    using assms(2,3) by (simp_all add: streams_upd)
  have [simp]: "wended (streams M t) \<Longrightarrow> wended (streams (upd s f M) t)" for t
    by (auto simp: streams_upd intro: assms(4))
  show ?thesis by (rule finish_invI) (use finish_invD [OF assms(1)] in simp_all)
qed

lemma finish_inv_stack:
  assumes "finish_inv M" "suffix fs (stack M)"
  shows "finish_inv (M\<lparr>stack := fs\<rparr>)"
proof -
  obtain gs where "stack M = gs @ fs" using assms(2) by (auto simp: suffix_def)
  then have "finishes s (M\<lparr>stack := fs\<rparr>) \<le> finishes s M" for s by (simp add: finishes_def)
  with finish_invD(1) [OF assms(1)]
  have "finishes s (M\<lparr>stack := fs\<rparr>) \<le> (if wfinished (streams M s) then 1 else 0)" for s
    by (rule order_trans [rotated])
  then show ?thesis using assms(1) by (simp add: finish_inv_def)
qed

lemma finish_inv_other [simp]:
  "finish_inv (M\<lparr>nextId := i\<rparr>) = finish_inv M" "finish_inv (M\<lparr>settled := g\<rparr>) = finish_inv M"
  by (simp_all add: finish_inv_def finishes_def)

lemma then_pending: "is_pending (promises (then_react p r M) q) = is_pending (promises M q)"
  by (simp add: then_react_def split: pstate.split)

lemma settle_pending: "\<not> is_pending v \<Longrightarrow> is_pending (promises (settle_promise p v M) q) \<Longrightarrow> is_pending (promises M q)"
  by (auto simp: settle_promise_def split: pstate.splits if_splits)

lemma finish_inv_then:
  assumes "finish_inv M" "\<And>s. r = RFinish s \<Longrightarrow> p = writableTail (streams M s) \<and> wended (streams M s)"
  shows "finish_inv (then_react p r M)"
  by (rule finish_invI)
     (use finish_invD [OF assms(1)] assms(2) in \<open>auto simp: then_simps then_pending\<close>)

lemma finish_inv_settle:
  assumes I: "finish_inv M" and v: "\<not> is_pending v"
  shows "finish_inv (settle_promise p v M)"
proof -
  have J: "React (RFinish s) w \<in> set (jobs (settle_promise p v M)) \<Longrightarrow>
      wended (streams M s) \<and> promises (settle_promise p v M) (writableTail (streams M s)) = w \<and> \<not> is_pending w" for s w
  proof (cases "React (RFinish s) w \<in> set (jobs M)")
    case True
    then show ?thesis using finish_invD(4) [OF I] settle_simps(2) [OF v] by blast
  next
    case False
    assume "React (RFinish s) w \<in> set (jobs (settle_promise p v M))"
    with False have "RFinish s \<in> set (reactions (promises M p))" "w = v"
      by (auto simp: settle_simps [OF v])
    moreover from this(1) have "p = writableTail (streams M s) \<and> wended (streams M s)"
      by (rule finish_invD(3) [OF I])
    moreover from \<open>RFinish s \<in> _\<close> have "is_pending (promises M p)" by (cases "promises M p") auto
    ultimately show ?thesis using v settle_simps(5) [OF v, of M p] by auto
  qed
  show ?thesis
  proof (rule finish_invI)
    show "wfinished (streams (settle_promise p v M) s) \<Longrightarrow> wended (streams (settle_promise p v M) s)
        \<and> \<not> is_pending (promises (settle_promise p v M) (writableTail (streams (settle_promise p v M) s)))" for s
      using finish_invD(2) [OF I, of s] settle_pending [OF v, of p M "writableTail (streams M s)"] by auto
    show "RFinish s \<in> set (reactions (promises (settle_promise p v M) q)) \<Longrightarrow>
        q = writableTail (streams (settle_promise p v M) s) \<and> wended (streams (settle_promise p v M) s)" for s q
      using finish_invD(3) [OF I, of s q] by (simp add: settle_simps(3) [OF v])
  qed (use finish_invD(1) [OF I] J in simp_all)
qed

lemma finish_inv_accept:
  assumes "finish_inv M" "\<not> wended (streams M s)"
  shows "finish_inv (accept s b M)"
proof -
  have [simp]: "finishes t (accept s b M) = finishes t M" for t
    by (simp add: accept_def Let_def finishes_def)
  have [simp]: "promises (accept s b M) = promises (then_react (writableTail (streams M s)) (RWrite s (length (accepts (streams M s))) b) M)"
    "jobs (accept s b M) = jobs (then_react (writableTail (streams M s)) (RWrite s (length (accepts (streams M s))) b) M)"
    by (simp_all add: accept_def Let_def stream_eq)
  have [simp]: "wended (streams (accept s b M) t) = wended (streams M t)"
    "wfinished (streams (accept s b M) t) = wfinished (streams M t)"
    "wended (streams M t) \<Longrightarrow> writableTail (streams (accept s b M) t) = writableTail (streams M t)" for t
    using assms(2) by (auto simp: accept_def Let_def stream_eq streams_upd)
  note F = finish_invD [OF assms(1)]
  show ?thesis
  proof (rule finish_invI)
    show "finishes t (accept s b M) \<le> (if wfinished (streams (accept s b M) t) then 1 else 0)" for t
      using F(1) [of t] by simp
    show "wfinished (streams (accept s b M) t) \<Longrightarrow> wended (streams (accept s b M) t)
        \<and> \<not> is_pending (promises (accept s b M) (writableTail (streams (accept s b M) t)))" for t
      using F(2) [of t] by (simp add: then_pending)
    show "RFinish t \<in> set (reactions (promises (accept s b M) p)) \<Longrightarrow>
        p = writableTail (streams (accept s b M) t) \<and> wended (streams (accept s b M) t)" for t p
      using F(3) [of t p] by (auto simp: then_simps)
    show "React (RFinish t) v \<in> set (jobs (accept s b M)) \<Longrightarrow> wended (streams (accept s b M) t)
        \<and> promises (accept s b M) (writableTail (streams (accept s b M) t)) = v \<and> \<not> is_pending v" for t v
      using F(4) [of t v] by (auto simp: then_simps)
  qed
qed

lemma finish_inv_jobs:
  assumes "finish_inv M" "jobs M = j # r"
  shows "finish_inv (M\<lparr>jobs := r\<rparr>)"
proof (rule finish_invI)
  show "React (RFinish s) v \<in> set (jobs (M\<lparr>jobs := r\<rparr>)) \<Longrightarrow> wended (streams (M\<lparr>jobs := r\<rparr>) s)
      \<and> promises (M\<lparr>jobs := r\<rparr>) (writableTail (streams (M\<lparr>jobs := r\<rparr>) s)) = v \<and> \<not> is_pending v" for s v
    using finish_invD(4) [OF assms(1), of s v] assms(2) by simp
qed (use finish_invD(1-3) [OF assms(1)] in simp_all)

lemma finish_inv_queue:
  assumes "finish_inv M" "\<And>r v. j \<noteq> React r v"
  shows "finish_inv (M\<lparr>jobs := jobs M @ [j]\<rparr>)"
proof -
  have [simp]: "React r v \<noteq> j" for r v using assms(2) by metis
  show ?thesis using assms(1) by (simp add: finish_inv_def)
qed

lemma finish_inv_unwind: "finish_inv M \<Longrightarrow> suffix fs (stack M) \<Longrightarrow> finish_inv (unwind e fs M)"
  by (induction e fs M rule: unwind.induct)
     (auto intro!: finish_inv_log finish_inv_settle finish_inv_stack dest: suffix_ConsD)

lemma finish_inv_throw: "finish_inv M \<Longrightarrow> finish_inv (throw e M)"
  by (simp add: throw_def finish_inv_unwind)

lemmas finish_inv_rules = finish_inv_push finish_inv_log finish_inv_upd finish_inv_then finish_inv_throw
  finish_inv_settle finish_inv_queue

lemma finish_lists [simp]:
  "filter (is_finish_frame s) (call_read nd t n) = []"
  "filter (is_finish_frame s) (call_write nd t k b) = []"
  "filter (is_finish_frame s) (map (\<lambda>(a, b). DoOp (PipeTo a b True)) ps) = []"
  by (auto simp: call_read_def call_write_def filter_empty_conv split: read_fn.split write_fn.split)

lemma finish_inv_listen: "finish_inv M \<Longrightarrow> finish_inv (listen_all ev l ss M)"
  unfolding listen_all_def by (induction ss arbitrary: M) (simp_all add: finish_inv_upd)

lemma finish_inv_op: "finish_inv M \<Longrightarrow> finish_inv (do_op opn M)"
  by (cases opn)
     (auto simp: needs_read_def needs_write_def op_push_def op_read_def op_read_async_def op_pipe_def
      op_pause_def op_resume_def op_destroy_def op_write_def op_write_done_def op_end_def op_pipeline_def
      op_finished_def op_transform_done_def Let_def stream_eq
      intro!: finish_inv_rules finish_inv_accept finish_inv_listen split: option.split sum.split)


lemma finish_inv_listener: "finish_inv M \<Longrightarrow> finish_inv (deliver_to s ev l M)"
  by (cases "(s, ev, l, M)" rule: deliver_to.cases)
     (auto simp: finished_settle_def intro!: finish_inv_rules)

lemma finish_inv_invoke: "finish_inv M \<Longrightarrow> finish_inv (invoke cb err M)"
  by (cases cb) (auto intro!: finish_inv_rules split: option.split)

lemma finish_inv_emit:
  assumes "finish_inv M" "stack M = EmitF s ev # fs"
  shows "finish_inv (emit_event s ev (M\<lparr>stack := fs\<rparr>))"
proof -
  have "is_finish t (Emitted s ev) = is_finish_frame t (EmitF s ev)" for t by (cases ev) auto
  then have "finishes t (emit_event s ev (M\<lparr>stack := fs\<rparr>)) = finishes t M" for t
    using assms(2) by (simp add: finishes_def emit_event_def)
  then show ?thesis using assms(1) by (simp add: finish_inv_def emit_event_def)
qed

lemma finish_inv_frame:
  assumes "finish_inv M" "\<And>s ev. f \<noteq> EmitF s ev"
  shows "finish_inv (run_frame P f M)"
  using assms
  by (cases "(P, f, M)" rule: run_frame.cases)
     (auto simp: run_cmd_def flush_loop_def read_rest_def async_loop_def read_check_def read_done_def
      end_rest_def destroy_rest_def pipeline_settle_def pipeline_cb_def Let_def stream_eq streams_upd
      intro!: finish_inv_rules finish_inv_op finish_inv_listener finish_inv_invoke
      split: option.split list.split ucmd.split)


lemma finish_method_once:
  "length (filter (is_finish_frame t) (finish_method k s err)) \<le> (if t = s then 1 else 0)"
  by (simp add: finish_method_def writable_finish_def split: skind.split option.split)

lemma finish_inv_finish:
  assumes I: "finish_inv M" and e: "wended (streams M s)" "\<not> is_pending (promises M (writableTail (streams M s)))"
  shows "finish_inv (finish_writable s err M)"
proof (cases "wfinished (streams M s)")
  case False
  let ?M = "upd s (\<lambda>nd. nd\<lparr>wfinished := True\<rparr>) M"
  have S: "streams ?M t = (if t = s then (streams M s)\<lparr>wfinished := True\<rparr> else streams M t)" for t
    by (simp add: streams_upd)
  have "finishes s M = 0" using finish_invD(1) [OF I, of s] False by simp
  then have "finishes t (push_frames (finish_method k s err) ?M) \<le> (if wfinished (streams ?M t) then 1 else 0)" for t k
    using finish_method_once [of t k s err] finish_invD(1) [OF I, of t] by (auto simp: finishes_def S)
  moreover have "finish_inv M \<Longrightarrow> RFinish t \<in> set (reactions (promises M p)) \<Longrightarrow> p = writableTail (streams ?M t) \<and> wended (streams ?M t)" for t p
    using finish_invD(3) [OF I, of t p] by (auto simp: S)
  moreover have "React (RFinish t) v \<in> set (jobs M) \<Longrightarrow> wended (streams ?M t)
      \<and> promises M (writableTail (streams ?M t)) = v \<and> \<not> is_pending v" for t v
    using finish_invD(4) [OF I, of t v] by (auto simp: S)
  moreover have "wfinished (streams ?M t) \<Longrightarrow> wended (streams ?M t) \<and> \<not> is_pending (promises M (writableTail (streams ?M t)))" for t
    using finish_invD(2) [OF I, of t] e by (simp add: S split: if_splits)
  ultimately show ?thesis using False I
    by (auto simp: finish_writable_def stream_eq intro!: finish_invI)
qed (simp add: finish_writable_def stream_eq I)

lemma finish_inv_reaction:
  assumes "finish_inv M" "\<And>s. r \<noteq> RFinish s" "chained r \<Longrightarrow> \<not> is_pending v"
  shows "finish_inv (run_reaction r v M)"
  using assms by (cases r) (auto simp: sink_def intro!: finish_inv_rules split: option.split)

lemma finish_inv_job:
  assumes W: "writes_inv M" and I: "finish_inv M" and j: "jobs M = j # r"
  shows "finish_inv (run_job j (M\<lparr>jobs := r\<rparr>))"
proof -
  let ?M = "M\<lparr>jobs := r\<rparr>"
  have J: "finish_inv ?M" by (rule finish_inv_jobs [OF I j])
  show ?thesis
  proof (cases j)
    case (React x v)
    then have p: "chained x \<Longrightarrow> \<not> is_pending v"
      using W j by (cases x) (auto simp: writes_inv_def placed_ok_def called_ok_def)
    show ?thesis
    proof (cases "\<exists>s. x = RFinish s")
      case True
      then obtain s where "x = RFinish s" by blast
      then show ?thesis using finish_invD(4) [OF I, of s v] j J React
        by (auto intro!: finish_inv_finish finish_inv_push)
    qed (use finish_inv_reaction [OF J _ p] React in auto)
  qed (use J in \<open>auto intro!: finish_inv_rules\<close>)
qed

lemma finish_inv_step:
  assumes W: "writes_inv M" and I: "finish_inv M"
  shows "finish_inv (machine_step P M a)"
proof (cases a)
  case Tick
  show ?thesis
  proof (cases "stack M")
    case Nil
    then show ?thesis using I finish_inv_job [OF W I] Tick by (simp add: machine_tick_def split: list.split)
  next
    case (Cons f fs)
    then have "finish_inv (M\<lparr>stack := fs\<rparr>)" using I by (auto intro: finish_inv_stack simp: suffix_ConsI)
    then show ?thesis using Tick Cons finish_inv_emit [OF I, of _ _ fs] finish_inv_frame
      by (cases "\<exists>s ev. f = EmitF s ev") (auto simp: machine_tick_def)
  qed
qed (use I in \<open>auto intro: finish_inv_push\<close>)

interpretation finish: component "machine_step P" "\<lambda>M. writes_inv M \<and> finish_inv M"
  by unfold_locales (auto intro: writes_inv_step finish_inv_step)

lemma finish_inv_new: "finish_inv (new_machine cfg)"
  by (auto simp: finish_inv_def finishes_def new_machine_def new_stream_def split: promise.split)


text \<open>The writes of a stream whose promise chain is fulfilled have all been called back.\<close>

lemma serialized_called: "serialized s tr \<Longrightarrow> Suc k < length (sunk_of s tr) \<Longrightarrow> was_called s k tr"
proof (induction s tr rule: serialized.induct)
  case (2 s t i b tr)
  show ?case
  proof (cases "t = s \<and> \<not> Suc k < length (sunk_of s tr)")
    case True
    then have "length (sunk_of s tr) = Suc k" using 2(3) by auto
    then have "length (sunk_of s tr) - 1 = k" by simp
    then show ?thesis using 2(2,3) True by auto
  qed (use 2 in \<open>auto split: if_splits\<close>)
qed auto

lemma all_called:
  assumes I: "writes_inv M" and f: "promises M (writableTail (streams M s)) = Fulfilled"
  shows "{..<length (accepts (streams M s))} \<subseteq> {k. was_called s k (trace M)}"
proof
  fix k assume k: "k \<in> {..<length (accepts (streams M s))}"
  let ?n = "length (accepts (streams M s))"
  have S: "serialized s (trace M)" using I by (simp add: writes_inv_def serial_ok_def)
  obtain m where m: "?n = Suc m" using k by (cases ?n) auto
  have "writableTail (streams M s) = Done s m" using I m by (simp add: writes_inv_def placed_ok_def)
  then have c: "was_called s m (trace M)" using I f by (simp add: writes_inv_def called_ok_def)
  then have "m < length (sunk_of s (trace M))"
    using I serialized_given [OF S, of m] by (simp add: writes_inv_def serial_ok_def given_def)
  then show "k \<in> {k. was_called s k (trace M)}"
    using k m c serialized_called [OF S, of k] by (cases "k = m") auto
qed

definition finish_count :: "nat \<Rightarrow> obs list \<Rightarrow> nat" where
  "finish_count s tr = length (filter (is_finish s) tr)"

text \<open>C29. 
  A stream emits \<open>finish\<close> at most once, only after \<open>end\<close>, and when it does, the callback of every
  write it accepted was called, or a write has failed by throwing.
\<close>

theorem finish_after_writes:
  "let M = foldl (machine_step P) (new_machine cfg) turns; nd = streams M s
   in finish_count s (trace M) = 0
      \<or> finish_count s (trace M) = 1 \<and> wended nd
        \<and> ({..<length (accepts nd)} \<subseteq> {k. was_called s k (trace M)}
           \<or> (\<exists>e. promises M (writableTail nd) = Rejected e))"
proof -
  let ?M = "foldl (machine_step P) (new_machine cfg) turns"
  have I: "writes_inv ?M" "finish_inv ?M"
    using finish.run_inv [of "new_machine cfg"] writes_inv_new finish_inv_new by blast+
  have c: "finish_count s (trace ?M) \<le> finishes s ?M" by (simp add: finish_count_def finishes_def)
  show ?thesis
  proof (cases "wfinished (streams ?M s)")
    case True
    have "promises ?M (writableTail (streams ?M s)) = Fulfilled \<or> (\<exists>e. promises ?M (writableTail (streams ?M s)) = Rejected e)"
      using finish_invD(2) [OF I(2) True] by (cases "promises ?M (writableTail (streams ?M s))") auto
    then show ?thesis
      using finish_invD(1) [OF I(2), of s] finish_invD(2) [OF I(2) True] True c all_called [OF I(1), of s]
      by (auto simp: Let_def)
  qed (use finish_invD(1) [OF I(2), of s] c in \<open>auto simp: Let_def\<close>)
qed


section \<open>What is read is what was pushed\<close>

fun pushed_of :: "nat \<Rightarrow> obs list \<Rightarrow> bytes list" where
  "pushed_of s [] = []"
| "pushed_of s (Pushed t b # tr) = (if t = s then pushed_of s tr @ [b] else pushed_of s tr)"
| "pushed_of s (x # tr) = pushed_of s tr"

fun took_of :: "nat \<Rightarrow> obs list \<Rightarrow> bytes list" where
  "took_of s [] = []"
| "took_of s (Took t b # tr) = (if t = s then took_of s tr @ [b] else took_of s tr)"
| "took_of s (x # tr) = took_of s tr"

definition read_inv :: "machine \<Rightarrow> bool" where
  "read_inv M \<longleftrightarrow> (\<forall>s. pushed_of s (trace M) = took_of s (trace M) @ rbuf (streams M s)
     \<and> rbuffered (streams M s) = int (length (concat (rbuf (streams M s)))))"

fun moves :: "obs \<Rightarrow> bool" where
  "moves (Pushed s b) = True"
| "moves (Took s b) = True"
| "moves _ = False"

lemma unmoved [simp]:
  "\<not> moves ob \<Longrightarrow> pushed_of s (ob # tr) = pushed_of s tr" "\<not> moves ob \<Longrightarrow> took_of s (ob # tr) = took_of s tr"
  by (cases ob; simp)+

lemma read_inv_simps [simp]:
  "read_inv (push_frames fs M) = read_inv M" "read_inv (then_react p r M) = read_inv M"
  "read_inv (settle_promise p v M) = read_inv M" "read_inv (M\<lparr>stack := fs\<rparr>) = read_inv M"
  "read_inv (M\<lparr>jobs := r'\<rparr>) = read_inv M" "read_inv (M\<lparr>nextId := i\<rparr>) = read_inv M"
  "read_inv (M\<lparr>settled := g\<rparr>) = read_inv M"
  "\<not> moves ob \<Longrightarrow> read_inv (log_obs ob M) = read_inv M"
  by (simp_all add: read_inv_def)

lemma read_inv_upd:
  assumes "\<And>nd. rbuf (f nd) = rbuf nd" "\<And>nd. rbuffered (f nd) = rbuffered nd"
  shows "read_inv (upd s f M) = read_inv M"
proof -
  have "rbuf (streams (upd s f M) t) = rbuf (streams M t)" "rbuffered (streams (upd s f M) t) = rbuffered (streams M t)" for t
    using assms by (simp_all add: streams_upd)
  then show ?thesis by (simp add: read_inv_def)
qed

lemma read_inv_enqueue: "read_inv M \<Longrightarrow> read_inv (log_obs (Pushed s b) (upd s (enqueue b) M))"
  by (simp add: read_inv_def streams_upd enqueue_def)

lemma read_inv_shift:
  assumes "read_inv M" "rbuf (streams M s) = c # r"
  shows "read_inv (log_obs (Took s c) (upd s shift M))"
proof -
  have "pushed_of s (trace M) = took_of s (trace M) @ c # r" "rbuffered (streams M s) = int (length (concat (c # r)))"
    using assms by (simp_all add: read_inv_def)
  then show ?thesis using assms by (simp add: read_inv_def streams_upd shift_def)
qed

lemma read_inv_unwind [simp]: "read_inv (unwind e fs M) = read_inv M"
  by (induction e fs M rule: unwind.induct) simp_all

lemma read_inv_listen [simp]: "read_inv (listen_all ev l ss M) = read_inv M"
  unfolding listen_all_def by (induction ss arbitrary: M) (simp_all add: read_inv_upd)

lemma read_inv_accept [simp]: "read_inv (accept s b M) = read_inv M"
  by (simp add: accept_def Let_def read_inv_upd)

lemma read_inv_op: "read_inv M \<Longrightarrow> read_inv (do_op opn M)"
  by (cases opn)
     (auto simp: needs_read_def needs_write_def op_push_def op_read_def op_read_async_def op_pipe_def throw_def
      op_pause_def op_resume_def op_destroy_def op_write_def op_write_done_def op_end_def op_pipeline_def
      op_finished_def op_transform_done_def Let_def stream_eq read_inv_upd read_inv_enqueue split: option.split sum.split)

lemma read_inv_listener: "read_inv M \<Longrightarrow> read_inv (deliver_to s ev l M)"
  by (cases "(s, ev, l, M)" rule: deliver_to.cases) (auto simp: finished_settle_def read_inv_upd)

lemma read_inv_invoke: "read_inv M \<Longrightarrow> read_inv (invoke cb err M)"
  by (cases cb) auto

lemma read_inv_frame: "read_inv M \<Longrightarrow> read_inv (run_frame P f M)"
  by (cases "(P, f, M)" rule: run_frame.cases)
     (auto simp: run_cmd_def flush_loop_def read_rest_def async_loop_def read_check_def read_done_def throw_def
      end_rest_def destroy_rest_def pipeline_settle_def pipeline_cb_def emit_event_def Let_def stream_eq read_inv_upd read_inv_shift
      intro!: read_inv_op read_inv_listener read_inv_invoke split: option.split list.split ucmd.split)


lemma read_inv_job: "read_inv M \<Longrightarrow> read_inv (run_job j M)"
proof (cases j)
  case (React r v)
  then show "read_inv M \<Longrightarrow> ?thesis"
    by (cases r) (auto simp: sink_def finish_writable_def read_inv_upd split: option.split)
qed auto

lemma read_inv_step: "read_inv M \<Longrightarrow> read_inv (machine_step P M a)"
  by (cases a) (auto simp: machine_tick_def intro!: read_inv_frame read_inv_job split: list.split)

interpretation reading: component "machine_step P" read_inv
  by unfold_locales (rule read_inv_step)

lemma read_inv_new: "read_inv (new_machine cfg)"
  by (simp add: read_inv_def new_machine_def new_stream_def)

text \<open>
  Whatever leaves the buffer of a stream, by \<open>data\<close> events, \<open>read\<close> or the iterator, is what was
  pushed, in order, and the rest is still in the buffer; \<open>buffered\<close> counts its bytes.
\<close>

theorem reads_conserve:
  "let M = foldl (machine_step P) (new_machine cfg) turns; nd = streams M s
   in pushed_of s (trace M) = took_of s (trace M) @ rbuf nd
      \<and> rbuffered nd = int (length (concat (rbuf nd)))"
  using reading.run_inv [OF read_inv_new] by (simp add: Let_def read_inv_def)

section \<open>A \<open>PassThrough\<close> passes through\<close>

text \<open>
  Between its steps a transform with the default function owes nothing: it has pushed what its sink
  was given, and no frame will push on it. While it owes one chunk, the frame that pushes it is on top.
\<close>

fun pushes :: "nat \<Rightarrow> sframe \<Rightarrow> bool" where
  "pushes s (DoOp (Push t (Some c) enc)) = (t = s)"
| "pushes s (DoOp (TransformDone t k err data)) = (t = s)"
| "pushes s _ = False"

fun never_pushes :: "nat \<Rightarrow> ucmd \<Rightarrow> bool" where
  "never_pushes s (Do (Push t (Some c) enc)) = (t \<noteq> s)"
| "never_pushes s (Try (Push t (Some c) enc)) = (t \<noteq> s)"
| "never_pushes s _ = True"

lemma push_simps [simp]:
  "pushes s (DoOp (Push t c enc)) = (t = s \<and> c \<noteq> None)"
  "never_pushes s (Do (Push t c enc)) = (t \<noteq> s \<or> c = None)"
  "never_pushes s (Try (Push t c enc)) = (t \<noteq> s \<or> c = None)"
  by (cases c; simp)+

definition owes :: "nat \<Rightarrow> bytes list \<Rightarrow> machine \<Rightarrow> bool" where
  "owes s bs M \<longleftrightarrow> writeFn (streams M s) = WriteTransform False \<and> has_read (skind (streams M s))
     \<and> pushed_of s (trace M) @ bs = sunk_of s (trace M) \<and> list_all (\<lambda>f. \<not> pushes s f) (stack M)"

fun passes :: "nat \<Rightarrow> obs \<Rightarrow> bool" where
  "passes s (Pushed t b) = (t = s)"
| "passes s (Sunk t k b) = (t = s)"
| "passes s _ = False"

lemma passes_simps [simp]:
  "\<not> passes s ob \<Longrightarrow> pushed_of s (ob # tr) = pushed_of s tr" "\<not> passes s ob \<Longrightarrow> sunk_of s (ob # tr) = sunk_of s tr"
  by (cases ob; simp)+

lemma owes_simps [simp]:
  "owes s bs (push_frames fs M) \<longleftrightarrow> owes s bs M \<and> list_all (\<lambda>f. \<not> pushes s f) fs"
  "owes s bs (then_react p r M) = owes s bs M" "owes s bs (settle_promise p v M) = owes s bs M"
  "owes s bs (M\<lparr>jobs := r'\<rparr>) = owes s bs M" "owes s bs (M\<lparr>nextId := i\<rparr>) = owes s bs M"
  "owes s bs (M\<lparr>settled := g\<rparr>) = owes s bs M"
  "\<not> passes s ob \<Longrightarrow> owes s bs (log_obs ob M) = owes s bs M"
  by (auto simp: owes_def)

lemma owes_upd:
  assumes "\<And>nd. writeFn (f nd) = writeFn nd" "\<And>nd. skind (f nd) = skind nd"
  shows "owes s bs (upd t f M) = owes s bs M"
proof -
  have "writeFn (streams (upd t f M) s) = writeFn (streams M s)" "skind (streams (upd t f M) s) = skind (streams M s)"
    using assms by (simp_all add: streams_upd)
  then show ?thesis by (simp add: owes_def)
qed

lemma owes_stack: "owes s bs M \<Longrightarrow> list_all (\<lambda>f. \<not> pushes s f) fs \<Longrightarrow> owes s bs (M\<lparr>stack := fs\<rparr>)"
  by (simp add: owes_def)

lemma owes_unwind: "owes s bs M \<Longrightarrow> list_all (\<lambda>f. \<not> pushes s f) fs \<Longrightarrow> owes s bs (unwind e fs M)"
  by (induction e fs M rule: unwind.induct) (auto intro: owes_stack)

lemma owes_throw: "owes s bs M \<Longrightarrow> owes s bs (throw e M)"
  unfolding throw_def by (rule owes_unwind) (simp_all add: owes_def)

lemma owes_listen [simp]: "owes s bs (listen_all ev l ss M) = owes s bs M"
  unfolding listen_all_def by (induction ss arbitrary: M) (simp_all add: owes_upd)

lemma owes_accept [simp]: "owes s bs (accept t b M) = owes s bs M"
  by (simp add: accept_def Let_def owes_upd)

lemma pushes_lists [simp]:
  "list_all (\<lambda>f. \<not> pushes s f) (call_read nd t n)"
  "list_all (\<lambda>f. \<not> pushes s f) (finish_method k t err)"
  "list_all (\<lambda>f. \<not> pushes s f) (map (\<lambda>(a, b). DoOp (PipeTo a b True)) ps)"
  "t \<noteq> s \<Longrightarrow> list_all (\<lambda>f. \<not> pushes s f) (call_write nd t i b)"
  by (auto simp: call_read_def finish_method_def writable_finish_def call_write_def list_all_iff
      split: read_fn.split skind.split option.split write_fn.split)

lemmas owes_rules = owes_upd owes_throw

lemma owes_op: "owes s bs M \<Longrightarrow> \<not> pushes s (DoOp opn) \<Longrightarrow> owes s bs (do_op opn M)"
  by (cases opn)
     (auto simp: needs_read_def needs_write_def op_push_def op_read_def op_read_async_def op_pipe_def
      op_pause_def op_resume_def op_destroy_def op_write_def op_write_done_def op_end_def op_pipeline_def
      op_finished_def op_transform_done_def Let_def stream_eq owes_rules split: option.split sum.split)

lemma owes_listener: "owes s bs M \<Longrightarrow> owes s bs (deliver_to t ev l M)"
  by (cases "(t, ev, l, M)" rule: deliver_to.cases) (auto simp: finished_settle_def owes_upd)

lemma owes_invoke: "owes s bs M \<Longrightarrow> owes s bs (invoke cb err M)"
  by (cases cb) auto

lemma holds_no_push:
  "owes s bs M \<Longrightarrow> never_pushes s (Do opn) \<Longrightarrow> holds_callback M opn \<Longrightarrow> \<not> pushes s (DoOp opn)"
  by (cases opn) (auto simp: owes_def stream_eq)

lemma never_Try: "never_pushes s (Try opn) = never_pushes s (Do opn)"
  by (cases opn) auto

lemma owes_cmd:
  assumes "owes s bs M" "never_pushes s cmd"
  shows "owes s bs (run_cmd c i cmd M)"
proof (cases cmd)
  case (Do opn)
  then show ?thesis using assms holds_no_push [OF assms(1), of opn] by (simp add: run_cmd_def)
next
  case (Try opn)
  then show ?thesis using assms holds_no_push [OF assms(1), of opn] by (simp add: run_cmd_def never_Try)
qed (use assms owes_throw in \<open>auto simp: run_cmd_def\<close>)

lemma owes_frame:
  assumes "owes s bs M" "\<not> pushes s f" "\<And>tr c i. never_pushes s (P tr c i)"
  shows "owes s bs (run_frame P f M)"
  using assms
  by (cases "(P, f, M)" rule: run_frame.cases)
     (auto simp: flush_loop_def read_rest_def async_loop_def read_check_def read_done_def
      end_rest_def destroy_rest_def pipeline_settle_def pipeline_cb_def emit_event_def Let_def stream_eq owes_rules
      intro!: owes_op owes_listener owes_invoke owes_cmd split: option.split list.split)


definition pass_inv :: "nat \<Rightarrow> machine \<Rightarrow> bool" where
  "pass_inv s M \<longleftrightarrow> owes s [] M
     \<or> (\<exists>k b fs. stack M = DoOp (TransformDone s k None (Some (BytesChunk b))) # fs
          \<and> given s k M \<and> owes s [b] (M\<lparr>stack := fs\<rparr>))
     \<or> (\<exists>b fs. stack M = DoOp (Push s (Some (BytesChunk b)) NoEnc) # fs \<and> owes s [b] (M\<lparr>stack := fs\<rparr>))"

lemma owes_sunk: "owes s [] M \<Longrightarrow> owes s [b] (log_obs (Sunk s k b) M)"
  by (simp add: owes_def)

lemma owes_reaction:
  assumes "owes s bs M" "\<And>k b. r = RWrite s k b \<Longrightarrow> v \<noteq> Fulfilled"
  shows "owes s bs (run_reaction r v M)"
proof (cases "\<exists>t k b. r = RWrite t k b")
  case True
  then obtain t k b where "r = RWrite t k b" by blast
  then show ?thesis using assms by (cases "t = s") (auto simp: sink_def)
qed (use assms(1) in \<open>cases r; auto simp: finish_writable_def owes_upd split: option.split\<close>)

lemma pass_inv_job:
  assumes "owes s [] M" "stack M = []"
  shows "pass_inv s (run_job j M)"
proof (cases "\<exists>k b. j = React (RWrite s k b) Fulfilled")
  case True
  then obtain k b where j: "j = React (RWrite s k b) Fulfilled" by blast
  have "writeFn (streams M s) = WriteTransform False" using assms(1) by (simp add: owes_def)
  then have "stack (run_job j M) = DoOp (TransformDone s k None (Some (BytesChunk b))) # [ExecEnd s k, AdoptEnd s k]"
    "given s k (run_job j M)" "owes s [b] ((run_job j M)\<lparr>stack := [ExecEnd s k, AdoptEnd s k]\<rparr>)"
    using assms owes_sunk [OF assms(1), of b k]
    by (simp_all add: j sink_def call_write_def stream_eq given_def owes_def)
  then show ?thesis unfolding pass_inv_def by blast
next
  case False
  then have "owes s [] (run_job j M)"
    using assms(1) by (cases j) (auto intro!: owes_reaction)
  then show ?thesis by (simp add: pass_inv_def)
qed

lemma pass_inv_step:
  assumes I: "pass_inv s M" and P: "\<And>tr c i. never_pushes s (P tr c i)"
  shows "pass_inv s (machine_step P M a)"
proof (cases a)
  case (Enter n)
  then show ?thesis using I by (auto simp: pass_inv_def)
next
  case Tick
  consider (calm) "owes s [] M"
    | (transform) k b fs where "stack M = DoOp (TransformDone s k None (Some (BytesChunk b))) # fs"
        "given s k M" "owes s [b] (M\<lparr>stack := fs\<rparr>)"
    | (push) b fs where "stack M = DoOp (Push s (Some (BytesChunk b)) NoEnc) # fs" "owes s [b] (M\<lparr>stack := fs\<rparr>)"
    using I unfolding pass_inv_def by blast
  then show ?thesis
  proof cases
    case calm
    show ?thesis
    proof (cases "stack M")
      case Nil
      then show ?thesis using calm pass_inv_job [of s] Tick I by (auto simp: machine_tick_def split: list.split)
    next
      case (Cons f fs)
      then have "\<not> pushes s f" "owes s [] (M\<lparr>stack := fs\<rparr>)"
        using calm by (auto simp: owes_def)
      then have "owes s [] (run_frame P f (M\<lparr>stack := fs\<rparr>))" using P by (intro owes_frame)
      then show ?thesis using Tick Cons by (simp add: machine_tick_def pass_inv_def)
    qed
  next
    case (transform k b fs)
    let ?N = "push_frames [DoOp (WriteDone s k None)] (M\<lparr>stack := fs\<rparr>)"
    have "machine_step P M a = push_frames [DoOp (Push s (Some (BytesChunk b)) NoEnc)] ?N"
      using transform(1,2) Tick by (simp add: machine_tick_def op_transform_done_def given_def push_frames_def)
    moreover have "owes s [b] ?N" using transform(3) by simp
    ultimately show ?thesis by (auto simp: pass_inv_def push_frames_def)
  next
    case (push b fs)
    then have "owes s [] (log_obs (Pushed s b) (upd s (enqueue b) (M\<lparr>stack := fs\<rparr>)))"
      by (simp add: owes_def streams_upd)
    moreover have "has_read (skind (streams M s))" using push(2) by (simp add: owes_def)
    ultimately show ?thesis using push(1) Tick
      by (simp add: machine_tick_def needs_read_def op_push_def to_buffer_def stream_eq pass_inv_def)
  qed
qed

lemma pass_inv_run:
  assumes "\<And>tr c i. never_pushes s (P tr c i)"
  shows "pass_inv s M \<Longrightarrow> pass_inv s (foldl (machine_step P) M turns)"
  by (induction turns arbitrary: M) (auto intro: pass_inv_step assms)

lemma pass_inv_new:
  assumes "o_kind (cfg s) = KTransform" "\<not> o_transform (cfg s)"
  shows "pass_inv s (new_machine cfg)"
  using assms by (simp add: pass_inv_def owes_def new_machine_def new_stream_def write_fn_of_def has_read_def)

lemma pass_inv_prefix: "pass_inv s M \<Longrightarrow> prefix (pushed_of s (trace M)) (sunk_of s (trace M))"
  by (auto simp: pass_inv_def owes_def) (metis prefixI)+

text \<open>C13. 
  What comes out of a \<open>PassThrough\<close> is what was written into it, in the order of the writes and
  nothing else, as long as nobody pushes into its readable side.
\<close>

theorem pass_through:
  assumes "o_kind (cfg s) = KTransform" "\<not> o_transform (cfg s)" "\<And>tr c i. never_pushes s (P tr c i)"
  shows "let M = foldl (machine_step P) (new_machine cfg) turns
         in prefix (took_of s (trace M)) (accepts (streams M s))"
proof -
  let ?M = "foldl (machine_step P) (new_machine cfg) turns"
  have I: "writes_inv ?M" "read_inv ?M"
    using writes.run_inv [OF writes_inv_new] reading.run_inv [OF read_inv_new] by blast+
  then have "serialized s (trace ?M)" "\<And>k b. Sunk s k b \<in> set (trace ?M) \<Longrightarrow> write_ok ?M s k b"
    by (simp_all add: writes_inv_def placed_ok_def serial_ok_def)
  then have "prefix (sunk_of s (trace ?M)) (accepts (streams ?M s))"
    unfolding write_ok_def by (metis sunk_take take_is_prefix)
  moreover have "prefix (pushed_of s (trace ?M)) (sunk_of s (trace ?M))"
    by (rule pass_inv_prefix [OF pass_inv_run [OF assms(3) pass_inv_new [of cfg, OF assms(1,2)]]])
  moreover have "prefix (took_of s (trace ?M)) (pushed_of s (trace ?M))" using I(2) by (simp add: read_inv_def)
  ultimately show ?thesis unfolding Let_def using prefix_order.trans by blast
qed


text \<open>A program that writes one chunk into a flowing \<open>PassThrough\<close>.\<close>

definition one_pass :: "nat \<Rightarrow> soptions" where
  "one_pass i = \<lparr>o_kind = KTransform, o_hwm = None, o_read = False, o_write = False, o_transform = False\<rparr>"

fun write_once :: stream_program where
  "write_once tr (Main n) i =
     (if i = 0 then Do (Resume 0) else if i = 1 then Do (Write 0 (BytesChunk [7]) NoEnc None) else Return)"
| "write_once tr c i = Return"

lemmas machine_evals = machine_tick_def run_cmd_def needs_read_def needs_write_def op_push_def op_write_def op_resume_def
  accept_def then_react_def upd_def push_frames_def log_obs_def stream_eq settle_promise_def new_machine_def new_stream_def
  read_fn_of_def write_fn_of_def callback_of_def call_read_def call_write_def to_buffer_def flush_loop_def sink_def
  op_transform_done_def op_write_done_def given_def enqueue_def shift_def emit_event_def has_read_def has_write_def hwm_of_def
  default_hwm_def Let_def op_end_def end_rest_def finish_writable_def finish_method_def writable_finish_def op_read_def read_rest_def

theorem pass_through_witness:
  "let M = foldl (machine_step write_once) (new_machine one_pass) (Enter 0 # replicate 17 Tick)
   in prefix (took_of 0 (trace M)) (accepts (streams M 0)) \<and> took_of 0 (trace M) = [[7]]"
proof -
  have "never_pushes 0 (write_once tr c i)" for tr c i by (cases c) simp_all
  then have "let M = foldl (machine_step write_once) (new_machine one_pass) (Enter 0 # replicate 17 Tick)
      in prefix (took_of 0 (trace M)) (accepts (streams M 0))"
    by (intro pass_through) (simp_all add: one_pass_def)
  moreover have "took_of 0 (trace (foldl (machine_step write_once) (new_machine one_pass) (Enter 0 # replicate 17 Tick))) = [[7]]"
    by (simp add: machine_evals one_pass_def numeral_eq_Suc)
  ultimately show ?thesis by (simp only: Let_def)
qed

section \<open>What the code does otherwise\<close>

text \<open>\<open>push(null)\<close> emits \<open>end\<close> and \<open>close\<close> at once, with data still in the buffer of a paused stream.\<close>

fun end_early :: stream_program where
  "end_early tr (Main n) i =
     (if i = 0 then Do (Push 0 (Some (BytesChunk [7])) NoEnc) else if i = 1 then Do (Push 0 None NoEnc) else Return)"
| "end_early tr c i = Return"

lemma end_before_data:
  "let M = foldl (machine_step end_early) (new_machine one_pass) (Enter 0 # replicate 9 Tick)
   in Emitted 0 EndEv \<in> set (trace M) \<and> rbuf (streams M 0) = [[7]]"
  by (simp add: machine_evals one_pass_def numeral_eq_Suc)

text \<open>A \<open>Duplex\<close> never emits \<open>finish\<close>: it has no \<open>_finish\<close>, so the job of \<open>end\<close> throws.\<close>

definition one_duplex :: "nat \<Rightarrow> soptions" where
  "one_duplex i = \<lparr>o_kind = KDuplex, o_hwm = None, o_read = False, o_write = False, o_transform = False\<rparr>"

fun end_it :: stream_program where
  "end_it tr (Main n) i = (if i = 0 then Do (End 0 None NoEnc None) else Return)"
| "end_it tr c i = Return"

lemma duplex_never_finishes:
  "let M = foldl (machine_step end_it) (new_machine one_duplex) (Enter 0 # replicate 8 Tick)
   in stack M = [] \<and> jobs M = [] \<and> wfinished (streams M 0) \<and> trace M = [Uncaught NotAFunction, Returned VThis]"
  by (simp add: machine_evals one_duplex_def numeral_eq_Suc throw_def)

text \<open>A failed write does not stop the stream: the next chunk is written and \<open>finish\<close> is emitted.\<close>

definition one_sink :: "nat \<Rightarrow> soptions" where
  "one_sink i = \<lparr>o_kind = KWritable, o_hwm = None, o_read = False, o_write = True, o_transform = False\<rparr>"

fun fail_first :: stream_program where
  "fail_first tr (Main n) i =
     (if i = 0 then Do (Write 0 (BytesChunk [7]) NoEnc None)
      else if i = 1 then Do (End 0 (Some (BytesChunk [8])) NoEnc None) else Return)"
| "fail_first tr (CallWrite s k b) i =
     (if i = 0 then Do (WriteDone s k (if k = 0 then Some (UserErr 1) else None)) else Return)"
| "fail_first tr c i = Return"

lemma finish_after_error:
  "let M = foldl (machine_step fail_first) (new_machine one_sink) (Enter 0 # replicate 50 Tick)
   in sunk_of 0 (trace M) = [[7], [8]] \<and> finish_count 0 (trace M) = 1 \<and> writeError (streams M 0) = Some (UserErr 1)"
  by (simp add: machine_evals one_sink_def numeral_eq_Suc finish_count_def)

text \<open>A string written with the callback in the place of the encoding throws.\<close>

lemma write_string_callback:
  "to_buffer (StrChunk t) (EncFn f) = Inl NotAFunction"
  by (simp add: to_buffer_def)

text \<open>
  A flowing stream asks its source once: \<open>resume\<close> calls \<open>read\<close> when nothing is buffered, and
  neither \<open>push\<close> nor the loop that drains the buffer calls it again.
\<close>

definition one_source :: "nat \<Rightarrow> soptions" where
  "one_source i = \<lparr>o_kind = KReadable, o_hwm = None, o_read = True, o_write = False, o_transform = False\<rparr>"

fun chunk_per_read :: stream_program where
  "chunk_per_read tr (Main n) i = (if i = 0 then Do (Resume 0) else Return)"
| "chunk_per_read tr (CallRead s n) i = (if i = 0 then Do (Push s (Some (BytesChunk [7])) NoEnc) else Return)"
| "chunk_per_read tr c i = Return"

lemma flowing_reads_once:
  "let M = foldl (machine_step chunk_per_read) (new_machine one_source) (Enter 0 # replicate 13 Tick)
   in stack M = [] \<and> jobs M = [] \<and> flowing (streams M 0) \<and> \<not> rended (streams M 0) \<and> took_of 0 (trace M) = [[7]]"
  by (simp add: machine_evals one_source_def numeral_eq_Suc)


text \<open>
  A listener for \<open>data\<close> alone does not start the flow: the chunks stay in the buffer. The library's own
  \<open>exec\<close> of child processes collects its output this way.
\<close>

fun only_listen :: stream_program where
  "only_listen tr (Main n) i =
     (if i = 0 then Do (On 0 NData 1) else if i = 1 then Do (Push 0 (Some (BytesChunk [7])) NoEnc)
      else if i = 2 then Do (Push 0 None NoEnc) else Return)"
| "only_listen tr c i = Return"

lemma data_listener_alone:
  "let M = foldl (machine_step only_listen) (new_machine one_source) (Enter 0 # replicate 16 Tick)
   in stack M = [] \<and> jobs M = [] \<and> rended (streams M 0) \<and> took_of 0 (trace M) = [] \<and> rbuf (streams M 0) = [[7]]"
  by (simp add: machine_evals one_source_def numeral_eq_Suc add_listener_def)

end
