(* ===== verification/Cluster.thy ===== *)
theory Cluster
  imports Prelude
begin

text \<open>
  The cluster client, \<open>js/builtins/skyjs/cluster.js\<close>: calls to services of other nodes go as command
  lines to the service \<open>.clusterd\<close>; the answers come back through the handlers it registers with
  \<open>runtime-hooks.js\<close>. The serialization \<open>seri.pack\<close> and \<open>seri.unpack\<close>, the session numbers of
  \<open>genId\<close> and the result of \<open>send\<close> belong to the C layer and are parameters or arguments; \<open>unpack\<close>
  may throw. A promise is named by the number of the call that made it.
\<close>

section \<open>The client\<close>

datatype address = Handle nat | Name jsstr

datatype cluster_error = CallFailed | CallTimeout jsstr address | QueryTimeout jsstr jsstr | SendFailed | NoClusterd

datatype waiter = CallWaiter nat | QueryWaiter nat

datatype 'v settlement = Resolved "'v list" | ResolvedFirst "'v option" | RejectedWith cluster_error

record 'v cluster =
  clusterd :: nat
  pending :: "nat \<Rightarrow> waiter option"
  calls :: nat
  settlements :: "(nat \<times> 'v settlement) list"
  armed :: "(nat \<times> nat \<times> cluster_error) list"
  sent :: "(bytes \<times> nat) list"

text \<open>\<open>armed\<close> are the timers that have not fired: session, call and the error of the timeout.\<close>

definition new_cluster :: "'v cluster" where
  "new_cluster = \<lparr>clusterd = 0, pending = (\<lambda>_. None), calls = 0, settlements = [], armed = [], sent = []\<rparr>"

definition waiter_call :: "waiter \<Rightarrow> nat" where
  "waiter_call w = (case w of CallWaiter i \<Rightarrow> i | QueryWaiter i \<Rightarrow> i)"

definition settle_call :: "nat \<Rightarrow> 'v settlement \<Rightarrow> 'v cluster \<Rightarrow> 'v cluster" where
  "settle_call i v C = C\<lparr>settlements := settlements C @ [(i, v)]\<rparr>"

text \<open>The functions in the map: a throw of \<open>unpack\<close> leaves the promise as it is.\<close>

definition waiter_resolve :: "(bytes \<Rightarrow> 'v list option) \<Rightarrow> waiter \<Rightarrow> bytes \<Rightarrow> 'v cluster \<Rightarrow> 'v cluster" where
  "waiter_resolve unpack w msg C = (case unpack msg of
     None \<Rightarrow> C
   | Some vs \<Rightarrow> (case w of
        CallWaiter i \<Rightarrow> settle_call i (Resolved vs) C
      | QueryWaiter i \<Rightarrow> settle_call i (ResolvedFirst (if vs = [] then None else Some (hd vs))) C))"

definition on_response :: "(bytes \<Rightarrow> 'v list option) \<Rightarrow> nat \<Rightarrow> bytes \<Rightarrow> 'v cluster \<Rightarrow> 'v cluster" where
  "on_response unpack session msg C = (case pending C session of
     None \<Rightarrow> C
   | Some w \<Rightarrow> waiter_resolve unpack w msg (C\<lparr>pending := (pending C)(session := None)\<rparr>))"

definition on_error_response :: "nat \<Rightarrow> 'v cluster \<Rightarrow> 'v cluster" where
  "on_error_response session C = (case pending C session of
     None \<Rightarrow> C
   | Some w \<Rightarrow> settle_call (waiter_call w) (RejectedWith CallFailed) (C\<lparr>pending := (pending C)(session := None)\<rparr>))"

definition cluster_init :: "nat \<Rightarrow> 'v cluster \<Rightarrow> 'v cluster \<times> cluster_error option" where
  "cluster_init handle C = (C\<lparr>clusterd := handle\<rparr>, if handle = 0 then Some NoClusterd else None)"

text \<open>The command line, cut to one byte for each character, and the payload.\<close>

definition command_head :: "jsstr \<Rightarrow> bytes" where
  "command_head line = map (\<lambda>c. to_byte (unat c)) line @ [10]"

definition raw_cmd :: "nat \<Rightarrow> jsstr \<Rightarrow> bytes option \<Rightarrow> bool \<Rightarrow> 'v cluster \<Rightarrow> 'v cluster \<times> cluster_error option" where
  "raw_cmd session line payload ok C =
     (C\<lparr>sent := sent C @ [(command_head line @ (case payload of None \<Rightarrow> [] | Some p \<Rightarrow> p), session)]\<rparr>,
      if ok then None else Some SendFailed)"

definition raw_cmd_fire :: "nat \<Rightarrow> jsstr \<Rightarrow> 'v cluster \<Rightarrow> 'v cluster" where
  "raw_cmd_fire session line C = C\<lparr>sent := sent C @ [(command_head line, session)]\<rparr>"

text \<open>\<open>addr.charCodeAt(0) === 64\<close> is false for the empty name.\<close>

definition addr_str :: "address \<Rightarrow> jsstr" where
  "addr_str a = (case a of
     Handle n \<Rightarrow> to_radix 16 n
   | Name s \<Rightarrow> if s \<noteq> [] \<and> hd s = 64 then s else 64 # s)"

text \<open>\<open>lastIndexOf\<close> gives \<open>-1\<close> when there is no colon: all but the last character, and everything.\<close>

definition node_line :: "jsstr \<Rightarrow> jsstr \<Rightarrow> jsstr" where
  "node_line k addr = (let parts = (case last_index_of_char addr 58 of
       None \<Rightarrow> (butlast addr, addr)
     | Some i \<Rightarrow> (take i addr, drop (i + 1) addr))
   in js ''node '' @ k @ [32] @ fst parts @ [32] @ snd parts)"

fun set_nodes :: "(jsstr \<times> jsstr) list \<Rightarrow> nat list \<Rightarrow> 'v cluster \<Rightarrow> 'v cluster" where
  "set_nodes ((k, a) # r) (s # ss) C = set_nodes r ss (raw_cmd_fire s (node_line k a) C)"
| "set_nodes _ _ C = C"

text \<open>
  \<open>call\<close> and \<open>query\<close>: the promise is entered first, and taken out again when the send fails; only
  then the timer is set.
\<close>

definition cluster_request :: "(nat \<Rightarrow> waiter) \<Rightarrow> cluster_error \<Rightarrow> nat \<Rightarrow> jsstr \<Rightarrow> bytes \<Rightarrow> bool \<Rightarrow> 'v cluster \<Rightarrow> 'v cluster" where
  "cluster_request mk late session line payload ok C =
     (let i = calls C;
          C1 = C\<lparr>calls := Suc i, pending := (pending C)(session := Some (mk i))\<rparr>
      in (case raw_cmd session line (Some payload) ok C1 of
            (C2, Some e) \<Rightarrow> settle_call i (RejectedWith e) (C2\<lparr>pending := (pending C2)(session := None)\<rparr>)
          | (C2, None) \<Rightarrow> C2\<lparr>armed := armed C2 @ [(session, i, late)]\<rparr>))"

definition call_node :: "('v list \<Rightarrow> bytes) \<Rightarrow> jsstr \<Rightarrow> address \<Rightarrow> 'v list \<Rightarrow> nat \<Rightarrow> bool \<Rightarrow> 'v cluster \<Rightarrow> 'v cluster" where
  "call_node pack node addr vals session ok C =
     cluster_request CallWaiter (CallTimeout node addr) session
       (js ''req '' @ node @ [32] @ addr_str addr) (pack vals) ok C"

definition query_node :: "(jsstr \<Rightarrow> bytes) \<Rightarrow> jsstr \<Rightarrow> jsstr \<Rightarrow> nat \<Rightarrow> bool \<Rightarrow> 'v cluster \<Rightarrow> 'v cluster" where
  "query_node pack node name session ok C =
     cluster_request QueryWaiter (QueryTimeout node name) session (js ''req '' @ node @ js '' 0'') (pack name) ok C"

definition send_node :: "('v list \<Rightarrow> bytes) \<Rightarrow> jsstr \<Rightarrow> address \<Rightarrow> 'v list \<Rightarrow> nat \<Rightarrow> bool \<Rightarrow> 'v cluster \<Rightarrow> 'v cluster" where
  "send_node pack node addr vals session ok C =
     fst (raw_cmd session (js ''push '' @ node @ [32] @ addr_str addr) (Some (pack vals)) ok C)"

text \<open>The timer of a call looks the session up again; whoever has it then is rejected.\<close>

definition on_timeout :: "nat \<Rightarrow> 'v cluster \<Rightarrow> 'v cluster" where
  "on_timeout n C = (if n < length (armed C)
     then (case armed C ! n of (session, i, late) \<Rightarrow>
       let C1 = C\<lparr>armed := take n (armed C) @ drop (Suc n) (armed C)\<rparr>
       in if pending C1 session \<noteq> None
          then settle_call i (RejectedWith late) (C1\<lparr>pending := (pending C1)(session := None)\<rparr>) else C1)
     else C)"

section \<open>Every call is accounted for\<close>

datatype 'v cluster_event =
    Init nat | SetNodes "(jsstr \<times> jsstr) list" "nat list" | Fire nat jsstr
  | CallNode jsstr address "'v list" nat bool | QueryNode jsstr jsstr nat bool | SendNode jsstr address "'v list" nat bool
  | Response nat bytes | ErrorResponse nat | Timeout nat

fun cluster_step :: "('v list \<Rightarrow> bytes) \<Rightarrow> (jsstr \<Rightarrow> bytes) \<Rightarrow> (bytes \<Rightarrow> 'v list option) \<Rightarrow>
    'v cluster \<Rightarrow> 'v cluster_event \<Rightarrow> 'v cluster" where
  "cluster_step pack packn unpack C (Init h) = fst (cluster_init h C)"
| "cluster_step pack packn unpack C (SetNodes ns ss) = set_nodes ns ss C"
| "cluster_step pack packn unpack C (Fire s line) = raw_cmd_fire s line C"
| "cluster_step pack packn unpack C (CallNode node a vs s ok) = call_node pack node a vs s ok C"
| "cluster_step pack packn unpack C (QueryNode node name s ok) = query_node packn node name s ok C"
| "cluster_step pack packn unpack C (SendNode node a vs s ok) = send_node pack node a vs s ok C"
| "cluster_step pack packn unpack C (Response s msg) = on_response unpack s msg C"
| "cluster_step pack packn unpack C (ErrorResponse s) = on_error_response s C"
| "cluster_step pack packn unpack C (Timeout n) = on_timeout n C"

text \<open>
  The contract of \<open>genId\<close>: a new call gets a session that neither a waiting call nor a timer that is
  still armed has. (The numbers wrap around after two thousand million.)
\<close>

fun fresh_session :: "'v cluster \<Rightarrow> 'v cluster_event \<Rightarrow> bool" where
  "fresh_session C (CallNode node a vs s ok) = (pending C s = None \<and> s \<notin> fst ` set (armed C))"
| "fresh_session C (QueryNode node name s ok) = (pending C s = None \<and> s \<notin> fst ` set (armed C))"
| "fresh_session C _ = True"

text \<open>The calls whose answer could not be unpacked, seen from outside.\<close>

fun unreadable :: "(bytes \<Rightarrow> 'v list option) \<Rightarrow> 'v cluster \<Rightarrow> 'v cluster_event \<Rightarrow> nat list" where
  "unreadable unpack C (Response s msg) = (case pending C s of
     None \<Rightarrow> [] | Some w \<Rightarrow> if unpack msg = None then [waiter_call w] else [])"
| "unreadable unpack C _ = []"

definition watched_cluster where
  "watched_cluster pack packn unpack W a =
     (cluster_step pack packn unpack (fst W) a, snd W @ unreadable unpack (fst W) a)"

text \<open>Call \<open>i\<close> is waiting, with its timer armed, or settled, or its answer was unreadable: just one of them.\<close>

definition waits :: "'v cluster \<Rightarrow> nat \<Rightarrow> nat \<Rightarrow> bool" where
  "waits C s i \<longleftrightarrow> (\<exists>w. pending C s = Some w \<and> waiter_call w = i)"

definition accounts :: "nat list \<Rightarrow> 'v cluster \<Rightarrow> bool" where
  "accounts E C \<longleftrightarrow> distinct E
     \<and> (\<forall>i. i < calls C \<longleftrightarrow> i \<in> set E \<or> (\<exists>s. waits C s i))
     \<and> (\<forall>s i. waits C s i \<longrightarrow> i \<notin> set E)
     \<and> (\<forall>s i. waits C s i \<longrightarrow> (\<exists>e. (s, i, e) \<in> set (armed C)))
     \<and> (\<forall>s t i. waits C s i \<longrightarrow> waits C t i \<longrightarrow> s = t)
     \<and> (\<forall>s i e j. (s, i, e) \<in> set (armed C) \<longrightarrow> waits C s j \<longrightarrow> i = j)
     \<and> distinct (map fst (armed C))"

lemma accountsD:
  assumes "accounts E C"
  shows "distinct E" "i < calls C \<longleftrightarrow> i \<in> set E \<or> (\<exists>s. waits C s i)" "waits C s i \<Longrightarrow> i \<notin> set E"
    "waits C s i \<Longrightarrow> \<exists>e. (s, i, e) \<in> set (armed C)" "waits C s i \<Longrightarrow> waits C t i \<Longrightarrow> s = t"
    "(s, i, e) \<in> set (armed C) \<Longrightarrow> waits C s j \<Longrightarrow> i = j" "distinct (map fst (armed C))"
proof -
  show "distinct E" using assms by (simp add: accounts_def)
  show "i < calls C \<longleftrightarrow> i \<in> set E \<or> (\<exists>s. waits C s i)" using assms by (simp add: accounts_def)
  show "waits C s i \<Longrightarrow> i \<notin> set E" using assms by (simp add: accounts_def)
  show "waits C s i \<Longrightarrow> \<exists>e. (s, i, e) \<in> set (armed C)" using assms by (simp add: accounts_def)
  show "waits C s i \<Longrightarrow> waits C t i \<Longrightarrow> s = t" using assms unfolding accounts_def by blast
  show "(s, i, e) \<in> set (armed C) \<Longrightarrow> waits C s j \<Longrightarrow> i = j" using assms unfolding accounts_def by blast
  show "distinct (map fst (armed C))" using assms by (simp add: accounts_def)
qed

lemma accountsI:
  assumes "distinct E" "\<And>i. i < calls C \<longleftrightarrow> i \<in> set E \<or> (\<exists>s. waits C s i)" "\<And>s i. waits C s i \<Longrightarrow> i \<notin> set E"
    "\<And>s i. waits C s i \<Longrightarrow> \<exists>e. (s, i, e) \<in> set (armed C)" "\<And>s t i. waits C s i \<Longrightarrow> waits C t i \<Longrightarrow> s = t"
    "\<And>s i e j. (s, i, e) \<in> set (armed C) \<Longrightarrow> waits C s j \<Longrightarrow> i = j" "distinct (map fst (armed C))"
  shows "accounts E C"
  unfolding accounts_def using assms by (intro conjI allI impI) simp_all

definition cluster_inv :: "'v cluster \<times> nat list \<Rightarrow> bool" where
  "cluster_inv W \<longleftrightarrow> accounts (map fst (settlements (fst W)) @ snd W) (fst W)"

lemma waits_simps [simp]:
  "waits (C\<lparr>armed := a\<rparr>) s i = waits C s i" "waits (C\<lparr>settlements := v\<rparr>) s i = waits C s i"
  "waits (C\<lparr>calls := n\<rparr>) s i = waits C s i" "waits (C\<lparr>sent := m\<rparr>) s i = waits C s i"
  "waits (C\<lparr>clusterd := h\<rparr>) s i = waits C s i"
  "waits (C\<lparr>pending := (pending C)(t := None)\<rparr>) s i = (s \<noteq> t \<and> waits C s i)"
  "waits (C\<lparr>pending := (pending C)(t := Some w)\<rparr>) s i = (if s = t then waiter_call w = i else waits C s i)"
  by (auto simp: waits_def)

lemma accounts_simps [simp]:
  "accounts E (C\<lparr>settlements := v\<rparr>) = accounts E C" "accounts E (C\<lparr>sent := m\<rparr>) = accounts E C"
  "accounts E (C\<lparr>clusterd := h\<rparr>) = accounts E C"
  by (simp_all add: accounts_def)

lemma accounts_sent [simp]:
  "accounts E (C\<lparr>sent := m, armed := a\<rparr>) = accounts E (C\<lparr>armed := a\<rparr>)"
  "accounts E (C\<lparr>sent := m, pending := p\<rparr>) = accounts E (C\<lparr>pending := p\<rparr>)"
  by (simp_all add: accounts_def waits_def)

lemma accounts_cong: "accounts E C \<Longrightarrow> distinct F = distinct E \<Longrightarrow> set F = set E \<Longrightarrow> accounts F C"
  by (simp add: accounts_def)

text \<open>A waiting call ends.\<close>

lemma accounts_end:
  assumes "accounts E C" "pending C s = Some w"
  shows "accounts (waiter_call w # E) (C\<lparr>pending := (pending C)(s := None)\<rparr>)"
proof -
  let ?i = "waiter_call w"
  have w: "waits C s j \<longleftrightarrow> j = ?i" for j using assms(2) by (auto simp: waits_def)
  note A = accountsD [OF assms(1)]
  have "j < calls C \<longleftrightarrow> j \<in> set (?i # E) \<or> (\<exists>t. t \<noteq> s \<and> waits C t j)" for j
    using A(2) [of j] w [of j] by (metis list.set_intros(1,2) set_ConsD)
  moreover have "j \<notin> set (?i # E)" if "t \<noteq> s" "waits C t j" for t j
    using A(3) [OF that(2)] A(5) [OF that(2), of s] that(1) w [of j] by auto
  moreover have "?i \<notin> set E" using A(3) w by blast
  ultimately show ?thesis
  proof (intro accountsI)
    show "waits (C\<lparr>pending := (pending C)(s := None)\<rparr>) t j \<Longrightarrow> j \<notin> set (?i # E)" for t j
      using \<open>\<And>t j. t \<noteq> s \<Longrightarrow> waits C t j \<Longrightarrow> j \<notin> set (?i # E)\<close> [of t j] by simp
    show "waits (C\<lparr>pending := (pending C)(s := None)\<rparr>) t j \<Longrightarrow> \<exists>e. (t, j, e) \<in> set (armed (C\<lparr>pending := (pending C)(s := None)\<rparr>))" for t j
      using A(4) [of t j] by simp
    show "waits (C\<lparr>pending := (pending C)(s := None)\<rparr>) t j \<Longrightarrow> waits (C\<lparr>pending := (pending C)(s := None)\<rparr>) u j \<Longrightarrow> t = u" for t u j
      using A(5) [of t j u] by simp
    show "(t, j, e) \<in> set (armed (C\<lparr>pending := (pending C)(s := None)\<rparr>)) \<Longrightarrow>
        waits (C\<lparr>pending := (pending C)(s := None)\<rparr>) t k \<Longrightarrow> j = k" for t j e k
      using A(6) [of t j e k] by simp
  qed (use A(1,7) in simp_all)
qed

text \<open>A timer fires or is dropped when its call no longer waits.\<close>

lemma accounts_disarm:
  assumes "accounts E C" "n < length (armed C)" "\<And>i. \<not> waits C (fst (armed C ! n)) i"
  shows "accounts E (C\<lparr>armed := take n (armed C) @ drop (Suc n) (armed C)\<rparr>)"
proof -
  obtain xs y ys where s: "armed C = xs @ y # ys" "armed C ! n = y"
    "take n (armed C) = xs" "drop (Suc n) (armed C) = ys"
    using id_take_nth_drop [OF assms(2)] by blast
  note A = accountsD [OF assms(1)]
  have "accounts E (C\<lparr>armed := xs @ ys\<rparr>)"
  proof (rule accountsI)
    show "waits (C\<lparr>armed := xs @ ys\<rparr>) t i \<Longrightarrow> \<exists>e. (t, i, e) \<in> set (armed (C\<lparr>armed := xs @ ys\<rparr>))" for t i
      using A(4) [of t i] assms(3) [of i] s(1,2) by auto
    show "waits (C\<lparr>armed := xs @ ys\<rparr>) t i \<Longrightarrow> waits (C\<lparr>armed := xs @ ys\<rparr>) u i \<Longrightarrow> t = u" for t u i
      using A(5) [of t i u] by simp
    show "(t, i, e) \<in> set (armed (C\<lparr>armed := xs @ ys\<rparr>)) \<Longrightarrow> waits (C\<lparr>armed := xs @ ys\<rparr>) t j \<Longrightarrow> i = j" for t i e j
      using A(6) [of t i e j] s(1) by auto
    show "distinct (map fst (armed (C\<lparr>armed := xs @ ys\<rparr>)))" using A(7) by (simp add: s(1))
  qed (use A(1-3) in simp_all)
  then show ?thesis using s(3,4) by simp
qed

text \<open>A new call, under a session that is free.\<close>

lemma accounts_new:
  assumes "accounts E C" "pending C s = None" "s \<notin> fst ` set (armed C)" "waiter_call w = calls C"
  shows "accounts E (C\<lparr>calls := Suc (calls C), pending := (pending C)(s := Some w), armed := armed C @ [(s, calls C, e)]\<rparr>)"
    (is "accounts E ?C")
proof -
  note A = accountsD [OF assms(1)]
  have n: "\<not> waits C s i" for i using assms(2) by (simp add: waits_def)
  have W: "waits (C\<lparr>calls := Suc (calls C), pending := (pending C)(s := Some w)\<rparr>) t i \<longleftrightarrow> (if t = s then i = calls C else waits C t i)" for t i
    using assms(4) by (auto simp: waits_def)
  have l: "waits C t i \<Longrightarrow> i < calls C" "i \<in> set E \<Longrightarrow> i < calls C" for t i using A(2) [of i] by blast+
  show ?thesis
  proof (rule accountsI)
    show "i < calls ?C \<longleftrightarrow> i \<in> set E \<or> (\<exists>t. waits ?C t i)" for i
      using A(2) [of i] n [of i] by (auto simp: W less_Suc_eq)
    show "waits ?C t i \<Longrightarrow> i \<notin> set E" for t i using A(3) [of t i] l(2) [of i] by (auto simp: W split: if_splits)
    show "waits ?C t i \<Longrightarrow> \<exists>e. (t, i, e) \<in> set (armed ?C)" for t i using A(4) [of t i] by (auto simp: W split: if_splits)
    show "waits ?C t i \<Longrightarrow> waits ?C u i \<Longrightarrow> t = u" for t u i
      using A(5) [of t i u] l(1) [of t i] l(1) [of u i] by (auto simp: W split: if_splits)
    show "(t, i, e) \<in> set (armed ?C) \<Longrightarrow> waits ?C t j \<Longrightarrow> i = j" for t i e j
      using A(6) [of t i e j] assms(3) by (force simp: W split: if_splits)
    show "distinct (map fst (armed ?C))" using A(7) assms(3) by simp
  qed (rule A(1))
qed

text \<open>A call whose command cannot be sent is rejected at once.\<close>

lemma accounts_failed:
  assumes "accounts E C" "pending C s = None"
  shows "accounts (calls C # E) (C\<lparr>calls := Suc (calls C), pending := (pending C)(s := None)\<rparr>)"
proof -
  note A = accountsD [OF assms(1)]
  have p: "(pending C)(s := None) = pending C" using assms(2) by (simp add: fun_upd_idem)
  have l: "waits C t i \<Longrightarrow> i < calls C" "i \<in> set E \<Longrightarrow> i < calls C" for t i using A(2) [of i] by blast+
  have [simp]: "waits (C\<lparr>calls := Suc (calls C), pending := pending C\<rparr>) t i = waits C t i" for t i
    by (simp add: waits_def)
  show ?thesis unfolding p
  proof (rule accountsI)
    show "i < calls (C\<lparr>calls := Suc (calls C), pending := pending C\<rparr>) \<longleftrightarrow>
        i \<in> set (calls C # E) \<or> (\<exists>t. waits (C\<lparr>calls := Suc (calls C), pending := pending C\<rparr>) t i)" for i
      using A(2) [of i] by (auto simp: less_Suc_eq)
    show "waits (C\<lparr>calls := Suc (calls C), pending := pending C\<rparr>) t i \<Longrightarrow> i \<notin> set (calls C # E)" for t i
      using A(3) [of t i] l(1) [of t i] by auto
    show "distinct (calls C # E)" using A(1) l(2) [of "calls C"] by auto
    show "waits (C\<lparr>calls := Suc (calls C), pending := pending C\<rparr>) t i \<Longrightarrow>
        waits (C\<lparr>calls := Suc (calls C), pending := pending C\<rparr>) u i \<Longrightarrow> t = u" for t u i
      using A(5) [of t i u] by simp
    show "(t, i, e) \<in> set (armed (C\<lparr>calls := Suc (calls C), pending := pending C\<rparr>)) \<Longrightarrow>
        waits (C\<lparr>calls := Suc (calls C), pending := pending C\<rparr>) t j \<Longrightarrow> i = j" for t i e j
      using A(6) [of t i e j] by simp
  qed (use A(4,7) in simp_all)
qed


lemma cluster_inv_request:
  assumes I: "cluster_inv (C, L)" and f: "pending C s = None" "s \<notin> fst ` set (armed C)" and m: "\<And>i. waiter_call (mk i) = i"
  shows "cluster_inv (cluster_request mk late s line payload ok C, L)"
proof (cases ok)
  case True
  then have "cluster_request mk late s line payload ok C = (C\<lparr>calls := Suc (calls C), pending := (pending C)(s := Some (mk (calls C))),
      armed := armed C @ [(s, calls C, late)]\<rparr>)\<lparr>sent := sent C @ [(command_head line @ payload, s)]\<rparr>"
    by (simp add: cluster_request_def raw_cmd_def Let_def)
  then show ?thesis using accounts_new [OF _ f m, of "map fst (settlements C) @ L" late] I
    by (simp only: cluster_inv_def fst_conv snd_conv accounts_simps) simp
next
  case False
  have "accounts (calls C # map fst (settlements C) @ L) (C\<lparr>calls := Suc (calls C), pending := (pending C)(s := None)\<rparr>)"
    using accounts_failed [OF _ f(1)] I by (simp add: cluster_inv_def)
  then have "accounts ((map fst (settlements C) @ [calls C]) @ L) (C\<lparr>calls := Suc (calls C), pending := (pending C)(s := None)\<rparr>)"
    by (rule accounts_cong) auto
  then show ?thesis using False
    by (simp add: cluster_inv_def cluster_request_def raw_cmd_def Let_def settle_call_def)
qed

lemma cluster_inv_settle:
  assumes "cluster_inv (C, L)" "pending C s = Some w" "i = waiter_call w"
  shows "cluster_inv (settle_call i v (C\<lparr>pending := (pending C)(s := None)\<rparr>), L)"
proof -
  have "accounts (i # map fst (settlements C) @ L) (C\<lparr>pending := (pending C)(s := None)\<rparr>)"
    using accounts_end [OF _ assms(2)] assms(1,3) by (simp add: cluster_inv_def)
  then have "accounts ((map fst (settlements C) @ [i]) @ L) (C\<lparr>pending := (pending C)(s := None)\<rparr>)"
    by (rule accounts_cong) auto
  then show ?thesis by (simp add: cluster_inv_def settle_call_def)
qed

lemma cluster_inv_lost:
  assumes "cluster_inv (C, L)" "pending C s = Some w"
  shows "cluster_inv (C\<lparr>pending := (pending C)(s := None)\<rparr>, L @ [waiter_call w])"
proof -
  have "accounts (waiter_call w # map fst (settlements C) @ L) (C\<lparr>pending := (pending C)(s := None)\<rparr>)"
    using accounts_end [OF _ assms(2)] assms(1) by (simp add: cluster_inv_def)
  then show ?thesis unfolding cluster_inv_def fst_conv snd_conv by (rule accounts_cong) auto
qed

lemma cluster_inv_timeout:
  assumes I: "cluster_inv (C, L)"
  shows "cluster_inv (on_timeout n C, L)"
proof (cases "n < length (armed C)")
  case True
  obtain s i late where a: "armed C ! n = (s, i, late)" by (cases "armed C ! n")
  let ?r = "take n (armed C) @ drop (Suc n) (armed C)"
  show ?thesis
  proof (cases "pending C s")
    case None
    then have "accounts (map fst (settlements C) @ L) (C\<lparr>armed := ?r\<rparr>)"
      using I a by (intro accounts_disarm [OF _ True]) (simp_all add: cluster_inv_def waits_def)
    then show ?thesis using None True a by (simp add: on_timeout_def Let_def cluster_inv_def)
  next
    case (Some w)
    let ?C = "C\<lparr>pending := (pending C)(s := None)\<rparr>"
    have "waits C s (waiter_call w)" using Some by (simp add: waits_def)
    moreover have "(s, i, late) \<in> set (armed C)" using True a by (metis nth_mem)
    ultimately have i: "i = waiter_call w" using accountsD(6) I by (fastforce simp: cluster_inv_def)
    have "cluster_inv (settle_call i (RejectedWith late) ?C, L)"
      using cluster_inv_settle [OF I Some i] .
    then have "accounts (map fst (settlements (settle_call i (RejectedWith late) ?C)) @ L)
        ((settle_call i (RejectedWith late) ?C)\<lparr>armed := ?r\<rparr>)"
      using accounts_disarm [of _ "settle_call i (RejectedWith late) ?C" n] True a
      by (simp add: cluster_inv_def settle_call_def)
    moreover have "on_timeout n C = (settle_call i (RejectedWith late) ?C)\<lparr>armed := ?r\<rparr>"
      using True a Some by (simp add: on_timeout_def Let_def settle_call_def)
    ultimately show ?thesis by (simp add: cluster_inv_def)
  qed
qed (use I in \<open>simp add: on_timeout_def\<close>)

lemma sent_same: "\<exists>m. C = C\<lparr>sent := m\<rparr>"
  by (rule exI [of _ "sent C"]) simp

lemma set_nodes_keeps: "\<exists>m. set_nodes ns ss C = C\<lparr>sent := m\<rparr>"
proof (induction ns ss C rule: set_nodes.induct)
  case (1 k a r s ss C)
  then show ?case by (auto simp: raw_cmd_fire_def)
qed (simp_all add: sent_same)

lemma cluster_inv_step:
  assumes I: "cluster_inv W" and f: "fresh_session (fst W) a"
  shows "cluster_inv (watched_cluster pack packn unpack W a)"
proof (cases W)
  case (Pair C L)
  then have J: "cluster_inv (C, L)" using I by simp
  show ?thesis
  proof (cases a)
    case (SetNodes ns ss)
    then show ?thesis using J Pair set_nodes_keeps [of ns ss C]
      by (auto simp: watched_cluster_def cluster_inv_def)
  next
    case (CallNode node ad vs s ok)
    then show ?thesis using Pair f cluster_inv_request [OF J]
      by (simp add: watched_cluster_def call_node_def waiter_call_def)
  next
    case (QueryNode node name s ok)
    then show ?thesis using Pair f cluster_inv_request [OF J]
      by (simp add: watched_cluster_def query_node_def waiter_call_def)
  next
    case (Response s msg)
    show ?thesis
    proof (cases "pending C s")
      case (Some w)
      have "cluster_inv (settle_call (waiter_call w) v (C\<lparr>pending := (pending C)(s := None)\<rparr>), L)" for v
        by (rule cluster_inv_settle [OF J Some refl])
      then show ?thesis using Pair Response Some cluster_inv_lost [OF J Some]
        by (cases w) (auto simp: watched_cluster_def on_response_def waiter_resolve_def waiter_call_def split: option.split)
    qed (use Pair Response J in \<open>simp add: watched_cluster_def on_response_def\<close>)
  next
    case (ErrorResponse s)
    then show ?thesis using Pair J cluster_inv_settle [OF J, of s]
      by (auto simp: watched_cluster_def on_error_response_def split: option.split)
  next
    case (Timeout n)
    then show ?thesis using Pair cluster_inv_timeout [OF J] by (simp add: watched_cluster_def)
  qed (use Pair J in \<open>simp_all add: watched_cluster_def cluster_inv_def cluster_init_def raw_cmd_fire_def send_node_def raw_cmd_def\<close>)
qed

interpretation cluster: guarded_component "watched_cluster pack packn unpack" cluster_inv "\<lambda>W. fresh_session (fst W)"
  by unfold_locales (rule cluster_inv_step)

lemma cluster_inv_new: "cluster_inv (new_cluster, [])"
  by (simp add: cluster_inv_def accounts_def new_cluster_def waits_def)


text \<open>C33. 
  Every call has exactly one of three fates: it is settled once, or its answer could not be unpacked
  and it never settles, or it waits under one session with its timer armed. So when no timer is armed
  any more, every call but the unreadable ones is settled.
\<close>

theorem cluster_calls_settle:
  assumes "legal_run (watched_cluster pack packn unpack) (\<lambda>W. fresh_session (fst W)) (new_cluster, []) events"
  shows "let W = foldl (watched_cluster pack packn unpack) (new_cluster, []) events; C = fst W;
             ended = map fst (settlements C) @ snd W; waiting = {(s, i). waits C s i}
         in distinct ended \<and> {..<calls C} = set ended \<union> snd ` waiting \<and> set ended \<inter> snd ` waiting = {}
            \<and> inj_on snd waiting \<and> waiting \<subseteq> (\<lambda>(s, i, e). (s, i)) ` set (armed C)"
proof -
  let ?W = "foldl (watched_cluster pack packn unpack) (new_cluster, []) events"
  have "cluster_inv ?W" by (rule cluster.run_legal [OF cluster_inv_new assms])
  note A = accountsD [OF this [unfolded cluster_inv_def]]
  have "{(s, i). waits (fst ?W) s i} \<subseteq> (\<lambda>(s, i, e). (s, i)) ` set (armed (fst ?W))"
    using A(4) by (force simp: image_iff)
  moreover have "{..<calls (fst ?W)} = set (map fst (settlements (fst ?W)) @ snd ?W) \<union> snd ` {(s, i). waits (fst ?W) s i}"
    using A(2) by (force simp: image_iff)
  moreover have "inj_on snd {(s, i). waits (fst ?W) s i}" using A(5) by (auto simp: inj_on_def)
  moreover have "set (map fst (settlements (fst ?W)) @ snd ?W) \<inter> snd ` {(s, i). waits (fst ?W) s i} = {}"
    using A(3) by fastforce
  ultimately show ?thesis using A(1) unfolding Let_def by (intro conjI)
qed

definition pack_all :: "bytes list \<Rightarrow> bytes" where "pack_all vs = concat vs"
definition unpack_one :: "bytes \<Rightarrow> bytes list option" where "unpack_one b = (if b = [] then None else Some [b])"

theorem cluster_calls_settle_witness:
  "let W = foldl (watched_cluster pack_all (\<lambda>_. []) unpack_one) (new_cluster, [])
         [Init 5, CallNode (js ''n'') (Name (js ''svc'')) [[1]] 7 True, CallNode (js ''n'') (Handle 3) [] 8 True,
          Response 7 [2], Response 8 []];
       C = fst W; ended = map fst (settlements C) @ snd W; waiting = {(s, i). waits C s i}
   in (distinct ended \<and> {..<calls C} = set ended \<union> snd ` waiting \<and> set ended \<inter> snd ` waiting = {}
      \<and> inj_on snd waiting \<and> waiting \<subseteq> (\<lambda>(s, i, e). (s, i)) ` set (armed C)) \<and> ended = [0, 1]"
proof -
  let ?es = "[Init 5, CallNode (js ''n'') (Name (js ''svc'')) [[1]] 7 True, CallNode (js ''n'') (Handle 3) [] 8 True,
          Response 7 [2], Response 8 []]"
  note evals = watched_cluster_def new_cluster_def cluster_init_def call_node_def cluster_request_def raw_cmd_def on_response_def
    waiter_resolve_def settle_call_def unpack_one_def waiter_call_def Let_def
  have l: "legal_run (watched_cluster pack_all (\<lambda>_. []) unpack_one) (\<lambda>W. fresh_session (fst W)) (new_cluster, []) ?es"
    by (simp add: evals)
  have "map fst (settlements (fst (foldl (watched_cluster pack_all (\<lambda>_. []) unpack_one) (new_cluster, []) ?es)))
      @ snd (foldl (watched_cluster pack_all (\<lambda>_. []) unpack_one) (new_cluster, []) ?es) = [0, 1]"
    by (simp add: evals)
  with cluster_calls_settle [OF l] show ?thesis unfolding Let_def by blast
qed

text \<open>An answer that cannot be unpacked: the call is forgotten first, and neither its timer settles it.\<close>

lemma unreadable_never_settles:
  "let W = foldl (watched_cluster pack_all (\<lambda>_. []) unpack_one) (new_cluster, [])
         [CallNode (js ''n'') (Handle 3) [] 8 True, Response 8 [], Timeout 0]
   in settlements (fst W) = [] \<and> armed (fst W) = [] \<and> pending (fst W) 8 = None"
  by (simp add: watched_cluster_def new_cluster_def call_node_def cluster_request_def raw_cmd_def on_response_def
      waiter_resolve_def settle_call_def unpack_one_def waiter_call_def on_timeout_def Let_def)

text \<open>An address without a colon loses its last character and is its own port.\<close>

lemma node_without_colon: "node_line (js ''n'') (js ''host'') = js ''node n hos host''"
  by code_simp

end
