(* ===== verification/Abort.thy ===== *)
theory Abort
  imports Errors
begin

text \<open>
  \<open>AbortController\<close> and \<open>AbortSignal\<close>, \<open>js/internal/abort.js\<close>. A listener is a function of the
  program, told apart by a number; what it does when it is called is a program of operations on the
  signal, and it may throw. Aborting a signal a second time does nothing, so a listener that aborts
  again starts no second round: a round of calls is one pass over the listeners.
\<close>

section \<open>The signal\<close>

text \<open>A reason is what was handed to \<open>abort\<close>, or one of the two errors the module makes.\<close>

datatype reason = Given nat | AbortErr | TimeoutErr

record listener_entry =
  callback :: nat
  only_once :: bool

record signal =
  aborted :: bool
  reason :: "reason option"
  onabort :: "nat option"
  entries :: "listener_entry list"

definition new_signal :: signal where
  "new_signal = \<lparr>aborted = False, reason = None, onabort = None, entries = []\<rparr>"

text \<open>
  The argument of \<open>addEventListener\<close>: a function, an object with \<open>handleEvent\<close> (a function or not)
  and the property \<open>once\<close>, or nothing.
\<close>

datatype listener_arg = Func nat | Obj "nat option" bool | Nothing

fun arg_callback :: "listener_arg \<Rightarrow> nat option" where
  "arg_callback (Func f) = Some f"
| "arg_callback (Obj h c) = h"
| "arg_callback Nothing = None"

definition arg_once :: "listener_arg \<Rightarrow> bool" where
  "arg_once l = (case l of Obj h c \<Rightarrow> c | _ \<Rightarrow> False)"

definition add_event_listener :: "jsstr \<Rightarrow> listener_arg \<Rightarrow> signal \<Rightarrow> signal" where
  "add_event_listener type l S = (if type \<noteq> js ''abort'' then S
     else (case arg_callback l of
        None \<Rightarrow> S
      | Some f \<Rightarrow> S\<lparr>entries := entries S @ [\<lparr>callback = f, only_once = arg_once l\<rparr>]\<rparr>))"

text \<open>
  The loop from the last index down takes out every entry with the callback. Only lists of the type
  \<open>abort\<close> exist. An argument without a callback is \<open>undefined\<close>, which no entry has.
\<close>

definition remove_event_listener :: "jsstr \<Rightarrow> listener_arg \<Rightarrow> signal \<Rightarrow> signal" where
  "remove_event_listener type l S = (if type \<noteq> js ''abort'' then S
     else S\<lparr>entries := filter (\<lambda>e. Some (callback e) \<noteq> arg_callback l) (entries S)\<rparr>)"

section \<open>Dispatch\<close>

datatype signal_op =
    AddListener listener_arg | RemoveListener listener_arg | SetOnabort "nat option" | AbortAgain "reason option"

text \<open>What happens: a function is called with \<open>this\<close> as the signal.\<close>

datatype round_call = Calls nat | CallsOnabort nat

text \<open>A program: what a function does, given the signal, and whether it throws in the end.\<close>

type_synonym abort_handlers = "nat \<Rightarrow> signal \<Rightarrow> signal_op list \<times> bool"

text \<open>An operation during the dispatch: the signal is aborted, so \<open>abort\<close> returns at once.\<close>

fun inner_op :: "signal \<Rightarrow> signal_op \<Rightarrow> signal" where
  "inner_op S (AddListener l) = add_event_listener (js ''abort'') l S"
| "inner_op S (RemoveListener l) = remove_event_listener (js ''abort'') l S"
| "inner_op S (SetOnabort f) = S\<lparr>onabort := f\<rparr>"
| "inner_op S (AbortAgain r) = S"

definition call_handler :: "abort_handlers \<Rightarrow> nat \<Rightarrow> signal \<Rightarrow> signal \<times> bool" where
  "call_handler H f S = (foldl inner_op S (fst (H f S)), snd (H f S))"

fun dispatch_entries :: "abort_handlers \<Rightarrow> listener_entry list \<Rightarrow> signal \<Rightarrow> signal \<times> round_call list \<times> bool" where
  "dispatch_entries H [] S = (S, [], False)"
| "dispatch_entries H (e # es) S =
     (let S1 = (if only_once e then remove_event_listener (js ''abort'') (Func (callback e)) S else S);
          r = call_handler H (callback e) S1
      in if snd r then (fst r, [Calls (callback e)], True)
         else (case dispatch_entries H es (fst r) of (S2, cs, t) \<Rightarrow> (S2, Calls (callback e) # cs, t)))"

text \<open>\<open>dispatchEvent\<close> of the event \<open>abort\<close>: a copy of the list, then \<open>onabort\<close>.\<close>

definition dispatch_abort :: "abort_handlers \<Rightarrow> signal \<Rightarrow> signal \<times> round_call list \<times> bool" where
  "dispatch_abort H S = (case dispatch_entries H (entries S) S of
     (S1, cs, True) \<Rightarrow> (S1, cs, True)
   | (S1, cs, False) \<Rightarrow> (case onabort S1 of
        None \<Rightarrow> (S1, cs, False)
      | Some f \<Rightarrow> (let r = call_handler H f S1 in (fst r, cs @ [CallsOnabort f], snd r))))"

definition abort :: "abort_handlers \<Rightarrow> reason option \<Rightarrow> signal \<Rightarrow> signal \<times> round_call list \<times> bool" where
  "abort H r S = (if aborted S then (S, [], False)
     else dispatch_abort H (S\<lparr>aborted := True, reason := Some (case r of None \<Rightarrow> AbortErr | Some x \<Rightarrow> x)\<rparr>))"

definition throw_if_aborted :: "signal \<Rightarrow> reason option" where
  "throw_if_aborted S = (if aborted S then reason S else None)"

text \<open>\<open>AbortSignal.abort(reason)\<close>, and \<open>AbortSignal.timeout(ms)\<close> when its timer fires.\<close>

definition abort_static :: "abort_handlers \<Rightarrow> reason option \<Rightarrow> signal" where
  "abort_static H r = fst (abort H r new_signal)"

definition timeout_fires :: "abort_handlers \<Rightarrow> signal \<Rightarrow> signal \<times> round_call list \<times> bool" where
  "timeout_fires H S = abort H (Some TimeoutErr) S"

text \<open>The errors of the module.\<close>

definition create_abort_error :: js_error where
  "create_abort_error = (plain_error (js ''The operation was aborted''))\<lparr>code := Some (js ''ABORT_ERR''), ename := js ''AbortError''\<rparr>"

definition create_timeout_error :: js_error where
  "create_timeout_error = (plain_error (js ''The operation timed out''))\<lparr>code := Some (js ''ERR_TIMEOUT''), ename := js ''TimeoutError''\<rparr>"

section \<open>A signal is aborted once\<close>

text \<open>Whatever is done to a signal: the calls of all rounds, and the final state.\<close>

fun signal_step :: "abort_handlers \<Rightarrow> signal \<times> round_call list list \<Rightarrow> signal_op \<Rightarrow> signal \<times> round_call list list" where
  "signal_step H (S, rounds) (AbortAgain r) =
     (if aborted S then (S, rounds) else (case abort H r S of (S', cs, t) \<Rightarrow> (S', rounds @ [cs])))"
| "signal_step H (S, rounds) a = (inner_op S a, rounds)"


lemma inner_op_keeps [simp]: "aborted (inner_op S a) = aborted S" "reason (inner_op S a) = reason S"
  by (cases "(S, a)" rule: inner_op.cases;
      simp add: add_event_listener_def remove_event_listener_def split: option.split)+

lemma inner_ops_keep [simp]: "aborted (foldl inner_op S as) = aborted S" "reason (foldl inner_op S as) = reason S"
  by (induction as arbitrary: S) simp_all

lemma remove_keeps [simp]:
  "aborted (remove_event_listener ty l S) = aborted S" "reason (remove_event_listener ty l S) = reason S"
  by (simp_all add: remove_event_listener_def)

lemma add_keeps [simp]:
  "aborted (add_event_listener ty l S) = aborted S" "reason (add_event_listener ty l S) = reason S"
  by (simp_all add: add_event_listener_def split: option.split)

lemma call_handler_keeps [simp]:
  "aborted (fst (call_handler H f S)) = aborted S" "reason (fst (call_handler H f S)) = reason S"
  by (simp_all add: call_handler_def)

text \<open>
  A round calls the listeners that were registered when it began, in their order, each once, until one
  throws.
\<close>

lemma dispatch_entries_spec:
  "dispatch_entries H es S = (S', cs, t) \<Longrightarrow>
   aborted S' = aborted S \<and> reason S' = reason S \<and> prefix cs (map (Calls \<circ> callback) es)
   \<and> (\<not> t \<longrightarrow> cs = map (Calls \<circ> callback) es)"
proof (induction es arbitrary: S cs)
  case (Cons e es)
  let ?S1 = "if only_once e then remove_event_listener (js ''abort'') (Func (callback e)) S else S"
  show ?case
    using Cons.prems Cons.IH [of "fst (call_handler H (callback e) ?S1)" "tl cs"]
    by (auto simp: Let_def split: if_splits prod.splits)
qed simp

lemma abort_spec:
  assumes "abort H r S = (S', cs, t)" "\<not> aborted S"
  shows "aborted S' \<and> reason S' = Some (case r of None \<Rightarrow> AbortErr | Some x \<Rightarrow> x)
    \<and> (\<not> t \<longrightarrow> (\<exists>last. cs = map (Calls \<circ> callback) (entries S) @ last \<and> length last \<le> 1))"
  using assms
  by (auto simp: abort_def dispatch_abort_def Let_def dest!: dispatch_entries_spec
      split: prod.splits bool.splits option.splits)

fun abort_reasons :: "signal_op list \<Rightarrow> reason list" where
  "abort_reasons [] = []"
| "abort_reasons (AbortAgain r # as) = (case r of None \<Rightarrow> AbortErr | Some x \<Rightarrow> x) # abort_reasons as"
| "abort_reasons (a # as) = abort_reasons as"

lemma aborted_stays:
  "aborted (fst W) \<Longrightarrow> aborted (fst (foldl (signal_step H) W ops)) \<and> reason (fst (foldl (signal_step H) W ops)) = reason (fst W)
     \<and> snd (foldl (signal_step H) W ops) = snd W"
proof (induction ops arbitrary: W)
  case (Cons a ops)
  obtain S rounds where W: "W = (S, rounds)" by (cases W)
  show ?case using Cons.IH [of "signal_step H W a"] Cons.prems W by (cases a) auto
qed simp

lemma abort_run:
  "\<not> aborted S \<Longrightarrow> reason S = None \<Longrightarrow>
   (let W = foldl (signal_step H) (S, rounds) ops
    in aborted (fst W) = (abort_reasons ops \<noteq> []) \<and> length (snd W) = length rounds + (if aborted (fst W) then 1 else 0)
       \<and> reason (fst W) = (case abort_reasons ops of [] \<Rightarrow> None | r # _ \<Rightarrow> Some r))"
proof (induction ops arbitrary: S)
  case (Cons a ops)
  show ?case
  proof (cases "\<exists>r. a = AbortAgain r")
    case True
    then obtain r where a: "a = AbortAgain r" by blast
    obtain S' cs t where S': "abort H r S = (S', cs, t)" by (cases "abort H r S") auto
    show ?thesis
      using abort_spec [OF S' Cons.prems(1)] aborted_stays [of "(S', rounds @ [cs])" H ops] Cons.prems
      by (simp add: a S' Let_def)
  next
    case False
    then show ?thesis using Cons.IH [of "inner_op S a"] Cons.prems by (cases a) auto
  qed
qed (simp add: Let_def)

text \<open>
  A signal is aborted at the first \<open>abort\<close> and stays so: the listeners get one round, whatever the
  listeners themselves do, and the reason is the first one, or the error of the module when there was none.
\<close>

theorem abort_once:
  "let W = foldl (signal_step H) (new_signal, []) ops
   in aborted (fst W) = (abort_reasons ops \<noteq> []) \<and> length (snd W) = (if aborted (fst W) then 1 else 0)
      \<and> reason (fst W) = (case abort_reasons ops of [] \<Rightarrow> None | r # _ \<Rightarrow> Some r)"
  using abort_run [of new_signal H "[]" ops] by (simp add: new_signal_def Let_def)

text \<open>
  A listener that was to be called once takes the others with the same function along, also those
  that were to stay.
\<close>

lemma once_removes_all:
  "entries (fst (abort (\<lambda>f S. ([], False)) None (new_signal\<lparr>entries :=
     [\<lparr>callback = 1, only_once = False\<rparr>, \<lparr>callback = 1, only_once = True\<rparr>]\<rparr>))) = []"
  by (simp add: abort_def dispatch_abort_def call_handler_def remove_event_listener_def new_signal_def)

end
