(* ===== verification/Util.thy ===== *)
theory Util
  imports Skynet_Core
begin

text \<open>
  \<open>js/builtins/util.js\<close>: \<open>inspect\<close>, \<open>format\<close> and \<open>isDeepStrictEqual\<close>; and \<open>formatLine\<close>, which
  \<open>js/internal/skynet-core.js\<close> has for \<open>console\<close>. Objects live in a heap, as \<open>inspect\<close> and \<open>deepEqual\<close>
  walk along references that may be shared or cyclic. Numbers are the integers, \<open>NaN\<close> and the negative
  zero, which \<open>Object.is\<close> tells apart. A symbol and a function carry their identity, a number, beside
  what \<open>inspect\<close> shows of them (the symbol's text, the function's name): two functions of one name are
  two values.
\<close>

section \<open>Values\<close>

datatype uval = UUndefined | UNull | UBool bool | UNum int | UNaN | UNegZero | UStr jsstr | UBigInt int
  | USymbol nat jsstr | UFunction nat jsstr | URef nat

text \<open>
  An object: of an error its \<open>stack\<close> or name and message, of a date its ISO form and its time, of an
  object with a custom \<open>inspect\<close> what that gives.
\<close>

datatype uobj = OArray "uval list" | OPlain "(jsstr \<times> uval) list" | OMap "(uval \<times> uval) list" | OSet "uval list"
  | ODate jsstr int | ORegExp jsstr | OError jsstr | OCustom jsstr | OTyped jsstr "int list" | OArrayBuffer nat

type_synonym uheap = "uobj list"

definition obj :: "uheap \<Rightarrow> nat \<Rightarrow> uobj" where
  "obj h i = (if i < length h then h ! i else OPlain [])"

section \<open>inspect\<close>

record inspect_options =
  io_depth :: "int option"
  io_plain :: bool
  io_length :: bool

definition nat_str :: "nat \<Rightarrow> jsstr" where
  "nat_str n = int_str (int n)"

definition braces :: "jsstr \<Rightarrow> jsstr" where
  "braces s = js ''{ '' @ s @ js '' }''"

definition inspect_leaf :: "inspect_options \<Rightarrow> uval \<Rightarrow> jsstr" where
  "inspect_leaf opts v = (case v of
     UNull \<Rightarrow> js ''null''
   | UStr s \<Rightarrow> if io_plain opts then s else 39 # s @ [39]
   | UNum n \<Rightarrow> int_str n
   | UNaN \<Rightarrow> js ''NaN''
   | UNegZero \<Rightarrow> js ''0''
   | UBool b \<Rightarrow> if b then js ''true'' else js ''false''
   | UUndefined \<Rightarrow> js ''undefined''
   | UBigInt n \<Rightarrow> int_str n @ js ''n''
   | USymbol i s \<Rightarrow> s
   | UFunction i n \<Rightarrow> js ''[Function: '' @ (if n = [] then js ''anonymous'' else n) @ js '']''
   | URef i \<Rightarrow> [])"

text \<open>
  The objects that are shown whatever the depth; then the depth is checked; the rest goes one level
  down. The argument is the number of levels left, \<open>maxDepth - current\<close>, and no level is left below 0.
\<close>

definition inspect_flat :: "uobj \<Rightarrow> jsstr option" where
  "inspect_flat ob = (case ob of ODate d t \<Rightarrow> Some d | ORegExp s \<Rightarrow> Some s | OError s \<Rightarrow> Some s | OCustom s \<Rightarrow> Some s | _ \<Rightarrow> None)"

definition inspect_deep :: "inspect_options \<Rightarrow> (uval \<Rightarrow> jsstr) \<Rightarrow> uobj \<Rightarrow> jsstr" where
  "inspect_deep opts rec ob = (case ob of
     OArray vs \<Rightarrow> js ''[ '' @ join_with (js '', '') (map rec vs @
         (if io_length opts then [js ''[length]: '' @ nat_str (length vs)] else [])) @ js '' ]''
   | OMap ps \<Rightarrow> js ''Map('' @ nat_str (length ps) @ js '') '' @
         braces (join_with (js '', '') (map (\<lambda>p. rec (fst p) @ js '' => '' @ rec (snd p)) ps))
   | OSet vs \<Rightarrow> js ''Set('' @ nat_str (length vs) @ js '') '' @ braces (join_with (js '', '') (map rec vs))
   | OTyped c ns \<Rightarrow> c @ js ''('' @ nat_str (length ns) @ js '') [ '' @ join_with (js '', '') (map int_str ns) @ js '' ]''
   | OArrayBuffer n \<Rightarrow> js ''ArrayBuffer { byteLength: '' @ nat_str n @ js '' }''
   | OPlain ps \<Rightarrow> if ps = [] then js ''{}''
         else braces (join_with (js '', '') (map (\<lambda>p. fst p @ js '': '' @ rec (snd p)) ps))
   | _ \<Rightarrow> [])"

primrec inspect_at :: "nat \<Rightarrow> uheap \<Rightarrow> inspect_options \<Rightarrow> uval \<Rightarrow> jsstr" where
  "inspect_at 0 h opts v = (case v of
     URef i \<Rightarrow> (case inspect_flat (obj h i) of
        Some s \<Rightarrow> s
      | None \<Rightarrow> (case obj h i of OArray vs \<Rightarrow> js ''[Array]'' | _ \<Rightarrow> js ''[Object]''))
   | _ \<Rightarrow> inspect_leaf opts v)"
| "inspect_at (Suc r) h opts v = (case v of
     URef i \<Rightarrow> (case inspect_flat (obj h i) of
        Some s \<Rightarrow> s
      | None \<Rightarrow> inspect_deep opts (inspect_at r h opts) (obj h i))
   | _ \<Rightarrow> inspect_leaf opts v)"

definition inspect :: "uheap \<Rightarrow> inspect_options \<Rightarrow> uval \<Rightarrow> jsstr" where
  "inspect h opts v = inspect_at (nat (case io_depth opts of None \<Rightarrow> 2 | Some d \<Rightarrow> d)) h opts v"

section \<open>format\<close>

text \<open>
  The conversions of \<open>%d\<close>, \<open>%i\<close>, \<open>%f\<close> and \<open>%j\<close> are those of the language (\<open>Number\<close>, \<open>parseInt\<close>,
  \<open>parseFloat\<close>, \<open>JSON.stringify\<close>), an argument of the model.
\<close>

definition util_specs :: jsstr where "util_specs = js ''sdifjoOc''"

definition spec_text :: "(code_unit \<Rightarrow> uval \<Rightarrow> jsstr) \<Rightarrow> uheap \<Rightarrow> inspect_options \<Rightarrow> code_unit \<Rightarrow> uval \<Rightarrow> jsstr" where
  "spec_text conv h opts c v =
     (if c = 115 then (case v of UStr s \<Rightarrow> s | _ \<Rightarrow> inspect h opts v)
      else if c \<in> {100, 105, 102, 106} then conv c v
      else if c = 99 then []
      else inspect h (opts\<lparr>io_length := True\<rparr>) v)"

text \<open>The replacement: what is left of the arguments comes back too.\<close>

fun replace_specs :: "(code_unit \<Rightarrow> uval \<Rightarrow> jsstr) \<Rightarrow> uheap \<Rightarrow> inspect_options \<Rightarrow> jsstr \<Rightarrow> uval list \<Rightarrow> jsstr \<times> uval list" where
  "replace_specs conv h opts (p # c # s) rest =
     (if p = 37 \<and> c \<in> set util_specs
      then (case rest of
          [] \<Rightarrow> (let r = replace_specs conv h opts s [] in (p # c # fst r, snd r))
        | v # vs \<Rightarrow> (let r = replace_specs conv h opts s vs in (spec_text conv h opts c v @ fst r, snd r)))
      else (let r = replace_specs conv h opts (c # s) rest in (p # fst r, snd r)))"
| "replace_specs conv h opts s rest = (s, rest)"

fun has_spec :: "jsstr \<Rightarrow> bool" where
  "has_spec (p # c # s) = (p = 37 \<and> c \<in> set util_specs \<or> has_spec (c # s))"
| "has_spec _ = False"

definition plain_options :: inspect_options where
  "plain_options = \<lparr>io_depth = None, io_plain = True, io_length = False\<rparr>"

definition format :: "(code_unit \<Rightarrow> uval \<Rightarrow> jsstr) \<Rightarrow> uheap \<Rightarrow> inspect_options \<Rightarrow> uval \<Rightarrow> uval list \<Rightarrow> jsstr" where
  "format conv h opts first rest =
     (case first of
        UStr s \<Rightarrow> if has_spec s
          then (let r = replace_specs conv h opts s rest
                in fst r @ concat (map (\<lambda>v. 32 # inspect h plain_options v) (snd r)))
          else join_with [32] (map (inspect h (opts\<lparr>io_plain := True\<rparr>)) (first # rest))
      | _ \<Rightarrow> join_with [32] (map (inspect h (opts\<lparr>io_plain := True\<rparr>)) (first # rest)))"

subsection \<open>formatLine of the console\<close>

definition console_specs :: jsstr where "console_specs = js ''sdifjo%''"

definition console_spec :: "(code_unit \<Rightarrow> shown \<Rightarrow> jsstr) \<Rightarrow> code_unit \<Rightarrow> shown \<Rightarrow> jsstr" where
  "console_spec conv c v =
     (if c = 115 then (case v of ShString s \<Rightarrow> s | _ \<Rightarrow> to_display 0 v)
      else if c \<in> {100, 105, 102, 106} then conv c v
      else to_display 0 v)"

fun format_loop :: "(code_unit \<Rightarrow> shown \<Rightarrow> jsstr) \<Rightarrow> jsstr \<Rightarrow> shown list \<Rightarrow> jsstr \<times> shown list" where
  "format_loop conv (p # c # s) rest =
     (if p \<noteq> 37 \<or> c \<notin> set console_specs then (let r = format_loop conv (c # s) rest in (p # fst r, snd r))
      else if c = 37 then (let r = format_loop conv s rest in (37 # fst r, snd r))
      else (case rest of
          [] \<Rightarrow> (let r = format_loop conv s [] in (37 # c # fst r, snd r))
        | v # vs \<Rightarrow> (let r = format_loop conv s vs in (console_spec conv c v @ fst r, snd r))))"
| "format_loop conv s rest = (s, rest)"

definition format_line :: "(code_unit \<Rightarrow> shown \<Rightarrow> jsstr) \<Rightarrow> shown list \<Rightarrow> jsstr" where
  "format_line conv args = (case args of
     ShString fmt # rest \<Rightarrow>
       if 37 \<in> set fmt
       then (let r = format_loop conv fmt rest in fst r @ concat (map (\<lambda>v. 32 # to_display 0 v) (snd r)))
       else console_line args
   | _ \<Rightarrow> console_line args)"

section \<open>isDeepStrictEqual\<close>

text \<open>\<open>Object.keys\<close>: maps, sets and the others have none.\<close>

definition own_keys :: "uobj \<Rightarrow> jsstr list" where
  "own_keys ob = (case ob of
     OArray vs \<Rightarrow> map nat_str [0..<length vs]
   | OPlain ps \<Rightarrow> map fst ps
   | OTyped c ns \<Rightarrow> map nat_str [0..<length ns]
   | _ \<Rightarrow> [])"

definition prop_of :: "uobj \<Rightarrow> jsstr \<Rightarrow> uval option" where
  "prop_of ob k = (case ob of
     OArray vs \<Rightarrow> map_of (zip (own_keys ob) vs) k
   | OPlain ps \<Rightarrow> map_of ps k
   | OTyped c ns \<Rightarrow> map_of (zip (own_keys ob) (map UNum ns)) k
   | _ \<Rightarrow> None)"

fun is_array :: "uobj \<Rightarrow> bool" where
  "is_array (OArray vs) = True"
| "is_array _ = False"

datatype deep_result = DTrue | DFalse | DTypeError

type_synonym deep_run = "(nat list \<times> deep_result) option"

text \<open>The loop over the keys of \<open>a\<close>; a throw or a difference ends it.\<close>

fun keys_equal :: "(uval \<Rightarrow> uval \<Rightarrow> nat list \<Rightarrow> deep_run) \<Rightarrow> uobj \<Rightarrow> uobj \<Rightarrow> jsstr list \<Rightarrow> nat list \<Rightarrow> deep_run" where
  "keys_equal eq a b [] seen = Some (seen, DTrue)"
| "keys_equal eq a b (k # ks) seen = (case (prop_of a k, prop_of b k) of
     (Some x, Some y) \<Rightarrow> (case eq x y seen of
        Some (seen', DTrue) \<Rightarrow> keys_equal eq a b ks seen'
      | r \<Rightarrow> r)
   | _ \<Rightarrow> Some (seen, DFalse))"

text \<open>
  \<open>seen\<close> is a \<open>Set\<close>, and \<open>seen.get\<close> is no function: an object met again is a \<open>TypeError\<close>. The fuel bounds
  the depth of the recursion.
\<close>

primrec deep_equal :: "nat \<Rightarrow> uheap \<Rightarrow> uval \<Rightarrow> uval \<Rightarrow> nat list \<Rightarrow> deep_run" where
  "deep_equal 0 h a b seen = None"
| "deep_equal (Suc n) h a b seen =
     (if a = b then Some (seen, DTrue)
      else (case (a, b) of
         (URef i, URef j) \<Rightarrow>
           if i \<in> set seen then Some (seen, DTypeError)
           else (let seen' = i # seen; x = obj h i; y = obj h j in
             if is_array x \<noteq> is_array y then Some (seen', DFalse)
             else (case (x, y) of
                (ODate s t, ODate s' t') \<Rightarrow> Some (seen', if t = t' then DTrue else DFalse)
              | (ORegExp r, ORegExp r') \<Rightarrow> Some (seen', if r = r' then DTrue else DFalse)
              | _ \<Rightarrow> if length (own_keys x) \<noteq> length (own_keys y) then Some (seen', DFalse)
                     else keys_equal (deep_equal n h) x y (own_keys x) seen'))
       | _ \<Rightarrow> Some (seen, DFalse)))"

definition is_deep_strict_equal :: "nat \<Rightarrow> uheap \<Rightarrow> uval \<Rightarrow> uval \<Rightarrow> deep_result option" where
  "is_deep_strict_equal n h a b = map_option snd (deep_equal n h a b [])"


subsection \<open>The comparison ends\<close>

definition unseen :: "uheap \<Rightarrow> nat list \<Rightarrow> nat set" where
  "unseen h seen = {..<length h} - set seen"

lemma unseen_finite [simp]: "finite (unseen h seen)"
  by (simp add: unseen_def)

lemma unseen_step: "i < length h \<Longrightarrow> i \<notin> set seen \<Longrightarrow> card (unseen h (i # seen)) < card (unseen h seen)"
  by (rule psubset_card_mono) (auto simp: unseen_def)

lemma unseen_mono: "set seen \<subseteq> set s \<Longrightarrow> card (unseen h s) \<le> card (unseen h seen)"
  by (rule card_mono) (auto simp: unseen_def)

lemma own_keys_dangling: "length h \<le> i \<Longrightarrow> own_keys (obj h i) = []"
  by (simp add: obj_def own_keys_def)

lemma keys_equal_returns:
  assumes "\<And>x y s. set seen \<subseteq> set s \<Longrightarrow> \<exists>s' r. eq x y s = Some (s', r) \<and> set s \<subseteq> set s'"
  shows "\<exists>s' r. keys_equal eq a b ks seen = Some (s', r) \<and> set seen \<subseteq> set s'"
  using assms
proof (induction ks arbitrary: seen)
  case (Cons k ks)
  show ?case
  proof (cases "(prop_of a k, prop_of b k)")
    case (Pair p q)
    show ?thesis
    proof (cases "\<exists>x y. p = Some x \<and> q = Some y")
      case True
      then obtain x y where xy: "p = Some x" "q = Some y" by blast
      obtain s' r where r: "eq x y seen = Some (s', r)" "set seen \<subseteq> set s'" using Cons.prems [of seen] by blast
      have "\<exists>s'' r'. keys_equal eq a b ks s' = Some (s'', r') \<and> set s' \<subseteq> set s''"
        using Cons.IH [of s'] Cons.prems r(2) by (meson subset_trans)
      then show ?thesis using Pair xy r by (cases r) auto
    qed (use Pair in \<open>auto split: option.split\<close>)
  qed
qed simp

lemma deep_equal_fuel:
  "card (unseen h seen) < n \<Longrightarrow> \<exists>s' r. deep_equal n h a b seen = Some (s', r) \<and> set seen \<subseteq> set s'"
proof (induction n arbitrary: a b seen)
  case (Suc n)
  show ?case
  proof (cases "a \<noteq> b \<and> (\<exists>i j. a = URef i \<and> b = URef j \<and> i \<notin> set seen)")
    case True
    then obtain i j where ij: "a = URef i" "b = URef j" "i \<notin> set seen" "i \<noteq> j" by blast
    have "\<exists>s' r. keys_equal (deep_equal n h) (obj h i) (obj h j) (own_keys (obj h i)) (i # seen) = Some (s', r)
        \<and> set (i # seen) \<subseteq> set s'"
    proof (cases "i < length h")
      case True
      then have "card (unseen h (i # seen)) < n" using unseen_step [OF True ij(3)] Suc.prems by simp
      then show ?thesis using Suc.IH unseen_mono le_less_trans by (intro keys_equal_returns) blast
    qed (auto simp: own_keys_dangling)
    then obtain s' r where "keys_equal (deep_equal n h) (obj h i) (obj h j) (own_keys (obj h i)) (i # seen) = Some (s', r)"
      "set (i # seen) \<subseteq> set s'" by blast
    then show ?thesis using ij by (auto simp: Let_def split: uobj.split)
  next
    case False
    then show ?thesis by (cases a; cases b) auto
  qed
qed simp

text \<open>
  The comparison ends on every heap, cyclic ones too: the recursion is no deeper than the number of
  objects and one.
\<close>

theorem deep_equal_returns:
  "\<exists>r. is_deep_strict_equal (length h + 1) h a b = Some r"
proof -
  have "card (unseen h []) < length h + 1" by (simp add: unseen_def)
  from deep_equal_fuel [OF this, of a b] show ?thesis by (auto simp: is_deep_strict_equal_def)
qed

subsection \<open>Without sharing it is equality of trees\<close>

text \<open>
  The value a reference stands for, when it is a tree of arrays and plain objects: with the addresses at
  the nodes. Two trees are the same when they have the same properties with the same values, in any order.
\<close>

datatype utree = Leaf uval | Node nat bool "(jsstr \<times> utree) list"

fun is_ref :: "uval \<Rightarrow> bool" where
  "is_ref (URef i) = True"
| "is_ref _ = False"

fun tree_object :: "bool \<Rightarrow> uobj \<Rightarrow> bool" where
  "tree_object arr (OArray vs) = arr"
| "tree_object arr (OPlain ps) = (\<not> arr)"
| "tree_object arr _ = False"

fun unfolds :: "uheap \<Rightarrow> utree \<Rightarrow> uval \<Rightarrow> bool" where
  "unfolds h (Leaf x) v = (v = x \<and> \<not> is_ref x)"
| "unfolds h (Node i arr fs) v = (v = URef i \<and> tree_object arr (obj h i)
     \<and> map fst fs = own_keys (obj h i) \<and> distinct (map fst fs)
     \<and> list_all (\<lambda>f. case prop_of (obj h i) (fst f) of None \<Rightarrow> False | Some w \<Rightarrow> unfolds h (snd f) w) fs)"

fun addresses :: "utree \<Rightarrow> nat list" where
  "addresses (Leaf x) = []"
| "addresses (Node i arr fs) = i # concat (map (\<lambda>f. addresses (snd f)) fs)"

fun same_tree :: "utree \<Rightarrow> utree \<Rightarrow> bool" where
  "same_tree (Leaf x) (Leaf y) = (x = y)"
| "same_tree (Node i arr fs) (Node j brr gs) = (arr = brr \<and> length fs = length gs
     \<and> list_all (\<lambda>f. case map_of gs (fst f) of None \<Rightarrow> False | Some u \<Rightarrow> same_tree (snd f) u) fs)"
| "same_tree _ _ = False"


lemma prop_of_none: "k \<notin> set (own_keys ob) \<Longrightarrow> prop_of ob k = None"
  by (auto simp: prop_of_def own_keys_def map_of_eq_None_iff dest!: set_zip_leftD split: uobj.splits)

lemma unfolds_nodeD:
  assumes "unfolds h (Node i arr fs) v" "f \<in> set fs"
  shows "\<exists>w. prop_of (obj h i) (fst f) = Some w \<and> unfolds h (snd f) w"
  using assms by (auto simp: list_all_iff split: option.splits)

lemma unfolds_unique: "unfolds h t v \<Longrightarrow> unfolds h u v \<Longrightarrow> t = u"
proof (induction t arbitrary: u v)
  case (Leaf x)
  then show ?case by (cases u) auto
next
  case (Node i arr fs)
  then obtain brr gs where u: "u = Node i brr gs" by (cases u) auto
  have "arr = brr" using Node.prems u by (cases "obj h i") auto
  moreover have "fs = gs"
  proof (rule nth_equalityI)
    have keys: "map fst fs = map fst gs" using Node.prems u by simp
    then show "length fs = length gs" by (rule map_eq_imp_length_eq)
    fix k assume k: "k < length fs"
    with \<open>length fs = length gs\<close> keys have f: "fst (fs ! k) = fst (gs ! k)" by (metis nth_map)
    moreover have "snd (fs ! k) = snd (gs ! k)"
    proof -
      obtain w where "prop_of (obj h i) (fst (fs ! k)) = Some w" "unfolds h (snd (fs ! k)) w"
        using unfolds_nodeD [OF Node.prems(1), of "fs ! k"] k by auto
      moreover obtain w' where "prop_of (obj h i) (fst (gs ! k)) = Some w'" "unfolds h (snd (gs ! k)) w'"
        using unfolds_nodeD [OF Node.prems(2) [unfolded u], of "gs ! k"] k \<open>length fs = length gs\<close> by auto
      ultimately show ?thesis using Node.IH [of "fs ! k" "snd (fs ! k)"] f k by (auto simp: snds.simps)
    qed
    ultimately show "fs ! k = gs ! k" by (rule prod_eqI)
  qed
  ultimately show ?case using u by simp
qed

lemma same_tree_refl: "unfolds h t v \<Longrightarrow> same_tree t t"
proof (induction t arbitrary: v)
  case (Node i arr fs)
  have "case map_of fs (fst f) of None \<Rightarrow> False | Some u \<Rightarrow> same_tree (snd f) u" if f: "f \<in> set fs" for f
  proof -
    have "(fst f, snd f) \<in> set fs" using f by simp
    then have "map_of fs (fst f) = Some (snd f)" using Node.prems by (intro map_of_is_SomeI) auto
    moreover obtain w where "unfolds h (snd f) w" using unfolds_nodeD [OF Node.prems f] by blast
    ultimately show ?thesis using Node.IH [of f "snd f"] f by (auto simp: snds.simps)
  qed
  then show ?case by (simp add: list_all_iff)
qed simp

text \<open>The answer that is right for two trees.\<close>

definition verdict :: "bool \<Rightarrow> deep_result" where
  "verdict e = (if e then DTrue else DFalse)"

definition decides :: "uheap \<Rightarrow> (uval \<Rightarrow> uval \<Rightarrow> nat list \<Rightarrow> deep_run) \<Rightarrow> utree \<Rightarrow> bool" where
  "decides h eq t \<longleftrightarrow> (\<forall>u a b seen s r. unfolds h t a \<longrightarrow> unfolds h u b \<longrightarrow> distinct (addresses t)
     \<longrightarrow> set (addresses t) \<inter> set seen = {} \<longrightarrow> eq a b seen = Some (s, r)
     \<longrightarrow> r = verdict (same_tree t u) \<and> set s \<subseteq> set seen \<union> set (addresses t))"

lemma keys_decide:
  assumes "\<And>f. f \<in> set fs \<Longrightarrow> decides h eq (snd f) \<and> (\<exists>w. prop_of x (fst f) = Some w \<and> unfolds h (snd f) w)"
    and "\<And>k. map_of gs k = None \<Longrightarrow> prop_of y k = None"
    and "\<And>k u. map_of gs k = Some u \<Longrightarrow> \<exists>w. prop_of y k = Some w \<and> unfolds h u w"
    and "distinct (concat (map (\<lambda>f. addresses (snd f)) fs))"
    and "set (concat (map (\<lambda>f. addresses (snd f)) fs)) \<inter> set seen = {}"
    and "keys_equal eq x y (map fst fs) seen = Some (s, r)"
  shows "r = verdict (list_all (\<lambda>f. case map_of gs (fst f) of None \<Rightarrow> False | Some u \<Rightarrow> same_tree (snd f) u) fs)
    \<and> set s \<subseteq> set seen \<union> set (concat (map (\<lambda>f. addresses (snd f)) fs))"
  using assms(1,4-)
proof (induction fs arbitrary: seen)
  case (Cons f fs)
  obtain v where v: "prop_of x (fst f) = Some v" "unfolds h (snd f) v" "decides h eq (snd f)"
    using Cons.prems(1) [of f] by auto
  show ?case
  proof (cases "map_of gs (fst f)")
    case None
    then show ?thesis using Cons.prems(4) v assms(2) by (auto simp: verdict_def)
  next
    case (Some u)
    obtain w where w: "prop_of y (fst f) = Some w" "unfolds h u w" using assms(3) [OF Some] by blast
    obtain s1 r1 where e: "eq v w seen = Some (s1, r1)"
      using Cons.prems(4) v w by (auto split: option.splits prod.splits)
    have "distinct (addresses (snd f))" "set (addresses (snd f)) \<inter> set seen = {}" using Cons.prems(2,3) by auto
    then have d: "r1 = verdict (same_tree (snd f) u)" "set s1 \<subseteq> set seen \<union> set (addresses (snd f))"
      using v(3) [unfolded decides_def] v(2) w(2) e by blast+
    show ?thesis
    proof (cases "same_tree (snd f) u")
      case True
      have k: "keys_equal eq x y (map fst fs) s1 = Some (s, r)"
        using Cons.prems(4) v w e d True by (simp add: verdict_def)
      have "r = verdict (list_all (\<lambda>f. case map_of gs (fst f) of None \<Rightarrow> False | Some u \<Rightarrow> same_tree (snd f) u) fs)
          \<and> set s \<subseteq> set s1 \<union> set (concat (map (\<lambda>f. addresses (snd f)) fs))"
      proof (rule Cons.IH [OF _ _ _ k])
        show "set (concat (map (\<lambda>f. addresses (snd f)) fs)) \<inter> set s1 = {}"
          using Cons.prems(2,3) d(2) by auto
      qed (use Cons.prems(1,2) in auto)
      then show ?thesis using d(2) Some True by (auto)
    next
      case False
      then show ?thesis using Cons.prems(4) v w e d Some by (auto simp: verdict_def)
    qed
  qed
qed (simp add: verdict_def)


lemma decides_tree: "decides h (deep_equal n h) t"
proof (induction t arbitrary: n)
  case (Leaf x)
  show ?case unfolding decides_def
  proof (intro allI impI)
    fix u a b seen s r
    assume "unfolds h (Leaf x) a" "unfolds h u b" "deep_equal n h a b seen = Some (s, r)"
    then show "r = verdict (same_tree (Leaf x) u) \<and> set s \<subseteq> set seen \<union> set (addresses (Leaf x))"
      by (cases n; cases u; cases x) (auto simp: verdict_def split: if_splits uval.splits)
  qed
next
  case (Node i arr fs)
  show ?case unfolding decides_def
  proof (intro allI impI)
    fix u a b seen s r
    assume t: "unfolds h (Node i arr fs) a" and u: "unfolds h u b" and d: "distinct (addresses (Node i arr fs))"
      and s: "set (addresses (Node i arr fs)) \<inter> set seen = {}" and e: "deep_equal n h a b seen = Some (s, r)"
    obtain m where n: "n = Suc m" using e by (cases n) auto
    have a: "a = URef i" using t by simp
    show "r = verdict (same_tree (Node i arr fs) u) \<and> set s \<subseteq> set seen \<union> set (addresses (Node i arr fs))"
    proof (cases u)
      case (Leaf y)
      then show ?thesis using u e a n by (cases y) (auto simp: verdict_def)
    next
      case (Node j brr gs)
      have b: "b = URef j" using u Node by simp
      let ?x = "obj h i" and ?y = "obj h j"
      have keys: "own_keys ?x = map fst fs" "own_keys ?y = map fst gs" using t u Node by simp_all
      have arrs: "tree_object arr ?x" "tree_object brr ?y" using t u Node by simp_all
      have ia: "is_array ?x = arr" "is_array ?y = brr" using arrs by (cases ?x; cases ?y; simp)+
      show ?thesis
      proof (cases "i = j")
        case True
        then have "u = Node i arr fs" using unfolds_unique [of h u a] u t a b by metis
        then show ?thesis using same_tree_refl [OF t] e a b True n by (auto simp: verdict_def)
      next
        case False
        have i: "i \<notin> set seen" using s by simp
        show ?thesis
        proof (cases "arr = brr \<and> length fs = length gs")
          case True
          have k: "keys_equal (deep_equal m h) ?x ?y (map fst fs) (i # seen) = Some (s, r)"
            using e a b n False i ia arrs True keys by (cases ?x; cases ?y) (auto simp: Let_def)
          have "r = verdict (list_all (\<lambda>f. case map_of gs (fst f) of None \<Rightarrow> False | Some u \<Rightarrow> same_tree (snd f) u) fs)
              \<and> set s \<subseteq> set (i # seen) \<union> set (concat (map (\<lambda>f. addresses (snd f)) fs))"
          proof (rule keys_decide [OF _ _ _ _ _ k])
            show "decides h (deep_equal m h) (snd f) \<and> (\<exists>w. prop_of ?x (fst f) = Some w \<and> unfolds h (snd f) w)"
              if "f \<in> set fs" for f
              using Node.IH [of f "snd f"] unfolds_nodeD [OF t that] that by (auto simp: snds.simps)
            show "map_of gs k = None \<Longrightarrow> prop_of ?y k = None" for k
              using keys(2) by (intro prop_of_none) (simp add: map_of_eq_None_iff)
            show "map_of gs k = Some v \<Longrightarrow> \<exists>w. prop_of ?y k = Some w \<and> unfolds h v w" for k v
              using unfolds_nodeD [OF u [unfolded Node], of "(k, v)"] by (auto dest: map_of_SomeD)
          qed (use d s in auto)
          then show ?thesis using True Node by (auto)
        next
          case False
          then show ?thesis using e a b n \<open>i \<noteq> j\<close> i ia arrs keys Node
            by (cases ?x; cases ?y) (auto simp: Let_def verdict_def)
        qed
      qed
    qed
  qed
qed

text \<open>C36. 
  On trees, where no object of \<open>a\<close> is reached twice, \<open>isDeepStrictEqual\<close> says whether the two are the
  same: the same arrays and objects with the same properties, whatever their order, and the same leaves.
  A leaf is what \<open>Object.is\<close> compares; a function or a symbol is only the same as itself, whatever its name.
\<close>

theorem deep_equal_is_same_tree:
  assumes "unfolds h t a" "unfolds h u b" "distinct (addresses t)"
  shows "is_deep_strict_equal (length h + 1) h a b = Some (if same_tree t u then DTrue else DFalse)"
proof -
  obtain s r where "deep_equal (length h + 1) h a b [] = Some (s, r)"
    using deep_equal_fuel [of h "[]" "length h + 1" a b] by (auto simp: unseen_def)
  moreover from this have "r = verdict (same_tree t u)"
    using decides_tree [of h "length h + 1" t, unfolded decides_def, rule_format, OF assms, of "[]"] by simp
  ultimately show ?thesis by (simp add: is_deep_strict_equal_def verdict_def)
qed

text \<open>\<open>{ x: 1, y: [2] }\<close> and \<open>{ y: [2], x: 1 }\<close>.\<close>

definition two_trees :: uheap where
  "two_trees = [OPlain [(js ''x'', UNum 1), (js ''y'', URef 1)], OArray [UNum 2],
                OPlain [(js ''y'', URef 3), (js ''x'', UNum 1)], OArray [UNum 2]]"

theorem deep_equal_is_same_tree_witness:
  "is_deep_strict_equal (length two_trees + 1) two_trees (URef 0) (URef 2) = Some DTrue"
proof -
  let ?t = "Node 0 False [(js ''x'', Leaf (UNum 1)), (js ''y'', Node 1 True [(js ''0'', Leaf (UNum 2))])]"
  let ?u = "Node 2 False [(js ''y'', Node 3 True [(js ''0'', Leaf (UNum 2))]), (js ''x'', Leaf (UNum 1))]"
  have "unfolds two_trees ?t (URef 0)" "unfolds two_trees ?u (URef 2)" "distinct (addresses ?t)" "same_tree ?t ?u"
    by code_simp+
  then show ?thesis using deep_equal_is_same_tree [of two_trees ?t "URef 0" ?u "URef 2"] by (simp only: if_True)
qed

text \<open>\<open>{ m: () => 1 }\<close> and \<open>{ m: () => 2 }\<close> differ: the functions have one name and two identities.\<close>

lemma functions_by_identity:
  "is_deep_strict_equal 9 [OPlain [(js ''m'', UFunction i (js ''m''))], OPlain [(js ''m'', UFunction k (js ''m''))]]
     (URef 0) (URef 1) = Some (if i = k then DTrue else DFalse)"
  by (simp add: is_deep_strict_equal_def eval_nat_numeral obj_def own_keys_def prop_of_def Let_def)

text \<open>An object that occurs twice makes it throw; two different maps are equal.\<close>

lemma shared_objects_throw:
  "is_deep_strict_equal 9 [OArray [URef 2, URef 2], OArray [URef 3, URef 3], OPlain [], OPlain []] (URef 0) (URef 1) = Some DTypeError"
  by code_simp

lemma maps_are_equal:
  "is_deep_strict_equal 9 [OMap [(UNum 1, UNum 2)], OMap []] (URef 0) (URef 1) = Some DTrue"
  by code_simp

text \<open>\<open>%%\<close> is no escape in \<open>format\<close>, and \<open>%O\<close> is no specifier in \<open>formatLine\<close>.\<close>

lemma percent_not_escaped:
  "format (\<lambda>c v. []) [] plain_options (UStr (js ''%%s'')) [UStr (js ''a'')] = js ''%a''"
  by code_simp

lemma console_capital_o:
  "format_line (\<lambda>c v. []) [ShString (js ''%O''), ShNumber 1] = js ''%O 1''"
  by code_simp

end
