(* ===== verification/Url_Legacy.thy ===== *)
theory Url_Legacy
  imports Url_Core Path_Posix
begin

text \<open>
  The facade \<open>js/builtins/url.js\<close>: the legacy \<open>parse\<close>, \<open>format\<close> and \<open>resolve\<close> over the \<open>URL\<close> class, the
  options of an HTTP request, and the conversions between paths and file URLs. \<open>None\<close> is \<open>null\<close> in a
  field of a result, and an exception as the result of an operation.
\<close>

section \<open>Parsing\<close>

text \<open>The member \<open>query\<close>: \<open>null\<close>, the text, or the object of \<open>querystring.parse\<close>.\<close>

datatype legacy_query = NoQuery | QueryText jsstr | QueryTable header

record legacy =
  l_protocol :: "jsstr option"
  l_slashes :: "bool option"
  l_auth :: "jsstr option"
  l_host :: "jsstr option"
  l_port :: "jsstr option"
  l_hostname :: "jsstr option"
  l_hash :: "jsstr option"
  l_search :: "jsstr option"
  l_query :: legacy_query
  l_pathname :: "jsstr option"
  l_path :: "jsstr option"
  l_href :: jsstr

text \<open>\<open>s || null\<close>.\<close>

definition or_null :: "jsstr \<Rightarrow> jsstr option" where
  "or_null s = (if s = [] then None else Some s)"

definition text_of :: "jsstr option \<Rightarrow> jsstr" where
  "text_of s = (case s of None \<Rightarrow> [] | Some t \<Rightarrow> t)"

text \<open>The query string is parsed when it is asked for, with at most 1000 keys.\<close>

definition parsed_query :: "bool \<Rightarrow> jsstr option \<Rightarrow> legacy_query" where
  "parsed_query parseQueryString query =
     (if parseQueryString
      then QueryTable (case query of None \<Rightarrow> [] | Some q \<Rightarrow> qs_parse q [38] [61] 1000)
      else case query of None \<Rightarrow> NoQuery | Some q \<Rightarrow> QueryText q)"

definition parse_url_text :: "jsstr \<Rightarrow> bool \<Rightarrow> url \<Rightarrow> legacy" where
  "parse_url_text text parseQueryString u =
     \<lparr>l_protocol = or_null (protocol u),
      l_slashes = Some (starts_with text [47, 47] \<or>
        (case split_scheme text of None \<Rightarrow> False | Some (s, r) \<Rightarrow> starts_with r [47, 47])),
      l_auth = (if username u \<noteq> [] then Some (username u @ (if password u \<noteq> [] then 58 # password u else [])) else None),
      l_host = or_null (host u), l_port = or_null (port u), l_hostname = or_null (hostname u),
      l_hash = or_null (hash u), l_search = or_null (search u),
      l_query = parsed_query parseQueryString (if search u \<noteq> [] then Some (drop 1 (search u)) else None),
      l_pathname = or_null (pathname u), l_path = Some (pathname u @ search u), l_href = text\<rparr>"

text \<open>The host up to the first slash, and the rest from it.\<close>

definition loose_host :: "jsstr \<Rightarrow> jsstr \<times> jsstr" where
  "loose_host rest = (case index_of_char rest 47 of None \<Rightarrow> (rest, []) | Some i \<Rightarrow> (take i rest, drop i rest))"

text \<open>What stands before the first occurrence of a character, and the rest from it.\<close>

definition cut_at :: "code_unit \<Rightarrow> jsstr \<Rightarrow> jsstr option \<times> jsstr" where
  "cut_at c rest = (case index_of_char rest c of None \<Rightarrow> (None, rest) | Some i \<Rightarrow> (Some (drop i rest), take i rest))"

definition parse_loose :: "jsstr \<Rightarrow> bool \<Rightarrow> bool \<Rightarrow> legacy" where
  "parse_loose text slashesDenoteHost parseQueryString =
     (let (proto, r0) = (case split_scheme text of None \<Rightarrow> (None, text) | Some (s, r) \<Rightarrow> (Some (to_lower s @ [58]), r));
          authority = (starts_with r0 [47, 47] \<and> (proto \<noteq> None \<or> slashesDenoteHost));
          bare = (\<not> authority \<and> proto = None \<and> slashesDenoteHost);
          (hst, r1) = (if authority then (let (h, r) = loose_host (drop 2 r0) in (Some h, r))
                       else if bare then (let (h, r) = loose_host r0 in (Some h, r)) else (None, r0));
          (hsh, r2) = cut_at 35 r1; (sea, r3) = cut_at 63 r2;
          pth = or_null r3; hn = (case hst of None \<Rightarrow> None | Some h \<Rightarrow> or_null h)
      in \<lparr>l_protocol = proto,
          l_slashes = (if proto = None \<and> hst = None then None else Some (authority \<or> proto \<noteq> None)),
          l_auth = None, l_host = hn, l_port = None, l_hostname = hn, l_hash = hsh, l_search = sea,
          l_query = parsed_query parseQueryString (map_option (drop 1) sea), l_pathname = pth,
          l_path = (case pth of None \<Rightarrow> sea | Some p \<Rightarrow> Some (p @ text_of sea)), l_href = text\<rparr>)"

definition parse_legacy :: "jsstr \<Rightarrow> bool \<Rightarrow> bool \<Rightarrow> legacy option" where
  "parse_legacy text parseQueryString slashesDenoteHost =
     (if has_scheme text
      then map_option (parse_url_text text parseQueryString) (new_url text None)
      else Some (parse_loose text slashesDenoteHost parseQueryString))"

section \<open>Formatting\<close>

text \<open>\<open>out.replace(/([^:]\<backslash>/)\<backslash>/+/g, "$1")\<close>.\<close>

function collapse :: "jsstr \<Rightarrow> jsstr" where
  "collapse [] = []"
| "collapse (c # s) =
     (if c \<noteq> 58 \<and> starts_with s [47, 47] then c # 47 # collapse (dropWhile (\<lambda>d. d = 47) s)
      else c # collapse s)"
  by pat_completeness auto
termination
  by (relation "measure length") (auto simp: le_imp_less_Suc length_dropWhile_le)

declare collapse.simps(2) [simp del]

definition table_values :: "header \<Rightarrow> (jsstr \<times> qvalue) list" where
  "table_values t = map (\<lambda>(k, v). (k, case v of One s \<Rightarrow> QText s | Many ss \<Rightarrow> QList ss)) t"

text \<open>\<open>input.search || (input.query ? "?" + ... : "")\<close>; encoding the query may throw.\<close>

definition format_search :: "legacy \<Rightarrow> jsstr option" where
  "format_search o' =
     (if text_of (l_search o') \<noteq> [] then l_search o'
      else case l_query o' of
          NoQuery \<Rightarrow> Some []
        | QueryText q \<Rightarrow> Some (if q = [] then [] else 63 # q)
        | QueryTable t \<Rightarrow> map_option ((#) 63) (qs_stringify (table_values t) [38] [61]))"

definition format_legacy :: "legacy \<Rightarrow> jsstr option" where
  "format_legacy o' =
     (let auth = (if text_of (l_auth o') \<noteq> [] then text_of (l_auth o') @ [64] else []);
          hst = (if text_of (l_host o') \<noteq> [] then text_of (l_host o')
                 else if text_of (l_hostname o') \<noteq> []
                 then text_of (l_hostname o') @ (if text_of (l_port o') \<noteq> [] then 58 # text_of (l_port o') else [])
                 else [])
      in map_option (\<lambda>sea. collapse (text_of (l_protocol o') @ (if hst \<noteq> [] then [47, 47] else []) @
             auth @ hst @ text_of (l_pathname o') @ sea @ text_of (l_hash o')))
           (format_search o'))"

text \<open>\<open>resolve\<close>: against a base without a scheme, the scheme \<open>resolve://\<close> stands in.\<close>

definition strip_resolve :: "jsstr \<Rightarrow> jsstr" where
  "strip_resolve s = (if starts_with s (js ''resolve://'') then drop 10 s else s)"

definition resolve_url :: "jsstr \<Rightarrow> jsstr \<Rightarrow> jsstr option" where
  "resolve_url base to =
     (case new_url base (Some (js ''resolve://'')) of
        None \<Rightarrow> None
      | Some b \<Rightarrow> map_option (\<lambda>u. strip_resolve (href u)) (new_url to (Some (href b))))"

section \<open>Options of a request\<close>

record http_options =
  o_protocol :: jsstr
  o_hostname :: jsstr
  o_hash :: jsstr
  o_search :: jsstr
  o_pathname :: jsstr
  o_path :: jsstr
  o_href :: jsstr
  o_port :: "jsstr option"
  o_auth :: "jsstr option"

text \<open>
  \<open>urlToHttpOptions\<close>; the port is kept as the text \<open>Number\<close> is applied to. \<open>None\<close> is the
  \<open>URIError\<close> of \<open>decodeURIComponent\<close>.
\<close>

definition url_to_http_options :: "url \<Rightarrow> http_options option" where
  "url_to_http_options u =
     (let opts = \<lparr>o_protocol = protocol u, o_hostname = hostname u, o_hash = hash u, o_search = search u,
            o_pathname = pathname u, o_path = pathname u @ search u, o_href = href u,
            o_port = or_null (port u), o_auth = None\<rparr>
      in if username u \<noteq> [] \<or> password u \<noteq> []
         then (case (decode_uri (username u), decode_uri (password u)) of
                 (Some n, Some p) \<Rightarrow> Some (opts\<lparr>o_auth := Some (n @ 58 # p)\<rparr>)
               | _ \<Rightarrow> None)
         else Some opts)"

section \<open>File URLs\<close>

text \<open>The characters that \<open>encodeURI\<close> leaves and \<open>encodeURIComponent\<close> escapes.\<close>

definition uri_reserved :: "code_unit \<Rightarrow> bool" where
  "uri_reserved c \<longleftrightarrow> c \<in> {59, 47, 63, 58, 64, 38, 61, 43, 36, 44, 35}"

fun encode_whole :: "jsstr \<Rightarrow> jsstr option" where
  "encode_whole [] = Some []"
| "encode_whole (c # s) =
     (if uri_unreserved c \<or> uri_reserved c then map_option ((#) c) (encode_whole s)
      else if is_low c then None
      else if is_high c
      then (case s of
              [] \<Rightarrow> None
            | lo # r \<Rightarrow> if is_low lo then map_option ((@) (percents (encode_cp (pair_cp c lo)))) (encode_whole r) else None)
      else map_option ((@) (percents (encode_cp (unat c)))) (encode_whole s))"

definition path_to_file_url :: "jsstr \<Rightarrow> jsstr \<Rightarrow> url option" where
  "path_to_file_url cwd filepath =
     (case encode_whole (resolve cwd [filepath]) of
        None \<Rightarrow> None
      | Some t \<Rightarrow> new_url (js ''file://'' @ t) None)"

definition file_url_to_path :: "jsstr \<Rightarrow> jsstr option" where
  "file_url_to_path text =
     (case new_url text None of
        None \<Rightarrow> None
      | Some u \<Rightarrow> if protocol u \<noteq> js ''file:'' then None else decode_uri (pathname u))"

section \<open>Parsing and formatting\<close>

lemma or_null_empty [simp]: "text_of (or_null s) = s" "or_null s = None \<longleftrightarrow> s = []"
  by (simp_all add: or_null_def text_of_def)

lemma search_head: "parse_absolute v = Some p \<Longrightarrow> search p = [] \<or> hd (search p) = 63"
  by (auto simp: parse_absolute_def Let_def groups_ok_def split: option.splits prod.splits dest!: match_absolute_Some)

text \<open>The text that \<open>format\<close> makes of a parsed URL: its \<open>href\<close>, with runs of slashes reduced to one.\<close>

lemma format_parse:
  assumes "new_url v None = Some u" "host u \<noteq> []" "username u = [] \<longrightarrow> password u = []"
  shows "map_option format_legacy (parse_legacy v False sdh) = Some (Some (collapse (href u)))"
proof -
  have h: "has_scheme v" using assms(1) by (auto simp: new_url_def split: if_splits)
  then obtain p where p: "parse_absolute v = Some p" "u = apply_parsed p"
    using assms(1) by (auto simp: new_url_def)
  have se: "search u = [] \<or> hd (search u) = 63" using search_head [OF p(1)] by (cases p) (simp add: p(2) apply_parsed_def parsed.defs)
  have s: "format_search (parse_url_text v False u) = Some (search u)"
    using se by (cases "search u") (auto simp: format_search_def parse_url_text_def parsed_query_def or_null_def text_of_def)
  show ?thesis using h assms s
    by (cases u) (auto simp: parse_legacy_def format_legacy_def href_def format_url_def parse_url_text_def Let_def text_of_def
      or_null_def parsed.defs split: if_splits)
qed

section \<open>Paths and file URLs\<close>

lemma decode_whole: "encode_whole s = Some t \<Longrightarrow> decode_uri t = Some s"
proof (induction s arbitrary: t rule: encode_whole.induct)
  case (2 c s)
  show ?case
  proof (cases "uri_unreserved c \<or> uri_reserved c")
    case True
    moreover have "c \<noteq> 37" using True by (auto simp: uri_reserved_def dest: uri_unreserved_ascii)
    ultimately show ?thesis using 2 by (auto simp: decode_uri_unit)
  next
    case nu: False
    then have l: "\<not> is_low c" using "2.prems" by auto
    show ?thesis
    proof (cases "is_high c")
      case True
      then obtain lo r u where s: "s = lo # r" "is_low lo" "encode_whole r = Some u"
          "t = percents (encode_cp (pair_cp c lo)) @ u"
        using "2.prems" nu l by (auto split: list.splits if_splits)
      then have "decode_uri u = Some r" using "2.IH"(2) [OF nu l True s(1,2) s(3)] by blast
      then show ?thesis using scalar_pair [OF True s(2)] s by (simp add: decode_uri_percents)
    next
      case False
      then obtain u where u: "encode_whole s = Some u" "t = percents (encode_cp (unat c)) @ u" using "2.prems" nu l by auto
      then have "decode_uri u = Some s" using "2.IH"(3) [OF nu l False] by blast
      then show ?thesis using scalar_unit [OF l False] u by (simp add: decode_uri_percents)
    qed
  qed
qed auto

text \<open>A character that is not escaped ends a piece of the encoded text.\<close>

lemma encode_whole_sep:
  "encode_whole (s @ 47 # r) = Some t \<Longrightarrow> \<exists>a b. encode_whole s = Some a \<and> encode_whole r = Some b \<and> t = a @ 47 # b"
proof (induction s arbitrary: t rule: encode_whole.induct)
  case 1
  then show ?case by (auto simp: uri_reserved_def)
next
  case (2 c s)
  have nl: "\<not> is_low 47" by code_simp
  show ?case
  proof (cases "uri_unreserved c \<or> uri_reserved c")
    case True
    then obtain u where "encode_whole (s @ 47 # r) = Some u" "t = c # u" using "2.prems" by auto
    then show ?thesis using True "2.IH"(1) [OF True] by fastforce
  next
    case nu: False
    then have l: "\<not> is_low c" using "2.prems" by auto
    show ?thesis
    proof (cases "is_high c")
      case True
      then obtain lo q where s: "s = lo # q" "is_low lo" using "2.prems" nu l nl by (cases s) (auto split: if_splits)
      then obtain u where "encode_whole (q @ 47 # r) = Some u" "t = percents (encode_cp (pair_cp c lo)) @ u"
        using "2.prems" nu l True by auto
      then show ?thesis using "2.IH"(2) [OF nu l True s(1,2)] s nu l True by fastforce
    next
      case False
      then obtain u where "encode_whole (s @ 47 # r) = Some u" "t = percents (encode_cp (unat c)) @ u" using "2.prems" nu l by auto
      then show ?thesis using "2.IH"(3) [OF nu l False] nu l False by fastforce
    qed
  qed
qed

lemma encode_whole_join:
  "encode_whole (join_with [47] ps) = Some t \<Longrightarrow>
     \<exists>qs. list_all2 (\<lambda>p q. encode_whole p = Some q) ps qs \<and> t = join_with [47] qs"
proof (induction ps arbitrary: t)
  case (Cons p ps)
  show ?case
  proof (cases ps)
    case Nil
    then show ?thesis using Cons.prems by (intro exI [of _ "[t]"]) simp
  next
    case (Cons p' ps')
    then obtain a b where "encode_whole p = Some a" "encode_whole (join_with [47] ps) = Some b" "t = a @ 47 # b"
      using Cons.prems encode_whole_sep [of p "join_with [47] ps" t] by auto
    moreover from this Cons.IH obtain qs where "list_all2 (\<lambda>p q. encode_whole p = Some q) ps qs" "b = join_with [47] qs" by blast
    ultimately show ?thesis using Cons by (intro exI [of _ "a # qs"]) (auto simp: list_all2_Cons1)
  qed
qed simp

lemma percents_marks: "c \<in> set (percents bs) \<Longrightarrow> c \<notin> {47, 63, 35}"
proof -
  have "list_all (\<lambda>d. hex_digit d \<notin> {47, 63, 35}) [0..<16]" by code_simp
  then have h: "hex_digit d \<notin> {47, 63, 35}" if "d < 16" for d using that by (auto simp: list_all_iff)
  show "c \<in> set (percents bs) \<Longrightarrow> c \<notin> {47, 63, 35}"
    using h [OF byte_digits(1)] h [OF byte_digits(2)] by (fastforce simp: percents_def percent_byte_digits split: if_splits)
qed

lemma encode_whole_set: "encode_whole s = Some t \<Longrightarrow> c \<in> set t \<Longrightarrow> c \<in> {47, 63, 35} \<Longrightarrow> c \<in> set s"
proof (induction s arbitrary: t rule: encode_whole.induct)
  case (2 d s)
  note np = percents_marks [of c]
  show ?case
  proof (cases "uri_unreserved d \<or> uri_reserved d")
    case True
    then show ?thesis using "2.prems" "2.IH"(1) [OF True] by auto
  next
    case nu: False
    then have l: "\<not> is_low d" using "2.prems" by auto
    show ?thesis
    proof (cases "is_high d")
      case True
      then obtain lo r u where s: "s = lo # r" "is_low lo" "encode_whole r = Some u"
          "t = percents (encode_cp (pair_cp d lo)) @ u"
        using "2.prems" nu l by (auto split: list.splits if_splits)
      then show ?thesis using "2.IH"(2) [OF nu l True s(1,2) s(3)] "2.prems" np by auto
    next
      case False
      then obtain u where "encode_whole s = Some u" "t = percents (encode_cp (unat d)) @ u" using "2.prems" nu l by auto
      then show ?thesis using "2.IH"(3) [OF nu l False] "2.prems" np by auto
    qed
  qed
qed simp

lemma encode_whole_good:
  assumes "encode_whole p = Some q" "Path_Posix.good_part p"
  shows "Url_Core.good_part q"
proof -
  have d: "decode_uri q = Some p" by (rule decode_whole [OF assms(1)])
  have "decode_uri [46] = Some [46]" "decode_uri [46, 46] = Some [46, 46]" by (simp_all add: decode_uri_unit)
  then show ?thesis using d assms(2) encode_whole_set [OF assms(1), of 47]
    by (auto simp: Url_Core.good_part_def Path_Posix.good_part_def)
qed

text \<open>The path of an encoded path is the encoded path: encoding neither adds nor removes a separator.\<close>

lemma encode_whole_path:
  assumes "canonical p" "encode_whole p = Some t"
  shows "normalize_path t = t \<and> hd t = 47 \<and> t \<noteq> []"
proof -
  obtain ps where ps: "\<forall>x\<in>set ps. Path_Posix.good_part x" "p = 47 # join_with [47] ps" using assms(1) by (auto simp: canonical_def)
  obtain b where b: "encode_whole (join_with [47] ps) = Some b" "t = 47 # b"
    using encode_whole_sep [of "[]" "join_with [47] ps" t] assms(2) ps(2) by auto
  obtain qs where qs: "list_all2 (\<lambda>p q. encode_whole p = Some q) ps qs" "b = join_with [47] qs" using encode_whole_join [OF b(1)] by blast
  have "list_all Url_Core.good_part qs"
    using qs(1) ps(1) encode_whole_good by (induction rule: list_all2_induct) auto
  then show ?thesis using normalize_path_of [of qs False] by (simp add: path_of_def b(2) qs(2))
qed

lemma file_url_fields:
  assumes "canonical p" "encode_whole p = Some t" "set p \<inter> {63, 35} = {}"
  shows "new_url1 (js ''file://'' @ t) = Some (apply_parsed
    \<lparr>protocol = js ''file:'', hostname = [], port = [], username = [], password = [], host = [], pathname = t, search = [], hash = []\<rparr>)"
proof -
  have f: "js ''file://'' = js ''file'' @ 58 # 47 # 47 # []" by code_simp
  have sc: "scheme_ok (js ''file'')" "to_lower (js ''file'' @ [58]) = js ''file:''" "js ''file'' @ [58] = js ''file:''" "special (js ''file:'') = None"
    by code_simp+
  have g: "groups_ok (Some []) t [] []"
    using encode_whole_path [OF assms(1,2)] encode_whole_set [OF assms(2)] assms(3) by (auto simp: groups_ok_def)
  have m: "match_absolute (js ''file://'' @ t) = Some (js ''file:'', Some [], t, [], [])"
    using match_absolute_append [OF sc(1) g] by (simp add: f sc(3))
  have "parse_authority [] = ([], [], [], [])" by code_simp
  from parse_fields [OF m, of "js ''file:''" "[]" "[]" "[]" "[]" "[]"] this
  have p: "parse_absolute (js ''file://'' @ t) = Some \<lparr>protocol = js ''file:'', hostname = [], port = [], username = [],
      password = [], host = [], pathname = t, search = [], hash = []\<rparr>"
    using sc encode_whole_path [OF assms(1,2)] by (simp add: is_special_def host_text_def path_field_def to_lower_idem)
  then have "has_scheme (js ''file://'' @ t)"
    by (auto simp: has_scheme_def parse_absolute_def match_absolute_def split: option.splits)
  then show ?thesis by (simp add: new_url1_def p)
qed

text \<open>C40. A path survives the file URL: the URL of a path has no host, and the path of its text is the resolved
  path, with blanks, percent signs and characters of any plane. (The path has no question mark and no number sign.)\<close>

theorem file_url_round_trip:
  assumes "starts_with cwd [47]" "path_to_file_url cwd p = Some u" "set (resolve cwd [p]) \<inter> {63, 35} = {}"
  shows "file_url_to_path (href u) = Some (resolve cwd [p]) \<and> host u = [] \<and> search u = [] \<and> hash u = []"
proof -
  have c: "canonical (resolve cwd [p])" by (rule resolve_canonical [OF assms(1)])
  obtain t where t: "encode_whole (resolve cwd [p]) = Some t" "new_url (js ''file://'' @ t) None = Some u"
    using assms(2) by (auto simp: path_to_file_url_def split: option.splits)
  have n: "new_url1 v = new_url v None" for v by (simp add: new_url_def new_url1_def)
  note u = file_url_fields [OF c t(1) assms(3)]
  then have f: "protocol u = js ''file:''" "host u = []" "username u = []" "password u = []" "hostname u = []"
    "pathname u = t" "search u = []" "hash u = []"
    using t(2) by (auto simp: n apply_parsed_def parsed.defs)
  have "new_url1 (href u) = Some u" using u t(2) f by (intro href_again) (auto simp: n)
  then show ?thesis using decode_whole [OF t(1)] f by (simp add: file_url_to_path_def n)
qed

lemma file_url_round_trip_witness:
  "\<exists>u. path_to_file_url (js ''/home'') (js ''a b/../100%.txt'') = Some u \<and> href u = js ''file:/home/100%25.txt'' \<and>
     file_url_to_path (href u) = Some (js ''/home/100%.txt'')"
proof -
  have r: "resolve (js ''/home'') [js ''a b/../100%.txt''] = js ''/home/100%.txt''" by code_simp
  have e: "map_option href (path_to_file_url (js ''/home'') (js ''a b/../100%.txt'')) = Some (js ''file:/home/100%25.txt'')" by code_simp
  then obtain u where u: "path_to_file_url (js ''/home'') (js ''a b/../100%.txt'') = Some u" by auto
  have "starts_with (js ''/home'') [47] \<and> set (js ''/home/100%.txt'') \<inter> {63, 35} = {}" by code_simp
  then show ?thesis using file_url_round_trip [OF _ u] u e by (simp add: r)
qed

section \<open>What goes wrong\<close>

text \<open>A number sign in a file name becomes a fragment of the URL, and is lost on the way back.\<close>

lemma number_sign_lost:
  "(case path_to_file_url (js ''/'') (js ''/a#b'') of None \<Rightarrow> None | Some u \<Rightarrow> file_url_to_path (href u)) = Some (js ''/a'')"
  by code_simp

text \<open>Formatting a URL that was parsed with its query adds a question mark when there is no query, and the
  slashes of a URL without a host are lost.\<close>

lemma question_mark_added:
  "map_option format_legacy (parse_legacy (js ''http://h/p'') True False) = Some (Some (js ''http://h/p?''))"
  by code_simp

lemma file_slashes_lost:
  "map_option format_legacy (parse_legacy (js ''file:///p'') False False) = Some (Some (js ''file:/p''))"
  by code_simp

text \<open>Resolving against a path leaves the stand-in scheme in the result.\<close>

lemma resolve_scheme_left: "resolve_url (js ''/one/two'') (js ''three'') = Some (js ''resolve:/one/three'')"
  by code_simp

text \<open>Slashes of the query are collapsed too.\<close>

lemma query_collapsed:
  "map_option format_legacy (parse_legacy (js ''http://h/?u=a//b'') False False) = Some (Some (js ''http://h/?u=a/b''))"
  by code_simp

end
