(* ===== verification/Fetch.thy ===== *)
theory Fetch
  imports Http_Node Url_Core Json "HOL-Library.AList"
begin

text \<open>
  The global \<open>fetch\<close> of \<open>js/builtins/fetch.js\<close>, with its \<open>Headers\<close> and \<open>Response\<close>, over the client of
  \<open>js/builtins/http.js\<close> and \<open>https.js\<close>. Header names and values are strings; the names of a plain
  object are in the order of the object.
\<close>

section \<open>Headers\<close>

text \<open>The \<open>Map\<close> from the name in lower case to the value, in the order of insertion.\<close>

type_synonym headers = "(jsstr \<times> jsstr) list"

datatype headers_init = NoHeaders | HeadersOf headers | HeaderPairs headers | HeaderRecord headers

definition headers_set :: "jsstr \<Rightarrow> jsstr \<Rightarrow> headers \<Rightarrow> headers" where
  "headers_set n v h = AList.update (to_lower n) v h"

definition headers_get :: "jsstr \<Rightarrow> headers \<Rightarrow> jsstr option" where
  "headers_get n h = map_of h (to_lower n)"

definition headers_has :: "jsstr \<Rightarrow> headers \<Rightarrow> bool" where
  "headers_has n h \<longleftrightarrow> to_lower n \<in> fst ` set h"

definition headers_delete :: "jsstr \<Rightarrow> headers \<Rightarrow> headers" where
  "headers_delete n h = AList.delete (to_lower n) h"

fun init_entries :: "headers_init \<Rightarrow> headers" where
  "init_entries NoHeaders = []"
| "init_entries (HeadersOf h) = h"
| "init_entries (HeaderPairs ps) = ps"
| "init_entries (HeaderRecord ps) = ps"

definition new_headers :: "headers_init \<Rightarrow> headers" where
  "new_headers i = foldl (\<lambda>h p. headers_set (fst p) (snd p) h) [] (init_entries i)"

section \<open>The response\<close>

record fetch_response =
  fr_status :: "int option"
  fr_text :: jsstr
  fr_ok :: bool
  fr_headers :: headers
  fr_url :: jsstr
  fr_used :: bool
  fr_body :: bytes

text \<open>The second argument of the constructor. A status is \<open>None\<close> when it is undefined, \<open>Some None\<close> when it is \<open>NaN\<close>.\<close>

record response_init =
  ri_status :: "int option option"
  ri_text :: jsstr
  ri_headers :: headers_init
  ri_url :: jsstr

definition make_response :: "bytes option \<Rightarrow> response_init \<Rightarrow> fetch_response" where
  "make_response b i =
     (let st = (case ri_status i of None \<Rightarrow> Some 200 | Some s \<Rightarrow> s)
      in \<lparr>fr_status = st, fr_text = ri_text i, fr_ok = (case st of None \<Rightarrow> False | Some n \<Rightarrow> 200 \<le> n \<and> n < 300),
          fr_headers = new_headers (ri_headers i), fr_url = ri_url i, fr_used = False,
          fr_body = (case b of None \<Rightarrow> [] | Some d \<Rightarrow> d)\<rparr>)"

definition response_text :: "fetch_response \<Rightarrow> fetch_response \<times> jsstr" where
  "response_text r = (r\<lparr>fr_used := True\<rparr>, decode_utf8 (fr_body r))"

text \<open>\<open>None\<close> is the \<open>SyntaxError\<close> of \<open>JSON.parse\<close>.\<close>

definition response_json :: "fetch_response \<Rightarrow> fetch_response \<times> json option" where
  "response_json r = (r\<lparr>fr_used := True\<rparr>, json_parse (decode_utf8 (fr_body r)))"

definition array_buffer :: "fetch_response \<Rightarrow> fetch_response \<times> bytes" where
  "array_buffer r = (r\<lparr>fr_used := True\<rparr>, fr_body r)"

definition clone_response :: "fetch_response \<Rightarrow> fetch_response" where
  "clone_response r = make_response (Some (fr_body r))
     \<lparr>ri_status = Some (fr_status r), ri_text = [], ri_headers = HeadersOf (fr_headers r), ri_url = []\<rparr>"

section \<open>The request\<close>

text \<open>What a body can be; any other value counts by its text.\<close>

datatype body_init = NoBody | TextBody jsstr | BytesBody bytes | ParamsBody entries

text \<open>\<open>normalizeBody\<close>, as the bytes that a socket writes for it. The outer \<open>None\<close> is the \<open>URIError\<close> of the parameters.\<close>

fun normalize_body :: "body_init \<Rightarrow> bytes option option" where
  "normalize_body NoBody = Some None"
| "normalize_body (TextBody s) = Some (Some (encode_utf8 s))"
| "normalize_body (BytesBody b) = Some (Some b)"
| "normalize_body (ParamsBody es) = map_option (\<lambda>t. Some (encode_utf8 t)) (params_text es)"

record fetch_init =
  fi_method :: jsstr
  fi_headers :: headers_init
  fi_body :: body_init

text \<open>Assignment to an object: the setter \<open>__proto__\<close> ignores a string.\<close>

definition put_field :: "jsstr \<Rightarrow> jsstr \<Rightarrow> header \<Rightarrow> header" where
  "put_field n v h = (if n = js ''__proto__'' then h else obj_put n (One v) h)"

definition header_object :: "headers_init \<Rightarrow> header" where
  "header_object i = foldl (\<lambda>h p. put_field (fst p) (snd p) h) [] (init_entries i)"

text \<open>
  \<open>Number\<close> of a port: whole numbers, with the prefixes of the radix. \<open>NaN\<close> counts as no port, and so
  do fractions, signs and exponents here.
\<close>

definition radix_number :: "nat \<Rightarrow> jsstr \<Rightarrow> nat" where
  "radix_number r ds = (if ds \<noteq> [] \<and> list_all (is_digit_of r) ds then digits_value r ds else 0)"

definition port_of_text :: "jsstr \<Rightarrow> nat" where
  "port_of_text s =
     (let t = trim s; p = to_lower (take 2 t)
      in if p = js ''0x'' then radix_number 16 (drop 2 t) else if p = js ''0o'' then radix_number 8 (drop 2 t)
         else if p = js ''0b'' then radix_number 2 (drop 2 t) else radix_number 10 t)"

definition fetch_port :: "url \<Rightarrow> nat" where
  "fetch_port u = (if port u \<noteq> [] then port_of_text (port u) else if protocol u = js ''https:'' then 443 else 80)"

text \<open>
  The options for \<open>transport.request\<close>: \<open>https.request\<close> demands a build with TLS and then calls
  \<open>http.request\<close>, which is not given the protocol. \<open>None\<close> is a rejected promise.
\<close>

definition fetch_request :: "bool \<Rightarrow> url \<Rightarrow> fetch_init \<Rightarrow> client_options option" where
  "fetch_request tls u i =
     (case normalize_body (fi_body i) of
        None \<Rightarrow> None
      | Some b \<Rightarrow>
          (let h = header_object (fi_headers i);
               h' = (case b of None \<Rightarrow> h
                 | Some d \<Rightarrow> if map_of h (js ''content-length'') = None
                     then put_field (js ''content-length'') (dec (length d)) h else h)
           in if protocol u = js ''https:'' \<and> \<not> tls then None
              else Some \<lparr>co_hostname = hostname u, co_host = [], co_port = fetch_port u, co_https = False,
                co_path = or_default (pathname u) [47] @ search u, co_method = or_default (fi_method i) (js ''GET''),
                co_headers = h', co_body = (case b of None \<Rightarrow> [] | Some d \<Rightarrow> d)\<rparr>))"

definition fetch_result :: "url \<Rightarrow> response \<Rightarrow> fetch_response" where
  "fetch_result u r = make_response (Some (r_body r))
     \<lparr>ri_status = Some (r_status r), ri_text = r_reason r, ri_headers = HeaderRecord (r_headers r), ri_url = href u\<rparr>"

text \<open>\<open>fetch\<close>: what it writes and, from what the connection delivers, how its promise ends.\<close>

definition fetch_run :: "bool \<Rightarrow> url \<Rightarrow> fetch_init \<Rightarrow> client_event list \<Rightarrow> (bytes list \<times> fetch_response option) option" where
  "fetch_run tls u i es = map_option (\<lambda>q. (client_writes q,
     case snd (foldl fetch_step ([], Waiting) es) of Response r \<Rightarrow> Some (fetch_result u r) | _ \<Rightarrow> None)) (fetch_request tls u i)"

section \<open>Headers are a map without case\<close>

lemma headers_distinct: "distinct (map fst h) \<Longrightarrow> distinct (map fst (headers_set n v h))"
  by (simp add: headers_set_def distinct_update)

lemma get_set: "headers_get m (headers_set n v h) = (if to_lower m = to_lower n then Some v else headers_get m h)"
  by (simp add: headers_get_def headers_set_def update_conv')

lemma get_delete: "headers_get m (headers_delete n h) = (if to_lower m = to_lower n then None else headers_get m h)"
  by (simp add: headers_get_def headers_delete_def delete_conv')

lemma has_get: "headers_has n h \<longleftrightarrow> headers_get n h \<noteq> None"
  by (simp add: headers_has_def headers_get_def map_of_eq_None_iff)

lemma new_headers_get:
  "headers_get n (new_headers i) = map_of (rev (map (\<lambda>p. (to_lower (fst p), snd p)) (init_entries i))) (to_lower n)"
proof -
  have "headers_get n (foldl (\<lambda>h p. headers_set (fst p) (snd p) h) h0 ps) =
      (case map_of (rev (map (\<lambda>p. (to_lower (fst p), snd p)) ps)) (to_lower n) of None \<Rightarrow> headers_get n h0 | Some v \<Rightarrow> Some v)" for h0 ps
    by (induction ps arbitrary: h0) (auto simp: get_set map_add_Some_iff map_add_def split: option.split)
  then show ?thesis by (simp add: new_headers_def headers_get_def split: option.split)
qed

section \<open>From fetch to fetch\<close>

lemma map_of_obj_put: "index_key k = None \<Longrightarrow> map_of (obj_put k v h) m = (if m = k then Some v else map_of h m)"
proof (cases "k \<in> fst ` set h")
  case True
  have "map_of (map (\<lambda>p. if fst p = k then (k, v) else p) h) m = (if m = k then map_option (\<lambda>_. v) (map_of h k) else map_of h m)"
    by (induction h) (simp_all, auto)
  moreover have "map_of h k \<noteq> None" using True by (simp add: map_of_eq_None_iff)
  ultimately show ?thesis using True by (auto simp: obj_put_def)
next
  case False
  assume "index_key k = None"
  moreover have "map_of h k = None" using False by (simp add: map_of_eq_None_iff)
  ultimately show ?thesis using obj_put_new [of k h v] False by (simp add: map_add_def split: option.split)
qed

lemma sub_body: "length H = n \<Longrightarrow> sub_bytes (H @ b) (Some (int n)) (Some (int n + int (length b))) = b"
  by (simp add: sub_bytes_def rel_index_def nat_add_distrib)

text \<open>A request whose \<open>content-length\<close> is that of its body, or that has neither, is read back with its body.\<close>

lemma parse_with_length:
  assumes "list_all is_upper (q_method q)" "target_ok (q_path q)" "list_all field_ok (request_pairs q)"
    "distinct (map fst (request_pairs q))" "node_length (request_pairs q) = Some (int (length (co_body q)))"
  shows "map_option (\<lambda>x. (p_method x, p_url x, p_headers x, p_body x)) (parse_request (sent q)) =
    Some (q_method q, q_path q, request_pairs q, co_body q)"
proof -
  let ?ls = "request_head_lines q" let ?H = "encode_utf8 (line_block ?ls @ crlf)"
  have "13 \<notin> set (q_method q)" "13 \<notin> set (q_path q)"
    using assms(1,2) by (auto simp: list_all_iff is_upper_def target_ok_def is_space_def)
  then have "header_line_ok (request_text (q_method q) (q_path q))" by (auto simp: header_line_ok_def request_text_def js_def)
  then have l: "?ls \<noteq> []" "list_all header_line_ok ?ls"
    using assms(3) plain_line_ok by (auto simp: request_head_lines_def list_all_iff)
  have "length ?H = head_size ?ls + 4" by (rule head_length4 [OF l])
  note b = sub_body [OF this, of "co_body q"]
  show ?thesis
    using parse_block [of "q_method q" "q_path q" "request_pairs q" "co_body q"] assms b
    by (simp add: sent_text flip: request_head_lines_def)
qed

lemma fetch_length:
  assumes "fetch_request tls u i = Some q" "map_of (header_object (fi_headers i)) (js ''content-length'') = None"
  shows "node_length (request_pairs q) = Some (int (length (co_body q)))"
proof -
  have n: "js ''content-length'' \<noteq> js ''__proto__''" "index_key (js ''content-length'') = None" by code_simp+
  have "map_of (request_pairs q) (js ''content-length'') = map_of (co_headers q) (js ''content-length'')"
    using reply_names by (simp add: request_pairs_def)
  moreover have "map_of (co_headers q) (js ''content-length'') = (if \<exists>d. normalize_body (fi_body i) = Some (Some d)
      then Some (One (dec (length (co_body q)))) else None) \<and> ((\<nexists>d. normalize_body (fi_body i) = Some (Some d)) \<longrightarrow> co_body q = [])"
    using assms by (auto simp: fetch_request_def Let_def put_field_def n map_of_obj_put split: option.splits if_splits)
  ultimately show ?thesis by (auto simp: node_length_def hget_def parse_int_dec dec_digits)
qed

lemma fetch_receives:
  assumes "response_sound r" "concat cs = concat (snd (finish False r))"
  shows "snd (foldl fetch_step ([], Waiting) (map Chunk cs @ [End])) = Response
    \<lparr>r_status = Some (int (statusCode r)), r_reason = reason_of r,
     r_headers = map (\<lambda>p. (fst p, hval_str (snd p))) (reply_pairs (length (concat (out_chunks r))) @ out_headers r),
     r_body = concat (out_chunks r)\<rparr>"
proof -
  have "foldl fetch_step (raw, Waiting) (map Chunk cs) = (raw @ concat cs, Waiting)" for raw
    by (induction cs arbitrary: raw) simp_all
  then show ?thesis using response_read [OF assms(1)] assms(2) by simp
qed

lemma headers_of_fields:
  assumes "list_all field_ok ps" "distinct (map fst ps)" "p \<in> set ps"
  shows "headers_get (fst p) (new_headers (HeaderRecord (map (\<lambda>p. (fst p, hval_str (snd p))) ps))) = Some (hval_str (snd p))"
proof -
  have low: "to_lower (fst x) = fst x" if "x \<in> set ps" for x
  proof -
    have "field_ok x" using assms(1) that by (simp add: list_all_iff)
    then show ?thesis by (auto simp: name_ok_def elim!: field_okE)
  qed
  let ?e = "map (\<lambda>p. (fst p, hval_str (snd p))) ps"
  have e: "map (\<lambda>p. (to_lower (fst p), snd p)) ?e = ?e" using low by simp
  have "distinct (map fst (rev ?e))" using assms(2) by (simp add: o_def rev_map [symmetric])
  moreover have "(fst p, hval_str (snd p)) \<in> set (rev ?e)" using assms(3) by force
  ultimately have "map_of (rev ?e) (fst p) = Some (hval_str (snd p))" by (rule map_of_is_SomeI)
  then show ?thesis unfolding new_headers_get init_entries.simps e low [OF assms(3)] .
qed

text \<open>C9. 
  What fetch sends is what the server of the library gets, and what the server answers is what the
  response of fetch holds. The request arrives with the method, the path with the query, the headers and
  the whole body, also an empty one; and however the network cuts the answer, once the connection ends
  the promise resolves with the status, the reason, every header and the body. (The method is in
  capitals, the path has no white space and the headers are plain, without a length of the program's own.)
\<close>

theorem fetch_end_to_end:
  assumes "fetch_request tls u i = Some q" "map_of (header_object (fi_headers i)) (js ''content-length'') = None"
    and "list_all is_upper (q_method q)" "target_ok (co_path q)" "list_all field_ok (request_pairs q)"
      "distinct (map fst (request_pairs q))"
    and "response_sound r" "concat cs = concat (snd (finish False r))"
  shows "map_option (\<lambda>x. (p_method x, p_url x, p_headers x, p_body x)) (parse_request (sent q)) =
      Some (q_method q, or_default (pathname u) [47] @ search u, request_pairs q,
        case normalize_body (fi_body i) of Some (Some d) \<Rightarrow> d | _ \<Rightarrow> []) \<and>
    (\<exists>a. fetch_run tls u i (map Chunk cs @ [End]) = Some (client_writes q, Some a) \<and>
      fr_status a = Some (int (statusCode r)) \<and> fr_ok a = (200 \<le> statusCode r \<and> statusCode r < 300) \<and>
      fr_text a = reason_of r \<and> fr_url a = href u \<and> snd (array_buffer a) = concat (out_chunks r) \<and>
      (\<forall>p\<in>set (out_headers r). headers_get (fst p) (fr_headers a) = Some (hval_str (snd p))))"
proof -
  have q: "co_path q = or_default (pathname u) [47] @ search u"
    "co_body q = (case normalize_body (fi_body i) of Some (Some d) \<Rightarrow> d | _ \<Rightarrow> [])"
    using assms(1) by (auto simp: fetch_request_def Let_def split: option.splits if_splits)
  have pth: "q_path q = co_path q" by (simp add: q_path_def q(1) or_default_def)
  note request = parse_with_length [OF assms(3) _ assms(5,6) fetch_length [OF assms(1,2)]]
  define a where "a = fetch_result u \<lparr>r_status = Some (int (statusCode r)), r_reason = reason_of r,
     r_headers = map (\<lambda>p. (fst p, hval_str (snd p))) (sent_headers r), r_body = concat (out_chunks r)\<rparr>"
  have run: "fetch_run tls u i (map Chunk cs @ [End]) = Some (client_writes q, Some a)"
    using fetch_receives [OF assms(7,8)] sent_headers_sound(1) [OF assms(7)] by (simp add: fetch_run_def assms(1) a_def)
  have "headers_get (fst p) (fr_headers a) = Some (hval_str (snd p))" if "p \<in> set (out_headers r)" for p
    using headers_of_fields [OF sent_headers_sound(2,3) [OF assms(7)], of p] that sent_headers_sound(1) [OF assms(7)]
    by (simp add: a_def fetch_result_def make_response_def)
  then show ?thesis using request run assms(4) pth q
    by (auto simp: a_def fetch_result_def make_response_def array_buffer_def)
qed

definition sample_init :: fetch_init where
  "sample_init = \<lparr>fi_method = js ''POST'', fi_headers = HeaderPairs [(js ''x-a'', js ''1'')], fi_body = TextBody (js ''hi'')\<rparr>"

lemma fetch_end_to_end_witness:
  "\<exists>u q. new_url1 (js ''http://h:8080/p?q=1'') = Some u \<and> fetch_request False u sample_init = Some q \<and>
     map_option p_body (parse_request (sent q)) = Some [104, 105] \<and>
     map_option p_url (parse_request (sent q)) = Some (js ''/p?q=1'') \<and>
     (\<exists>a. fetch_run False u sample_init [Chunk (concat (snd (finish False sample_response))), End] =
        Some (client_writes q, Some a) \<and> fr_status a = Some 404 \<and> \<not> fr_ok a \<and> fr_body a = [111, 104, 105])"
proof -
  let ?u = "js ''http://h:8080/p?q=1''"
  have 0: "(case new_url1 ?u of None \<Rightarrow> False | Some u \<Rightarrow> pathname u = js ''/p'' \<and> search u = js ''?q=1'' \<and>
      (case fetch_request False u sample_init of None \<Rightarrow> False | Some q \<Rightarrow>
        list_all is_upper (q_method q) \<and> target_ok (co_path q) \<and> list_all field_ok (request_pairs q) \<and>
        distinct (map fst (request_pairs q))))" by code_simp
  then obtain u q where u: "new_url1 ?u = Some u" "fetch_request False u sample_init = Some q"
    "pathname u = js ''/p''" "search u = js ''?q=1''" "list_all is_upper (q_method q)" "target_ok (co_path q)"
    "list_all field_ok (request_pairs q)" "distinct (map fst (request_pairs q))"
    by (auto split: option.splits)
  have 1: "map_of (header_object (fi_headers sample_init)) (js ''content-length'') = None" by code_simp
  have 2: "response_sound sample_response" "statusCode sample_response = 404" "out_chunks sample_response = [[111], [104, 105]]"
    "normalize_body (fi_body sample_init) = Some (Some [104, 105])" "or_default (js ''/p'') [47] @ js ''?q=1'' = js ''/p?q=1''"
    by code_simp+
  from fetch_end_to_end [OF u(2) 1 u(5-8) 2(1), of "[concat (snd (finish False sample_response))]"]
  show ?thesis using u(1-4) 2(2-5) by (auto simp: array_buffer_def)
qed

section \<open>What goes wrong\<close>

text \<open>A request to an https URL goes out over the plain connection of http.\<close>

lemma https_in_plain:
  "map_option fst (fetch_run True (u\<lparr>protocol := js ''https:''\<rparr>) i es) = map_option fst (fetch_run True (u\<lparr>protocol := js ''http:''\<rparr>) i es)"
  by (auto simp: fetch_run_def fetch_request_def client_writes_def client_head_def target_host_def Let_def split: option.splits)

text \<open>The \<open>host\<close> header leaves out the port.\<close>

lemma host_without_port: "fetch_request tls u i = Some q \<Longrightarrow> hostname u \<noteq> [] \<Longrightarrow> hd (request_pairs q) = (js ''host'', One (hostname u))"
  by (auto simp: fetch_request_def request_pairs_def target_host_def or_default_def Let_def split: option.splits if_splits)

text \<open>A length that the program gives with capitals is not seen, and the request has two.\<close>

lemma two_lengths:
  "(case new_url1 (js ''http://h/'') of None \<Rightarrow> None
    | Some u \<Rightarrow> map_option (\<lambda>q. map fst (co_headers q)) (fetch_request False u
        \<lparr>fi_method = [], fi_headers = HeaderPairs [(js ''Content-Length'', js ''2'')], fi_body = TextBody (js ''hi'')\<rparr>)) =
   Some [js ''Content-Length'', js ''content-length'']"
  by code_simp

text \<open>A copy of a response has neither its URL nor its reason.\<close>

lemma clone_forgets: "fr_url (clone_response r) = [] \<and> fr_text (clone_response r) = []"
  by (simp add: clone_response_def make_response_def Let_def)

text \<open>A body can be read again after it has been used.\<close>

lemma read_again: "snd (response_text (fst (response_text r))) = snd (response_text r)"
  by (simp add: response_text_def)

end
