(* ===== verification/Fs_Async.thy ===== *)
theory Fs_Async
  imports Fs_Service
begin

text \<open>
  The asynchronous operations of \<open>js/internal/fs-core.js\<close>. Reading and writing go through the owner
  service by the client of \<open>Fs_Service\<close>; the other operations act on the file system at once. An
  append reads in the process of the caller and writes through the service, and other operations may
  take place in between.
\<close>

section \<open>The operations\<close>

definition read_file_async :: "jsstr \<Rightarrow> jsstr \<Rightarrow> 'w cio \<Rightarrow> js_error \<Rightarrow> nat \<Rightarrow> jsstr \<Rightarrow>
    fs_state \<times> 'w \<Rightarrow> (fs_state \<times> 'w) \<times> (js_error + bytes)" where
  "read_file_async ccwd scwd C lost n path x = client_readFile ccwd scwd C lost n path None x"

definition read_text_file_async :: "jsstr \<Rightarrow> jsstr \<Rightarrow> 'w cio \<Rightarrow> js_error \<Rightarrow> nat \<Rightarrow> jsstr \<Rightarrow>
    fs_state \<times> 'w \<Rightarrow> (fs_state \<times> 'w) \<times> (js_error + jsstr)" where
  "read_text_file_async ccwd scwd C lost n path x =
     (case read_file_async ccwd scwd C lost n path x of (y, r) \<Rightarrow> (y, map_sum id decode_utf8 r))"

definition write_file_async :: "jsstr \<Rightarrow> jsstr \<Rightarrow> 'w cio \<Rightarrow> js_error \<Rightarrow> nat \<Rightarrow> jsstr \<Rightarrow> fdata \<Rightarrow>
    fs_state \<times> 'w \<Rightarrow> (fs_state \<times> 'w) \<times> (js_error + unit)" where
  "write_file_async ccwd scwd C lost n path d x =
     (case to_ab C d of Inl e \<Rightarrow> (x, Inl e) | Inr b \<Rightarrow> client_writeFile ccwd scwd C lost n path b None x)"

definition stat_async :: "jsstr \<Rightarrow> jsstr \<Rightarrow> 'w cio \<Rightarrow> js_error \<Rightarrow> nat \<Rightarrow> jsstr \<Rightarrow>
    fs_state \<times> 'w \<Rightarrow> (fs_state \<times> 'w) \<times> ((js_error + unit) + json)" where
  "stat_async ccwd scwd C lost n path x = client_json ''stat'' ccwd scwd C lost n path None x"

definition readdir_async :: "jsstr \<Rightarrow> jsstr \<Rightarrow> 'w cio \<Rightarrow> js_error \<Rightarrow> nat \<Rightarrow> jsstr \<Rightarrow>
    fs_state \<times> 'w \<Rightarrow> (fs_state \<times> 'w) \<times> ((js_error + unit) + json)" where
  "readdir_async ccwd scwd C lost n path x = client_json ''readdir'' ccwd scwd C lost n path None x"

text \<open>\<open>appendFileAsync\<close> up to its request: what the file holds now, with the data behind it.\<close>

definition append_merged :: "'w cio \<Rightarrow> jsstr \<Rightarrow> fdata \<Rightarrow> 'w \<Rightarrow> js_error + bytes" where
  "append_merged C path d w =
     (case (if c_exists C path w then read_file C path w else Inr []) of
        Inl e \<Rightarrow> Inl e
      | Inr current \<Rightarrow> map_sum id (\<lambda>extra. current @ extra) (to_ab C d))"

text \<open>The whole call; \<open>between\<close> is what happens before the service handles the request.\<close>

definition append_file_async :: "jsstr \<Rightarrow> jsstr \<Rightarrow> 'w cio \<Rightarrow> js_error \<Rightarrow> nat \<Rightarrow> jsstr \<Rightarrow> fdata \<Rightarrow>
    (fs_state \<times> 'w \<Rightarrow> fs_state \<times> 'w) \<Rightarrow> fs_state \<times> 'w \<Rightarrow> (fs_state \<times> 'w) \<times> (js_error + unit)" where
  "append_file_async ccwd scwd C lost n path d between x =
     (case append_merged C path d (snd x) of
        Inl e \<Rightarrow> (x, Inl e)
      | Inr b \<Rightarrow> client_writeFile ccwd scwd C lost n path b None (between x))"

text \<open>The operations that do not ask the service.\<close>

definition mkdir_async :: "'w cio \<Rightarrow> jsstr \<Rightarrow> bool \<Rightarrow> fs_state \<times> 'w \<Rightarrow> (fs_state \<times> 'w) \<times> (js_error + unit)" where
  "mkdir_async C path rec x = (case fs_mkdir C path rec (snd x) of (w, r) \<Rightarrow> ((fst x, w), r))"

definition remove_async :: "'w cio \<Rightarrow> jsstr \<Rightarrow> fs_state \<times> 'w \<Rightarrow> (fs_state \<times> 'w) \<times> (js_error + unit)" where
  "remove_async C path x = (case c_remove C path (snd x) of (w, r) \<Rightarrow> ((fst x, w), r))"

definition rename_async :: "'w cio \<Rightarrow> jsstr \<Rightarrow> jsstr \<Rightarrow> fs_state \<times> 'w \<Rightarrow> (fs_state \<times> 'w) \<times> (js_error + unit)" where
  "rename_async C old new x = (case c_rename C old new (snd x) of (w, r) \<Rightarrow> ((fst x, w), r))"

section \<open>One append after the other, and two at a time\<close>

text \<open>
  Where a write through the service is done: the policy lets it through and the request fits.
\<close>

definition admits :: "jsstr \<Rightarrow> jsstr \<Rightarrow> permission \<Rightarrow> nat \<Rightarrow> jsstr \<Rightarrow> bytes \<Rightarrow> bool" where
  "admits ccwd path P n target b \<longleftrightarrow> target = request_path ccwd path None \<and> in_policy P target \<and> \<not> read_only P \<and>
     int (length b) \<le> max_read_bytes P \<and> n < 2 ^ 53 \<and> length b < 4294967296 \<and>
     (\<exists>msg. encode (fs_request n ''writeFile'' target) (Some b) = Inr msg)"

lemma admitted_write:
  assumes "starts_with ccwd [slash]" "starts_with scwd [slash]" "policy s = new_permission scwd rts q al ro"
    and "admits ccwd path (policy s) n target b"
  shows "fst (client_writeFile ccwd scwd C lost n path b None (s, w)) =
    (s\<lparr>totalOps := totalOps s + 1\<rparr>, fst (c_writeFile C target b w))"
proof -
  obtain msg where m: "encode (fs_request n ''writeFile'' target) (Some b) = Inr msg"
    and a: "target = request_path ccwd path None" "n < 2 ^ 53" "length b < 4294967296"
    and g: "in_policy (policy s) target" "\<not> read_only (policy s)" "\<not> int (length b) > max_read_bytes (policy s)"
    using assms(4) by (auto simp: admits_def)
  have "guarded_write C (policy s) target b w = (fst (c_writeFile C target b w), snd (c_writeFile C target b w))"
    unfolding guarded_write_def guarded_def using g by simp
  from write_through_service [OF assms(1-3) a(1) m a(2,3) this, where lost = lost] show ?thesis by simp
qed

text \<open>An append that nothing interrupts writes the file with the data at its end.\<close>

lemma append_alone:
  assumes "starts_with ccwd [slash]" "starts_with scwd [slash]" "policy s = new_permission scwd rts q al ro"
    and "append_merged C path d w = Inr b" "admits ccwd path (policy s) n target b"
  shows "fst (append_file_async ccwd scwd C lost n path d id (s, w)) =
    (s\<lparr>totalOps := totalOps s + 1\<rparr>, fst (c_writeFile C target b w))"
  using admitted_write [OF assms(1-3,5)] assms(4) by (simp add: append_file_async_def)

text \<open>
  Two appends to one file that overlap: both have read the file before either writes, so the second
  write puts its own data behind the old contents and the data of the first are lost, although both succeed.
\<close>

lemma append_lost:
  assumes "starts_with ccwd [slash]" "starts_with scwd [slash]" "policy s = new_permission scwd rts q al ro"
    and "append_merged C path d1 w = Inr (old @ b1)" "append_merged C path d2 w = Inr (old @ b2)"
    and "admits ccwd path (policy s) n target (old @ b1)" "admits ccwd path (policy s) m target (old @ b2)"
  shows "snd (fst (append_file_async ccwd scwd C lost m path d2
      (\<lambda>x. fst (append_file_async ccwd scwd C lost n path d1 id x)) (s, w))) =
    fst (c_writeFile C target (old @ b2) (fst (c_writeFile C target (old @ b1) w)))"
proof -
  let ?s = "s\<lparr>totalOps := totalOps s + 1\<rparr>"
  have p: "policy ?s = new_permission scwd rts q al ro" using assms(3) by simp
  have "admits ccwd path (policy ?s) m target (old @ b2)" using assms(7) by simp
  note second = admitted_write [OF assms(1,2) p this, where C = C and lost = lost]
  show ?thesis
    using second append_alone [OF assms(1-4,6), where lost = lost] assms(5) by (simp add: append_file_async_def [of _ _ _ _ m])
qed

lemma append_lost_example:
  "map_of (snd (fst (append_file_async (js ''/home'') (js ''/srv'') map_host no_entry 2 (js ''/data/a'') (DBuffer [3])
      (\<lambda>x. fst (append_file_async (js ''/home'') (js ''/srv'') map_host no_entry 1 (js ''/data/a'') (DBuffer [2]) id x))
      (demo_state, [(js ''/data/a'', [1])])))) (js ''/data/a'') = Some [1, 3]"
proof -
  have s: "starts_with (js ''/home'') [slash]" "starts_with (js ''/srv'') [slash]" by code_simp+
  have e: "policy demo_state = new_permission (js ''/srv'') (Some [js ''/data'']) None None None"
    by (simp add: demo_state_def demo_policy_def)
  have "in_policy demo_policy (js ''/data/a'')" "max_read_bytes demo_policy = 67108864" "\<not> read_only demo_policy"
    "js ''/data/a'' = request_path (js ''/home'') (js ''/data/a'') None" by code_simp+
  then have a: "admits (js ''/home'') (js ''/data/a'') (policy demo_state) n (js ''/data/a'') [1, x]" if "n < 10" for n x
    using request_fits [of n "''writeFile''" "js ''/data/a''" "Some [1, x]"] that by (simp add: admits_def demo_state_def)
  have m: "append_merged map_host (js ''/data/a'') (DBuffer [x]) [(js ''/data/a'', [1])] = Inr ([1] @ [x])" for x
    by (simp add: append_merged_def map_host_def read_file_def to_ab_def)
  show ?thesis
    using append_lost [OF s e m m, where n = 1 and m = 2 and target = "js ''/data/a''" and lost = no_entry] a [of 1] a [of 2]
    by (simp add: map_host_def)
qed

section \<open>Around the policy\<close>

text \<open>
  A removal does not ask for the policy: whatever it is, the primitive is called. So do the other operations, and the
  read of an append.
\<close>

lemma remove_ignores_policy: "snd (fst (remove_async C path (s, w))) = fst (c_remove C path w)"
  by (simp add: remove_async_def split: prod.split)

lemma rename_ignores_policy: "snd (fst (rename_async C old new (s, w))) = fst (c_rename C old new w)"
  by (simp add: rename_async_def split: prod.split)

section \<open>Reading what was written\<close>

text \<open>A text that is written through the service is read back through the service.\<close>

lemma text_through_service:
  assumes "starts_with ccwd [slash]" "starts_with scwd [slash]" "policy s = new_permission scwd rts q al ro"
    and "admits ccwd path (policy s) n target (encode_utf8 t)" "encode (fs_request m ''readFile'' target) None = Inr msg" "m < 2 ^ 53"
    and "c_str2ab C = encode_utf8"
    and "c_readFile C target (fst (c_writeFile C target (encode_utf8 t) w)) = Inr (encode_utf8 t)"
    and "fs_stat C target (fst (c_writeFile C target (encode_utf8 t) w)) = Inr st" "st_size st = int (length (encode_utf8 t))"
  shows "snd (read_text_file_async ccwd scwd C lost m path (fst (write_file_async ccwd scwd C lost n path (DString t) (s, w)))) = Inr t"
proof -
  let ?s = "s\<lparr>totalOps := totalOps s + 1\<rparr>" let ?w = "fst (c_writeFile C target (encode_utf8 t) w)"
  have g: "target = request_path ccwd path None" "in_policy (policy s) target" "int (length (encode_utf8 t)) \<le> max_read_bytes (policy s)"
    "length (encode_utf8 t) < 4294967296" using assms(4) by (auto simp: admits_def)
  have wr: "fst (write_file_async ccwd scwd C lost n path (DString t) (s, w)) = (?s, ?w)"
    using admitted_write [OF assms(1-4)] by (simp add: write_file_async_def to_ab_def assms(7))
  have "guarded_read C (policy ?s) target ?w = Inr (encode_utf8 t)"
    using g(2,3) assms(8-10) unfolding guarded_read_def guarded_def by (simp add: read_file_def)
  moreover have "policy ?s = new_permission scwd rts q al ro" using assms(3) by simp
  ultimately have "client_readFile ccwd scwd C lost m path None (?s, ?w) = ((?s\<lparr>totalOps := totalOps ?s + 1\<rparr>, ?w), Inr (encode_utf8 t))"
    using client_read [OF assms(1,2) _ g(1) assms(5,6), where C = C and w = ?w and s = ?s and lost = lost] assms(8) g(4)
    by (simp add: remote_def)
  then show ?thesis unfolding wr read_text_file_async_def read_file_async_def by (simp add: decode_encode_utf8_all)
qed

end
