(* ===== verification/Fs_Handles.thy ===== *)
theory Fs_Handles
  imports Fs_Core
begin

text \<open>
  The rest of the file API: the primitives that \<open>js/internal/fs-core.js\<close> and \<open>fs-sync.js\<close> hand through, the
  class \<open>File\<close> over the handles of the C layer, and the forms with a callback and with a promise of
  \<open>js/builtins/fs\<close>.
\<close>

section \<open>The other primitives\<close>

record 'w host = "'w cio" +
  h_fstat :: "nat \<Rightarrow> 'w \<Rightarrow> stat_info option"
  h_statvfs :: "jsstr \<Rightarrow> 'w \<Rightarrow> js_error + int list"
  h_realpath :: "jsstr \<Rightarrow> 'w \<Rightarrow> js_error + jsstr"
  h_readlink :: "jsstr \<Rightarrow> 'w \<Rightarrow> js_error + jsstr"
  h_chmod :: "jsstr \<Rightarrow> int \<Rightarrow> 'w \<Rightarrow> 'w \<times> (js_error + unit)"
  h_chown :: "jsstr \<Rightarrow> int \<Rightarrow> int \<Rightarrow> 'w \<Rightarrow> 'w \<times> (js_error + unit)"
  h_utimes :: "jsstr \<Rightarrow> int \<Rightarrow> int \<Rightarrow> 'w \<Rightarrow> 'w \<times> (js_error + unit)"
  h_symlink :: "jsstr \<Rightarrow> jsstr \<Rightarrow> 'w \<Rightarrow> 'w \<times> (js_error + unit)"
  h_mkdtemp :: "jsstr \<Rightarrow> 'w \<Rightarrow> 'w \<times> (js_error + jsstr)"
  h_fread :: "nat \<Rightarrow> int \<Rightarrow> 'w \<Rightarrow> 'w \<times> (js_error + bytes)"
  h_fwrite :: "nat \<Rightarrow> bytes \<Rightarrow> 'w \<Rightarrow> 'w \<times> (js_error + int)"
  h_fseek :: "nat \<Rightarrow> int \<Rightarrow> int \<Rightarrow> 'w \<Rightarrow> 'w \<times> (js_error + int)"
  h_ftell :: "nat \<Rightarrow> 'w \<Rightarrow> js_error + int"
  h_fclose :: "nat \<Rightarrow> 'w \<Rightarrow> 'w \<times> (js_error + unit)"
  h_ftruncate :: "nat \<Rightarrow> int \<Rightarrow> 'w \<Rightarrow> 'w \<times> (js_error + unit)"
  h_fsync :: "nat \<Rightarrow> 'w \<Rightarrow> 'w \<times> (js_error + unit)"
  h_fdatasync :: "nat \<Rightarrow> 'w \<Rightarrow> 'w \<times> (js_error + unit)"
  h_fchmod :: "nat \<Rightarrow> int \<Rightarrow> 'w \<Rightarrow> 'w \<times> (js_error + unit)"
  h_futimes :: "nat \<Rightarrow> int \<Rightarrow> int \<Rightarrow> 'w \<Rightarrow> 'w \<times> (js_error + unit)"

definition fs_exists :: "'w host \<Rightarrow> jsstr \<Rightarrow> 'w \<Rightarrow> bool" where
  "fs_exists H path w = c_exists H path w"

definition fs_fstat :: "'w host \<Rightarrow> nat \<Rightarrow> 'w \<Rightarrow> js_error + stat_info" where
  "fs_fstat H fd w = normalize_stat (h_fstat H fd w)"

definition fs_statvfs :: "'w host \<Rightarrow> jsstr \<Rightarrow> 'w \<Rightarrow> js_error + int list" where
  "fs_statvfs H path w = h_statvfs H path w"

definition fs_realpath :: "'w host \<Rightarrow> jsstr \<Rightarrow> 'w \<Rightarrow> js_error + jsstr" where
  "fs_realpath H path w = h_realpath H path w"

definition fs_readlink :: "'w host \<Rightarrow> jsstr \<Rightarrow> 'w \<Rightarrow> js_error + jsstr" where
  "fs_readlink H path w = h_readlink H path w"

definition fs_chmod :: "'w host \<Rightarrow> jsstr \<Rightarrow> int \<Rightarrow> 'w \<Rightarrow> 'w \<times> (js_error + unit)" where
  "fs_chmod H path mode w = h_chmod H path mode w"

definition fs_chown :: "'w host \<Rightarrow> jsstr \<Rightarrow> int \<Rightarrow> int \<Rightarrow> 'w \<Rightarrow> 'w \<times> (js_error + unit)" where
  "fs_chown H path uid gid w = h_chown H path uid gid w"

definition fs_utimes :: "'w host \<Rightarrow> jsstr \<Rightarrow> int \<Rightarrow> int \<Rightarrow> 'w \<Rightarrow> 'w \<times> (js_error + unit)" where
  "fs_utimes H path atime mtime w = h_utimes H path atime mtime w"

definition fs_symlink :: "'w host \<Rightarrow> jsstr \<Rightarrow> jsstr \<Rightarrow> 'w \<Rightarrow> 'w \<times> (js_error + unit)" where
  "fs_symlink H target path w = h_symlink H target path w"

definition fs_mkdtemp :: "'w host \<Rightarrow> jsstr \<Rightarrow> 'w \<Rightarrow> 'w \<times> (js_error + jsstr)" where
  "fs_mkdtemp H pre w = h_mkdtemp H pre w"

definition fs_readdir :: "'w host \<Rightarrow> jsstr \<Rightarrow> 'w \<Rightarrow> js_error + jsstr list" where
  "fs_readdir H path w = c_readdir H path w"

definition fs_remove :: "'w host \<Rightarrow> jsstr \<Rightarrow> 'w \<Rightarrow> 'w \<times> (js_error + unit)" where
  "fs_remove H path w = c_remove H path w"

definition fs_rename :: "'w host \<Rightarrow> jsstr \<Rightarrow> jsstr \<Rightarrow> 'w \<Rightarrow> 'w \<times> (js_error + unit)" where
  "fs_rename H old new w = c_rename H old new w"

text \<open>The synchronous forms of the Node API that add nothing; \<open>fstatSync\<close> wraps the result.\<close>

definition fstat_sync :: "'w host \<Rightarrow> nat \<Rightarrow> 'w \<Rightarrow> js_error + stats" where
  "fstat_sync H fd w = map_sum id new_stats (fs_fstat H fd w)"

definition exists_sync :: "'w host \<Rightarrow> jsstr \<Rightarrow> 'w \<Rightarrow> bool" where
  "exists_sync H path w = fs_exists H path w"

definition realpath_sync :: "'w host \<Rightarrow> jsstr \<Rightarrow> 'w \<Rightarrow> js_error + jsstr" where
  "realpath_sync H path w = fs_realpath H path w"

definition readlink_sync :: "'w host \<Rightarrow> jsstr \<Rightarrow> 'w \<Rightarrow> js_error + jsstr" where
  "readlink_sync H path w = fs_readlink H path w"

definition symlink_sync :: "'w host \<Rightarrow> jsstr \<Rightarrow> jsstr \<Rightarrow> 'w \<Rightarrow> 'w \<times> (js_error + unit)" where
  "symlink_sync H target path w = fs_symlink H target path w"

definition chmod_sync :: "'w host \<Rightarrow> jsstr \<Rightarrow> int \<Rightarrow> 'w \<Rightarrow> 'w \<times> (js_error + unit)" where
  "chmod_sync H path mode w = fs_chmod H path mode w"

definition chown_sync :: "'w host \<Rightarrow> jsstr \<Rightarrow> int \<Rightarrow> int \<Rightarrow> 'w \<Rightarrow> 'w \<times> (js_error + unit)" where
  "chown_sync H path uid gid w = fs_chown H path uid gid w"

definition utimes_sync :: "'w host \<Rightarrow> jsstr \<Rightarrow> int \<Rightarrow> int \<Rightarrow> 'w \<Rightarrow> 'w \<times> (js_error + unit)" where
  "utimes_sync H path atime mtime w = fs_utimes H path atime mtime w"

definition mkdtemp_sync :: "'w host \<Rightarrow> jsstr \<Rightarrow> 'w \<Rightarrow> 'w \<times> (js_error + jsstr)" where
  "mkdtemp_sync H pre w = fs_mkdtemp H pre w"

definition statfs_sync :: "'w host \<Rightarrow> jsstr \<Rightarrow> 'w \<Rightarrow> js_error + int list" where
  "statfs_sync H path w = fs_statvfs H path w"

section \<open>The class File\<close>

text \<open>An object \<open>File\<close> is its handle.\<close>

definition file_open :: "'w host \<Rightarrow> jsstr \<Rightarrow> jsstr \<Rightarrow> 'w \<Rightarrow> 'w \<times> (js_error + nat)" where
  "file_open H path mode w = c_open H path mode w"

definition file_read :: "'w host \<Rightarrow> nat \<Rightarrow> int \<Rightarrow> 'w \<Rightarrow> 'w \<times> (js_error + bytes)" where
  "file_read H f n w = h_fread H f n w"

definition file_write :: "'w host \<Rightarrow> nat \<Rightarrow> fdata \<Rightarrow> 'w \<Rightarrow> 'w \<times> (js_error + int)" where
  "file_write H f d w = (case to_ab (cio.truncate H) d of Inl e \<Rightarrow> (w, Inl e) | Inr b \<Rightarrow> h_fwrite H f b w)"

definition file_seek :: "'w host \<Rightarrow> nat \<Rightarrow> int \<Rightarrow> int option \<Rightarrow> 'w \<Rightarrow> 'w \<times> (js_error + int)" where
  "file_seek H f offset whence w = h_fseek H f offset (case whence of None \<Rightarrow> 0 | Some k \<Rightarrow> k) w"

definition file_tell :: "'w host \<Rightarrow> nat \<Rightarrow> 'w \<Rightarrow> js_error + int" where
  "file_tell H f w = h_ftell H f w"

definition file_close :: "'w host \<Rightarrow> nat \<Rightarrow> 'w \<Rightarrow> 'w \<times> (js_error + unit)" where
  "file_close H f w = h_fclose H f w"

definition file_truncate :: "'w host \<Rightarrow> nat \<Rightarrow> int \<Rightarrow> 'w \<Rightarrow> 'w \<times> (js_error + unit)" where
  "file_truncate H f len w = h_ftruncate H f len w"

definition file_sync :: "'w host \<Rightarrow> nat \<Rightarrow> 'w \<Rightarrow> 'w \<times> (js_error + unit)" where
  "file_sync H f w = h_fsync H f w"

definition file_datasync :: "'w host \<Rightarrow> nat \<Rightarrow> 'w \<Rightarrow> 'w \<times> (js_error + unit)" where
  "file_datasync H f w = h_fdatasync H f w"

definition file_chmod :: "'w host \<Rightarrow> nat \<Rightarrow> int \<Rightarrow> 'w \<Rightarrow> 'w \<times> (js_error + unit)" where
  "file_chmod H f mode w = h_fchmod H f mode w"

definition file_utimes :: "'w host \<Rightarrow> nat \<Rightarrow> int \<Rightarrow> int \<Rightarrow> 'w \<Rightarrow> 'w \<times> (js_error + unit)" where
  "file_utimes H f atime mtime w = h_futimes H f atime mtime w"

section \<open>Callbacks and promises\<close>

text \<open>
  \<open>callbackify\<close>: the synchronous operation runs at once, and a job calls the callback with an error or with
  \<open>null\<close> and the value. Without a function at the end nothing runs, and a \<open>TypeError\<close> is thrown.
\<close>

datatype 'v fs_job = CallError js_error | CallValue 'v

definition callbackify :: "('a \<Rightarrow> 'w \<Rightarrow> 'w \<times> (js_error + 'v)) \<Rightarrow> 'a \<Rightarrow> bool \<Rightarrow> 'w \<Rightarrow> 'w \<times> (js_error + 'v fs_job list)" where
  "callbackify fn args callback w =
     (if \<not> callback then (w, Inl (type_error (js ''The last argument must be a function'')))
      else case fn args w of
          (w', Inl e) \<Rightarrow> (w', Inr [CallError e])
        | (w', Inr v) \<Rightarrow> (w', Inr [CallValue v]))"

text \<open>\<open>promisify\<close>: the executor runs the operation at once; the promise is fulfilled or rejected.\<close>

datatype 'v fs_promise = Fulfilled 'v | Rejected js_error

definition promisify :: "('a \<Rightarrow> 'w \<Rightarrow> 'w \<times> (js_error + 'v)) \<Rightarrow> 'a \<Rightarrow> 'w \<Rightarrow> 'w \<times> 'v fs_promise" where
  "promisify fn args w = (case fn args w of (w', Inl e) \<Rightarrow> (w', Rejected e) | (w', Inr v) \<Rightarrow> (w', Fulfilled v))"

definition promise_job :: "'v fs_promise \<Rightarrow> 'v fs_job" where
  "promise_job p = (case p of Fulfilled v \<Rightarrow> CallValue v | Rejected e \<Rightarrow> CallError e)"

text \<open>The three forms of an operation do the same, at the same time, and end the same way.\<close>

lemma three_forms:
  "fst (callbackify fn args True w) = fst (fn args w) \<and> fst (promisify fn args w) = fst (fn args w) \<and>
   snd (callbackify fn args True w) = Inr [promise_job (snd (promisify fn args w))] \<and>
   (case snd (fn args w) of Inl e \<Rightarrow> snd (promisify fn args w) = Rejected e | Inr v \<Rightarrow> snd (promisify fn args w) = Fulfilled v)"
  by (simp add: callbackify_def promisify_def promise_job_def split: prod.split sum.split)

text \<open>\<open>truncateSync\<close> opens a \<open>File\<close>, fails, and leaves it open.\<close>

lemma truncate_leaks:
  "c_open H path (js ''r+'') w = (w', Inr f) \<Longrightarrow> fst (truncate_sync (cio.truncate H) path len w) = w' \<and>
     (\<exists>e. snd (truncate_sync (cio.truncate H) path len w) = Inl e)"
  by (simp add: truncate_sync_def cio.defs)

end
