(* ===== verification/Subprocess_Names.thy ===== *)
theory Subprocess_Names
  imports Subprocess_Service "HOL-Library.AList"
begin

text \<open>
  The processes with a name of \<open>js/builtins/skyjs/subprocess.js\<close>, and the commands of
  \<open>js/builtins/child_process.js\<close>. \<open>start\<close> and \<open>stop\<close> wait in the middle, so each of them is two steps of
  a machine: the call, and what runs after the wait.
\<close>

section \<open>The table of names\<close>

text \<open>
  A child is the number of its \<open>spawn\<close>. Its process number is 0 until the service has answered
  (\<open>acked\<close>); \<open>starting\<close> and \<open>stopping\<close> are the calls that wait, \<open>killed\<close> the children that \<open>stop\<close> was asked for.
\<close>

record names =
  named :: "(jsstr \<times> nat) list"
  starting :: "(jsstr \<times> nat) list"
  stopping :: "(jsstr \<times> nat) list"
  stopped :: "nat list"
  acked :: "(nat \<times> int) list"
  next_child :: nat

definition no_names :: names where
  "no_names = \<lparr>named = [], starting = [], stopping = [], stopped = [], acked = [], next_child = 0\<rparr>"

datatype name_op = Start jsstr | Resume jsstr nat | Stop jsstr | Waited jsstr nat | Ack nat int

text \<open>\<open>child.pid\<close>.\<close>

definition child_pid :: "names \<Rightarrow> nat \<Rightarrow> int" where
  "child_pid s c = (case map_of (acked s) c of None \<Rightarrow> 0 | Some p \<Rightarrow> p)"

text \<open>The two halves of \<open>start\<close>: the error of the first, the number that the second returns.\<close>

definition start_call :: "jsstr \<Rightarrow> names \<Rightarrow> names \<times> js_error option" where
  "start_call name s =
     (if map_of (named s) name \<noteq> None
      then (s, Some (skyjs_error (js ''ERR_BUSY'') (js ''process already running: '' @ name)))
      else (s\<lparr>starting := starting s @ [(name, next_child s)], next_child := next_child s + 1\<rparr>, None))"

definition start_resume :: "jsstr \<Rightarrow> nat \<Rightarrow> names \<Rightarrow> names \<times> int" where
  "start_resume name c s =
     (s\<lparr>starting := remove1 (name, c) (starting s), named := AList.update name c (named s)\<rparr>, child_pid s c)"

text \<open>The two halves of \<open>stop\<close>.\<close>

definition stop_call :: "jsstr \<Rightarrow> names \<Rightarrow> names" where
  "stop_call name s = (case map_of (named s) name of
     None \<Rightarrow> s | Some c \<Rightarrow> s\<lparr>stopping := stopping s @ [(name, c)], stopped := stopped s @ [c]\<rparr>)"

definition stop_resume :: "jsstr \<Rightarrow> nat \<Rightarrow> names \<Rightarrow> names" where
  "stop_resume name c s = s\<lparr>stopping := remove1 (name, c) (stopping s), named := AList.delete name (named s)\<rparr>"

text \<open>\<open>isRunning\<close>; \<open>status\<close> is the answer of the service to the process number, \<open>None\<close> when it rejects.\<close>

definition is_running :: "(int \<Rightarrow> bool option) \<Rightarrow> jsstr \<Rightarrow> names \<Rightarrow> bool option" where
  "is_running status name s = (case map_of (named s) name of
     None \<Rightarrow> Some False | Some c \<Rightarrow> map_option Not (status (child_pid s c)))"

definition list_names :: "names \<Rightarrow> (jsstr \<times> int) list" where
  "list_names s = map (\<lambda>(name, c). (name, child_pid s c)) (named s)"

fun names_step :: "names \<Rightarrow> name_op \<Rightarrow> names" where
  "names_step s (Start name) = fst (start_call name s)"
| "names_step s (Resume name c) = (if (name, c) \<in> set (starting s) then fst (start_resume name c s) else s)"
| "names_step s (Stop name) = stop_call name s"
| "names_step s (Waited name c) = (if (name, c) \<in> set (stopping s) then stop_resume name c s else s)"
| "names_step s (Ack c p) = s\<lparr>acked := (c, p) # acked s\<rparr>"

section \<open>Commands\<close>

text \<open>\<open>String(command).split(/\s+/)\<close> of \<open>exec\<close>: the program and its arguments.\<close>

function split_spaces :: "jsstr \<Rightarrow> jsstr list" where
  "split_spaces s =
     (let w = takeWhile (\<lambda>c. \<not> is_space c) s; r = dropWhile (\<lambda>c. \<not> is_space c) s
      in if r = [] then [w] else w # split_spaces (dropWhile is_space r))"
  by pat_completeness auto
termination
proof (relation "measure length")
  fix s w r :: jsstr
  assume r: "r = dropWhile (\<lambda>c. \<not> is_space c) s" "r \<noteq> []"
  then have "is_space (hd r)" using hd_dropWhile by metis
  with r(2) obtain c t where c: "r = c # t" "is_space c" by (cases r) auto
  have "length r \<le> length s" unfolding r(1) by (rule length_dropWhile_le)
  then show "(dropWhile is_space r, s) \<in> measure length" using length_dropWhile_less [of is_space t] c by simp
qed simp

declare split_spaces.simps [simp del]

definition exec_parts :: "jsstr \<Rightarrow> jsstr \<times> jsstr list" where
  "exec_parts command = (let ps = split_spaces command in (hd ps, tl ps))"

section \<open>No child is lost\<close>

text \<open>
  Every child that was spawned and that nobody has stopped can be reached by its name, or its \<open>start\<close> still
  waits; a name that is being stopped keeps its child until the end.
\<close>

definition names_ok :: "(jsstr \<Rightarrow> nat option) \<Rightarrow> (jsstr \<times> nat) set \<Rightarrow> (jsstr \<times> nat) set \<Rightarrow> nat set \<Rightarrow> nat \<Rightarrow> bool" where
  "names_ok M A B K N \<longleftrightarrow> (\<forall>n c. (n, c) \<in> A \<longrightarrow> M n = None) \<and> (\<forall>n c c'. (n, c) \<in> A \<longrightarrow> (n, c') \<in> A \<longrightarrow> c = c') \<and>
     (\<forall>n c. (n, c) \<in> B \<longrightarrow> M n = Some c \<and> c \<in> K) \<and>
     (\<forall>c<N. c \<in> K \<or> (\<exists>n. (n, c) \<in> A \<or> M n = Some c))"

definition names_inv :: "names \<Rightarrow> bool" where
  "names_inv s \<longleftrightarrow> distinct (map fst (starting s)) \<and> distinct (map fst (stopping s)) \<and>
     names_ok (map_of (named s)) (set (starting s)) (set (stopping s)) (set (stopped s)) (next_child s)"

text \<open>No two calls of \<open>start\<close>, and no two calls of \<open>stop\<close>, for one name at the same time.\<close>

fun no_overlap :: "names \<Rightarrow> name_op \<Rightarrow> bool" where
  "no_overlap s (Start name) \<longleftrightarrow> name \<notin> fst ` set (starting s)"
| "no_overlap s (Stop name) \<longleftrightarrow> name \<notin> fst ` set (stopping s)"
| "no_overlap s a \<longleftrightarrow> True"

lemma ok_start: "names_ok M A B K N \<Longrightarrow> M n = None \<Longrightarrow> n \<notin> fst ` A \<Longrightarrow> names_ok M (insert (n, N) A) B K (Suc N)"
  unfolding names_ok_def by (auto simp: less_Suc_eq image_iff)

lemma ok_resume: "names_ok M A B K N \<Longrightarrow> (n, c) \<in> A \<Longrightarrow> names_ok (M(n \<mapsto> c)) (A - {(n, c)}) B K N"
  unfolding names_ok_def by (intro conjI) (auto, metis option.discI)

lemma ok_stop: "names_ok M A B K N \<Longrightarrow> M n = Some c \<Longrightarrow> names_ok M A (insert (n, c) B) (insert c K) N"
  unfolding names_ok_def by auto

lemma ok_waited:
  assumes ok: "names_ok M A B K N" and b: "(n, c) \<in> B"
  shows "names_ok (M(n := None)) A (B - {(n, c)}) K N"
proof -
  from ok have A: "\<forall>k d. (k, d) \<in> A \<longrightarrow> M k = None" and one: "\<forall>k d d'. (k, d) \<in> A \<longrightarrow> (k, d') \<in> A \<longrightarrow> d = d'"
    and B: "\<forall>k d. (k, d) \<in> B \<longrightarrow> M k = Some d \<and> d \<in> K" and C: "\<forall>x<N. x \<in> K \<or> (\<exists>k. (k, x) \<in> A \<or> M k = Some x)"
    unfolding names_ok_def by blast+
  have m: "M n = Some c" "c \<in> K" using B b by blast+
  have "x \<in> K \<or> (\<exists>k. (k, x) \<in> A \<or> (M(n := None)) k = Some x)" if x: "x < N" for x
    using C x m by (metis fun_upd_apply option.inject)
  moreover have "(M(n := None)) k = Some d \<and> d \<in> K" if "(k, d) \<in> B - {(n, c)}" for k d
  proof -
    have d: "M k = Some d" "d \<in> K" using B that by blast+
    then have "k \<noteq> n" using m(1) that by auto
    then show ?thesis using d by simp
  qed
  moreover have "(M(n := None)) k = None" if "(k, d) \<in> A" for k d using A that by auto
  ultimately show ?thesis unfolding names_ok_def using one by blast
qed

lemma remove_pair: "distinct (map fst xs) \<Longrightarrow> set (remove1 p xs) = set xs - {p} \<and> distinct (map fst (remove1 p xs))"
proof (intro conjI)
  assume d: "distinct (map fst xs)"
  then show "set (remove1 p xs) = set xs - {p}" by (intro set_remove1_eq) (simp add: distinct_map)
  show "distinct (map fst (remove1 p xs))" using d by (auto simp: distinct_map set_remove1_eq inj_on_diff)
qed

lemma names_start: "names_inv s \<Longrightarrow> name \<notin> fst ` set (starting s) \<Longrightarrow> names_inv (fst (start_call name s))"
  using ok_start [of "map_of (named s)" "set (starting s)" "set (stopping s)" "set (stopped s)" "next_child s" name]
  unfolding names_inv_def start_call_def by (cases "map_of (named s) name") simp_all

lemma names_resume: "names_inv s \<Longrightarrow> (name, c) \<in> set (starting s) \<Longrightarrow> names_inv (fst (start_resume name c s))"
  using ok_resume [of "map_of (named s)" "set (starting s)" "set (stopping s)" "set (stopped s)" "next_child s" name c]
    remove_pair [of "starting s" "(name, c)"]
  unfolding names_inv_def start_resume_def by (simp add: update_conv')

lemma names_stop: "names_inv s \<Longrightarrow> name \<notin> fst ` set (stopping s) \<Longrightarrow> names_inv (stop_call name s)"
  using ok_stop [of "map_of (named s)" "set (starting s)" "set (stopping s)" "set (stopped s)" "next_child s" name]
  unfolding names_inv_def stop_call_def by (cases "map_of (named s) name") simp_all

lemma names_waited: "names_inv s \<Longrightarrow> (name, c) \<in> set (stopping s) \<Longrightarrow> names_inv (stop_resume name c s)"
  using ok_waited [of "map_of (named s)" "set (starting s)" "set (stopping s)" "set (stopped s)" "next_child s" name c]
    remove_pair [of "stopping s" "(name, c)"]
  unfolding names_inv_def stop_resume_def by (simp add: delete_conv')

interpretation names: guarded_component names_step names_inv no_overlap
proof
  fix s a
  assume i: "names_inv s" and l: "no_overlap s a"
  show "names_inv (names_step s a)"
  proof (cases a)
    case (Ack c p)
    then show ?thesis using i by (simp add: names_inv_def)
  qed (use i l in \<open>auto intro: names_start names_resume names_stop names_waited\<close>)
qed

text \<open>
  Without overlapping calls for one name, no process is ever lost: whatever was started and not stopped
  is listed under its name, or its \<open>start\<close> has not returned yet.
\<close>

theorem children_reachable:
  assumes "legal_run names_step no_overlap no_names ops" "c < next_child (foldl names_step no_names ops)"
    and "c \<notin> set (stopped (foldl names_step no_names ops))"
  shows "\<exists>n. (n, c) \<in> set (starting (foldl names_step no_names ops)) \<or>
    (n, child_pid (foldl names_step no_names ops) c) \<in> set (list_names (foldl names_step no_names ops))"
proof -
  let ?s = "foldl names_step no_names ops"
  have "names_inv ?s" by (rule names.run_legal [OF _ assms(1)]) (simp add: names_inv_def names_ok_def no_names_def)
  then obtain n where "(n, c) \<in> set (starting ?s) \<or> map_of (named ?s) n = Some c"
    using assms(2,3) unfolding names_inv_def names_ok_def by blast
  then show ?thesis by (force simp: list_names_def dest: map_of_SomeD)
qed

theorem children_reachable_witness:
  "\<exists>n. (n, 0) \<in> set (starting (foldl names_step no_names [Start (js ''a''), Ack 0 7, Resume (js ''a'') 0])) \<or>
    (n, 7) \<in> set (list_names (foldl names_step no_names [Start (js ''a''), Ack 0 7, Resume (js ''a'') 0]))"
proof -
  let ?ops = "[Start (js ''a''), Ack 0 7, Resume (js ''a'') 0]"
  have 1: "legal_run names_step no_overlap no_names ?ops" by code_simp
  have 2: "0 < next_child (foldl names_step no_names ?ops)" "0 \<notin> set (stopped (foldl names_step no_names ?ops))"
    "child_pid (foldl names_step no_names ?ops) 0 = 7" by code_simp+
  show ?thesis using children_reachable [OF 1 2(1,2)] 2(3) by simp
qed

section \<open>What goes wrong\<close>

text \<open>Two overlapping starts of one name both succeed, and the first process is lost.\<close>

lemma start_race:
  "(let s = foldl names_step no_names [Start (js ''a''), Start (js ''a''), Resume (js ''a'') 0, Resume (js ''a'') 1]
    in (named s, starting s, stopped s, next_child s)) = ([(js ''a'', 1)], [], [], 2)"
  by code_simp

text \<open>After two overlapping stops, the second deletes the name of the process that was started in between.\<close>

lemma stop_race:
  "(let s = foldl names_step no_names [Start (js ''a''), Resume (js ''a'') 0, Stop (js ''a''), Stop (js ''a''), Waited (js ''a'') 0,
        Start (js ''a''), Resume (js ''a'') 1, Waited (js ''a'') 0]
    in (named s, starting s, next_child s)) = ([], [], 2)"
  by code_simp

text \<open>\<open>start\<close> returns the number 0 when the service has not answered yet, which takes longer than its wait.\<close>

lemma start_returns_zero: "map_of (acked s) c = None \<Longrightarrow> snd (start_resume name c s) = 0"
  by (simp add: start_resume_def child_pid_def)

text \<open>A quoted argument is taken apart, and a blank in front is an empty program.\<close>

lemma exec_quotes: "exec_parts (js ''echo x\"a b\"'') = (js ''echo'', [js ''x\"a'', js ''b\"''])"
  by code_simp

lemma exec_blank: "exec_parts (js '' ls'') = ([], [js ''ls''])"
  by code_simp

end
