(* ===== verification/Spec2Isabelle.thy ===== *)
theory Spec2Isabelle
  imports Permission Buffer_Memory Event_Loop Binary_Frame Ws_Adapter Ws_Session Http_Keepalive Http_Flights Http_Node Net_Socket Skynet_Core Events Url_Core Stream_Core Gateserver Fs_Service Module_Loader Subprocess_Client Stream_Laws Cluster Abort Util Url_Legacy Fetch Fs_Async Fs_Handles Subprocess_Names
begin

text \<open>
  A model of the JavaScript runtime library of SkyJS (\<open>js/\<close>, \<open>service/\<close>, \<open>packages/\<close>), the code that
  turns a service of the skynet framework into a Node-like environment, and the theorems that make its
  components correct. File names are relative to \<open>src/\<close>.

  \<^bold>\<open>How the parts interact.\<close> The C layer delivers messages, socket events and timer expirations to
  \<open>js/internal/skynet-core.js\<close> and \<open>js/internal/event-loop.js\<close>. Above them stand the sockets
  (\<open>net-core.js\<close>), the HTTP client and server (\<open>http-core.js\<close>), the WebSockets (\<open>packages/websocket\<close>),
  the TCP gate and the cluster client (\<open>builtins/skyjs\<close>). Files and child processes belong to owner
  services (\<open>service/\<close>) that are reached by framed requests (\<open>binary-frame.js\<close>) and apply a policy
  (\<open>permission.js\<close>). Streams, events, URLs, buffers, paths and errors are libraries that all of them use,
  and \<open>loader.js\<close> decides which code may load which.

  \<^bold>\<open>Theories, from the bottom up.\<close>

  \<^item> \<open>Prelude\<close>: strings of 16-bit code units and bytes of 8 bits, the methods of strings and arrays that the
    sources call, and three interfaces as locales: \<open>component\<close> and \<open>guarded_component\<close> (an invariant kept by
    every operation, or by every legal one), \<open>splitter\<close> (a parser whose result does not depend on how its
    input is cut) and \<open>refinement\<close> (a simulation). Each is interpreted in the theories below.
  \<^item> \<open>Path_Posix\<close>, \<open>Permission\<close>: the path algebra and the policy of the file service: normal forms,
    \<open>resolve\<close> against \<open>relative\<close>, and that an admitted path lies below one of the roots.
  \<^item> \<open>Text_Codec\<close>, \<open>Buffer_Core\<close>, \<open>Buffer_Memory\<close>: UTF-8 and the encodings of \<open>Buffer\<close>, with 32-bit arithmetic where
    the source uses it: round trips and equivalences; buffers as views of memory, and which of them see a write.
  \<^item> \<open>Event_Loop\<close>: timers, immediates, \<open>nextTick\<close> and microtasks over one wake-up of the C layer: no timer is
    forgotten, timers run in order, and a tick returns.
  \<^item> \<open>Json\<close>, \<open>Binary_Frame\<close>, \<open>Frame_Rpc\<close>: the envelopes of the services; decoding is independent of chunks.
  \<^item> \<open>Net_Core\<close>, \<open>Net_Tls\<close>, \<open>Net_Socket\<close>: the buffered reader refines a byte stream, also over TLS; the sockets
    of the Node facade, whose events come in the order of a connection.
  \<^item> \<open>Http_Text\<close>, \<open>Http_Core\<close>, \<open>Http_Url\<close>, \<open>Http_Messages\<close>, \<open>Http_Client\<close>, \<open>Http_Keepalive\<close>, \<open>Http_Flights\<close>, \<open>Http_Node\<close>: what
    one side of HTTP writes the other reads back, over kept connections too, and in the Node facade however the
    data is cut. \<open>Http_Client\<close> has the calls of the client as functions, \<open>Http_Flights\<close> as state machines whose
    steps interleave: every socket has one owner at any time, except those of failed TLS upgrades, which leak.
  \<^item> \<open>Fetch\<close>: \<open>fetch\<close> with its headers and responses, from the program through the wire to a server and back.
  \<^item> \<open>Ws_Frame\<close>, \<open>Ws_Session\<close>, \<open>Ws_Adapter\<close>: the frames of RFC 6455, fragmented messages, the handshakes, and the
    reader of the package, which is the one of the engine.
  \<^item> \<open>Skynet_Core\<close>: requests are answered once, calls settle once and with the answer of their session, whatever
    happens in between; sessions, timers and the router.
  \<^item> \<open>Events\<close>, \<open>Stream_Core\<close>, \<open>Stream_Node\<close>, \<open>Stream_Laws\<close>, \<open>Abort\<close>: emitters whose listeners change them,
    the stream kernel with its \<open>pipe\<close> as a refinement of a channel, hooks that fail and the identity of errors
    included, and the Node streams as a machine with an
    explicit stack, promises and jobs, for programs that call back at every point.
  \<^item> \<open>Url_Params\<close>, \<open>Url_Core\<close>, \<open>Url_Legacy\<close>: URLs and query strings: parsing what was formatted; paths as file URLs.
  \<^item> \<open>Errors\<close>, \<open>Fs_Core\<close>, \<open>Fs_Handles\<close>, \<open>Fs_Service\<close>, \<open>Fs_Async\<close>, \<open>Subprocess_Service\<close>, \<open>Subprocess_Client\<close>, \<open>Subprocess_Names\<close>: the error tables, the file
    operations over the primitives of the C layer, and the two owner services with their clients, end to end; the file service keeps to its policy until a message
    replaces it; a child's output is kept within its limit when the limit is a number; the replies of a service
    have a type, and no named process is lost while calls do not overlap. \<open>Errors\<close> distinguishes what is
    thrown: errors, other values by what \<open>message\<close> and \<open>String\<close> give of them, if anything, and \<open>null\<close>.
  \<^item> \<open>Gateserver\<close>, \<open>Cluster\<close>: the gate never delivers a message of a connection that is not open; a call to
    another node has exactly one fate.
  \<^item> \<open>Module_Loader\<close>: resolution, the access rule of internal modules, the cache: a module runs once; loading ends
    when the files are finitely many and the \<open>main\<close> entries of packages do not lead in a circle; outside
    the engine an internal file is only reached by its path, never by an \<open>internal/\<close> request.
  \<^item> \<open>Util\<close>: \<open>inspect\<close>, \<open>format\<close> and the structural comparison over a heap of shared and cyclic objects, which
    always ends and on trees is equality; functions and symbols are compared by identity.

  \<^bold>\<open>State and effects.\<close> An object of the source is a record, and an operation a function from it to the next
  one; what the code does to the outside is a list of effects or a trace in the record. A throw is the left of a
  sum, or a branch of the state after it. The program that uses the library (listeners, callbacks, modules) is a
  parameter: the theorems about reentrant code hold for all of them. The C layer is a parameter or an argument
  (answers of primitives, session numbers, serialization, TLS), and what the code relies on is a named hypothesis
  with a witness.

  \<^bold>\<open>Bounds and fuel.\<close> Loops are structural or have a measure. Fuel stands where the source can run forever
  or until the stack is exhausted: nested emits and nested requires count the depth of the call stack, and
  \<open>Module_Loader.load_returns\<close> gives a depth that is enough; the lookup of a package by its \<open>main\<close> really
  diverges on a circle of them (\<open>main_cycle_diverges\<close>), which is why the theorem excludes circles. The machine of the Node streams does one step at a time and needs none.
  Integers are words where they wrap around (codecs, masks, session numbers) and mathematical integers where the
  source stays below \<open>2 ^ 53\<close>.

  \<^bold>\<open>Not modelled.\<close> The facades that only rename or combine what is modelled (\<open>path\<close>, \<open>buffer\<close>,
  most of \<open>child_process\<close>, \<open>fs/constants\<close>, \<open>fs/streams\<close>, \<open>stream/promises\<close>, \<open>skyjs/fsx\<close>,
  \<open>skyjs/crypt\<close>, \<open>skyjs/log\<close>, \<open>console\<close>); code whose substance is a C library
  (\<open>crypto\<close>, \<open>crypt-core\<close>, \<open>zlib\<close>, \<open>tls\<close>, \<open>os\<close>, \<open>native-loader\<close>); the installation of globals (\<open>bootstrap\<close>,
  \<open>process\<close>) and the tests of types of the engine (\<open>util-types\<close>); the tests, the benchmarks, the examples and the
  tools of the repository; the C sources.
\<close>

end
